(* ===== verification/Prelude.thy ===== *)
theory Prelude
  imports "HOL-Library.Word" "HOL-Library.Monad_Syntax"
begin

text \<open>
  Shared vocabulary of the development: the machine types of the target (a 32-bit
  little-endian Cortex-M4, where \<open>unsigned long\<close> and \<open>rt_uint32_t\<close> are 32 bits wide and
  plain \<open>char\<close> is unsigned), byte access to words, C strings in byte buffers, the
  \<open>printf\<close> conversions the sources use, and the generic lemmas on lists, words and folds
  that the components share.

  Buffers are lists of bytes. An access outside a buffer is undefined behaviour in C; the
  functions that can do one return \<open>'a option\<close>, and \<open>None\<close> means exactly that the
  access left the object.
\<close>

unbundle bit_operations_syntax

type_synonym byte = "8 word"
type_synonym u16 = "16 word"
type_synonym u32 = "32 word"

text \<open>The tick of the system clock (\<open>rtconfig.h\<close>).\<close>

definition RT_TICK_PER_SECOND :: u32 where "RT_TICK_PER_SECOND = 1000"

named_theorems bytes_simps \<open>access to bytes of words\<close>
named_theorems fmt_simps \<open>lengths and shapes of formatted text\<close>

section \<open>Characters and literals\<close>

text \<open>\<open>lit ''abc''\<close> is the byte content of the C literal, without its terminator.\<close>

definition lit :: "string \<Rightarrow> byte list" where
  "lit s = map (\<lambda>c. word_of_nat (of_char c)) s"

abbreviation ch :: "char \<Rightarrow> byte" where
  "ch c \<equiv> word_of_nat (of_char c)"

lemma lit_Nil [simp]: "lit [] = []"
  by (simp add: lit_def)

lemma lit_Cons [simp]: "lit (c # s) = ch c # lit s"
  by (simp add: lit_def)

lemma lit_append: "lit (s @ t) = lit s @ lit t"
  by (simp add: lit_def)

lemma length_lit [simp]: "length (lit s) = length s"
  by (simp add: lit_def)

section \<open>Words and bytes\<close>

text \<open>Little-endian loads, as the target does for \<open>*(rt_uint16_t *)p\<close> and its kin.\<close>

definition le16 :: "byte \<Rightarrow> byte \<Rightarrow> u16" where
  "le16 b0 b1 = ucast b0 OR push_bit 8 (ucast b1)"

definition le32 :: "byte \<Rightarrow> byte \<Rightarrow> byte \<Rightarrow> byte \<Rightarrow> u32" where
  "le32 b0 b1 b2 b3 =
     ucast b0 OR push_bit 8 (ucast b1) OR push_bit 16 (ucast b2) OR push_bit 24 (ucast b3)"

text \<open>The four bytes of a 32-bit word in memory order.\<close>

definition bytes_le32 :: "u32 \<Rightarrow> byte list" where
  "bytes_le32 w = [ucast w, ucast (drop_bit 8 w), ucast (drop_bit 16 w), ucast (drop_bit 24 w)]"

definition bytes_be32 :: "u32 \<Rightarrow> byte list" where
  "bytes_be32 w = [ucast (drop_bit 24 w), ucast (drop_bit 16 w), ucast (drop_bit 8 w), ucast w]"

definition bytes_le16 :: "u16 \<Rightarrow> byte list" where
  "bytes_le16 w = [ucast w, ucast (drop_bit 8 w)]"

text \<open>The C idiom \<open>(x << n) | (x >> (32 - n))\<close>.\<close>

definition rol32 :: "u32 \<Rightarrow> nat \<Rightarrow> u32" where
  "rol32 x n = push_bit n x OR drop_bit (32 - n) x"

lemma le32_bytes_le32 [bytes_simps]:
  "le32 (ucast w) (ucast (drop_bit 8 w)) (ucast (drop_bit 16 w)) (ucast (drop_bit 24 w)) = w"
proof (rule bit_word_eqI)
  fix n assume "n < LENGTH(32)"
  then have "n < 8 \<or> (8 \<le> n \<and> n < 16) \<or> (16 \<le> n \<and> n < 24) \<or> (24 \<le> n \<and> n < 32)"
    by simp arith
  then show "bit (le32 (ucast w) (ucast (drop_bit 8 w)) (ucast (drop_bit 16 w))
      (ucast (drop_bit 24 w))) n = bit w n"
    by (elim disjE) (auto simp: le32_def bit_simps)
qed

lemma le16_bytes [bytes_simps]: "le16 (ucast w) (ucast (drop_bit 8 w)) = w"
proof (rule bit_word_eqI)
  fix n assume "n < LENGTH(16)"
  then have "n < 8 \<or> (8 \<le> n \<and> n < 16)" by simp arith
  then show "bit (le16 (ucast w) (ucast (drop_bit 8 w))) n = bit w n"
    by (elim disjE) (auto simp: le16_def bit_simps)
qed

lemma bytes_le32_le32 [bytes_simps]: "bytes_le32 (le32 a b c d) = [a, b, c, d]"
proof -
  have "ucast (le32 a b c d) = a"
    by (rule bit_word_eqI) (auto simp: le32_def bit_simps)
  moreover have "ucast (drop_bit 8 (le32 a b c d)) = b"
    by (rule bit_word_eqI) (auto simp: le32_def bit_simps dest: bit_imp_le_length)
  moreover have "ucast (drop_bit 16 (le32 a b c d)) = c"
    by (rule bit_word_eqI) (auto simp: le32_def bit_simps dest: bit_imp_le_length)
  moreover have "ucast (drop_bit 24 (le32 a b c d)) = d"
    by (rule bit_word_eqI) (auto simp: le32_def bit_simps dest: bit_imp_le_length)
  ultimately show ?thesis by (simp add: bytes_le32_def)
qed

lemma le32_bytes: "bytes_le32 w = [a, b, c, d] \<Longrightarrow> le32 a b c d = w"
  using le32_bytes_le32 [of w] by (simp add: bytes_le32_def)

lemma bytes_le32_inj: "bytes_le32 v = bytes_le32 w \<Longrightarrow> v = w"
  unfolding bytes_le32_def by (metis le32_bytes_le32 list.inject)

lemma le32_sum: "le32 a b c d =
  word_of_nat (unat a + 256 * unat b + 65536 * unat c + 16777216 * unat d)"
proof -
  have n: "push_bit k (ucast x :: u32) = word_of_nat (2 ^ k * unat x)" for k and x :: byte
    by (simp add: push_bit_eq_mult mult.commute)
  have "le32 a b c d = ucast a + push_bit 8 (ucast b) + push_bit 16 (ucast c) + push_bit 24 (ucast d)"
  proof -
    let ?a = "ucast a :: u32" and ?b = "push_bit 8 (ucast b) :: u32"
      and ?c = "push_bit 16 (ucast c) :: u32" and ?d = "push_bit 24 (ucast d) :: u32"
    have "?c OR ?d = ?c + ?d"
      by (rule disjunctive_add [symmetric]) (auto simp: bit_simps dest: bit_imp_le_length)
    moreover have "?b OR ?c OR ?d = ?b + (?c OR ?d)"
      by (rule disjunctive_add [symmetric]) (auto simp: bit_simps dest: bit_imp_le_length)
    moreover have "?a OR ?b OR ?c OR ?d = ?a + (?b OR ?c OR ?d)"
      by (rule disjunctive_add [symmetric]) (auto simp: bit_simps dest: bit_imp_le_length)
    ultimately show ?thesis by (simp add: le32_def)
  qed
  also have "\<dots> = word_of_nat (unat a + 256 * unat b + 65536 * unat c + 16777216 * unat d)"
    unfolding n by simp
  finally show ?thesis .
qed

lemma bytes_sum:
  "w = word_of_nat (unat a + 256 * unat b + 65536 * unat c + 16777216 * unat d)"
  if "bytes_le32 w = [a, b, c, d]"
  using le32_bytes [OF that] le32_sum by metis

lemma le16_lo: "ucast (le16 a b) = a"
  by (rule bit_word_eqI) (auto simp: le16_def bit_simps)

lemma le16_hi: "ucast (drop_bit 8 (le16 a b)) = b"
  by (rule bit_word_eqI) (auto simp: le16_def bit_simps dest: bit_imp_le_length)

lemma le16_eq_iff: "(le16 a b = le16 c d) = (a = c \<and> b = d)"
  by (metis le16_lo le16_hi)

lemma length_bytes_le32 [simp]: "length (bytes_le32 w) = 4"
  by (simp add: bytes_le32_def)

lemma length_bytes_be32 [simp]: "length (bytes_be32 w) = 4"
  by (simp add: bytes_be32_def)

lemma length_bytes_le16 [simp]: "length (bytes_le16 w) = 2"
  by (simp add: bytes_le16_def)

lemma xor_cancel_right [simp]: "(x XOR p = y XOR p) = (x = y)" for x y p :: "'a::len word"
  by (metis xor.assoc xor.right_neutral xor_self_eq)

lemma xor_cancel_left [simp]: "(p XOR x = p XOR y) = (x = y)" for x y p :: "'a::len word"
  by (metis xor.commute xor_cancel_right)

lemma xor_swap_self [simp]: "(x XOR p) XOR p = x" for x p :: "'a::len word"
  by (simp add: xor.assoc)

lemma and_FF: "w AND 0xFF = take_bit 8 w" for w :: "'a::len word"
  by (simp add: take_bit_eq_mask mask_numeral)

section \<open>Folds\<close>

text \<open>
  A fold whose steps can be undone keeps what differed: the shape of the error-detection
  arguments for checksums.
\<close>

lemma foldl_inj_state:
  assumes "\<And>c c' b. f c b = f c' b \<Longrightarrow> c = c'"
  shows "foldl f c xs = foldl f c' xs \<Longrightarrow> c = c'"
  by (induction xs arbitrary: c c') (auto dest: assms)

lemma foldl_fun_eq: "(\<And>c b. f c b = g c b) \<Longrightarrow> foldl f c xs = foldl g c xs"
  by (induction xs arbitrary: c) auto

section \<open>Buffers\<close>

text \<open>Writing a run of bytes at an offset: \<open>memcpy (buf + i, src, n)\<close>.\<close>

definition blit :: "byte list \<Rightarrow> nat \<Rightarrow> byte list \<Rightarrow> byte list" where
  "blit buf i src = take i buf @ src @ drop (i + length src) buf"

definition blit_chk :: "byte list \<Rightarrow> nat \<Rightarrow> byte list \<Rightarrow> byte list option" where
  "blit_chk buf i src = (if i + length src \<le> length buf then Some (blit buf i src) else None)"

lemma length_blit [simp]: "i + length src \<le> length buf \<Longrightarrow> length (blit buf i src) = length buf"
  by (simp add: blit_def)

lemma blit_nth_same:
  "i + length src \<le> length buf \<Longrightarrow> k < length src \<Longrightarrow> blit buf i src ! (i + k) = src ! k"
  by (simp add: blit_def nth_append)

lemma blit_nth_before: "k < i \<Longrightarrow> i \<le> length buf \<Longrightarrow> blit buf i src ! k = buf ! k"
  by (simp add: blit_def nth_append)

lemma blit_nth_after:
  "i + length src \<le> k \<Longrightarrow> k < length buf \<Longrightarrow> blit buf i src ! k = buf ! k"
  by (auto simp: blit_def nth_append min_def)

text \<open>Reading a run of bytes.\<close>

definition slice :: "byte list \<Rightarrow> nat \<Rightarrow> nat \<Rightarrow> byte list" where
  "slice buf i n = take n (drop i buf)"

lemma length_slice [simp]: "i + n \<le> length buf \<Longrightarrow> length (slice buf i n) = n"
  by (simp add: slice_def)

text \<open>
  A C string in a buffer: the bytes before the first zero; \<open>None\<close> when there is no zero,
  since the string functions would then read past the buffer.
\<close>

definition cstr :: "byte list \<Rightarrow> byte list option" where
  "cstr buf = (if 0 \<in> set buf then Some (takeWhile (\<lambda>b. b \<noteq> 0) buf) else None)"

lemma cstr_nonzero: "cstr buf = Some s \<Longrightarrow> 0 \<notin> set s"
  by (auto simp: cstr_def dest: set_takeWhileD split: if_splits)

lemma cstr_append0: "0 \<notin> set s \<Longrightarrow> cstr (s @ 0 # r) = Some s"
  by (induction s) (auto simp: cstr_def)

section \<open>Searching\<close>

text \<open>The first index from \<open>i\<close> on whose element has the property, as search loops find it.\<close>

fun find_from :: "('a \<Rightarrow> bool) \<Rightarrow> nat \<Rightarrow> 'a list \<Rightarrow> nat option" where
  "find_from P i [] = None"
| "find_from P i (x # xs) = (if P x then Some i else find_from P (Suc i) xs)"

lemma find_from_Some:
  "find_from P i xs = Some j \<Longrightarrow> i \<le> j \<and> j - i < length xs \<and> P (xs ! (j - i))"
proof (induction xs arbitrary: i)
  case (Cons x xs)
  show ?case
  proof (cases "P x")
    case False
    then have "find_from P (Suc i) xs = Some j" using Cons.prems by simp
    then have "Suc i \<le> j \<and> j - Suc i < length xs \<and> P (xs ! (j - Suc i))" by (rule Cons.IH)
    moreover from this have "j - i = Suc (j - Suc i)" by (simp add: Suc_diff_Suc Suc_le_eq)
    ultimately show ?thesis by simp
  qed (use Cons.prems in simp)
qed simp

lemma find_from_None: "find_from P i xs = None \<longleftrightarrow> (\<forall>x \<in> set xs. \<not> P x)"
  by (induction xs arbitrary: i) auto

lemma find_from_first:
  "find_from P i xs = Some j \<Longrightarrow> \<forall>x \<in> set (take (j - i) xs). \<not> P x"
proof (induction xs arbitrary: i)
  case (Cons x xs)
  show ?case
  proof (cases "P x")
    case False
    then have *: "find_from P (Suc i) xs = Some j" using Cons.prems by simp
    have "j - i = Suc (j - Suc i)" using find_from_Some [OF *] by (simp add: Suc_diff_Suc Suc_le_eq)
    then show ?thesis using Cons.IH [OF *] False by simp
  qed (use Cons.prems in simp)
qed simp

end
