(* ===== verification/Crc.thy ===== *)
theory Crc
  imports Prelude
begin

text \<open>
  The checksums of the gateway: the CRC-32 of \<open>board/rtcrc32.c\<close> and
  \<open>applications/test/mdcrc32.c\<close>, the registration module's private variant of it
  (\<open>reg/rtu_crc32.c\<close>: the same loop over a table whose rows are shuffled), the CRC-8 of
  \<open>applications/test/mdcrc8.c\<close>, the CCITT CRC-16 of the building-energy protocol
  (\<open>sdccp/cc_bjdc.c\<close>) and the CRC-16 of HJ/T 212 (\<open>sdccp/hjt212.c\<close>), which is computed bit
  by bit. The lemmas relate the table-driven loops to the bitwise definition of the
  polynomial division, and show through the locale \<open>byte_check\<close> that each of them detects
  every error confined to one byte.
\<close>

unbundle bit_operations_syntax

section \<open>Reference: polynomial division bit by bit\<close>

text \<open>Reflected (least significant bit first) and plain (most significant bit first).\<close>

definition crc_bit_r :: "'a::len word \<Rightarrow> 'a word \<Rightarrow> 'a word" where
  "crc_bit_r p c = (if bit c 0 then drop_bit 1 c XOR p else drop_bit 1 c)"

definition crc_bit_l :: "'a::len word \<Rightarrow> 'a word \<Rightarrow> 'a word" where
  "crc_bit_l p c = (if bit c (LENGTH('a) - 1) then push_bit 1 c XOR p else push_bit 1 c)"

definition poly_crc32 :: u32 where "poly_crc32 = 0xEDB88320"
definition poly_crc8 :: byte where "poly_crc8 = 0x07"
definition poly_ccitt :: u16 where "poly_ccitt = 0x1021"
definition poly_a001 :: u16 where "poly_a001 = 0xA001"

section \<open>The tables\<close>

definition RTU_CRC32_TAB :: "u32 list" where
  "RTU_CRC32_TAB = [
     0x00000000, 0x77073096, 0xee0e612c, 0x990951ba, 0x076dc419, 0x67dd4acc,
     0xf9b9df6f, 0x8ebeeff9, 0x17b7be43, 0x60b08ed5, 0xd6d6a3e8, 0xa1d1937e,
     0x38d8c2c4, 0x4fdff252, 0xd1bb67f1, 0xa6bc5767, 0x3fb506dd, 0x48b2364b,
     0xd80d2bda, 0xaf0a1b4c, 0x36034af6, 0x41047a60, 0xdf60efc3, 0xa867df55,
     0x316e8eef, 0xe10e9818, 0x7f6a0dbb, 0x086d3d2d, 0x91646c97, 0xe6635c01,
     0x6b6b51f4, 0x1c6c6162, 0x856530d8, 0xf262004e, 0x6c0695ed, 0x1b01a57b,
     0x8208f4c1, 0xf50fc457, 0x65b0d9c6, 0x12b7e950, 0x2eb40d81, 0xb7bd5c3b,
     0xc0ba6cad, 0xedb88320, 0x9abfb3b6, 0x03b6e20c, 0x74b1d29a, 0xead54739,
     0x9dd277af, 0x04db2615, 0x73dc1683, 0xe3630b12, 0x94643b84, 0x0d6d6a3e,
     0x7a6a5aa8, 0x2cd99e8b, 0x5bdeae1d, 0x9b64c2b0, 0xec63f226, 0x756aa39c,
     0xfbd44c65, 0x4db26158, 0x3ab551ce, 0xa3bc0074, 0xd4bb30e2, 0x4adfa541,
     0x3dd895d7, 0xa4d1c46d, 0xd3d6f4fb, 0x4369e96a, 0x346ed9fc, 0xad678846,
     0xda60b8d0, 0x44042d73, 0x33031de5, 0xaa0a4c5f, 0xdd0d7cc9, 0x5005713c,
     0x270241aa, 0xbe0b1010, 0x68ddb3f8, 0x1fda836e, 0x81be16cd, 0xf6b9265b,
     0x6fb077e1, 0x18b74777, 0x88085ae6, 0xff0f6a70, 0x66063bca, 0x11010b5c,
     0xc8d75180, 0xbfd06116, 0x21b4f4b5, 0x56b3c423, 0xcfba9599, 0xb8bda50f,
     0x2802b89e, 0x5f058808, 0xc60cd9b2, 0xb10be924, 0x4669be79, 0xcb61b38c,
     0xbc66831a, 0x256fd2a0, 0x5268e236, 0x8f659eff, 0xf862ae69, 0x616bffd3,
     0x166ccf45, 0xa00ae278, 0xd70dd2ee, 0x4e048354, 0x3903b3c2, 0xa7672661,
     0xd06016f7, 0x4969474d, 0x3e6e77db, 0xaed16a4a, 0xd9d65adc, 0x40df0b66,
     0x37d83bf0, 0xa9bcae53, 0xdebb9ec5, 0x47b2cf7f, 0x30b5ffe9, 0xbdbdf21c,
     0xcabac28a, 0x53b39330, 0x24b4a3a6, 0xbad03605, 0xcdd70693, 0x54de5729,
     0x23d967bf, 0xb3667a2e, 0xc4614ab8, 0x5d681b02, 0x2a6f2b94, 0xb40bbe37,
     0xc30c8ea1, 0x5a05df1b, 0x706af48f, 0xe963a535, 0x9e6495a3, 0x0edb8832,
     0x79dcb8a4, 0xe0d5e91e, 0x97d2d988, 0x09b64c2b, 0x7eb17cbd, 0xe7b82d07,
     0x90bf1d91, 0x1db71064, 0x6ab020f2, 0xf3b97148, 0x84be41de, 0x026d930a,
     0x9c0906a9, 0xeb0e363f, 0x72076785, 0x05005713, 0x95bf4a82, 0xe2b87a14,
     0x7bb12bae, 0x0cb61b38, 0x92d28e9b, 0xe5d5be0d, 0x7cdcefb7, 0x0bdbdf21,
     0x86d3d2d4, 0xf1d4e242, 0xcc0c7795, 0xbb0b4703, 0x220216b9, 0x5505262f,
     0xc5ba3bbe, 0xb2bd0b28, 0x2bb45a92, 0x5cb36a04, 0xc2d7ffa7, 0xb5d0cf31,
     0xe40ecf0b, 0x9309ff9d, 0x0a00ae27, 0x7d079eb1, 0xf00f9344, 0x8708a3d2,
     0x1e01f268, 0x6906c2fe, 0xf762575d, 0x806567cb, 0x196c3671, 0x6e6b06e7,
     0xfed41b76, 0x89d32be0, 0x10da7a5a, 0x8bbeb8ea, 0xfcb9887c, 0x62dd1ddf,
     0x15da2d49, 0x8cd37cf3, 0x2f6f7c87, 0x58684c11, 0xc1611dab, 0xb6662d3d,
     0x76dc4190, 0xa2677172, 0x3c03e4d1, 0x4b04d447, 0xd20d85fd, 0xa50ab56b,
     0x35b5a8fa, 0x42b2986c, 0xdbbbc9d6, 0xacbcf940, 0x32d86ce3, 0x45df5c75,
     0xdcd60dcf, 0xabd13d59, 0x26d930ac, 0x51de003a, 0xc90c2086, 0x5768b525,
     0x206f85b3, 0xb966d409, 0xce61e49f, 0x01db7106, 0x98d220bc, 0xefd5102a,
     0x71b18589, 0x06b6b51f, 0x9fbfe4a5, 0xe8b8d433, 0x7807c9a2, 0x0f00f934,
     0x9609a88e, 0x1adad47d, 0x6ddde4eb, 0xf4d4b551, 0x83d385c7, 0x136c9856,
     0x646ba8c0, 0xfd62f97a, 0x8a65c9ec, 0x14015c4f, 0x63066cd9, 0xfa0f3d63,
     0x8d080df5, 0x3b6e20c8, 0x4c69105e, 0xd56041e4, 0x5edef90e, 0x29d9c998,
     0xb0d09822, 0xc7d7a8b4, 0x59b33d17, 0x2d02ef8d]"

definition MD_CRC32_TAB :: "u32 list" where
  "MD_CRC32_TAB = [
     0x00000000, 0x77073096, 0xee0e612c, 0x990951ba, 0x076dc419, 0x706af48f,
     0xe963a535, 0x9e6495a3, 0x0edb8832, 0x79dcb8a4, 0xe0d5e91e, 0x97d2d988,
     0x09b64c2b, 0x7eb17cbd, 0xe7b82d07, 0x90bf1d91, 0x1db71064, 0x6ab020f2,
     0xf3b97148, 0x84be41de, 0x1adad47d, 0x6ddde4eb, 0xf4d4b551, 0x83d385c7,
     0x136c9856, 0x646ba8c0, 0xfd62f97a, 0x8a65c9ec, 0x14015c4f, 0x63066cd9,
     0xfa0f3d63, 0x8d080df5, 0x3b6e20c8, 0x4c69105e, 0xd56041e4, 0xa2677172,
     0x3c03e4d1, 0x4b04d447, 0xd20d85fd, 0xa50ab56b, 0x35b5a8fa, 0x42b2986c,
     0xdbbbc9d6, 0xacbcf940, 0x32d86ce3, 0x45df5c75, 0xdcd60dcf, 0xabd13d59,
     0x26d930ac, 0x51de003a, 0xc8d75180, 0xbfd06116, 0x21b4f4b5, 0x56b3c423,
     0xcfba9599, 0xb8bda50f, 0x2802b89e, 0x5f058808, 0xc60cd9b2, 0xb10be924,
     0x2f6f7c87, 0x58684c11, 0xc1611dab, 0xb6662d3d, 0x76dc4190, 0x01db7106,
     0x98d220bc, 0xefd5102a, 0x71b18589, 0x06b6b51f, 0x9fbfe4a5, 0xe8b8d433,
     0x7807c9a2, 0x0f00f934, 0x9609a88e, 0xe10e9818, 0x7f6a0dbb, 0x086d3d2d,
     0x91646c97, 0xe6635c01, 0x6b6b51f4, 0x1c6c6162, 0x856530d8, 0xf262004e,
     0x6c0695ed, 0x1b01a57b, 0x8208f4c1, 0xf50fc457, 0x65b0d9c6, 0x12b7e950,
     0x8bbeb8ea, 0xfcb9887c, 0x62dd1ddf, 0x15da2d49, 0x8cd37cf3, 0xfbd44c65,
     0x4db26158, 0x3ab551ce, 0xa3bc0074, 0xd4bb30e2, 0x4adfa541, 0x3dd895d7,
     0xa4d1c46d, 0xd3d6f4fb, 0x4369e96a, 0x346ed9fc, 0xad678846, 0xda60b8d0,
     0x44042d73, 0x33031de5, 0xaa0a4c5f, 0xdd0d7cc9, 0x5005713c, 0x270241aa,
     0xbe0b1010, 0xc90c2086, 0x5768b525, 0x206f85b3, 0xb966d409, 0xce61e49f,
     0x5edef90e, 0x29d9c998, 0xb0d09822, 0xc7d7a8b4, 0x59b33d17, 0x2eb40d81,
     0xb7bd5c3b, 0xc0ba6cad, 0xedb88320, 0x9abfb3b6, 0x03b6e20c, 0x74b1d29a,
     0xead54739, 0x9dd277af, 0x04db2615, 0x73dc1683, 0xe3630b12, 0x94643b84,
     0x0d6d6a3e, 0x7a6a5aa8, 0xe40ecf0b, 0x9309ff9d, 0x0a00ae27, 0x7d079eb1,
     0xf00f9344, 0x8708a3d2, 0x1e01f268, 0x6906c2fe, 0xf762575d, 0x806567cb,
     0x196c3671, 0x6e6b06e7, 0xfed41b76, 0x89d32be0, 0x10da7a5a, 0x67dd4acc,
     0xf9b9df6f, 0x8ebeeff9, 0x17b7be43, 0x60b08ed5, 0xd6d6a3e8, 0xa1d1937e,
     0x38d8c2c4, 0x4fdff252, 0xd1bb67f1, 0xa6bc5767, 0x3fb506dd, 0x48b2364b,
     0xd80d2bda, 0xaf0a1b4c, 0x36034af6, 0x41047a60, 0xdf60efc3, 0xa867df55,
     0x316e8eef, 0x4669be79, 0xcb61b38c, 0xbc66831a, 0x256fd2a0, 0x5268e236,
     0xcc0c7795, 0xbb0b4703, 0x220216b9, 0x5505262f, 0xc5ba3bbe, 0xb2bd0b28,
     0x2bb45a92, 0x5cb36a04, 0xc2d7ffa7, 0xb5d0cf31, 0x2cd99e8b, 0x5bdeae1d,
     0x9b64c2b0, 0xec63f226, 0x756aa39c, 0x026d930a, 0x9c0906a9, 0xeb0e363f,
     0x72076785, 0x05005713, 0x95bf4a82, 0xe2b87a14, 0x7bb12bae, 0x0cb61b38,
     0x92d28e9b, 0xe5d5be0d, 0x7cdcefb7, 0x0bdbdf21, 0x86d3d2d4, 0xf1d4e242,
     0x68ddb3f8, 0x1fda836e, 0x81be16cd, 0xf6b9265b, 0x6fb077e1, 0x18b74777,
     0x88085ae6, 0xff0f6a70, 0x66063bca, 0x11010b5c, 0x8f659eff, 0xf862ae69,
     0x616bffd3, 0x166ccf45, 0xa00ae278, 0xd70dd2ee, 0x4e048354, 0x3903b3c2,
     0xa7672661, 0xd06016f7, 0x4969474d, 0x3e6e77db, 0xaed16a4a, 0xd9d65adc,
     0x40df0b66, 0x37d83bf0, 0xa9bcae53, 0xdebb9ec5, 0x47b2cf7f, 0x30b5ffe9,
     0xbdbdf21c, 0xcabac28a, 0x53b39330, 0x24b4a3a6, 0xbad03605, 0xcdd70693,
     0x54de5729, 0x23d967bf, 0xb3667a2e, 0xc4614ab8, 0x5d681b02, 0x2a6f2b94,
     0xb40bbe37, 0xc30c8ea1, 0x5a05df1b, 0x2d02ef8d]"

definition RT_CRC32_TAB :: "u32 list" where
  "RT_CRC32_TAB = [
     0x00000000, 0x77073096, 0xee0e612c, 0x990951ba, 0x076dc419, 0x706af48f,
     0xe963a535, 0x9e6495a3, 0x0edb8832, 0x79dcb8a4, 0xe0d5e91e, 0x97d2d988,
     0x09b64c2b, 0x7eb17cbd, 0xe7b82d07, 0x90bf1d91, 0x1db71064, 0x6ab020f2,
     0xf3b97148, 0x84be41de, 0x1adad47d, 0x6ddde4eb, 0xf4d4b551, 0x83d385c7,
     0x136c9856, 0x646ba8c0, 0xfd62f97a, 0x8a65c9ec, 0x14015c4f, 0x63066cd9,
     0xfa0f3d63, 0x8d080df5, 0x3b6e20c8, 0x4c69105e, 0xd56041e4, 0xa2677172,
     0x3c03e4d1, 0x4b04d447, 0xd20d85fd, 0xa50ab56b, 0x35b5a8fa, 0x42b2986c,
     0xdbbbc9d6, 0xacbcf940, 0x32d86ce3, 0x45df5c75, 0xdcd60dcf, 0xabd13d59,
     0x26d930ac, 0x51de003a, 0xc8d75180, 0xbfd06116, 0x21b4f4b5, 0x56b3c423,
     0xcfba9599, 0xb8bda50f, 0x2802b89e, 0x5f058808, 0xc60cd9b2, 0xb10be924,
     0x2f6f7c87, 0x58684c11, 0xc1611dab, 0xb6662d3d, 0x76dc4190, 0x01db7106,
     0x98d220bc, 0xefd5102a, 0x71b18589, 0x06b6b51f, 0x9fbfe4a5, 0xe8b8d433,
     0x7807c9a2, 0x0f00f934, 0x9609a88e, 0xe10e9818, 0x7f6a0dbb, 0x086d3d2d,
     0x91646c97, 0xe6635c01, 0x6b6b51f4, 0x1c6c6162, 0x856530d8, 0xf262004e,
     0x6c0695ed, 0x1b01a57b, 0x8208f4c1, 0xf50fc457, 0x65b0d9c6, 0x12b7e950,
     0x8bbeb8ea, 0xfcb9887c, 0x62dd1ddf, 0x15da2d49, 0x8cd37cf3, 0xfbd44c65,
     0x4db26158, 0x3ab551ce, 0xa3bc0074, 0xd4bb30e2, 0x4adfa541, 0x3dd895d7,
     0xa4d1c46d, 0xd3d6f4fb, 0x4369e96a, 0x346ed9fc, 0xad678846, 0xda60b8d0,
     0x44042d73, 0x33031de5, 0xaa0a4c5f, 0xdd0d7cc9, 0x5005713c, 0x270241aa,
     0xbe0b1010, 0xc90c2086, 0x5768b525, 0x206f85b3, 0xb966d409, 0xce61e49f,
     0x5edef90e, 0x29d9c998, 0xb0d09822, 0xc7d7a8b4, 0x59b33d17, 0x2eb40d81,
     0xb7bd5c3b, 0xc0ba6cad, 0xedb88320, 0x9abfb3b6, 0x03b6e20c, 0x74b1d29a,
     0xead54739, 0x9dd277af, 0x04db2615, 0x73dc1683, 0xe3630b12, 0x94643b84,
     0x0d6d6a3e, 0x7a6a5aa8, 0xe40ecf0b, 0x9309ff9d, 0x0a00ae27, 0x7d079eb1,
     0xf00f9344, 0x8708a3d2, 0x1e01f268, 0x6906c2fe, 0xf762575d, 0x806567cb,
     0x196c3671, 0x6e6b06e7, 0xfed41b76, 0x89d32be0, 0x10da7a5a, 0x67dd4acc,
     0xf9b9df6f, 0x8ebeeff9, 0x17b7be43, 0x60b08ed5, 0xd6d6a3e8, 0xa1d1937e,
     0x38d8c2c4, 0x4fdff252, 0xd1bb67f1, 0xa6bc5767, 0x3fb506dd, 0x48b2364b,
     0xd80d2bda, 0xaf0a1b4c, 0x36034af6, 0x41047a60, 0xdf60efc3, 0xa867df55,
     0x316e8eef, 0x4669be79, 0xcb61b38c, 0xbc66831a, 0x256fd2a0, 0x5268e236,
     0xcc0c7795, 0xbb0b4703, 0x220216b9, 0x5505262f, 0xc5ba3bbe, 0xb2bd0b28,
     0x2bb45a92, 0x5cb36a04, 0xc2d7ffa7, 0xb5d0cf31, 0x2cd99e8b, 0x5bdeae1d,
     0x9b64c2b0, 0xec63f226, 0x756aa39c, 0x026d930a, 0x9c0906a9, 0xeb0e363f,
     0x72076785, 0x05005713, 0x95bf4a82, 0xe2b87a14, 0x7bb12bae, 0x0cb61b38,
     0x92d28e9b, 0xe5d5be0d, 0x7cdcefb7, 0x0bdbdf21, 0x86d3d2d4, 0xf1d4e242,
     0x68ddb3f8, 0x1fda836e, 0x81be16cd, 0xf6b9265b, 0x6fb077e1, 0x18b74777,
     0x88085ae6, 0xff0f6a70, 0x66063bca, 0x11010b5c, 0x8f659eff, 0xf862ae69,
     0x616bffd3, 0x166ccf45, 0xa00ae278, 0xd70dd2ee, 0x4e048354, 0x3903b3c2,
     0xa7672661, 0xd06016f7, 0x4969474d, 0x3e6e77db, 0xaed16a4a, 0xd9d65adc,
     0x40df0b66, 0x37d83bf0, 0xa9bcae53, 0xdebb9ec5, 0x47b2cf7f, 0x30b5ffe9,
     0xbdbdf21c, 0xcabac28a, 0x53b39330, 0x24b4a3a6, 0xbad03605, 0xcdd70693,
     0x54de5729, 0x23d967bf, 0xb3667a2e, 0xc4614ab8, 0x5d681b02, 0x2a6f2b94,
     0xb40bbe37, 0xc30c8ea1, 0x5a05df1b, 0x2d02ef8d]"

definition CRC8_TAB :: "byte list" where
  "CRC8_TAB = [
     0x00, 0x07, 0x0e, 0x09, 0x1c, 0x1b, 0x12, 0x15, 0x38, 0x3f, 0x36, 0x31,
     0x24, 0x23, 0x2a, 0x2d, 0x70, 0x77, 0x7e, 0x79, 0x6c, 0x6b, 0x62, 0x65,
     0x48, 0x4f, 0x46, 0x41, 0x54, 0x53, 0x5a, 0x5d, 0xe0, 0xe7, 0xee, 0xe9,
     0xfc, 0xfb, 0xf2, 0xf5, 0xd8, 0xdf, 0xd6, 0xd1, 0xc4, 0xc3, 0xca, 0xcd,
     0x90, 0x97, 0x9e, 0x99, 0x8c, 0x8b, 0x82, 0x85, 0xa8, 0xaf, 0xa6, 0xa1,
     0xb4, 0xb3, 0xba, 0xbd, 0xc7, 0xc0, 0xc9, 0xce, 0xdb, 0xdc, 0xd5, 0xd2,
     0xff, 0xf8, 0xf1, 0xf6, 0xe3, 0xe4, 0xed, 0xea, 0xb7, 0xb0, 0xb9, 0xbe,
     0xab, 0xac, 0xa5, 0xa2, 0x8f, 0x88, 0x81, 0x86, 0x93, 0x94, 0x9d, 0x9a,
     0x27, 0x20, 0x29, 0x2e, 0x3b, 0x3c, 0x35, 0x32, 0x1f, 0x18, 0x11, 0x16,
     0x03, 0x04, 0x0d, 0x0a, 0x57, 0x50, 0x59, 0x5e, 0x4b, 0x4c, 0x45, 0x42,
     0x6f, 0x68, 0x61, 0x66, 0x73, 0x74, 0x7d, 0x7a, 0x89, 0x8e, 0x87, 0x80,
     0x95, 0x92, 0x9b, 0x9c, 0xb1, 0xb6, 0xbf, 0xb8, 0xad, 0xaa, 0xa3, 0xa4,
     0xf9, 0xfe, 0xf7, 0xf0, 0xe5, 0xe2, 0xeb, 0xec, 0xc1, 0xc6, 0xcf, 0xc8,
     0xdd, 0xda, 0xd3, 0xd4, 0x69, 0x6e, 0x67, 0x60, 0x75, 0x72, 0x7b, 0x7c,
     0x51, 0x56, 0x5f, 0x58, 0x4d, 0x4a, 0x43, 0x44, 0x19, 0x1e, 0x17, 0x10,
     0x05, 0x02, 0x0b, 0x0c, 0x21, 0x26, 0x2f, 0x28, 0x3d, 0x3a, 0x33, 0x34,
     0x4e, 0x49, 0x40, 0x47, 0x52, 0x55, 0x5c, 0x5b, 0x76, 0x71, 0x78, 0x7f,
     0x6a, 0x6d, 0x64, 0x63, 0x3e, 0x39, 0x30, 0x37, 0x22, 0x25, 0x2c, 0x2b,
     0x06, 0x01, 0x08, 0x0f, 0x1a, 0x1d, 0x14, 0x13, 0xae, 0xa9, 0xa0, 0xa7,
     0xb2, 0xb5, 0xbc, 0xbb, 0x96, 0x91, 0x98, 0x9f, 0x8a, 0x8d, 0x84, 0x83,
     0xde, 0xd9, 0xd0, 0xd7, 0xc2, 0xc5, 0xcc, 0xcb, 0xe6, 0xe1, 0xe8, 0xef,
     0xfa, 0xfd, 0xf4, 0xf3]"

definition CC_Table :: "u16 list" where
  "CC_Table = [
     0x0000, 0x1021, 0x2042, 0x3063, 0x4084, 0x50a5, 0x60c6, 0x70e7,
     0x8108, 0x9129, 0xa14a, 0xb16b, 0xc18c, 0xd1ad, 0xe1ce, 0xf1ef,
     0x1231, 0x0210, 0x3273, 0x2252, 0x52b5, 0x4294, 0x72f7, 0x62d6,
     0x9339, 0x8318, 0xb37b, 0xa35a, 0xd3bd, 0xc39c, 0xf3ff, 0xe3de,
     0x2462, 0x3443, 0x0420, 0x1401, 0x64e6, 0x74c7, 0x44a4, 0x5485,
     0xa56a, 0xb54b, 0x8528, 0x9509, 0xe5ee, 0xf5cf, 0xc5ac, 0xd58d,
     0x3653, 0x2672, 0x1611, 0x0630, 0x76d7, 0x66f6, 0x5695, 0x46b4,
     0xb75b, 0xa77a, 0x9719, 0x8738, 0xf7df, 0xe7fe, 0xd79d, 0xc7bc,
     0x48c4, 0x58e5, 0x6886, 0x78a7, 0x0840, 0x1861, 0x2802, 0x3823,
     0xc9cc, 0xd9ed, 0xe98e, 0xf9af, 0x8948, 0x9969, 0xa90a, 0xb92b,
     0x5af5, 0x4ad4, 0x7ab7, 0x6a96, 0x1a71, 0x0a50, 0x3a33, 0x2a12,
     0xdbfd, 0xcbdc, 0xfbbf, 0xeb9e, 0x9b79, 0x8b58, 0xbb3b, 0xab1a,
     0x6ca6, 0x7c87, 0x4ce4, 0x5cc5, 0x2c22, 0x3c03, 0x0c60, 0x1c41,
     0xedae, 0xfd8f, 0xcdec, 0xddcd, 0xad2a, 0xbd0b, 0x8d68, 0x9d49,
     0x7e97, 0x6eb6, 0x5ed5, 0x4ef4, 0x3e13, 0x2e32, 0x1e51, 0x0e70,
     0xff9f, 0xefbe, 0xdfdd, 0xcffc, 0xbf1b, 0xaf3a, 0x9f59, 0x8f78,
     0x9188, 0x81a9, 0xb1ca, 0xa1eb, 0xd10c, 0xc12d, 0xf14e, 0xe16f,
     0x1080, 0x00a1, 0x30c2, 0x20e3, 0x5004, 0x4025, 0x7046, 0x6067,
     0x83b9, 0x9398, 0xa3fb, 0xb3da, 0xc33d, 0xd31c, 0xe37f, 0xf35e,
     0x02b1, 0x1290, 0x22f3, 0x32d2, 0x4235, 0x5214, 0x6277, 0x7256,
     0xb5ea, 0xa5cb, 0x95a8, 0x8589, 0xf56e, 0xe54f, 0xd52c, 0xc50d,
     0x34e2, 0x24c3, 0x14a0, 0x0481, 0x7466, 0x6447, 0x5424, 0x4405,
     0xa7db, 0xb7fa, 0x8799, 0x97b8, 0xe75f, 0xf77e, 0xc71d, 0xd73c,
     0x26d3, 0x36f2, 0x0691, 0x16b0, 0x6657, 0x7676, 0x4615, 0x5634,
     0xd94c, 0xc96d, 0xf90e, 0xe92f, 0x99c8, 0x89e9, 0xb98a, 0xa9ab,
     0x5844, 0x4865, 0x7806, 0x6827, 0x18c0, 0x08e1, 0x3882, 0x28a3,
     0xcb7d, 0xdb5c, 0xeb3f, 0xfb1e, 0x8bf9, 0x9bd8, 0xabbb, 0xbb9a,
     0x4a75, 0x5a54, 0x6a37, 0x7a16, 0x0af1, 0x1ad0, 0x2ab3, 0x3a92,
     0xfd2e, 0xed0f, 0xdd6c, 0xcd4d, 0xbdaa, 0xad8b, 0x9de8, 0x8dc9,
     0x7c26, 0x6c07, 0x5c64, 0x4c45, 0x3ca2, 0x2c83, 0x1ce0, 0x0cc1,
     0xef1f, 0xff3e, 0xcf5d, 0xdf7c, 0xaf9b, 0xbfba, 0x8fd9, 0x9ff8,
     0x6e17, 0x7e36, 0x4e55, 0x5e74, 0x2e93, 0x3eb2, 0x0ed1, 0x1ef0]"

section \<open>The update loops of the sources\<close>

text \<open>
  One turn of the CRC-32 loops: \<open>crc = TAB[(crc ^ ( *buf++)) & 0xFF] ^ (crc >> 8)\<close>. The
  loops run over the \<open>len\<close> bytes of the buffer, here the list \<open>buf\<close>.
\<close>

definition crc32_upd :: "u32 list \<Rightarrow> u32 \<Rightarrow> byte \<Rightarrow> u32" where
  "crc32_upd TAB crc b = TAB ! unat ((crc XOR ucast b) AND 0xFF) XOR drop_bit 8 crc"

definition rtu_crc32 :: "u32 \<Rightarrow> byte list \<Rightarrow> u32" where
  "rtu_crc32 crc buf = NOT (foldl (crc32_upd RTU_CRC32_TAB) (NOT crc) buf)"

definition rtu_ncrc32 :: "u32 \<Rightarrow> byte list \<Rightarrow> u32" where
  "rtu_ncrc32 crc buf = foldl (crc32_upd RTU_CRC32_TAB) crc buf"

definition ulMDCrc32 :: "u32 \<Rightarrow> byte list \<Rightarrow> u32" where
  "ulMDCrc32 ulCrc pBuf = NOT (foldl (crc32_upd MD_CRC32_TAB) (NOT ulCrc) pBuf)"

definition ulRTCrc32 :: "u32 \<Rightarrow> byte list \<Rightarrow> u32" where
  "ulRTCrc32 ulCrc pBuf = NOT (foldl (crc32_upd RT_CRC32_TAB) (NOT ulCrc) pBuf)"

definition crc8_upd :: "byte \<Rightarrow> byte \<Rightarrow> byte" where
  "crc8_upd btCrc b = CRC8_TAB ! unat (btCrc XOR b)"

definition btMDCrc8 :: "byte \<Rightarrow> byte list \<Rightarrow> byte" where
  "btMDCrc8 btCrc pBuf = NOT (foldl crc8_upd (NOT btCrc) pBuf)"

text \<open>\<open>by = (crc >> 8) & 0xff; crc = (crc & 0xffff) << 8; crc = (crc ^ _CC_Table[(pData[i] ^ by) & 0xff]) & 0xffff\<close>\<close>

definition cc_crc_upd :: "u16 \<Rightarrow> byte \<Rightarrow> u16" where
  "cc_crc_upd crc d =
     (let by = drop_bit 8 crc AND 0xFF;
          crc = push_bit 8 (crc AND 0xFFFF)
      in (crc XOR CC_Table ! unat ((ucast d XOR by) AND 0xFF)) AND 0xFFFF)"

definition CC_GetCrc16 :: "byte list \<Rightarrow> u16" where
  "CC_GetCrc16 pData = foldl cc_crc_upd 0 pData"

text \<open>
  HJ/T 212: the inner loop \<open>while (j < 8)\<close> of \<open>hjt212_GetCrc16\<close>, and its outer loop over
  \<open>ptr[0], ..., ptr[lintDataLen - 1]\<close>. The signed length \<open>lintDataLen = count\<close> makes the loop
  run zero times for a \<open>count\<close> of \<open>2^31\<close> or more. \<open>None\<close>: the loop leaves the buffer.
\<close>

fun hjt_crc_bits :: "nat \<Rightarrow> u16 \<Rightarrow> u16" where
  "hjt_crc_bits 0 crc = crc"
| "hjt_crc_bits (Suc j) crc =
     (let out = crc AND 0x0001;
          crc = drop_bit 1 crc;
          crc = (if out = 1 then crc XOR 0xA001 else crc)
      in hjt_crc_bits j crc)"

definition hjt_crc_upd :: "u16 \<Rightarrow> byte \<Rightarrow> u16" where
  "hjt_crc_upd crc b =
     (let x = (ucast (drop_bit 8 crc) :: byte)
      in hjt_crc_bits 8 (ucast b XOR ucast x))"

definition hjt212_crc :: "byte list \<Rightarrow> u16" where
  "hjt212_crc bs = foldl hjt_crc_upd 0xFFFF bs"

definition hjt212_GetCrc16 :: "byte list \<Rightarrow> u32 \<Rightarrow> u16 option" where
  "hjt212_GetCrc16 ptr count =
     (let lintDataLen = nat (sint count)
      in if lintDataLen \<le> length ptr then Some (hjt212_crc (take lintDataLen ptr)) else None)"

section \<open>The bitwise division is linear and can be undone\<close>

definition crc_byte_r :: "'a::len word \<Rightarrow> 'a word \<Rightarrow> 'a word" where
  "crc_byte_r p c = crc_bit_r p (crc_bit_r p (crc_bit_r p (crc_bit_r p
     (crc_bit_r p (crc_bit_r p (crc_bit_r p (crc_bit_r p c)))))))"

definition crc_byte_l :: "'a::len word \<Rightarrow> 'a word \<Rightarrow> 'a word" where
  "crc_byte_l p c = crc_bit_l p (crc_bit_l p (crc_bit_l p (crc_bit_l p
     (crc_bit_l p (crc_bit_l p (crc_bit_l p (crc_bit_l p c)))))))"

lemma crc_bit_r_xor: "crc_bit_r p (x XOR y) = crc_bit_r p x XOR crc_bit_r p y"
  by (rule bit_word_eqI) (auto simp: crc_bit_r_def bit_simps)

lemma crc_bit_l_xor: "crc_bit_l p (x XOR y) = crc_bit_l p x XOR crc_bit_l p y"
  by (rule bit_word_eqI) (auto simp: crc_bit_l_def bit_simps)

lemma crc_byte_r_xor: "crc_byte_r p (x XOR y) = crc_byte_r p x XOR crc_byte_r p y"
  by (simp add: crc_byte_r_def crc_bit_r_xor)

lemma crc_byte_l_xor: "crc_byte_l p (x XOR y) = crc_byte_l p x XOR crc_byte_l p y"
  by (simp add: crc_byte_l_def crc_bit_l_xor)

lemma crc_bit_r_inj:
  fixes p :: "'a::len word"
  assumes "bit p (LENGTH('a) - 1)" and eq: "crc_bit_r p x = crc_bit_r p y"
  shows "x = y"
proof -
  have msb: "bit (crc_bit_r p z) (LENGTH('a) - 1) = bit z 0" for z
    using assms(1) by (auto simp: crc_bit_r_def bit_simps)
  have b0: "bit x 0 = bit y 0" using msb [of x] msb [of y] eq by simp
  then have d: "drop_bit 1 x = drop_bit 1 y"
    using eq by (auto simp: crc_bit_r_def split: if_splits)
  have "bit x n = bit y n" for n
  proof (cases n)
    case (Suc m)
    then show ?thesis using arg_cong [OF d, of "\<lambda>w. bit w m"] by (simp add: bit_simps)
  qed (use b0 in simp)
  then show ?thesis by (simp add: bit_eq_iff)
qed

lemma crc_bit_l_inj:
  fixes p :: "'a::len word"
  assumes "bit p 0" and eq: "crc_bit_l p x = crc_bit_l p y"
  shows "x = y"
proof -
  have lsb: "bit (crc_bit_l p z) 0 = bit z (LENGTH('a) - 1)" for z
    using assms(1) by (auto simp: crc_bit_l_def bit_simps simp del: push_bit_Suc One_nat_def)
  have bm: "bit x (LENGTH('a) - 1) = bit y (LENGTH('a) - 1)"
    using lsb [of x] lsb [of y] eq by simp
  then have d: "push_bit 1 x = push_bit 1 y"
    using eq by (auto simp: crc_bit_l_def split: if_splits)
  have "bit x n = bit y n" if "n < LENGTH('a)" for n
  proof (cases "n = LENGTH('a) - 1")
    case False
    with that have "Suc n < LENGTH('a)" by simp
    then show ?thesis
      using arg_cong [OF d, of "\<lambda>w. bit w (Suc n)"]
      by (simp add: bit_simps del: push_bit_Suc One_nat_def)
  qed (use bm in simp)
  then show ?thesis by (auto intro: bit_word_eqI)
qed

lemma crc_byte_r_inj:
  fixes p :: "'a::len word"
  assumes "bit p (LENGTH('a) - 1)"
  shows "crc_byte_r p x = crc_byte_r p y \<Longrightarrow> x = y"
  unfolding crc_byte_r_def by (drule crc_bit_r_inj [OF assms])+

lemma crc_byte_l_inj:
  fixes p :: "'a::len word"
  assumes "bit p 0"
  shows "crc_byte_l p x = crc_byte_l p y \<Longrightarrow> x = y"
  unfolding crc_byte_l_def by (drule crc_bit_l_inj [OF assms])+

text \<open>The part of the register that a whole byte of shifts only moves.\<close>

lemma crc_bit_r_shift: "k < 8 \<Longrightarrow> crc_bit_r p (push_bit (Suc k) (drop_bit 8 c)) = push_bit k (drop_bit 8 c)"
  by (rule bit_word_eqI)
    (auto simp: crc_bit_r_def bit_simps simp del: push_bit_Suc dest: bit_imp_le_length)

lemma crc_byte_r_shift: "crc_byte_r p (push_bit 8 (drop_bit 8 c)) = drop_bit 8 c"
proof -
  have "crc_bit_r p (push_bit 8 (drop_bit 8 c)) = push_bit 7 (drop_bit 8 c)"
    "crc_bit_r p (push_bit 7 (drop_bit 8 c)) = push_bit 6 (drop_bit 8 c)"
    "crc_bit_r p (push_bit 6 (drop_bit 8 c)) = push_bit 5 (drop_bit 8 c)"
    "crc_bit_r p (push_bit 5 (drop_bit 8 c)) = push_bit 4 (drop_bit 8 c)"
    "crc_bit_r p (push_bit 4 (drop_bit 8 c)) = push_bit 3 (drop_bit 8 c)"
    "crc_bit_r p (push_bit 3 (drop_bit 8 c)) = push_bit 2 (drop_bit 8 c)"
    "crc_bit_r p (push_bit 2 (drop_bit 8 c)) = push_bit 1 (drop_bit 8 c)"
    "crc_bit_r p (push_bit 1 (drop_bit 8 c)) = drop_bit 8 c"
    using crc_bit_r_shift [of 7 p c] crc_bit_r_shift [of 6 p c] crc_bit_r_shift [of 5 p c]
      crc_bit_r_shift [of 4 p c] crc_bit_r_shift [of 3 p c] crc_bit_r_shift [of 2 p c]
      crc_bit_r_shift [of 1 p c] crc_bit_r_shift [of 0 p c]
    by (simp_all add: numeral_eq_Suc)
  then show ?thesis by (simp only: crc_byte_r_def)
qed

lemma word_split_r: "(c :: 'a::len word) = (c AND 0xFF) XOR push_bit 8 (drop_bit 8 c)"
proof (rule bit_word_eqI)
  fix n assume "n < LENGTH('a)"
  then show "bit c n = bit ((c AND 0xFF) XOR push_bit 8 (drop_bit 8 c)) n"
    unfolding and_FF by (auto simp: bit_simps)
qed

lemma crc_byte_r_split: "crc_byte_r p c = crc_byte_r p (c AND 0xFF) XOR drop_bit 8 c"
  by (subst word_split_r [of c], subst crc_byte_r_xor) (simp only: crc_byte_r_shift)

lemma crc_bit_l_shift:
  fixes c :: u16
  assumes "k < 8"
  shows "crc_bit_l p (push_bit k (take_bit 8 c)) = push_bit (Suc k) (take_bit 8 c)"
  using assms
  by (intro bit_word_eqI)
    (auto simp: crc_bit_l_def bit_simps simp del: push_bit_Suc dest: bit_imp_le_length)

lemma crc_byte_l_shift: "crc_byte_l p (c AND 0xFF) = push_bit 8 (c :: u16)"
proof -
  have "crc_bit_l p (take_bit 8 c) = push_bit 1 (take_bit 8 c)"
    "crc_bit_l p (push_bit 1 (take_bit 8 c)) = push_bit 2 (take_bit 8 c)"
    "crc_bit_l p (push_bit 2 (take_bit 8 c)) = push_bit 3 (take_bit 8 c)"
    "crc_bit_l p (push_bit 3 (take_bit 8 c)) = push_bit 4 (take_bit 8 c)"
    "crc_bit_l p (push_bit 4 (take_bit 8 c)) = push_bit 5 (take_bit 8 c)"
    "crc_bit_l p (push_bit 5 (take_bit 8 c)) = push_bit 6 (take_bit 8 c)"
    "crc_bit_l p (push_bit 6 (take_bit 8 c)) = push_bit 7 (take_bit 8 c)"
    "crc_bit_l p (push_bit 7 (take_bit 8 c)) = push_bit 8 (take_bit 8 c)"
    using crc_bit_l_shift [of 0 p c] crc_bit_l_shift [of 1 p c] crc_bit_l_shift [of 2 p c]
      crc_bit_l_shift [of 3 p c] crc_bit_l_shift [of 4 p c] crc_bit_l_shift [of 5 p c]
      crc_bit_l_shift [of 6 p c] crc_bit_l_shift [of 7 p c]
    by (simp_all add: numeral_eq_Suc)
  moreover have "push_bit 8 (take_bit 8 c) = push_bit 8 c"
    by (rule bit_word_eqI) (auto simp: bit_simps simp del: push_bit_Suc)
  ultimately show ?thesis by (simp only: crc_byte_l_def and_FF)
qed

section \<open>The tables are the bitwise division\<close>

lemma upt_256: "[0..<256] = [0, 1, 2, 3, 4, 5, 6, 7, 8, 9, 10, 11, 12, 13, 14, 15, 16, 17, 18, 19, 20, 21,
     22, 23, 24, 25, 26, 27, 28, 29, 30, 31, 32, 33, 34, 35, 36, 37, 38, 39, 40, 41,
     42, 43, 44, 45, 46, 47, 48, 49, 50, 51, 52, 53, 54, 55, 56, 57, 58, 59, 60, 61,
     62, 63, 64, 65, 66, 67, 68, 69, 70, 71, 72, 73, 74, 75, 76, 77, 78, 79, 80, 81,
     82, 83, 84, 85, 86, 87, 88, 89, 90, 91, 92, 93, 94, 95, 96, 97, 98, 99, 100,
     101, 102, 103, 104, 105, 106, 107, 108, 109, 110, 111, 112, 113, 114, 115, 116,
     117, 118, 119, 120, 121, 122, 123, 124, 125, 126, 127, 128, 129, 130, 131, 132,
     133, 134, 135, 136, 137, 138, 139, 140, 141, 142, 143, 144, 145, 146, 147, 148,
     149, 150, 151, 152, 153, 154, 155, 156, 157, 158, 159, 160, 161, 162, 163, 164,
     165, 166, 167, 168, 169, 170, 171, 172, 173, 174, 175, 176, 177, 178, 179, 180,
     181, 182, 183, 184, 185, 186, 187, 188, 189, 190, 191, 192, 193, 194, 195, 196,
     197, 198, 199, 200, 201, 202, 203, 204, 205, 206, 207, 208, 209, 210, 211, 212,
     213, 214, 215, 216, 217, 218, 219, 220, 221, 222, 223, 224, 225, 226, 227, 228,
     229, 230, 231, 232, 233, 234, 235, 236, 237, 238, 239, 240, 241, 242, 243, 244,
     245, 246, 247, 248, 249, 250, 251, 252, 253, 254, 255]"
  by code_simp

lemma MD_table: "MD_CRC32_TAB = map (\<lambda>i. crc_byte_r poly_crc32 (word_of_nat i)) [0..<256]"
  by (simp only: MD_CRC32_TAB_def upt_256 list.map)
    (simp add: poly_crc32_def crc_byte_r_def crc_bit_r_def)

lemma RT_table: "RT_CRC32_TAB = MD_CRC32_TAB"
  by (simp add: RT_CRC32_TAB_def MD_CRC32_TAB_def)

lemma nth_map_upt_256: "unat (w :: 'a::len word) < 256 \<Longrightarrow> map (\<lambda>i. f (word_of_nat i)) [0..<256] ! unat w = f w"
  by simp

lemma unat_take8: "unat (take_bit 8 (w :: 'a::len word)) < 256"
proof -
  have "unat (take_bit 8 w) = take_bit 8 (unat w)" by (simp add: unsigned_take_bit_eq)
  then show ?thesis by (simp add: take_bit_eq_mod)
qed

lemma MD_upd: "crc32_upd MD_CRC32_TAB c b = crc_byte_r poly_crc32 (c XOR ucast b)"
proof -
  let ?x = "c XOR ucast b"
  have "drop_bit 8 ?x = drop_bit 8 c"
    by (rule bit_word_eqI) (auto simp: bit_simps dest: bit_imp_le_length)
  moreover have "MD_CRC32_TAB ! unat (?x AND 0xFF) = crc_byte_r poly_crc32 (?x AND 0xFF)"
    unfolding MD_table and_FF by (rule nth_map_upt_256 [OF unat_take8])
  ultimately show ?thesis
    unfolding crc32_upd_def by (subst crc_byte_r_split [of _ ?x]) simp
qed

lemma crc8_table: "CRC8_TAB = map (\<lambda>i. crc_byte_l poly_crc8 (word_of_nat i)) [0..<256]"
  by (simp only: CRC8_TAB_def upt_256 list.map)
    (simp add: poly_crc8_def crc_byte_l_def crc_bit_l_def)

lemma crc8_upd_eq: "crc8_upd c b = crc_byte_l poly_crc8 (c XOR b)"
proof -
  have "unat (c XOR b) < 256" using unsigned_less [of "c XOR b"] by simp
  then show ?thesis unfolding crc8_upd_def crc8_table by (rule nth_map_upt_256)
qed

lemma CC_table: "CC_Table = map (\<lambda>i. crc_byte_l poly_ccitt (push_bit 8 (word_of_nat i))) [0..<256]"
  by (simp only: CC_Table_def upt_256 list.map)
    (simp add: poly_ccitt_def crc_byte_l_def crc_bit_l_def)

lemma hjt_bits_eq: "hjt_crc_bits n c = (crc_bit_r poly_a001 ^^ n) c"
proof (induction n arbitrary: c)
  case (Suc n)
  have "(c AND 1 = 1) = bit c 0"
    by (simp add: and_one_eq bit_0 odd_iff_mod_2_eq_one)
  then have "hjt_crc_bits (Suc n) c = hjt_crc_bits n (crc_bit_r poly_a001 c)"
    by (simp add: crc_bit_r_def poly_a001_def Let_def)
  with Suc.IH show ?case by (simp add: funpow_swap1)
qed simp

lemma hjt_upd_eq: "hjt_crc_upd c b = crc_byte_r poly_a001 (ucast b XOR ucast (ucast (drop_bit 8 c) :: byte))"
  by (simp only: hjt_crc_upd_def Let_def hjt_bits_eq crc_byte_r_def numeral_eq_Suc
      funpow.simps comp_apply id_apply pred_numeral_simps BitM.simps)

lemma CC_upd_eq: "cc_crc_upd c d = crc_byte_l poly_ccitt (c XOR push_bit 8 (ucast d))"
proof -
  let ?h = "ucast d XOR drop_bit 8 c :: u16"
  have h: "take_bit 8 ?h = ?h"
    by (rule bit_word_eqI) (auto simp: bit_simps dest: bit_imp_le_length)
  have "unat ?h < 256" using unat_take8 [of ?h] by (simp only: h)
  then have T: "CC_Table ! unat ?h = crc_byte_l poly_ccitt (push_bit 8 ?h)"
    unfolding CC_table by simp
  have lo: "crc_byte_l poly_ccitt (c AND 0xFF) = push_bit 8 c"
    by (rule crc_byte_l_shift)
  have split: "c XOR push_bit 8 (ucast d) = push_bit 8 ?h XOR (c AND 0xFF)"
    unfolding and_FF by (rule bit_word_eqI) (auto simp: bit_simps dest: bit_imp_le_length)
  have m1: "drop_bit 8 c AND 0xFF = drop_bit 8 c"
    unfolding and_FF by (rule bit_word_eqI) (auto simp: bit_simps dest: bit_imp_le_length)
  have m2: "w AND 0xFFFF = w" for w :: u16
  proof -
    have "(0xFFFF :: u16) = -1" by simp
    then show ?thesis by (simp only: and.right_neutral)
  qed
  have "cc_crc_upd c d = push_bit 8 c XOR CC_Table ! unat ?h"
    unfolding cc_crc_upd_def Let_def m1 m2 by (simp only: and_FF h)
  also have "\<dots> = crc_byte_l poly_ccitt (push_bit 8 ?h XOR (c AND 0xFF))"
    by (simp only: T lo crc_byte_l_xor xor.commute)
  finally show ?thesis by (simp only: split)
qed

section \<open>Error detection, for all of them at once\<close>

text \<open>
  A checksum that folds a step over the bytes detects every error confined to one byte as
  soon as the part of the register that later steps depend on (\<open>key\<close>) determines the byte
  just read and, for equal bytes, the \<open>key\<close> before.
\<close>

locale byte_check =
  fixes step :: "'s \<Rightarrow> byte \<Rightarrow> 's"
    and key :: "'s \<Rightarrow> 'k"
  assumes key_byte: "key (step c b) = key (step c b') \<Longrightarrow> b = b'"
    and key_state: "key (step c b) = key (step c' b) \<Longrightarrow> key c = key c'"
begin

lemma run_key: "key (foldl step c xs) = key (foldl step c' xs) \<Longrightarrow> key c = key c'"
proof (induction xs arbitrary: c c')
  case (Cons x xs)
  from Cons.prems have "key (foldl step (step c x) xs) = key (foldl step (step c' x) xs)"
    by simp
  then have "key (step c x) = key (step c' x)" by (rule Cons.IH)
  then show ?case by (rule key_state)
qed simp

lemma single_byte:
  assumes "foldl step c (xs @ b # ys) = foldl step c (xs @ b' # ys)"
  shows "b = b'"
proof -
  have "key (foldl step (step (foldl step c xs) b) ys) = key (foldl step (step (foldl step c xs) b') ys)"
    using assms by simp
  then have "key (step (foldl step c xs) b) = key (step (foldl step c xs) b')"
    by (rule run_key)
  then show ?thesis by (rule key_byte)
qed

end

lemma bit_poly_crc32: "bit poly_crc32 (LENGTH(32) - 1)"
  by (simp add: poly_crc32_def)

lemma bit_poly_a001: "bit poly_a001 (LENGTH(16) - 1)"
  by (simp add: poly_a001_def)

lemma bit_poly_l: "bit poly_crc8 0" "bit poly_ccitt 0"
  by (simp_all add: poly_crc8_def poly_ccitt_def)

lemmas crc_byte_r_crc32_inj = crc_byte_r_inj [OF bit_poly_crc32]
lemmas crc_byte_l_crc8_inj = crc_byte_l_inj [OF bit_poly_l(1)]
lemmas crc_byte_l_ccitt_inj = crc_byte_l_inj [OF bit_poly_l(2)]

lemma ucast_byte_inj:
  assumes "8 \<le> LENGTH('a::len)" "(ucast (b :: byte) :: 'a word) = ucast b'"
  shows "b = b'"
proof (rule bit_word_eqI)
  fix n assume "n < LENGTH(8)"
  with assms(1) show "bit b n = bit b' n"
    using arg_cong [OF assms(2), of "\<lambda>w. bit w n"] by (simp add: bit_simps)
qed

interpretation crc32: byte_check "crc32_upd MD_CRC32_TAB" "\<lambda>c. c"
  by unfold_locales (auto simp: MD_upd dest!: crc_byte_r_crc32_inj intro: ucast_byte_inj [where 'a = 32])

interpretation crc8: byte_check crc8_upd "\<lambda>c. c"
  by unfold_locales (auto simp: crc8_upd_eq dest!: crc_byte_l_crc8_inj)

lemma push8_ucast_inj: "push_bit 8 (ucast (b :: byte) :: u16) = push_bit 8 (ucast b') \<Longrightarrow> b = b'"
proof (rule bit_word_eqI)
  fix n assume eq: "push_bit 8 (ucast b :: u16) = push_bit 8 (ucast b')" and n: "n < LENGTH(8)"
  have "bit (push_bit 8 (ucast b :: u16)) (n + 8) = bit (push_bit 8 (ucast b' :: u16)) (n + 8)"
    by (simp only: eq)
  with n show "bit b n = bit b' n" by (simp add: bit_simps)
qed

interpretation ccitt: byte_check cc_crc_upd "\<lambda>c. c"
  by unfold_locales (auto simp: CC_upd_eq dest!: crc_byte_l_ccitt_inj push8_ucast_inj)

text \<open>The shuffled table: its entries have pairwise different top bytes, which is enough.\<close>

lemma RTU_top: "distinct (map (\<lambda>w. unat (drop_bit 24 w)) RTU_CRC32_TAB)"
  by (simp only: RTU_CRC32_TAB_def list.map) simp

lemma length_RTU: "length RTU_CRC32_TAB = 256"
  by (simp add: RTU_CRC32_TAB_def)

lemma RTU_upd_index:
  assumes "crc32_upd RTU_CRC32_TAB c b = crc32_upd RTU_CRC32_TAB c' b'"
  shows "take_bit 8 (c XOR ucast b) = take_bit 8 (c' XOR ucast b')" "drop_bit 8 c = drop_bit 8 c'"
proof -
  let ?i = "unat (take_bit 8 (c XOR ucast b))" and ?j = "unat (take_bit 8 (c' XOR ucast b'))"
  have top: "drop_bit 24 (drop_bit 8 w) = 0" for w :: u32
    by (rule bit_word_eqI) (auto simp: bit_simps dest: bit_imp_le_length)
  have "drop_bit 24 (RTU_CRC32_TAB ! ?i) = drop_bit 24 (RTU_CRC32_TAB ! ?j)"
    using arg_cong [OF assms, of "drop_bit 24"]
    by (simp only: crc32_upd_def and_FF drop_bit_xor top xor.right_neutral)
  then have "map (\<lambda>w. unat (drop_bit 24 w)) RTU_CRC32_TAB ! ?i
      = map (\<lambda>w. unat (drop_bit 24 w)) RTU_CRC32_TAB ! ?j"
    by (simp only: nth_map length_RTU unat_take8)
  then have ij: "?i = ?j"
    using RTU_top by (subst (asm) nth_eq_iff_index_eq) (simp_all only: length_map length_RTU unat_take8)
  then show "take_bit 8 (c XOR ucast b) = take_bit 8 (c' XOR ucast b')"
    by (rule unsigned_word_eqI)
  show "drop_bit 8 c = drop_bit 8 c'"
    using assms ij by (simp add: crc32_upd_def and_FF)
qed

lemma take8_drop8_eqI:
  fixes c c' :: "'a::len word"
  assumes "take_bit 8 c = take_bit 8 c'" "drop_bit 8 c = drop_bit 8 c'"
  shows "c = c'"
  by (metis assms word_split_r and_FF)

interpretation rtucrc: byte_check "crc32_upd RTU_CRC32_TAB" "\<lambda>c. c"
proof
  fix c c' :: u32 and b b' :: byte
  { assume "crc32_upd RTU_CRC32_TAB c b = crc32_upd RTU_CRC32_TAB c b'"
    then have "take_bit 8 (c XOR ucast b) = take_bit 8 (c XOR ucast b')"
      by (rule RTU_upd_index)
    moreover have "take_bit 8 (ucast x :: u32) = ucast x" for x :: byte
      by (rule bit_word_eqI) (auto simp: bit_simps dest: bit_imp_le_length)
    ultimately have "(ucast b :: u32) = ucast b'" by (simp add: take_bit_xor)
    then show "b = b'" by (rule ucast_byte_inj [rotated]) simp }
  assume e: "crc32_upd RTU_CRC32_TAB c b = crc32_upd RTU_CRC32_TAB c' b"
  from RTU_upd_index [OF e] show "c = c'"
    by - (rule take8_drop8_eqI, simp_all add: take_bit_xor)
qed

text \<open>HJ/T 212 keeps only the high byte of its register from one byte to the next.\<close>

lemma a001_kernel: "list_all (\<lambda>i. drop_bit 8 (crc_byte_r poly_a001 (word_of_nat i)) \<noteq> 0) [1..<256]"
proof -
  have "[1..<256] = tl [0..<256]" by (simp add: upt_rec [of 0])
  then show ?thesis
    by (simp only: upt_256 list.sel list.pred_inject)
      (simp add: poly_a001_def crc_byte_r_def crc_bit_r_def)
qed

lemma a001_high_zero:
  fixes v :: byte
  assumes "drop_bit 8 (crc_byte_r poly_a001 (ucast v)) = 0"
  shows "v = 0"
proof (rule ccontr)
  assume "v \<noteq> 0"
  then have "unat v \<in> set [1..<256]"
    using unsigned_less [of v] by (simp add: Suc_le_eq unat_gt_0)
  then have "drop_bit 8 (crc_byte_r poly_a001 (word_of_nat (unat v))) \<noteq> 0"
    using a001_kernel unfolding list_all_iff by (rule bspec [rotated])
  moreover have "(word_of_nat (unat v) :: u16) = ucast v" by (simp add: unsigned_eq_0_iff)
  ultimately show False using assms by simp
qed

lemma a001_high_inj:
  fixes u v :: byte
  assumes "drop_bit 8 (crc_byte_r poly_a001 (ucast u)) = drop_bit 8 (crc_byte_r poly_a001 (ucast v))"
  shows "u = v"
proof -
  have "ucast (u XOR v) = (ucast u :: u16) XOR ucast v"
    by (rule bit_word_eqI) (auto simp: bit_simps)
  then have "drop_bit 8 (crc_byte_r poly_a001 (ucast (u XOR v))) = 0"
    using assms by (simp add: crc_byte_r_xor drop_bit_xor)
  then have "u XOR v = 0" by (rule a001_high_zero)
  then show ?thesis by (metis xor.left_neutral xor_swap_self)
qed

lemma hjt_upd_byte: "hjt_crc_upd c b = crc_byte_r poly_a001 (ucast (b XOR ucast (drop_bit 8 c) :: byte))"
proof -
  have "ucast (b XOR ucast (drop_bit 8 c) :: byte) = (ucast b :: u16) XOR ucast (ucast (drop_bit 8 c) :: byte)"
    by (rule bit_word_eqI) (auto simp: bit_simps)
  then show ?thesis by (simp only: hjt_upd_eq)
qed

lemma ucast_high_inj:
  fixes c c' :: u16
  assumes "(ucast (drop_bit 8 c) :: byte) = ucast (drop_bit 8 c')"
  shows "drop_bit 8 c = drop_bit 8 c'"
proof (rule bit_word_eqI)
  fix n assume n: "n < LENGTH(16)"
  show "bit (drop_bit 8 c) n = bit (drop_bit 8 c') n"
  proof (cases "n < 8")
    case True
    then show ?thesis
      using arg_cong [OF assms, of "\<lambda>w. bit w n"] n by (simp add: bit_simps)
  next
    case False
    then show ?thesis by (auto simp: bit_simps dest: bit_imp_le_length)
  qed
qed

interpretation hjt: byte_check hjt_crc_upd "drop_bit 8"
proof
  fix c c' :: u16 and b b' :: byte
  { assume "drop_bit 8 (hjt_crc_upd c b) = drop_bit 8 (hjt_crc_upd c b')"
    then have "b XOR ucast (drop_bit 8 c) = b' XOR ucast (drop_bit 8 c)"
      unfolding hjt_upd_byte by (rule a001_high_inj)
    then show "b = b'" by simp }
  assume "drop_bit 8 (hjt_crc_upd c b) = drop_bit 8 (hjt_crc_upd c' b)"
  then have "b XOR ucast (drop_bit 8 c) = b XOR ucast (drop_bit 8 c')"
    unfolding hjt_upd_byte by (rule a001_high_inj)
  then have "(ucast (drop_bit 8 c) :: byte) = ucast (drop_bit 8 c')" by simp
  then show "drop_bit 8 c = drop_bit 8 c'" by (rule ucast_high_inj)
qed

section \<open>Properties\<close>

text \<open>
  The table-driven CRC-32 of the board code and of the communication library compute
  the bitwise CRC-32 division (polynomial \<open>EDB88320\<close>, complemented on entry and exit), for
  every start value and every message.
\<close>

theorem crc32_is_polynomial_division:
  "ulRTCrc32 c bs = NOT (foldl (\<lambda>r b. crc_byte_r poly_crc32 (r XOR ucast b)) (NOT c) bs)
   \<and> ulMDCrc32 c bs = ulRTCrc32 c bs"
  by (simp add: ulRTCrc32_def ulMDCrc32_def RT_table foldl_fun_eq [OF MD_upd])

text \<open>
  The CCITT checksum of the building-energy protocol is the bitwise division by
  \<open>1021\<close>, most significant bit first, from a zero register.
\<close>

theorem CC_GetCrc16_is_polynomial_division:
  "CC_GetCrc16 bs = foldl (\<lambda>r b. crc_byte_l poly_ccitt (r XOR push_bit 8 (ucast b))) 0 bs"
  by (simp add: CC_GetCrc16_def foldl_fun_eq [OF CC_upd_eq])

text \<open>
  C26. Each of the checksums detects every change of a single byte, wherever it is in the
  message: HJ/T 212, the building-energy CCITT, the CRC-32, the CRC-8, and the registration
  module's CRC-32 with its shuffled table.
\<close>

theorem checksums_detect_single_byte:
  assumes "b \<noteq> b'"
  shows "hjt212_crc (xs @ b # ys) \<noteq> hjt212_crc (xs @ b' # ys)
    \<and> CC_GetCrc16 (xs @ b # ys) \<noteq> CC_GetCrc16 (xs @ b' # ys)
    \<and> ulRTCrc32 c (xs @ b # ys) \<noteq> ulRTCrc32 c (xs @ b' # ys)
    \<and> btMDCrc8 c8 (xs @ b # ys) \<noteq> btMDCrc8 c8 (xs @ b' # ys)
    \<and> rtu_crc32 c (xs @ b # ys) \<noteq> rtu_crc32 c (xs @ b' # ys)"
proof -
  have inj: "NOT x = NOT y \<Longrightarrow> x = y" for x y :: "'w::len word"
    by (metis bit.double_compl)
  have "hjt212_crc (xs @ b # ys) \<noteq> hjt212_crc (xs @ b' # ys)"
    using assms by (auto simp only: hjt212_crc_def dest: hjt.single_byte)
  moreover have "CC_GetCrc16 (xs @ b # ys) \<noteq> CC_GetCrc16 (xs @ b' # ys)"
    using assms by (auto simp only: CC_GetCrc16_def dest: ccitt.single_byte)
  moreover have "ulRTCrc32 c (xs @ b # ys) \<noteq> ulRTCrc32 c (xs @ b' # ys)"
    using assms by (auto simp only: ulRTCrc32_def RT_table dest!: inj dest: crc32.single_byte)
  moreover have "btMDCrc8 c8 (xs @ b # ys) \<noteq> btMDCrc8 c8 (xs @ b' # ys)"
    using assms by (auto simp only: btMDCrc8_def dest!: inj dest: crc8.single_byte)
  moreover have "rtu_crc32 c (xs @ b # ys) \<noteq> rtu_crc32 c (xs @ b' # ys)"
    using assms by (auto simp only: rtu_crc32_def dest!: inj dest: rtucrc.single_byte)
  ultimately show ?thesis by blast
qed

theorem checksums_detect_single_byte_witness:
  "hjt212_crc ([1, 2] @ 3 # [4]) \<noteq> hjt212_crc ([1, 2] @ 7 # [4])"
  using checksums_detect_single_byte [of 3 7 "[1, 2]" "[4]" 0 0] by simp

end
