(* ===== verification/CText.thy ===== *)
theory CText
  imports Prelude
begin

text \<open>
  The pieces of the C library the protocol code is written with: decimal and hexadecimal
  conversions of \<open>sprintf\<close>, \<open>strstr\<close>, the scan sets of \<open>sscanf\<close>, \<open>strncmp\<close>, \<open>atoi\<close>, and
  stores of formatted text into arrays of fixed size. A C string is the list of its bytes
  before the terminator; an array is the list of all its bytes.
\<close>

unbundle bit_operations_syntax

section \<open>Decimal and hexadecimal text\<close>

fun dec :: "nat \<Rightarrow> byte list" where
  "dec n = (if n < 10 then [0x30 + word_of_nat n] else dec (n div 10) @ [0x30 + word_of_nat (n mod 10)])"

declare dec.simps [simp del]

text \<open>\<open>%0wd\<close> for a value that is not negative.\<close>

definition dec_pad :: "nat \<Rightarrow> nat \<Rightarrow> byte list" where
  "dec_pad w n = replicate (w - length (dec n)) 0x30 @ dec n"

text \<open>One digit of \<open>%x\<close>.\<close>

definition hexdig :: "byte \<Rightarrow> byte" where
  "hexdig d = (if d < 10 then 0x30 + d else 0x57 + d)"

text \<open>\<open>%02x\<close>\<close>

definition hex02 :: "byte \<Rightarrow> byte list" where
  "hex02 b = [hexdig (drop_bit 4 b), hexdig (b AND 0x0F)]"

text \<open>\<open>%X\<close> and \<open>%02X\<close>\<close>

definition hexU :: "byte \<Rightarrow> byte" where
  "hexU d = (if d < 10 then 0x30 + d else 0x37 + d)"

definition hex02X :: "byte \<Rightarrow> byte list" where
  "hex02X b = [hexU (drop_bit 4 b), hexU (b AND 0x0F)]"

lemma dec_lt10: "n < 10 \<Longrightarrow> dec n = [0x30 + word_of_nat n]"
  by (simp add: dec.simps)

lemma dec_ge10: "10 \<le> n \<Longrightarrow> dec n = dec (n div 10) @ [0x30 + word_of_nat (n mod 10)]"
  by (subst dec.simps) simp

lemma length_dec: "n < 10 ^ Suc k \<Longrightarrow> length (dec n) \<le> Suc k"
proof (induction k arbitrary: n)
  case 0
  then show ?case by (simp add: dec_lt10)
next
  case (Suc k)
  show ?case
  proof (cases "n < 10")
    case True
    then show ?thesis by (simp add: dec_lt10)
  next
    case False
    from Suc.prems have "n div 10 < 10 ^ Suc k"
      by (simp add: less_mult_imp_div_less mult.commute)
    then have "length (dec (n div 10)) \<le> Suc k" by (rule Suc.IH)
    with False show ?thesis by (simp add: dec_ge10)
  qed
qed

lemma length_dec_pad [fmt_simps]: "n < 10 ^ w \<Longrightarrow> 0 < w \<Longrightarrow> length (dec_pad w n) = w"
  using length_dec [of n "w - 1"] by (simp add: dec_pad_def)

lemma digit_range:
  assumes "d < 10"
  shows "0x30 \<le> (0x30 + word_of_nat d :: byte) \<and> 0x30 + word_of_nat d \<le> (0x39 :: byte)"
proof -
  from assms have "d \<in> {0,1,2,3,4,5,6,7,8,9}" by auto
  then show ?thesis by auto
qed

lemma dec_digits: "b \<in> set (dec n) \<Longrightarrow> 0x30 \<le> b \<and> b \<le> 0x39"
proof (induction n rule: less_induct)
  case (less n)
  show ?case
  proof (cases "n < 10")
    case True
    with less.prems have "b = 0x30 + word_of_nat n" by (simp add: dec_lt10)
    with digit_range [OF True] show ?thesis by simp
  next
    case False
    with less.prems have "b \<in> set (dec (n div 10)) \<or> b = 0x30 + word_of_nat (n mod 10)"
      by (auto simp: dec_ge10)
    then show ?thesis
    proof
      assume "b \<in> set (dec (n div 10))"
      with False show ?thesis by (intro less.IH) auto
    next
      assume "b = 0x30 + word_of_nat (n mod 10)"
      with digit_range [of "n mod 10"] show ?thesis by simp
    qed
  qed
qed

lemma dec_pad_digits: "b \<in> set (dec_pad w n) \<Longrightarrow> 0x30 \<le> b \<and> b \<le> 0x39"
  by (auto simp: dec_pad_def dest: dec_digits)

section \<open>Strings\<close>

text \<open>\<open>strstr\<close>: the rest of the string from the first match on.\<close>

fun strstr :: "byte list \<Rightarrow> byte list \<Rightarrow> byte list option" where
  "strstr [] pat = (if pat = [] then Some [] else None)"
| "strstr (c # s) pat = (if take (length pat) (c # s) = pat then Some (c # s) else strstr s pat)"

text \<open>\<open>sscanf (s, "%n[^stop]", ...)\<close>: \<open>None\<close> when nothing matches, and then nothing is stored.\<close>

definition scanset :: "nat \<Rightarrow> byte \<Rightarrow> byte list \<Rightarrow> byte list option" where
  "scanset n stop s = (case takeWhile (\<lambda>c. c \<noteq> stop) (take n s) of [] \<Rightarrow> None | t \<Rightarrow> Some t)"

text \<open>A string store into an array: the text and its terminator, \<open>None\<close> if they do not fit.\<close>

definition put_str :: "byte list \<Rightarrow> byte list \<Rightarrow> byte list option" where
  "put_str arr t = blit_chk arr 0 (t @ [0])"

text \<open>
  \<open>sprintf\<close> into a local array of \<open>n\<close> bytes behind which the compiler's frame layout leaves
  \<open>slack\<close> bytes that nothing else lives in: the C rule is \<open>slack = 0\<close>.
\<close>

definition sprintf_chk :: "nat \<Rightarrow> nat \<Rightarrow> byte list \<Rightarrow> byte list option" where
  "sprintf_chk slack n t = (if length t + 1 \<le> n + slack then Some t else None)"

text \<open>\<open>strncpy\<close> of the string \<open>s\<close> to an array of \<open>n\<close> bytes, which then may have no terminator.\<close>

definition strncpy_arr :: "nat \<Rightarrow> byte list \<Rightarrow> byte list" where
  "strncpy_arr n s = take n s @ replicate (n - length s) 0"

lemma length_strncpy_arr [simp]: "length (strncpy_arr n s) = n"
  by (simp add: strncpy_arr_def)

lemma strncpy_zero: "0 \<notin> set s \<Longrightarrow> 0 \<in> set (strncpy_arr n s) \<longleftrightarrow> length s < n"
  by (auto simp: strncpy_arr_def dest: in_set_takeD)

text \<open>\<open>strncmp (a, b, n) == 0\<close>; the arrays hold at least \<open>n\<close> bytes or a terminator.\<close>

fun strncmp_eq :: "nat \<Rightarrow> byte list \<Rightarrow> byte list \<Rightarrow> bool" where
  "strncmp_eq 0 a b = True"
| "strncmp_eq (Suc n) (x # a) (y # b) = (x = y \<and> (x = 0 \<or> strncmp_eq n a b))"
| "strncmp_eq (Suc n) _ _ = False"

text \<open>\<open>atoi\<close>: white space, a sign, then decimal digits.\<close>

definition is_digit :: "byte \<Rightarrow> bool" where
  "is_digit b = (0x30 \<le> b \<and> b \<le> 0x39)"

definition is_space :: "byte \<Rightarrow> bool" where
  "is_space b = (b = 0x20 \<or> (0x09 \<le> b \<and> b \<le> 0x0d))"

definition atoi_digits :: "byte list \<Rightarrow> int" where
  "atoi_digits s = foldl (\<lambda>v b. v * 10 + int (unat (b - 0x30))) 0 (takeWhile is_digit s)"

definition atoi :: "byte list \<Rightarrow> int" where
  "atoi s = (case dropWhile is_space s of
      [] \<Rightarrow> 0
    | c # r \<Rightarrow> if c = 0x2d then - atoi_digits r else if c = 0x2b then atoi_digits r else atoi_digits (c # r))"

lemma strstr_hit: "strstr (pat @ s) pat = Some (pat @ s)"
  by (cases pat; cases "pat @ s") auto

lemma strstr_suffix: "strstr s pat = Some r \<Longrightarrow> \<exists>p. s = p @ r \<and> take (length pat) r = pat"
proof (induction s)
  case (Cons c s)
  then show ?case by (cases "take (length pat) (c # s) = pat") (auto intro: exI [of _ "c # _"])
qed (auto split: if_splits)

text \<open>A text that no match starts in is skipped.\<close>

lemma strstr_skip:
  assumes "\<And>i. i < length x \<Longrightarrow> take (length pat) (drop i (x @ y)) \<noteq> pat"
  shows "strstr (x @ y) pat = strstr y pat"
  using assms
proof (induction x)
  case (Cons c x)
  from Cons.prems [of 0] have "take (length pat) ((c # x) @ y) \<noteq> pat" by simp
  moreover have "strstr (x @ y) pat = strstr y pat"
  proof (rule Cons.IH)
    fix i assume "i < length x"
    with Cons.prems [of "Suc i"] show "take (length pat) (drop i (x @ y)) \<noteq> pat" by simp
  qed
  ultimately show ?case by simp
qed simp

text \<open>
  A field \<open>name=value;\<close> whose value has no \<open>=\<close> is skipped by the search for a key that
  is not a suffix of its name.
\<close>

lemma strstr_skip_field:
  assumes "0x3d \<notin> set name" "0x3d \<notin> set val" "0x3d \<notin> set k"
    and "0x3b \<notin> set k" "k \<noteq> []" "\<And>p. name \<noteq> p @ k"
  shows "strstr ((name @ [0x3d] @ val @ [0x3b]) @ y) (k @ 0x3d # q) = strstr y (k @ 0x3d # q)"
proof (rule strstr_skip)
  let ?x = "name @ [0x3d] @ val @ [0x3b]" and ?pat = "k @ 0x3d # q"
  fix i assume i: "i < length ?x"
  show "take (length ?pat) (drop i (?x @ y)) \<noteq> ?pat"
  proof
    assume t: "take (length ?pat) (drop i (?x @ y)) = ?pat"
    have "length (take (length ?pat) (drop i (?x @ y))) = length ?pat" unfolding t ..
    then have l: "i + length ?pat \<le> length (?x @ y)"
      by (simp only: length_take length_drop min_def split: if_splits) (use i in simp)
    have e: "(?x @ y) ! (i + j) = ?pat ! j" if "j < length ?pat" for j
      using arg_cong [OF t, of "\<lambda>l. l ! j"] that l by (simp only: nth_take nth_drop)
    have eq: "(?x @ y) ! (i + length k) = 0x3d" using e [of "length k"] by simp
    have ek: "(?x @ y) ! (i + j) = k ! j" if "j < length k" for j
      using e [of j] that by (simp add: nth_append)
    have last: "(?x @ y) ! (length ?x - 1) = 0x3b" by (simp add: nth_append)
    show False
    proof (cases "i + length k < length ?x")
      case True
      have n: "(?x @ y) ! (i + length k) = ?x ! (i + length k)" using True by (simp only: nth_append if_True)
      have "i + length k = length name"
      proof (rule ccontr)
        assume "i + length k \<noteq> length name"
        then have "?x ! (i + length k) \<in> set name \<union> set val \<union> {0x3b}"
          using True by (auto simp: nth_append nth_Cons' Suc_diff_Suc)
        with eq n assms(1,2) show False by auto
      qed
      moreover have "drop i name = k"
      proof (rule nth_equalityI)
        fix j assume "j < length (drop i name)"
        then show "drop i name ! j = k ! j"
          using ek [of j] calculation by (simp add: nth_append)
      qed (use calculation in simp)
      ultimately have "name = take i name @ k" by (metis append_take_drop_id)
      with assms(6) show False by blast
    next
      case False
      define j where "j = length ?x - 1 - i"
      have "j < length k" "i + j = length ?x - 1" using False i by (auto simp: j_def)
      with last ek [of j] have "k ! j = 0x3b" by simp
      with \<open>j < length k\<close> assms(4) show False by (auto dest: nth_mem)
    qed
  qed
qed

lemma scanset_hit:
  assumes "t \<noteq> []" "length t \<le> n" "stop \<notin> set t"
  shows "scanset n stop (t @ stop # r) = Some t"
proof -
  have "takeWhile (\<lambda>c. c \<noteq> stop) (take n (t @ stop # r)) = t"
  proof (cases "n - length t")
    case (Suc k)
    with assms(2) have "take n (t @ stop # r) = t @ stop # take k r" by simp
    moreover have "takeWhile (\<lambda>c. c \<noteq> stop) (t @ stop # take k r) = t"
      using assms(3) by (subst takeWhile_append2) auto
    ultimately show ?thesis by simp
  next
    case 0
    with assms(2) have "take n (t @ stop # r) = t" by simp
    with assms(3) show ?thesis by (auto simp: takeWhile_eq_all_conv)
  qed
  with assms(1) show ?thesis by (cases t) (auto simp: scanset_def)
qed

lemma scanset_length: "scanset n stop s = Some t \<Longrightarrow> length t \<le> n"
proof -
  assume a: "scanset n stop s = Some t"
  then have "t = takeWhile (\<lambda>c. c \<noteq> stop) (take n s)"
    by (auto simp: scanset_def split: list.splits)
  then have "length t \<le> length (take n s)" by (simp only: length_takeWhile_le)
  then show "length t \<le> n" by simp
qed

lemma put_str_Some: "put_str arr t = Some a \<Longrightarrow> length t < length arr \<and> length a = length arr"
  by (auto simp: put_str_def blit_chk_def split: if_splits)

lemma put_str_cstr: "put_str arr t = Some a \<Longrightarrow> 0 \<notin> set t \<Longrightarrow> cstr a = Some t"
  by (auto simp: put_str_def blit_chk_def blit_def cstr_append0 split: if_splits)

lemma strncmp_eq_refl: "n \<le> length a \<Longrightarrow> strncmp_eq n a a"
  by (induction n arbitrary: a) (auto simp: Suc_le_length_iff)

lemma strstr_skip_char:
  assumes "c \<notin> set x"
  shows "strstr (x @ y) (c # pat) = strstr y (c # pat)"
proof (rule strstr_skip)
  fix i assume "i < length x"
  moreover from this have "drop i x = x ! i # drop (Suc i) x" by (simp add: Cons_nth_drop_Suc)
  ultimately show "take (length (c # pat)) (drop i (x @ y)) \<noteq> c # pat"
    using assms nth_mem [of i x] by auto
qed

end
