(* ===== verification/Hjt212.thy ===== *)
theory Hjt212
  imports Crc CText
begin

text \<open>
  The HJ/T 212-2005 environmental data protocol of the gateway (\<open>sdccp/hjt212.c\<close>,
  \<open>sdccp/hjt212.h\<close>): the frame encoder \<open>Hjt212Encode\<close>, the receive state machine
  \<open>HJT212_PutBytes\<close>, the command parser \<open>__HJT212_ParsePack\<close> and the replies it sends. The
  state is one link's share of the static arrays indexed by \<open>index\<close>: the receive buffer
  \<open>s_pCCBuffer\<close> and its fill position \<open>s_CCBufferPos\<close>, \<open>s_eRcvState\<close>, the configuration
  \<open>s_Hj212CfgData\<close> and the message queue \<open>s_CCDataQueue\<close>; beside it the frames handed to
  \<open>cc_net_send\<close> and the number of heap blocks the parser still holds.

  An operation returns \<open>None\<close> exactly where the C code would read or write outside an
  object. Local arrays may have unused bytes behind them; \<open>e_slack\<close> says how many. The C
  language promises none (\<open>e_slack = 0\<close>).
\<close>

unbundle bit_operations_syntax

section \<open>Constants, configuration and messages\<close>

definition HJT212_BUF_SIZE :: nat where "HJT212_BUF_SIZE = 2048"
definition HJT212_PRE :: u16 where "HJT212_PRE = 0x2323"
definition HJT212_EOM :: u16 where "HJT212_EOM = 0x0A0d"

datatype eHJT212_RcvState = HJT212_R_S_HEAD | HJT212_R_S_EOM

datatype eReRtn = RE_RETURN_SUCCESS | RE_RETURN_FAILED | RE_RETURN_PASSWD_ERR

fun re_code :: "eReRtn \<Rightarrow> nat" where
  "re_code RE_RETURN_SUCCESS = 1"
| "re_code RE_RETURN_FAILED = 2"
| "re_code RE_RETURN_PASSWD_ERR = 3"

datatype eExeRtn = EXE_RETURN_SUCCESS | EXE_RETURN_FAILED | EXE_RETURN_NO_DATA

fun exe_code :: "eExeRtn \<Rightarrow> nat" where
  "exe_code EXE_RETURN_SUCCESS = 1"
| "exe_code EXE_RETURN_FAILED = 2"
| "exe_code EXE_RETURN_NO_DATA = 100"

text \<open>The commands of \<open>eHJT212_Cmd_Type_t\<close>, in its order, with their values.\<close>

datatype eHJT212_Cmd =
    CMD_REQUEST_SET_TIMEOUT_RETRY | CMD_REQUEST_SET_TIMEOUT_ALARM
  | CMD_REQUEST_UPLOAD_TIME | CMD_REQUEST_SET_TIME
  | CMD_REQUEST_UPLOAD_CONTAM_THRESHOLD | CMD_REQUEST_SET_CONTAM_THRESHOLD
  | CMD_REQUEST_UPLOAD_UPPER_ADDR | CMD_REQUEST_SET_UPPER_ADDR
  | CMD_REQUEST_UPLOAD_DAY_DATA_TIME | CMD_REQUEST_SET_DAY_DATA_TIME
  | CMD_REQUEST_UPLOAD_REAL_DATA_INTERVAL | CMD_REQUEST_SET_REAL_DATA_INTERVAL
  | CMD_REQUEST_SET_PASSWD
  | CMD_REQUEST_UPLOAD_CONTAM_REAL_DATA | CMD_NOTICE_STOP_CONTAM_REAL_DATA
  | CMD_REQUEST_UPLOAD_RUNING_STATUS | CMD_NOTICE_STOP_RUNING_STATUS
  | CMD_REQUEST_UPLOAD_CONTAM_HISTORY_DATA | CMD_REQUEST_UPLOAD_RUNING_TIME
  | CMD_REQUEST_UPLOAD_CONTAM_MIN_DATA | CMD_REQUEST_UPLOAD_CONTAM_HOUR_DATA
  | CMD_REQUEST_UPLOAD_CONTAM_ALARM_RECORD | CMD_UPLOAD_CONTAM_ALARM_RECORD
  | CMD_REQUEST_CHECK | CMD_REQUEST_SAMPLE | CMD_REQUEST_CONTROL | CMD_REQUEST_SET_SAMPLE_TIME
  | CMD_REQUEST_RESPONSE | CMD_REQUES_RESULT | CMD_NOTICE_RESPONSE | CMD_DATA_RESPONSE
  | CMD_LOGIN | CMD_LOGIN_RESPONSE

fun cmd_code :: "eHJT212_Cmd \<Rightarrow> nat" where
  "cmd_code CMD_REQUEST_SET_TIMEOUT_RETRY = 1000"
| "cmd_code CMD_REQUEST_SET_TIMEOUT_ALARM = 1001"
| "cmd_code CMD_REQUEST_UPLOAD_TIME = 1011"
| "cmd_code CMD_REQUEST_SET_TIME = 1012"
| "cmd_code CMD_REQUEST_UPLOAD_CONTAM_THRESHOLD = 1021"
| "cmd_code CMD_REQUEST_SET_CONTAM_THRESHOLD = 1022"
| "cmd_code CMD_REQUEST_UPLOAD_UPPER_ADDR = 1031"
| "cmd_code CMD_REQUEST_SET_UPPER_ADDR = 1032"
| "cmd_code CMD_REQUEST_UPLOAD_DAY_DATA_TIME = 1041"
| "cmd_code CMD_REQUEST_SET_DAY_DATA_TIME = 1042"
| "cmd_code CMD_REQUEST_UPLOAD_REAL_DATA_INTERVAL = 1061"
| "cmd_code CMD_REQUEST_SET_REAL_DATA_INTERVAL = 1062"
| "cmd_code CMD_REQUEST_SET_PASSWD = 1072"
| "cmd_code CMD_REQUEST_UPLOAD_CONTAM_REAL_DATA = 2011"
| "cmd_code CMD_NOTICE_STOP_CONTAM_REAL_DATA = 2012"
| "cmd_code CMD_REQUEST_UPLOAD_RUNING_STATUS = 2021"
| "cmd_code CMD_NOTICE_STOP_RUNING_STATUS = 2022"
| "cmd_code CMD_REQUEST_UPLOAD_CONTAM_HISTORY_DATA = 2031"
| "cmd_code CMD_REQUEST_UPLOAD_RUNING_TIME = 2041"
| "cmd_code CMD_REQUEST_UPLOAD_CONTAM_MIN_DATA = 2051"
| "cmd_code CMD_REQUEST_UPLOAD_CONTAM_HOUR_DATA = 2061"
| "cmd_code CMD_REQUEST_UPLOAD_CONTAM_ALARM_RECORD = 2071"
| "cmd_code CMD_UPLOAD_CONTAM_ALARM_RECORD = 2072"
| "cmd_code CMD_REQUEST_CHECK = 3011"
| "cmd_code CMD_REQUEST_SAMPLE = 3012"
| "cmd_code CMD_REQUEST_CONTROL = 3013"
| "cmd_code CMD_REQUEST_SET_SAMPLE_TIME = 3014"
| "cmd_code CMD_REQUEST_RESPONSE = 9011"
| "cmd_code CMD_REQUES_RESULT = 9012"
| "cmd_code CMD_NOTICE_RESPONSE = 9013"
| "cmd_code CMD_DATA_RESPONSE = 9014"
| "cmd_code CMD_LOGIN = 9021"
| "cmd_code CMD_LOGIN_RESPONSE = 9022"

text \<open>\<open>HJT212_Cfg_t\<close>: \<open>ST[6]\<close>, \<open>PW[7]\<close>, \<open>MN[15]\<close>, the period and the flag bits.\<close>

record HJT212_Cfg =
  cfg_ST :: "byte list"
  cfg_PW :: "byte list"
  cfg_MN :: "byte list"
  ulPeriod :: u32
  verify_flag :: bool
  real_flag :: bool
  min_flag :: bool
  hour_flag :: bool
  no_min :: bool
  no_max :: bool
  no_avg :: bool
  no_cou :: bool

text \<open>\<open>HJT212_Data_t\<close>; \<open>cp\<close> is the pointer to the command parameters, \<open>None\<close> for \<open>NULL\<close>.\<close>

record HJT212_Data =
  eType :: nat
  d_QN :: "byte list"
  d_PNUM :: "byte list"
  d_PNO :: "byte list"
  d_ST :: "byte list"
  d_CN :: "byte list"
  d_PW :: "byte list"
  d_MN :: "byte list"
  d_Flag :: "byte list"
  d_cp :: "byte list option"

definition HJT212_Data_zero :: HJT212_Data where
  "HJT212_Data_zero = \<lparr>eType = 0, d_QN = replicate 21 0, d_PNUM = replicate 5 0,
     d_PNO = replicate 5 0, d_ST = replicate 6 0, d_CN = replicate 8 0, d_PW = replicate 7 0,
     d_MN = replicate 15 0, d_Flag = replicate 4 0, d_cp = None\<rparr>"

text \<open>\<open>HJT212_Package_t\<close>; \<open>pData\<close> points into the receive buffer, from byte 6 to its end.\<close>

record HJT212_Package =
  usPre :: "byte list"
  btLen :: "byte list"
  pData :: "byte list"
  btCheck :: "byte list"
  usEom :: "byte list"

text \<open>
  What the operations ask the system for: the wall clock (\<open>localtime_r\<close>, \<open>gettimeofday\<close>),
  whether \<open>rt_calloc\<close> finds memory, and the unused bytes behind local arrays.
\<close>

record env =
  tm_year :: nat
  tm_mon :: nat
  tm_mday :: nat
  tm_hour :: nat
  tm_min :: nat
  tm_sec :: nat
  tv_usec :: nat
  e_alloc :: bool
  e_slack :: nat

record hjt_link =
  hj_buf :: "byte list"
  hj_pos :: nat
  hj_rcv :: eHJT212_RcvState
  hj_cfg :: HJT212_Cfg
  hj_mq :: "HJT212_Data list"
  hj_sent :: "byte list list"
  hj_heap :: nat

section \<open>The encoder\<close>

text \<open>\<open>Hex2Str\<close>: two digits of \<open>%02x\<close>, then the letters to upper case.\<close>

definition to_upper :: "byte \<Rightarrow> byte" where
  "to_upper c = (if ch CHR ''a'' \<le> c \<and> c \<le> ch CHR ''z'' then c - 32 else c)"

definition Hex2Str :: "byte \<Rightarrow> byte list" where
  "Hex2Str hex = map to_upper [hexdig (drop_bit 4 hex), hexdig (hex AND 0x0F)]"

text \<open>
  The copy loops \<open>for (i = 0; i < n; i++) { if ('\0' == s[i]) break; ... }\<close> over an array
  \<open>s\<close>; \<open>None\<close>: the loop reads past its end.
\<close>

definition copy_loop :: "nat \<Rightarrow> byte list \<Rightarrow> byte list option" where
  "copy_loop n s = (if n \<le> length s \<or> 0 \<in> set s
     then Some (takeWhile (\<lambda>c. c \<noteq> 0) (take n s)) else None)"

definition enc_field :: "string \<Rightarrow> nat \<Rightarrow> byte list option \<Rightarrow> byte list option" where
  "enc_field name n arg = (case arg of
      None \<Rightarrow> Some []
    | Some s \<Rightarrow> do { v \<leftarrow> copy_loop n s; Some (lit name @ lit ''='' @ v @ lit '';'') })"

definition enc_flag :: "byte list option \<Rightarrow> byte list option" where
  "enc_flag arg = (case arg of
      None \<Rightarrow> Some []
    | Some [] \<Rightarrow> None
    | Some (f # _) \<Rightarrow> Some (lit ''Flag='' @ [f] @ lit '';''))"

definition enc_cp :: "byte list option \<Rightarrow> byte list option" where
  "enc_cp arg = (case arg of
      None \<Rightarrow> Some []
    | Some s \<Rightarrow> do { v \<leftarrow> cstr s; Some (lit ''CP=&&'' @ v @ lit ''&&'') })"

text \<open>The data segment, \<open>sBuf[6..index)\<close>.\<close>

definition enc_data ::
  "byte list option \<Rightarrow> byte list option \<Rightarrow> byte list option \<Rightarrow> byte list option \<Rightarrow>
   byte list option \<Rightarrow> byte list option \<Rightarrow> byte list option \<Rightarrow> byte list option" where
  "enc_data QN ST CN PW MN Flag CP = do {
     qn \<leftarrow> enc_field ''QN'' 17 QN;
     st \<leftarrow> enc_field ''ST'' 5 ST;
     cn \<leftarrow> enc_field ''CN'' 4 CN;
     pw \<leftarrow> enc_field ''PW'' 6 PW;
     mn \<leftarrow> enc_field ''MN'' 14 MN;
     fl \<leftarrow> enc_flag Flag;
     cp \<leftarrow> enc_cp CP;
     Some (qn @ st @ cn @ pw @ mn @ fl @ cp) }"

text \<open>\<open>for (i=0; i<4; i++) { sBuf[5-i]='0'+length%10; length/=10; }\<close>\<close>

definition len_digits :: "nat \<Rightarrow> byte list" where
  "len_digits len = [0x30 + word_of_nat (len div 1000 mod 10),
     0x30 + word_of_nat (len div 100 mod 10),
     0x30 + word_of_nat (len div 10 mod 10), 0x30 + word_of_nat (len mod 10)]"

definition crc_text :: "u16 \<Rightarrow> byte list" where
  "crc_text c = Hex2Str (ucast (drop_bit 8 c)) @ Hex2Str (ucast (c AND 0xff))"

definition hjt_frame :: "byte list \<Rightarrow> byte list" where
  "hjt_frame d = lit ''##'' @ len_digits (length d) @ d @ crc_text (hjt212_crc d) @ [0x0d, 0x0a]"

text \<open>
  The frame written to \<open>sBuf\<close>, an array of \<open>cap\<close> bytes; its length is the value the
  function returns.
\<close>

definition Hjt212Encode ::
  "byte list option \<Rightarrow> byte list option \<Rightarrow> byte list option \<Rightarrow> byte list option \<Rightarrow>
   byte list option \<Rightarrow> byte list option \<Rightarrow> byte list option \<Rightarrow> nat \<Rightarrow> byte list option" where
  "Hjt212Encode QN ST CN PW MN Flag CP cap = do {
     d \<leftarrow> enc_data QN ST CN PW MN Flag CP;
     if length (hjt_frame d) \<le> cap then Some (hjt_frame d) else None }"

section \<open>The replies\<close>

text \<open>\<open>sprintf(qn, "%04d%02d%02d%02d%02d%02d%03d", ...)\<close> and the shorter time of the data.\<close>

definition fmt_time :: "env \<Rightarrow> byte list" where
  "fmt_time e = dec_pad 4 (tm_year e + 1900) @ dec_pad 2 (tm_mon e + 1) @ dec_pad 2 (tm_mday e)
     @ dec_pad 2 (tm_hour e) @ dec_pad 2 (tm_min e) @ dec_pad 2 (tm_sec e)"

definition fmt_qn :: "env \<Rightarrow> byte list" where
  "fmt_qn e = fmt_time e @ dec_pad 3 (tv_usec e div 1000 mod 1000)"

definition send :: "byte list \<Rightarrow> hjt_link \<Rightarrow> hjt_link" where
  "send f st = st\<lparr>hj_sent := hj_sent st @ [f]\<rparr>"

definition hjt212_login_verify_req :: "env \<Rightarrow> hjt_link \<Rightarrow> hjt_link option" where
  "hjt212_login_verify_req e st = (if \<not> e_alloc e then Some st else do {
     qn \<leftarrow> sprintf_chk (e_slack e) 20 (fmt_qn e);
     cfgst \<leftarrow> cstr (cfg_ST (hj_cfg st));
     stt \<leftarrow> sprintf_chk (e_slack e) 6 cfgst;
     cn \<leftarrow> sprintf_chk (e_slack e) 8 (dec (cmd_code CMD_LOGIN));
     f \<leftarrow> Hjt212Encode (Some (qn @ [0])) (Some (stt @ [0])) (Some (cn @ [0]))
        (Some (cfg_PW (hj_cfg st))) (Some (cfg_MN (hj_cfg st))) (Some (lit ''N'' @ [0]))
        (Some [0]) 256;
     Some (send f st) })"

definition hjt212_req_respons :: "env \<Rightarrow> eReRtn \<Rightarrow> hjt_link \<Rightarrow> hjt_link option" where
  "hjt212_req_respons e rtn st = (if \<not> e_alloc e then Some st else do {
     qn \<leftarrow> sprintf_chk (e_slack e) 20 (fmt_qn e);
     cfgst \<leftarrow> cstr (cfg_ST (hj_cfg st));
     stt \<leftarrow> sprintf_chk (e_slack e) 6 cfgst;
     cn \<leftarrow> sprintf_chk (e_slack e) 8 (dec (cmd_code CMD_REQUEST_RESPONSE));
     cp \<leftarrow> sprintf_chk (e_slack e) 40 (lit ''QN='' @ qn @ lit '';QnRtn='' @ dec (re_code rtn));
     f \<leftarrow> Hjt212Encode None (Some (stt @ [0])) (Some (cn @ [0]))
        (Some (cfg_PW (hj_cfg st))) (Some (cfg_MN (hj_cfg st))) (Some (lit ''0'' @ [0]))
        (Some (cp @ [0])) 256;
     Some (send f st) })"

definition hjt212_req_result :: "env \<Rightarrow> eExeRtn \<Rightarrow> hjt_link \<Rightarrow> hjt_link option" where
  "hjt212_req_result e rtn st = (if \<not> e_alloc e then Some st else do {
     qn \<leftarrow> sprintf_chk (e_slack e) 20 (fmt_qn e);
     cfgst \<leftarrow> cstr (cfg_ST (hj_cfg st));
     stt \<leftarrow> sprintf_chk (e_slack e) 6 cfgst;
     cn \<leftarrow> sprintf_chk (e_slack e) 8 (dec (cmd_code CMD_REQUES_RESULT));
     cp \<leftarrow> sprintf_chk (e_slack e) 40 (lit ''QN='' @ qn @ lit '';ExeRtn='' @ dec (exe_code rtn));
     f \<leftarrow> Hjt212Encode None (Some (stt @ [0])) (Some (cn @ [0]))
        (Some (cfg_PW (hj_cfg st))) (Some (cfg_MN (hj_cfg st))) (Some (lit ''0'' @ [0]))
        (Some (cp @ [0])) 256;
     Some (send f st) })"

text \<open>\<open>char sCp[60]\<close> and \<open>char systime[20]\<close>.\<close>

definition hjt212_report_system_time :: "env \<Rightarrow> hjt_link \<Rightarrow> hjt_link option" where
  "hjt212_report_system_time e st = (if \<not> e_alloc e then Some st else do {
     qn \<leftarrow> sprintf_chk (e_slack e) 20 (fmt_qn e);
     cfgst \<leftarrow> cstr (cfg_ST (hj_cfg st));
     stt \<leftarrow> sprintf_chk (e_slack e) 6 cfgst;
     cn \<leftarrow> sprintf_chk (e_slack e) 8 (dec (cmd_code CMD_REQUEST_UPLOAD_TIME));
     scp \<leftarrow> sprintf_chk (e_slack e) 60 (lit ''QN='' @ qn @ lit '';'');
     systime \<leftarrow> sprintf_chk (e_slack e) 20 (lit ''SystemTime='' @ fmt_time e);
     cp \<leftarrow> sprintf_chk (e_slack e) 60 (scp @ systime);
     f \<leftarrow> Hjt212Encode None (Some (stt @ [0])) (Some (cn @ [0]))
        (Some (cfg_PW (hj_cfg st))) (Some (cfg_MN (hj_cfg st))) None (Some (cp @ [0])) 1024;
     Some (send f st) })"

section \<open>The command parser\<close>

text \<open>
  \<open>p = strstr (pBuf, key); if (p) ret = sscanf (p + strlen (key), "%n[^;]", arr);\<close> on the C
  string \<open>s\<close> of the buffer.
\<close>

definition scan_field :: "byte list \<Rightarrow> string \<Rightarrow> nat \<Rightarrow> byte list \<Rightarrow> byte list option" where
  "scan_field s key n arr = (case strstr s (lit key) of
      None \<Rightarrow> Some arr
    | Some p \<Rightarrow> (case scanset n (ch CHR '';'') (drop (length key) p) of
         None \<Rightarrow> Some arr
       | Some t \<Rightarrow> put_str arr t))"

text \<open>
  The parameters: a block of \<open>strlen (p)\<close> bytes unless \<open>strlen (p) - 13\<close>, an unsigned value,
  is zero. The result is the pointer.
\<close>

definition scan_cp :: "env \<Rightarrow> byte list \<Rightarrow> byte list option option" where
  "scan_cp e s = (case strstr s (lit ''CP=&&'') of
      None \<Rightarrow> Some None
    | Some p \<Rightarrow>
        if 0 < (word_of_nat (length p) - 13 :: u32) then
          (if \<not> e_alloc e then
             (case scanset 1024 (ch CHR ''&'') (drop 5 p) of None \<Rightarrow> Some None | Some t \<Rightarrow> None)
           else (case scanset 1024 (ch CHR ''&'') (drop 5 p) of
               None \<Rightarrow> Some (Some (replicate (length p) 0))
             | Some t \<Rightarrow> map_option Some (put_str (replicate (length p) 0) t)))
        else Some None)"

definition parse_data :: "env \<Rightarrow> byte list \<Rightarrow> HJT212_Data option" where
  "parse_data e s = do {
     let x = HJT212_Data_zero;
     qn \<leftarrow> scan_field s ''QN='' 20 (d_QN x);
     cn \<leftarrow> scan_field s ''CN='' 7 (d_CN x);
     st \<leftarrow> scan_field s ''ST='' 5 (d_ST x);
     pw \<leftarrow> scan_field s ''PW='' 10 (d_PW x);
     mn \<leftarrow> scan_field s ''MN='' 14 (d_MN x);
     fl \<leftarrow> scan_field s ''Flag='' 3 (d_Flag x);
     cp \<leftarrow> scan_cp e s;
     Some (x\<lparr>d_QN := qn, d_CN := cn, d_ST := st, d_PW := pw, d_MN := mn, d_Flag := fl, d_cp := cp\<rparr>) }"

text \<open>
  The \<open>switch\<close> on the command: every case but the request for the time only logs. The order
  of the three replies is that of the code.
\<close>

definition handle_cmd :: "env \<Rightarrow> u16 \<Rightarrow> hjt_link \<Rightarrow> hjt_link option" where
  "handle_cmd e ulCmd st =
     (if unat ulCmd = cmd_code CMD_REQUEST_UPLOAD_TIME then do {
        st \<leftarrow> hjt212_req_respons e RE_RETURN_SUCCESS st;
        st \<leftarrow> hjt212_report_system_time e st;
        hjt212_req_result e EXE_RETURN_SUCCESS st }
      else Some st)"

text \<open>\<open>rt_mq_send\<close> on a queue created for three messages: a full queue refuses.\<close>

definition rt_mq_send :: "HJT212_Data \<Rightarrow> hjt_link \<Rightarrow> hjt_link" where
  "rt_mq_send x st = (if length (hj_mq st) < 3 then st\<lparr>hj_mq := hj_mq st @ [x]\<rparr> else st)"

definition heap_of :: "HJT212_Data \<Rightarrow> nat" where
  "heap_of x = (case d_cp x of None \<Rightarrow> 0 | Some _ \<Rightarrow> 1)"

definition HJT212_ParsePack :: "env \<Rightarrow> HJT212_Package \<Rightarrow> hjt_link \<Rightarrow> hjt_link option" where
  "HJT212_ParsePack e pPack st = do {
     s \<leftarrow> cstr (pData pPack);
     x \<leftarrow> parse_data e s;
     let st = st\<lparr>hj_heap := hj_heap st + heap_of x\<rparr>;
     if \<not> strncmp_eq 7 (cfg_PW (hj_cfg st)) (d_PW x)
     then hjt212_req_respons e RE_RETURN_PASSWD_ERR st
     else do {
       cn \<leftarrow> cstr (d_CN x);
       st \<leftarrow> handle_cmd e (word_of_int (atoi cn)) st;
       let st = st\<lparr>hj_heap := hj_heap st - heap_of x\<rparr>;
       Some (rt_mq_send (x\<lparr>d_cp := None\<rparr>) st) } }"

section \<open>The receive state machine\<close>

text \<open>
  The length field: four characters minus \<open>'0'\<close> with their weights, computed in \<open>int\<close> and
  stored as \<open>rt_uint32_t\<close>.
\<close>

definition frame_len :: "byte list \<Rightarrow> u32" where
  "frame_len l = word_of_int ((int (unat (l ! 0)) - 48) * 1000 + (int (unat (l ! 1)) - 48) * 100
     + (int (unat (l ! 2)) - 48) * 10 + (int (unat (l ! 3)) - 48))"

text \<open>
  The check text: \<open>Hex2Str\<close> writes three bytes, so the second call stores its terminator
  one byte past \<open>usCheck[4]\<close>.
\<close>

definition check_text :: "env \<Rightarrow> u16 \<Rightarrow> byte list option" where
  "check_text e c = sprintf_chk (e_slack e) 4 (crc_text c)"

definition take_package :: "byte list \<Rightarrow> nat \<Rightarrow> HJT212_Package" where
  "take_package buf nPos = \<lparr>usPre = slice buf 0 2, btLen = slice buf 2 4, pData = drop 6 buf,
     btCheck = slice buf (nPos - 6) 4, usEom = slice buf (nPos - 2) 2\<rparr>"

definition finish_frame :: "env \<Rightarrow> hjt_link \<Rightarrow> hjt_link option" where
  "finish_frame e st = do {
     let xPack = take_package (hj_buf st) (hj_pos st);
     let ulLen = frame_len (btLen xPack);
     xCheck \<leftarrow> hjt212_GetCrc16 (drop 6 (hj_buf st)) ulLen;
     usCheck \<leftarrow> check_text e xCheck;
     st \<leftarrow> (if ulLen + 12 = word_of_nat (hj_pos st) \<and> strncmp_eq 4 (btCheck xPack) usCheck
           then HJT212_ParsePack e xPack st else Some st);
     Some (st\<lparr>hj_rcv := HJT212_R_S_HEAD, hj_pos := 0\<rparr>) }"

definition put_byte :: "env \<Rightarrow> hjt_link \<Rightarrow> byte \<Rightarrow> hjt_link option" where
  "put_byte e st b =
     (if \<not> hj_pos st < length (hj_buf st) then None else
      let buf = (hj_buf st)[hj_pos st := b];
          nPos = hj_pos st + 1;
          nPos = (if HJT212_BUF_SIZE \<le> nPos then 0 else nPos);
          st = st\<lparr>hj_buf := buf, hj_pos := nPos\<rparr>
      in (case hj_rcv st of
            HJT212_R_S_HEAD \<Rightarrow>
              if nPos = 2 then
                (if le16 (buf ! 0) (buf ! 1) = HJT212_PRE
                 then Some (st\<lparr>hj_rcv := HJT212_R_S_EOM\<rparr>)
                 else Some (st\<lparr>hj_pos := 1\<rparr>))
              else Some st
          | HJT212_R_S_EOM \<Rightarrow>
              if 4 \<le> nPos \<and> le16 (buf ! (nPos - 2)) (buf ! (nPos - 1)) = HJT212_EOM \<and> 18 \<le> nPos
              then finish_frame e st
              else Some st))"

fun HJT212_PutBytes :: "env \<Rightarrow> byte list \<Rightarrow> hjt_link \<Rightarrow> hjt_link option" where
  "HJT212_PutBytes e [] st = Some st"
| "HJT212_PutBytes e (b # bs) st = do { st \<leftarrow> put_byte e st b; HJT212_PutBytes e bs st }"

section \<open>Lemmas: the encoder\<close>

lemma EOM_iff: "(le16 a b = HJT212_EOM) = (a = 0x0d \<and> b = 0x0a)"
proof -
  have "HJT212_EOM = le16 0x0d 0x0a" by (simp add: HJT212_EOM_def le16_def)
  then show ?thesis using le16_eq_iff by metis
qed

lemma PRE_iff: "(le16 a b = HJT212_PRE) = (a = 0x23 \<and> b = 0x23)"
proof -
  have "HJT212_PRE = le16 0x23 0x23" by (simp add: HJT212_PRE_def le16_def)
  then show ?thesis using le16_eq_iff by metis
qed

lemma length_len_digits [simp]: "length (len_digits n) = 4"
  by (simp add: len_digits_def)

lemma length_Hex2Str [simp]: "length (Hex2Str h) = 2"
  by (simp add: Hex2Str_def)

lemma length_crc_text [simp]: "length (crc_text c) = 4"
  by (simp add: crc_text_def)

lemma length_hjt_frame [simp]: "length (hjt_frame d) = length d + 12"
  by (simp add: hjt_frame_def)

lemma nibble_cases:
  fixes x :: byte
  assumes "x < 16"
  shows "x \<in> {0,1,2,3,4,5,6,7,8,9,10,11,12,13,14,15}"
proof -
  from assms have "unat x < 16" by (simp add: word_less_nat_alt)
  then have "unat x \<in> {0,1,2,3,4,5,6,7,8,9,10,11,12,13,14,15}"
    by (simp only: insert_iff empty_iff) presburger
  moreover obtain k where "unat x = k" "x = word_of_nat k" using that [of "unat x"] by simp
  ultimately show ?thesis by auto
qed

text \<open>The digits of the check are upper-case hexadecimal, so none of them is special.\<close>

lemma hexdig_upper_range:
  assumes "x < 16"
  shows "0x30 \<le> to_upper (hexdig x) \<and> to_upper (hexdig x) \<le> 0x46 \<and> to_upper (hexdig x) \<noteq> 0x3b"
  using nibble_cases [OF assms] by (auto simp: to_upper_def hexdig_def)

lemma nibble_lt: "drop_bit 4 (h :: byte) < 16" "h AND 0x0F < 16"
proof -
  have "unat (drop_bit 4 h) < 16"
  proof -
    have "unat (drop_bit 4 h) = unat h div 16"
      unfolding unat_drop_bit_eq by (simp add: drop_bit_eq_div)
    moreover have "unat h < 2 ^ LENGTH(8)" by (rule unsigned_less)
    ultimately show ?thesis by (simp add: less_mult_imp_div_less)
  qed
  then show "drop_bit 4 h < 16" by (simp add: word_less_nat_alt)
  have "h AND 0x0F = take_bit 4 h" by (simp add: take_bit_eq_mask mask_numeral)
  then have "unat (h AND 0x0F) = take_bit 4 (unat h)" by (simp add: unsigned_take_bit_eq)
  then have "unat (h AND 0x0F) < 16" by (simp add: take_bit_eq_mod)
  then show "h AND 0x0F < 16" by (simp add: word_less_nat_alt)
qed

lemma Hex2Str_range: "b \<in> set (Hex2Str h) \<Longrightarrow> 0x30 \<le> b \<and> b \<le> 0x46 \<and> b \<noteq> 0x3b"
  using hexdig_upper_range [OF nibble_lt(1)] hexdig_upper_range [OF nibble_lt(2)]
  by (auto simp: Hex2Str_def)

lemma crc_text_range: "b \<in> set (crc_text c) \<Longrightarrow> 0x30 \<le> b \<and> b \<le> 0x46 \<and> b \<noteq> 0x3b"
  by (auto simp: crc_text_def dest: Hex2Str_range)

lemma len_digits_range: "b \<in> set (len_digits n) \<Longrightarrow> 0x30 \<le> b \<and> b \<le> 0x39"
  using digit_range [of "n div 1000 mod 10"] digit_range [of "n div 100 mod 10"]
    digit_range [of "n div 10 mod 10"] digit_range [of "n mod 10"]
  by (auto simp: len_digits_def)

lemma unat_digit: "d < 10 \<Longrightarrow> unat (0x30 + word_of_nat d :: byte) = 48 + d"
proof -
  assume "d < 10"
  then have "d \<in> {0,1,2,3,4,5,6,7,8,9}" by auto
  then show ?thesis by auto
qed

lemma frame_len_4: "frame_len [a, b, c, d] = word_of_int ((int (unat a) - 48) * 1000
    + (int (unat b) - 48) * 100 + (int (unat c) - 48) * 10 + (int (unat d) - 48))"
  by (simp add: frame_len_def)

lemma frame_len_digits:
  assumes "n < 10000"
  shows "frame_len (len_digits n) = word_of_nat n"
proof -
  let ?a = "n div 1000 mod 10" and ?b = "n div 100 mod 10" and ?c = "n div 10 mod 10" and ?d = "n mod 10"
  have q: "n div 100 = n div 10 div 10" "n div 1000 = n div 100 div 10"
    by (simp_all add: div_mult2_eq [symmetric])
  have "n div 1000 < 10" using assms by (simp add: less_mult_imp_div_less)
  then have "?a = n div 1000" by simp
  then have n: "n = ?a * 1000 + ?b * 100 + ?c * 10 + ?d"
    using div_mult_mod_eq [of n 10] div_mult_mod_eq [of "n div 10" 10] div_mult_mod_eq [of "n div 100" 10]
    unfolding q(1)[symmetric] q(2)[symmetric] by linarith
  have u: "unat (0x30 + word_of_nat ?a :: byte) = 48 + ?a" "unat (0x30 + word_of_nat ?b :: byte) = 48 + ?b"
    "unat (0x30 + word_of_nat ?c :: byte) = 48 + ?c" "unat (0x30 + word_of_nat ?d :: byte) = 48 + ?d"
    by (rule unat_digit, simp)+
  have "frame_len (len_digits n)
      = word_of_int (int ?a * 1000 + int ?b * 100 + int ?c * 10 + int ?d)"
    unfolding len_digits_def frame_len_4 u by simp
  also have "int ?a * 1000 + int ?b * 100 + int ?c * 10 + int ?d = int n"
  proof -
    have "int n = int (?a * 1000 + ?b * 100 + ?c * 10 + ?d)" by (rule arg_cong [OF n])
    then show ?thesis by (simp only: of_nat_add of_nat_mult of_nat_numeral)
  qed
  finally show ?thesis by simp
qed

section \<open>Lemmas: receiving a stream\<close>

lemma PutBytes_append:
  "HJT212_PutBytes e (xs @ ys) st = HJT212_PutBytes e xs st \<bind> HJT212_PutBytes e ys"
  by (induction xs arbitrary: st) (auto split: Option.bind_splits)

lemma PutBytes_three:
  "HJT212_PutBytes e a st = Some s1 \<Longrightarrow> HJT212_PutBytes e b s1 = Some s2 \<Longrightarrow>
   HJT212_PutBytes e (a @ b @ [x]) st = put_byte e s2 x"
  by (cases "put_byte e s2 x") (simp_all add: PutBytes_append)

text \<open>No end marker inside a run of bytes.\<close>

fun no_eom :: "byte list \<Rightarrow> bool" where
  "no_eom (x # y # xs) = (\<not> (x = 0x0d \<and> y = 0x0a) \<and> no_eom (y # xs))"
| "no_eom _ = True"

lemma no_eom_append1: "no_eom (xs @ [b]) \<Longrightarrow> no_eom xs"
  by (induction xs rule: no_eom.induct) auto

lemma no_eom_no_lf: "0x0a \<notin> set xs \<Longrightarrow> no_eom xs"
  by (induction xs rule: no_eom.induct) auto

lemma no_eom_Cons: "no_eom xs \<Longrightarrow> x \<noteq> 0x0d \<Longrightarrow> no_eom (x # xs)"
  by (cases xs) auto

lemma no_eom_append: "no_eom xs \<Longrightarrow> no_eom ys \<Longrightarrow> (ys \<noteq> [] \<Longrightarrow> hd ys \<noteq> 0x0a) \<Longrightarrow> no_eom (xs @ ys)"
proof (induction xs)
  case (Cons x xs)
  show ?case
  proof (cases xs)
    case Nil
    with Cons.prems show ?thesis by (cases ys) auto
  next
    case (Cons y zs)
    with Cons.prems Cons.IH show ?thesis by simp
  qed
qed simp

lemma list_update_append_hd: "n = length P \<Longrightarrow> (P @ r # R)[n := b] = P @ b # R"
  by simp

text \<open>Bytes of a frame body are stored one after the other until its end marker.\<close>

lemma feed_body:
  assumes "length (hj_buf st) = HJT212_BUF_SIZE" "hj_rcv st = HJT212_R_S_EOM"
    and "hj_buf st = (P @ [p]) @ R" "hj_pos st = Suc (length P)"
    and "Suc (length P) + length xs < HJT212_BUF_SIZE" "no_eom (p # xs)"
  shows "HJT212_PutBytes e xs st =
    Some (st\<lparr>hj_buf := P @ p # xs @ drop (length xs) R, hj_pos := Suc (length P) + length xs\<rparr>)"
  using assms
proof (induction xs arbitrary: st P p R)
  case Nil
  then show ?case by simp
next
  case (Cons x xs)
  from Cons.prems(1,3,5) have "length R = HJT212_BUF_SIZE - Suc (length P)" "R \<noteq> []"
    by (auto simp: HJT212_BUF_SIZE_def)
  then obtain r R' where R: "R = r # R'" by (cases R) auto
  define st' where "st' = st\<lparr>hj_buf := (P @ [p]) @ x # R', hj_pos := Suc (Suc (length P))\<rparr>"
  have upd: "((P @ [p]) @ r # R')[Suc (length P) := x] = (P @ [p]) @ x # R'"
    by (rule list_update_append_hd) simp
  have nth: "((P @ [p]) @ x # R') ! length P = p" "((P @ [p]) @ x # R') ! Suc (length P) = x"
    by (simp_all add: nth_append)
  have "put_byte e st x = Some st'"
    using Cons.prems(2,3,4,5,6) upd nth
    by (auto simp: put_byte_def Let_def R EOM_iff st'_def)
  moreover have "HJT212_PutBytes e xs st' =
      Some (st'\<lparr>hj_buf := (P @ [p]) @ x # xs @ drop (length xs) R', hj_pos := Suc (length (P @ [p])) + length xs\<rparr>)"
  proof (rule Cons.IH)
    show "length (hj_buf st') = HJT212_BUF_SIZE" using Cons.prems(1,3) by (simp add: st'_def R)
    show "hj_rcv st' = HJT212_R_S_EOM" using Cons.prems(2) by (simp add: st'_def)
    show "hj_buf st' = ((P @ [p]) @ [x]) @ R'" by (simp add: st'_def)
    show "hj_pos st' = Suc (length (P @ [p]))" by (simp add: st'_def)
    show "Suc (length (P @ [p])) + length xs < HJT212_BUF_SIZE" using Cons.prems(5) by simp
    show "no_eom (x # xs)" using Cons.prems(6) by simp
  qed
  ultimately show ?case by (simp add: st'_def R)
qed

lemma feed_last:
  assumes "hj_rcv st = HJT212_R_S_EOM" "hj_buf st = (P @ [0x0d]) @ r # R" "hj_pos st = Suc (length P)"
    and "length (hj_buf st) = HJT212_BUF_SIZE" "16 \<le> length P" "length P + 2 < HJT212_BUF_SIZE"
  shows "put_byte e st 0x0a = finish_frame e (st\<lparr>hj_buf := P @ 0x0d # 0x0a # R, hj_pos := length P + 2\<rparr>)"
proof -
  have upd: "((P @ [0x0d]) @ r # R)[Suc (length P) := 0x0a] = P @ 0x0d # 0x0a # R"
    using list_update_append_hd [of "Suc (length P)" "P @ [0x0d]" r R "0x0a"] by simp
  have nth: "(P @ 0x0d # 0x0a # R) ! length P = 0x0d" "(P @ 0x0d # 0x0a # R) ! Suc (length P) = 0x0a"
    by (simp_all add: nth_append)
  from assms upd nth show ?thesis by (auto simp: put_byte_def Let_def EOM_iff)
qed

text \<open>The two bytes that open a frame.\<close>

lemma feed_head:
  assumes "length (hj_buf st) = HJT212_BUF_SIZE" "hj_rcv st = HJT212_R_S_HEAD" "hj_pos st = 0"
  shows "HJT212_PutBytes e [0x23, 0x23] st =
    Some (st\<lparr>hj_buf := 0x23 # 0x23 # drop 2 (hj_buf st), hj_pos := 2, hj_rcv := HJT212_R_S_EOM\<rparr>)"
proof -
  obtain a b R where R: "hj_buf st = a # b # R"
    using assms(1) by (cases "hj_buf st"; cases "tl (hj_buf st)") (auto simp: HJT212_BUF_SIZE_def)
  then show ?thesis
    using assms by (simp add: put_byte_def Let_def PRE_iff HJT212_BUF_SIZE_def numeral_2_eq_2)
qed

lemma nat_sint_small: "n < 2 ^ 31 \<Longrightarrow> nat (sint (word_of_nat n :: u32)) = n"
  by (simp add: sint_uint unsigned_of_nat take_bit_nat_eq_self signed_take_bit_int_eq_self)

lemma slice_append: "i = length xs \<Longrightarrow> n = length ys \<Longrightarrow> slice (xs @ ys @ zs) i n = ys"
  by (simp add: slice_def)

text \<open>
  A frame with an arbitrary length field \<open>l\<close> and check \<open>c\<close>, and the link when its last byte has
  come in.
\<close>

definition raw_frame :: "byte list \<Rightarrow> byte list \<Rightarrow> byte list \<Rightarrow> byte list" where
  "raw_frame l d c = lit ''##'' @ l @ d @ c @ [0x0d, 0x0a]"

definition rx_link :: "byte list \<Rightarrow> byte list \<Rightarrow> byte list \<Rightarrow> hjt_link \<Rightarrow> hjt_link" where
  "rx_link l d c st = st\<lparr>hj_buf := raw_frame l d c @ drop (length d + 12) (hj_buf st),
     hj_pos := length d + 12, hj_rcv := HJT212_R_S_EOM\<rparr>"

definition rx_tail :: "byte list \<Rightarrow> byte list \<Rightarrow> hjt_link \<Rightarrow> byte list" where
  "rx_tail d c st = c @ [0x0d, 0x0a] @ drop (length d + 12) (hj_buf st)"

definition rx_package :: "byte list \<Rightarrow> byte list \<Rightarrow> byte list \<Rightarrow> hjt_link \<Rightarrow> HJT212_Package" where
  "rx_package l d c st = \<lparr>usPre = lit ''##'', btLen = l, pData = d @ rx_tail d c st,
     btCheck = c, usEom = [0x0d, 0x0a]\<rparr>"

lemma hjt_frame_raw: "hjt_frame d = raw_frame (len_digits (length d)) d (crc_text (hjt212_crc d))"
  by (simp add: hjt_frame_def raw_frame_def)

lemma take_package_rx:
  assumes "length l = 4" "length c = 4"
  shows "take_package (hj_buf (rx_link l d c st)) (length d + 12) = rx_package l d c st"
proof -
  let ?r = "drop (length d + 12) (hj_buf st)"
  have b: "hj_buf (rx_link l d c st) = lit ''##'' @ l @ d @ c @ [0x0d, 0x0a] @ ?r"
    by (simp add: rx_link_def raw_frame_def)
  have "slice (hj_buf (rx_link l d c st)) 2 4 = l"
    unfolding b by (rule slice_append) (simp_all add: assms)
  moreover have "slice (hj_buf (rx_link l d c st)) (length d + 12 - 6) 4 = c"
  proof -
    have "hj_buf (rx_link l d c st) = (lit ''##'' @ l @ d) @ c @ [0x0d, 0x0a] @ ?r" unfolding b by simp
    then show ?thesis by (simp only:) (rule slice_append, simp_all add: assms)
  qed
  moreover have "slice (hj_buf (rx_link l d c st)) (length d + 12 - 2) 2 = [0x0d, 0x0a]"
  proof -
    have "hj_buf (rx_link l d c st) = (lit ''##'' @ l @ d @ c) @ [0x0d, 0x0a] @ ?r" unfolding b by simp
    then show ?thesis by (simp only:) (rule slice_append, simp_all add: assms)
  qed
  moreover have "slice (hj_buf (rx_link l d c st)) 0 2 = lit ''##''"
    using slice_append [of 0 "[]" 2 "lit ''##''"] unfolding b by simp
  moreover have "drop 6 (hj_buf (rx_link l d c st)) = d @ c @ [0x0d, 0x0a] @ ?r"
    unfolding b by (simp add: assms)
  ultimately show ?thesis by (simp add: take_package_def rx_package_def rx_tail_def)
qed

lemma finish_frame_raw:
  assumes "length l = 4" "length c = 4"
  shows "finish_frame e (rx_link l d c st) =
    hjt212_GetCrc16 (d @ rx_tail d c st) (frame_len l) \<bind> (\<lambda>xCheck.
    check_text e xCheck \<bind> (\<lambda>usCheck.
    (if frame_len l = word_of_nat (length d) \<and> strncmp_eq 4 c usCheck
     then HJT212_ParsePack e (rx_package l d c st) (rx_link l d c st)
     else Some (rx_link l d c st)) \<bind> (\<lambda>st'. Some (st'\<lparr>hj_rcv := HJT212_R_S_HEAD, hj_pos := 0\<rparr>))))"
proof -
  have pos: "hj_pos (rx_link l d c st) = length d + 12" by (simp add: rx_link_def)
  have dat: "drop 6 (hj_buf (rx_link l d c st)) = d @ rx_tail d c st"
    by (simp add: rx_link_def raw_frame_def rx_tail_def assms)
  have len: "btLen (rx_package l d c st) = l" "btCheck (rx_package l d c st) = c"
    by (simp_all add: rx_package_def)
  have eq: "(w + 12 = word_of_nat (length d + 12)) = (w = word_of_nat (length d))" for w :: u32
    by simp
  show ?thesis
    unfolding finish_frame_def pos take_package_rx [OF assms] Let_def dat len eq ..
qed

text \<open>With a truthful length field, the check alone decides.\<close>

lemma finish_frame_rx:
  assumes "length c = 4" "length d < 10000" "1 \<le> e_slack e"
  shows "finish_frame e (rx_link (len_digits (length d)) d c st) =
    (if strncmp_eq 4 c (crc_text (hjt212_crc d))
     then HJT212_ParsePack e (rx_package (len_digits (length d)) d c st) (rx_link (len_digits (length d)) d c st)
     else Some (rx_link (len_digits (length d)) d c st)) \<bind>
       (\<lambda>st'. Some (st'\<lparr>hj_rcv := HJT212_R_S_HEAD, hj_pos := 0\<rparr>))"
  using assms by (subst finish_frame_raw)
    (simp_all add: frame_len_digits hjt212_GetCrc16_def nat_sint_small check_text_def sprintf_chk_def)

lemma no_eom_body:
  assumes "no_eom d" "hd d \<noteq> 0x0a" "0x0a \<notin> set l" "0x0a \<notin> set c" "length c = 4"
  shows "no_eom (0x23 # l @ d @ c @ [0x0d])"
proof -
  have "no_eom (c @ [0x0d])" using assms(4) by (intro no_eom_no_lf) auto
  moreover have "hd (c @ [0x0d]) \<noteq> 0x0a" using assms(4,5) by (cases c) auto
  ultimately have "no_eom (d @ c @ [0x0d])"
    by (intro no_eom_append [OF assms(1)]) simp_all
  moreover have "hd (d @ c @ [0x0d]) \<noteq> 0x0a"
    using assms(2) \<open>hd (c @ [0x0d]) \<noteq> 0x0a\<close> by (cases d) auto
  ultimately have "no_eom (l @ d @ c @ [0x0d])"
    by (intro no_eom_append [OF no_eom_no_lf [OF assms(3)]]) simp_all
  then show ?thesis by (rule no_eom_Cons) simp
qed

lemma no_lf_len_digits: "0x0a \<notin> set (len_digits n)"
  using len_digits_range [of "0x0a" n] by auto

lemma no_lf_crc_text: "0x0a \<notin> set (crc_text c)"
  using crc_text_range [of "0x0a" c] by auto

lemma no_cr_len_digits: "0x0d \<notin> set (len_digits n)"
  using len_digits_range [of "0x0d" n] by auto

text \<open>One odd byte cannot make an end marker: it would have to be both its bytes.\<close>

lemma no_eom_damaged:
  assumes "0x0a \<notin> set l" "0x0d \<notin> set l" "0x0d \<notin> set (xs @ ys)" "0x0a \<notin> set (xs @ ys)" "0x0a \<notin> set c" "c \<noteq> []"
  shows "no_eom (0x23 # l @ (xs @ b # ys) @ c @ [0x0d])"
proof -
  have r: "no_eom (ys @ c @ [0x0d])" using assms(4,5) by (intro no_eom_no_lf) auto
  have "hd (ys @ c @ [0x0d]) \<noteq> 0x0a" using assms(4,5,6) by (cases ys; cases c) auto
  with r have t: "no_eom (b # ys @ c @ [0x0d])" by (cases "ys @ c @ [0x0d]") auto
  have "no_eom (p @ b # ys @ c @ [0x0d])" if "0x0d \<notin> set p" for p
    using that t by (induction p) (auto intro: no_eom_Cons)
  from this [of "0x23 # l @ xs"] show ?thesis using assms(2,3) by simp
qed

lemma feed_frame_any:
  assumes "length (hj_buf st) = HJT212_BUF_SIZE" "hj_rcv st = HJT212_R_S_HEAD" "hj_pos st = 0"
    and "6 \<le> length d" "length d + 12 < HJT212_BUF_SIZE" "no_eom (0x23 # l @ d @ c @ [0x0d])"
    and "length l = 4" "length c = 4"
  shows "HJT212_PutBytes e (raw_frame l d c) st = finish_frame e (rx_link l d c st)"
proof -
  let ?body = "l @ d @ c @ [0x0d]"
  let ?s1 = "st\<lparr>hj_buf := 0x23 # 0x23 # drop 2 (hj_buf st), hj_pos := 2, hj_rcv := HJT212_R_S_EOM\<rparr>"
  let ?R = "drop (length d + 11) (hj_buf st)"
  let ?s2 = "st\<lparr>hj_buf := 0x23 # 0x23 # ?body @ ?R, hj_pos := length d + 11, hj_rcv := HJT212_R_S_EOM\<rparr>"
  have fr: "raw_frame l d c = [0x23, 0x23] @ ?body @ [0x0a]" by (simp add: raw_frame_def)
  have "HJT212_PutBytes e [0x23, 0x23] st = Some ?s1" by (rule feed_head) (use assms in auto)
  moreover have "HJT212_PutBytes e ?body ?s1 = Some ?s2"
  proof -
    have "HJT212_PutBytes e ?body ?s1 = Some (?s1\<lparr>hj_buf := [0x23] @ 0x23 # ?body @ drop (length ?body) (drop 2 (hj_buf st)),
        hj_pos := Suc (length [0x23 :: byte]) + length ?body\<rparr>)"
      by (rule feed_body) (use assms in \<open>auto simp: HJT212_BUF_SIZE_def\<close>)
    then show ?thesis using assms(7,8) by (simp add: drop_drop add.commute)
  qed
  moreover have "put_byte e ?s2 0x0a = finish_frame e (rx_link l d c st)"
  proof -
    obtain r where r: "?R = r # drop (length d + 12) (hj_buf st)"
    proof -
      have "?R = hj_buf st ! (length d + 11) # drop (Suc (length d + 11)) (hj_buf st)"
        by (rule Cons_nth_drop_Suc [symmetric]) (use assms(1,5) in \<open>simp add: HJT212_BUF_SIZE_def\<close>)
      moreover have "Suc (length d + 11) = length d + 12" by simp
      ultimately show ?thesis using that by metis
    qed
    let ?P = "0x23 # 0x23 # l @ d @ c"
    let ?X = "drop (length d + 12) (hj_buf st)"
    have "put_byte e ?s2 0x0a = finish_frame e (?s2\<lparr>hj_buf := ?P @ 0x0d # 0x0a # ?X, hj_pos := length ?P + 2\<rparr>)"
      by (rule feed_last [of _ _ r]) (use assms(1,4,5,7,8) r in simp_all)
    also have "?s2\<lparr>hj_buf := ?P @ 0x0d # 0x0a # ?X, hj_pos := length ?P + 2\<rparr> = rx_link l d c st"
      using assms(7,8) by (simp add: rx_link_def raw_frame_def)
    finally show ?thesis .
  qed
  ultimately show ?thesis unfolding fr by (simp only: PutBytes_three)
qed

lemma feed_frame:
  assumes "length (hj_buf st) = HJT212_BUF_SIZE" "hj_rcv st = HJT212_R_S_HEAD" "hj_pos st = 0"
    and "6 \<le> length d" "length d + 12 < HJT212_BUF_SIZE" "no_eom d" "hd d \<noteq> 0x0a"
    and "length l = 4" "length c = 4" "0x0a \<notin> set l" "0x0a \<notin> set c"
  shows "HJT212_PutBytes e (raw_frame l d c) st = finish_frame e (rx_link l d c st)"
  using assms no_eom_body [of d l c] by (intro feed_frame_any) simp_all

text \<open>The check text determines the check.\<close>

lemma hexdig_upper_inj:
  assumes "x < 16" "y < 16" "to_upper (hexdig x) = to_upper (hexdig y)"
  shows "x = y"
  using nibble_cases [OF assms(1)] nibble_cases [OF assms(2)] assms(3)
  by (auto simp: to_upper_def hexdig_def)

lemma Hex2Str_inj: "Hex2Str a = Hex2Str b \<Longrightarrow> a = b"
proof -
  assume "Hex2Str a = Hex2Str b"
  then have hi: "drop_bit 4 a = drop_bit 4 b" and lo: "a AND 0x0F = b AND 0x0F"
    by (auto simp: Hex2Str_def intro: hexdig_upper_inj nibble_lt)
  have lo': "take_bit 4 a = take_bit 4 b" using lo by (simp add: take_bit_eq_mask mask_numeral)
  have "a = push_bit 4 (drop_bit 4 a) + take_bit 4 a" for a :: byte
    by (rule bits_ident [symmetric])
  then show "a = b" by (metis hi lo')
qed

lemma crc_text_inj: "crc_text c = crc_text c' \<Longrightarrow> c = c'"
proof -
  assume "crc_text c = crc_text c'"
  then have "Hex2Str (ucast (drop_bit 8 c)) = Hex2Str (ucast (drop_bit 8 c'))"
    "Hex2Str (ucast (c AND 0xff)) = Hex2Str (ucast (c' AND 0xff))"
    by (simp_all add: crc_text_def)
  then have 1: "(ucast (drop_bit 8 c) :: byte) = ucast (drop_bit 8 c')"
    and 2: "(ucast (c AND 0xff) :: byte) = ucast (c' AND 0xff)"
    by (auto dest: Hex2Str_inj)
  have "drop_bit 8 c = drop_bit 8 c'" using 1 by (rule ucast_high_inj)
  moreover have "take_bit 8 c = take_bit 8 c'"
  proof (rule bit_word_eqI)
    fix n assume "n < LENGTH(16)"
    then show "bit (take_bit 8 c) n = bit (take_bit 8 c') n"
      using arg_cong [OF 2, of "\<lambda>w. bit w n"] unfolding and_FF by (auto simp: bit_simps)
  qed
  ultimately show ?thesis by (rule take8_drop8_eqI [rotated])
qed

lemma strncmp_eq_nonzero:
  "length a = n \<Longrightarrow> length b = n \<Longrightarrow> 0 \<notin> set a \<Longrightarrow> strncmp_eq n a b = (a = b)"
  by (induction n a b rule: strncmp_eq.induct) auto

lemma crc_text_check: "strncmp_eq 4 (crc_text c) (crc_text c') = (c = c')"
proof -
  have "0 \<notin> set (crc_text c)" using crc_text_range [of 0 c] by auto
  then show ?thesis by (subst strncmp_eq_nonzero) (auto dest: crc_text_inj)
qed

end
