(* ===== verification/Hjt212_Cmd.thy ===== *)
theory Hjt212_Cmd
  imports Hjt212
begin

text \<open>
  What the HJ/T 212 link does with a whole frame: the exact text of the replies, the
  extraction of the fields from an encoded request, the message that reaches the queue, and
  the link's invariant. The last section holds what the receiver does not survive: a first
  byte that is not \<open>#\<close>, a length field beyond the buffer, a password of seven or more
  characters, a time request, and the fields that an earlier frame left behind.
\<close>

unbundle bit_operations_syntax

section \<open>Well-formed configuration, clock and link\<close>

definition wf_cfg :: "HJT212_Cfg \<Rightarrow> bool" where
  "wf_cfg c = (length (cfg_ST c) = 6 \<and> 0 \<in> set (cfg_ST c) \<and> length (cfg_PW c) = 7 \<and> length (cfg_MN c) = 15)"

definition wf_env :: "env \<Rightarrow> bool" where
  "wf_env e = (tm_year e \<le> 8099 \<and> tm_mon e < 12 \<and> tm_mday e \<le> 31 \<and> tm_hour e < 24
     \<and> tm_min e < 60 \<and> tm_sec e \<le> 60)"

definition mq_ok :: "hjt_link \<Rightarrow> bool" where
  "mq_ok st = (length (hj_mq st) \<le> 3 \<and> list_all (\<lambda>x. eType x = 0 \<and> d_cp x = None) (hj_mq st))"

definition hjt_ok :: "hjt_link \<Rightarrow> bool" where
  "hjt_ok st = (length (hj_buf st) = HJT212_BUF_SIZE \<and> hj_pos st < HJT212_BUF_SIZE
     \<and> (hj_rcv st = HJT212_R_S_HEAD \<longrightarrow> hj_pos st \<le> 1) \<and> wf_cfg (hj_cfg st) \<and> mq_ok st)"

text \<open>The value a configuration array contributes to a frame.\<close>

definition cval :: "nat \<Rightarrow> byte list \<Rightarrow> byte list" where
  "cval n a = takeWhile (\<lambda>c. c \<noteq> 0) (take n a)"

lemma length_cval: "length (cval n a) \<le> n"
proof -
  have "length (cval n a) \<le> length (take n a)" by (simp only: cval_def length_takeWhile_le)
  then show ?thesis by simp
qed

lemma copy_loop_cval: "n \<le> length a \<Longrightarrow> copy_loop n a = Some (cval n a)"
  by (simp add: copy_loop_def cval_def)

lemma copy_loop_term: "0 \<notin> set s \<Longrightarrow> copy_loop n (s @ [0]) = Some (take n s)"
proof -
  assume z: "0 \<notin> set s"
  then have "\<forall>c \<in> set (take n s). c \<noteq> 0" by (auto dest: in_set_takeD)
  then have "takeWhile (\<lambda>c. c \<noteq> 0) (take n s @ take (n - length s) [0]) = take n s"
    by (subst takeWhile_append2) (auto simp: take_Cons split: nat.splits)
  then show ?thesis by (simp add: copy_loop_def)
qed

lemma length_fmt_time [fmt_simps]: "wf_env e \<Longrightarrow> length (fmt_time e) = 14"
  by (simp add: fmt_time_def wf_env_def length_dec_pad)

lemma length_fmt_qn [fmt_simps]: "wf_env e \<Longrightarrow> length (fmt_qn e) = 17"
  by (simp add: fmt_qn_def fmt_simps)

lemma fmt_qn_digits: "b \<in> set (fmt_qn e) \<Longrightarrow> 0x30 \<le> b \<and> b \<le> 0x39"
  by (auto simp: fmt_qn_def fmt_time_def dest: dec_pad_digits)

lemma cval_nonzero: "0 \<notin> set (cval n a)"
  by (auto simp: cval_def dest: set_takeWhileD)

lemma cstr_cval:
  assumes "length a = Suc n" "0 \<in> set a"
  shows "cstr a = Some (cval n a)"
proof -
  have "takeWhile (\<lambda>c. c \<noteq> 0) a = takeWhile (\<lambda>c. c \<noteq> 0) (take n a)"
  proof -
    have a: "a = take n a @ [a ! n]" using assms(1) by (metis lessI take_Suc_conv_app_nth take_all_iff order_refl)
    have z: "0 \<in> set (take n a) \<or> a ! n = 0"
      using assms(2) by (subst (asm) a) auto
    have "takeWhile (\<lambda>c. c \<noteq> 0) (take n a @ [a ! n]) = takeWhile (\<lambda>c. c \<noteq> 0) (take n a)"
    proof (cases "0 \<in> set (take n a)")
      case True
      then show ?thesis by (intro takeWhile_append1) auto
    next
      case False
      then have "\<forall>c \<in> set (take n a). c \<noteq> 0" by auto
      then show ?thesis using z False by (simp add: takeWhile_append2 takeWhile_eq_all_conv [THEN iffD2])
    qed
    with a show ?thesis by simp
  qed
  with assms(2) show ?thesis by (simp add: cstr_def cval_def)
qed

section \<open>The replies\<close>

lemma dec_codes:
  "dec 9011 = lit ''9011''" "dec 9012 = lit ''9012''" "dec 9021 = lit ''9021''" "dec 1011 = lit ''1011''"
  "dec 1 = lit ''1''" "dec 2 = lit ''2''" "dec 3 = lit ''3''" "dec 100 = lit ''100''"
  by (simp_all add: dec_lt10 dec_ge10)

lemma re_text: "length (dec (re_code r)) = 1" "0 \<notin> set (dec (re_code r))"
  by (cases r; simp add: dec_lt10 dec_ge10)+

lemma exe_text: "length (dec (exe_code r)) \<le> 3" "0 \<notin> set (dec (exe_code r))"
  by (cases r; simp add: dec_lt10 dec_ge10)+

definition reply_head :: "HJT212_Cfg \<Rightarrow> string \<Rightarrow> byte list" where
  "reply_head c cn = lit ''ST='' @ cval 5 (cfg_ST c) @ lit '';CN='' @ lit cn @ lit '';PW='' @ cval 6 (cfg_PW c)
     @ lit '';MN='' @ cval 14 (cfg_MN c) @ lit '';''"

lemma enc_reply:
  assumes "wf_cfg c" "length cn = 4" "0 \<notin> set (lit cn)" "0 \<notin> set cp"
  shows "enc_data None (Some (cval 5 (cfg_ST c) @ [0])) (Some (lit cn @ [0])) (Some (cfg_PW c))
      (Some (cfg_MN c)) (Some (lit ''0'' @ [0])) (Some (cp @ [0]))
    = Some (reply_head c cn @ lit ''Flag=0;CP=&&'' @ cp @ lit ''&&'')"
    "enc_data None (Some (cval 5 (cfg_ST c) @ [0])) (Some (lit cn @ [0])) (Some (cfg_PW c))
      (Some (cfg_MN c)) None (Some (cp @ [0]))
    = Some (reply_head c cn @ lit ''CP=&&'' @ cp @ lit ''&&'')"
proof -
  have 1: "copy_loop 5 (cval 5 (cfg_ST c) @ [0]) = Some (cval 5 (cfg_ST c))"
    by (subst copy_loop_term) (simp_all add: cval_nonzero length_cval)
  have 2: "copy_loop 4 (lit cn @ [0]) = Some (lit cn)"
    using copy_loop_term [OF assms(3), of 4] assms(2) by simp
  have 3: "copy_loop 6 (cfg_PW c) = Some (cval 6 (cfg_PW c))" "copy_loop 14 (cfg_MN c) = Some (cval 14 (cfg_MN c))"
    using assms(1) by (simp_all add: copy_loop_cval wf_cfg_def)
  have 4: "cstr (cp @ [0]) = Some cp" using cstr_append0 [OF assms(4), of "[]"] by simp
  show "enc_data None (Some (cval 5 (cfg_ST c) @ [0])) (Some (lit cn @ [0])) (Some (cfg_PW c))
      (Some (cfg_MN c)) (Some (lit ''0'' @ [0])) (Some (cp @ [0]))
    = Some (reply_head c cn @ lit ''Flag=0;CP=&&'' @ cp @ lit ''&&'')"
    using 1 2 3 4 by (simp add: enc_data_def enc_field_def enc_flag_def enc_cp_def reply_head_def)
  show "enc_data None (Some (cval 5 (cfg_ST c) @ [0])) (Some (lit cn @ [0])) (Some (cfg_PW c))
      (Some (cfg_MN c)) None (Some (cp @ [0]))
    = Some (reply_head c cn @ lit ''CP=&&'' @ cp @ lit ''&&'')"
    using 1 2 3 4 by (simp add: enc_data_def enc_field_def enc_flag_def enc_cp_def reply_head_def)
qed

lemma length_reply_head: "length cn = 4 \<Longrightarrow> length (reply_head c cn) \<le> 45"
  using length_cval [of 5 "cfg_ST c"] length_cval [of 6 "cfg_PW c"] length_cval [of 14 "cfg_MN c"]
  by (simp add: reply_head_def)

lemma fmt_qn_nonzero: "0 \<notin> set (fmt_qn e)" "0 \<notin> set (fmt_time e)"
  using fmt_qn_digits [of 0 e] by (auto simp: fmt_qn_def)

lemma respons_text:
  assumes "wf_env e" "wf_cfg (hj_cfg st)" "e_alloc e"
  shows "hjt212_req_respons e rtn st = Some (send (hjt_frame (reply_head (hj_cfg st) ''9011''
    @ lit ''Flag=0;CP=&&QN='' @ fmt_qn e @ lit '';QnRtn='' @ dec (re_code rtn) @ lit ''&&'')) st)"
proof -
  let ?cp = "lit ''QN='' @ fmt_qn e @ lit '';QnRtn='' @ dec (re_code rtn)"
  have st: "cstr (cfg_ST (hj_cfg st)) = Some (cval 5 (cfg_ST (hj_cfg st)))"
    using assms(2) by (intro cstr_cval) (simp_all add: wf_cfg_def)
  have "enc_data None (Some (cval 5 (cfg_ST (hj_cfg st)) @ [0])) (Some (lit ''9011'' @ [0])) (Some (cfg_PW (hj_cfg st)))
      (Some (cfg_MN (hj_cfg st))) (Some (lit ''0'' @ [0])) (Some (?cp @ [0]))
    = Some (reply_head (hj_cfg st) ''9011'' @ lit ''Flag=0;CP=&&'' @ ?cp @ lit ''&&'')"
    by (rule enc_reply) (use assms(2) fmt_qn_nonzero re_text in auto)
  then show ?thesis
    using assms st length_cval [of 5 "cfg_ST (hj_cfg st)"] length_reply_head [of "''9011''" "hj_cfg st"] re_text(1) [of rtn]
    by (simp add: hjt212_req_respons_def sprintf_chk_def fmt_simps Hjt212Encode_def dec_codes)
qed

lemma result_text:
  assumes "wf_env e" "wf_cfg (hj_cfg st)" "e_alloc e"
  shows "hjt212_req_result e rtn st = Some (send (hjt_frame (reply_head (hj_cfg st) ''9012''
    @ lit ''Flag=0;CP=&&QN='' @ fmt_qn e @ lit '';ExeRtn='' @ dec (exe_code rtn) @ lit ''&&'')) st)"
proof -
  let ?cp = "lit ''QN='' @ fmt_qn e @ lit '';ExeRtn='' @ dec (exe_code rtn)"
  have st: "cstr (cfg_ST (hj_cfg st)) = Some (cval 5 (cfg_ST (hj_cfg st)))"
    using assms(2) by (intro cstr_cval) (simp_all add: wf_cfg_def)
  have "enc_data None (Some (cval 5 (cfg_ST (hj_cfg st)) @ [0])) (Some (lit ''9012'' @ [0])) (Some (cfg_PW (hj_cfg st)))
      (Some (cfg_MN (hj_cfg st))) (Some (lit ''0'' @ [0])) (Some (?cp @ [0]))
    = Some (reply_head (hj_cfg st) ''9012'' @ lit ''Flag=0;CP=&&'' @ ?cp @ lit ''&&'')"
    by (rule enc_reply) (use assms(2) fmt_qn_nonzero exe_text in auto)
  then show ?thesis
    using assms st length_cval [of 5 "cfg_ST (hj_cfg st)"] length_reply_head [of "''9012''" "hj_cfg st"] exe_text(1) [of rtn]
    by (simp add: hjt212_req_result_def sprintf_chk_def fmt_simps Hjt212Encode_def dec_codes)
qed

lemma system_time_text:
  assumes "wf_env e" "wf_cfg (hj_cfg st)" "e_alloc e"
  shows "hjt212_report_system_time e st = (if e_slack e < 6 then None else
    Some (send (hjt_frame (reply_head (hj_cfg st) ''1011''
      @ lit ''CP=&&QN='' @ fmt_qn e @ lit '';SystemTime='' @ fmt_time e @ lit ''&&'')) st))"
proof -
  let ?cp = "lit ''QN='' @ fmt_qn e @ lit '';SystemTime='' @ fmt_time e"
  have st: "cstr (cfg_ST (hj_cfg st)) = Some (cval 5 (cfg_ST (hj_cfg st)))"
    using assms(2) by (intro cstr_cval) (simp_all add: wf_cfg_def)
  have "enc_data None (Some (cval 5 (cfg_ST (hj_cfg st)) @ [0])) (Some (lit ''1011'' @ [0])) (Some (cfg_PW (hj_cfg st)))
      (Some (cfg_MN (hj_cfg st))) None (Some (?cp @ [0]))
    = Some (reply_head (hj_cfg st) ''1011'' @ lit ''CP=&&'' @ ?cp @ lit ''&&'')"
    by (rule enc_reply) (use assms(2) fmt_qn_nonzero in auto)
  then show ?thesis
    using assms st length_cval [of 5 "cfg_ST (hj_cfg st)"] length_reply_head [of "''1011''" "hj_cfg st"]
    by (simp add: hjt212_report_system_time_def sprintf_chk_def fmt_simps Hjt212Encode_def dec_codes)
qed

section \<open>The invariant of the link\<close>

lemma rt_mq_send_ok: "mq_ok st \<Longrightarrow> eType x = 0 \<Longrightarrow> d_cp x = None \<Longrightarrow> mq_ok (rt_mq_send x st)"
  by (simp add: mq_ok_def rt_mq_send_def)

text \<open>What the replies leave alone.\<close>

definition same_but_sent :: "hjt_link \<Rightarrow> hjt_link \<Rightarrow> bool" where
  "same_but_sent st st' = (\<exists>fs. st' = st\<lparr>hj_sent := hj_sent st @ fs\<rparr>)"

lemma same_refl: "same_but_sent st st"
  by (auto simp: same_but_sent_def intro: exI [of _ "[]"])

lemma same_send: "same_but_sent st (send f st)"
  by (auto simp: same_but_sent_def send_def)

lemma same_trans: "same_but_sent a b \<Longrightarrow> same_but_sent b c \<Longrightarrow> same_but_sent a c"
  by (auto simp: same_but_sent_def)

lemma respons_same: "hjt212_req_respons e r st = Some st' \<Longrightarrow> same_but_sent st st'"
  by (auto simp: hjt212_req_respons_def same_refl same_send split: if_splits Option.bind_splits)

lemma result_same: "hjt212_req_result e r st = Some st' \<Longrightarrow> same_but_sent st st'"
  by (auto simp: hjt212_req_result_def same_refl same_send split: if_splits Option.bind_splits)

lemma time_same: "hjt212_report_system_time e st = Some st' \<Longrightarrow> same_but_sent st st'"
  by (auto simp: hjt212_report_system_time_def same_refl same_send split: if_splits Option.bind_splits)

lemma handle_same: "handle_cmd e c st = Some st' \<Longrightarrow> same_but_sent st st'"
  by (auto simp: handle_cmd_def same_refl split: if_splits Option.bind_splits
      dest!: respons_same time_same result_same intro: same_trans)

lemma parse_eType: "parse_data e s = Some x \<Longrightarrow> eType x = 0"
  by (auto simp: parse_data_def HJT212_Data_zero_def split: Option.bind_splits)

text \<open>What the parser may change: the queue, the sent frames, the heap.\<close>

lemma ParsePack_frame:
  assumes "HJT212_ParsePack e p st = Some st'"
  shows "hj_buf st' = hj_buf st" "hj_pos st' = hj_pos st" "hj_rcv st' = hj_rcv st"
    "hj_cfg st' = hj_cfg st" "mq_ok st \<Longrightarrow> mq_ok st'"
  using assms
  by (auto simp: HJT212_ParsePack_def Let_def rt_mq_send_def mq_ok_def same_but_sent_def parse_eType
      split: if_splits Option.bind_splits dest!: handle_same respons_same)

lemma finish_frame_ok:
  assumes "finish_frame e st = Some st'" "hjt_ok st"
  shows "hjt_ok st'"
proof -
  from assms(1) obtain st1 where st': "st' = st1\<lparr>hj_rcv := HJT212_R_S_HEAD, hj_pos := 0\<rparr>"
    and "st1 = st \<or> HJT212_ParsePack e (take_package (hj_buf st) (hj_pos st)) st = Some st1"
    by (auto simp: finish_frame_def Let_def split: if_splits Option.bind_splits)
  then have "hj_buf st1 = hj_buf st" "hj_cfg st1 = hj_cfg st" "mq_ok st1"
    using assms(2) by (auto simp: hjt_ok_def dest: ParsePack_frame)
  with assms(2) show ?thesis by (simp add: hjt_ok_def st' mq_ok_def HJT212_BUF_SIZE_def)
qed

lemma put_byte_ok:
  assumes "put_byte e st b = Some st'" "hjt_ok st"
  shows "hjt_ok st'"
proof -
  define pos where "pos = (if HJT212_BUF_SIZE \<le> hj_pos st + 1 then 0 else hj_pos st + 1)"
  define s1 where "s1 = st\<lparr>hj_buf := (hj_buf st)[hj_pos st := b], hj_pos := pos\<rparr>"
  have pos: "pos < HJT212_BUF_SIZE" by (simp add: pos_def HJT212_BUF_SIZE_def)
  have len: "length (hj_buf s1) = HJT212_BUF_SIZE" "wf_cfg (hj_cfg s1)" "mq_ok s1" "hj_rcv s1 = hj_rcv st"
    using assms(2) by (simp_all add: s1_def hjt_ok_def mq_ok_def)
  have le: "hj_rcv st = HJT212_R_S_HEAD \<Longrightarrow> pos \<le> 2"
    using assms(2) by (simp add: hjt_ok_def pos_def)
  have eq: "put_byte e st b = (case hj_rcv s1 of
      HJT212_R_S_HEAD \<Rightarrow> if pos = 2 then
        (if le16 (hj_buf s1 ! 0) (hj_buf s1 ! 1) = HJT212_PRE then Some (s1\<lparr>hj_rcv := HJT212_R_S_EOM\<rparr>)
         else Some (s1\<lparr>hj_pos := 1\<rparr>)) else Some s1
    | HJT212_R_S_EOM \<Rightarrow> if 4 \<le> pos \<and> le16 (hj_buf s1 ! (pos - 2)) (hj_buf s1 ! (pos - 1)) = HJT212_EOM \<and> 18 \<le> pos
        then finish_frame e s1 else Some s1)"
  proof -
    have "hj_pos st < length (hj_buf st)" using assms(2) by (simp add: hjt_ok_def)
    then show ?thesis
      unfolding put_byte_def Let_def pos_def [symmetric] s1_def [symmetric]
      by (cases "hj_rcv st") (simp_all add: s1_def)
  qed
  show ?thesis
  proof (cases "hj_rcv st")
    case HJT212_R_S_HEAD
    then show ?thesis
      using assms(1) len le pos unfolding eq
      by (auto simp: hjt_ok_def mq_ok_def s1_def HJT212_BUF_SIZE_def split: if_splits)
  next
    case HJT212_R_S_EOM
    then have "hjt_ok s1" using len pos by (simp add: hjt_ok_def) (simp add: s1_def)
    then show ?thesis
      using assms(1) len HJT212_R_S_EOM unfolding eq by (auto split: if_splits intro: finish_frame_ok)
  qed
qed

lemma PutBytes_ok: "HJT212_PutBytes e bs st = Some st' \<Longrightarrow> hjt_ok st \<Longrightarrow> hjt_ok st'"
  by (induction bs arbitrary: st) (auto split: Option.bind_splits intro: put_byte_ok)

section \<open>Reading an encoded request\<close>

definition fld :: "string \<Rightarrow> byte list \<Rightarrow> byte list" where
  "fld name v = lit name @ [0x3d] @ v @ [0x3b]"

text \<open>A value that can stand in a field: not empty, without \<open>=\<close>, \<open>;\<close> and terminator.\<close>

definition plain :: "byte list \<Rightarrow> bool" where
  "plain v = (v \<noteq> [] \<and> 0x3d \<notin> set v \<and> 0x3b \<notin> set v \<and> 0 \<notin> set v)"

definition pad :: "nat \<Rightarrow> byte list \<Rightarrow> byte list" where
  "pad n v = v @ replicate (n - length v) 0"

lemma put_str_pad: "length t < n \<Longrightarrow> put_str (replicate n 0) t = Some (pad n t)"
proof -
  assume "length t < n"
  then have "replicate (n - length t) (0 :: byte) = 0 # replicate (n - Suc (length t)) 0"
    by (cases "n - length t") (auto simp: Suc_diff_Suc)
  with \<open>length t < n\<close> show ?thesis by (simp add: put_str_def blit_chk_def blit_def pad_def)
qed

lemma cstr_pad: "length t < n \<Longrightarrow> 0 \<notin> set t \<Longrightarrow> cstr (pad n t) = Some t"
  by (rule put_str_cstr [OF put_str_pad])

lemma strstr_fld_hit: "strstr (fld name v @ y) (lit name @ 0x3d # []) = Some (fld name v @ y)"
proof -
  have "fld name v @ y = (lit name @ 0x3d # []) @ v @ [0x3b] @ y" by (simp add: fld_def)
  then show ?thesis by (simp only: strstr_hit)
qed

lemma strstr_fld_skip:
  assumes "plain v" "0x3d \<notin> set (lit name)" "0x3d \<notin> set (lit k)" "0x3b \<notin> set (lit k)" "k \<noteq> []"
    and "drop (length name - length k) (lit name) \<noteq> lit k"
  shows "strstr (fld name v @ y) (lit k @ 0x3d # q) = strstr y (lit k @ 0x3d # q)"
  unfolding fld_def
proof (rule strstr_skip_field)
  fix p show "lit name \<noteq> p @ lit k"
  proof
    assume a: "lit name = p @ lit k"
    then have "length name = length p + length k" by (metis length_append length_lit)
    with a assms(6) show False by simp
  qed
qed (use assms in \<open>auto simp: plain_def lit_def\<close>)

lemma scan_field_hit:
  assumes "strstr s (lit key) = Some (lit key @ v @ [0x3b] @ y)" "plain v" "length v \<le> n" "length v < m"
  shows "scan_field s key n (replicate m 0) = Some (pad m v)"
proof -
  have "scanset n (ch CHR '';'') (v @ 0x3b # y) = Some v"
    using scanset_hit [of v n "0x3b" y] assms(2,3) by (simp add: plain_def)
  moreover have "put_str (replicate m 0) v = Some (pad m v)" using assms(3,4) by (intro put_str_pad) simp
  ultimately show ?thesis using assms(1) by (simp add: scan_field_def)
qed

text \<open>A request with all its fields, in the order of the encoder.\<close>

record request =
  r_QN :: "byte list"
  r_ST :: "byte list"
  r_CN :: "byte list"
  r_PW :: "byte list"
  r_MN :: "byte list"
  r_Flag :: "byte list"
  r_CP :: "byte list"

definition wf_request :: "request \<Rightarrow> bool" where
  "wf_request r = (plain (r_QN r) \<and> length (r_QN r) \<le> 17 \<and> plain (r_ST r) \<and> length (r_ST r) \<le> 5
     \<and> plain (r_CN r) \<and> length (r_CN r) \<le> 4 \<and> plain (r_PW r) \<and> length (r_PW r) \<le> 6
     \<and> plain (r_MN r) \<and> length (r_MN r) \<le> 14 \<and> plain (r_Flag r) \<and> length (r_Flag r) = 1
     \<and> r_CP r \<noteq> [] \<and> 0x26 \<notin> set (r_CP r) \<and> 0 \<notin> set (r_CP r) \<and> length (r_CP r) \<le> 1024)"

definition request_data :: "request \<Rightarrow> byte list" where
  "request_data r = fld ''QN'' (r_QN r) @ fld ''ST'' (r_ST r) @ fld ''CN'' (r_CN r) @ fld ''PW'' (r_PW r)
     @ fld ''MN'' (r_MN r) @ fld ''Flag'' (r_Flag r) @ lit ''CP=&&'' @ r_CP r @ lit ''&&''"

lemma lits: "lit ''QN='' = lit ''QN'' @ 0x3d # []" "lit ''ST='' = lit ''ST'' @ 0x3d # []"
  "lit ''CN='' = lit ''CN'' @ 0x3d # []" "lit ''PW='' = lit ''PW'' @ 0x3d # []"
  "lit ''MN='' = lit ''MN'' @ 0x3d # []" "lit ''Flag='' = lit ''Flag'' @ 0x3d # []"
  "lit ''CP=&&'' = lit ''CP'' @ 0x3d # lit ''&&''"
  by simp_all

lemma fld_skips:
  assumes "plain v"
  shows "strstr (fld ''QN'' v @ y) (lit ''ST'' @ 0x3d # q) = strstr y (lit ''ST'' @ 0x3d # q)"
    "strstr (fld ''QN'' v @ y) (lit ''CN'' @ 0x3d # q) = strstr y (lit ''CN'' @ 0x3d # q)"
    "strstr (fld ''ST'' v @ y) (lit ''CN'' @ 0x3d # q) = strstr y (lit ''CN'' @ 0x3d # q)"
    "strstr (fld ''QN'' v @ y) (lit ''PW'' @ 0x3d # q) = strstr y (lit ''PW'' @ 0x3d # q)"
    "strstr (fld ''ST'' v @ y) (lit ''PW'' @ 0x3d # q) = strstr y (lit ''PW'' @ 0x3d # q)"
    "strstr (fld ''CN'' v @ y) (lit ''PW'' @ 0x3d # q) = strstr y (lit ''PW'' @ 0x3d # q)"
    "strstr (fld ''QN'' v @ y) (lit ''MN'' @ 0x3d # q) = strstr y (lit ''MN'' @ 0x3d # q)"
    "strstr (fld ''ST'' v @ y) (lit ''MN'' @ 0x3d # q) = strstr y (lit ''MN'' @ 0x3d # q)"
    "strstr (fld ''CN'' v @ y) (lit ''MN'' @ 0x3d # q) = strstr y (lit ''MN'' @ 0x3d # q)"
    "strstr (fld ''PW'' v @ y) (lit ''MN'' @ 0x3d # q) = strstr y (lit ''MN'' @ 0x3d # q)"
    "strstr (fld ''QN'' v @ y) (lit ''Flag'' @ 0x3d # q) = strstr y (lit ''Flag'' @ 0x3d # q)"
    "strstr (fld ''ST'' v @ y) (lit ''Flag'' @ 0x3d # q) = strstr y (lit ''Flag'' @ 0x3d # q)"
    "strstr (fld ''CN'' v @ y) (lit ''Flag'' @ 0x3d # q) = strstr y (lit ''Flag'' @ 0x3d # q)"
    "strstr (fld ''PW'' v @ y) (lit ''Flag'' @ 0x3d # q) = strstr y (lit ''Flag'' @ 0x3d # q)"
    "strstr (fld ''MN'' v @ y) (lit ''Flag'' @ 0x3d # q) = strstr y (lit ''Flag'' @ 0x3d # q)"
    "strstr (fld ''QN'' v @ y) (lit ''CP'' @ 0x3d # q) = strstr y (lit ''CP'' @ 0x3d # q)"
    "strstr (fld ''ST'' v @ y) (lit ''CP'' @ 0x3d # q) = strstr y (lit ''CP'' @ 0x3d # q)"
    "strstr (fld ''CN'' v @ y) (lit ''CP'' @ 0x3d # q) = strstr y (lit ''CP'' @ 0x3d # q)"
    "strstr (fld ''PW'' v @ y) (lit ''CP'' @ 0x3d # q) = strstr y (lit ''CP'' @ 0x3d # q)"
    "strstr (fld ''MN'' v @ y) (lit ''CP'' @ 0x3d # q) = strstr y (lit ''CP'' @ 0x3d # q)"
    "strstr (fld ''Flag'' v @ y) (lit ''CP'' @ 0x3d # q) = strstr y (lit ''CP'' @ 0x3d # q)"
  by (rule strstr_fld_skip; simp add: assms)+

lemma scan_request:
  fixes y :: "byte list"
  assumes "wf_request r"
  defines "s \<equiv> request_data r @ y"
  shows "scan_field s ''QN='' 20 (replicate 21 0) = Some (pad 21 (r_QN r))"
    and "scan_field s ''ST='' 5 (replicate 6 0) = Some (pad 6 (r_ST r))"
    and "scan_field s ''CN='' 7 (replicate 8 0) = Some (pad 8 (r_CN r))"
    and "scan_field s ''PW='' 10 (replicate 7 0) = Some (pad 7 (r_PW r))"
    and "scan_field s ''MN='' 14 (replicate 15 0) = Some (pad 15 (r_MN r))"
    and "scan_field s ''Flag='' 3 (replicate 4 0) = Some (pad 4 (r_Flag r))"
    and "strstr s (lit ''CP=&&'') = Some (lit ''CP=&&'' @ r_CP r @ lit ''&&'' @ y)"
proof -
  have s: "s = fld ''QN'' (r_QN r) @ fld ''ST'' (r_ST r) @ fld ''CN'' (r_CN r) @ fld ''PW'' (r_PW r)
     @ fld ''MN'' (r_MN r) @ fld ''Flag'' (r_Flag r) @ lit ''CP=&&'' @ r_CP r @ lit ''&&'' @ y"
    by (simp add: s_def request_data_def)
  have p: "plain (r_QN r)" "plain (r_ST r)" "plain (r_CN r)" "plain (r_PW r)" "plain (r_MN r)" "plain (r_Flag r)"
    using assms(1) by (simp_all add: wf_request_def)
  have hit: "fld name v @ z = lit name @ 0x3d # v @ [0x3b] @ z" for name v z by (simp add: fld_def)
  have qn: "strstr s (lit ''QN'' @ 0x3d # []) = Some (lit ''QN'' @ 0x3d # r_QN r @ [0x3b] @ fld ''ST'' (r_ST r) @ fld ''CN'' (r_CN r) @ fld ''PW'' (r_PW r)
     @ fld ''MN'' (r_MN r) @ fld ''Flag'' (r_Flag r) @ lit ''CP=&&'' @ r_CP r @ lit ''&&'' @ y)"
    unfolding s strstr_fld_hit by (simp only: hit)
  then show "scan_field s ''QN='' 20 (replicate 21 0) = Some (pad 21 (r_QN r))"
    using assms(1) by (intro scan_field_hit) (auto simp: wf_request_def)
  have st: "strstr s (lit ''ST'' @ 0x3d # []) = Some (lit ''ST'' @ 0x3d # r_ST r @ [0x3b] @ fld ''CN'' (r_CN r) @ fld ''PW'' (r_PW r)
     @ fld ''MN'' (r_MN r) @ fld ''Flag'' (r_Flag r) @ lit ''CP=&&'' @ r_CP r @ lit ''&&'' @ y)"
    unfolding s by (simp only: fld_skips p strstr_fld_hit, simp only: hit)
  then show "scan_field s ''ST='' 5 (replicate 6 0) = Some (pad 6 (r_ST r))"
    using assms(1) by (intro scan_field_hit) (auto simp: wf_request_def)
  have cn: "strstr s (lit ''CN'' @ 0x3d # []) = Some (lit ''CN'' @ 0x3d # r_CN r @ [0x3b] @ fld ''PW'' (r_PW r)
     @ fld ''MN'' (r_MN r) @ fld ''Flag'' (r_Flag r) @ lit ''CP=&&'' @ r_CP r @ lit ''&&'' @ y)"
    unfolding s by (simp only: fld_skips p strstr_fld_hit, simp only: hit)
  then show "scan_field s ''CN='' 7 (replicate 8 0) = Some (pad 8 (r_CN r))"
    using assms(1) by (intro scan_field_hit) (auto simp: wf_request_def)
  have pw: "strstr s (lit ''PW'' @ 0x3d # []) = Some (lit ''PW'' @ 0x3d # r_PW r @ [0x3b]
     @ fld ''MN'' (r_MN r) @ fld ''Flag'' (r_Flag r) @ lit ''CP=&&'' @ r_CP r @ lit ''&&'' @ y)"
    unfolding s by (simp only: fld_skips p strstr_fld_hit, simp only: hit)
  then show "scan_field s ''PW='' 10 (replicate 7 0) = Some (pad 7 (r_PW r))"
    using assms(1) by (intro scan_field_hit) (auto simp: wf_request_def)
  have mn: "strstr s (lit ''MN'' @ 0x3d # []) = Some (lit ''MN'' @ 0x3d # r_MN r @ [0x3b]
     @ fld ''Flag'' (r_Flag r) @ lit ''CP=&&'' @ r_CP r @ lit ''&&'' @ y)"
    unfolding s by (simp only: fld_skips p strstr_fld_hit, simp only: hit)
  then show "scan_field s ''MN='' 14 (replicate 15 0) = Some (pad 15 (r_MN r))"
    using assms(1) by (intro scan_field_hit) (auto simp: wf_request_def)
  have fl: "strstr s (lit ''Flag'' @ 0x3d # []) = Some (lit ''Flag'' @ 0x3d # r_Flag r @ [0x3b]
     @ lit ''CP=&&'' @ r_CP r @ lit ''&&'' @ y)"
    unfolding s by (simp only: fld_skips p strstr_fld_hit, simp only: hit)
  then show "scan_field s ''Flag='' 3 (replicate 4 0) = Some (pad 4 (r_Flag r))"
    using assms(1) by (intro scan_field_hit) (auto simp: wf_request_def)
  have "strstr s (lit ''CP'' @ 0x3d # lit ''&&'') = strstr (lit ''CP=&&'' @ r_CP r @ lit ''&&'' @ y) (lit ''CP'' @ 0x3d # lit ''&&'')"
    unfolding s by (simp only: fld_skips p)
  then show "strstr s (lit ''CP=&&'') = Some (lit ''CP=&&'' @ r_CP r @ lit ''&&'' @ y)"
    using strstr_hit [of "lit ''CP=&&''" "r_CP r @ lit ''&&'' @ y"] by (simp only: lits)
qed

lemma strncmp_pad:
  "length a = n \<Longrightarrow> length t < n \<Longrightarrow> 0 \<notin> set t \<Longrightarrow> strncmp_eq n a (pad n t) = (cstr a = Some t)"
proof (induction n arbitrary: a t)
  case (Suc n)
  then obtain x b where a: "a = x # b" "length b = n" by (cases a) auto
  show ?case
  proof (cases t)
    case Nil
    then show ?thesis using a by (auto simp: pad_def cstr_def)
  next
    case (Cons y u)
    have "strncmp_eq (Suc n) a (pad (Suc n) t) = (x = y \<and> (x = 0 \<or> strncmp_eq n b (pad n u)))"
      using a Cons by (simp add: pad_def)
    also have "strncmp_eq n b (pad n u) = (cstr b = Some u)"
      using Suc.prems Cons a by (intro Suc.IH) auto
    also have "(x = y \<and> (x = 0 \<or> cstr b = Some u)) = (cstr a = Some t)"
      using Suc.prems(3) a Cons by (auto simp: cstr_def)
    finally show ?thesis .
  qed
qed simp

text \<open>The record the parser fills from a request and what follows it in the buffer.\<close>

definition request_msg :: "request \<Rightarrow> HJT212_Data" where
  "request_msg r = HJT212_Data_zero\<lparr>d_QN := pad 21 (r_QN r), d_CN := pad 8 (r_CN r), d_ST := pad 6 (r_ST r),
     d_PW := pad 7 (r_PW r), d_MN := pad 15 (r_MN r), d_Flag := pad 4 (r_Flag r)\<rparr>"

lemma scan_cp_hit:
  assumes "strstr s (lit ''CP=&&'') = Some (lit ''CP=&&'' @ k @ lit ''&&'' @ y)" "e_alloc e"
    and "k \<noteq> []" "0x26 \<notin> set k" "length k \<le> 1024" "6 \<le> length y" "length k + length y < 2 ^ 31"
  shows "\<exists>blk. scan_cp e s = Some (Some blk)"
proof -
  let ?p = "lit ''CP=&&'' @ k @ lit ''&&'' @ y"
  have "scanset 1024 (ch CHR ''&'') (k @ 0x26 # 0x26 # y) = Some k"
    using scanset_hit [of k 1024 "0x26" "0x26 # y"] assms(3,4,5) by simp
  moreover have "put_str (replicate (length ?p) 0) k = Some (pad (length ?p) k)"
    by (rule put_str_pad) simp
  moreover have "(word_of_nat (length ?p) - 13 :: u32) \<noteq> 0"
  proof
    assume z: "(word_of_nat (length ?p) - 13 :: u32) = 0"
    define n where "n = length ?p"
    have "n < 2 ^ 32" "13 < n" using assms(3,6,7) by (simp_all add: n_def) (cases k; simp)
    moreover from z have "unat (word_of_nat n :: u32) = unat (13 :: u32)" unfolding n_def by simp
    ultimately show False by (simp add: unat_of_nat take_bit_nat_eq_self)
  qed
  ultimately show ?thesis using assms(1,2) by (simp add: scan_cp_def word_gt_0)
qed

lemma parse_request:
  assumes "wf_request r" "e_alloc e" "6 \<le> length y" "length y < 2 ^ 30"
  shows "\<exists>blk. parse_data e (request_data r @ y) = Some ((request_msg r)\<lparr>d_cp := Some blk\<rparr>)"
proof -
  obtain blk where "scan_cp e (request_data r @ y) = Some (Some blk)"
    using scan_cp_hit [OF scan_request(7) [OF assms(1)] assms(2), of y] assms
    by (auto simp: wf_request_def)
  then show ?thesis
    using scan_request [OF assms(1), of y]
    by (intro exI [of _ blk]) (simp add: parse_data_def HJT212_Data_zero_def request_msg_def)
qed

lemma request_encoded:
  assumes "wf_request r"
  shows "enc_data (Some (r_QN r @ [0])) (Some (r_ST r @ [0])) (Some (r_CN r @ [0])) (Some (r_PW r @ [0]))
    (Some (r_MN r @ [0])) (Some (r_Flag r @ [0])) (Some (r_CP r @ [0])) = Some (request_data r)"
proof -
  have "enc_field name n (Some (v @ [0])) = Some (fld name v)" if "plain v" "length v \<le> n" for name n v
    using that copy_loop_term [of v n] by (simp add: enc_field_def fld_def plain_def)
  moreover have "enc_flag (Some (r_Flag r @ [0])) = Some (fld ''Flag'' (r_Flag r))"
    using assms by (cases "r_Flag r") (auto simp: wf_request_def enc_flag_def fld_def)
  moreover have "cstr (r_CP r @ [0]) = Some (r_CP r)"
    using assms cstr_append0 [of "r_CP r" "[]"] by (simp add: wf_request_def)
  ultimately show ?thesis
    using assms by (simp add: enc_data_def enc_cp_def wf_request_def request_data_def)
qed

lemma request_data_shape:
  assumes "wf_request r"
  shows "0 \<notin> set (request_data r)" "hd (request_data r) = 0x51" "6 \<le> length (request_data r)"
  using assms by (auto simp: request_data_def wf_request_def plain_def fld_def)

lemma rx_string:
  assumes "0 \<notin> set d" "0 \<notin> set c" "0 \<in> set (drop (length d + 12) (hj_buf st))" "length c = 4"
    and "length (hj_buf st) = HJT212_BUF_SIZE"
  obtains y where "cstr (d @ rx_tail d c st) = Some (d @ y)" "6 \<le> length y" "length y < 2 ^ 30"
proof -
  let ?r = "drop (length d + 12) (hj_buf st)"
  let ?y = "c @ [0x0d, 0x0a] @ takeWhile (\<lambda>b. b \<noteq> 0) ?r"
  have "takeWhile (\<lambda>b. b \<noteq> 0) (d @ c @ [0x0d, 0x0a] @ ?r) = d @ ?y"
    using assms(1,2) by (auto simp: takeWhile_append)
  then have "cstr (d @ rx_tail d c st) = Some (d @ ?y)"
    using assms(3) by (simp add: cstr_def rx_tail_def)
  moreover have "length (takeWhile (\<lambda>b. b \<noteq> 0) ?r) \<le> length ?r" by (rule length_takeWhile_le)
  then have "length ?y < 2 ^ 30" using assms(4,5) by (simp add: HJT212_BUF_SIZE_def)
  ultimately show ?thesis using that [of ?y] assms(4) by simp
qed

section \<open>Where a frame makes the receiver fail\<close>

text \<open>
  With memory available, only the password field can leave its array.
\<close>

lemma scan_field_total:
  assumes "n < m"
  shows "\<exists>a. scan_field s key n (replicate m 0) = Some a"
proof -
  have "put_str (replicate m 0) t = Some (pad m t)" if "scanset n c u = Some t" for c u t
    using scanset_length [OF that] assms by (intro put_str_pad) simp
  then show ?thesis by (auto simp: scan_field_def split: option.splits)
qed

lemma scan_cp_total:
  assumes "e_alloc e"
  shows "\<exists>a. scan_cp e s = Some a"
proof (cases "strstr s (lit ''CP=&&'')")
  case (Some p)
  have l: "5 \<le> length p"
  proof -
    have "take (length (lit ''CP=&&'')) p = lit ''CP=&&''" using strstr_suffix [OF Some] by blast
    then have "length (take (length (lit ''CP=&&'')) p) = length (lit ''CP=&&'')" by (simp only:)
    then show ?thesis by (simp only: length_take length_lit) simp
  qed
  have "length t < length p" if "scanset 1024 (ch CHR ''&'') (drop 5 p) = Some t" for t
  proof -
    have "t = takeWhile (\<lambda>c. c \<noteq> ch CHR ''&'') (take 1024 (drop 5 p))"
      using that by (auto simp: scanset_def split: list.splits)
    then have "length t \<le> length (take 1024 (drop 5 p))" by (simp only: length_takeWhile_le)
    then have "length t \<le> length p - 5" by simp
    with l show ?thesis by linarith
  qed
  then have "put_str (replicate (length p) 0) t = Some (pad (length p) t)"
    if "scanset 1024 (ch CHR ''&'') (drop 5 p) = Some t" for t
    using that by (intro put_str_pad) blast
  with Some assms show ?thesis by (auto simp: scan_cp_def split: option.splits)
qed (simp add: scan_cp_def)

lemma parse_total:
  assumes "e_alloc e" "scan_field s ''PW='' 10 (replicate 7 0) = Some pw"
    "scan_field s ''CN='' 7 (replicate 8 0) = Some cn"
  shows "\<exists>x. parse_data e s = Some x \<and> d_PW x = pw \<and> d_CN x = cn"
proof -
  obtain q where "scan_field s ''QN='' 20 (replicate 21 0) = Some q" using scan_field_total [of 20 21] by auto
  moreover obtain t where "scan_field s ''ST='' 5 (replicate 6 0) = Some t" using scan_field_total [of 5 6] by auto
  moreover obtain m where "scan_field s ''MN='' 14 (replicate 15 0) = Some m" using scan_field_total [of 14 15] by auto
  moreover obtain f where "scan_field s ''Flag='' 3 (replicate 4 0) = Some f" using scan_field_total [of 3 4] by auto
  moreover obtain c where "scan_cp e s = Some c" using scan_cp_total [OF assms(1)] by auto
  ultimately show ?thesis
    using assms(2,3) by (auto simp: parse_data_def HJT212_Data_zero_def)
qed

text \<open>
  A password of seven characters or more (ten are read) for \<open>PW[7]\<close>.
\<close>

definition hjt_long_pw :: "byte list \<Rightarrow> bool" where
  "hjt_long_pw s = (case strstr s (lit ''PW='') of
      None \<Rightarrow> False
    | Some p \<Rightarrow> 7 \<le> length (takeWhile (\<lambda>c. c \<noteq> 0x3b) (take 10 (drop 3 p))))"

text \<open>
  Parameters, for which a block is asked for and written to.
\<close>

definition hjt_has_cp :: "byte list \<Rightarrow> bool" where
  "hjt_has_cp s = (case strstr s (lit ''CP=&&'') of
      None \<Rightarrow> False
    | Some p \<Rightarrow> length p \<noteq> 13 \<and> takeWhile (\<lambda>c. c \<noteq> 0x26) (take 1024 (drop 5 p)) \<noteq> [])"

text \<open>
  A request for the time that carries the right password: its reply writes past \<open>systime[20]\<close>.
\<close>

definition hjt_time_request :: "env \<Rightarrow> HJT212_Cfg \<Rightarrow> byte list \<Rightarrow> bool" where
  "hjt_time_request e c s = (case parse_data e s of
      None \<Rightarrow> False
    | Some x \<Rightarrow> strncmp_eq 7 (cfg_PW c) (d_PW x)
        \<and> (case cstr (d_CN x) of None \<Rightarrow> False | Some cn \<Rightarrow> unat (word_of_int (atoi cn) :: u16) = 1011))"

text \<open>
  What is wrong with the text of a frame: no terminator up to the end of the buffer, a long password,
  parameters when the block for them was refused (the null pointer is written to), a time request
  when \<open>systime\<close> has no six spare bytes behind it.
\<close>

definition hjt_text_fault :: "env \<Rightarrow> HJT212_Cfg \<Rightarrow> byte list \<Rightarrow> bool" where
  "hjt_text_fault e c m = (case cstr m of
      None \<Rightarrow> True
    | Some s \<Rightarrow> hjt_long_pw s \<or> (\<not> e_alloc e \<and> hjt_has_cp s)
        \<or> (e_alloc e \<and> e_slack e < 6 \<and> hjt_time_request e c s))"

text \<open>
  What is wrong with a complete frame of \<open>n\<close> bytes in the buffer: a length field beyond the buffer,
  no spare byte behind \<open>usCheck\<close>, or a frame with the right length and check whose text is wrong.
\<close>

definition hjt_fault :: "env \<Rightarrow> HJT212_Cfg \<Rightarrow> byte list \<Rightarrow> nat \<Rightarrow> bool" where
  "hjt_fault e c buf n = (let l = frame_len (slice buf 2 4); m = drop 6 buf in
     length m < nat (sint l) \<or> e_slack e = 0
     \<or> (l + 12 = word_of_nat n \<and> strncmp_eq 4 (slice buf (n - 6) 4) (crc_text (hjt212_crc (take (nat (sint l)) m)))
        \<and> hjt_text_fault e c m))"

lemma scanset_alt:
  "scanset n c s = (if takeWhile (\<lambda>b. b \<noteq> c) (take n s) = [] then None else Some (takeWhile (\<lambda>b. b \<noteq> c) (take n s)))"
  by (simp add: scanset_def split: list.split)

lemma put_str_fits: "put_str arr t = None \<longleftrightarrow> length arr \<le> length t"
  by (auto simp: put_str_def blit_chk_def)

lemma scan_pw_fault: "scan_field s ''PW='' 10 (replicate 7 0) = None \<longleftrightarrow> hjt_long_pw s"
proof (cases "strstr s (lit ''PW='')")
  case (Some p)
  have "length ''PW='' = 3" "ch CHR '';'' = 0x3b" by simp_all
  then show ?thesis
    using Some put_str_fits [of "replicate 7 0"]
    by (simp only: scan_field_def hjt_long_pw_def scanset_alt option.case) (auto simp del: lit_Cons)
qed (simp add: scan_field_def hjt_long_pw_def)

lemma strstr_length: "strstr s pat = Some p \<Longrightarrow> length p \<le> length s"
  using strstr_suffix by fastforce

lemma scan_cp_fault:
  assumes "length s < 2 ^ 31"
  shows "scan_cp e s = None \<longleftrightarrow> \<not> e_alloc e \<and> hjt_has_cp s"
proof (cases "strstr s (lit ''CP=&&'')")
  case p: (Some p)
  have "length p < 2 ^ 31" using strstr_length [OF p] assms by simp
  then have "unat (word_of_nat (length p) :: u32) = length p" by (simp add: unat_of_nat take_bit_nat_eq_self)
  then have "(word_of_nat (length p) = (13 :: u32)) = (length p = 13)" by (auto simp: word_unat_eq_iff)
  then have w: "(0 < (word_of_nat (length p) - 13 :: u32)) = (length p \<noteq> 13)"
    by (simp add: word_greater_zero_iff)
  show ?thesis
  proof (cases "e_alloc e")
    case True
    then show ?thesis using scan_cp_total [OF True, of s] by auto
  next
    case False
    moreover have "ch CHR ''&'' = 0x26" by simp
    ultimately show ?thesis
      using p by (simp only: scan_cp_def hjt_has_cp_def w scanset_alt option.case) (auto simp del: lit_Cons)
  qed
qed (simp add: scan_cp_def hjt_has_cp_def)

lemma parse_data_fault:
  assumes "length s < 2 ^ 31"
  shows "parse_data e s = None \<longleftrightarrow> hjt_long_pw s \<or> \<not> e_alloc e \<and> hjt_has_cp s"
proof -
  obtain q where 1: "scan_field s ''QN='' 20 (replicate 21 0) = Some q" using scan_field_total [of 20 21] by auto
  obtain c where 2: "scan_field s ''CN='' 7 (replicate 8 0) = Some c" using scan_field_total [of 7 8] by auto
  obtain t where 3: "scan_field s ''ST='' 5 (replicate 6 0) = Some t" using scan_field_total [of 5 6] by auto
  obtain m where 4: "scan_field s ''MN='' 14 (replicate 15 0) = Some m" using scan_field_total [of 14 15] by auto
  obtain f where 5: "scan_field s ''Flag='' 3 (replicate 4 0) = Some f" using scan_field_total [of 3 4] by auto
  have "parse_data e s = None \<longleftrightarrow> scan_field s ''PW='' 10 (replicate 7 0) = None \<or> scan_cp e s = None"
    using 1 2 3 4 5 by (auto simp: parse_data_def HJT212_Data_zero_def bind_eq_None_conv)
  then show ?thesis by (simp only: scan_pw_fault scan_cp_fault [OF assms])
qed

lemma pad_zero: "length t < n \<Longrightarrow> 0 \<in> set (pad n t)"
  by (simp add: pad_def)

lemma parse_data_cn:
  assumes "parse_data e s = Some x"
  shows "\<exists>cn. cstr (d_CN x) = Some cn"
proof -
  have "scan_field s ''CN='' 7 (replicate 8 0) = Some (d_CN x)"
    using assms by (auto simp: parse_data_def HJT212_Data_zero_def split: Option.bind_splits)
  then have "d_CN x = replicate 8 0 \<or> (\<exists>t. length t \<le> 7 \<and> put_str (replicate 8 0) t = Some (d_CN x))"
    by (auto simp: scan_field_def split: option.splits dest: scanset_length)
  then have "0 \<in> set (d_CN x)"
  proof
    assume "\<exists>t. length t \<le> 7 \<and> put_str (replicate 8 0) t = Some (d_CN x)"
    then obtain t where t: "length t \<le> 7" "put_str (replicate 8 0) t = Some (d_CN x)" by blast
    then show ?thesis using put_str_pad [of t 8] pad_zero [of t 8] by simp
  qed simp
  then show ?thesis by (simp add: cstr_def)
qed

lemma reply_none:
  assumes "wf_env e" "wf_cfg (hj_cfg st)"
  shows "hjt212_req_respons e r st \<noteq> None" "hjt212_req_result e r' st \<noteq> None"
    "hjt212_report_system_time e st = None \<longleftrightarrow> e_alloc e \<and> e_slack e < 6"
proof -
  show "hjt212_req_respons e r st \<noteq> None"
    using respons_text [OF assms] by (cases "e_alloc e") (simp_all add: hjt212_req_respons_def [of e r])
  show "hjt212_req_result e r' st \<noteq> None"
    using result_text [OF assms] by (cases "e_alloc e") (simp_all add: hjt212_req_result_def [of e r'])
  show "hjt212_report_system_time e st = None \<longleftrightarrow> e_alloc e \<and> e_slack e < 6"
    using system_time_text [OF assms] by (cases "e_alloc e") (simp_all add: hjt212_report_system_time_def [of e])
qed

lemma same_cfg: "same_but_sent a b \<Longrightarrow> hj_cfg b = hj_cfg a"
  by (auto simp: same_but_sent_def)

lemma handle_none:
  assumes "wf_env e" "wf_cfg (hj_cfg st)"
  shows "handle_cmd e c st = None \<longleftrightarrow> unat c = 1011 \<and> e_alloc e \<and> e_slack e < 6"
proof (cases "unat c = 1011")
  case True
  obtain s1 where 1: "hjt212_req_respons e RE_RETURN_SUCCESS st = Some s1" using reply_none(1) [OF assms] by blast
  then have c1: "wf_cfg (hj_cfg s1)" using same_cfg [OF respons_same [OF 1]] assms(2) by simp
  show ?thesis
  proof (cases "hjt212_report_system_time e s1")
    case None
    then show ?thesis using True 1 reply_none(3) [OF assms(1) c1] by (simp add: handle_cmd_def)
  next
    case (Some s2)
    then have c2: "wf_cfg (hj_cfg s2)" using same_cfg [OF time_same [OF Some]] c1 by simp
    obtain s3 where 3: "hjt212_req_result e EXE_RETURN_SUCCESS s2 = Some s3" using reply_none(2) [OF assms(1) c2] by blast
    from Some have "\<not> (e_alloc e \<and> e_slack e < 6)" using reply_none(3) [OF assms(1) c1] by simp
    with True 1 Some 3 show ?thesis by (simp add: handle_cmd_def)
  qed
qed (simp add: handle_cmd_def)

lemma ParsePack_none:
  assumes "wf_env e" "wf_cfg (hj_cfg st)" "length (pData p) < 2 ^ 31"
  shows "HJT212_ParsePack e p st = None \<longleftrightarrow> hjt_text_fault e (hj_cfg st) (pData p)"
proof (cases "cstr (pData p)")
  case s: (Some s)
  have "length s \<le> length (pData p)" using s by (auto simp: cstr_def length_takeWhile_le split: if_splits)
  with assms(3) have l: "length s < 2 ^ 31" by simp
  show ?thesis
  proof (cases "parse_data e s")
    case None
    then have "hjt_long_pw s \<or> \<not> e_alloc e \<and> hjt_has_cp s" using parse_data_fault [OF l, of e] by blast
    then show ?thesis using s None by (auto simp: HJT212_ParsePack_def hjt_text_fault_def)
  next
    case x: (Some x)
    then have nf: "\<not> hjt_long_pw s" "\<not> (\<not> e_alloc e \<and> hjt_has_cp s)" using parse_data_fault [OF l, of e] by auto
    obtain cn where cn: "cstr (d_CN x) = Some cn" using parse_data_cn [OF x] by blast
    let ?st = "st\<lparr>hj_heap := hj_heap st + heap_of x\<rparr>"
    have cf: "wf_cfg (hj_cfg ?st)" using assms(2) by simp
    have tr: "hjt_time_request e (hj_cfg st) s \<longleftrightarrow> strncmp_eq 7 (cfg_PW (hj_cfg st)) (d_PW x)
        \<and> unat (word_of_int (atoi cn) :: u16) = 1011"
      using x cn by (simp add: hjt_time_request_def)
    have "hjt212_req_respons e RE_RETURN_PASSWD_ERR ?st \<noteq> None" by (rule reply_none(1) [OF assms(1) cf])
    moreover have "HJT212_ParsePack e p st = (if \<not> strncmp_eq 7 (cfg_PW (hj_cfg st)) (d_PW x)
        then hjt212_req_respons e RE_RETURN_PASSWD_ERR ?st
        else handle_cmd e (word_of_int (atoi cn)) ?st \<bind>
          (\<lambda>st. Some (rt_mq_send (x\<lparr>d_cp := None\<rparr>) (st\<lparr>hj_heap := hj_heap st - heap_of x\<rparr>))))"
      using s x cn by (simp add: HJT212_ParsePack_def Let_def)
    moreover have "hjt_text_fault e (hj_cfg st) (pData p) \<longleftrightarrow> e_alloc e \<and> e_slack e < 6 \<and> hjt_time_request e (hj_cfg st) s"
      using s nf by (auto simp: hjt_text_fault_def)
    ultimately show ?thesis
      using handle_none [OF assms(1) cf, of "word_of_int (atoi cn)"] tr by (auto simp: bind_eq_None_conv simp del: not_None_eq)
  qed
qed (simp add: HJT212_ParsePack_def hjt_text_fault_def)

lemma finish_frame_none:
  assumes "wf_env e" "hjt_ok st"
  shows "finish_frame e st = None \<longleftrightarrow> hjt_fault e (hj_cfg st) (hj_buf st) (hj_pos st)"
proof -
  let ?p = "take_package (hj_buf st) (hj_pos st)"
  let ?l = "frame_len (btLen ?p)" and ?m = "drop 6 (hj_buf st)"
  have f: "btLen ?p = slice (hj_buf st) 2 4" "pData ?p = ?m" "btCheck ?p = slice (hj_buf st) (hj_pos st - 6) 4"
    by (simp_all add: take_package_def)
  have m: "length (pData ?p) < 2 ^ 31" using assms(2) by (simp add: f hjt_ok_def HJT212_BUF_SIZE_def)
  have ct: "check_text e x = (if e_slack e = 0 then None else Some (crc_text x))" for x
    by (simp add: check_text_def sprintf_chk_def)
  have pp: "HJT212_ParsePack e ?p st = None \<longleftrightarrow> hjt_text_fault e (hj_cfg st) ?m"
    using ParsePack_none [OF assms(1) _ m, of st] assms(2) by (simp add: hjt_ok_def f)
  show ?thesis
  proof (cases "length ?m < nat (sint ?l) \<or> e_slack e = 0")
    case True
    then show ?thesis
      by (auto simp: finish_frame_def Let_def hjt_fault_def hjt212_GetCrc16_def ct f bind_eq_None_conv)
  next
    case False
    then have "hjt212_GetCrc16 ?m ?l = Some (hjt212_crc (take (nat (sint ?l)) ?m))"
      by (simp only: hjt212_GetCrc16_def Let_def) simp
    then have "finish_frame e st = None \<longleftrightarrow> (if ?l + 12 = word_of_nat (hj_pos st)
          \<and> strncmp_eq 4 (btCheck ?p) (crc_text (hjt212_crc (take (nat (sint ?l)) ?m)))
        then HJT212_ParsePack e ?p st else Some st) = None"
      using False by (simp add: finish_frame_def Let_def ct bind_eq_None_conv cong: if_cong)
    then show ?thesis
      using False pp unfolding hjt_fault_def Let_def f by (simp split: if_split) blast
  qed
qed

text \<open>
  The byte that makes the receiver leave an array: the line feed behind a carriage return that
  completes such a frame.
\<close>

definition hjt_overrun :: "env \<Rightarrow> hjt_link \<Rightarrow> byte \<Rightarrow> bool" where
  "hjt_overrun e st b = (hj_rcv st = HJT212_R_S_EOM \<and> 17 \<le> hj_pos st \<and> Suc (hj_pos st) < HJT212_BUF_SIZE
      \<and> hj_buf st ! (hj_pos st - 1) = 0x0d \<and> b = 0x0a
     \<and> hjt_fault e (hj_cfg st) ((hj_buf st)[hj_pos st := b]) (Suc (hj_pos st)))"

lemma put_byte_none:
  assumes "wf_env e" "hjt_ok st"
  shows "put_byte e st b = None \<longleftrightarrow> hjt_overrun e st b"
proof -
  define pos where "pos = (if HJT212_BUF_SIZE \<le> hj_pos st + 1 then 0 else hj_pos st + 1)"
  define s1 where "s1 = st\<lparr>hj_buf := (hj_buf st)[hj_pos st := b], hj_pos := pos\<rparr>"
  have lt: "hj_pos st < length (hj_buf st)" using assms(2) by (simp add: hjt_ok_def)
  show ?thesis
  proof (cases "hj_rcv st")
    case HJT212_R_S_HEAD
    then show ?thesis using lt by (simp add: put_byte_def Let_def hjt_overrun_def)
  next
    case EOM: HJT212_R_S_EOM
    have eq: "put_byte e st b = (if 4 \<le> pos \<and> le16 (hj_buf s1 ! (pos - 2)) (hj_buf s1 ! (pos - 1)) = HJT212_EOM \<and> 18 \<le> pos
        then finish_frame e s1 else Some s1)"
      using lt EOM unfolding put_byte_def Let_def pos_def [symmetric] s1_def [symmetric] by (simp add: s1_def)
    have ok: "hjt_ok s1" using assms(2) EOM by (simp add: hjt_ok_def s1_def mq_ok_def pos_def HJT212_BUF_SIZE_def)
    show ?thesis
    proof (cases "hj_pos st + 1 < HJT212_BUF_SIZE")
      case True
      then have pos: "pos = Suc (hj_pos st)" by (simp add: pos_def)
      have nth: "hj_buf s1 ! (pos - 1) = b" using lt by (simp add: s1_def pos)
      have nth2: "hj_buf s1 ! (pos - 2) = hj_buf st ! (hj_pos st - 1)" if "0 < hj_pos st"
        using that by (simp add: s1_def pos)
      have ff: "finish_frame e s1 = None \<longleftrightarrow> hjt_fault e (hj_cfg st) ((hj_buf st)[hj_pos st := b]) (Suc (hj_pos st))"
        using finish_frame_none [OF assms(1) ok] by (simp add: s1_def pos)
      show ?thesis
      proof (cases "17 \<le> hj_pos st")
        case True
        then show ?thesis using EOM nth nth2 ff pos \<open>hj_pos st + 1 < HJT212_BUF_SIZE\<close> unfolding eq hjt_overrun_def
          by (auto simp: EOM_iff)
      qed (simp add: eq pos hjt_overrun_def)
    qed (simp add: eq pos_def hjt_overrun_def)
  qed
qed

section \<open>A request, from its encoding to its effect\<close>

definition idle :: "hjt_link \<Rightarrow> bool" where
  "idle st = (hjt_ok st \<and> hj_rcv st = HJT212_R_S_HEAD \<and> hj_pos st = 0)"

lemma idle_feed:
  assumes "idle st" "wf_request r" "length (request_data r) + 12 < HJT212_BUF_SIZE"
    and "no_eom (request_data r)" "length l = 4" "length c = 4" "0x0a \<notin> set l" "0x0a \<notin> set c"
  shows "HJT212_PutBytes e (raw_frame l (request_data r) c) st = finish_frame e (rx_link l (request_data r) c st)"
  using assms request_data_shape [OF assms(2)] by (intro feed_frame) (auto simp: idle_def hjt_ok_def)

lemma request_parsed:
  assumes "idle st" "wf_request r" "e_alloc e" "length c = 4" "0 \<notin> set c"
    and "0 \<in> set (drop (length (request_data r) + 12) (hj_buf st))"
    and "hj_cfg st1 = hj_cfg st"
  shows "HJT212_ParsePack e (rx_package l (request_data r) c st) st1 =
    (if cstr (cfg_PW (hj_cfg st)) \<noteq> Some (r_PW r)
     then hjt212_req_respons e RE_RETURN_PASSWD_ERR (st1\<lparr>hj_heap := hj_heap st1 + 1\<rparr>)
     else handle_cmd e (word_of_int (atoi (r_CN r))) (st1\<lparr>hj_heap := hj_heap st1 + 1\<rparr>) \<bind>
       (\<lambda>st2. Some (rt_mq_send (request_msg r) (st2\<lparr>hj_heap := hj_heap st2 - 1\<rparr>))))"
proof -
  obtain y where y: "cstr (request_data r @ rx_tail (request_data r) c st) = Some (request_data r @ y)"
    "6 \<le> length y" "length y < 2 ^ 30"
    using rx_string [OF request_data_shape(1) [OF assms(2)] assms(5,6,4)] assms(1)
    by (auto simp: idle_def hjt_ok_def)
  obtain blk where blk: "parse_data e (request_data r @ y) = Some ((request_msg r)\<lparr>d_cp := Some blk\<rparr>)"
    using parse_request [OF assms(2,3) y(2,3)] by blast
  have pw: "strncmp_eq 7 (cfg_PW (hj_cfg st)) (pad 7 (r_PW r)) = (cstr (cfg_PW (hj_cfg st)) = Some (r_PW r))"
    using assms(1,2) by (intro strncmp_pad) (auto simp: idle_def hjt_ok_def wf_cfg_def wf_request_def plain_def)
  have cn: "cstr (pad 8 (r_CN r)) = Some (r_CN r)"
    using assms(2) by (intro cstr_pad) (auto simp: wf_request_def plain_def)
  have msg: "d_PW (request_msg r) = pad 7 (r_PW r)" "d_CN (request_msg r) = pad 8 (r_CN r)"
    "(request_msg r)\<lparr>d_cp := None\<rparr> = request_msg r"
    by (simp_all add: request_msg_def HJT212_Data_zero_def)
  show ?thesis
    using y blk pw cn assms(7)
    by (simp add: HJT212_ParsePack_def rx_package_def Let_def heap_of_def msg)
qed

lemma encoded_frame:
  assumes "wf_request r" "Hjt212Encode (Some (r_QN r @ [0])) (Some (r_ST r @ [0])) (Some (r_CN r @ [0]))
     (Some (r_PW r @ [0])) (Some (r_MN r @ [0])) (Some (r_Flag r @ [0])) (Some (r_CP r @ [0])) cap = Some f"
  shows "f = raw_frame (len_digits (length (request_data r))) (request_data r) (crc_text (hjt212_crc (request_data r)))"
    "length f = length (request_data r) + 12"
  using assms(2) unfolding Hjt212Encode_def request_encoded [OF assms(1)]
  by (auto simp: hjt_frame_raw [symmetric] split: if_splits)

lemma feed_encoded:
  assumes "idle st" "wf_request r" "length (request_data r) + 12 < HJT212_BUF_SIZE" "no_eom (request_data r)"
    and "1 \<le> e_slack e"
  defines "d \<equiv> request_data r"
  shows "HJT212_PutBytes e (raw_frame (len_digits (length d)) d (crc_text c)) st =
    (if c = hjt212_crc d
     then HJT212_ParsePack e (rx_package (len_digits (length d)) d (crc_text c) st) (rx_link (len_digits (length d)) d (crc_text c) st)
     else Some (rx_link (len_digits (length d)) d (crc_text c) st)) \<bind>
       (\<lambda>st'. Some (st'\<lparr>hj_rcv := HJT212_R_S_HEAD, hj_pos := 0\<rparr>))"
proof -
  have "HJT212_PutBytes e (raw_frame (len_digits (length d)) d (crc_text c)) st
      = finish_frame e (rx_link (len_digits (length d)) d (crc_text c) st)"
    unfolding d_def by (rule idle_feed) (use assms no_lf_len_digits no_lf_crc_text in auto)
  also have "\<dots> = (if strncmp_eq 4 (crc_text c) (crc_text (hjt212_crc d))
     then HJT212_ParsePack e (rx_package (len_digits (length d)) d (crc_text c) st) (rx_link (len_digits (length d)) d (crc_text c) st)
     else Some (rx_link (len_digits (length d)) d (crc_text c) st)) \<bind>
       (\<lambda>st'. Some (st'\<lparr>hj_rcv := HJT212_R_S_HEAD, hj_pos := 0\<rparr>))"
    by (rule finish_frame_rx) (use assms in \<open>auto simp: HJT212_BUF_SIZE_def\<close>)
  finally show ?thesis by (simp only: crc_text_check)
qed

lemma crc_text_nonzero: "0 \<notin> set (crc_text c)"
  using crc_text_range [of 0 c] by auto

lemma rx_link_cfg: "hj_cfg (rx_link l d c st) = hj_cfg st" "hj_mq (rx_link l d c st) = hj_mq st"
  "hj_heap (rx_link l d c st) = hj_heap st" "hj_sent (rx_link l d c st) = hj_sent st"
  by (simp_all add: rx_link_def)

section \<open>Properties\<close>

text \<open>
  C1. End to end: a request encoded by \<open>Hjt212Encode\<close> from values without delimiters, with the
  link's password and a command other than the time request, fed byte by byte to an idle
  link, is recognised exactly at its last byte; the queue receives one message that holds
  exactly the values that were encoded, no reply is sent, no memory is kept, and the link
  is idle again. Needs one spare byte behind \<open>usCheck\<close>.
\<close>

theorem hjt212_request_delivered:
  assumes "idle st" "wf_request r" "length (request_data r) + 12 < HJT212_BUF_SIZE" "no_eom (request_data r)"
    and "0 \<in> set (drop (length (request_data r) + 12) (hj_buf st))"
    and "e_alloc e" "1 \<le> e_slack e" "length (hj_mq st) < 3"
    and "cstr (cfg_PW (hj_cfg st)) = Some (r_PW r)"
    and "unat (word_of_int (atoi (r_CN r)) :: u16) \<noteq> cmd_code CMD_REQUEST_UPLOAD_TIME"
    and "Hjt212Encode (Some (r_QN r @ [0])) (Some (r_ST r @ [0])) (Some (r_CN r @ [0])) (Some (r_PW r @ [0]))
      (Some (r_MN r @ [0])) (Some (r_Flag r @ [0])) (Some (r_CP r @ [0])) cap = Some f"
  shows "HJT212_PutBytes e f st = Some (st\<lparr>hj_buf := f @ drop (length f) (hj_buf st),
    hj_mq := hj_mq st @ [request_msg r]\<rparr>)"
proof -
  let ?d = "request_data r"
  have "HJT212_PutBytes e f st =
      HJT212_ParsePack e (rx_package (len_digits (length ?d)) ?d (crc_text (hjt212_crc ?d)) st)
        (rx_link (len_digits (length ?d)) ?d (crc_text (hjt212_crc ?d)) st) \<bind>
       (\<lambda>st'. Some (st'\<lparr>hj_rcv := HJT212_R_S_HEAD, hj_pos := 0\<rparr>))"
    unfolding encoded_frame(1) [OF assms(2,11)]
    using feed_encoded [OF assms(1-4,7), of "hjt212_crc ?d"] by simp
  moreover have "HJT212_ParsePack e (rx_package (len_digits (length ?d)) ?d (crc_text (hjt212_crc ?d)) st)
      (rx_link (len_digits (length ?d)) ?d (crc_text (hjt212_crc ?d)) st) =
      Some ((rx_link (len_digits (length ?d)) ?d (crc_text (hjt212_crc ?d)) st)\<lparr>hj_mq := hj_mq st @ [request_msg r]\<rparr>)"
    using assms(8,9,10) by (subst request_parsed [OF assms(1,2,6) _ crc_text_nonzero assms(5)])
      (simp_all add: rx_link_cfg handle_cmd_def rt_mq_send_def)
  ultimately show ?thesis
    using assms(1) encoded_frame [OF assms(2,11)] by (simp add: rx_link_def idle_def)
qed

text \<open>
  C12. A request with another password is answered with exactly one frame, the refusal with
  return value 3, and nothing is queued; the block allocated for its parameters is never
  freed, so every such request loses one block of memory.
\<close>

theorem hjt212_wrong_password:
  assumes "idle st" "wf_request r" "length (request_data r) + 12 < HJT212_BUF_SIZE" "no_eom (request_data r)"
    and "0 \<in> set (drop (length (request_data r) + 12) (hj_buf st))"
    and "e_alloc e" "1 \<le> e_slack e" "wf_env e"
    and "cstr (cfg_PW (hj_cfg st)) \<noteq> Some (r_PW r)"
    and "Hjt212Encode (Some (r_QN r @ [0])) (Some (r_ST r @ [0])) (Some (r_CN r @ [0])) (Some (r_PW r @ [0]))
      (Some (r_MN r @ [0])) (Some (r_Flag r @ [0])) (Some (r_CP r @ [0])) cap = Some f"
  shows "HJT212_PutBytes e f st = Some (st\<lparr>hj_buf := f @ drop (length f) (hj_buf st),
    hj_sent := hj_sent st @ [hjt_frame (reply_head (hj_cfg st) ''9011'' @ lit ''Flag=0;CP=&&QN='' @ fmt_qn e
      @ lit '';QnRtn=3&&'')], hj_heap := hj_heap st + 1\<rparr>)"
proof -
  let ?d = "request_data r"
  let ?l = "rx_link (len_digits (length ?d)) ?d (crc_text (hjt212_crc ?d)) st"
  have 1: "HJT212_PutBytes e f st =
      HJT212_ParsePack e (rx_package (len_digits (length ?d)) ?d (crc_text (hjt212_crc ?d)) st) ?l \<bind>
       (\<lambda>st'. Some (st'\<lparr>hj_rcv := HJT212_R_S_HEAD, hj_pos := 0\<rparr>))"
    unfolding encoded_frame(1) [OF assms(2,10)]
    using feed_encoded [OF assms(1-4,7), of "hjt212_crc ?d"] by simp
  have 2: "HJT212_ParsePack e (rx_package (len_digits (length ?d)) ?d (crc_text (hjt212_crc ?d)) st) ?l
      = hjt212_req_respons e RE_RETURN_PASSWD_ERR (?l\<lparr>hj_heap := hj_heap ?l + 1\<rparr>)"
    using assms(9) by (subst request_parsed [OF assms(1,2,6) _ crc_text_nonzero assms(5)])
      (simp_all add: rx_link_cfg)
  have 3: "hjt212_req_respons e RE_RETURN_PASSWD_ERR (?l\<lparr>hj_heap := hj_heap ?l + 1\<rparr>)
      = Some (send (hjt_frame (reply_head (hj_cfg st) ''9011''
    @ lit ''Flag=0;CP=&&QN='' @ fmt_qn e @ lit '';QnRtn='' @ dec (re_code RE_RETURN_PASSWD_ERR) @ lit ''&&''))
      (?l\<lparr>hj_heap := hj_heap ?l + 1\<rparr>))"
    using assms(1,6,8) by (subst respons_text) (simp_all add: idle_def hjt_ok_def rx_link_cfg)
  show ?thesis
    unfolding 1 2 3 using assms(1) encoded_frame [OF assms(2,10)]
    by (simp add: rx_link_def idle_def send_def dec_codes)
qed

text \<open>
  C27. A request, in whose data the protocol allows neither carriage return nor line feed, of which
  any one data byte was changed in transit to any other byte (those two included) is dropped:
  the link is idle again, and neither the queue nor the line nor the heap has changed.
\<close>

theorem hjt212_damaged_request_dropped:
  assumes "idle st" "wf_request r" "request_data r = xs @ b # ys" "b \<noteq> b'" "1 \<le> e_slack e"
    and "0x0d \<notin> set (request_data r)" "0x0a \<notin> set (request_data r)"
    and "length (request_data r) + 12 < HJT212_BUF_SIZE"
  shows "HJT212_PutBytes e (raw_frame (len_digits (length (request_data r))) (xs @ b' # ys)
      (crc_text (hjt212_crc (request_data r)))) st
    = Some (st\<lparr>hj_buf := raw_frame (len_digits (length (request_data r))) (xs @ b' # ys)
      (crc_text (hjt212_crc (request_data r))) @ drop (length (request_data r) + 12) (hj_buf st)\<rparr>)"
proof -
  let ?d = "xs @ b' # ys" and ?c = "crc_text (hjt212_crc (request_data r))"
  have len: "length (request_data r) = length ?d" by (simp add: assms(3))
  have "hjt212_crc (request_data r) \<noteq> hjt212_crc ?d"
  proof
    assume "hjt212_crc (request_data r) = hjt212_crc ?d"
    then have "b = b'" unfolding assms(3) hjt212_crc_def by (rule hjt.single_byte)
    with assms(4) show False ..
  qed
  then have "\<not> strncmp_eq 4 ?c (crc_text (hjt212_crc ?d))" using crc_text_check by blast
  moreover have "HJT212_PutBytes e (raw_frame (len_digits (length ?d)) ?d ?c) st
      = finish_frame e (rx_link (len_digits (length ?d)) ?d ?c st)"
  proof (rule feed_frame_any)
    have "0x0d \<notin> set (xs @ ys)" "0x0a \<notin> set (xs @ ys)" using assms(3,6,7) by auto
    then show "no_eom (0x23 # len_digits (length ?d) @ ?d @ ?c @ [0x0d])"
      using no_lf_len_digits no_lf_crc_text no_cr_len_digits length_crc_text [of "hjt212_crc (request_data r)"]
      by (intro no_eom_damaged) (auto simp del: length_crc_text)
  qed (use assms(1,8) len request_data_shape(3) [OF assms(2)] in \<open>auto simp: idle_def hjt_ok_def\<close>)
  moreover have "finish_frame e (rx_link (len_digits (length ?d)) ?d ?c st) =
    (if strncmp_eq 4 ?c (crc_text (hjt212_crc ?d))
     then HJT212_ParsePack e (rx_package (len_digits (length ?d)) ?d ?c st) (rx_link (len_digits (length ?d)) ?d ?c st)
     else Some (rx_link (len_digits (length ?d)) ?d ?c st)) \<bind>
       (\<lambda>st'. Some (st'\<lparr>hj_rcv := HJT212_R_S_HEAD, hj_pos := 0\<rparr>))"
    by (rule finish_frame_rx) (use assms(5,8) len in \<open>simp_all add: HJT212_BUF_SIZE_def\<close>)
  ultimately show ?thesis
    using assms(1) len by (simp add: rx_link_def idle_def)
qed

text \<open>
  C9. Whatever bytes come in, the receiver keeps the link well formed: the write position stays
  inside the buffer, the two-byte head is compared at position two only, the configuration
  is untouched, and the queue holds at most three messages, each with \<open>eType = 0\<close> and no
  parameter block (the command of a request never reaches the consumer). It leaves an array
  only at the line feed that completes a frame with one of the faults of \<open>hjt_fault\<close>; up to
  that byte the link is well formed as well.
\<close>

theorem hjt212_link_invariant:
  assumes "hjt_ok st" "wf_env e"
  shows "(\<exists>st'. HJT212_PutBytes e bs st = Some st' \<and> hjt_ok st')
    \<or> (HJT212_PutBytes e bs st = None
       \<and> (\<exists>xs b ys st1. bs = xs @ b # ys \<and> HJT212_PutBytes e xs st = Some st1 \<and> hjt_ok st1 \<and> hjt_overrun e st1 b))"
  using assms(1)
proof (induction bs arbitrary: st)
  case (Cons b bs)
  show ?case
  proof (cases "put_byte e st b")
    case None
    then have "hjt_overrun e st b" using put_byte_none [OF assms(2) Cons.prems] by blast
    then have "\<exists>xs c ys st1. b # bs = xs @ c # ys \<and> HJT212_PutBytes e xs st = Some st1 \<and> hjt_ok st1 \<and> hjt_overrun e st1 c"
      using Cons.prems by (intro exI [of _ "[]"] exI [of _ b] exI [of _ bs] exI [of _ st]) simp
    with None show ?thesis by simp
  next
    case (Some s1)
    from Cons.IH [OF put_byte_ok [OF Some Cons.prems]] show ?thesis
    proof (elim disjE exE conjE)
      fix st' assume "HJT212_PutBytes e bs s1 = Some st'" "hjt_ok st'"
      then show ?thesis using Some by simp
    next
      fix xs c ys st1
      assume n: "HJT212_PutBytes e bs s1 = None"
        and "bs = xs @ c # ys" "HJT212_PutBytes e xs s1 = Some st1" "hjt_ok st1" "hjt_overrun e st1 c"
      then have "\<exists>xs c ys st1. b # bs = xs @ c # ys \<and> HJT212_PutBytes e xs st = Some st1 \<and> hjt_ok st1 \<and> hjt_overrun e st1 c"
        using Some by (intro exI [of _ "b # xs"] exI [of _ c] exI [of _ ys] exI [of _ st1]) simp
      with n Some show ?thesis by simp
    qed
  qed
qed simp

text \<open>
  How the stream is cut into \<open>HJT212_PutBytes\<close> calls does not matter.
\<close>

theorem hjt212_stream_segmentation:
  "HJT212_PutBytes e (xs @ ys) st =
    (case HJT212_PutBytes e xs st of None \<Rightarrow> None | Some st' \<Rightarrow> HJT212_PutBytes e ys st')"
  by (simp add: PutBytes_append split: option.split)

lemma stuck:
  "hj_rcv st = HJT212_R_S_HEAD \<Longrightarrow> hj_pos st = 1 \<Longrightarrow> length (hj_buf st) = HJT212_BUF_SIZE \<Longrightarrow> hj_buf st ! 0 \<noteq> 0x23 \<Longrightarrow>
   \<exists>buf. HJT212_PutBytes e bs st = Some (st\<lparr>hj_buf := buf\<rparr>) \<and> length buf = HJT212_BUF_SIZE \<and> buf ! 0 \<noteq> 0x23"
proof (induction bs arbitrary: st)
  case Nil
  then show ?case by (intro exI [of _ "hj_buf st"]) simp
next
  case (Cons b bs)
  let ?st = "st\<lparr>hj_buf := (hj_buf st)[1 := b]\<rparr>"
  have "put_byte e st b = Some (?st\<lparr>hj_pos := 1\<rparr>)"
    using Cons.prems by (simp add: put_byte_def Let_def PRE_iff HJT212_BUF_SIZE_def)
  also have "?st\<lparr>hj_pos := 1\<rparr> = ?st" using Cons.prems(2) by simp
  finally have "put_byte e st b = Some ?st" .
  moreover obtain buf where "HJT212_PutBytes e bs ?st = Some (?st\<lparr>hj_buf := buf\<rparr>)"
    "length buf = HJT212_BUF_SIZE" "buf ! 0 \<noteq> 0x23"
    using Cons.IH [of ?st] Cons.prems by auto
  ultimately show ?case by auto
qed

text \<open>
  The receiver does not resynchronise: after one byte that is not \<open>#\<close> at the start of a
  frame, every further byte stream leaves the link waiting at position one; no request is
  ever recognised again.
\<close>

theorem hjt212_never_resynchronises:
  assumes "idle st" "b \<noteq> 0x23"
  shows "\<exists>buf. HJT212_PutBytes e (b # bs) st = Some (st\<lparr>hj_buf := buf, hj_pos := 1\<rparr>)"
proof -
  let ?st = "st\<lparr>hj_buf := (hj_buf st)[0 := b], hj_pos := 1\<rparr>"
  have "put_byte e st b = Some ?st"
    using assms(1) by (auto simp: put_byte_def Let_def idle_def hjt_ok_def HJT212_BUF_SIZE_def)
  moreover have "(hj_buf st)[0 := b] ! 0 = b"
    using assms(1) by (simp add: idle_def hjt_ok_def HJT212_BUF_SIZE_def)
  then obtain buf where "HJT212_PutBytes e bs ?st = Some (?st\<lparr>hj_buf := buf\<rparr>)"
    using stuck [of ?st e bs] assms by (auto simp: idle_def hjt_ok_def)
  ultimately show ?thesis by (intro exI [of _ buf]) simp
qed

text \<open>
  The length field is trusted before it is checked: a frame whose length digits announce
  more bytes than the buffer holds makes the checksum loop read past the buffer, whatever
  the frame contains.
\<close>

theorem hjt212_length_overread:
  assumes "idle st" "6 \<le> length d" "length d + 12 < HJT212_BUF_SIZE" "no_eom d" "hd d \<noteq> 0x0a"
    and "length l = 4" "length c = 4" "0x0a \<notin> set l" "0x0a \<notin> set c"
    and "HJT212_BUF_SIZE - 6 < unat (frame_len l)" "unat (frame_len l) < 2 ^ 31"
  shows "HJT212_PutBytes e (raw_frame l d c) st = None"
proof -
  have "nat (sint (word_of_nat (unat (frame_len l)) :: u32)) = unat (frame_len l)"
    using assms(11) by (rule nat_sint_small)
  then have n: "nat (sint (frame_len l)) = unat (frame_len l)" by simp
  have "length (d @ rx_tail d c st) = HJT212_BUF_SIZE - 6"
    using assms(1,3,7) by (simp add: rx_tail_def idle_def hjt_ok_def HJT212_BUF_SIZE_def)
  then have "hjt212_GetCrc16 (d @ rx_tail d c st) (frame_len l) = None"
    using assms(10) by (simp only: hjt212_GetCrc16_def Let_def n) simp
  then have "finish_frame e (rx_link l d c st) = None"
    by (subst finish_frame_raw [OF assms(6,7)]) simp
  then show ?thesis
    using assms by (subst feed_frame) (auto simp: idle_def hjt_ok_def)
qed

text \<open>
  \<open>usCheck\<close> is one byte too short: where nothing lies free behind it, the check of every
  well-formed frame writes outside the array, whatever the frame holds.
\<close>

theorem hjt212_check_overflow:
  assumes "idle st" "6 \<le> length d" "length d + 12 < HJT212_BUF_SIZE" "no_eom d" "hd d \<noteq> 0x0a" "e_slack e = 0"
  shows "HJT212_PutBytes e (hjt_frame d) st = None"
proof -
  have "finish_frame e (rx_link (len_digits (length d)) d (crc_text (hjt212_crc d)) st) = None"
    using assms(3,6) by (subst finish_frame_raw)
      (simp_all add: check_text_def sprintf_chk_def split: Option.bind_split)
  then show ?thesis
    unfolding hjt_frame_raw using assms no_lf_len_digits no_lf_crc_text
    by (subst feed_frame) (auto simp: idle_def hjt_ok_def)
qed

text \<open>
  C14. The time request (command 1011). \<open>systime[20]\<close> receives 26 bytes: with fewer than six
  spare bytes behind it the reply writes outside the array. Otherwise the link sends, in
  this order, the acceptance, the time and the result, and then queues the request.
\<close>

theorem hjt212_time_request:
  assumes "idle st" "wf_request r" "length (request_data r) + 12 < HJT212_BUF_SIZE" "no_eom (request_data r)"
    and "0 \<in> set (drop (length (request_data r) + 12) (hj_buf st))"
    and "e_alloc e" "1 \<le> e_slack e" "wf_env e" "length (hj_mq st) < 3"
    and "cstr (cfg_PW (hj_cfg st)) = Some (r_PW r)" "r_CN r = lit ''1011''"
    and "Hjt212Encode (Some (r_QN r @ [0])) (Some (r_ST r @ [0])) (Some (r_CN r @ [0])) (Some (r_PW r @ [0]))
      (Some (r_MN r @ [0])) (Some (r_Flag r @ [0])) (Some (r_CP r @ [0])) cap = Some f"
  shows "HJT212_PutBytes e f st = (if e_slack e < 6 then None else
    Some (st\<lparr>hj_buf := f @ drop (length f) (hj_buf st),
     hj_sent := hj_sent st
       @ [hjt_frame (reply_head (hj_cfg st) ''9011'' @ lit ''Flag=0;CP=&&QN='' @ fmt_qn e @ lit '';QnRtn=1&&''),
          hjt_frame (reply_head (hj_cfg st) ''1011'' @ lit ''CP=&&QN='' @ fmt_qn e @ lit '';SystemTime='' @ fmt_time e @ lit ''&&''),
          hjt_frame (reply_head (hj_cfg st) ''9012'' @ lit ''Flag=0;CP=&&QN='' @ fmt_qn e @ lit '';ExeRtn=1&&'')],
     hj_mq := hj_mq st @ [request_msg r]\<rparr>))"
proof -
  let ?d = "request_data r"
  let ?l = "rx_link (len_digits (length ?d)) ?d (crc_text (hjt212_crc ?d)) st"
  have 1: "HJT212_PutBytes e f st =
      HJT212_ParsePack e (rx_package (len_digits (length ?d)) ?d (crc_text (hjt212_crc ?d)) st) ?l \<bind>
       (\<lambda>st'. Some (st'\<lparr>hj_rcv := HJT212_R_S_HEAD, hj_pos := 0\<rparr>))"
    unfolding encoded_frame(1) [OF assms(2,12)]
    using feed_encoded [OF assms(1-4,7), of "hjt212_crc ?d"] by simp
  have cfg: "wf_cfg (hj_cfg st)" using assms(1) by (simp add: idle_def hjt_ok_def)
  have atoi: "atoi (lit ''1011'') = 1011"
    by (simp add: atoi_def is_space_def atoi_digits_def is_digit_def)
  have 2: "HJT212_ParsePack e (rx_package (len_digits (length ?d)) ?d (crc_text (hjt212_crc ?d)) st) ?l
      = handle_cmd e 1011 (?l\<lparr>hj_heap := hj_heap ?l + 1\<rparr>) \<bind>
       (\<lambda>st2. Some (rt_mq_send (request_msg r) (st2\<lparr>hj_heap := hj_heap st2 - 1\<rparr>)))"
    using assms(10,11) by (subst request_parsed [OF assms(1,2,6) _ crc_text_nonzero assms(5)])
      (simp_all add: rx_link_cfg atoi del: lit_Cons)
  have 3: "handle_cmd e 1011 st0 = (if e_slack e < 6 then None else Some (send
      (hjt_frame (reply_head (hj_cfg st0) ''9012'' @ lit ''Flag=0;CP=&&QN='' @ fmt_qn e @ lit '';ExeRtn='' @ dec (exe_code EXE_RETURN_SUCCESS) @ lit ''&&''))
      (send (hjt_frame (reply_head (hj_cfg st0) ''1011'' @ lit ''CP=&&QN='' @ fmt_qn e @ lit '';SystemTime='' @ fmt_time e @ lit ''&&''))
      (send (hjt_frame (reply_head (hj_cfg st0) ''9011'' @ lit ''Flag=0;CP=&&QN='' @ fmt_qn e @ lit '';QnRtn='' @ dec (re_code RE_RETURN_SUCCESS) @ lit ''&&'')) st0))))"
    if "wf_cfg (hj_cfg st0)" for st0
  proof -
    have "hj_cfg (send g st0) = hj_cfg st0" for g st0 by (simp add: send_def)
    then show ?thesis
      using that assms(6,8) unfolding handle_cmd_def
      by (simp add: respons_text system_time_text result_text del: lit_Cons re_code.simps exe_code.simps)
  qed
  show ?thesis
    unfolding 1 2 using 3 [of "?l\<lparr>hj_heap := hj_heap ?l + 1\<rparr>"] cfg assms(1,9) encoded_frame [OF assms(2,12)]
    by (simp add: rx_link_def idle_def send_def rt_mq_send_def dec_lt10 del: lit_Cons) simp
qed

text \<open>
  The password is scanned with a width of ten into an array of seven: a request whose
  password has seven to ten characters makes the parser write past \<open>PW\<close>.
\<close>

theorem hjt212_password_overflow:
  assumes "strstr s (lit ''PW='') = Some (lit ''PW='' @ v @ [0x3b] @ y)" "plain v"
    and "7 \<le> length v" "length v \<le> 10"
  shows "parse_data e s = None"
proof -
  have "scanset 10 (ch CHR '';'') (v @ 0x3b # y) = Some v"
    using scanset_hit [of v 10 "0x3b" y] assms(2,4) by (simp add: plain_def)
  moreover have "put_str (replicate 7 0) v = None"
    using assms(3) by (simp add: put_str_def blit_chk_def)
  ultimately have "scan_field s ''PW='' 10 (replicate 7 0) = None"
    using assms(1) by (simp add: scan_field_def)
  then show ?thesis by (simp add: parse_data_def HJT212_Data_zero_def bind_eq_None_conv)
qed

text \<open>
  The parser reads on behind the frame. A frame that carries no password at all is
  accepted and queued when the bytes an earlier, longer frame left in the buffer still hold
  the right one.
\<close>

theorem hjt212_stale_password:
  assumes "idle st" "d = fld ''CN'' c @ rest" "plain c" "length c \<le> 7" "0x50 \<notin> set d" "0 \<notin> set d"
    and "6 \<le> length d" "length d + 12 < HJT212_BUF_SIZE" "no_eom d" "e_alloc e" "1 \<le> e_slack e"
    and "cstr (drop (length d + 12) (hj_buf st)) = Some old"
    and "strstr old (lit ''PW='') = Some (lit ''PW='' @ pw @ [0x3b] @ y)" "plain pw" "length pw \<le> 6"
    and "cstr (cfg_PW (hj_cfg st)) = Some pw" "length (hj_mq st) < 3"
    and "unat (word_of_int (atoi c) :: u16) \<noteq> cmd_code CMD_REQUEST_UPLOAD_TIME"
  shows "\<exists>msg. HJT212_PutBytes e (hjt_frame d) st = Some (st\<lparr>hj_buf := hjt_frame d @ drop (length d + 12) (hj_buf st),
    hj_mq := hj_mq st @ [msg]\<rparr>)"
proof -
  let ?k = "crc_text (hjt212_crc d)" and ?L = "len_digits (length d)"
  let ?s = "d @ ?k @ [0x0d, 0x0a] @ old"
  have s: "cstr (d @ rx_tail d ?k st) = Some ?s"
    using assms(6,12) crc_text_nonzero [of "hjt212_crc d"]
    by (auto simp: cstr_def rx_tail_def takeWhile_append split: if_splits)
  have noP: "0x50 \<notin> set (d @ ?k @ [0x0d, 0x0a])"
    using assms(5) crc_text_range [of "0x50" "hjt212_crc d"] by auto
  have "strstr ?s (lit ''PW='') = strstr old (lit ''PW='')"
    using strstr_skip_char [OF noP, of old "lit ''W=''"] by simp
  then have "scan_field ?s ''PW='' 10 (replicate 7 0) = Some (pad 7 pw)"
    using assms(13-15) by (intro scan_field_hit) auto
  moreover have "strstr ?s (lit ''CN='') = Some (lit ''CN='' @ c @ [0x3b] @ rest @ ?k @ [0x0d, 0x0a] @ old)"
    using strstr_fld_hit [of "''CN''" c "rest @ ?k @ [0x0d, 0x0a] @ old"] by (simp add: assms(2) fld_def)
  then have "scan_field ?s ''CN='' 7 (replicate 8 0) = Some (pad 8 c)"
    using assms(3,4) by (intro scan_field_hit) auto
  ultimately obtain x where x: "parse_data e ?s = Some x" "d_PW x = pad 7 pw" "d_CN x = pad 8 c"
    using parse_total [OF assms(10)] by blast
  have pw: "strncmp_eq 7 (cfg_PW (hj_cfg st)) (pad 7 pw)"
    using assms(1,14-16) by (subst strncmp_pad) (auto simp: idle_def hjt_ok_def wf_cfg_def plain_def)
  have cn: "cstr (pad 8 c) = Some c" using assms(3,4) by (intro cstr_pad) (auto simp: plain_def)
  have "HJT212_ParsePack e (rx_package ?L d ?k st) (rx_link ?L d ?k st)
      = Some ((rx_link ?L d ?k st)\<lparr>hj_mq := hj_mq st @ [x\<lparr>d_cp := None\<rparr>]\<rparr>)"
    using s x pw cn assms(17,18)
    by (simp add: HJT212_ParsePack_def rx_package_def Let_def rx_link_cfg handle_cmd_def rt_mq_send_def)
  moreover have "HJT212_PutBytes e (hjt_frame d) st = finish_frame e (rx_link ?L d ?k st)"
    unfolding hjt_frame_raw using assms(1,2,7-9) no_lf_len_digits no_lf_crc_text
    by (intro feed_frame) (auto simp: idle_def hjt_ok_def fld_def)
  moreover have "finish_frame e (rx_link ?L d ?k st) =
    (if strncmp_eq 4 ?k (crc_text (hjt212_crc d))
     then HJT212_ParsePack e (rx_package ?L d ?k st) (rx_link ?L d ?k st)
     else Some (rx_link ?L d ?k st)) \<bind> (\<lambda>st'. Some (st'\<lparr>hj_rcv := HJT212_R_S_HEAD, hj_pos := 0\<rparr>))"
    by (rule finish_frame_rx) (use assms(8,11) in \<open>simp_all add: HJT212_BUF_SIZE_def\<close>)
  ultimately show ?thesis
    using assms(1) by (intro exI [of _ "x\<lparr>d_cp := None\<rparr>"])
      (simp add: crc_text_check rx_link_def idle_def hjt_frame_raw)
qed

section \<open>Witnesses\<close>

definition w_env :: env where
  "w_env = \<lparr>tm_year = 124, tm_mon = 4, tm_mday = 17, tm_hour = 9, tm_min = 30, tm_sec = 5,
     tv_usec = 250000, e_alloc = True, e_slack = 2\<rparr>"

definition w_cfg :: HJT212_Cfg where
  "w_cfg = \<lparr>cfg_ST = pad 6 (lit ''31''), cfg_PW = pad 7 (lit ''123456''), cfg_MN = pad 15 (lit ''12345678901234''),
     ulPeriod = 1000, verify_flag = False, real_flag = True, min_flag = False, hour_flag = False,
     no_min = False, no_max = False, no_avg = False, no_cou = False\<rparr>"

definition w_link :: hjt_link where
  "w_link = \<lparr>hj_buf = replicate 2048 0, hj_pos = 0, hj_rcv = HJT212_R_S_HEAD, hj_cfg = w_cfg,
     hj_mq = [], hj_sent = [], hj_heap = 0\<rparr>"

definition w_req :: "string \<Rightarrow> string \<Rightarrow> request" where
  "w_req cn pw = \<lparr>r_QN = lit ''20240517093005250'', r_ST = lit ''31'', r_CN = lit cn, r_PW = lit pw,
     r_MN = lit ''12345678901234'', r_Flag = lit ''1'', r_CP = lit ''RtdInterval=30''\<rparr>"

abbreviation w_data :: "string \<Rightarrow> string \<Rightarrow> byte list" where
  "w_data cn pw \<equiv> request_data (w_req cn pw)"

lemma w_idle: "idle w_link"
  by (simp add: idle_def hjt_ok_def w_link_def w_cfg_def wf_cfg_def mq_ok_def pad_def HJT212_BUF_SIZE_def)

lemma w_wf: "wf_request (w_req ''2011'' ''123456'')" "wf_request (w_req ''2011'' ''654321'')"
  "wf_request (w_req ''1011'' ''123456'')"
  by (simp_all add: wf_request_def w_req_def plain_def)

lemma w_data_ok: "length cn = 4 \<Longrightarrow> length pw = 6 \<Longrightarrow> length (w_data cn pw) = 91"
  by (simp add: request_data_def w_req_def fld_def)

lemma w_no_eom: "no_eom (w_data ''2011'' ''123456'')" "no_eom (w_data ''2011'' ''654321'')"
  "no_eom (w_data ''1011'' ''123456'')"
  by (rule no_eom_no_lf, simp add: request_data_def w_req_def fld_def)+

lemma w_zero: "n < 2048 \<Longrightarrow> 0 \<in> set (drop n (hj_buf w_link))"
  by (simp add: w_link_def)

lemma w_encode:
  assumes "wf_request (w_req cn pw)" "length cn = 4" "length pw = 6"
  shows "Hjt212Encode (Some (r_QN (w_req cn pw) @ [0])) (Some (r_ST (w_req cn pw) @ [0]))
    (Some (r_CN (w_req cn pw) @ [0])) (Some (r_PW (w_req cn pw) @ [0])) (Some (r_MN (w_req cn pw) @ [0]))
    (Some (r_Flag (w_req cn pw) @ [0])) (Some (r_CP (w_req cn pw) @ [0])) 256 = Some (hjt_frame (w_data cn pw))"
  using assms by (simp add: Hjt212Encode_def request_encoded w_data_ok del: append.simps)

lemma w_pw: "cstr (cfg_PW (hj_cfg w_link)) = Some (lit ''123456'')"
  by (simp add: w_link_def w_cfg_def pad_def cstr_def)

theorem hjt212_request_delivered_witness:
  "HJT212_PutBytes w_env (hjt_frame (w_data ''2011'' ''123456'')) w_link =
    Some (w_link\<lparr>hj_buf := hjt_frame (w_data ''2011'' ''123456'')
       @ drop (length (hjt_frame (w_data ''2011'' ''123456''))) (hj_buf w_link),
     hj_mq := hj_mq w_link @ [request_msg (w_req ''2011'' ''123456'')]\<rparr>)"
proof (rule hjt212_request_delivered [OF w_idle w_wf(1) _ w_no_eom(1) _ _ _ _ _ _ w_encode [OF w_wf(1)]])
  show "unat (word_of_int (atoi (r_CN (w_req ''2011'' ''123456''))) :: u16) \<noteq> cmd_code CMD_REQUEST_UPLOAD_TIME"
    by (simp add: w_req_def atoi_def is_space_def atoi_digits_def is_digit_def)
  show "cstr (cfg_PW (hj_cfg w_link)) = Some (r_PW (w_req ''2011'' ''123456''))"
    by (simp add: w_pw [simplified] w_req_def)
qed (simp_all add: w_data_ok HJT212_BUF_SIZE_def w_zero w_env_def w_link_def [THEN arg_cong [of _ _ hj_mq]])

theorem hjt212_wrong_password_witness:
  "\<exists>f. HJT212_PutBytes w_env (hjt_frame (w_data ''2011'' ''654321'')) w_link =
    Some (w_link\<lparr>hj_buf := hjt_frame (w_data ''2011'' ''654321'')
       @ drop (length (hjt_frame (w_data ''2011'' ''654321''))) (hj_buf w_link),
     hj_sent := hj_sent w_link @ [f], hj_heap := hj_heap w_link + 1\<rparr>)"
proof (rule exI, rule hjt212_wrong_password [OF w_idle w_wf(2) _ w_no_eom(2) _ _ _ _ _ w_encode [OF w_wf(2)]])
  show "cstr (cfg_PW (hj_cfg w_link)) \<noteq> Some (r_PW (w_req ''2011'' ''654321''))"
    by (simp add: w_pw [simplified] w_req_def)
qed (simp_all add: w_data_ok HJT212_BUF_SIZE_def w_zero w_env_def wf_env_def)

lemma w_split: "w_data ''2011'' ''123456'' = [] @ 0x51 # tl (w_data ''2011'' ''123456'')"
  by (simp add: request_data_def fld_def)

theorem hjt212_damaged_request_dropped_witness:
  "HJT212_PutBytes w_env (raw_frame (len_digits (length (w_data ''2011'' ''123456'')))
      ([] @ 0x0a # tl (w_data ''2011'' ''123456'')) (crc_text (hjt212_crc (w_data ''2011'' ''123456'')))) w_link
    = Some (w_link\<lparr>hj_buf := raw_frame (len_digits (length (w_data ''2011'' ''123456'')))
      ([] @ 0x0a # tl (w_data ''2011'' ''123456'')) (crc_text (hjt212_crc (w_data ''2011'' ''123456'')))
      @ drop (length (w_data ''2011'' ''123456'') + 12) (hj_buf w_link)\<rparr>)"
proof (rule hjt212_damaged_request_dropped [OF w_idle w_wf(1) w_split])
  show "0x0d \<notin> set (w_data ''2011'' ''123456'')" "0x0a \<notin> set (w_data ''2011'' ''123456'')"
    by (simp_all add: request_data_def w_req_def fld_def)
qed (simp_all add: w_data_ok HJT212_BUF_SIZE_def w_env_def)

theorem hjt212_link_invariant_witness: "\<exists>st'. HJT212_PutBytes w_env [1, 2, 3] w_link = Some st' \<and> hjt_ok st'"
proof -
  have n: "HJT212_PutBytes w_env [1, 2, 3] w_link \<noteq> None"
    by (simp add: put_byte_def Let_def w_link_def HJT212_BUF_SIZE_def PRE_iff)
  have w: "hjt_ok w_link" "wf_env w_env" using w_idle by (simp_all add: idle_def w_env_def wf_env_def)
  show ?thesis
    using hjt212_link_invariant [OF w, of "[1, 2, 3]"]
    by (rule disjE) (assumption, erule conjE, rule notE [OF n], assumption)
qed

theorem hjt212_never_resynchronises_witness:
  "\<exists>buf. HJT212_PutBytes w_env (0 # hjt_frame (w_data ''2011'' ''123456'')) w_link
    = Some (w_link\<lparr>hj_buf := buf, hj_pos := 1\<rparr>)"
  by (rule hjt212_never_resynchronises [OF w_idle]) simp

theorem hjt212_length_overread_witness:
  "HJT212_PutBytes w_env (raw_frame (lit ''9999'') (lit ''QN=123'') (lit ''ABCD'')) w_link = None"
  by (rule hjt212_length_overread [OF w_idle]) (simp_all add: HJT212_BUF_SIZE_def frame_len_def)

theorem hjt212_check_overflow_witness:
  "HJT212_PutBytes (w_env\<lparr>e_slack := 0\<rparr>) (hjt_frame (w_data ''2011'' ''123456'')) w_link = None"
  using hjt212_check_overflow [OF w_idle _ _ w_no_eom(1), of "w_env\<lparr>e_slack := 0\<rparr>"]
    request_data_shape(2) [OF w_wf(1)]
  by (simp add: w_data_ok HJT212_BUF_SIZE_def)

theorem hjt212_time_request_witness:
  "HJT212_PutBytes w_env (hjt_frame (w_data ''1011'' ''123456'')) w_link = None"
proof -
  have "e_slack w_env < 6" by (simp add: w_env_def)
  moreover have "cstr (cfg_PW (hj_cfg w_link)) = Some (r_PW (w_req ''1011'' ''123456''))"
    by (simp add: w_pw [simplified] w_req_def)
  moreover have "r_CN (w_req ''1011'' ''123456'') = lit ''1011''" by (simp add: w_req_def)
  ultimately show ?thesis
    using hjt212_time_request [OF w_idle w_wf(3) _ w_no_eom(3) _ _ _ _ _ _ _ w_encode [OF w_wf(3)], of w_env]
    by (simp add: w_data_ok HJT212_BUF_SIZE_def w_zero w_env_def wf_env_def w_link_def [THEN arg_cong [of _ _ hj_mq]])
qed

theorem hjt212_password_overflow_witness:
  "parse_data w_env (lit ''PW='' @ lit ''1234567'' @ [0x3b] @ []) = None"
proof (rule hjt212_password_overflow)
  show "strstr (lit ''PW='' @ lit ''1234567'' @ [0x3b] @ []) (lit ''PW='') = Some (lit ''PW='' @ lit ''1234567'' @ [0x3b] @ [])"
    by (rule strstr_hit)
qed (simp_all add: plain_def)

definition w_stale :: hjt_link where
  "w_stale = w_link\<lparr>hj_buf := replicate 26 0x41 @ lit ''PW=123456;'' @ replicate 2012 0\<rparr>"

theorem hjt212_stale_password_witness:
  "\<exists>msg. HJT212_PutBytes w_env (hjt_frame (fld ''CN'' (lit ''2011'') @ fld ''ST'' (lit ''31''))) w_stale
    = Some (w_stale\<lparr>hj_buf := hjt_frame (fld ''CN'' (lit ''2011'') @ fld ''ST'' (lit ''31''))
        @ drop (length (fld ''CN'' (lit ''2011'') @ fld ''ST'' (lit ''31'')) + 12) (hj_buf w_stale),
      hj_mq := hj_mq w_stale @ [msg]\<rparr>)"
proof (rule hjt212_stale_password [where pw = "lit ''123456''" and y = "[]" and old = "lit ''PW=123456;''", OF _ refl])
  show "idle w_stale" using w_idle
    by (simp add: w_stale_def idle_def hjt_ok_def mq_ok_def HJT212_BUF_SIZE_def)
  show "cstr (drop (length (fld ''CN'' (lit ''2011'') @ fld ''ST'' (lit ''31'')) + 12) (hj_buf w_stale)) = Some (lit ''PW=123456;'')"
    by (simp add: fld_def w_stale_def cstr_def)
  show "no_eom (fld ''CN'' (lit ''2011'') @ fld ''ST'' (lit ''31''))"
    by (rule no_eom_no_lf) (simp add: fld_def)
  show "unat (word_of_int (atoi (lit ''2011'')) :: u16) \<noteq> cmd_code CMD_REQUEST_UPLOAD_TIME"
    by (simp add: atoi_def is_space_def atoi_digits_def is_digit_def)
  show "cstr (cfg_PW (hj_cfg w_stale)) = Some (lit ''123456'')"
    using w_pw by (simp add: w_stale_def)
qed (simp_all add: plain_def fld_def HJT212_BUF_SIZE_def w_env_def w_stale_def w_link_def)

end
