(* ===== verification/HeapList.thy ===== *)
theory HeapList
  imports Prelude
begin

text \<open>
  Linked lists on a heap, for the components that keep their records in one. A pointer is a
  natural number, 0 is \<open>NULL\<close>; a heap maps pointers to records, and reading one that is not in
  the heap is undefined behaviour, the value \<open>None\<close>. The walks below are the loops
  \<open>while (p) { ...; p = p->next; }\<close> of the sources, for any \<open>next\<close> field: a walk along a cycle
  never returns and is \<open>None\<close> as well.
\<close>

type_synonym ptr = nat
type_synonym 'a heap = "nat \<rightharpoonup> 'a"

named_theorems heap_simps \<open>reading changed heaps\<close>

section \<open>Loops over a list\<close>

text \<open>The first record with a property, or \<open>NULL\<close>.\<close>

partial_function (option) walk_find :: "('a \<Rightarrow> ptr) \<Rightarrow> ('a \<Rightarrow> bool) \<Rightarrow> 'a heap \<Rightarrow> ptr \<Rightarrow> ptr option" where
  "walk_find nxt P h p =
     (if p = 0 then Some 0
      else do { e \<leftarrow> h p; if P e then Some p else walk_find nxt P h (nxt e) })"

text \<open>Whether a pointer is one of the records of a list.\<close>

partial_function (option) walk_mem :: "('a \<Rightarrow> ptr) \<Rightarrow> 'a heap \<Rightarrow> ptr \<Rightarrow> ptr \<Rightarrow> bool option" where
  "walk_mem nxt h t p =
     (if p = 0 then Some False
      else if t = p then Some True
      else do { e \<leftarrow> h p; walk_mem nxt h t (nxt e) })"

text \<open>\<open>while (p && p->next) p = p->next;\<close>\<close>

partial_function (option) walk_last :: "('a \<Rightarrow> ptr) \<Rightarrow> 'a heap \<Rightarrow> ptr \<Rightarrow> ptr option" where
  "walk_last nxt h p =
     (if p = 0 then Some 0
      else do { e \<leftarrow> h p; if nxt e = 0 then Some p else walk_last nxt h (nxt e) })"

text \<open>
  A loop that changes the state at each record; \<open>get\<close> is the heap of a state. The field \<open>next\<close>
  is read after the step, as the sources do.
\<close>

partial_function (option) walk ::
  "('a \<Rightarrow> ptr) \<Rightarrow> ('s \<Rightarrow> 'a heap) \<Rightarrow> (ptr \<Rightarrow> 's \<Rightarrow> 's option) \<Rightarrow> ptr \<Rightarrow> 's \<Rightarrow> 's option" where
  "walk nxt get step p s =
     (if p = 0 then Some s
      else do { s \<leftarrow> step p s; e \<leftarrow> get s p; walk nxt get step (nxt e) s })"

section \<open>Segments\<close>

text \<open>\<open>seg nxt h p xs q\<close>: from \<open>p\<close> the \<open>next\<close> fields lead through the records \<open>xs\<close> to \<open>q\<close>.\<close>

fun seg :: "('a \<Rightarrow> ptr) \<Rightarrow> 'a heap \<Rightarrow> ptr \<Rightarrow> ptr list \<Rightarrow> ptr \<Rightarrow> bool" where
  "seg nxt h p [] q = (p = q)"
| "seg nxt h p (x # xs) q =
     (x = p \<and> p \<noteq> 0 \<and> (case h p of Some e \<Rightarrow> seg nxt h (nxt e) xs q | None \<Rightarrow> False))"

abbreviation chain :: "('a \<Rightarrow> ptr) \<Rightarrow> 'a heap \<Rightarrow> ptr \<Rightarrow> ptr list \<Rightarrow> bool" where
  "chain nxt h p xs \<equiv> seg nxt h p xs 0"

lemma seg_append: "seg nxt h p (xs @ ys) q \<longleftrightarrow> (\<exists>r. seg nxt h p xs r \<and> seg nxt h r ys q)"
  by (induction xs arbitrary: p) (auto split: option.splits)

lemma seg_cong: "(\<And>x. x \<in> set xs \<Longrightarrow> h x = h' x) \<Longrightarrow> seg nxt h p xs q = seg nxt h' p xs q"
  by (induction xs arbitrary: p) (auto split: option.splits)

lemma seg_cong_next:
  "(\<And>x. x \<in> set xs \<Longrightarrow> map_option nxt (h x) = map_option nxt (h' x)) \<Longrightarrow>
     seg nxt h p xs q = seg nxt h' p xs q"
proof (induction xs arbitrary: p)
  case (Cons x xs)
  have m: "map_option nxt (h x) = map_option nxt (h' x)" using Cons.prems by simp
  have ih: "seg nxt h r xs q = seg nxt h' r xs q" for r using Cons by simp
  show ?case
    using m by (cases "h x"; cases "h' x"; cases "x = p") (simp_all add: ih)
qed simp

lemma seg_end: "seg nxt h p xs a \<Longrightarrow> seg nxt h p xs b \<Longrightarrow> a = b"
  by (induction xs arbitrary: p) (auto split: option.splits)

lemma seg_upd [heap_simps]: "u \<notin> set xs \<Longrightarrow> seg nxt (h(u := v)) p xs q = seg nxt h p xs q"
  by (rule seg_cong) auto

lemma seg_in_heap: "seg nxt h p xs q \<Longrightarrow> x \<in> set xs \<Longrightarrow> x \<noteq> 0 \<and> (\<exists>e. h x = Some e)"
  by (induction xs arbitrary: p) (auto split: option.splits)

lemma chain_0 [simp]: "chain nxt h 0 xs \<longleftrightarrow> xs = []"
  by (cases xs) auto

lemma chain_unique: "chain nxt h p xs \<Longrightarrow> chain nxt h p ys \<Longrightarrow> xs = ys"
proof (induction xs arbitrary: p ys)
  case Nil then show ?case by simp
next
  case (Cons x xs)
  then show ?case by (cases ys) (auto split: option.splits)
qed

text \<open>A list that ends in \<open>NULL\<close> has no cycle.\<close>

lemma chain_distinct: "chain nxt h p xs \<Longrightarrow> distinct xs"
proof (induction xs arbitrary: p)
  case (Cons x xs)
  then obtain e where e: "x = p" "p \<noteq> 0" "h p = Some e" "chain nxt h (nxt e) xs"
    by (auto split: option.splits)
  have "x \<notin> set xs"
  proof
    assume "x \<in> set xs"
    then obtain ys zs where "xs = ys @ x # zs" by (auto simp: in_set_conv_decomp)
    then have "chain nxt h x (x # zs)" using e by (auto simp: seg_append)
    then have "x # zs = x # xs" using Cons.prems e by (blast dest: chain_unique)
    then show False using \<open>xs = ys @ x # zs\<close> by (auto dest: arg_cong [of _ _ length])
  qed
  then show ?case using Cons.IH e by auto
qed simp

lemma chain_mid: "chain nxt h p (xs @ x # ys) \<Longrightarrow> \<exists>e. h x = Some e \<and> chain nxt h (nxt e) ys"
  by (auto simp: seg_append split: option.splits)

section \<open>What the walks do on a list\<close>

lemma walk_find_chain:
  "chain nxt h p xs \<Longrightarrow> walk_find nxt P h p =
     Some (case find (\<lambda>x. P (the (h x))) xs of Some x \<Rightarrow> x | None \<Rightarrow> 0)"
  by (induction xs arbitrary: p) (subst walk_find.simps, auto split: option.splits)+

lemma walk_mem_chain: "chain nxt h p xs \<Longrightarrow> walk_mem nxt h t p = Some (t \<in> set xs)"
  by (induction xs arbitrary: p) (subst walk_mem.simps, auto split: option.splits)+

lemma walk_last_chain:
  "chain nxt h p xs \<Longrightarrow> walk_last nxt h p = Some (if xs = [] then 0 else last xs)"
proof (induction xs arbitrary: p)
  case Nil
  then show ?case by (subst walk_last.simps) simp
next
  case (Cons x xs)
  then obtain e where e: "x = p" "p \<noteq> 0" "h p = Some e" "chain nxt h (nxt e) xs"
    by (auto split: option.splits)
  then show ?case using Cons.IH [OF e(4)]
    by (subst walk_last.simps) (cases xs, auto)
qed

text \<open>
  A walk whose steps return and keep the \<open>next\<close> fields of the list visits its records in order.
\<close>

lemma walk_chain:
  assumes "chain nxt (get s) p xs"
    and "\<And>x s. x \<in> set xs \<Longrightarrow> chain nxt (get s) p xs \<Longrightarrow>
      step x s = Some (f x s) \<and> (\<forall>y \<in> set xs. map_option nxt (get (f x s) y) = map_option nxt (get s y))"
  shows "walk nxt get step p s = Some (fold f xs s) \<and> chain nxt (get (fold f xs s)) p xs"
proof -
  have "walk nxt get step q s = Some (fold f zs s) \<and> chain nxt (get (fold f zs s)) p xs"
    if "xs = ys @ zs" "chain nxt (get s) p xs" "seg nxt (get s) p ys q" for ys zs q s
    using that
  proof (induction zs arbitrary: ys q s)
    case Nil
    then have "q = 0" by (auto dest: seg_end)
    then show ?case using Nil by (subst walk.simps) simp
  next
    case (Cons z zs)
    let ?t = "f z s"
    from Cons.prems have q: "z = q" "q \<noteq> 0"
    proof -
      obtain r where "seg nxt (get s) p ys r" "chain nxt (get s) r (z # zs)"
        using Cons.prems by (auto simp: seg_append)
      moreover have "r = q" using calculation(1) Cons.prems(3) by (rule seg_end)
      ultimately show "z = q" "q \<noteq> 0" by auto
    qed
    have st: "step z s = Some ?t" "\<forall>y \<in> set xs. map_option nxt (get ?t y) = map_option nxt (get s y)"
      using assms(2) [of z s] Cons.prems by auto
    have t: "chain nxt (get ?t) p xs" "seg nxt (get ?t) p ys q"
      using Cons.prems st(2) seg_cong_next [of xs nxt "get ?t" "get s" p 0]
        seg_cong_next [of ys nxt "get ?t" "get s" p q] by auto
    then obtain e where e: "get ?t z = Some e" using Cons.prems(1) by (auto dest: seg_in_heap)
    have "seg nxt (get ?t) p (ys @ [z]) (nxt e)" using t(2) q e by (auto simp: seg_append)
    from Cons.IH [of "ys @ [z]", OF _ t(1) this] Cons.prems(1) show ?case
      using q st(1) e by (subst walk.simps) simp
  qed
  from this [of "[]" xs] assms(1) show ?thesis by simp
qed

text \<open>Running a fallible operation over a list, one element after the other.\<close>

fun runM :: "('x \<Rightarrow> 'c \<Rightarrow> 'c option) \<Rightarrow> 'x list \<Rightarrow> 'c \<Rightarrow> 'c option" where
  "runM f [] c = Some c"
| "runM f (x # xs) c = do { c \<leftarrow> f x c; runM f xs c }"

lemma walk_const:
  "chain nxt h p xs \<Longrightarrow> walk nxt (\<lambda>_. h) step p s = runM step xs s"
proof (induction xs arbitrary: p s)
  case Nil
  then show ?case by (subst walk.simps) simp
next
  case (Cons x xs)
  then obtain e where e: "x = p" "p \<noteq> 0" "h p = Some e" "chain nxt h (nxt e) xs"
    by (auto split: option.splits)
  then show ?case using Cons.IH [OF e(4)] by (subst walk.simps) simp
qed

section \<open>Records with a link\<close>

text \<open>
  The interface of a record that is kept in a list: its \<open>next\<close> field and the assignment to it.
\<close>

locale linked =
  fixes nxt :: "'a \<Rightarrow> ptr" and set_nxt :: "ptr \<Rightarrow> 'a \<Rightarrow> 'a"
  assumes nxt_set [simp]: "nxt (set_nxt p e) = p"
begin

text \<open>A new record behind the last one.\<close>

lemma append_node:
  assumes "chain nxt h p (xs @ [x])" "h x = Some e" "q \<noteq> 0" "q \<notin> set (xs @ [x])" "nxt d = 0"
  shows "chain nxt (h(x \<mapsto> set_nxt q e, q \<mapsto> d)) p ((xs @ [x]) @ [q])"
proof -
  have "x \<notin> set xs" "q \<noteq> x" using chain_distinct [OF assms(1)] assms(4) by auto
  moreover have "seg nxt h p xs x" "x \<noteq> 0" using assms(1) by (auto simp: seg_append)
  ultimately show ?thesis using assms by (auto simp: seg_append seg_upd)
qed

text \<open>The record behind \<open>x\<close> is taken out.\<close>

lemma unlink_next:
  assumes "chain nxt h p (xs @ x # y # ys)" "h x = Some e" "h y = Some d"
  shows "chain nxt (h(x \<mapsto> set_nxt (nxt d) e)) p (xs @ x # ys)"
proof -
  have "x \<notin> set xs" "x \<notin> set ys" using chain_distinct [OF assms(1)] by auto
  then show ?thesis using assms by (auto simp: seg_append seg_upd)
qed

end

section \<open>Running operations that refine an abstraction\<close>

text \<open>
  The contract of an operation \<open>stepc\<close> that may fail for want of a resource: with \<open>cost\<close> units of
  it at hand it returns, its result is related to the result of \<open>stepa\<close>, and no more than \<open>cost\<close>
  units are gone. Then a run of operations refines the fold of their abstractions.
\<close>

locale refines =
  fixes R :: "nat \<Rightarrow> 'c \<Rightarrow> 'a \<Rightarrow> bool"
    and stepc :: "'x \<Rightarrow> 'c \<Rightarrow> 'c option"
    and stepa :: "'x \<Rightarrow> 'a \<Rightarrow> 'a"
    and cost :: nat
    and ok :: "'x \<Rightarrow> bool"
  assumes step: "ok x \<Longrightarrow> R (cost + n) c a \<Longrightarrow> \<exists>c'. stepc x c = Some c' \<and> R n c' (stepa x a)"
begin

lemma run:
  "list_all ok xs \<Longrightarrow> R (cost * length xs + n) c a \<Longrightarrow>
     \<exists>c'. runM stepc xs c = Some c' \<and> R n c' (fold stepa xs a)"
proof (induction xs arbitrary: c a)
  case (Cons x xs)
  then have "ok x" "R (cost + (cost * length xs + n)) c a" by (simp_all add: add.assoc)
  from step [OF this] obtain d where "stepc x c = Some d" "R (cost * length xs + n) d (stepa x a)"
    by blast
  then show ?case using Cons by auto
qed simp

end

end
