(* ===== verification/VarData.thy ===== *)
theory VarData
  imports HeapList
begin

text \<open>
  The data of the acquisition variables, \<open>drivers/varmanage/varmanage.h\<close>: the record of a
  variable as far as the register map, the variable list and the polling list use it, the
  numbers of the devices and protocols, and the classification of a device by its protocol.

  The union \<open>ExtData_IO_Param_t\<close> is its 16 bytes, read at the offsets of its members in the
  layout of the target (natural alignment, little endian), since some of the code reads the
  member of one protocol in the variable of another. The floating-point fields (limits, ratio,
  averages) are left out. Strings on the heap are pointers; a name is its text.
\<close>

section \<open>Constants\<close>

definition PROTO_DEV_RS_MAX :: int where "PROTO_DEV_RS_MAX = 3"
definition PROTO_DEV_NET :: int where "PROTO_DEV_NET = 4"
definition PROTO_DEV_ZIGBEE :: int where "PROTO_DEV_ZIGBEE = 5"
definition PROTO_DEV_GPRS :: int where "PROTO_DEV_GPRS = 6"
definition PROTO_DEV_RTU_SELF :: int where "PROTO_DEV_RTU_SELF = 100"

definition PROTO_MODBUS_ASCII :: int where "PROTO_MODBUS_ASCII = 1"
definition PROTO_DLT645 :: int where "PROTO_DLT645 = 2"
definition PROTO_MODBUS_TCP :: int where "PROTO_MODBUS_TCP = 0"
definition PROTO_MODBUS_RTU_OVER_TCP :: int where "PROTO_MODBUS_RTU_OVER_TCP = 2"

definition USER_REG_EXT_DATA_START :: nat where "USER_REG_EXT_DATA_START = 1024"
definition USER_REG_EXT_DATA_END :: nat where "USER_REG_EXT_DATA_END = 2047"
definition USER_REG_EXT_DATA_SIZE :: nat where
  "USER_REG_EXT_DATA_SIZE = USER_REG_EXT_DATA_END - USER_REG_EXT_DATA_START + 1"

definition EXT_DATA_REG_CHECK :: "nat \<Rightarrow> bool" where
  "EXT_DATA_REG_CHECK a = (USER_REG_EXT_DATA_START \<le> a \<and> a \<le> USER_REG_EXT_DATA_END)"

definition E_ERR_OP_CLEAR :: byte where "E_ERR_OP_CLEAR = 1"
definition E_VAR_ARRAY :: byte where "E_VAR_ARRAY = 9"

lemmas proto_defs = PROTO_DEV_RS_MAX_def PROTO_DEV_NET_def PROTO_DEV_ZIGBEE_def PROTO_DEV_GPRS_def
  PROTO_DEV_RTU_SELF_def PROTO_MODBUS_ASCII_def PROTO_DLT645_def PROTO_MODBUS_TCP_def
  PROTO_MODBUS_RTU_OVER_TCP_def

lemmas reg_defs = USER_REG_EXT_DATA_START_def USER_REG_EXT_DATA_END_def USER_REG_EXT_DATA_SIZE_def
  EXT_DATA_REG_CHECK_def

section \<open>The variable\<close>

record ExtData =
  bEnable :: bool
  szName :: "byte list"
  btVarType :: byte
  btVarSize :: byte
  xValue :: "byte list"
  usDevType :: u16
  usDevNum :: u16
  usProtoType :: u16
  szProtoName :: ptr
  usAddr :: u16
  btErrOp :: byte
  btErrCnt :: byte
  btErrNum :: byte
  io_param :: "byte list"
  szExp :: ptr
  up_bEnable :: bool
  szNid :: ptr
  szFid :: ptr
  szUnit :: ptr
  up_usDevType :: u16
  up_usDevNum :: u16
  up_usProtoType :: u16
  up_szProtoName :: ptr
  szDesc :: ptr
  ed_next :: ptr
  ed_prev :: ptr

text \<open>The members of the union, at their offsets.\<close>

definition mb_btOpCode :: "ExtData \<Rightarrow> byte" where
  "mb_btOpCode d = io_param d ! 0"

definition mb_nSyncFAddr :: "ExtData \<Rightarrow> u32" where
  "mb_nSyncFAddr d = le32 (io_param d ! 4) (io_param d ! 5) (io_param d ! 6) (io_param d ! 7)"

definition mb_btSlaveAddr :: "ExtData \<Rightarrow> byte" where
  "mb_btSlaveAddr d = io_param d ! 8"

definition mb_usExtAddr :: "ExtData \<Rightarrow> u16" where
  "mb_usExtAddr d = le16 (io_param d ! 10) (io_param d ! 11)"

definition mb_usAddrOfs :: "ExtData \<Rightarrow> u16" where
  "mb_usAddrOfs d = le16 (io_param d ! 12) (io_param d ! 13)"

definition dl_addr :: "ExtData \<Rightarrow> byte list" where
  "dl_addr d = take 6 (io_param d)"

definition dl_op :: "ExtData \<Rightarrow> u32" where
  "dl_op d = le32 (io_param d ! 8) (io_param d ! 9) (io_param d ! 10) (io_param d ! 11)"

text \<open>The bytes of a Modbus and of a DL/T 645 parameter block, as the configuration fills them.\<close>

definition modbus_param :: "byte \<Rightarrow> u32 \<Rightarrow> byte \<Rightarrow> u16 \<Rightarrow> u16 \<Rightarrow> byte list" where
  "modbus_param op fa slave ext ofs =
     [op, 0, 0, 0] @ bytes_le32 fa @ [slave, 0] @ bytes_le16 ext @ bytes_le16 ofs @ [0, 0]"

lemma modbus_param_members:
  assumes "io_param d = modbus_param op fa slave ext ofs"
  shows "mb_btOpCode d = op" "mb_nSyncFAddr d = fa" "mb_btSlaveAddr d = slave"
    "mb_usExtAddr d = ext" "mb_usAddrOfs d = ofs"
proof -
  have p: "io_param d = [op, 0, 0, 0, ucast fa, ucast (drop_bit 8 fa), ucast (drop_bit 16 fa),
      ucast (drop_bit 24 fa), slave, 0, ucast ext, ucast (drop_bit 8 ext), ucast ofs, ucast (drop_bit 8 ofs), 0, 0]"
    by (simp add: assms modbus_param_def bytes_le32_def bytes_le16_def)
  show "mb_btOpCode d = op" "mb_nSyncFAddr d = fa" "mb_btSlaveAddr d = slave"
    "mb_usExtAddr d = ext" "mb_usAddrOfs d = ofs"
    by (simp_all add: p mb_btOpCode_def mb_nSyncFAddr_def mb_btSlaveAddr_def mb_usExtAddr_def
        mb_usAddrOfs_def le32_bytes_le32 le16_bytes)
qed

text \<open>The registers a variable takes: \<open>(btVarSize + 1) / 2\<close>, computed as \<open>int\<close>.\<close>

definition var_regs :: "ExtData \<Rightarrow> nat" where
  "var_regs d = (unat (btVarSize d) + 1) div 2"

lemma var_regs_le: "var_regs d \<le> 128"
proof -
  have "unat (btVarSize d) < 2 ^ LENGTH(8)" by (rule unsigned_less)
  then show ?thesis by (simp add: var_regs_def)
qed

section \<open>Byte order\<close>

definition var_htons :: "u16 \<Rightarrow> u16" where
  "var_htons n = push_bit 8 (n AND 0xff) OR drop_bit 8 (n AND 0xff00)"

definition var_htonl :: "u32 \<Rightarrow> u32" where
  "var_htonl n = push_bit 24 (n AND 0xff) OR push_bit 8 (n AND 0xff00)
     OR drop_bit 8 (n AND 0xff0000) OR drop_bit 24 (n AND 0xff000000)"

section \<open>Protocols\<close>

definition proto_is_rtu_self :: "int \<Rightarrow> int \<Rightarrow> bool" where
  "proto_is_rtu_self dev_type dev_num = (PROTO_DEV_RTU_SELF = dev_type \<and> dev_num < 8)"

definition proto_is_modbus :: "int \<Rightarrow> int \<Rightarrow> bool" where
  "proto_is_modbus dev_type proto_type =
     (if dev_type \<le> PROTO_DEV_RS_MAX then proto_type \<le> PROTO_MODBUS_ASCII
      else if dev_type \<le> PROTO_DEV_NET then
        proto_type \<le> PROTO_MODBUS_TCP \<or> proto_type = PROTO_MODBUS_RTU_OVER_TCP
      else if dev_type \<le> PROTO_DEV_ZIGBEE then proto_type \<le> PROTO_MODBUS_ASCII
      else if dev_type \<le> PROTO_DEV_GPRS then
        proto_type \<le> PROTO_MODBUS_TCP \<or> proto_type = PROTO_MODBUS_RTU_OVER_TCP
      else False)"

definition proto_is_dlt645 :: "int \<Rightarrow> int \<Rightarrow> bool" where
  "proto_is_dlt645 dev_type proto_type =
     (dev_type \<le> PROTO_DEV_RS_MAX \<and> proto_type = PROTO_DLT645)"

text \<open>No device is of two kinds.\<close>

lemma proto_exclusive:
  "proto_is_rtu_self t n \<Longrightarrow> \<not> proto_is_modbus t p \<and> \<not> proto_is_dlt645 t p"
  "proto_is_modbus t p \<Longrightarrow> \<not> proto_is_dlt645 t p"
  by (auto simp: proto_is_rtu_self_def proto_is_modbus_def proto_is_dlt645_def proto_defs)

end
