(* ===== verification/VarList.thy ===== *)
theory VarList
  imports VarData
begin

text \<open>
  The list of the acquisition variables and their registers, \<open>drivers/varmanage/varmanage.c\<close>:
  the doubly linked list \<open>s_xExtDataList\<close> with insertion, removal, copying and sorting, the
  registers \<open>g_xExtDataRegs\<close> with the flags of those in use, and the look-ups from an address
  to the variable behind it.

  The variables and their strings live on heaps; the results of the coming allocations are the
  list \<open>vm_alloc\<close> (0, or the end of the list, for an allocation that fails), so that what the
  allocator does is left open. \<open>None\<close> is a read of freed memory, an access outside an array, or
  a loop along a cycle.

  Shown: insertion and removal are those of a list and keep the links in order; the test of a
  register range accepts exactly the ranges that enabled variables cover; sorting leaves a list
  of ascending addresses as it is, but loses variables of others.
\<close>

section \<open>State\<close>

record varmanage =
  vm_n :: int
  vm_list :: ptr
  vm_heap :: "ExtData heap"
  vm_str :: "byte list heap"
  vm_regs :: "u16 list"
  vm_flags :: "bool list"
  vm_alloc :: "ptr list"

text \<open>Assigning a field of the variable at a pointer.\<close>

definition upd :: "ptr \<Rightarrow> (ExtData \<Rightarrow> ExtData) \<Rightarrow> varmanage \<Rightarrow> varmanage option" where
  "upd p f s = do { d \<leftarrow> vm_heap s p; Some (s\<lparr>vm_heap := (vm_heap s)(p \<mapsto> f d)\<rparr>) }"

definition vm_calloc :: "varmanage \<Rightarrow> ptr \<times> varmanage" where
  "vm_calloc s = (case vm_alloc s of [] \<Rightarrow> (0, s) | p # ps \<Rightarrow> (p, s\<lparr>vm_alloc := ps\<rparr>))"

text \<open>\<open>VAR_MANAGE_FREE\<close> of a string and of a variable.\<close>

definition free_str :: "ptr \<Rightarrow> varmanage \<Rightarrow> varmanage option" where
  "free_str p s = (if p = 0 then Some s
     else do { _ \<leftarrow> vm_str s p; Some (s\<lparr>vm_str := (vm_str s)(p := None)\<rparr>) })"

definition free_data :: "ptr \<Rightarrow> varmanage \<Rightarrow> varmanage option" where
  "free_data p s = do { _ \<leftarrow> vm_heap s p; Some (s\<lparr>vm_heap := (vm_heap s)(p := None)\<rparr>) }"

text \<open>\<open>rt_strdup\<close>, which copies \<open>NULL\<close> to \<open>NULL\<close>.\<close>

definition rt_strdup :: "ptr \<Rightarrow> varmanage \<Rightarrow> (ptr \<times> varmanage) option" where
  "rt_strdup p s = (if p = 0 then Some (0, s)
     else do {
       t \<leftarrow> vm_str s p;
       let (q, s) = vm_calloc s;
       Some (q, if q = 0 then s else s\<lparr>vm_str := (vm_str s)(q \<mapsto> t)\<rparr>) })"

section \<open>The list\<close>

definition prvSetExtDataCfgDefault :: "varmanage \<Rightarrow> varmanage" where
  "prvSetExtDataCfgDefault s = s\<lparr>vm_n := 0, vm_list := 0\<rparr>"

definition GetExtDataWithName :: "byte list option \<Rightarrow> varmanage \<Rightarrow> ptr option" where
  "GetExtDataWithName name s = (case name of
     Some nm \<Rightarrow> walk_find ed_next (\<lambda>d. nm = szName d) (vm_heap s) (vm_list s)
   | None \<Rightarrow> Some 0)"

definition vVarManage_InsertNode :: "ptr \<Rightarrow> varmanage \<Rightarrow> varmanage option" where
  "vVarManage_InsertNode data s = do {
     q \<leftarrow> walk_last ed_next (vm_heap s) (vm_list s);
     s \<leftarrow> (if q \<noteq> 0
       then do {
         s \<leftarrow> upd q (\<lambda>d. d\<lparr>ed_next := data\<rparr>) s;
         upd data (\<lambda>d. d\<lparr>ed_prev := q\<rparr>) s }
       else Some (s\<lparr>vm_list := data\<rparr>));
     Some (s\<lparr>vm_n := vm_n s + 1\<rparr>) }"

text \<open>The seven strings of a variable, in the order in which they are copied and freed.\<close>

definition strings :: "ExtData \<Rightarrow> ptr list" where
  "strings d = [szProtoName d, szExp d, szNid d, szFid d, szUnit d, up_szProtoName d, szDesc d]"

definition set_strings :: "ptr list \<Rightarrow> ExtData \<Rightarrow> ExtData" where
  "set_strings ps d = d\<lparr>szProtoName := ps ! 0, szExp := ps ! 1, szNid := ps ! 2, szFid := ps ! 3,
     szUnit := ps ! 4, up_szProtoName := ps ! 5, szDesc := ps ! 6\<rparr>"

fun strdups :: "ptr list \<Rightarrow> varmanage \<Rightarrow> (ptr list \<times> varmanage) option" where
  "strdups [] s = Some ([], s)"
| "strdups (p # ps) s = do {
     (q, s) \<leftarrow> rt_strdup p s;
     (qs, s) \<leftarrow> strdups ps s;
     Some (q # qs, s) }"

definition pVarManage_CopyData :: "ptr \<Rightarrow> varmanage \<Rightarrow> (ptr \<times> varmanage) option" where
  "pVarManage_CopyData p s = (if p = 0 then Some (0, s)
     else do {
       let (out, s) = vm_calloc s;
       if out = 0 then Some (0, s)
       else do {
         d \<leftarrow> vm_heap s p;
         (qs, s) \<leftarrow> strdups (strings d) s;
         Some (out, s\<lparr>vm_heap := (vm_heap s)(out \<mapsto> set_strings qs d)\<rparr>) } })"

definition free_strings :: "ExtData \<Rightarrow> varmanage \<Rightarrow> varmanage option" where
  "free_strings d s = runM free_str (strings d) s"

definition vVarManage_FreeData :: "ptr \<Rightarrow> varmanage \<Rightarrow> varmanage option" where
  "vVarManage_FreeData p s = (if p = 0 then Some s
     else do {
       d \<leftarrow> vm_heap s p;
       s \<leftarrow> free_strings d s;
       free_data p s })"

definition vVarManage_RemoveNodeWithName :: "byte list option \<Rightarrow> varmanage \<Rightarrow> varmanage option" where
  "vVarManage_RemoveNodeWithName name s = do {
     data \<leftarrow> GetExtDataWithName name s;
     if data = 0 then Some s
     else do {
       d \<leftarrow> vm_heap s data;
       let prev = ed_prev d;
       let next = ed_next d;
       s \<leftarrow> (if prev \<noteq> 0 then upd prev (\<lambda>e. e\<lparr>ed_next := next\<rparr>) s
             else Some (s\<lparr>vm_list := next\<rparr>));
       s \<leftarrow> (if next \<noteq> 0 then upd next (\<lambda>e. e\<lparr>ed_prev := prev\<rparr>) s else Some s);
       let s = s\<lparr>vm_n := vm_n s - 1\<rparr>;
       s \<leftarrow> free_strings d s;
       s \<leftarrow> free_data data s;
       Some (if vm_n s = 0 then s\<lparr>vm_list := 0\<rparr> else s) } }"

text \<open>\<open>while (node && n--)\<close>: with a negative \<open>n\<close> it runs to the end of the list.\<close>

partial_function (option) walk_index :: "ExtData heap \<Rightarrow> int \<Rightarrow> ptr \<Rightarrow> ptr option" where
  "walk_index h n p =
     (if p = 0 \<or> n = 0 then Some p
      else do { d \<leftarrow> h p; walk_index h (n - 1) (ed_next d) })"

definition GetExtDataWithIndex :: "int \<Rightarrow> varmanage \<Rightarrow> (ptr \<times> varmanage) option" where
  "GetExtDataWithIndex n s = (if vm_list s = 0 then Some (0, s)
     else do {
       p \<leftarrow> walk_index (vm_heap s) n (vm_list s);
       pVarManage_CopyData p s })"

definition pVarManage_GetExtDataWithUpProto ::
  "ptr \<Rightarrow> u16 \<Rightarrow> u16 \<Rightarrow> u16 \<Rightarrow> varmanage \<Rightarrow> ptr option" where
  "pVarManage_GetExtDataWithUpProto first dev_type dev_num proto_type s =
     (if vm_list s = 0 then Some 0
      else do {
        node \<leftarrow> (if first \<noteq> 0 then map_option ed_next (vm_heap s first) else Some (vm_list s));
        walk_find ed_next (\<lambda>d. bEnable d \<and> up_bEnable d \<and> dev_type = up_usDevType d \<and>
          dev_num = up_usDevNum d \<and> proto_type = up_usProtoType d) (vm_heap s) node })"

text \<open>
  All variables and strings are freed (\<open>varmanage_free_all\<close>, without the polling list). The
  link is read before the record is freed.
\<close>

partial_function (option) free_list :: "ptr \<Rightarrow> varmanage \<Rightarrow> varmanage option" where
  "free_list p s = (if p = 0 then Some s
     else do {
       d \<leftarrow> vm_heap s p;
       s \<leftarrow> free_strings d s;
       s \<leftarrow> free_data p s;
       free_list (ed_next d) s })"

definition varmanage_free_vars :: "varmanage \<Rightarrow> varmanage option" where
  "varmanage_free_vars s = do {
     s \<leftarrow> free_list (vm_list s) s;
     Some (prvSetExtDataCfgDefault s) }"

section \<open>Sorting\<close>

text \<open>
  The inner loop looks from \<open>top\<close>, which always is the head of the list, to \<open>next\<close> for the
  record before which \<open>next\<close> is to be linked (\<open>sort_place\<close>, 0 if there is none), and links it
  there (\<open>sort_move\<close>).
\<close>

definition sort_move :: "ptr \<Rightarrow> ptr \<Rightarrow> ptr \<Rightarrow> varmanage \<Rightarrow> varmanage option" where
  "sort_move node next tmp s = do {
     t \<leftarrow> vm_heap s tmp;
     let inner = (ed_prev t \<noteq> 0);
     nd \<leftarrow> vm_heap s next;
     s \<leftarrow> upd node (\<lambda>d. d\<lparr>ed_next := ed_next nd\<rparr>) s;
     nd \<leftarrow> vm_heap s next;
     s \<leftarrow> (if ed_next nd \<noteq> 0 then upd (ed_next nd) (\<lambda>d. d\<lparr>ed_prev := node\<rparr>) s else Some s);
     s \<leftarrow> upd next (\<lambda>d. d\<lparr>ed_next := tmp\<rparr>) s;
     t \<leftarrow> vm_heap s tmp;
     s \<leftarrow> upd next (\<lambda>d. d\<lparr>ed_prev := ed_prev t\<rparr>) s;
     t \<leftarrow> vm_heap s tmp;
     s \<leftarrow> (if inner then upd (ed_prev t) (\<lambda>d. d\<lparr>ed_next := next\<rparr>) s else Some s);
     t \<leftarrow> vm_heap s tmp;
     s \<leftarrow> (if ed_next t \<noteq> 0 then upd (ed_next t) (\<lambda>d. d\<lparr>ed_prev := next\<rparr>) s else Some s);
     Some (if inner then s else s\<lparr>vm_list := next\<rparr>) }"

partial_function (option) sort_place :: "ExtData heap \<Rightarrow> ptr \<Rightarrow> ptr \<Rightarrow> ptr option" where
  "sort_place h next tmp =
     (if tmp = next then Some 0
      else do {
        n \<leftarrow> h next;
        t \<leftarrow> h tmp;
        here \<leftarrow> (if ed_prev t \<noteq> 0
          then do { p \<leftarrow> h (ed_prev t); Some (usAddr p \<le> usAddr n \<and> usAddr n \<le> usAddr t) }
          else Some (usAddr n \<le> usAddr t));
        if here then Some tmp else sort_place h next (ed_next t) })"

partial_function (option) sort_walk :: "ptr \<Rightarrow> varmanage \<Rightarrow> varmanage option" where
  "sort_walk node s =
     (if node = 0 then Some s
      else do {
        d \<leftarrow> vm_heap s node;
        s \<leftarrow> (if ed_next d = 0 then Some s
          else do {
            tmp \<leftarrow> sort_place (vm_heap s) (ed_next d) (vm_list s);
            if tmp = 0 then Some s else sort_move node (ed_next d) tmp s });
        d \<leftarrow> vm_heap s node;
        sort_walk (ed_next d) s })"

definition sort_extdata_link :: "varmanage \<Rightarrow> varmanage option" where
  "sort_extdata_link s = (if vm_list s = 0 then Some s else sort_walk (vm_list s) s)"

section \<open>Registers\<close>

definition flag_reg :: "ExtData \<Rightarrow> nat \<Rightarrow> bool list \<Rightarrow> bool list" where
  "flag_reg d i flags = (let addr = unat (usAddr d) + i in
     if EXT_DATA_REG_CHECK addr then flags[addr - USER_REG_EXT_DATA_START := True] else flags)"

definition flag_node :: "ExtData \<Rightarrow> bool list \<Rightarrow> bool list" where
  "flag_node d flags = (if bEnable d then fold (flag_reg d) [0..<var_regs d] flags else flags)"

definition RefreshRegsFlag :: "varmanage \<Rightarrow> varmanage option" where
  "RefreshRegsFlag s = do {
     let h = vm_heap s;
     flags \<leftarrow> walk ed_next (\<lambda>_. h) (\<lambda>p flags. map_option (\<lambda>d. flag_node d flags) (h p)) (vm_list s)
       (replicate USER_REG_EXT_DATA_SIZE False);
     Some (s\<lparr>vm_flags := flags\<rparr>) }"

text \<open>The loop counts the registers down and the address up, both in 16 bits.\<close>

function check_cont :: "bool list \<Rightarrow> u16 \<Rightarrow> u16 \<Rightarrow> bool" where
  "check_cont flags a n =
     (if n = 0 then True
      else if \<not> EXT_DATA_REG_CHECK (unat a)
          \<or> \<not> flags ! (unat a - USER_REG_EXT_DATA_START) then False
      else check_cont flags (a + 1) (n - 1))"
  by pat_completeness auto

termination
  by (relation "measure (\<lambda>(_, _, n). unat n)") (auto simp: unat_minus_one unat_gt_0)

declare check_cont.simps [simp del]

definition bVarManage_CheckContAddr :: "u16 \<Rightarrow> u16 \<Rightarrow> varmanage \<Rightarrow> bool" where
  "bVarManage_CheckContAddr a n s = check_cont (vm_flags s) a n"

text \<open>
  Access to \<open>n\<close> registers from the address \<open>a\<close> on, as the index into the array that the
  sources compute; \<open>None\<close> when it leaves the array.
\<close>

fun put_regs :: "byte list \<Rightarrow> int \<Rightarrow> nat \<Rightarrow> u16 list \<Rightarrow> u16 list option" where
  "put_regs buf i 0 regs = Some regs"
| "put_regs buf i (Suc n) regs = (case buf of
     b0 # b1 # rest \<Rightarrow>
       if 0 \<le> i \<and> i < int (length regs) then put_regs rest (i + 1) n (regs[nat i := le16 b0 b1]) else None
   | _ \<Rightarrow> None)"

fun get_regs :: "u16 list \<Rightarrow> int \<Rightarrow> nat \<Rightarrow> nat \<Rightarrow> byte list \<Rightarrow> byte list option" where
  "get_regs regs i 0 off buf = Some buf"
| "get_regs regs i (Suc n) off buf =
     (if 0 \<le> i \<and> i < int (length regs) \<and> off + 1 < length buf
      then get_regs regs (i + 1) n (off + 2)
        (buf[off := ucast (regs ! nat i AND 0xFF), off + 1 := ucast (drop_bit 8 (regs ! nat i) AND 0xFF)])
      else None)"

definition reg_index :: "u16 \<Rightarrow> int" where
  "reg_index a = int (unat a) - int USER_REG_EXT_DATA_START"

definition refresh_regs :: "byte list \<Rightarrow> u16 \<Rightarrow> nat \<Rightarrow> varmanage \<Rightarrow> varmanage option" where
  "refresh_regs buf a nregs s = do {
     regs \<leftarrow> put_regs buf (reg_index a) nregs (vm_regs s);
     Some (s\<lparr>vm_regs := regs\<rparr>) }"

definition clear_regs :: "u16 \<Rightarrow> nat \<Rightarrow> varmanage \<Rightarrow> varmanage option" where
  "clear_regs a nregs s = do {
     regs \<leftarrow> put_regs (replicate (2 * nregs) 0) (reg_index a) nregs (vm_regs s);
     Some (s\<lparr>vm_regs := regs\<rparr>) }"

definition read_regs :: "nat \<Rightarrow> u16 \<Rightarrow> nat \<Rightarrow> varmanage \<Rightarrow> byte list \<Rightarrow> byte list option" where
  "read_regs off a nregs s buf = get_regs (vm_regs s) (reg_index a) nregs off buf"

section \<open>From an address to the variable\<close>

text \<open>The outputs of the look-ups; \<open>None\<close> inside \<open>Some\<close> for the result 0 without outputs.\<close>

definition lookup_var :: "(ExtData \<Rightarrow> bool) \<Rightarrow> (ExtData \<Rightarrow> 'b) \<Rightarrow> varmanage \<Rightarrow> 'b option option" where
  "lookup_var P f s = do {
     p \<leftarrow> walk_find ed_next P (vm_heap s) (vm_list s);
     if p = 0 then Some None
     else do { d \<leftarrow> vm_heap s p; Some (Some (f d)) } }"

definition GetExtDataIoInfoWithAddr ::
  "u16 \<Rightarrow> varmanage \<Rightarrow> (int \<times> u16 \<times> u16 \<times> byte \<times> u16 \<times> byte) option option" where
  "GetExtDataIoInfoWithAddr a = lookup_var
     (\<lambda>d. bEnable d \<and> usAddr d \<le> a \<and> unat a < var_regs d + unat (usAddr d))
     (\<lambda>d. (int (var_regs d) - (int (unat a) - int (unat (usAddr d))),
        usDevType d, usDevNum d, mb_btSlaveAddr d, mb_usExtAddr d + (a - usAddr d), mb_btOpCode d))"

definition GetExtDataIoInfoWithSlaveAddr ::
  "u16 \<Rightarrow> u16 \<Rightarrow> byte \<Rightarrow> u16 \<Rightarrow> varmanage \<Rightarrow> (int \<times> u16) option option" where
  "GetExtDataIoInfoWithSlaveAddr dev_type dev_num slave a = lookup_var
     (\<lambda>d. bEnable d \<and> usDevType d = dev_type \<and> usDevNum d = dev_num \<and> mb_btSlaveAddr d = slave \<and>
        mb_usExtAddr d \<le> a \<and> unat a < var_regs d + unat (mb_usExtAddr d))
     (\<lambda>d. (int (var_regs d) - (int (unat a) - int (unat (mb_usExtAddr d))),
        usAddr d + (a - mb_usExtAddr d)))"

definition is_dlt645_var :: "byte list \<Rightarrow> u16 \<Rightarrow> u32 \<Rightarrow> ExtData \<Rightarrow> bool" where
  "is_dlt645_var dlt_addr a op d = (bEnable d \<and> dl_addr d = dlt_addr \<and> usAddr d = a \<and> dl_op d = op)"

definition GetExtDataIoInfoWithDlt645Addr ::
  "byte list \<Rightarrow> u16 \<Rightarrow> u32 \<Rightarrow> varmanage \<Rightarrow> (int \<times> byte) option option" where
  "GetExtDataIoInfoWithDlt645Addr dlt_addr a op = lookup_var (is_dlt645_var dlt_addr a op)
     (\<lambda>d. (int (var_regs d), btVarType d))"

definition prvCheckExeDataEnable :: "ExtData \<Rightarrow> bool" where
  "prvCheckExeDataEnable d = (bEnable d \<and> btVarType d \<le> E_VAR_ARRAY \<and>
     1024 \<le> unat (usAddr d) \<and> unat (usAddr d) \<le> 2048 \<and>
     1 \<le> mb_btSlaveAddr d \<and> mb_btSlaveAddr d \<le> 247 \<and> int (unat (usDevType d)) \<le> PROTO_DEV_GPRS)"

section \<open>Reading and clearing the variables of a device\<close>

definition nUartGetIndex :: "byte \<Rightarrow> byte" where
  "nUartGetIndex inst = (if inst = 1 then 0 else if inst = 4 then 1
     else if inst = 5 then 2 else if inst = 0 then 3 else - 1)"

text \<open>The device of a Modbus port: its type and number.\<close>

definition port_dev :: "byte \<Rightarrow> (u16 \<times> u16) option" where
  "port_dev port =
     (if port = 3 then Some (5, 0)
      else if port < 6 then Some (scast (nUartGetIndex port), 0)
      else if port < 6 + 4 then Some (4, ucast (port - 6))
      else if port < 6 + 8 then Some (6, ucast (port - (6 + 4)))
      else None)"

text \<open>The variables that a range of a slave's registers holds whole.\<close>

definition in_range :: "u16 \<Rightarrow> u16 \<Rightarrow> byte \<Rightarrow> u16 \<Rightarrow> u16 \<Rightarrow> ExtData \<Rightarrow> bool" where
  "in_range dev_type dev_num slave a n d =
     (bEnable d \<and> usDevType d = dev_type \<and> usDevNum d = dev_num \<and> mb_btSlaveAddr d = slave \<and>
      a \<le> mb_usExtAddr d \<and> var_regs d + unat (mb_usExtAddr d) \<le> unat a + unat n)"

text \<open>The answer of the slave, or \<open>None\<close> inside \<open>Some\<close> for a port that has no device.\<close>

definition bVarManage_ReadExtDataWithModbusMaster ::
  "byte \<Rightarrow> byte \<Rightarrow> u16 \<Rightarrow> u16 \<Rightarrow> varmanage \<Rightarrow> byte list \<Rightarrow> byte list option option" where
  "bVarManage_ReadExtDataWithModbusMaster port slave a n s buf = (case port_dev port of
     None \<Rightarrow> Some None
   | Some (dev_type, dev_num) \<Rightarrow> do {
       buf \<leftarrow> walk ed_next (\<lambda>_. vm_heap s) (\<lambda>p buf. do {
           d \<leftarrow> vm_heap s p;
           if in_range dev_type dev_num slave a n d
           then read_regs (2 * (unat (mb_usExtAddr d) - unat a)) (usAddr d) (var_regs d) s buf
           else Some buf }) (vm_list s) buf;
       Some (Some buf) })"

text \<open>One more failed poll of a variable; its value and registers go to 0 when they were too many.\<close>

definition count_error :: "ptr \<Rightarrow> varmanage \<Rightarrow> varmanage option" where
  "count_error p s = do {
     d \<leftarrow> vm_heap s p;
     if btErrOp d = E_ERR_OP_CLEAR
     then do {
       s \<leftarrow> (if btErrCnt d \<le> btErrNum d
         then do {
           s \<leftarrow> clear_regs (usAddr d) (var_regs d) s;
           upd p (\<lambda>d. d\<lparr>xValue := replicate (length (xValue d)) 0, btErrNum := 0\<rparr>) s }
         else Some s);
       upd p (\<lambda>d. d\<lparr>btErrNum := btErrNum d + 1\<rparr>) s }
     else Some s }"

definition vVarManage_ModbusMasterTryClearExtDataWithErr ::
  "u16 \<Rightarrow> u16 \<Rightarrow> byte \<Rightarrow> u16 \<Rightarrow> u16 \<Rightarrow> varmanage \<Rightarrow> varmanage option" where
  "vVarManage_ModbusMasterTryClearExtDataWithErr dev_type dev_num slave a n s =
     walk ed_next vm_heap (\<lambda>p s. do {
         d \<leftarrow> vm_heap s p;
         if in_range dev_type dev_num slave a n d then count_error p s else Some s }) (vm_list s) s"

definition vVarManage_Dlt645TryClearExtDataWithErr ::
  "byte list \<Rightarrow> u16 \<Rightarrow> u32 \<Rightarrow> varmanage \<Rightarrow> varmanage option" where
  "vVarManage_Dlt645TryClearExtDataWithErr dlt_addr a op s = do {
     p \<leftarrow> walk_find ed_next (is_dlt645_var dlt_addr a op) (vm_heap s) (vm_list s);
     if p = 0 then Some s else count_error p s }"

section \<open>The list as a list\<close>

interpretation var: linked ed_next "\<lambda>p d. d\<lparr>ed_next := p\<rparr>"
  by unfold_locales simp

text \<open>The \<open>prev\<close> fields lead back.\<close>

fun backlinks :: "ExtData heap \<Rightarrow> ptr \<Rightarrow> ptr list \<Rightarrow> bool" where
  "backlinks h q [] = True"
| "backlinks h q (x # xs) = (map_option ed_prev (h x) = Some q \<and> backlinks h x xs)"

text \<open>A variable without its links, and the variables of a list.\<close>

definition unlink :: "ExtData \<Rightarrow> ExtData" where
  "unlink d = d\<lparr>ed_next := 0, ed_prev := 0\<rparr>"

definition vals :: "ExtData heap \<Rightarrow> ptr list \<Rightarrow> ExtData list" where
  "vals h ps = map (\<lambda>p. unlink (the (h p))) ps"

text \<open>The strings that variables own: those of their string fields that are not \<open>NULL\<close>.\<close>

definition owned :: "ExtData list \<Rightarrow> ptr list" where
  "owned ds = filter (\<lambda>p. p \<noteq> 0) (concat (map strings ds))"

text \<open>
  The abstraction: the records \<open>ps\<close> form the list, with both links in order, its counter is
  right, the strings are live and each has one owner, and the variables are \<open>vs\<close>.
\<close>

definition is_vars :: "varmanage \<Rightarrow> ptr list \<Rightarrow> ExtData list \<Rightarrow> bool" where
  "is_vars s ps vs = (chain ed_next (vm_heap s) (vm_list s) ps \<and> backlinks (vm_heap s) 0 ps \<and>
     vm_n s = int (length ps) \<and> vals (vm_heap s) ps = vs \<and>
     distinct (owned vs) \<and> set (owned vs) \<subseteq> dom (vm_str s))"

lemma unlink_simps [simp]:
  "unlink (d\<lparr>ed_next := p\<rparr>) = unlink d" "unlink (d\<lparr>ed_prev := p\<rparr>) = unlink d"
  "strings (unlink d) = strings d" "szName (unlink d) = szName d" "bEnable (unlink d) = bEnable d"
  "usAddr (unlink d) = usAddr d" "var_regs (unlink d) = var_regs d"
  by (simp_all add: unlink_def strings_def var_regs_def)

lemma unlink_id: "ed_next d = 0 \<Longrightarrow> ed_prev d = 0 \<Longrightarrow> unlink d = d"
  by (simp add: unlink_def)

lemma vals_cong: "(\<And>p. p \<in> set ps \<Longrightarrow> map_option unlink (h p) = map_option unlink (h' p)) \<Longrightarrow>
    (\<And>p. p \<in> set ps \<Longrightarrow> h p \<noteq> None) \<Longrightarrow> vals h ps = vals h' ps"
  unfolding vals_def by (rule map_cong [OF refl]) (metis map_option_is_None option.exhaust_sel option.map_sel)

lemma backlinks_cong: "(\<And>p. p \<in> set ps \<Longrightarrow> map_option ed_prev (h p) = map_option ed_prev (h' p)) \<Longrightarrow>
    backlinks h q ps = backlinks h' q ps"
  by (induction ps arbitrary: q) auto

lemma backlinks_append: "backlinks h q (xs @ ys) = (backlinks h q xs \<and> backlinks h (if xs = [] then q else last xs) ys)"
  by (induction xs arbitrary: q) auto

lemma backlinks_upd: "u \<notin> set xs \<Longrightarrow> backlinks (h(u := v)) q xs = backlinks h q xs"
  by (rule backlinks_cong) auto

section \<open>Insertion\<close>

lemma insert_list:
  assumes vars: "is_vars s ps vs"
    and data: "vm_heap s data = Some d" "data \<noteq> 0" "data \<notin> set ps" "ed_next d = 0" "ed_prev d = 0"
    and own: "distinct (owned (vs @ [d]))" "set (owned [d]) \<subseteq> dom (vm_str s)"
  shows "\<exists>s'. vVarManage_InsertNode data s = Some s' \<and> is_vars s' (ps @ [data]) (vs @ [d])"
proof -
  let ?h = "vm_heap s"
  have ch: "chain ed_next ?h (vm_list s) ps" "backlinks ?h 0 ps" "vals ?h ps = vs"
    using vars by (simp_all add: is_vars_def)
  have str: "set (owned (vs @ [d])) \<subseteq> dom (vm_str s)" using vars own(2) by (auto simp: is_vars_def owned_def)
  show ?thesis
  proof (cases ps rule: rev_cases)
    case Nil
    have "vVarManage_InsertNode data s = Some (s\<lparr>vm_list := data, vm_n := vm_n s + 1\<rparr>)"
      using walk_last_chain [OF ch(1)] Nil by (simp add: vVarManage_InsertNode_def)
    then show ?thesis using vars data own str Nil by (simp add: is_vars_def vals_def unlink_id)
  next
    case (snoc xs q)
    obtain e where e: "?h q = Some e" "q \<noteq> 0" using seg_in_heap [OF ch(1), of q] snoc by auto
    have q: "q \<noteq> data" "q \<notin> set xs" "data \<notin> set xs"
      using data(3) chain_distinct [OF ch(1)] snoc by auto
    let ?h' = "?h(q \<mapsto> e\<lparr>ed_next := data\<rparr>, data \<mapsto> d\<lparr>ed_prev := q\<rparr>)"
    have ins: "vVarManage_InsertNode data s = Some (s\<lparr>vm_heap := ?h', vm_n := vm_n s + 1\<rparr>)"
      using walk_last_chain [OF ch(1)] snoc e q data(1)
      by (simp add: vVarManage_InsertNode_def upd_def)
    have "chain ed_next ?h' (vm_list s) ((xs @ [q]) @ [data])"
      by (rule var.append_node) (use ch snoc e q data in auto)
    moreover have "backlinks ?h' 0 (ps @ [data])"
      using ch(2) e q snoc by (simp add: backlinks_append backlinks_upd)
    moreover have "vals ?h' (ps @ [data]) = vs @ [d]"
      using ch(3) e q snoc data unlink_id [of d] by (auto simp: vals_def)
    ultimately show ?thesis
      using ins vars own str snoc by (simp add: is_vars_def)
  qed
qed

section \<open>Freeing strings\<close>

lemma free_str_run:
  assumes "distinct (filter (\<lambda>p. p \<noteq> 0) ps)" "set (filter (\<lambda>p. p \<noteq> 0) ps) \<subseteq> dom (vm_str s)"
  shows "runM free_str ps s = Some (s\<lparr>vm_str := (vm_str s) |` (- (set ps - {0}))\<rparr>)"
  using assms
proof (induction ps arbitrary: s)
  case Nil
  then show ?case by simp
next
  case (Cons p ps)
  show ?case
  proof (cases "p = 0")
    case True
    then show ?thesis using Cons by (simp add: free_str_def)
  next
    case False
    then obtain t where "vm_str s p = Some t" using Cons.prems by auto
    then have "free_str p s = Some (s\<lparr>vm_str := (vm_str s)(p := None)\<rparr>)"
      using False by (simp add: free_str_def)
    moreover have "(vm_str s)(p := None) |` (- (set ps - {0})) = (vm_str s) |` (- (set (p # ps) - {0}))"
      using False by (auto simp: restrict_map_def)
    moreover have "set (filter (\<lambda>p. p \<noteq> 0) ps) \<subseteq> dom ((vm_str s)(p := None))"
      using Cons.prems False by auto
    ultimately show ?thesis using Cons False by simp
  qed
qed

section \<open>Removal\<close>

definition drop_first :: "('a \<Rightarrow> bool) \<Rightarrow> 'a list \<Rightarrow> 'a list" where
  "drop_first P xs = takeWhile (\<lambda>x. \<not> P x) xs @ tl (dropWhile (\<lambda>x. \<not> P x) xs)"

lemma drop_first_split: "(\<forall>x \<in> set xs. \<not> P x) \<Longrightarrow> P y \<Longrightarrow> drop_first P (xs @ y # ys) = xs @ ys"
  by (simp add: drop_first_def takeWhile_append dropWhile_append)

lemma drop_first_none: "(\<forall>x \<in> set xs. \<not> P x) \<Longrightarrow> drop_first P xs = xs"
  by (simp add: drop_first_def takeWhile_eq_all_conv [THEN iffD2] dropWhile_eq_Nil_conv [THEN iffD2])

lemma find_split: "find P xs = Some y \<Longrightarrow> \<exists>us vs. xs = us @ y # vs \<and> P y \<and> (\<forall>x \<in> set us. \<not> P x)"
proof (induction xs)
  case (Cons x xs)
  show ?case
  proof (cases "P x")
    case True
    then show ?thesis using Cons.prems by (intro exI [of _ "[]"] exI [of _ xs]) auto
  next
    case False
    then obtain us vs where "xs = us @ y # vs \<and> P y \<and> (\<forall>x \<in> set us. \<not> P x)" using Cons by auto
    then show ?thesis using False by (intro exI [of _ "x # us"] exI [of _ vs]) auto
  qed
qed simp

text \<open>The two assignments that take a record out of the list.\<close>

definition link_out :: "ExtData \<Rightarrow> ExtData heap \<Rightarrow> ExtData heap" where
  "link_out d h = (let prev = ed_prev d; next = ed_next d;
       h = (if prev \<noteq> 0 then h(prev \<mapsto> (the (h prev))\<lparr>ed_next := next\<rparr>) else h)
     in if next \<noteq> 0 then h(next \<mapsto> (the (h next))\<lparr>ed_prev := prev\<rparr>) else h)"

lemma link_out_unlink:
  "(ed_prev d = 0 \<or> h (ed_prev d) \<noteq> None) \<Longrightarrow> (ed_next d = 0 \<or> h (ed_next d) \<noteq> None) \<Longrightarrow>
    map_option unlink (link_out d h x) = map_option unlink (h x)"
  by (auto simp: link_out_def Let_def)

lemma link_out_list:
  assumes ch: "chain ed_next h l (xs @ p # ys)" and bk: "backlinks h 0 (xs @ p # ys)" and d: "h p = Some d"
  shows "chain ed_next (link_out d h) (if ed_prev d \<noteq> 0 then l else ed_next d) (xs @ ys)"
    and "backlinks (link_out d h) 0 (xs @ ys)"
    and "ed_prev d = (if xs = [] then 0 else last xs)" "ed_next d = (if ys = [] then 0 else hd ys)"
proof -
  have prev: "ed_prev d = (if xs = [] then 0 else last xs)" using bk d by (simp add: backlinks_append)
  have tail: "chain ed_next h (ed_next d) ys" using chain_mid [OF ch] d by auto
  then have nxt: "ed_next d = (if ys = [] then 0 else hd ys)" by (cases ys) auto
  show "ed_prev d = (if xs = [] then 0 else last xs)" "ed_next d = (if ys = [] then 0 else hd ys)"
    using prev nxt by auto
  have dist: "distinct (xs @ p # ys)" by (rule chain_distinct [OF ch])
  have live: "h x \<noteq> None \<and> x \<noteq> 0" if "x \<in> set (xs @ ys)" for x
    using seg_in_heap [OF ch, of x] that by auto
  let ?h = "if ed_prev d \<noteq> 0 then h(ed_prev d \<mapsto> (the (h (ed_prev d)))\<lparr>ed_next := ed_next d\<rparr>) else h"
  have fwd: "chain ed_next ?h (if ed_prev d \<noteq> 0 then l else ed_next d) (xs @ ys)"
  proof (cases xs rule: rev_cases)
    case Nil
    then show ?thesis using prev tail by simp
  next
    case (snoc us u)
    obtain e where e: "h u = Some e" "u \<noteq> 0" using live [of u] snoc by auto
    have "chain ed_next (h(u \<mapsto> e\<lparr>ed_next := ed_next d\<rparr>)) l (us @ u # ys)"
      by (rule var.unlink_next) (use ch snoc e d in auto)
    then show ?thesis using prev snoc e by simp
  qed
  have prevs: "map_option ed_prev (?h x) = map_option ed_prev (h x)" for x
    using live [of "ed_prev d"] prev by (cases "xs = []") auto
  show "chain ed_next (link_out d h) (if ed_prev d \<noteq> 0 then l else ed_next d) (xs @ ys)"
  proof (cases ys)
    case Nil
    then have "link_out d h = ?h" using nxt by (simp add: link_out_def Let_def)
    then show ?thesis using fwd by (simp only:)
  next
    case (Cons v vs)
    then have "?h v \<noteq> None" using live [of v] by auto
    then have "map_option ed_next (link_out d h x) = map_option ed_next (?h x)" for x
      using Cons nxt live [of v] by (auto simp: link_out_def Let_def)
    then show ?thesis using fwd seg_cong_next [of "xs @ ys" ed_next "link_out d h" ?h] by simp
  qed
  have bx: "backlinks ?h 0 xs" "backlinks ?h p ys"
    using bk prevs backlinks_cong [of _ ?h h] by (auto simp: backlinks_append)
  show "backlinks (link_out d h) 0 (xs @ ys)"
  proof (cases ys)
    case Nil
    then have "link_out d h = ?h" using nxt by (simp add: link_out_def Let_def)
    then show ?thesis using bx Nil by (simp only: append_Nil2)
  next
    case (Cons v vs)
    have v: "v \<notin> set xs" "v \<notin> set vs" "v \<noteq> 0" using dist live [of v] Cons by auto
    have "link_out d h = ?h(v \<mapsto> (the (?h v))\<lparr>ed_prev := ed_prev d\<rparr>)"
      using nxt Cons v by (simp add: link_out_def Let_def)
    then show ?thesis using bx v Cons prev by (simp add: backlinks_append backlinks_upd)
  qed
qed

lemma link_out_steps:
  assumes "ed_prev d = 0 \<or> vm_heap s (ed_prev d) \<noteq> None" "ed_next d = 0 \<or> vm_heap s (ed_next d) \<noteq> None"
  shows "\<exists>t. (if ed_prev d \<noteq> 0 then upd (ed_prev d) (\<lambda>e. e\<lparr>ed_next := ed_next d\<rparr>) s
        else Some (s\<lparr>vm_list := ed_next d\<rparr>)) = Some t
    \<and> (if ed_next d \<noteq> 0 then upd (ed_next d) (\<lambda>e. e\<lparr>ed_prev := ed_prev d\<rparr>) t else Some t)
      = Some (s\<lparr>vm_list := (if ed_prev d \<noteq> 0 then vm_list s else ed_next d), vm_heap := link_out d (vm_heap s)\<rparr>)"
proof (cases "ed_prev d = 0")
  case True
  then show ?thesis using assms(2) by (auto simp: upd_def link_out_def Let_def)
next
  case False
  then obtain e where e: "vm_heap s (ed_prev d) = Some e" using assms(1) by auto
  let ?h = "(vm_heap s)(ed_prev d \<mapsto> e\<lparr>ed_next := ed_next d\<rparr>)"
  have "ed_next d = 0 \<or> ?h (ed_next d) \<noteq> None" using assms(2) by auto
  then show ?thesis using False e
    by (intro exI [of _ "s\<lparr>vm_heap := ?h\<rparr>"]) (auto simp: upd_def link_out_def Let_def)
qed

lemma owned_append: "owned (xs @ ys) = owned xs @ owned ys"
  by (simp add: owned_def)

lemma map_nonzero: "set ps - {0} = set (filter (\<lambda>p. p \<noteq> 0) ps)"
  by auto

lemma remove_list:
  assumes vars: "is_vars s ps vs"
  shows "\<exists>s' qs. vVarManage_RemoveNodeWithName (Some nm) s = Some s'
    \<and> is_vars s' qs (drop_first (\<lambda>d. szName d = nm) vs)"
proof -
  let ?h = "vm_heap s" and ?P = "\<lambda>d :: ExtData. szName d = nm"
  have ch: "chain ed_next ?h (vm_list s) ps" and bk: "backlinks ?h 0 ps" and vs: "vals ?h ps = vs"
    using vars by (simp_all add: is_vars_def)
  have get: "GetExtDataWithName (Some nm) s =
      Some (case find (\<lambda>x. nm = szName (the (?h x))) ps of Some x \<Rightarrow> x | None \<Rightarrow> 0)"
    using walk_find_chain [OF ch] by (simp add: GetExtDataWithName_def)
  show ?thesis
  proof (cases "find (\<lambda>x. nm = szName (the (?h x))) ps")
    case None
    then have no: "nm \<noteq> szName (the (?h x))" if "x \<in> set ps" for x using that by (simp add: find_None_iff)
    have "\<forall>d \<in> set vs. \<not> ?P d"
    proof
      fix d assume "d \<in> set vs"
      then obtain x where x: "x \<in> set ps" "d = unlink (the (?h x))" using vs unfolding vals_def by auto
      show "\<not> ?P d" using no [OF x(1)] x(2) by (metis unlink_simps(4))
    qed
    then have "drop_first ?P vs = vs" by (rule drop_first_none)
    then show ?thesis
      using vars get None by (auto simp: vVarManage_RemoveNodeWithName_def intro!: exI [of _ ps])
  next
    case (Some p)
    from find_split [OF Some] obtain xs ys where split: "ps = xs @ p # ys" "nm = szName (the (?h p))"
      "\<forall>x \<in> set xs. nm \<noteq> szName (the (?h x))" by blast
    obtain d where d: "?h p = Some d" "p \<noteq> 0" using seg_in_heap [OF ch, of p] split by auto
    have dist: "p \<notin> set (xs @ ys)" using chain_distinct [OF ch] split by auto
    note out = link_out_list [OF ch [unfolded split(1)] bk [unfolded split(1)] d(1)]
    have live: "?h x \<noteq> None \<and> x \<noteq> 0" if "x \<in> set ps" for x using seg_in_heap [OF ch that] by auto
    have nb: "ed_prev d = 0 \<or> ?h (ed_prev d) \<noteq> None" "ed_next d = 0 \<or> ?h (ed_next d) \<noteq> None"
      using out(3,4) live split by (auto split: if_splits)
    let ?str = "vm_str s |` (- (set (strings d) - {0}))"
    let ?s = "s\<lparr>vm_list := (if ed_prev d \<noteq> 0 then vm_list s else ed_next d), vm_heap := (link_out d ?h)(p := None),
      vm_n := vm_n s - 1, vm_str := ?str\<rparr>"
    have vs_split: "vs = vals ?h xs @ unlink d # vals ?h ys" using vs split d by (simp add: vals_def)
    have dr: "drop_first ?P vs = vals ?h (xs @ ys)"
    proof -
      have "\<forall>x \<in> set (vals ?h xs). \<not> ?P x" using split(3) by (auto simp: vals_def)
      moreover have "?P (unlink d)" using split(2) d by simp
      ultimately show ?thesis
        unfolding vs_split by (simp add: drop_first_split vals_def)
    qed
    have str: "distinct (filter (\<lambda>p. p \<noteq> 0) (strings d))" "set (filter (\<lambda>p. p \<noteq> 0) (strings d)) \<subseteq> dom (vm_str s)"
      and own: "distinct (owned (vals ?h (xs @ ys)))"
        "set (owned (vals ?h (xs @ ys))) \<subseteq> dom (vm_str s) - set (filter (\<lambda>p. p \<noteq> 0) (strings d))"
      using vars by (auto simp: is_vars_def vs_split owned_def vals_def)
    have ne: "link_out d ?h p \<noteq> None"
      using link_out_unlink [OF nb, of p] d by auto
    have rem: "vVarManage_RemoveNodeWithName (Some nm) s = Some (if vm_n s = 1 then ?s\<lparr>vm_list := 0\<rparr> else ?s)"
    proof -
      obtain e where e: "link_out d ?h p = Some e" using ne by auto
      obtain t where t: "(if ed_prev d \<noteq> 0 then upd (ed_prev d) (\<lambda>e. e\<lparr>ed_next := ed_next d\<rparr>) s
            else Some (s\<lparr>vm_list := ed_next d\<rparr>)) = Some t"
        "(if ed_next d \<noteq> 0 then upd (ed_next d) (\<lambda>e. e\<lparr>ed_prev := ed_prev d\<rparr>) t else Some t) =
          Some (s\<lparr>vm_list := (if ed_prev d \<noteq> 0 then vm_list s else ed_next d), vm_heap := link_out d ?h\<rparr>)"
        using link_out_steps [of d s] nb by blast
      show ?thesis
        unfolding vVarManage_RemoveNodeWithName_def get Some option.case bind.bind_lunit Let_def d(1) t
          if_not_P [OF d(2)]
        using str e by (simp add: free_strings_def free_str_run free_data_def)
    qed
    have chain: "chain ed_next (vm_heap ?s) (vm_list ?s) (xs @ ys)"
      using out(1) dist by (simp add: seg_upd)
    have "is_vars ?s (xs @ ys) (vals ?h (xs @ ys))"
    proof -
      have "vals ((link_out d ?h)(p := None)) (xs @ ys) = vals ?h (xs @ ys)"
        using link_out_unlink [OF nb] dist live split by (intro vals_cong [symmetric]) auto
      moreover have "int (length ps) = int (length (xs @ ys)) + 1" using split by simp
      ultimately show ?thesis
        using chain out(2) dist vars own by (auto simp: is_vars_def backlinks_upd)
    qed
    moreover have "is_vars (?s\<lparr>vm_list := 0\<rparr>) (xs @ ys) (vals ?h (xs @ ys))" if "vm_n s = 1"
    proof -
      have "int (length xs) + int (length ys) = 0" using that vars split by (simp add: is_vars_def)
      then have "length xs = 0 \<and> length ys = 0" by linarith
      then have "xs @ ys = []" by simp
      then show ?thesis using calculation by (simp add: is_vars_def)
    qed
    ultimately show ?thesis unfolding dr rem by (cases "vm_n s = 1") auto
  qed
qed

section \<open>The flags of the registers\<close>

lemma length_flag_fold: "length (fold (flag_reg d) is flags) = length flags"
  by (induction "is" arbitrary: flags) (auto simp: flag_reg_def Let_def)

lemma flag_reg_nth:
  assumes "EXT_DATA_REG_CHECK a" "length flags = USER_REG_EXT_DATA_SIZE"
  shows "flag_reg d i flags ! (a - USER_REG_EXT_DATA_START) =
    (flags ! (a - USER_REG_EXT_DATA_START) \<or> a = unat (usAddr d) + i)"
proof -
  let ?b = "unat (usAddr d) + i"
  have "?b - 1024 = a - 1024 \<longleftrightarrow> ?b = a" if "1024 \<le> ?b" using that assms(1) by (auto simp: reg_defs)
  then show ?thesis
    using assms by (auto simp: flag_reg_def Let_def reg_defs nth_list_update)
qed

lemma nth_flag_fold:
  assumes "EXT_DATA_REG_CHECK a" "length flags = USER_REG_EXT_DATA_SIZE"
  shows "fold (flag_reg d) is flags ! (a - USER_REG_EXT_DATA_START) =
    (flags ! (a - USER_REG_EXT_DATA_START) \<or> (\<exists>i \<in> set is. a = unat (usAddr d) + i))"
  using assms(2)
proof (induction "is" arbitrary: flags)
  case (Cons i "is")
  have "length (flag_reg d i flags) = USER_REG_EXT_DATA_SIZE" using Cons.prems by (simp add: flag_reg_def Let_def)
  from Cons.IH [OF this] show ?case
    using flag_reg_nth [OF assms(1) Cons.prems] by auto
qed simp

text \<open>A register is flagged when an enabled variable takes it.\<close>

definition covers :: "ExtData \<Rightarrow> nat \<Rightarrow> bool" where
  "covers d a = (bEnable d \<and> unat (usAddr d) \<le> a \<and> a < unat (usAddr d) + var_regs d)"

lemma covers_unlink [simp]: "covers (unlink d) a = covers d a"
  by (simp add: covers_def)

lemma flag_node_nth:
  assumes "EXT_DATA_REG_CHECK a" "length flags = USER_REG_EXT_DATA_SIZE"
  shows "flag_node d flags ! (a - USER_REG_EXT_DATA_START) =
      (flags ! (a - USER_REG_EXT_DATA_START) \<or> covers d a)"
    and "length (flag_node d flags) = USER_REG_EXT_DATA_SIZE"
proof -
  have "(\<exists>i \<in> {0..<var_regs d}. a = unat (usAddr d) + i) =
      (unat (usAddr d) \<le> a \<and> a < unat (usAddr d) + var_regs d)"
    by (auto intro: bexI [of _ "a - unat (usAddr d)"])
  then show "flag_node d flags ! (a - USER_REG_EXT_DATA_START) =
      (flags ! (a - USER_REG_EXT_DATA_START) \<or> covers d a)"
    using nth_flag_fold [OF assms, of d "[0..<var_regs d]"] by (auto simp: flag_node_def covers_def)
  show "length (flag_node d flags) = USER_REG_EXT_DATA_SIZE"
    using assms(2) by (simp add: flag_node_def length_flag_fold)
qed

lemma flag_nodes:
  assumes "length flags = USER_REG_EXT_DATA_SIZE"
  shows "length (fold flag_node ds flags) = USER_REG_EXT_DATA_SIZE"
    and "EXT_DATA_REG_CHECK a \<Longrightarrow> fold flag_node ds flags ! (a - USER_REG_EXT_DATA_START) =
      (flags ! (a - USER_REG_EXT_DATA_START) \<or> (\<exists>d \<in> set ds. covers d a))"
  using assms
proof (induction ds arbitrary: flags)
  case (Cons d ds)
  {
    case 1
    have "length (flag_node d flags) = USER_REG_EXT_DATA_SIZE"
      using 1 by (simp add: flag_node_def length_flag_fold)
    then show ?case using Cons.IH(1) by simp
  next
    case 2
    note fl = flag_node_nth [OF 2]
    show ?case using Cons.IH(2) [OF 2(1) fl(2)] fl(1) by auto
  }
qed simp_all

lemma flag_node_unlink: "flag_node (unlink d) = flag_node d"
proof -
  have *: "flag_reg (unlink d) = flag_reg d" by (intro ext) (simp add: flag_reg_def)
  show ?thesis by (intro ext) (simp add: flag_node_def *)
qed

lemma RefreshRegsFlag_list:
  assumes "chain ed_next (vm_heap s) (vm_list s) ps"
  shows "RefreshRegsFlag s = Some (s\<lparr>vm_flags := fold flag_node (vals (vm_heap s) ps)
      (replicate USER_REG_EXT_DATA_SIZE False)\<rparr>)"
proof -
  let ?h = "vm_heap s" and ?f = "\<lambda>p flags. flag_node (the (vm_heap s p)) flags"
  let ?step = "\<lambda>p flags. map_option (\<lambda>d. flag_node d flags) (?h p)"
  have "runM ?step qs flags = Some (fold ?f qs flags)" if "set qs \<subseteq> set ps" for qs flags
    using that
  proof (induction qs arbitrary: flags)
    case (Cons q qs)
    then obtain d where "?h q = Some d" using seg_in_heap [OF assms, of q] by auto
    then show ?case using Cons by simp
  qed simp
  note this [OF subset_refl]
  then have "walk ed_next (\<lambda>_. ?h) ?step (vm_list s) (replicate USER_REG_EXT_DATA_SIZE False) =
      Some (fold ?f ps (replicate USER_REG_EXT_DATA_SIZE False))"
    unfolding walk_const [OF assms] .
  moreover have "fold ?f ps = fold flag_node (vals ?h ps)"
    by (induction ps) (simp_all add: vals_def flag_node_unlink)
  ultimately show ?thesis by (simp add: RefreshRegsFlag_def)
qed

lemma check_cont_iff:
  "check_cont flags a n = (\<forall>k < unat n. EXT_DATA_REG_CHECK (unat a + k)
     \<and> flags ! (unat a + k - USER_REG_EXT_DATA_START))"
proof (induction flags a n rule: check_cont.induct)
  case (1 flags a n)
  show ?case
  proof (cases "n = 0")
    case True
    then show ?thesis by (simp add: check_cont.simps)
  next
    case False
    then obtain m where m: "unat n = Suc m" "unat (n - 1) = m"
      by (metis not0_implies_Suc unat_eq_zero unat_minus_one diff_Suc_1)
    have all: "(\<forall>k < Suc m. P (unat a + k)) = (P (unat a) \<and> (\<forall>k < m. P (unat a + 1 + k)))" for P
      by (auto simp: less_Suc_eq_0_disj)
    show ?thesis
    proof (cases "EXT_DATA_REG_CHECK (unat a) \<and> flags ! (unat a - USER_REG_EXT_DATA_START)")
      case True
      then have "unat (a + 1) = unat a + 1"
        using unat_word_ariths(1) [of a 1] by (simp add: reg_defs)
      then show ?thesis
        using 1 False True m all [of "\<lambda>x. EXT_DATA_REG_CHECK x \<and> flags ! (x - USER_REG_EXT_DATA_START)"]
        by (subst check_cont.simps) simp
    next
      case no: False
      then show ?thesis using False m by (subst check_cont.simps) auto
    qed
  qed
qed

section \<open>Sorting\<close>

lemma backlinks_live:
  "backlinks h q ps \<Longrightarrow> u \<in> set ps \<Longrightarrow> \<exists>t. h u = Some t \<and> (ed_prev t = q \<or> ed_prev t \<in> set ps)"
  by (induction ps arbitrary: q) auto

text \<open>The inner loop finds no place for a record that is greater than all before it.\<close>

lemma sort_place_none:
  assumes "seg ed_next h tmp us n" "n \<notin> set us" "h n = Some nd"
    "\<forall>u \<in> set us. \<exists>t. h u = Some t \<and> usAddr t < usAddr nd \<and> (ed_prev t = 0 \<or> h (ed_prev t) \<noteq> None)"
  shows "sort_place h n tmp = Some 0"
  using assms
proof (induction us arbitrary: tmp)
  case Nil
  then show ?case by (subst sort_place.simps) simp
next
  case (Cons u us)
  then obtain t where t: "h u = Some t" "usAddr t < usAddr nd" "ed_prev t = 0 \<or> h (ed_prev t) \<noteq> None"
    by auto
  have u: "u = tmp" "tmp \<noteq> n" "seg ed_next h (ed_next t) us n" using Cons.prems t(1) by auto
  have "sort_place h n (ed_next t) = Some 0" using Cons.IH [OF u(3)] Cons.prems by simp
  then show ?case
    using t u Cons.prems(3) by (subst sort_place.simps) (auto simp: not_le)
qed

lemma sort_walk_ascending:
  assumes ch: "chain ed_next (vm_heap s) (vm_list s) (xs @ ys)" and bk: "backlinks (vm_heap s) 0 (xs @ ys)"
    and asc: "sorted_wrt (\<lambda>p q. usAddr (the (vm_heap s p)) < usAddr (the (vm_heap s q))) (xs @ ys)"
    and "seg ed_next (vm_heap s) (vm_list s) xs node" "chain ed_next (vm_heap s) node ys"
  shows "sort_walk node s = Some s"
  using assms
proof (induction ys arbitrary: xs node)
  case Nil
  then show ?case by (subst sort_walk.simps) simp
next
  case (Cons y ys)
  let ?h = "vm_heap s"
  obtain d where d: "?h y = Some d" "y = node" "node \<noteq> 0" "chain ed_next ?h (ed_next d) ys"
    using Cons.prems(5) by (auto split: option.splits)
  have seg: "seg ed_next ?h (vm_list s) (xs @ [y]) (ed_next d)"
    using Cons.prems(4) d by (auto simp: seg_append)
  have rest: "sort_walk (ed_next d) s = Some s"
    using Cons.IH [of "xs @ [y]", OF _ _ _ seg d(4)] Cons.prems(1-3) by simp
  show ?case
  proof (cases ys)
    case Nil
    then have "ed_next d = 0" using d by simp
    then show ?thesis using d rest by (subst sort_walk.simps) simp
  next
    case (Cons n zs)
    then have n: "n = ed_next d" "ed_next d \<noteq> 0" using d(4) by auto
    obtain nd where nd: "?h n = Some nd" using seg_in_heap [OF d(4), of n] Cons by auto
    have "n \<notin> set (xs @ [y])" using chain_distinct [OF Cons.prems(1)] Cons by auto
    moreover have "\<exists>t. ?h u = Some t \<and> usAddr t < usAddr nd \<and> (ed_prev t = 0 \<or> ?h (ed_prev t) \<noteq> None)"
      if "u \<in> set (xs @ [y])" for u
    proof -
      have u: "u \<in> set (xs @ y # ys)" using that by auto
      obtain t where t: "?h u = Some t" "ed_prev t = 0 \<or> ed_prev t \<in> set (xs @ y # ys)"
        using backlinks_live [OF Cons.prems(2) u] by auto
      have "usAddr (the (?h u)) < usAddr (the (?h n))"
        using Cons.prems(3) that Cons by (auto simp: sorted_wrt_append)
      then show ?thesis using t nd seg_in_heap [OF Cons.prems(1)] by auto
    qed
    ultimately have "sort_place ?h n (vm_list s) = Some 0"
      using sort_place_none [of ?h "vm_list s" "xs @ [y]" n nd] seg n nd by blast
    then show ?thesis using d n rest by (subst sort_walk.simps) simp
  qed
qed

lemma sorted_vals:
  "sorted_wrt (\<lambda>d e. usAddr d < usAddr e) (vals h ps) =
     sorted_wrt (\<lambda>p q. usAddr (the (h p)) < usAddr (the (h q))) ps"
  by (simp add: vals_def sorted_wrt_map)

text \<open>A variable that takes one register and has the default values otherwise.\<close>

definition plain_var :: "u16 \<Rightarrow> ptr \<Rightarrow> ptr \<Rightarrow> ExtData" where
  "plain_var a nxt prv = \<lparr>bEnable = True, szName = [ucast a], btVarType = 4, btVarSize = 2,
     xValue = replicate 8 0, usDevType = 0, usDevNum = 0, usProtoType = 0, szProtoName = 0, usAddr = a,
     btErrOp = 0, btErrCnt = 0, btErrNum = 0, io_param = modbus_param 3 0 1 a 0, szExp = 0,
     up_bEnable = False, szNid = 0, szFid = 0, szUnit = 0, up_usDevType = 0, up_usDevNum = 0,
     up_usProtoType = 0, up_szProtoName = 0, szDesc = 0, ed_next = nxt, ed_prev = prv\<rparr>"

definition vars_of :: "ExtData heap \<Rightarrow> ptr \<Rightarrow> int \<Rightarrow> varmanage" where
  "vars_of h p n = \<lparr>vm_n = n, vm_list = p, vm_heap = h, vm_str = Map.empty,
     vm_regs = replicate USER_REG_EXT_DATA_SIZE 0, vm_flags = replicate USER_REG_EXT_DATA_SIZE False,
     vm_alloc = []\<rparr>"

lemma plain_var_simps [simp]:
  "ed_next (plain_var a n p) = n" "ed_prev (plain_var a n p) = p" "usAddr (plain_var a n p) = a"
  "(plain_var a n p)\<lparr>ed_next := m\<rparr> = plain_var a m p" "(plain_var a n p)\<lparr>ed_prev := m\<rparr> = plain_var a n m"
  by (simp_all add: plain_var_def)

lemma vars_of_simps [simp]:
  "vm_list (vars_of h p n) = p" "vm_heap (vars_of h p n) = h"
  "(vars_of h p n)\<lparr>vm_heap := h'\<rparr> = vars_of h' p n" "(vars_of h p n)\<lparr>vm_list := q\<rparr> = vars_of h q n"
  by (simp_all add: vars_of_def)

lemmas sort_steps = sort_walk.simps [of 0] sort_walk.simps [of "numeral k" for k]
  sort_place.simps [of _ "numeral k" "numeral j" for k j] sort_move_def upd_def

text \<open>
  Sorting four variables with the registers 1026, 1025, 1028 and 1027 loses one: the list ends
  with three, 1026 is no longer among them, and the counter still says four.
\<close>

lemma sort_loses_a_variable:
  "\<exists>s. sort_extdata_link (vars_of
     [16 \<mapsto> plain_var 1026 17 0, 17 \<mapsto> plain_var 1025 18 16, 18 \<mapsto> plain_var 1028 19 17,
      19 \<mapsto> plain_var 1027 0 18] 16 4) = Some s
   \<and> chain ed_next (vm_heap s) (vm_list s) [17, 19, 18] \<and> vm_n s = 4"
  by (simp add: sort_extdata_link_def sort_steps) (simp add: vars_of_def)

section \<open>Properties\<close>

lemma is_vars_two:
  "is_vars (vars_of [16 \<mapsto> plain_var 1024 17 0, 17 \<mapsto> plain_var 1025 0 16, 18 \<mapsto> plain_var 1030 0 0] 16 2)
     [16, 17] [plain_var 1024 0 0, plain_var 1025 0 0]"
  by (simp add: is_vars_def vars_of_def vals_def unlink_def owned_def strings_def plain_var_def)

text \<open>
  C18. Insertion and removal on the doubly linked heap list are the operations of a list of
  variables. A record that is not in the list is linked behind the last one; the first
  variable of a given name is taken out, its record and its strings are freed, and a name that
  is not there changes nothing. Both keep the links in order and the counter right.
\<close>

theorem var_list_refines:
  assumes "is_vars s ps vs"
  shows "(\<forall>data d. vm_heap s data = Some d \<and> data \<noteq> 0 \<and> data \<notin> set ps \<and> ed_next d = 0 \<and> ed_prev d = 0
      \<and> distinct (owned (vs @ [d])) \<and> set (owned [d]) \<subseteq> dom (vm_str s) \<longrightarrow>
      (\<exists>s'. vVarManage_InsertNode data s = Some s' \<and> is_vars s' (ps @ [data]) (vs @ [d])))
    \<and> (\<forall>nm. \<exists>s' qs. vVarManage_RemoveNodeWithName (Some nm) s = Some s'
      \<and> is_vars s' qs (drop_first (\<lambda>d. szName d = nm) vs))"
  using insert_list [OF assms] remove_list [OF assms] by blast

theorem var_list_refines_witness:
  "(\<exists>s'. vVarManage_InsertNode 18 (vars_of [16 \<mapsto> plain_var 1024 17 0, 17 \<mapsto> plain_var 1025 0 16,
       18 \<mapsto> plain_var 1030 0 0] 16 2) = Some s'
     \<and> is_vars s' [16, 17, 18] [plain_var 1024 0 0, plain_var 1025 0 0, plain_var 1030 0 0])
   \<and> (\<exists>s' qs. vVarManage_RemoveNodeWithName (Some [0]) (vars_of [16 \<mapsto> plain_var 1024 17 0,
       17 \<mapsto> plain_var 1025 0 16, 18 \<mapsto> plain_var 1030 0 0] 16 2) = Some s'
     \<and> is_vars s' qs [plain_var 1025 0 0])"
proof -
  note t = var_list_refines [OF is_vars_two]
  have "distinct (owned ([plain_var 1024 0 0, plain_var 1025 0 0] @ [plain_var 1030 0 0]))"
    "owned [plain_var 1030 0 0] = []"
    by (simp_all add: owned_def strings_def plain_var_def)
  then have a: "\<exists>s'. vVarManage_InsertNode 18 (vars_of [16 \<mapsto> plain_var 1024 17 0, 17 \<mapsto> plain_var 1025 0 16,
       18 \<mapsto> plain_var 1030 0 0] 16 2) = Some s'
     \<and> is_vars s' [16, 17, 18] [plain_var 1024 0 0, plain_var 1025 0 0, plain_var 1030 0 0]"
    using conjunct1 [OF t, rule_format, of 18 "plain_var 1030 0 0"] by simp
  have "drop_first (\<lambda>d. szName d = [0]) [plain_var 1024 0 0, plain_var 1025 0 0] = [plain_var 1025 0 0]"
    by (simp add: drop_first_def plain_var_def)
  then show ?thesis using a conjunct2 [OF t, rule_format, of "[0]"] by simp
qed

text \<open>
  After the flags have been set from the list, the test of a range of registers, which
  guards the Modbus access to the variables, accepts exactly the ranges all of whose registers
  lie in the map of the variables (1024 to 2047) and belong to an enabled variable each.
\<close>

theorem check_cont_addr:
  assumes "is_vars s ps vs"
  shows "\<exists>s'. RefreshRegsFlag s = Some s' \<and>
    bVarManage_CheckContAddr a n s' = (\<forall>k < unat n. 1024 \<le> unat a + k \<and> unat a + k \<le> 2047 \<and>
      (\<exists>d \<in> set vs. bEnable d \<and> unat (usAddr d) \<le> unat a + k \<and> unat a + k < unat (usAddr d) + var_regs d))"
proof -
  let ?f = "replicate USER_REG_EXT_DATA_SIZE False"
  have "RefreshRegsFlag s = Some (s\<lparr>vm_flags := fold flag_node vs ?f\<rparr>)"
    using RefreshRegsFlag_list assms by (auto simp: is_vars_def)
  moreover have "(EXT_DATA_REG_CHECK x \<and> fold flag_node vs ?f ! (x - USER_REG_EXT_DATA_START)) =
      (1024 \<le> x \<and> x \<le> 2047 \<and> (\<exists>d \<in> set vs. bEnable d \<and> unat (usAddr d) \<le> x \<and> x < unat (usAddr d) + var_regs d))"
    for x
  proof (cases "EXT_DATA_REG_CHECK x")
    case True
    then have "\<not> ?f ! (x - USER_REG_EXT_DATA_START)" by (auto simp: reg_defs)
    then show ?thesis
      using True flag_nodes(2) [of ?f x vs] by (simp add: covers_def) (simp add: reg_defs)
  qed (auto simp: reg_defs)
  ultimately show ?thesis by (simp add: bVarManage_CheckContAddr_def check_cont_iff)
qed

theorem check_cont_addr_witness:
  "\<exists>s'. RefreshRegsFlag (vars_of [16 \<mapsto> plain_var 1024 17 0, 17 \<mapsto> plain_var 1025 0 16,
      18 \<mapsto> plain_var 1030 0 0] 16 2) = Some s' \<and> \<not> bVarManage_CheckContAddr 1024 3 s'"
proof -
  let ?in = "\<lambda>k. 1024 \<le> unat (1024 :: u16) + k \<and> unat (1024 :: u16) + k \<le> 2047 \<and>
      (\<exists>d \<in> set [plain_var 1024 0 0, plain_var 1025 0 0]. bEnable d \<and>
      unat (usAddr d) \<le> unat (1024 :: u16) + k \<and> unat (1024 :: u16) + k < unat (usAddr d) + var_regs d)"
  have "\<not> ?in 2"
    by (simp add: var_regs_def) (simp add: plain_var_def)
  moreover have "(2 :: nat) < unat (3 :: u16)" by simp
  ultimately have "\<not> (\<forall>k < unat (3 :: u16). ?in k)" by blast
  then show ?thesis using check_cont_addr [OF is_vars_two, of 1024 3] by metis
qed

text \<open>
  A list whose variables stand in ascending order of their registers, no two at the same,
  is left exactly as it is by sorting.
\<close>

theorem sort_keeps_ascending:
  assumes "is_vars s ps vs" and "sorted_wrt (\<lambda>d e. usAddr d < usAddr e) vs"
  shows "sort_extdata_link s = Some s"
proof -
  have "chain ed_next (vm_heap s) (vm_list s) ps" "backlinks (vm_heap s) 0 ps"
    "sorted_wrt (\<lambda>p q. usAddr (the (vm_heap s p)) < usAddr (the (vm_heap s q))) ps"
    using assms by (auto simp: is_vars_def sorted_vals [symmetric])
  then show ?thesis
    using sort_walk_ascending [of s "[]" ps] by (simp add: sort_extdata_link_def)
qed

theorem sort_keeps_ascending_witness:
  "sort_extdata_link (vars_of [16 \<mapsto> plain_var 1024 17 0, 17 \<mapsto> plain_var 1025 0 16,
     18 \<mapsto> plain_var 1030 0 0] 16 2) =
   Some (vars_of [16 \<mapsto> plain_var 1024 17 0, 17 \<mapsto> plain_var 1025 0 16, 18 \<mapsto> plain_var 1030 0 0] 16 2)"
  by (rule sort_keeps_ascending [OF is_vars_two]) simp

end
