(* ===== verification/VarUp.thy ===== *)
theory VarUp
  imports VarList
begin

text \<open>
  What the protocols that report upwards use of the variables (\<open>drivers/varmanage/varmanage.c\<close>):
  the value of a variable as a number, its averages, and the walk over the variables that are
  assigned to one link.

  Floating point is that of the processor and of the C library: numbers are bit patterns, and
  the record \<open>fpu\<close> holds the operations the code uses on them.

  Shown: the search for the next variable of a link visits the variables of the list that match,
  in its order (\<open>up_next_list\<close>, \<open>up_at_step\<close>).
\<close>

unbundle bit_operations_syntax

section \<open>Values and averages\<close>

type_synonym u64 = "64 word"

text \<open>
  Conversions from integers and between \<open>float\<close> and \<open>double\<close>, arithmetic and comparison on
  \<open>double\<close>, and the text \<open>sprintf\<close> makes of a \<open>double\<close> with \<open>%.4f\<close>.
\<close>

record fpu =
  fp_int :: "int \<Rightarrow> u64"
  fp_widen :: "u32 \<Rightarrow> u64"
  fp_narrow :: "u64 \<Rightarrow> u32"
  fp_add :: "u64 \<Rightarrow> u64 \<Rightarrow> u64"
  fp_div :: "u64 \<Rightarrow> u64 \<Rightarrow> u64"
  fp_less :: "u64 \<Rightarrow> u64 \<Rightarrow> bool"
  fp_text :: "u64 \<Rightarrow> byte list"

definition le64 :: "byte list \<Rightarrow> u64" where
  "le64 v = ucast (le32 (v ! 0) (v ! 1) (v ! 2) (v ! 3))
     OR push_bit 32 (ucast (le32 (v ! 4) (v ! 5) (v ! 6) (v ! 7)))"

text \<open>\<open>__GetExtValue\<close>: a value of type \<open>E_VAR_ARRAY\<close> is not a number.\<close>

definition GetExtValue :: "fpu \<Rightarrow> byte \<Rightarrow> byte list \<Rightarrow> u64 option" where
  "GetExtValue fp type v =
     (if type = 0 then Some (fp_int fp (uint (v ! 0)))
      else if type = 1 then Some (fp_int fp (sint (v ! 0)))
      else if type = 2 then Some (fp_int fp (uint (v ! 0)))
      else if type = 3 then Some (fp_int fp (sint (le16 (v ! 0) (v ! 1))))
      else if type = 4 then Some (fp_int fp (uint (le16 (v ! 0) (v ! 1))))
      else if type = 5 then Some (fp_int fp (sint (le32 (v ! 0) (v ! 1) (v ! 2) (v ! 3))))
      else if type = 6 then Some (fp_int fp (uint (le32 (v ! 0) (v ! 1) (v ! 2) (v ! 3))))
      else if type = 7 then Some (fp_widen fp (le32 (v ! 0) (v ! 1) (v ! 2) (v ! 3)))
      else if type = 8 then Some (le64 v)
      else None)"

text \<open>The result and the value behind the pointer, which keeps \<open>v\<close> where nothing is stored.\<close>

definition bVarManage_GetExtValue :: "fpu \<Rightarrow> ExtData option \<Rightarrow> u64 \<Rightarrow> bool \<times> u64" where
  "bVarManage_GetExtValue fp data v = (case data of
      None \<Rightarrow> (True, v)
    | Some d \<Rightarrow> (case GetExtValue fp (btVarType d) (xValue d) of
        None \<Rightarrow> (False, v)
      | Some w \<Rightarrow> (True, w)))"

record VarAvg =
  va_time :: u32
  va_count :: u32
  va_avg :: u64
  va_cur :: u32
  va_min :: u32
  va_max :: u32

definition bVarManage_UpdateAvgValue :: "fpu \<Rightarrow> u64 \<Rightarrow> VarAvg \<Rightarrow> VarAvg" where
  "bVarManage_UpdateAvgValue fp value a =
     (let a = a\<lparr>va_avg := fp_add fp (va_avg a) value, va_cur := fp_narrow fp value,
                va_count := va_count a + 1\<rparr>
      in if va_count a = 1 then a\<lparr>va_min := fp_narrow fp value, va_max := fp_narrow fp value\<rparr>
      else
        let a = (if fp_less fp value (fp_widen fp (va_min a)) then a\<lparr>va_min := fp_narrow fp value\<rparr> else a)
        in (if fp_less fp (fp_widen fp (va_max a)) value then a\<lparr>va_max := fp_narrow fp value\<rparr> else a))"

text \<open>The averages of \<open>ExtDataUp_t\<close> that the reports use.\<close>

record ext_avg =
  xAvgUp :: VarAvg
  xAvgMin :: VarAvg
  xAvgHour :: VarAvg

datatype avg_kind = Avg_Up | Avg_Min | Avg_Hour

fun avg_get :: "avg_kind \<Rightarrow> ext_avg \<Rightarrow> VarAvg" where
  "avg_get Avg_Up x = xAvgUp x"
| "avg_get Avg_Min x = xAvgMin x"
| "avg_get Avg_Hour x = xAvgHour x"

fun avg_set :: "avg_kind \<Rightarrow> VarAvg \<Rightarrow> ext_avg \<Rightarrow> ext_avg" where
  "avg_set Avg_Up a x = x\<lparr>xAvgUp := a\<rparr>"
| "avg_set Avg_Min a x = x\<lparr>xAvgMin := a\<rparr>"
| "avg_set Avg_Hour a x = x\<lparr>xAvgHour := a\<rparr>"

definition avg_reset :: "u32 \<Rightarrow> VarAvg \<Rightarrow> VarAvg" where
  "avg_reset t a = a\<lparr>va_avg := 0, va_min := 0, va_max := 0, va_count := 0, va_time := t\<rparr>"

lemma avg_get_set [simp]: "avg_get k (avg_set j a x) = (if k = j then a else avg_get k x)"
  by (cases k; cases j) simp_all

section \<open>The variables of a link\<close>

definition BOARD_ENET_TCPIP_NUM :: nat where "BOARD_ENET_TCPIP_NUM = 4"
definition BOARD_TCPIP_MAX :: nat where "BOARD_TCPIP_MAX = 8"
definition PROTO_DEV_NET_TYPE :: "nat \<Rightarrow> u16" where
  "PROTO_DEV_NET_TYPE n = word_of_int (if n < BOARD_ENET_TCPIP_NUM then PROTO_DEV_NET else PROTO_DEV_GPRS)"

definition rt_tick_from_millisecond :: "u32 \<Rightarrow> u32" where
  "rt_tick_from_millisecond ms = (RT_TICK_PER_SECOND * ms + 999) div 1000"

text \<open>The next variable of the link \<open>index\<close> behind \<open>p\<close>.\<close>

definition up_next :: "u16 \<Rightarrow> nat \<Rightarrow> ptr \<Rightarrow> varmanage \<Rightarrow> ptr option" where
  "up_next proto index p s = pVarManage_GetExtDataWithUpProto p (PROTO_DEV_NET_TYPE index) (word_of_nat index)
     proto s"

definition up_match :: "u16 \<Rightarrow> nat \<Rightarrow> ExtData \<Rightarrow> bool" where
  "up_match proto index d = (bEnable d \<and> up_bEnable d \<and> up_usDevType d = PROTO_DEV_NET_TYPE index
     \<and> up_usDevNum d = word_of_nat index \<and> up_usProtoType d = proto)"

definition up_nodes :: "u16 \<Rightarrow> nat \<Rightarrow> varmanage \<Rightarrow> ptr list \<Rightarrow> ptr list" where
  "up_nodes proto index s ps = filter (\<lambda>p. up_match proto index (the (vm_heap s p))) ps"

text \<open>The list of the variables is \<open>us @ vs\<close>, and the walk goes on behind \<open>us\<close>.\<close>

definition up_at :: "varmanage \<Rightarrow> ptr \<Rightarrow> ptr list \<Rightarrow> ptr list \<Rightarrow> bool" where
  "up_at s p us vs = (chain ed_next (vm_heap s) (vm_list s) (us @ vs) \<and> p = (if us = [] then 0 else last us))"

lemma up_next_list:
  assumes "up_at s p us vs"
  shows "up_next proto index p s = Some (case up_nodes proto index s vs of [] \<Rightarrow> 0 | q # _ \<Rightarrow> q)"
proof -
  let ?h = "vm_heap s"
  have find: "(case find f xs of None \<Rightarrow> 0 | Some x \<Rightarrow> x) = (case filter f xs of [] \<Rightarrow> 0 | q # _ \<Rightarrow> q)"
    for f and xs :: "ptr list"
    by (induction xs) simp_all
  have P: "(\<lambda>d. bEnable d \<and> up_bEnable d \<and> PROTO_DEV_NET_TYPE index = up_usDevType d
      \<and> word_of_nat index = up_usDevNum d \<and> proto = up_usProtoType d) = up_match proto index"
    by (rule ext) (auto simp: up_match_def)
  have c: "chain ed_next ?h (vm_list s) (us @ vs)" and p: "p = (if us = [] then 0 else last us)"
    using assms by (simp_all add: up_at_def)
  show ?thesis
  proof (cases "vm_list s = 0")
    case True
    with c have "us @ vs = []" by simp
    with True show ?thesis by (simp add: up_next_def pVarManage_GetExtDataWithUpProto_def up_nodes_def)
  next
    case False
    have "\<exists>q. (if p \<noteq> 0 then map_option ed_next (?h p) else Some (vm_list s)) = Some q
        \<and> chain ed_next ?h q vs"
    proof (cases us rule: rev_cases)
      case Nil
      with c p show ?thesis by simp
    next
      case (snoc ts t)
      with c have "chain ed_next ?h (vm_list s) (ts @ t # vs)" by simp
      then obtain d where "?h t = Some d" "chain ed_next ?h (ed_next d) vs"
        by (blast dest: chain_mid)
      moreover have "t \<noteq> 0" using seg_in_heap [OF c, of t] snoc by simp
      ultimately show ?thesis using p snoc by simp
    qed
    then obtain q where q: "(if p \<noteq> 0 then map_option ed_next (?h p) else Some (vm_list s)) = Some q"
      "chain ed_next ?h q vs" by blast
    from q(1) False show ?thesis
      by (simp add: up_next_def pVarManage_GetExtDataWithUpProto_def P walk_find_chain [OF q(2)]
        up_nodes_def find del: if_split_asm)
  qed
qed

lemma up_at_step:
  assumes "up_at s p us vs" "up_nodes proto index s vs = q # zs"
  obtains ws where "up_at s q (us @ takeWhile (\<lambda>x. x \<noteq> q) vs @ [q]) ws" "zs = up_nodes proto index s ws"
    "vs = takeWhile (\<lambda>x. x \<noteq> q) vs @ q # ws"
proof -
  from assms(2) obtain xs ws where v: "vs = xs @ q # ws" "zs = up_nodes proto index s ws"
    "\<forall>x \<in> set xs. \<not> up_match proto index (the (vm_heap s x))" "up_match proto index (the (vm_heap s q))"
    unfolding up_nodes_def by (auto simp: filter_eq_Cons_iff)
  then have "q \<notin> set xs" by auto
  then have t: "takeWhile (\<lambda>x. x \<noteq> q) vs = xs"
    using v(1) by (subst v(1), subst takeWhile_append2) auto
  have "up_at s q (us @ xs @ [q]) ws" using assms(1) v(1) by (simp add: up_at_def)
  with v t show ?thesis by (intro that) simp_all
qed

lemma up_at_next:
  assumes "up_at s p us vs" "up_nodes proto index s vs = q # zs"
  shows "q \<noteq> 0"
proof -
  from assms(2) have "q \<in> set vs" by (metis up_nodes_def filter_is_subset list.set_intros(1) subsetD)
  with assms(1) show ?thesis unfolding up_at_def by (metis seg_in_heap Un_iff set_append)
qed

text \<open>
  The loops over the variables of a link: \<open>step\<close> is their body, \<open>vm\<close> says where the variables are
  in the state. A step that leaves the list alone makes the loop a run over its matching variables.
\<close>

partial_function (option) up_loop ::
  "('s \<Rightarrow> varmanage) \<Rightarrow> u16 \<Rightarrow> nat \<Rightarrow> (ptr \<Rightarrow> 's \<Rightarrow> 's option) \<Rightarrow> ptr \<Rightarrow> 's \<Rightarrow> 's option" where
  "up_loop vm proto index step p s = do {
     q \<leftarrow> up_next proto index p (vm s);
     if q = 0 then Some s else do { s \<leftarrow> step q s; up_loop vm proto index step q s } }"

lemma up_loop_list:
  assumes "\<And>q s s'. step q s = Some s' \<Longrightarrow> vm s' = vm s" "up_at (vm s) p us vs"
  shows "up_loop vm proto index step p s = runM step (up_nodes proto index (vm s) vs) s"
  using assms(2)
proof (induction "length vs" arbitrary: p us vs s rule: less_induct)
  case less
  note nx = up_next_list [OF less.prems, of proto index]
  show ?case
  proof (cases "up_nodes proto index (vm s) vs")
    case Nil
    with nx show ?thesis by (subst up_loop.simps) simp
  next
    case (Cons q zs)
    have q: "q \<noteq> 0" using up_at_next [OF less.prems Cons] .
    obtain ws where w: "up_at (vm s) q (us @ takeWhile (\<lambda>x. x \<noteq> q) vs @ [q]) ws"
      "zs = up_nodes proto index (vm s) ws" "vs = takeWhile (\<lambda>x. x \<noteq> q) vs @ q # ws"
      using up_at_step [OF less.prems Cons] .
    have l: "length ws < length vs" by (subst w(3)) simp
    show ?thesis
    proof (cases "step q s")
      case None
      then show ?thesis using nx Cons q by (subst up_loop.simps) simp
    next
      case (Some s')
      have v: "vm s' = vm s" using assms(1) [OF Some] .
      have "up_loop vm proto index step q s' = runM step zs s'"
        using less.hyps [OF l, of s' q] w(1,2) v by simp
      then show ?thesis using Some nx Cons q by (subst up_loop.simps) simp
    qed
  qed
qed

end
