(* ===== verification/Hjt212_Report.thy ===== *)
theory Hjt212_Report
  imports Hjt212_Cmd VarUp
begin

text \<open>
  The cyclic reports of the HJ/T 212 link (\<open>sdccp/hjt212.c\<close>): the text of one variable, and the functions that
  collect the variables of one node identifier into a frame, \<open>hjt212_report_real_data\<close>,
  \<open>hjt212_report_minutes_data\<close> and \<open>hjt212_report_hour_data\<close>. These three are one text with
  another average, period and command; \<open>avg_kind\<close> says which.

  Shown: the report on the heap is a walk over the list of the variables of the link
  (\<open>report_loop_list\<close>).
\<close>

unbundle bit_operations_syntax

section \<open>The text of a variable\<close>

definition FLAG_N :: byte where "FLAG_N = 0x4e"
definition FLAG_DISABLE :: byte where "FLAG_DISABLE = 254"

text \<open>\<open>strcat\<close> to the string \<open>s\<close> in an array of \<open>_CC_BUF_SZ\<close> bytes.\<close>

definition strcat_chk :: "byte list \<Rightarrow> byte list \<Rightarrow> byte list option" where
  "strcat_chk s t = (if length s + length t + 1 \<le> 1024 then Some (s @ t) else None)"

text \<open>\<open>if (c) { sprintf (tmp, ...); strcat (sCp, tmp); }\<close> with \<open>char tmp[50]\<close>.\<close>

definition put_part :: "nat \<Rightarrow> bool \<Rightarrow> byte list \<Rightarrow> byte list \<Rightarrow> byte list option" where
  "put_part slack c t s =
     (if c then do { t \<leftarrow> sprintf_chk slack 50 t; strcat_chk s t } else Some s)"

text \<open>
  A time that is \<open>NULL\<close> or empty is the empty list; \<open>szFid\<close> is \<open>None\<close> for \<open>NULL\<close>, which the flag
  would print with \<open>%s\<close>: that is undefined.
\<close>

definition hjt212_real_data_format_cp ::
  "fpu \<Rightarrow> nat \<Rightarrow> bool \<Rightarrow> byte list option \<Rightarrow> u32 \<Rightarrow> byte \<Rightarrow> byte list \<Rightarrow> byte list \<Rightarrow> byte list option" where
  "hjt212_real_data_format_cp fp slack first fid value dataflag DataTime sCp = do {
     sCp \<leftarrow> put_part slack (DataTime \<noteq> [] \<and> fid \<noteq> None \<and> first) (lit ''DataTime='' @ DataTime @ lit '';'') sCp;
     if dataflag \<noteq> FLAG_DISABLE then do {
       sCp \<leftarrow> (case fid of None \<Rightarrow> Some sCp
         | Some f \<Rightarrow> put_part slack True (f @ lit ''-Rtd='' @ fp_text fp (fp_widen fp value) @ lit '','') sCp);
       f \<leftarrow> fid;
       put_part slack True (f @ lit ''-Flag='' @ [dataflag]) sCp }
     else (case fid of None \<Rightarrow> Some sCp
         | Some f \<Rightarrow> put_part slack True (f @ lit ''-Rtd='' @ fp_text fp (fp_widen fp value)) sCp) }"

definition put_comma :: "bool \<Rightarrow> byte list \<Rightarrow> byte list option" where
  "put_comma c s = (if c then strcat_chk s (lit '','') else Some s)"

definition hjt212_minutes_data_format_cp ::
  "fpu \<Rightarrow> nat \<Rightarrow> HJT212_Cfg \<Rightarrow> bool \<Rightarrow> byte list option \<Rightarrow> byte list \<Rightarrow> byte list \<Rightarrow> byte list \<Rightarrow>
   u64 \<Rightarrow> u32 \<Rightarrow> u32 \<Rightarrow> u32 \<Rightarrow> byte list \<Rightarrow> byte list option" where
  "hjt212_minutes_data_format_cp fp slack cfg first fid BeginTime EndTime DataTime vCou vMin vAvg vMax sCp =
     (case fid of None \<Rightarrow> Some sCp | Some f \<Rightarrow> do {
       sCp \<leftarrow> put_part slack (BeginTime \<noteq> []) (lit ''BeginTime='' @ BeginTime @ lit '';'') sCp;
       sCp \<leftarrow> put_part slack (EndTime \<noteq> []) (lit ''EndTime='' @ EndTime @ lit '';'') sCp;
       sCp \<leftarrow> put_part slack (DataTime \<noteq> [] \<and> first) (lit ''DataTime='' @ DataTime @ lit '';'') sCp;
       sCp \<leftarrow> put_part slack (\<not> no_cou cfg) (f @ lit ''-Cou='' @ fp_text fp vCou) sCp;
       sCp \<leftarrow> put_comma (\<not> no_min cfg \<and> \<not> no_cou cfg) sCp;
       sCp \<leftarrow> put_part slack (\<not> no_min cfg) (f @ lit ''-Min='' @ fp_text fp (fp_widen fp vMin)) sCp;
       sCp \<leftarrow> put_comma (\<not> no_avg cfg \<and> (\<not> no_cou cfg \<or> \<not> no_min cfg)) sCp;
       sCp \<leftarrow> put_part slack (\<not> no_avg cfg) (f @ lit ''-Avg='' @ fp_text fp (fp_widen fp vAvg)) sCp;
       sCp \<leftarrow> put_comma (\<not> no_max cfg \<and> (\<not> no_cou cfg \<or> \<not> no_min cfg \<or> \<not> no_avg cfg)) sCp;
       put_part slack (\<not> no_max cfg) (f @ lit ''-Max='' @ fp_text fp (fp_widen fp vMax)) sCp })"

section \<open>The reports\<close>

definition PROTO_HJT212 :: u16 where "PROTO_HJT212 = 3"

text \<open>
  What the reports ask the system for, beside the wall clock and the first allocation (\<open>re_env\<close>):
  the tick counter at each time it is read, whether the second allocation finds memory, and
  the floating-point operations.
\<close>

record rpt_env =
  re_env :: env
  re_tick :: "nat \<Rightarrow> u32"
  re_alloc :: bool
  re_fpu :: fpu

text \<open>The link, the variables, their averages, and how often the tick counter has been read.\<close>

record rep =
  rp_link :: hjt_link
  rp_vm :: varmanage
  rp_avg :: "ptr \<Rightarrow> ext_avg"
  rp_reads :: nat

fun report_cmd :: "avg_kind \<Rightarrow> eHJT212_Cmd" where
  "report_cmd Avg_Up = CMD_REQUEST_UPLOAD_CONTAM_REAL_DATA"
| "report_cmd Avg_Min = CMD_REQUEST_UPLOAD_CONTAM_MIN_DATA"
| "report_cmd Avg_Hour = CMD_REQUEST_UPLOAD_CONTAM_HOUR_DATA"

fun report_period :: "avg_kind \<Rightarrow> HJT212_Cfg \<Rightarrow> u32" where
  "report_period Avg_Up cfg = ulPeriod cfg"
| "report_period Avg_Min cfg = rt_tick_from_millisecond (60 * 1000)"
| "report_period Avg_Hour cfg = rt_tick_from_millisecond (60 * 60 * 1000)"

text \<open>The text of a variable for a report, in the cleared \<open>buf\<close>.\<close>

definition report_text ::
  "fpu \<Rightarrow> nat \<Rightarrow> HJT212_Cfg \<Rightarrow> avg_kind \<Rightarrow> byte list \<Rightarrow> byte list option \<Rightarrow> bool \<Rightarrow> VarAvg \<Rightarrow> byte list option" where
  "report_text fp slack cfg k dt fid first v =
     (let value = fp_div fp (va_avg v) (fp_int fp (uint (va_count v)))
      in if k = Avg_Up then hjt212_real_data_format_cp fp slack first fid (fp_narrow fp value) FLAG_N dt []
      else hjt212_minutes_data_format_cp fp slack cfg first fid [] [] dt
             (va_avg v) (va_min v) (fp_narrow fp value) (va_max v) [])"

text \<open>
  The local variables of a report: \<open>*ppnode\<close>, \<open>mynid[32]\<close>, \<open>first\<close> and the string in \<open>sCp\<close>.
\<close>

record rep_acc =
  ac_pp :: ptr
  ac_nid :: "byte list"
  ac_first :: bool
  ac_cp :: "byte list"
  ac_rep :: rep

text \<open>
  The identifier a variable is sent under, its own or that of the gateway, and its name in the
  message. A \<open>MN\<close> without terminator counts as undefined here although \<open>strcmp\<close> may stop before
  its end.
\<close>

definition node_nid :: "rep \<Rightarrow> ExtData \<Rightarrow> byte list option" where
  "node_nid r d = (if szNid d \<noteq> 0 then vm_str (rp_vm r) (szNid d) else cstr (cfg_MN (hj_cfg (rp_link r))))"

definition node_fid :: "rep \<Rightarrow> ExtData \<Rightarrow> byte list option option" where
  "node_fid r d = (if szFid d = 0 then Some None else map_option Some (vm_str (rp_vm r) (szFid d)))"

text \<open>A variable whose text is taken: append it, move \<open>*ppnode\<close> to it and start its average again.\<close>

definition report_take :: "rpt_env \<Rightarrow> avg_kind \<Rightarrow> ptr \<Rightarrow> byte list \<Rightarrow> rep_acc \<Rightarrow> rep_acc option" where
  "report_take e k p txt a = do {
     cp \<leftarrow> strcat_chk (ac_cp a) txt;
     cp \<leftarrow> strcat_chk cp (lit '';'');
     let r = ac_rep a;
     Some (a\<lparr>ac_cp := cp, ac_pp := p, ac_rep := r\<lparr>
       rp_avg := (rp_avg r)(p := avg_set k (avg_reset (re_tick e (rp_reads r)) (avg_get k (rp_avg r p))) (rp_avg r p)),
       rp_reads := rp_reads r + 1\<rparr>\<rparr>) }"

text \<open>The body of the loop at the variable \<open>p\<close>; the flag says whether the loop goes on.\<close>

definition report_node :: "rpt_env \<Rightarrow> avg_kind \<Rightarrow> byte list \<Rightarrow> ptr \<Rightarrow> rep_acc \<Rightarrow> (bool \<times> rep_acc) option" where
  "report_node e k dt p a = do {
     let r = ac_rep a;
     d \<leftarrow> vm_heap (rp_vm r) p;
     if \<not> up_bEnable d then Some (True, a\<lparr>ac_pp := p\<rparr>)
     else do {
       newnid \<leftarrow> node_nid r d;
       if ac_nid a \<noteq> [] \<and> newnid \<noteq> ac_nid a then Some (False, a)
       else do {
         nid \<leftarrow> sprintf_chk (e_slack (re_env e)) 32 newnid;
         let v = avg_get k (rp_avg r p);
         let t = re_tick e (rp_reads r);
         let a = a\<lparr>ac_nid := nid, ac_rep := r\<lparr>rp_reads := rp_reads r + 1\<rparr>\<rparr>;
         if report_period k (hj_cfg (rp_link r)) \<le> t - va_time v \<and> 0 < va_count v
         then do {
           fid \<leftarrow> node_fid r d;
           txt \<leftarrow> report_text (re_fpu e) (e_slack (re_env e)) (hj_cfg (rp_link r)) k dt fid (ac_first a) v;
           let a = a\<lparr>ac_first := False\<rparr>;
           if length (ac_cp a) + length txt < 960
           then do { a \<leftarrow> report_take e k p txt a; Some (True, a) }
           else Some (False, a) }
         else Some (True, a) } } }"

partial_function (option) report_loop ::
  "rpt_env \<Rightarrow> avg_kind \<Rightarrow> nat \<Rightarrow> byte list \<Rightarrow> ptr \<Rightarrow> rep_acc \<Rightarrow> rep_acc option" where
  "report_loop e k index dt p a = do {
     q \<leftarrow> up_next PROTO_HJT212 index p (rp_vm (ac_rep a));
     if q = 0 then Some (a\<lparr>ac_pp := 0\<rparr>)
     else do {
       (go, a) \<leftarrow> report_node e k dt q a;
       if go then report_loop e k index dt q a else Some a } }"

text \<open>\<open>sCp\<close> is not tested for \<open>NULL\<close>; its length is read in any case.\<close>

definition report_frame :: "rpt_env \<Rightarrow> avg_kind \<Rightarrow> byte list \<Rightarrow> rep_acc \<Rightarrow> (ptr \<times> rep) option" where
  "report_frame e k st a = (if ac_cp a = [] then Some (ac_pp a, ac_rep a)
     else do {
       let l = rp_link (ac_rep a);
       cn \<leftarrow> sprintf_chk (e_slack (re_env e)) 8 (dec (cmd_code (report_cmd k)));
       f \<leftarrow> Hjt212Encode None (Some (st @ [0])) (Some (cn @ [0])) (Some (cfg_PW (hj_cfg l)))
          (Some (ac_nid a @ [0])) None (Some (butlast (ac_cp a) @ [0])) 1024;
       Some (ac_pp a, (ac_rep a)\<lparr>rp_link := send f l\<rparr>) })"

definition hjt212_report :: "rpt_env \<Rightarrow> avg_kind \<Rightarrow> nat \<Rightarrow> ptr \<Rightarrow> rep \<Rightarrow> (ptr \<times> rep) option" where
  "hjt212_report e k index pp r = (if \<not> e_alloc (re_env e) then Some (pp, r)
     else if \<not> re_alloc e then None
     else do {
       _ \<leftarrow> sprintf_chk (e_slack (re_env e)) 20 (fmt_qn (re_env e));
       cfgst \<leftarrow> cstr (cfg_ST (hj_cfg (rp_link r)));
       st \<leftarrow> sprintf_chk (e_slack (re_env e)) 6 cfgst;
       dt \<leftarrow> sprintf_chk (e_slack (re_env e)) 20 (fmt_time (re_env e));
       a \<leftarrow> report_loop e k index dt pp
         \<lparr>ac_pp = pp, ac_nid = [], ac_first = True, ac_cp = [], ac_rep = r\<rparr>;
       report_frame e k st a })"

definition hjt212_report_real_data :: "rpt_env \<Rightarrow> nat \<Rightarrow> ptr \<Rightarrow> rep \<Rightarrow> (ptr \<times> rep) option" where
  "hjt212_report_real_data e index pp r = hjt212_report e Avg_Up index pp r"

definition hjt212_report_minutes_data :: "rpt_env \<Rightarrow> nat \<Rightarrow> ptr \<Rightarrow> rep \<Rightarrow> (ptr \<times> rep) option" where
  "hjt212_report_minutes_data e index pp r = hjt212_report e Avg_Min index pp r"

definition hjt212_report_hour_data :: "rpt_env \<Rightarrow> nat \<Rightarrow> ptr \<Rightarrow> rep \<Rightarrow> (ptr \<times> rep) option" where
  "hjt212_report_hour_data e index pp r = hjt212_report e Avg_Hour index pp r"

text \<open>\<open>while (1) { hjt212_report_... (index, &node); if (!node) break; }\<close>\<close>

partial_function (option) report_all :: "rpt_env \<Rightarrow> avg_kind \<Rightarrow> nat \<Rightarrow> ptr \<Rightarrow> rep \<Rightarrow> rep option" where
  "report_all e k index pp r = do {
     (pp, r) \<leftarrow> hjt212_report e k index pp r;
     if pp = 0 then Some r else report_all e k index pp r }"

section \<open>The report as a walk over a list\<close>

text \<open>The variables of the link, and how far a walk over them is.\<close>

abbreviation link_nodes :: "nat \<Rightarrow> rep \<Rightarrow> ptr list \<Rightarrow> ptr list" where
  "link_nodes index r ps \<equiv> up_nodes PROTO_HJT212 index (rp_vm r) ps"

abbreviation stands_at :: "rep \<Rightarrow> ptr \<Rightarrow> ptr list \<Rightarrow> ptr list \<Rightarrow> bool" where
  "stands_at r p us vs \<equiv> up_at (rp_vm r) p us vs"

fun report_walk :: "rpt_env \<Rightarrow> avg_kind \<Rightarrow> byte list \<Rightarrow> ptr list \<Rightarrow> rep_acc \<Rightarrow> rep_acc option" where
  "report_walk e k dt [] a = Some (a\<lparr>ac_pp := 0\<rparr>)"
| "report_walk e k dt (p # ps) a = do {
     (go, a) \<leftarrow> report_node e k dt p a;
     if go then report_walk e k dt ps a else Some a }"

lemma report_node_frame:
  "report_node e k dt p a = Some (go, a') \<Longrightarrow>
     rp_vm (ac_rep a') = rp_vm (ac_rep a) \<and> rp_link (ac_rep a') = rp_link (ac_rep a)"
  by (auto simp: report_node_def report_take_def Let_def split: if_splits bind_splits)

lemma report_loop_list:
  assumes "stands_at (ac_rep a) p us vs"
  shows "report_loop e k index dt p a = report_walk e k dt (link_nodes index (ac_rep a) vs) a"
  using assms
proof (induction "length vs" arbitrary: p us vs a rule: less_induct)
  case less
  note nx = up_next_list [OF less.prems, of PROTO_HJT212 index]
  show ?case
  proof (cases "link_nodes index (ac_rep a) vs")
    case Nil
    with nx show ?thesis by (subst report_loop.simps) simp
  next
    case (Cons q zs)
    have q: "q \<noteq> 0" using up_at_next [OF less.prems Cons] .
    obtain ws where w: "stands_at (ac_rep a) q (us @ takeWhile (\<lambda>x. x \<noteq> q) vs @ [q]) ws"
      "zs = link_nodes index (ac_rep a) ws" "vs = takeWhile (\<lambda>x. x \<noteq> q) vs @ q # ws"
      using up_at_step [OF less.prems Cons] .
    have l: "length ws < length vs"
      using arg_cong [OF w(3), of length] by (simp del: takeWhile_eq_all_conv)
    have go: "report_loop e k index dt q a' = report_walk e k dt zs a'"
      if "report_node e k dt q a = Some (b, a')" for b a'
    proof -
      have "rp_vm (ac_rep a') = rp_vm (ac_rep a)" using report_node_frame [OF that] by simp
      then have "stands_at (ac_rep a') q (us @ takeWhile (\<lambda>x. x \<noteq> q) vs @ [q]) ws"
        "link_nodes index (ac_rep a') ws = zs"
        using w(1,2) by (simp_all add: up_at_def up_nodes_def)
      then show ?thesis using less.hyps [OF l] by metis
    qed
    show ?thesis
      by (subst report_loop.simps) (cases "report_node e k dt q a"; auto simp: nx Cons q go)
  qed
qed


section \<open>Variables of one node\<close>

text \<open>
  A variable that can be reported under \<open>nid\<close>: its strings are live and each of its texts fits
  into \<open>tmp\<close>. It is ready when it has values and the period has passed whenever the counter is
  read, and idle when it has none or the period never has.
\<close>

definition reportable :: "rpt_env \<Rightarrow> avg_kind \<Rightarrow> byte list \<Rightarrow> rep \<Rightarrow> ptr \<Rightarrow> bool" where
  "reportable e k nid r p = (\<exists>d fid. vm_heap (rp_vm r) p = Some d \<and> up_bEnable d \<and> node_nid r d = Some nid
     \<and> node_fid r d = Some fid \<and> (\<forall>first. \<exists>t. report_text (re_fpu e) (e_slack (re_env e)) (hj_cfg (rp_link r)) k
         (fmt_time (re_env e)) fid first (avg_get k (rp_avg r p)) = Some t \<and> length t < 960 \<and> 0 \<notin> set t))"

definition has_nid :: "rep \<Rightarrow> byte list \<Rightarrow> ptr \<Rightarrow> bool" where
  "has_nid r nid p = (\<exists>d. vm_heap (rp_vm r) p = Some d \<and> up_bEnable d \<and> node_nid r d = Some nid)"

lemma reportable_nid: "reportable e k nid r p \<Longrightarrow> has_nid r nid p"
  by (auto simp: reportable_def has_nid_def)

definition var_text :: "rpt_env \<Rightarrow> avg_kind \<Rightarrow> rep \<Rightarrow> bool \<Rightarrow> ptr \<Rightarrow> byte list" where
  "var_text e k r first p = the (do { d \<leftarrow> vm_heap (rp_vm r) p; fid \<leftarrow> node_fid r d;
     report_text (re_fpu e) (e_slack (re_env e)) (hj_cfg (rp_link r)) k (fmt_time (re_env e)) fid first
       (avg_get k (rp_avg r p)) })"

definition due_at :: "rpt_env \<Rightarrow> avg_kind \<Rightarrow> rep \<Rightarrow> nat \<Rightarrow> ptr \<Rightarrow> bool" where
  "due_at e k r i p =
     (report_period k (hj_cfg (rp_link r)) \<le> re_tick e i - va_time (avg_get k (rp_avg r p)))"

definition ready :: "rpt_env \<Rightarrow> avg_kind \<Rightarrow> rep \<Rightarrow> ptr \<Rightarrow> bool" where
  "ready e k r p = (0 < va_count (avg_get k (rp_avg r p)) \<and> (\<forall>i. due_at e k r i p))"

definition idle_var :: "rpt_env \<Rightarrow> avg_kind \<Rightarrow> rep \<Rightarrow> ptr \<Rightarrow> bool" where
  "idle_var e k r p = (va_count (avg_get k (rp_avg r p)) = 0 \<or> (\<forall>i. \<not> due_at e k r i p))"

text \<open>The average of \<open>p\<close> has been started again, at a tick that was read on the way.\<close>

definition avg_again :: "rpt_env \<Rightarrow> avg_kind \<Rightarrow> rep \<Rightarrow> rep \<Rightarrow> ptr \<Rightarrow> bool" where
  "avg_again e k r r' p = (\<exists>n. rp_reads r \<le> n \<and> n < rp_reads r'
     \<and> rp_avg r' p = avg_set k (avg_reset (re_tick e n) (avg_get k (rp_avg r p))) (rp_avg r p))"

lemma avg_again_link [simp]: "avg_again e k r (s\<lparr>rp_link := l\<rparr>) = avg_again e k r s"
  by (simp add: fun_eq_iff avg_again_def)

lemma avg_again_later:
  "avg_again e k r r1 p \<Longrightarrow> rp_reads r1 \<le> rp_reads r' \<Longrightarrow> rp_avg r' p = rp_avg r1 p \<Longrightarrow> avg_again e k r r' p"
  unfolding avg_again_def by (metis order_less_le_trans)

lemma avg_again_earlier:
  "avg_again e k r1 r' p \<Longrightarrow> rp_reads r \<le> rp_reads r1 \<Longrightarrow> rp_avg r1 p = rp_avg r p \<Longrightarrow> avg_again e k r r' p"
  unfolding avg_again_def by (metis order_trans)

definition same_vars :: "rep \<Rightarrow> rep \<Rightarrow> bool" where
  "same_vars r r' = (rp_vm r' = rp_vm r \<and> hj_cfg (rp_link r') = hj_cfg (rp_link r))"

lemma same_node: "same_vars r r' \<Longrightarrow> node_nid r' d = node_nid r d \<and> node_fid r' d = node_fid r d"
  by (simp add: same_vars_def node_nid_def node_fid_def)

text \<open>The variables that go into one frame, and those left for the next.\<close>

fun fill :: "(bool \<Rightarrow> ptr \<Rightarrow> byte list) \<Rightarrow> bool \<Rightarrow> nat \<Rightarrow> ptr list \<Rightarrow> ptr list \<times> ptr list" where
  "fill t f n [] = ([], [])"
| "fill t f n (p # ps) = (if n + length (t f p) < 960
     then (let (g, rest) = fill t False (n + length (t f p) + 1) ps in (p # g, rest)) else ([], p # ps))"

fun report_body :: "(bool \<Rightarrow> ptr \<Rightarrow> byte list) \<Rightarrow> bool \<Rightarrow> ptr list \<Rightarrow> byte list" where
  "report_body t f [] = []"
| "report_body t f (p # ps) = t f p @ lit '';'' @ report_body t False ps"

lemma fill_append: "fill t f n ps = (g, rest) \<Longrightarrow> g @ rest = ps"
  by (induction ps arbitrary: f n g) (auto split: if_splits prod.splits)

lemma fill_first: "length (t f p) < 960 \<Longrightarrow> fill t f 0 (p # ps) = (g, rest) \<Longrightarrow> g \<noteq> []"
  by (auto split: prod.splits)

lemma fill_bound:
  "fill t f n ps = (g, rest) \<Longrightarrow> n \<le> 960 \<Longrightarrow> n + length (report_body t f g) \<le> 960"
proof (induction ps arbitrary: f n g)
  case (Cons p ps)
  show ?case
  proof (cases "n + length (t f p) < 960")
    case True
    with Cons.prems(1) obtain h where h: "fill t False (n + length (t f p) + 1) ps = (h, rest)" "g = p # h"
      by (auto split: prod.splits)
    from Cons.IH [OF h(1)] True h(2) show ?thesis by simp
  qed (use Cons.prems in auto)
qed auto

lemma node_idle:
  assumes "has_nid r nid p" "idle_var e k r p" "same_vars r (ac_rep a)"
    "rp_avg (ac_rep a) p = rp_avg r p" "ac_nid a = [] \<or> ac_nid a = nid" "length nid < 32"
  shows "report_node e k dt p a = Some (True, a\<lparr>ac_nid := nid,
    ac_rep := (ac_rep a)\<lparr>rp_reads := rp_reads (ac_rep a) + 1\<rparr>\<rparr>)"
  using assms same_node [OF assms(3)]
  by (auto simp: has_nid_def idle_var_def due_at_def same_vars_def report_node_def Let_def sprintf_chk_def)

lemma node_other:
  assumes "has_nid r nid p" "same_vars r (ac_rep a)" "ac_nid a \<noteq> []" "ac_nid a \<noteq> nid"
  shows "report_node e k dt p a = Some (False, a)"
  using assms(1,3,4) same_node [OF assms(2)] assms(2)
  by (auto simp: has_nid_def same_vars_def report_node_def Let_def)

lemma reportableE:
  assumes "reportable e k nid r p"
  obtains d fid where "vm_heap (rp_vm r) p = Some d" "up_bEnable d" "node_nid r d = Some nid"
    "node_fid r d = Some fid"
    "\<forall>f. report_text (re_fpu e) (e_slack (re_env e)) (hj_cfg (rp_link r)) k (fmt_time (re_env e)) fid f
       (avg_get k (rp_avg r p)) = Some (var_text e k r f p)"
    "\<forall>f. length (var_text e k r f p) < 960" "\<forall>f. 0 \<notin> set (var_text e k r f p)"
proof -
  from assms obtain d fid where d: "vm_heap (rp_vm r) p = Some d" "up_bEnable d" "node_nid r d = Some nid"
    "node_fid r d = Some fid" and t: "\<And>f. \<exists>t. report_text (re_fpu e) (e_slack (re_env e)) (hj_cfg (rp_link r)) k
         (fmt_time (re_env e)) fid f (avg_get k (rp_avg r p)) = Some t \<and> length t < 960 \<and> 0 \<notin> set t"
    unfolding reportable_def by blast
  have v: "report_text (re_fpu e) (e_slack (re_env e)) (hj_cfg (rp_link r)) k (fmt_time (re_env e)) fid f
      (avg_get k (rp_avg r p)) = Some (var_text e k r f p)
    \<and> length (var_text e k r f p) < 960 \<and> 0 \<notin> set (var_text e k r f p)" for f
    using t [of f] d by (auto simp: var_text_def)
  show ?thesis using that d v by blast
qed

lemma node_ready:
  assumes "reportable e k nid r p" "ready e k r p" "same_vars r (ac_rep a)"
    "rp_avg (ac_rep a) p = rp_avg r p" "ac_nid a = [] \<or> ac_nid a = nid" "length nid < 32" "length (ac_cp a) \<le> 960"
  shows "\<exists>a'. report_node e k (fmt_time (re_env e)) p a
      = Some (length (ac_cp a) + length (var_text e k r (ac_first a) p) < 960, a')
    \<and> ac_nid a' = nid \<and> rp_vm (ac_rep a') = rp_vm (ac_rep a) \<and> rp_link (ac_rep a') = rp_link (ac_rep a)
    \<and> rp_reads (ac_rep a) \<le> rp_reads (ac_rep a')
    \<and> (if length (ac_cp a) + length (var_text e k r (ac_first a) p) < 960
       then ac_cp a' = ac_cp a @ var_text e k r (ac_first a) p @ lit '';'' \<and> ac_pp a' = p \<and> \<not> ac_first a'
         \<and> avg_again e k (ac_rep a) (ac_rep a') p
         \<and> (\<forall>x. x \<noteq> p \<longrightarrow> rp_avg (ac_rep a') x = rp_avg (ac_rep a) x)
       else ac_cp a' = ac_cp a \<and> ac_pp a' = ac_pp a \<and> rp_avg (ac_rep a') = rp_avg (ac_rep a))"
proof -
  obtain d fid where d: "vm_heap (rp_vm r) p = Some d" "up_bEnable d" "node_nid r d = Some nid"
    "node_fid r d = Some fid"
    and t: "\<forall>f. report_text (re_fpu e) (e_slack (re_env e)) (hj_cfg (rp_link r)) k (fmt_time (re_env e)) fid f
       (avg_get k (rp_avg r p)) = Some (var_text e k r f p)"
    and "\<forall>f. length (var_text e k r f p) < 960" "\<forall>f. 0 \<notin> set (var_text e k r f p)"
    by (rule reportableE [OF assms(1)])
  show ?thesis
    using d t assms(2-) same_node [OF assms(3)]
    by (auto simp: ready_def due_at_def same_vars_def report_node_def report_take_def Let_def sprintf_chk_def
      strcat_chk_def avg_again_def intro!: exI [of _ "Suc (rp_reads (ac_rep a))"])
qed

lemma report_walk_fill:
  assumes "\<forall>x \<in> set xs. reportable e k nid r x \<and> (ready e k r x \<or> idle_var e k r x)" "distinct xs"
    "same_vars r (ac_rep a)" "\<forall>x \<in> set xs. rp_avg (ac_rep a) x = rp_avg r x"
    "ac_nid a = [] \<or> ac_nid a = nid" "length nid < 32" "length (ac_cp a) \<le> 960"
    "fill (var_text e k r) (ac_first a) (length (ac_cp a)) (filter (ready e k r) xs) = (g, rest)"
  shows "\<exists>a'. report_walk e k (fmt_time (re_env e)) xs a = Some a'
    \<and> ac_cp a' = ac_cp a @ report_body (var_text e k r) (ac_first a) g
    \<and> ac_pp a' = (if rest = [] then 0 else if g = [] then ac_pp a else last g)
    \<and> rp_vm (ac_rep a') = rp_vm (ac_rep a) \<and> rp_link (ac_rep a') = rp_link (ac_rep a)
    \<and> (g \<noteq> [] \<or> ac_nid a = nid \<longrightarrow> ac_nid a' = nid)
    \<and> rp_reads (ac_rep a) \<le> rp_reads (ac_rep a')
    \<and> (\<forall>x \<in> set g. avg_again e k (ac_rep a) (ac_rep a') x)
    \<and> (\<forall>x. x \<notin> set g \<longrightarrow> rp_avg (ac_rep a') x = rp_avg (ac_rep a) x)"
  using assms
proof (induction xs arbitrary: a g)
  case Nil
  then show ?case by simp
next
  case (Cons p xs)
  let ?t = "var_text e k r"
  show ?case
  proof (cases "ready e k r p")
    case False
    obtain a1 where a1: "report_node e k (fmt_time (re_env e)) p a = Some (True, a1)" "ac_cp a1 = ac_cp a"
      "ac_pp a1 = ac_pp a" "ac_first a1 = ac_first a" "ac_nid a1 = nid" "rp_vm (ac_rep a1) = rp_vm (ac_rep a)"
      "rp_link (ac_rep a1) = rp_link (ac_rep a)" "rp_avg (ac_rep a1) = rp_avg (ac_rep a)"
      "rp_reads (ac_rep a1) = rp_reads (ac_rep a) + 1"
    proof -
      have "has_nid r nid p" "idle_var e k r p" using Cons.prems(1) False reportable_nid by auto
      from node_idle [OF this Cons.prems(3) _ Cons.prems(5,6), of "fmt_time (re_env e)"] Cons.prems(4)
      have "report_node e k (fmt_time (re_env e)) p a = Some (True, a\<lparr>ac_nid := nid,
          ac_rep := (ac_rep a)\<lparr>rp_reads := rp_reads (ac_rep a) + 1\<rparr>\<rparr>)" by simp
      then show thesis by (rule that) simp_all
    qed
    have "same_vars r (ac_rep a1)" using Cons.prems(3) a1 by (simp add: same_vars_def)
    moreover have "avg_again e k (ac_rep a1) s x \<Longrightarrow> avg_again e k (ac_rep a) s x" for s x
      by (erule avg_again_earlier) (simp_all add: a1)
    ultimately show ?thesis using Cons.IH [of a1 g] Cons.prems False
      by (fastforce simp: a1 split del: if_split cong: if_cong)
  next
    case True
    obtain a' where a': "report_node e k (fmt_time (re_env e)) p a
        = Some (length (ac_cp a) + length (?t (ac_first a) p) < 960, a')"
      "ac_nid a' = nid" "rp_vm (ac_rep a') = rp_vm (ac_rep a)" "rp_link (ac_rep a') = rp_link (ac_rep a)"
      "rp_reads (ac_rep a) \<le> rp_reads (ac_rep a')"
      "if length (ac_cp a) + length (?t (ac_first a) p) < 960
       then ac_cp a' = ac_cp a @ ?t (ac_first a) p @ lit '';'' \<and> ac_pp a' = p \<and> \<not> ac_first a'
         \<and> avg_again e k (ac_rep a) (ac_rep a') p
         \<and> (\<forall>x. x \<noteq> p \<longrightarrow> rp_avg (ac_rep a') x = rp_avg (ac_rep a) x)
       else ac_cp a' = ac_cp a \<and> ac_pp a' = ac_pp a \<and> rp_avg (ac_rep a') = rp_avg (ac_rep a)"
      using node_ready [of e k nid r p a] Cons.prems True by (auto simp del: lit_Cons)
    show ?thesis
    proof (cases "length (ac_cp a) + length (?t (ac_first a) p) < 960")
      case fits: True
      with a'(6) have b: "ac_cp a' = ac_cp a @ ?t (ac_first a) p @ lit '';''" "ac_pp a' = p" "\<not> ac_first a'"
         "avg_again e k (ac_rep a) (ac_rep a') p"
         "\<And>x. x \<noteq> p \<Longrightarrow> rp_avg (ac_rep a') x = rp_avg (ac_rep a) x" by auto
      from Cons.prems(8) True fits obtain h where h: "g = p # h"
        "fill ?t (ac_first a') (length (ac_cp a')) (filter (ready e k r) xs) = (h, rest)"
        by (auto simp: b(1,3) split: prod.splits)
      have s: "same_vars r (ac_rep a')" using Cons.prems(3) a'(3,4) by (simp add: same_vars_def)
      have av: "\<forall>x \<in> set xs. rp_avg (ac_rep a') x = rp_avg r x" using Cons.prems(2,4) b(5)
        by (metis distinct.simps(2) list.set_intros(2))
      have "set h \<subseteq> set xs" using arg_cong [OF fill_append [OF h(2)], of set] by auto
      then have "p \<notin> set h" using Cons.prems(2) by auto
      have pre: "\<forall>x \<in> set xs. reportable e k nid r x \<and> (ready e k r x \<or> idle_var e k r x)" "distinct xs"
        "ac_nid a' = [] \<or> ac_nid a' = nid" "length (ac_cp a') \<le> 960"
        using Cons.prems(1,2) a'(2) fits by (simp_all add: b(1))
      obtain a2 where a2: "report_walk e k (fmt_time (re_env e)) xs a' = Some a2"
        "ac_cp a2 = ac_cp a' @ report_body ?t (ac_first a') h"
        "ac_pp a2 = (if rest = [] then 0 else if h = [] then ac_pp a' else last h)"
        "rp_vm (ac_rep a2) = rp_vm (ac_rep a')" "rp_link (ac_rep a2) = rp_link (ac_rep a')"
        "h \<noteq> [] \<or> ac_nid a' = nid \<longrightarrow> ac_nid a2 = nid" "rp_reads (ac_rep a') \<le> rp_reads (ac_rep a2)"
        "\<forall>x \<in> set h. avg_again e k (ac_rep a') (ac_rep a2) x"
        "\<forall>x. x \<notin> set h \<longrightarrow> rp_avg (ac_rep a2) x = rp_avg (ac_rep a') x"
        using Cons.IH [OF pre(1,2) s av pre(3) Cons.prems(6) pre(4) h(2)] by blast
      show ?thesis
      proof (intro exI [of _ a2] conjI)
        show "ac_cp a2 = ac_cp a @ report_body ?t (ac_first a) g" by (simp add: a2(2) b h(1))
        show "ac_pp a2 = (if rest = [] then 0 else if g = [] then ac_pp a else last g)"
          by (simp add: a2(3) b(2) h(1))
        show "\<forall>x \<in> set g. avg_again e k (ac_rep a) (ac_rep a2) x"
        proof
          fix x assume x: "x \<in> set g"
          show "avg_again e k (ac_rep a) (ac_rep a2) x"
          proof (cases "x = p")
            case True
            then show ?thesis using avg_again_later [OF b(4) a2(7)] a2(9) \<open>p \<notin> set h\<close> by simp
          next
            case False
            then have "avg_again e k (ac_rep a') (ac_rep a2) x" using x h(1) a2(8) by simp
            then show ?thesis by (rule avg_again_earlier) (use False a'(5) b(5) in simp_all)
          qed
        qed
      qed (use a' b a2 h(1) fits \<open>p \<notin> set h\<close> in auto)
    next
      case False
      with Cons.prems(8) True have "g = []" "rest = p # filter (ready e k r) xs" by auto
      with a' False show ?thesis by auto
    qed
  qed
qed

end
