(* ===== verification/Hjt212_Work.thy ===== *)
theory Hjt212_Work
  imports Hjt212_Report
begin

text \<open>
  What a round of cyclic reports (\<open>sdccp/hjt212.c\<close>) sends, and the work thread that makes it.

  Shown: over variables of one node, each report sends one frame of the variables that fit and
  the next one goes on behind them, so the round sends all that are ready (\<open>report_round\<close>). A
  report that first meets a node with nothing to send and then another node changes nothing
  (\<open>report_blocked\<close>), and a loop around it never ends (\<open>report_all_stuck\<close>).
\<close>

unbundle bit_operations_syntax

section \<open>One report of one node\<close>

definition report_cn :: "avg_kind \<Rightarrow> string" where
  "report_cn k = (case k of Avg_Up \<Rightarrow> ''2011'' | Avg_Min \<Rightarrow> ''2051'' | Avg_Hour \<Rightarrow> ''2061'')"

definition report_data :: "HJT212_Cfg \<Rightarrow> avg_kind \<Rightarrow> byte list \<Rightarrow> byte list \<Rightarrow> byte list" where
  "report_data c k nid cp = lit ''ST='' @ cval 5 (cfg_ST c) @ lit '';CN='' @ lit (report_cn k) @ lit '';PW=''
     @ cval 6 (cfg_PW c) @ lit '';MN='' @ take 14 nid @ lit '';CP=&&'' @ cp @ lit ''&&''"

definition report_cp :: "(bool \<Rightarrow> ptr \<Rightarrow> byte list) \<Rightarrow> ptr list \<Rightarrow> byte list" where
  "report_cp t g = (case g of [] \<Rightarrow> []
     | p # ps \<Rightarrow> t True p @ concat (map (\<lambda>q. lit '';'' @ t False q) ps))"

lemma report_cn_dec: "dec (cmd_code (report_cmd k)) = lit (report_cn k)"
  by (cases k) (simp_all add: report_cn_def dec_lt10 dec_ge10)

lemma report_cn_ok: "length (report_cn k) = 4" "0 \<notin> set (lit (report_cn k))"
  by (cases k; simp add: report_cn_def)+

lemma enc_report:
  assumes "wf_cfg c" "0 \<notin> set nid" "0 \<notin> set cp"
  shows "enc_data None (Some (cval 5 (cfg_ST c) @ [0])) (Some (lit (report_cn k) @ [0])) (Some (cfg_PW c))
      (Some (nid @ [0])) None (Some (cp @ [0])) = Some (report_data c k nid cp)"
proof -
  have 1: "copy_loop 5 (cval 5 (cfg_ST c) @ [0]) = Some (cval 5 (cfg_ST c))"
    by (subst copy_loop_term) (simp_all add: cval_nonzero length_cval)
  have 2: "copy_loop 4 (lit (report_cn k) @ [0]) = Some (lit (report_cn k))"
    using copy_loop_term [OF report_cn_ok(2), of 4] report_cn_ok(1) by simp
  have 3: "copy_loop 6 (cfg_PW c) = Some (cval 6 (cfg_PW c))" "copy_loop 14 (nid @ [0]) = Some (take 14 nid)"
    using assms(1,2) by (simp_all add: copy_loop_cval copy_loop_term wf_cfg_def)
  have 4: "cstr (cp @ [0]) = Some cp" using cstr_append0 [OF assms(3), of "[]"] by simp
  show ?thesis
    using 1 2 3 4 by (simp add: enc_data_def enc_field_def enc_flag_def enc_cp_def report_data_def)
qed

lemma length_report_data: "length (report_data c k nid cp) \<le> 52 + length cp"
  using length_cval [of 5 "cfg_ST c"] length_cval [of 6 "cfg_PW c"] report_cn_ok(1) [of k]
  by (simp add: report_data_def)

lemma butlast_body: "g \<noteq> [] \<Longrightarrow> butlast (report_body t True g) = report_cp t g"
proof -
  have f: "report_body t False ps = concat (map (\<lambda>q. t False q @ lit '';'') ps)" for ps
    by (induction ps) simp_all
  have shift: "lit '';'' @ concat (map (\<lambda>q. t False q @ lit '';'') ps)
      = concat (map (\<lambda>q. lit '';'' @ t False q) ps) @ lit '';''" for ps
    by (induction ps) simp_all
  assume "g \<noteq> []"
  then obtain p ps where "g = p # ps" by (cases g) auto
  then have "report_body t True g = report_cp t g @ lit '';''"
    using shift [of ps] by (simp add: report_cp_def f)
  then show ?thesis by simp
qed

lemma report_cp_nonzero: "\<forall>x \<in> set g. \<forall>f. 0 \<notin> set (t f x) \<Longrightarrow> 0 \<notin> set (report_cp t g)"
  by (auto simp: report_cp_def split: list.splits)

text \<open>The environment in which a report can be made.\<close>

definition report_ok :: "rpt_env \<Rightarrow> rep \<Rightarrow> bool" where
  "report_ok e r = (wf_env (re_env e) \<and> wf_cfg (hj_cfg (rp_link r)) \<and> e_alloc (re_env e) \<and> re_alloc e)"

lemma report_start:
  assumes "report_ok e r" "stands_at r p us vs"
  shows "hjt212_report e k index p r = do {
    a \<leftarrow> report_walk e k (fmt_time (re_env e)) (link_nodes index r vs)
      \<lparr>ac_pp = p, ac_nid = [], ac_first = True, ac_cp = [], ac_rep = r\<rparr>;
    report_frame e k (cval 5 (cfg_ST (hj_cfg (rp_link r)))) a }"
proof -
  let ?c = "hj_cfg (rp_link r)"
  have "cstr (cfg_ST ?c) = Some (cval 5 (cfg_ST ?c))"
    using assms(1) by (intro cstr_cval) (simp_all add: report_ok_def wf_cfg_def)
  moreover have "sprintf_chk (e_slack (re_env e)) 6 (cval 5 (cfg_ST ?c)) = Some (cval 5 (cfg_ST ?c))"
    using length_cval [of 5 "cfg_ST ?c"] by (simp add: sprintf_chk_def)
  moreover have "sprintf_chk (e_slack (re_env e)) 20 (fmt_qn (re_env e)) = Some (fmt_qn (re_env e))"
    "sprintf_chk (e_slack (re_env e)) 20 (fmt_time (re_env e)) = Some (fmt_time (re_env e))"
    using assms(1) by (simp_all add: sprintf_chk_def fmt_simps report_ok_def)
  moreover note report_loop_list [of "\<lparr>ac_pp = p, ac_nid = [], ac_first = True, ac_cp = [], ac_rep = r\<rparr>" p us vs]
  ultimately show ?thesis using assms by (simp add: hjt212_report_def report_ok_def)
qed

definition report_msg :: "rpt_env \<Rightarrow> avg_kind \<Rightarrow> rep \<Rightarrow> byte list \<Rightarrow> ptr list \<Rightarrow> byte list" where
  "report_msg e k r nid g = hjt_frame (report_data (hj_cfg (rp_link r)) k nid (report_cp (var_text e k r) g))"

lemma var_text_ok: "reportable e k nid r p \<Longrightarrow> length (var_text e k r f p) < 960 \<and> 0 \<notin> set (var_text e k r f p)"
  by (erule reportableE) blast

lemma report_frame_sends:
  assumes "wf_cfg (hj_cfg (rp_link (ac_rep a)))" "ac_cp a = report_body t True g" "ac_nid a = nid"
    "0 \<notin> set nid" "g \<noteq> []" "\<forall>x \<in> set g. \<forall>f. 0 \<notin> set (t f x)" "length (report_body t True g) \<le> 960"
  shows "report_frame e k (cval 5 (cfg_ST (hj_cfg (rp_link (ac_rep a))))) a = Some (ac_pp a, (ac_rep a)\<lparr>rp_link :=
    send (hjt_frame (report_data (hj_cfg (rp_link (ac_rep a))) k nid (report_cp t g))) (rp_link (ac_rep a))\<rparr>)"
proof -
  let ?c = "hj_cfg (rp_link (ac_rep a))"
  have cp: "butlast (report_body t True g) = report_cp t g" using assms(5) by (rule butlast_body)
  have "length (report_cp t g) \<le> 959" 
    using assms(7) length_butlast [of "report_body t True g"] by (simp add: cp)
  then have l: "length (report_data ?c k nid (report_cp t g)) + 12 \<le> 1024"
    using length_report_data [of ?c k nid "report_cp t g"] by simp
  have ne: "report_body t True g \<noteq> []" using assms(5) by (cases g) auto
  have "sprintf_chk (e_slack (re_env e)) 8 (lit (report_cn k)) = Some (lit (report_cn k))"
    using report_cn_ok(1) by (simp add: sprintf_chk_def)
  then show ?thesis
    using enc_report [OF assms(1,4) report_cp_nonzero [OF assms(6)], of k] l
    by (simp add: report_frame_def Let_def ne assms(2,3) cp report_cn_dec Hjt212Encode_def)
qed


lemma stands_at_distinct: "stands_at r p us vs \<Longrightarrow> distinct (us @ vs)"
  unfolding up_at_def using chain_distinct by blast

text \<open>One report: the frame that is sent, and where the next one goes on.\<close>

lemma report_call:
  assumes "report_ok e r" "stands_at r p us vs" "length nid < 32" "0 \<notin> set nid"
    "\<forall>x \<in> set (link_nodes index r vs). reportable e k nid r x \<and> (ready e k r x \<or> idle_var e k r x)"
    "fill (var_text e k r) True 0 (filter (ready e k r) (link_nodes index r vs)) = (g, rest)"
  shows "\<exists>r'. hjt212_report e k index p r = Some (if rest = [] then 0 else if g = [] then p else last g, r')
    \<and> rp_vm r' = rp_vm r
    \<and> rp_link r' = (rp_link r)\<lparr>hj_sent := hj_sent (rp_link r) @ (if g = [] then [] else [report_msg e k r nid g])\<rparr>
    \<and> rp_reads r \<le> rp_reads r' \<and> (\<forall>x \<in> set g. avg_again e k r r' x) \<and> (\<forall>x. x \<notin> set g \<longrightarrow> rp_avg r' x = rp_avg r x)"
proof -
  let ?a = "\<lparr>ac_pp = p, ac_nid = [], ac_first = True, ac_cp = [], ac_rep = r\<rparr>"
  have "distinct (us @ vs)" using assms(2) by (rule stands_at_distinct)
  then have d: "distinct (link_nodes index r vs)" by (simp add: up_nodes_def)
  obtain a where a: "report_walk e k (fmt_time (re_env e)) (link_nodes index r vs) ?a = Some a"
    "ac_cp a = report_body (var_text e k r) True g" "ac_pp a = (if rest = [] then 0 else if g = [] then p else last g)"
    "rp_vm (ac_rep a) = rp_vm r" "rp_link (ac_rep a) = rp_link r" "g \<noteq> [] \<longrightarrow> ac_nid a = nid"
    "rp_reads r \<le> rp_reads (ac_rep a)" "\<forall>x \<in> set g. avg_again e k r (ac_rep a) x" "\<forall>x. x \<notin> set g \<longrightarrow> rp_avg (ac_rep a) x = rp_avg r x"
  proof -
    have "same_vars r (ac_rep ?a)" by (simp add: same_vars_def)
    from report_walk_fill [OF assms(5) d this _ _ assms(3), of g rest] assms(6)
    obtain a where w: "report_walk e k (fmt_time (re_env e)) (link_nodes index r vs) ?a = Some a"
      "ac_cp a = report_body (var_text e k r) True g" "ac_pp a = (if rest = [] then 0 else if g = [] then p else last g)"
      "rp_vm (ac_rep a) = rp_vm r" "rp_link (ac_rep a) = rp_link r" "g \<noteq> [] \<or> [] = nid \<longrightarrow> ac_nid a = nid"
      "rp_reads r \<le> rp_reads (ac_rep a)" "\<forall>x \<in> set g. avg_again e k r (ac_rep a) x" "\<forall>x. x \<notin> set g \<longrightarrow> rp_avg (ac_rep a) x = rp_avg r x"
      by (auto split del: if_split cong: if_cong)
    show thesis by (rule that [of a]) (use w in blast)+
  qed
  show ?thesis
  proof (cases "g = []")
    case True
    then have "report_frame e k (cval 5 (cfg_ST (hj_cfg (rp_link r)))) a = Some (ac_pp a, ac_rep a)"
      using a(2) by (simp add: report_frame_def)
    then have "hjt212_report e k index p r = Some (ac_pp a, ac_rep a)"
      by (simp add: report_start [OF assms(1,2)] a(1))
    then show ?thesis using True a by simp
  next
    case False
    have g: "set g \<subseteq> set (link_nodes index r vs)"
      using arg_cong [OF fill_append [OF assms(6)], of set] by auto
    have z: "\<forall>x \<in> set g. \<forall>f. 0 \<notin> set (var_text e k r f x)"
    proof (intro ballI allI)
      fix x f assume "x \<in> set g"
      with g assms(5) have "reportable e k nid r x" by blast
      then show "0 \<notin> set (var_text e k r f x)" by (simp add: var_text_ok)
    qed
    have l: "length (report_body (var_text e k r) True g) \<le> 960" using fill_bound [OF assms(6)] by simp
    have wf: "wf_cfg (hj_cfg (rp_link (ac_rep a)))" using assms(1) a(5) by (simp add: report_ok_def)
    have n: "ac_nid a = nid" using a(6) False by simp
    note f = report_frame_sends [OF wf a(2) n assms(4) False z l, of e k, unfolded a(5)]
    show ?thesis
      by (rule exI [of _ "(ac_rep a)\<lparr>rp_link := send (report_msg e k r nid g) (rp_link r)\<rparr>"])
        (use a False f in \<open>simp add: report_start [OF assms(1,2)] report_msg_def send_def\<close>)
  qed
qed

section \<open>A round of reports\<close>

lemma split_at_last:
  assumes "distinct vs" "filter P vs = g @ rest" "g \<noteq> []"
  shows "\<exists>xs ws. vs = xs @ last g # ws \<and> filter P ws = rest \<and> set g \<inter> set ws = {}"
proof -
  have y: "last g \<in> set (filter P vs)" using assms(2,3) by simp
  then obtain xs ws where v: "vs = xs @ last g # ws" by (auto dest: split_list)
  have g: "g = butlast g @ [last g]" using assms(3) by simp
  have "filter P xs @ last g # filter P ws = butlast g @ last g # rest"
  proof -
    have "P (last g)" using y by simp
    then have "filter P xs @ last g # filter P ws = g @ rest" using assms(2) by (simp add: v)
    then show ?thesis using g by (metis append.assoc append_Cons append_Nil)
  qed
  moreover have "last g \<notin> set (filter P xs)" "last g \<notin> set (filter P ws)"
    using assms(1) v by auto
  ultimately have "filter P xs = butlast g \<and> filter P ws = rest"
    by (simp add: append_Cons_eq_iff)
  moreover have "set (filter P xs @ [last g]) \<inter> set ws = {}" using assms(1) v by auto
  ultimately show ?thesis using v g by (metis)
qed

lemma same_var:
  assumes "same_vars r r'" "rp_avg r' x = rp_avg r x"
  shows "reportable e k nid r' x = reportable e k nid r x" "ready e k r' x = ready e k r x"
    "idle_var e k r' x = idle_var e k r x" "var_text e k r' f x = var_text e k r f x"
  using assms same_node [OF assms(1)]
  by (simp_all add: same_vars_def reportable_def ready_def idle_var_def due_at_def var_text_def)

lemma report_cp_cong: "(\<And>x f. x \<in> set g \<Longrightarrow> t f x = t' f x) \<Longrightarrow> report_cp t g = report_cp t' g"
  by (cases g) (auto simp: report_cp_def intro!: arg_cong [where f = concat])

lemma fill_progress:
  assumes "fill t True 0 xs = (g, rest)" "\<forall>x \<in> set xs. length (t True x) < 960" "rest \<noteq> []"
  shows "g \<noteq> []"
proof -
  obtain x ys where x: "xs = x # ys" using fill_append [OF assms(1)] assms(3) by (cases xs) auto
  with assms(2) have "length (t True x) < 960" by simp
  then show ?thesis by (rule fill_first) (use assms(1) in \<open>simp only: x\<close>)
qed

text \<open>
  After a report that stopped: the list is split behind the last variable sent, and what was
  left over is what is ready behind it.
\<close>

lemma report_left_over:
  assumes "stands_at r p us vs" "rp_vm r' = rp_vm r" "hj_cfg (rp_link r') = hj_cfg (rp_link r)"
    "\<forall>x. x \<notin> set g \<longrightarrow> rp_avg r' x = rp_avg r x"
    "filter (ready e k r) (link_nodes index r vs) = g @ rest" "g \<noteq> []"
    "\<forall>x \<in> set (link_nodes index r vs). reportable e k nid r x \<and> (ready e k r x \<or> idle_var e k r x)"
  obtains us' ws where "stands_at r' (last g) us' ws" "length ws < length vs" "last g \<noteq> 0"
    "filter (ready e k r') (link_nodes index r' ws) = rest" "set g \<inter> set rest = {}"
    "\<forall>x \<in> set (link_nodes index r' ws). reportable e k nid r' x \<and> (ready e k r' x \<or> idle_var e k r' x)"
    "\<forall>x \<in> set rest. \<forall>f. var_text e k r' f x = var_text e k r f x"
proof -
  have dv: "distinct vs" using stands_at_distinct [OF assms(1)] by simp
  let ?P = "\<lambda>x. up_match PROTO_HJT212 index (the (vm_heap (rp_vm r) x)) \<and> ready e k r x"
  have "filter ?P vs = g @ rest" using assms(5) by (simp add: up_nodes_def conj_commute)
  then obtain xs ws where v: "vs = xs @ last g # ws" "filter ?P ws = rest" "set g \<inter> set ws = {}"
    using split_at_last [OF dv _ assms(6)] by metis
  have sv: "same_vars r r'" using assms(2,3) by (simp add: same_vars_def)
  have ln: "link_nodes index r' ws = link_nodes index r ws" using assms(2) by (simp add: up_nodes_def)
  have sub: "set (link_nodes index r ws) \<subseteq> set ws" "set (link_nodes index r ws) \<subseteq> set (link_nodes index r vs)"
    using v(1) by (auto simp: up_nodes_def)
  have av: "rp_avg r' x = rp_avg r x" if "x \<in> set ws" for x using that v(3) assms(4) by auto
  note sm = same_var [OF sv av]
  have rw: "set rest \<subseteq> set ws" using v(2) by auto
  show ?thesis
  proof (rule that [of "us @ xs @ [last g]" ws])
    show "stands_at r' (last g) (us @ xs @ [last g]) ws" using assms(1,2) v(1) by (simp add: up_at_def)
    show "last g \<noteq> 0"
      using seg_in_heap assms(1) v(1) unfolding up_at_def by (metis Un_iff in_set_conv_decomp set_append)
    have "filter (ready e k r') (link_nodes index r' ws) = filter (ready e k r) (link_nodes index r ws)"
      unfolding ln using sub(1) sm(2) by (intro filter_cong) auto
    also have "\<dots> = rest" using v(2) by (simp add: up_nodes_def conj_commute)
    finally show "filter (ready e k r') (link_nodes index r' ws) = rest" .
    show "\<forall>x \<in> set (link_nodes index r' ws). reportable e k nid r' x \<and> (ready e k r' x \<or> idle_var e k r' x)"
      using assms(7) sub sm(1-3) unfolding ln by blast
    show "\<forall>x \<in> set rest. \<forall>f. var_text e k r' f x = var_text e k r f x" using sm(4) rw by blast
  qed (use v rw in auto)
qed

lemma report_msgs_cong:
  assumes "\<forall>x \<in> set (concat gs). \<forall>f. var_text e k r' f x = var_text e k r f x" "hj_cfg (rp_link r') = hj_cfg (rp_link r)"
  shows "map (report_msg e k r' nid) gs = map (report_msg e k r nid) gs"
proof (intro map_cong refl)
  fix h assume "h \<in> set gs"
  with assms(1) have "report_cp (var_text e k r') h = report_cp (var_text e k r) h"
    by (intro report_cp_cong) auto
  then show "report_msg e k r' nid h = report_msg e k r nid h" using assms(2) by (simp add: report_msg_def)
qed

lemma report_round:
  assumes "report_ok e r" "stands_at r p us vs" "length nid < 32" "0 \<notin> set nid"
    "\<forall>x \<in> set (link_nodes index r vs). reportable e k nid r x \<and> (ready e k r x \<or> idle_var e k r x)"
  shows "\<exists>r' gs. report_all e k index p r = Some r' \<and> rp_vm r' = rp_vm r
    \<and> concat gs = filter (ready e k r) (link_nodes index r vs) \<and> [] \<notin> set gs
    \<and> rp_link r' = (rp_link r)\<lparr>hj_sent := hj_sent (rp_link r) @ map (report_msg e k r nid) gs\<rparr>
    \<and> rp_reads r \<le> rp_reads r' \<and> (\<forall>x \<in> set (concat gs). avg_again e k r r' x)
    \<and> (\<forall>x. x \<notin> set (concat gs) \<longrightarrow> rp_avg r' x = rp_avg r x)"
  using assms
proof (induction "length vs" arbitrary: r p us vs rule: less_induct)
  case less
  let ?xs = "filter (ready e k r) (link_nodes index r vs)"
  obtain g rest where f: "fill (var_text e k r) True 0 ?xs = (g, rest)" by fastforce
  obtain r1 where r1: "hjt212_report e k index p r = Some (if rest = [] then 0 else if g = [] then p else last g, r1)"
    "rp_vm r1 = rp_vm r"
    "rp_link r1 = (rp_link r)\<lparr>hj_sent := hj_sent (rp_link r) @ (if g = [] then [] else [report_msg e k r nid g])\<rparr>"
    "\<forall>x \<in> set g. avg_again e k r r1 x" "\<forall>x. x \<notin> set g \<longrightarrow> rp_avg r1 x = rp_avg r x" "rp_reads r \<le> rp_reads r1"
    using report_call [OF less.prems f] by blast
  have gr: "?xs = g @ rest" using fill_append [OF f] by simp
  show ?case
  proof (cases "rest = []")
    case True
    have "report_all e k index p r = Some r1" by (subst report_all.simps) (simp add: r1(1) True)
    then show ?thesis using r1 gr True
      by (intro exI [of _ r1] exI [of _ "if g = [] then [] else [g]"]) auto
  next
    case False
    have ne: "g \<noteq> []" using fill_progress [OF f _ False] less.prems(5) var_text_ok by fastforce
    have c: "hj_cfg (rp_link r1) = hj_cfg (rp_link r)" using r1(3) by simp
    obtain us' ws where w: "stands_at r1 (last g) us' ws" "length ws < length vs" "last g \<noteq> 0"
      "filter (ready e k r1) (link_nodes index r1 ws) = rest" "set g \<inter> set rest = {}"
      "\<forall>x \<in> set (link_nodes index r1 ws). reportable e k nid r1 x \<and> (ready e k r1 x \<or> idle_var e k r1 x)"
      "\<forall>x \<in> set rest. \<forall>f. var_text e k r1 f x = var_text e k r f x"
      using report_left_over [OF less.prems(2) r1(2) c r1(5) gr ne less.prems(5)] by blast
    have "report_ok e r1" using less.prems(1) c by (simp add: report_ok_def)
    from less.hyps [OF w(2) this w(1) less.prems(3,4) w(6)] obtain r' gs where ih:
      "report_all e k index (last g) r1 = Some r'" "rp_vm r' = rp_vm r1" "concat gs = rest" "[] \<notin> set gs"
      "rp_link r' = (rp_link r1)\<lparr>hj_sent := hj_sent (rp_link r1) @ map (report_msg e k r1 nid) gs\<rparr>"
      "\<forall>x \<in> set rest. avg_again e k r1 r' x" "\<forall>x. x \<notin> set rest \<longrightarrow> rp_avg r' x = rp_avg r1 x" "rp_reads r1 \<le> rp_reads r'"
      by (auto simp: w(4))
    have m: "map (report_msg e k r1 nid) gs = map (report_msg e k r nid) gs"
      using w(7) c by (intro report_msgs_cong) (simp_all only: ih(3))
    have run: "report_all e k index p r = Some r'"
      by (subst report_all.simps) (simp add: r1(1) False ne w(3) ih(1))
    have avg: "\<forall>x \<in> set (g @ rest). avg_again e k r r' x"
    proof
      fix x assume x: "x \<in> set (g @ rest)"
      show "avg_again e k r r' x"
      proof (cases "x \<in> set g")
        case True
        with w(5) have "x \<notin> set rest" by auto
        with True ih(7) r1(4) show ?thesis using avg_again_later [OF _ ih(8)] by simp
      next
        case False
        with x have "avg_again e k r1 r' x" using ih(6) by simp
        with False r1(5,6) show ?thesis using avg_again_earlier by simp
      qed
    qed
    show ?thesis
      by (rule exI [of _ r'], rule exI [of _ "g # gs"])
        (use run ih r1 ne gr avg m in \<open>simp\<close>)
  qed
qed

section \<open>Variables of several nodes\<close>

text \<open>
  A report that meets variables of one node with nothing to send, and behind them a variable of
  another node, stops there and leaves everything as it is.
\<close>

lemma walk_idle:
  assumes "\<forall>z \<in> set zs. has_nid r nid z \<and> idle_var e k r z" "same_vars r (ac_rep a)"
    "\<forall>z \<in> set zs. rp_avg (ac_rep a) z = rp_avg r z" "ac_nid a = [] \<or> ac_nid a = nid" "length nid < 32"
  shows "report_walk e k dt (zs @ ys) a = report_walk e k dt ys (a\<lparr>ac_nid := (if zs = [] then ac_nid a else nid),
    ac_rep := (ac_rep a)\<lparr>rp_reads := rp_reads (ac_rep a) + length zs\<rparr>\<rparr>)"
  using assms
proof (induction zs arbitrary: a)
  case (Cons z zs)
  let ?a = "a\<lparr>ac_nid := nid, ac_rep := (ac_rep a)\<lparr>rp_reads := rp_reads (ac_rep a) + 1\<rparr>\<rparr>"
  have "report_node e k dt z a = Some (True, ?a)" using Cons.prems by (intro node_idle [of r]) auto
  moreover have "same_vars r (ac_rep ?a)" using Cons.prems(2) by (simp add: same_vars_def)
  ultimately show ?case using Cons.IH [of ?a] Cons.prems by (simp add: add.commute)
qed simp

lemma report_blocked:
  assumes "report_ok e r" "stands_at r p us vs" "link_nodes index r vs = zs @ q # ws" "zs \<noteq> []"
    "\<forall>z \<in> set zs. has_nid r nid z \<and> idle_var e k r z" "has_nid r other q" "other \<noteq> nid" "nid \<noteq> []" "length nid < 32"
  shows "hjt212_report e k index p r = Some (p, r\<lparr>rp_reads := rp_reads r + length zs\<rparr>)"
proof -
  let ?a = "\<lparr>ac_pp = p, ac_nid = [], ac_first = True, ac_cp = [], ac_rep = r\<rparr>"
  let ?b = "?a\<lparr>ac_nid := nid, ac_rep := r\<lparr>rp_reads := rp_reads r + length zs\<rparr>\<rparr>"
  have "report_walk e k (fmt_time (re_env e)) (zs @ q # ws) ?a = report_walk e k (fmt_time (re_env e)) (q # ws) ?b"
    using walk_idle [OF assms(5), of ?a] assms(4,9) by (simp add: same_vars_def)
  also have "\<dots> = Some ?b"
    using node_other [OF assms(6), of ?b] assms(7,8) by (simp add: same_vars_def)
  finally show ?thesis
    by (simp add: report_start [OF assms(1,2)] assms(3) report_frame_def)
qed


lemma report_blocked_again:
  assumes "report_ok e r" "stands_at r p us vs" "link_nodes index r vs = zs @ q # ws" "zs \<noteq> []"
    "\<forall>z \<in> set zs. has_nid r nid z \<and> idle_var e k r z" "has_nid r other q" "other \<noteq> nid" "nid \<noteq> []" "length nid < 32"
    "rp_vm r' = rp_vm r" "hj_cfg (rp_link r') = hj_cfg (rp_link r)" "\<forall>z \<in> set zs. rp_avg r' z = rp_avg r z"
  shows "hjt212_report e k index p r' = Some (p, r'\<lparr>rp_reads := rp_reads r' + length zs\<rparr>)"
proof (rule report_blocked [of e r' p us vs index zs q ws nid k other])
  have sv: "same_vars r r'" using assms(10,11) by (simp add: same_vars_def)
  have nid: "has_nid r' n x = has_nid r n x" for n x
    using same_node [OF sv] assms(10) by (simp add: has_nid_def)
  show "\<forall>z \<in> set zs. has_nid r' nid z \<and> idle_var e k r' z"
    using assms(5,12) same_var(3) [OF sv] nid by simp
  show "has_nid r' other q" using assms(6) nid by simp
qed (use assms in \<open>simp_all add: report_ok_def up_at_def up_nodes_def\<close>)

text \<open>A report that never moves on keeps the loop around it running.\<close>

lemma report_all_stuck:
  assumes "\<And>m. hjt212_report e k index p (r\<lparr>rp_reads := m\<rparr>) = Some (p, r\<lparr>rp_reads := m + c\<rparr>)" "p \<noteq> 0"
  shows "report_all e k index p (r\<lparr>rp_reads := m\<rparr>) = None"
proof -
  have "\<not> (e = e \<and> k = k \<and> index = index \<and> p = p \<and> (\<exists>n. r\<lparr>rp_reads := m\<rparr> = r\<lparr>rp_reads := n\<rparr>))"
    if "report_all e k index p (r\<lparr>rp_reads := m\<rparr>) = Some y" for y
  proof (rule report_all.raw_induct [where P = "\<lambda>e' k' i x s y. \<not> (e' = e \<and> k' = k \<and> i = index \<and> x = p
      \<and> (\<exists>n. s = r\<lparr>rp_reads := n\<rparr>))", OF _ that])
    fix rec e' k' i x s y
    assume ih: "\<And>e' k' i x s y. rec e' k' i x s = Some y \<Longrightarrow>
        \<not> (e' = e \<and> k' = k \<and> i = index \<and> x = p \<and> (\<exists>n. s = r\<lparr>rp_reads := n\<rparr>))"
      and run: "do { (pp, r) \<leftarrow> hjt212_report e' k' i x s; if pp = 0 then Some r else rec e' k' i pp r } = Some y"
    show "\<not> (e' = e \<and> k' = k \<and> i = index \<and> x = p \<and> (\<exists>n. s = r\<lparr>rp_reads := n\<rparr>))"
    proof
      assume "e' = e \<and> k' = k \<and> i = index \<and> x = p \<and> (\<exists>n. s = r\<lparr>rp_reads := n\<rparr>)"
      then obtain n where "e' = e" "k' = k" "i = index" "x = p" "s = r\<lparr>rp_reads := n\<rparr>" by blast
      with run assms have "rec e k index p (r\<lparr>rp_reads := n + c\<rparr>) = Some y" by simp
      then show False using ih by blast
    qed
  qed
  then show ?thesis by (metis not_None_eq)
qed

lemma report_first:
  assumes "report_ok e r" "chain ed_next (vm_heap (rp_vm r)) (vm_list (rp_vm r)) ps"
    "link_nodes index r ps = p # z # ws" "reportable e k nid r p" "ready e k r p" "has_nid r other z"
    "other \<noteq> nid" "nid \<noteq> []" "length nid < 32" "0 \<notin> set nid"
  shows "\<exists>r1. hjt212_report e k index 0 r = Some (p, r1) \<and> rp_vm r1 = rp_vm r
    \<and> rp_link r1 = send (report_msg e k r nid [p]) (rp_link r) \<and> (\<forall>x. x \<noteq> p \<longrightarrow> rp_avg r1 x = rp_avg r x)"
proof -
  let ?a = "\<lparr>ac_pp = 0, ac_nid = [], ac_first = True, ac_cp = [], ac_rep = r\<rparr>"
  have st: "stands_at r 0 [] ps" using assms(2) by (simp add: up_at_def)
  have t: "length (var_text e k r f p) < 960" "0 \<notin> set (var_text e k r f p)" for f
    using var_text_ok [OF assms(4)] by auto
  obtain a where a: "report_node e k (fmt_time (re_env e)) p ?a = Some (True, a)" "ac_nid a = nid"
    "rp_vm (ac_rep a) = rp_vm r" "rp_link (ac_rep a) = rp_link r"
    "ac_cp a = report_body (var_text e k r) True [p]" "ac_pp a = p" "\<forall>x. x \<noteq> p \<longrightarrow> rp_avg (ac_rep a) x = rp_avg r x"
    using node_ready [OF assms(4,5), of ?a] assms(9) t(1) [of True] by (auto simp: same_vars_def)
  have "report_node e k (fmt_time (re_env e)) z a = Some (False, a)"
    using node_other [OF assms(6), of a] a(2-4) assms(7,8) by (simp add: same_vars_def)
  then have w: "report_walk e k (fmt_time (re_env e)) (link_nodes index r ps) ?a = Some a"
    by (simp add: assms(3) a(1))
  have wf: "wf_cfg (hj_cfg (rp_link (ac_rep a)))" using assms(1) a(4) by (simp add: report_ok_def)
  have l: "length (report_body (var_text e k r) True [p]) \<le> 960" using t(1) [of True] by simp
  note f = report_frame_sends [OF wf a(5,2) assms(10) _ _ l, of e k, unfolded a(4,6)]
  show ?thesis
    by (rule exI [of _ "(ac_rep a)\<lparr>rp_link := send (report_msg e k r nid [p]) (rp_link r)\<rparr>"])
      (use a f t(2) in \<open>simp add: report_start [OF assms(1) st] w report_msg_def\<close>)
qed

section \<open>The thread\<close>

text \<open>One variable of the pass that takes the current values into the averages.\<close>

definition update_avgs :: "fpu \<Rightarrow> HJT212_Cfg \<Rightarrow> u64 \<Rightarrow> ext_avg \<Rightarrow> ext_avg" where
  "update_avgs fp cfg v x =
     (let x = (if real_flag cfg then x\<lparr>xAvgUp := bVarManage_UpdateAvgValue fp v (xAvgUp x)\<rparr> else x);
          x = (if min_flag cfg then x\<lparr>xAvgMin := bVarManage_UpdateAvgValue fp v (xAvgMin x)\<rparr> else x)
      in if hour_flag cfg then x\<lparr>xAvgHour := bVarManage_UpdateAvgValue fp v (xAvgHour x)\<rparr> else x)"

definition update_node :: "fpu \<Rightarrow> ptr \<Rightarrow> rep \<Rightarrow> rep option" where
  "update_node fp q r = do {
     d \<leftarrow> vm_heap (rp_vm r) q;
     let (ok, v) = bVarManage_GetExtValue fp (Some d) 0;
     Some (if up_bEnable d \<and> ok
       then r\<lparr>rp_avg := (rp_avg r)(q := update_avgs fp (hj_cfg (rp_link r)) v (rp_avg r q))\<rparr> else r) }"

partial_function (option) update_loop :: "fpu \<Rightarrow> nat \<Rightarrow> ptr \<Rightarrow> rep \<Rightarrow> rep option" where
  "update_loop fp index p r = do {
     q \<leftarrow> up_next PROTO_HJT212 index p (rp_vm r);
     if q = 0 then Some r
     else do { r \<leftarrow> update_node fp q r; update_loop fp index q r } }"

text \<open>\<open>rt_mq_recv\<close> with a time-out: the message is only printed.\<close>

definition work_recv :: "rep \<Rightarrow> rep" where
  "work_recv r = r\<lparr>rp_link := (rp_link r)\<lparr>hj_mq := tl (hj_mq (rp_link r))\<rparr>\<rparr>"

definition work_beat :: "rpt_env \<Rightarrow> u32 \<Rightarrow> rep \<Rightarrow> (u32 \<times> rep) option" where
  "work_beat e beat r = (let t = re_tick e (rp_reads r); r = r\<lparr>rp_reads := rp_reads r + 1\<rparr> in
     if rt_tick_from_millisecond (15 * 60 * 1000) \<le> t - beat
     then do {
       l \<leftarrow> hjt212_login_verify_req (re_env e) (rp_link r);
       Some (re_tick e (rp_reads r), r\<lparr>rp_link := l, rp_reads := rp_reads r + 1\<rparr>) }
     else Some (beat, r))"

definition work_reports :: "rpt_env \<Rightarrow> nat \<Rightarrow> rep \<Rightarrow> rep option" where
  "work_reports e index r = do {
     r \<leftarrow> (if real_flag (hj_cfg (rp_link r)) then report_all e Avg_Up index 0 r else Some r);
     r \<leftarrow> (if min_flag (hj_cfg (rp_link r)) then report_all e Avg_Min index 0 r else Some r);
     if hour_flag (hj_cfg (rp_link r)) then report_all e Avg_Hour index 0 r else Some r }"

text \<open>One turn of the inner loop of \<open>hjt212_work_task\<close>, once the network is connected.\<close>

definition work_turn :: "rpt_env \<Rightarrow> nat \<Rightarrow> u32 \<Rightarrow> rep \<Rightarrow> (u32 \<times> rep) option" where
  "work_turn e index beat r = do {
     r \<leftarrow> update_loop (re_fpu e) index 0 r;
     (beat, r) \<leftarrow> work_beat e beat (work_recv r);
     r \<leftarrow> work_reports e index r;
     Some (beat, r) }"

text \<open>
  The log-in before it: the request, and with \<open>verify_flag\<close> a second one after which a message
  has to arrive within 15 seconds (\<open>arrived\<close> are those the receiver queues meanwhile); any
  message will do. Without one the thread disconnects and starts again (\<open>None\<close> in the pair).
\<close>

definition work_login :: "rpt_env \<Rightarrow> HJT212_Data list \<Rightarrow> rep \<Rightarrow> (u32 option \<times> rep) option" where
  "work_login e arrived r = do {
     l \<leftarrow> hjt212_login_verify_req (re_env e) (rp_link r);
     if verify_flag (hj_cfg l) then do {
       l \<leftarrow> hjt212_login_verify_req (re_env e) l;
       let l = fold rt_mq_send arrived l;
       if hj_mq l = [] then Some (None, r\<lparr>rp_link := l\<rparr>)
       else Some (Some (re_tick e (rp_reads r)),
         work_recv (r\<lparr>rp_link := l, rp_reads := rp_reads r + 1\<rparr>)) }
     else Some (Some (re_tick e (rp_reads r)), r\<lparr>rp_link := l, rp_reads := rp_reads r + 1\<rparr>) }"

text \<open>The pass over the values is a walk over the variables of the link.\<close>

lemma update_node_frame: "update_node fp q r = Some r' \<Longrightarrow> rp_vm r' = rp_vm r \<and> rp_link r' = rp_link r"
  by (auto simp: update_node_def Let_def split: bind_splits if_splits prod.splits)

lemma update_loop_list:
  assumes "stands_at r p us vs"
  shows "update_loop fp index p r = runM (update_node fp) (link_nodes index r vs) r"
  using assms
proof (induction "length vs" arbitrary: p us vs r rule: less_induct)
  case less
  note nx = up_next_list [OF less.prems, of PROTO_HJT212 index]
  show ?case
  proof (cases "link_nodes index r vs")
    case Nil
    with nx show ?thesis by (subst update_loop.simps) simp
  next
    case (Cons q zs)
    have q: "q \<noteq> 0" using up_at_next [OF less.prems Cons] .
    obtain ws where w: "stands_at r q (us @ takeWhile (\<lambda>x. x \<noteq> q) vs @ [q]) ws"
      "zs = link_nodes index r ws" "vs = takeWhile (\<lambda>x. x \<noteq> q) vs @ q # ws"
      using up_at_step [OF less.prems Cons] .
    have l: "length ws < length vs"
      using arg_cong [OF w(3), of length] by (simp del: takeWhile_eq_all_conv)
    have go: "update_loop fp index q r' = runM (update_node fp) zs r'" if "update_node fp q r = Some r'" for r'
    proof -
      have "rp_vm r' = rp_vm r" using update_node_frame [OF that] by simp
      then have "stands_at r' q (us @ takeWhile (\<lambda>x. x \<noteq> q) vs @ [q]) ws" "link_nodes index r' ws = zs"
        using w(1,2) by (simp_all add: up_at_def up_nodes_def)
      then show ?thesis using less.hyps [OF l] by metis
    qed
    show ?thesis
      by (subst update_loop.simps) (cases "update_node fp q r"; simp add: nx Cons q go)
  qed
qed

end
