(* ===== verification/Hjt212_Cycle.thy ===== *)
theory Hjt212_Cycle
  imports Hjt212_Work
begin

text \<open>
  The configuration a HJ/T 212 link is opened with (\<open>sdccp/hjt212.c\<close>), its two test messages, and
  the properties of the cyclic reports: which variables a round of reports sends, that it ends
  when all of them belong to one node, and the two ways in which variables of several nodes
  defeat it.
\<close>

unbundle bit_operations_syntax

section \<open>Opening a link\<close>

text \<open>What the section \<open>common\<close> of the file \<open>/cfg/hjt212_<n>.ini\<close> says of a key, or the default.\<close>

record ini =
  ini_getstring :: "string \<Rightarrow> byte list"
  ini_getint :: "string \<Rightarrow> u32 \<Rightarrow> u32"
  ini_getboolean :: "string \<Rightarrow> bool \<Rightarrow> bool"

definition cfg_zero :: HJT212_Cfg where
  "cfg_zero = \<lparr>cfg_ST = replicate 6 0, cfg_PW = replicate 7 0, cfg_MN = replicate 15 0, ulPeriod = 0,
     verify_flag = False, real_flag = False, min_flag = False, hour_flag = False,
     no_min = False, no_max = False, no_avg = False, no_cou = False\<rparr>"

text \<open>
  \<open>memcpy (ST, "31", 5)\<close> reads two bytes behind the literal; \<open>tail\<close> is what is there.
\<close>

definition prvHjt212DefaultCfg :: "byte list \<Rightarrow> byte list \<Rightarrow> HJT212_Cfg \<Rightarrow> HJT212_Cfg" where
  "prvHjt212DefaultCfg tail szId c =
     (let c = c\<lparr>cfg_ST := lit ''31'' @ [0] @ take 2 tail @ drop 5 (cfg_ST c),
                cfg_PW := lit ''123456'' @ drop 6 (cfg_PW c),
                cfg_MN := lit ''12345678901234'' @ drop 14 (cfg_MN c)\<rparr>
      in if szId \<noteq> [] then c\<lparr>cfg_MN := strncpy_arr 15 szId\<rparr> else c)"

definition NET_IS_GPRS :: "nat \<Rightarrow> bool" where
  "NET_IS_GPRS n = (BOARD_ENET_TCPIP_NUM \<le> n \<and> n < BOARD_TCPIP_MAX)"

definition ini_cfg :: "ini \<Rightarrow> nat \<Rightarrow> HJT212_Cfg \<Rightarrow> HJT212_Cfg" where
  "ini_cfg i index c =
     (let st = ini_getstring i ''st''; pw = ini_getstring i ''pw''; mn = ini_getstring i ''mn'';
          period = ini_getint i ''period'' 1000;
          low = (if NET_IS_GPRS index then 3000 else 1000)
      in c\<lparr>cfg_ST := (if st \<noteq> [] then strncpy_arr 6 st else cfg_ST c),
           cfg_PW := (if pw \<noteq> [] then strncpy_arr 7 pw else cfg_PW c),
           cfg_MN := (if mn \<noteq> [] then strncpy_arr 15 mn else cfg_MN c),
           ulPeriod := (if period < low then low else period),
           verify_flag := ini_getboolean i ''verify_flag'' False,
           real_flag := ini_getboolean i ''real_flag'' False,
           min_flag := ini_getboolean i ''min_flag'' False,
           hour_flag := ini_getboolean i ''hour_flag'' False,
           no_cou := ini_getboolean i ''no_cou'' False, no_min := ini_getboolean i ''no_min'' False,
           no_max := ini_getboolean i ''no_max'' False, no_avg := ini_getboolean i ''no_avg'' False\<rparr>)"

text \<open>
  The blocks of the configuration and of the receive buffer are new; \<open>hjt212_close\<close> has freed the
  old ones and the old queue. \<open>alloc\<close> says whether they are found: the code does not test it.
\<close>

definition hjt212_open :: "bool \<Rightarrow> byte list \<Rightarrow> byte list \<Rightarrow> ini \<Rightarrow> nat \<Rightarrow> hjt_link \<Rightarrow> hjt_link option" where
  "hjt212_open alloc tail szId i index l = (if alloc
     then Some (l\<lparr>hj_cfg := ini_cfg i index (prvHjt212DefaultCfg tail szId cfg_zero),
       hj_buf := replicate HJT212_BUF_SIZE 0, hj_pos := 0, hj_rcv := HJT212_R_S_HEAD, hj_mq := []\<rparr>)
     else None)"

section \<open>Test messages\<close>

text \<open>The request the platform would make, which is only printed.\<close>

definition hjt212_request_get_system_time :: "env \<Rightarrow> hjt_link \<Rightarrow> byte list option" where
  "hjt212_request_get_system_time e st = (if \<not> e_alloc e then Some [] else do {
     _ \<leftarrow> sprintf_chk (e_slack e) 20 (fmt_qn e);
     cfgst \<leftarrow> cstr (cfg_ST (hj_cfg st));
     stt \<leftarrow> sprintf_chk (e_slack e) 6 cfgst;
     cn \<leftarrow> sprintf_chk (e_slack e) 8 (dec (cmd_code CMD_REQUEST_UPLOAD_TIME));
     Hjt212Encode None (Some (stt @ [0])) (Some (cn @ [0])) (Some (cfg_PW (hj_cfg st)))
       (Some (cfg_MN (hj_cfg st))) (Some (lit ''1'' @ [0])) (Some [0, 0]) 256 })"

fun test_items :: "fpu \<Rightarrow> nat \<Rightarrow> string list \<Rightarrow> byte list \<Rightarrow> byte list option" where
  "test_items fp slack [] s = Some s"
| "test_items fp slack (f # fs) s = do {
     s \<leftarrow> hjt212_real_data_format_cp fp slack False (Some (lit f)) 0 FLAG_N [] s;
     s \<leftarrow> (if fs \<noteq> [] then strcat_chk s (lit '';'') else Some s);
     test_items fp slack fs s }"

definition hjt212_report_real_data_test :: "rpt_env \<Rightarrow> hjt_link \<Rightarrow> hjt_link option" where
  "hjt212_report_real_data_test e st = (if \<not> e_alloc (re_env e) then Some st
     else if \<not> re_alloc e then None
     else do {
       cp \<leftarrow> test_items (re_fpu e) (e_slack (re_env e)) [''Leq'', ''130'', ''111'', ''112'', ''108'', ''109'', ''110'']
         (lit ''DataTime=20160921085900;'');
       f \<leftarrow> Hjt212Encode None (Some (lit ''32'' @ [0])) (Some (lit ''2011'' @ [0])) (Some (lit ''123456'' @ [0]))
         (Some (lit ''YCDB0ZE0C00004'' @ [0])) None (Some (cp @ [0])) 1024;
       Some (send f st) })"

section \<open>Short texts\<close>

lemma put_part_ok:
  assumes "length t \<le> 49" "length s \<le> 900" "0 \<notin> set t" "0 \<notin> set s"
  shows "\<exists>s'. put_part slack c t s = Some s' \<and> length s' \<le> length s + 49 \<and> 0 \<notin> set s'"
  using assms by (auto simp: put_part_def sprintf_chk_def strcat_chk_def)

lemma put_comma_ok:
  assumes "length s \<le> 900" "0 \<notin> set s"
  shows "\<exists>s'. put_comma c s = Some s' \<and> length s' \<le> length s + 1 \<and> 0 \<notin> set s'"
  using assms by (auto simp: put_comma_def strcat_chk_def)

text \<open>
  With a name of at most 20 characters and numbers of at most 20 the text of a variable fits
  into \<open>tmp[50]\<close>, part by part.
\<close>

lemma real_text_short:
  assumes "length f \<le> 20" "0 \<notin> set f" "\<And>v. length (fp_text fp v) \<le> 20 \<and> 0 \<notin> set (fp_text fp v)"
    "length dt = 14" "0 \<notin> set dt" "k = Avg_Up"
  shows "\<exists>t. report_text fp slack c k dt (Some f) first v = Some t \<and> length t < 960 \<and> 0 \<notin> set t"
proof -
  let ?n = "fp_text fp (fp_widen fp (fp_narrow fp (fp_div fp (va_avg v) (fp_int fp (uint (va_count v))))))"
  have n: "length ?n \<le> 20" "0 \<notin> set ?n" using assms(3) by blast+
  obtain a where a: "put_part slack (dt \<noteq> [] \<and> first) (lit ''DataTime='' @ dt @ lit '';'') [] = Some a"
    "length a \<le> 49" "0 \<notin> set a"
    using put_part_ok [of "lit ''DataTime='' @ dt @ lit '';''" "[]" slack "dt \<noteq> [] \<and> first"] assms(4,5) by auto
  obtain b where b: "put_part slack True (f @ lit ''-Rtd='' @ ?n @ lit '','') a = Some b"
    "length b \<le> 98" "0 \<notin> set b"
    using put_part_ok [of "f @ lit ''-Rtd='' @ ?n @ lit '',''" a slack True] a(2,3) assms(1,2) n by auto
  obtain t where t: "put_part slack True (f @ lit ''-Flag='' @ [FLAG_N]) b = Some t" "length t \<le> 147" "0 \<notin> set t"
    using put_part_ok [of "f @ lit ''-Flag='' @ [FLAG_N]" b slack True] b(2,3) assms(1,2) by (auto simp: FLAG_N_def)
  have "report_text fp slack c k dt (Some f) first v = Some t"
    using a(1) b(1) t(1) assms(6)
    by (simp add: report_text_def hjt212_real_data_format_cp_def FLAG_N_def FLAG_DISABLE_def del: lit_Cons)
  with t show ?thesis by auto
qed

lemma minutes_text_short:
  assumes "length f \<le> 20" "0 \<notin> set f" "\<And>v. length (fp_text fp v) \<le> 20 \<and> 0 \<notin> set (fp_text fp v)"
    "length dt = 14" "0 \<notin> set dt" "k \<noteq> Avg_Up"
  shows "\<exists>t. report_text fp slack c k dt (Some f) first v = Some t \<and> length t < 960 \<and> 0 \<notin> set t"
proof -
  let ?x = "fp_div fp (va_avg v) (fp_int fp (uint (va_count v)))"
  have part: "\<exists>s'. put_part slack b (f @ lit nm @ fp_text fp w) s = Some s' \<and> length s' \<le> length s + 49 \<and> 0 \<notin> set s'"
    if "length nm \<le> 5" "0 \<notin> set (lit nm)" "length s \<le> 900" "0 \<notin> set s" for b nm w s
    using put_part_ok [of "f @ lit nm @ fp_text fp w" s slack b] that assms(1,2) assms(3) [of w] by auto
  obtain s0 where s0: "put_part slack (dt \<noteq> [] \<and> first) (lit ''DataTime='' @ dt @ lit '';'') [] = Some s0"
    "length s0 \<le> 49" "0 \<notin> set s0"
    using put_part_ok [of "lit ''DataTime='' @ dt @ lit '';''" "[]" slack "dt \<noteq> [] \<and> first"] assms(4,5) by auto
  obtain s1 where s1: "put_part slack (\<not> no_cou c) (f @ lit ''-Cou='' @ fp_text fp (va_avg v)) s0 = Some s1"
    "length s1 \<le> 98" "0 \<notin> set s1"
    using part [of "''-Cou=''" s0 "\<not> no_cou c" "va_avg v"] s0 by auto
  obtain s2 where s2: "put_comma (\<not> no_min c \<and> \<not> no_cou c) s1 = Some s2" "length s2 \<le> 99" "0 \<notin> set s2"
    using put_comma_ok [of s1 "\<not> no_min c \<and> \<not> no_cou c"] s1 by auto
  obtain s3 where s3: "put_part slack (\<not> no_min c) (f @ lit ''-Min='' @ fp_text fp (fp_widen fp (va_min v))) s2 = Some s3"
    "length s3 \<le> 148" "0 \<notin> set s3"
    using part [of "''-Min=''" s2 "\<not> no_min c" "fp_widen fp (va_min v)"] s2 by auto
  obtain s4 where s4: "put_comma (\<not> no_avg c \<and> (\<not> no_cou c \<or> \<not> no_min c)) s3 = Some s4" "length s4 \<le> 149" "0 \<notin> set s4"
    using put_comma_ok [of s3 "\<not> no_avg c \<and> (\<not> no_cou c \<or> \<not> no_min c)"] s3 by auto
  obtain s5 where s5: "put_part slack (\<not> no_avg c) (f @ lit ''-Avg='' @ fp_text fp (fp_widen fp (fp_narrow fp ?x))) s4 = Some s5"
    "length s5 \<le> 198" "0 \<notin> set s5"
    using part [of "''-Avg=''" s4 "\<not> no_avg c" "fp_widen fp (fp_narrow fp ?x)"] s4 by auto
  obtain s6 where s6: "put_comma (\<not> no_max c \<and> (\<not> no_cou c \<or> \<not> no_min c \<or> \<not> no_avg c)) s5 = Some s6"
    "length s6 \<le> 199" "0 \<notin> set s6"
    using put_comma_ok [of s5 "\<not> no_max c \<and> (\<not> no_cou c \<or> \<not> no_min c \<or> \<not> no_avg c)"] s5 by auto
  obtain t where t: "put_part slack (\<not> no_max c) (f @ lit ''-Max='' @ fp_text fp (fp_widen fp (va_max v))) s6 = Some t"
    "length t \<le> 248" "0 \<notin> set t"
    using part [of "''-Max=''" s6 "\<not> no_max c" "fp_widen fp (va_max v)"] s6 by auto
  have e: "put_part slack False x [] = Some []" for x by (simp add: put_part_def)
  have "report_text fp slack c k dt (Some f) first v = Some t"
    using assms(6) by (simp add: report_text_def hjt212_minutes_data_format_cp_def e s0 s1 s2 s3
      s4 [simplified] s5 s6 [simplified] t(1)
      del: lit_Cons)
  with t show ?thesis by auto
qed

lemma report_text_short:
  assumes "length f \<le> 20" "0 \<notin> set f" "\<And>v. length (fp_text fp v) \<le> 20 \<and> 0 \<notin> set (fp_text fp v)"
    "length dt = 14" "0 \<notin> set dt"
  shows "\<exists>t. report_text fp slack c k dt (Some f) first v = Some t \<and> length t < 960 \<and> 0 \<notin> set t"
  using real_text_short [OF assms] minutes_text_short [OF assms] by (cases "k = Avg_Up") blast+

section \<open>Properties\<close>

text \<open>An average that starts again, without the steps of the program.\<close>

definition avg_restarted :: "u32 \<Rightarrow> VarAvg \<Rightarrow> VarAvg" where
  "avg_restarted t a = \<lparr>va_time = t, va_count = 0, va_avg = 0, va_cur = va_cur a, va_min = 0, va_max = 0\<rparr>"

lemma avg_reset_restarted: "avg_reset t a = avg_restarted t a"
  by (cases a) (simp add: avg_reset_def avg_restarted_def)

text \<open>
  C5. A round of reports is complete when all variables of the link belong to one node, have live
  strings and short texts, and are each ready (values since the last report, period over) or
  idle. The loop around the report ends; every ready variable goes into exactly one frame, in
  the order of the list, no frame is empty, each is the frame of the texts of its variables, and
  exactly the reported averages have been started again: sum, minimum, maximum and count are 0, the
  time is a tick that was read during the round, and the other averages of the variable are as
  before.
\<close>

theorem hjt212_report_complete:
  assumes "report_ok e r" "chain ed_next (vm_heap (rp_vm r)) (vm_list (rp_vm r)) ps"
    and "length nid < 32" "0 \<notin> set nid"
    and "\<forall>x \<in> set (link_nodes index r ps). reportable e k nid r x \<and> (ready e k r x \<or> idle_var e k r x)"
  shows "\<exists>r' gs. report_all e k index 0 r = Some r'
    \<and> concat gs = filter (ready e k r) (link_nodes index r ps) \<and> [] \<notin> set gs
    \<and> rp_link r' = (rp_link r)\<lparr>hj_sent := hj_sent (rp_link r) @ map (report_msg e k r nid) gs\<rparr>
    \<and> (\<forall>x \<in> set (concat gs). \<exists>n. rp_reads r \<le> n \<and> n < rp_reads r'
        \<and> rp_avg r' x = avg_set k (avg_restarted (re_tick e n) (avg_get k (rp_avg r x))) (rp_avg r x))
    \<and> (\<forall>x. x \<notin> set (concat gs) \<longrightarrow> rp_avg r' x = rp_avg r x)"
proof -
  have "stands_at r 0 [] ps" using assms(2) by (simp add: up_at_def)
  from report_round [OF assms(1) this assms(3-5)] show ?thesis
    unfolding avg_again_def avg_reset_restarted by blast
qed

text \<open>
  C40. Variables of several nodes can keep the thread from ever returning: when a ready variable
  of one node is followed by variables of a second node with nothing to send (an array variable
  never has a value) and then by a variable of yet another node, the first report sends the first
  variable, every further one sends nothing and stays at the same place, and the loop around
  them never ends.
\<close>

theorem hjt212_report_livelock:
  assumes "report_ok e r" "chain ed_next (vm_heap (rp_vm r)) (vm_list (rp_vm r)) ps"
    and "link_nodes index r ps = p # zs @ q # ws" "zs \<noteq> []"
    and "reportable e k n0 r p" "ready e k r p" "n0 \<noteq> []" "length n0 < 32" "0 \<notin> set n0"
    and "\<forall>z \<in> set zs. has_nid r n1 z \<and> idle_var e k r z" "n1 \<noteq> []" "n1 \<noteq> n0" "length n1 < 32"
    and "has_nid r n2 q" "n2 \<noteq> n1"
  shows "\<exists>r1. hjt212_report e k index 0 r = Some (p, r1)
    \<and> (\<forall>m. hjt212_report e k index p (r1\<lparr>rp_reads := m\<rparr>) = Some (p, r1\<lparr>rp_reads := m + length zs\<rparr>))
    \<and> report_all e k index 0 r = None"
proof -
  obtain z ys where z: "zs = z # ys" using assms(4) by (cases zs) auto
  have hz: "has_nid r n1 z" using assms(10) z by simp
  have ln: "link_nodes index r ps = p # z # (ys @ q # ws)" using assms(3) z by simp
  obtain r1 where r1: "hjt212_report e k index 0 r = Some (p, r1)" "rp_vm r1 = rp_vm r"
    "rp_link r1 = send (report_msg e k r n0 [p]) (rp_link r)" "\<forall>x. x \<noteq> p \<longrightarrow> rp_avg r1 x = rp_avg r x"
    using report_first [OF assms(1,2) ln assms(5,6) hz assms(12,7,8,9)] by blast
  have st: "stands_at r 0 [] ps" using assms(2) by (simp add: up_at_def)
  obtain vs where vs: "stands_at r p ([] @ takeWhile (\<lambda>x. x \<noteq> p) ps @ [p]) vs" "zs @ q # ws = link_nodes index r vs"
    using up_at_step [OF st assms(3)] by metis
  have p0: "p \<noteq> 0" using up_at_next [OF st assms(3)] .
  have "p \<notin> set zs"
  proof -
    have "distinct (link_nodes index r ps)"
      using chain_distinct [OF assms(2)] by (simp add: up_nodes_def)
    then show ?thesis by (simp add: assms(3))
  qed
  then have av: "\<forall>z \<in> set zs. rp_avg r1 z = rp_avg r z" using r1(4) by metis
  have rpt: "hjt212_report e k index p (r1\<lparr>rp_reads := m\<rparr>) = Some (p, r1\<lparr>rp_reads := m + length zs\<rparr>)" for m
    using report_blocked_again [OF assms(1) vs(1) vs(2) [symmetric] assms(4,10,14,15,11,13), of "r1\<lparr>rp_reads := m\<rparr>"]
      r1(2,3) av by (simp add: send_def)
  have "report_all e k index p r1 = None"
    using report_all_stuck [of e k index p r1 "length zs" "rp_reads r1"] rpt p0 by simp
  then have "report_all e k index 0 r = None" by (subst report_all.simps) (simp add: r1(1) p0)
  with r1(1) rpt show ?thesis by blast
qed

text \<open>
  Variables of a node with nothing to send at the front of the list keep all variables of the
  link behind them, from the first one of another node on, from ever being reported: the round
  ends at once and sends nothing.
\<close>

theorem hjt212_report_starves:
  assumes "report_ok e r" "chain ed_next (vm_heap (rp_vm r)) (vm_list (rp_vm r)) ps"
    and "link_nodes index r ps = zs @ q # ws" "zs \<noteq> []"
    and "\<forall>z \<in> set zs. has_nid r n1 z \<and> idle_var e k r z" "n1 \<noteq> []" "length n1 < 32"
    and "has_nid r n2 q" "n2 \<noteq> n1"
  shows "report_all e k index 0 r = Some (r\<lparr>rp_reads := rp_reads r + length zs\<rparr>)"
proof -
  have "stands_at r 0 [] ps" using assms(2) by (simp add: up_at_def)
  then have "hjt212_report e k index 0 r = Some (0, r\<lparr>rp_reads := rp_reads r + length zs\<rparr>)"
    using report_blocked [of e r 0 "[]" ps index zs q ws n1 k n2] assms by simp
  then show ?thesis by (subst report_all.simps) simp
qed

lemma login_sent:
  assumes "wf_cfg (hj_cfg l)" "wf_env e" "e_alloc e"
  shows "\<exists>f. hjt212_login_verify_req e l = Some (send f l)"
proof -
  let ?c = "hj_cfg l"
  have st: "cstr (cfg_ST ?c) = Some (cval 5 (cfg_ST ?c))"
    using assms(1) by (intro cstr_cval) (simp_all add: wf_cfg_def)
  have q: "copy_loop 17 (fmt_qn e @ [0]) = Some (fmt_qn e)"
    using copy_loop_term [OF fmt_qn_nonzero(1), of 17 e] length_fmt_qn [OF assms(2)] by simp
  have s: "copy_loop 5 (cval 5 (cfg_ST ?c) @ [0]) = Some (cval 5 (cfg_ST ?c))"
    by (subst copy_loop_term) (simp_all add: cval_nonzero length_cval)
  have c: "copy_loop 4 (lit ''9021'' @ [0]) = Some (lit ''9021'')" by (simp add: copy_loop_def)
  have p: "copy_loop 6 (cfg_PW ?c) = Some (cval 6 (cfg_PW ?c))" "copy_loop 14 (cfg_MN ?c) = Some (cval 14 (cfg_MN ?c))"
    using assms(1) by (simp_all add: copy_loop_cval wf_cfg_def)
  have z: "cstr [0] = Some []" by (simp add: cstr_def)
  have l: "length (fmt_qn e) = 17" "length (cval 5 (cfg_ST ?c)) \<le> 5" "length (cval 6 (cfg_PW ?c)) \<le> 6"
    "length (cval 14 (cfg_MN ?c)) \<le> 14"
    using length_fmt_qn [OF assms(2)] length_cval by blast+
  show ?thesis
    using assms(3) st q s c p z l
    by (simp add: hjt212_login_verify_req_def sprintf_chk_def dec_codes Hjt212Encode_def enc_data_def enc_field_def
      enc_flag_def enc_cp_def) blast
qed

lemma open_wf:
  assumes "length tail = 2" "0 \<notin> set (ini_getstring i ''st'')"
  shows "wf_cfg (ini_cfg i index (prvHjt212DefaultCfg tail szId cfg_zero)) \<longleftrightarrow> length (ini_getstring i ''st'') < 6"
  using assms by (auto simp: wf_cfg_def ini_cfg_def prvHjt212DefaultCfg_def cfg_zero_def strncpy_zero Let_def)

text \<open>
  Opening a link leaves it at the head of a frame with an empty queue and a period of at
  least one second (three on GPRS). Its configuration is well formed, and the log-in can be
  sent, exactly when the code of the system type has fewer than six characters; with more of
  them the array has no terminator, and every message reads past it.
\<close>

theorem hjt212_open_config:
  assumes "length tail = 2" "0 \<notin> set (ini_getstring i ''st'')" "wf_env e" "e_alloc e"
  shows "\<exists>l'. hjt212_open True tail szId i index l = Some l'
    \<and> hj_rcv l' = HJT212_R_S_HEAD \<and> hj_pos l' = 0 \<and> hj_mq l' = []
    \<and> (if NET_IS_GPRS index then 3000 else 1000) \<le> ulPeriod (hj_cfg l')
    \<and> (hjt_ok l' \<longleftrightarrow> length (ini_getstring i ''st'') < 6)
    \<and> (hjt212_login_verify_req e l' \<noteq> None \<longleftrightarrow> length (ini_getstring i ''st'') < 6)"
proof -
  let ?c = "ini_cfg i index (prvHjt212DefaultCfg tail szId cfg_zero)"
  let ?l = "l\<lparr>hj_cfg := ?c, hj_buf := replicate HJT212_BUF_SIZE 0, hj_pos := 0, hj_rcv := HJT212_R_S_HEAD, hj_mq := []\<rparr>"
  have p: "(if NET_IS_GPRS index then 3000 else 1000) \<le> ulPeriod ?c"
    by (simp add: ini_cfg_def Let_def not_less)
  have ok: "hjt_ok ?l \<longleftrightarrow> length (ini_getstring i ''st'') < 6"
    using open_wf [OF assms(1,2)] by (simp add: hjt_ok_def mq_ok_def HJT212_BUF_SIZE_def)
  have login: "hjt212_login_verify_req e ?l \<noteq> None \<longleftrightarrow> length (ini_getstring i ''st'') < 6"
  proof
    assume "length (ini_getstring i ''st'') < 6"
    then show "hjt212_login_verify_req e ?l \<noteq> None"
      using login_sent [of ?l e] open_wf [OF assms(1,2)] assms(3,4) by auto
  next
    assume "hjt212_login_verify_req e ?l \<noteq> None"
    then have "cstr (cfg_ST ?c) \<noteq> None" using assms(4) by (auto simp: hjt212_login_verify_req_def split: bind_splits)
    then have "0 \<in> set (cfg_ST ?c)" by (simp add: cstr_def split: if_splits)
    then show "length (ini_getstring i ''st'') < 6"
      using strncpy_zero [OF assms(2), of 6] by (auto simp: ini_cfg_def Let_def split: if_splits)
  qed
  show ?thesis
    by (rule exI [of _ ?l]) (use p ok login in \<open>simp add: hjt212_open_def\<close>)
qed


section \<open>Witnesses\<close>

definition w_fpu :: fpu where
  "w_fpu = \<lparr>fp_int = (\<lambda>_. 0), fp_widen = (\<lambda>_. 0), fp_narrow = (\<lambda>_. 0), fp_add = (\<lambda>_ _. 0), fp_div = (\<lambda>_ _. 0),
     fp_less = (\<lambda>_ _. False), fp_text = (\<lambda>_. lit ''0.0000'')\<rparr>"

definition w_rpt :: rpt_env where
  "w_rpt = \<lparr>re_env = w_env, re_tick = (\<lambda>_. 5000), re_alloc = True, re_fpu = w_fpu\<rparr>"

definition w_up :: "ptr \<Rightarrow> ptr \<Rightarrow> ptr \<Rightarrow> ExtData" where
  "w_up nid nxt prv = (plain_var 1024 nxt prv)\<lparr>up_bEnable := True, szNid := nid, szFid := 102,
     up_usDevType := 4, up_usDevNum := 0, up_usProtoType := 3\<rparr>"

text \<open>The variables at even addresses have one value, those at odd addresses none.\<close>

definition w_avg :: "nat \<Rightarrow> VarAvg" where
  "w_avg p = \<lparr>va_time = 0, va_count = (if even p then 1 else 0), va_avg = 0, va_cur = 0, va_min = 0, va_max = 0\<rparr>"

definition w_rep :: "ExtData heap \<Rightarrow> ptr \<Rightarrow> rep" where
  "w_rep h l = \<lparr>rp_link = w_link, rp_vm = (vars_of h l 3)\<lparr>vm_str := [100 \<mapsto> lit ''A'', 101 \<mapsto> lit ''B'', 102 \<mapsto> lit ''Leq'']\<rparr>,
     rp_avg = (\<lambda>p. \<lparr>xAvgUp = w_avg p, xAvgMin = w_avg p, xAvgHour = w_avg p\<rparr>), rp_reads = 0\<rparr>"

lemma w_rep_simps [simp]:
  "rp_link (w_rep h l) = w_link" "vm_heap (rp_vm (w_rep h l)) = h" "vm_list (rp_vm (w_rep h l)) = l"
  "vm_str (rp_vm (w_rep h l)) = [100 \<mapsto> lit ''A'', 101 \<mapsto> lit ''B'', 102 \<mapsto> lit ''Leq'']"
  "rp_avg (w_rep h l) p = \<lparr>xAvgUp = w_avg p, xAvgMin = w_avg p, xAvgHour = w_avg p\<rparr>" "rp_reads (w_rep h l) = 0"
  "ed_next (w_up a b c) = b" "up_bEnable (w_up a b c)" "szNid (w_up a b c) = a" "szFid (w_up a b c) = 102"
  by (simp_all add: w_rep_def w_up_def vars_of_def)

lemma w_avg_get: "avg_get k \<lparr>xAvgUp = w_avg p, xAvgMin = w_avg p, xAvgHour = w_avg p\<rparr> = w_avg p"
  by (cases k) simp_all

lemma w_of_link: "up_match PROTO_HJT212 0 (w_up a b c)"
  by (simp add: up_match_def w_up_def plain_var_def PROTO_DEV_NET_TYPE_def BOARD_ENET_TCPIP_NUM_def
    PROTO_DEV_NET_def PROTO_HJT212_def)

lemma w_env_ok: "wf_env w_env" "e_alloc w_env"
  by (simp_all add: wf_env_def w_env_def)

lemma w_report_ok: "report_ok w_rpt (w_rep h l)"
  using w_idle w_env_ok by (simp add: report_ok_def w_rpt_def idle_def hjt_ok_def)

lemma w_nid:
  "h p = Some (w_up 100 b c) \<Longrightarrow> has_nid (w_rep h l) (lit ''A'') p"
  "h p = Some (w_up 101 b c) \<Longrightarrow> has_nid (w_rep h l) (lit ''B'') p"
  by (simp_all add: has_nid_def node_nid_def)

lemma w_reportable:
  assumes "h p = Some (w_up 100 b c)"
  shows "reportable w_rpt k (lit ''A'') (w_rep h l) p"
proof -
  have "node_nid (w_rep h l) (w_up 100 b c) = Some (lit ''A'')"
    "node_fid (w_rep h l) (w_up 100 b c) = Some (Some (lit ''Leq''))"
    by (simp_all add: node_nid_def node_fid_def)
  moreover have "\<exists>t. report_text (re_fpu w_rpt) s c' k (fmt_time (re_env w_rpt)) (Some (lit ''Leq'')) f v = Some t
      \<and> length t < 960 \<and> 0 \<notin> set t" for s c' f v
    using fmt_qn_nonzero(2) [of w_env] length_fmt_time [OF w_env_ok(1)]
    by (intro report_text_short) (simp_all add: w_rpt_def w_fpu_def)
  ultimately show ?thesis using assms by (auto simp: reportable_def)
qed

lemma w_ready: "even p \<Longrightarrow> ready w_rpt Avg_Up (w_rep h l) p" "odd p \<Longrightarrow> idle_var w_rpt k (w_rep h l) p"
  "odd p \<Longrightarrow> \<not> ready w_rpt k (w_rep h l) p"
  by (simp_all add: ready_def idle_var_def due_at_def w_rpt_def w_link_def w_cfg_def w_avg_get)
    (simp_all add: w_avg_def)

theorem hjt212_report_complete_witness:
  "\<exists>r' gs. report_all w_rpt Avg_Up 0 0 (w_rep [16 \<mapsto> w_up 100 17 0, 17 \<mapsto> w_up 100 0 16] 16) = Some r'
    \<and> concat gs = [16] \<and> [] \<notin> set gs \<and> hj_sent (rp_link r') = map (report_msg w_rpt Avg_Up
        (w_rep [16 \<mapsto> w_up 100 17 0, 17 \<mapsto> w_up 100 0 16] 16) (lit ''A'')) gs"
proof -
  let ?r = "w_rep [16 \<mapsto> w_up 100 17 0, 17 \<mapsto> w_up 100 0 16] 16"
  have c: "chain ed_next (vm_heap (rp_vm ?r)) (vm_list (rp_vm ?r)) [16, 17]" by simp
  have l: "link_nodes 0 ?r [16, 17] = [16, 17]" by (simp add: up_nodes_def w_of_link)
  have "\<forall>x \<in> set (link_nodes 0 ?r [16, 17]). reportable w_rpt Avg_Up (lit ''A'') ?r x
      \<and> (ready w_rpt Avg_Up ?r x \<or> idle_var w_rpt Avg_Up ?r x)"
    using w_reportable w_ready by (simp add: l)
  from hjt212_report_complete [OF w_report_ok c _ _ this] obtain r' gs
    where "report_all w_rpt Avg_Up 0 0 ?r = Some r'" "concat gs = [16]" "[] \<notin> set gs"
      "rp_link r' = w_link\<lparr>hj_sent := [] @ map (report_msg w_rpt Avg_Up ?r (lit ''A'')) gs\<rparr>"
    using w_ready by (auto simp: l w_link_def)
  then show ?thesis by (intro exI [of _ r'] exI [of _ gs]) simp
qed

theorem hjt212_report_livelock_witness:
  "report_all w_rpt Avg_Up 0 0 (w_rep [16 \<mapsto> w_up 100 17 0, 17 \<mapsto> w_up 101 18 16, 18 \<mapsto> w_up 100 0 17] 16) = None"
proof -
  let ?r = "w_rep [16 \<mapsto> w_up 100 17 0, 17 \<mapsto> w_up 101 18 16, 18 \<mapsto> w_up 100 0 17] 16"
  have c: "chain ed_next (vm_heap (rp_vm ?r)) (vm_list (rp_vm ?r)) [16, 17, 18]" by simp
  have l: "link_nodes 0 ?r [16, 17, 18] = 16 # [17] @ 18 # []" by (simp add: up_nodes_def w_of_link)
  have n: "\<forall>z \<in> set [17]. has_nid ?r (lit ''B'') z \<and> idle_var w_rpt Avg_Up ?r z" "has_nid ?r (lit ''A'') 18"
    using w_ready(2) w_nid by simp_all
  have p: "reportable w_rpt Avg_Up (lit ''A'') ?r 16" by (rule w_reportable) simp
  show ?thesis
    using hjt212_report_livelock [OF w_report_ok c l _ p w_ready(1) _ _ _ n(1) _ _ _ n(2)] by auto
qed

theorem hjt212_report_starves_witness:
  "report_all w_rpt Avg_Up 0 0 (w_rep [17 \<mapsto> w_up 101 16 0, 16 \<mapsto> w_up 100 0 17] 17)
     = Some ((w_rep [17 \<mapsto> w_up 101 16 0, 16 \<mapsto> w_up 100 0 17] 17)\<lparr>rp_reads := 1\<rparr>)"
proof -
  let ?r = "w_rep [17 \<mapsto> w_up 101 16 0, 16 \<mapsto> w_up 100 0 17] 17"
  have c: "chain ed_next (vm_heap (rp_vm ?r)) (vm_list (rp_vm ?r)) [17, 16]" by simp
  have l: "link_nodes 0 ?r [17, 16] = [17] @ 16 # []" by (simp add: up_nodes_def w_of_link)
  have n: "\<forall>z \<in> set [17]. has_nid ?r (lit ''B'') z \<and> idle_var w_rpt Avg_Up ?r z" "has_nid ?r (lit ''A'') 16"
    using w_ready(2) w_nid by simp_all
  show ?thesis using hjt212_report_starves [OF w_report_ok c l _ n(1) _ _ n(2)] by simp
qed

theorem hjt212_open_config_witness:
  "\<exists>l'. hjt212_open True [0, 0] [] \<lparr>ini_getstring = (\<lambda>_. lit ''313131''), ini_getint = (\<lambda>_ d. d),
      ini_getboolean = (\<lambda>_ d. d)\<rparr> 4 w_link = Some l'
    \<and> 3000 \<le> ulPeriod (hj_cfg l') \<and> hjt212_login_verify_req w_env l' = None"
  using hjt212_open_config [of "[0, 0]" "\<lparr>ini_getstring = (\<lambda>_. lit ''313131''), ini_getint = (\<lambda>_ d. d),
      ini_getboolean = (\<lambda>_ d. d)\<rparr>" w_env "[]" 4 w_link] w_env_ok
  by (auto simp: NET_IS_GPRS_def BOARD_ENET_TCPIP_NUM_def BOARD_TCPIP_MAX_def)

end
