(* ===== verification/Xml.thy ===== *)
theory Xml
  imports VarUp
begin

text \<open>
  The XML documents of the building-energy protocol, as Mini-XML keeps them: searching, child
  and attribute access, and building. A document is the list of its nodes in document order,
  each with its depth; a node is an index into it, \<open>None\<close> is \<open>NULL\<close>. Parsing and printing a
  document is left to the library.

  Shown: a search below a node whose subtree reaches to the end of the document finds the next
  element of the name (\<open>find_element_tail\<close>), and a new child of a node goes behind the node's
  subtree (\<open>x_end_split\<close>).
\<close>

section \<open>Documents\<close>

text \<open>
  An element with its attributes (\<open>None\<close> is a value of \<open>NULL\<close>), a word of text with the flag for white space before it, and
  the numbers that a program adds.
\<close>

datatype xitem =
    XElem "byte list" "(byte list \<times> byte list option) list"
  | XText bool "byte list"
  | XInt int
  | XReal u64

type_synonym xdoc = "(nat \<times> xitem) list"

definition x_depth :: "xdoc \<Rightarrow> nat \<Rightarrow> nat" where
  "x_depth d p = fst (d ! p)"

definition x_item :: "xdoc \<Rightarrow> nat \<Rightarrow> xitem" where
  "x_item d p = snd (d ! p)"

text \<open>Whether \<open>p\<close> is \<open>tp\<close> or below it.\<close>

definition x_below :: "xdoc \<Rightarrow> nat \<Rightarrow> nat \<Rightarrow> bool" where
  "x_below d tp p = (tp \<le> p \<and> list_all (\<lambda>j. x_depth d tp < x_depth d j) [Suc tp..<Suc p])"

section \<open>Searching\<close>

text \<open>
  \<open>mxmlWalkNext\<close>, descending: the next node in document order, unless the walk leaves the nodes
  below \<open>tp\<close>. A walk that has not been below \<open>tp\<close> goes on to the end of the document.
\<close>

definition mxmlWalkNext :: "xdoc \<Rightarrow> nat \<Rightarrow> nat \<Rightarrow> nat option" where
  "mxmlWalkNext d p tp = (if Suc p < length d \<and> \<not> (x_below d tp p \<and> x_depth d (Suc p) \<le> x_depth d tp)
     then Some (Suc p) else None)"

definition x_named :: "xdoc \<Rightarrow> byte list \<Rightarrow> nat \<Rightarrow> bool" where
  "x_named d name p = (case x_item d p of XElem n _ \<Rightarrow> n = name | _ \<Rightarrow> False)"

function x_search :: "xdoc \<Rightarrow> byte list \<Rightarrow> nat \<Rightarrow> nat \<Rightarrow> nat option" where
  "x_search d name tp p = (case mxmlWalkNext d p tp of
      None \<Rightarrow> None
    | Some q \<Rightarrow> if x_named d name q then Some q else x_search d name tp q)"
  by pat_completeness auto

termination
  by (relation "measure (\<lambda>(d, name, tp, p). length d - p)") (auto simp: mxmlWalkNext_def split: if_splits)

declare x_search.simps [simp del]

definition mxmlFindElement :: "xdoc \<Rightarrow> nat option \<Rightarrow> nat option \<Rightarrow> byte list \<Rightarrow> nat option" where
  "mxmlFindElement d node tp name = (case node of None \<Rightarrow> None | Some p \<Rightarrow>
     (case tp of None \<Rightarrow> None | Some t \<Rightarrow> x_search d name t p))"

definition x_child :: "xdoc \<Rightarrow> nat \<Rightarrow> nat option" where
  "x_child d p = (if Suc p < length d \<and> x_depth d p < x_depth d (Suc p) then Some (Suc p) else None)"

definition mxmlElementGetAttr :: "xdoc \<Rightarrow> nat option \<Rightarrow> byte list \<Rightarrow> byte list option" where
  "mxmlElementGetAttr d node name = (case node of None \<Rightarrow> None | Some p \<Rightarrow>
     (case x_item d p of XElem _ as \<Rightarrow> Option.bind (map_of as name) (\<lambda>v. v) | _ \<Rightarrow> None))"

section \<open>Building\<close>

text \<open>The end of the nodes below \<open>p\<close>, where a new child goes.\<close>

definition x_end :: "xdoc \<Rightarrow> nat \<Rightarrow> nat" where
  "x_end d p = Suc p + length (takeWhile (\<lambda>(k, _). x_depth d p < k) (drop (Suc p) d))"

definition x_new :: "xdoc \<Rightarrow> nat \<Rightarrow> xitem \<Rightarrow> nat \<times> xdoc" where
  "x_new d p it = (let e = x_end d p in (e, take e d @ (Suc (x_depth d p), it) # drop e d))"

definition mxmlNewXML :: xdoc where
  "mxmlNewXML = [(0, XElem (lit ''?xml version=\"1.0\" encoding=\"utf-8\"?'') [])]"

definition mxmlNewElement :: "xdoc \<Rightarrow> nat \<Rightarrow> byte list \<Rightarrow> nat \<times> xdoc" where
  "mxmlNewElement d p name = x_new d p (XElem name [])"

fun attr_put :: "byte list \<Rightarrow> byte list option \<Rightarrow> (byte list \<times> byte list option) list \<Rightarrow> (byte list \<times> byte list option) list" where
  "attr_put n v [] = [(n, v)]"
| "attr_put n v ((m, w) # as) = (if m = n then (n, v) # as else (m, w) # attr_put n v as)"

definition mxmlElementSetAttr :: "xdoc \<Rightarrow> nat \<Rightarrow> byte list \<Rightarrow> byte list \<Rightarrow> xdoc" where
  "mxmlElementSetAttr d p n v = (case d ! p of
      (k, XElem m as) \<Rightarrow> d[p := (k, XElem m (attr_put n (Some v) as))]
    | _ \<Rightarrow> d)"

text \<open>\<open>mxmlNewText (mxmlNewElement (p, name), 0, s)\<close> and the same with a number.\<close>

definition x_leaf :: "nat \<Rightarrow> byte list \<Rightarrow> xitem \<Rightarrow> xdoc \<Rightarrow> xdoc" where
  "x_leaf p name it d = (let (q, d) = mxmlNewElement d p name in snd (x_new d q it))"

definition x_text :: "nat \<Rightarrow> byte list \<Rightarrow> byte list \<Rightarrow> xdoc \<Rightarrow> xdoc" where
  "x_text p name s = x_leaf p name (XText False s)"

section \<open>Searches in a growing document\<close>

lemma x_search_found: "x_search d name tp p = Some q \<Longrightarrow> p < q \<and> q < length d \<and> x_named d name q"
proof (induction d name tp p rule: x_search.induct)
  case (1 d name tp p)
  show ?case
  proof (cases "mxmlWalkNext d p tp")
    case None
    with 1(2) show ?thesis by (simp add: x_search.simps)
  next
    case (Some r)
    then have r: "r = Suc p" "Suc p < length d" by (auto simp: mxmlWalkNext_def split: if_splits)
    show ?thesis
      using 1 Some r by (cases "x_named d name r") (auto simp: x_search.simps [of d name tp p])
  qed
qed

definition x_tail :: "xdoc \<Rightarrow> nat \<Rightarrow> bool" where
  "x_tail d tp = (\<forall>j. tp < j \<and> j < length d \<longrightarrow> x_depth d tp < x_depth d j)"

lemma find_element_tail:
  assumes "x_tail d tp" "tp \<le> p"
  shows "mxmlFindElement d (Some p) (Some tp) name = find (x_named d name) [Suc p..<length d]"
  using assms(2)
proof (induction "length d - p" arbitrary: p)
  case 0
  then show ?case by (simp add: mxmlFindElement_def x_search.simps mxmlWalkNext_def)
next
  case (Suc k)
  show ?case
  proof (cases "Suc p < length d")
    case False
    then show ?thesis by (simp add: mxmlFindElement_def x_search.simps mxmlWalkNext_def)
  next
    case True
    have "mxmlWalkNext d p tp = Some (Suc p)"
      using True assms(1) Suc.prems by (simp add: mxmlWalkNext_def x_tail_def not_le)
    then have "mxmlFindElement d (Some p) (Some tp) name = (if x_named d name (Suc p) then Some (Suc p)
        else mxmlFindElement d (Some (Suc p)) (Some tp) name)"
      by (simp add: mxmlFindElement_def x_search.simps [of d name tp p])
    also have "\<dots> = find (x_named d name) (Suc p # [Suc (Suc p)..<length d])"
      using Suc.hyps(1) [of "Suc p"] Suc.hyps(2) Suc.prems by simp
    also have "Suc p # [Suc (Suc p)..<length d] = [Suc p..<length d]" using True by (simp add: upt_conv_Cons)
    finally show ?thesis .
  qed
qed

text \<open>The nodes below the node in front of \<open>ys\<close> are \<open>ys\<close>, when what follows is not deeper than it.\<close>

lemma x_end_split:
  assumes "\<forall>(k, _) \<in> set ys. n < k" "zs = [] \<or> fst (hd zs) \<le> n" "p = length xs"
  shows "x_end (xs @ (n, it) # ys @ zs) p = Suc p + length ys"
proof -
  have "takeWhile (\<lambda>(k, _). n < k) (ys @ zs) = ys @ takeWhile (\<lambda>(k, _). n < k) zs"
    using assms(1) by (intro takeWhile_append2) auto
  also have "takeWhile (\<lambda>(k, _). n < k) zs = []" using assms(2) by (cases zs) auto
  finally show ?thesis using assms(3) by (simp add: x_end_def x_depth_def)
qed

lemma x_new_split:
  assumes "\<forall>(k, _) \<in> set ys. n < k" "zs = [] \<or> fst (hd zs) \<le> n" "p = length xs"
  shows "x_new (xs @ (n, it) # ys @ zs) p new
    = (Suc p + length ys, xs @ (n, it) # ys @ (Suc n, new) # zs)"
  using x_end_split [OF assms, of it] assms(3) by (simp add: x_new_def x_depth_def Let_def)

end
