(* ===== verification/Aes.thy ===== *)
theory Aes
  imports Crc
begin

text \<open>
  The AES library (\<open>components/external/aes/aes.c\<close>, built for 128-bit keys and CBC mode): tables,
  key expansion, the steps of a round, one block in both directions, and the loops over a text.
  Blocks and keys are lists of bytes; the global table \<open>g_roundKeyTable\<close> is an argument.

  Shown: each step of decryption undoes that of encryption, so decryption gives back every text of
  whole blocks under every key; and the steps are those of the standard (FIPS 197): the S-box is
  the affine image of the inverse in the field, the columns are multiplied by its matrix.
\<close>

unbundle bit_operations_syntax

section \<open>Parameters and tables\<close>

definition Nk :: nat where "Nk = 4"
definition Nb :: nat where "Nb = 4"
definition Nr :: nat where "Nr = 10"
definition BPOLY :: byte where "BPOLY = 0x1B"

definition SBox :: "byte list" where
  "SBox =
    [0x63, 0x7c, 0x77, 0x7b, 0xf2, 0x6b, 0x6f, 0xc5, 0x30, 0x01, 0x67, 0x2b, 0xfe, 0xd7, 0xab, 0x76,
     0xca, 0x82, 0xc9, 0x7d, 0xfa, 0x59, 0x47, 0xf0, 0xad, 0xd4, 0xa2, 0xaf, 0x9c, 0xa4, 0x72, 0xc0,
     0xb7, 0xfd, 0x93, 0x26, 0x36, 0x3f, 0xf7, 0xcc, 0x34, 0xa5, 0xe5, 0xf1, 0x71, 0xd8, 0x31, 0x15,
     0x04, 0xc7, 0x23, 0xc3, 0x18, 0x96, 0x05, 0x9a, 0x07, 0x12, 0x80, 0xe2, 0xeb, 0x27, 0xb2, 0x75,
     0x09, 0x83, 0x2c, 0x1a, 0x1b, 0x6e, 0x5a, 0xa0, 0x52, 0x3b, 0xd6, 0xb3, 0x29, 0xe3, 0x2f, 0x84,
     0x53, 0xd1, 0x00, 0xed, 0x20, 0xfc, 0xb1, 0x5b, 0x6a, 0xcb, 0xbe, 0x39, 0x4a, 0x4c, 0x58, 0xcf,
     0xd0, 0xef, 0xaa, 0xfb, 0x43, 0x4d, 0x33, 0x85, 0x45, 0xf9, 0x02, 0x7f, 0x50, 0x3c, 0x9f, 0xa8,
     0x51, 0xa3, 0x40, 0x8f, 0x92, 0x9d, 0x38, 0xf5, 0xbc, 0xb6, 0xda, 0x21, 0x10, 0xff, 0xf3, 0xd2,
     0xcd, 0x0c, 0x13, 0xec, 0x5f, 0x97, 0x44, 0x17, 0xc4, 0xa7, 0x7e, 0x3d, 0x64, 0x5d, 0x19, 0x73,
     0x60, 0x81, 0x4f, 0xdc, 0x22, 0x2a, 0x90, 0x88, 0x46, 0xee, 0xb8, 0x14, 0xde, 0x5e, 0x0b, 0xdb,
     0xe0, 0x32, 0x3a, 0x0a, 0x49, 0x06, 0x24, 0x5c, 0xc2, 0xd3, 0xac, 0x62, 0x91, 0x95, 0xe4, 0x79,
     0xe7, 0xc8, 0x37, 0x6d, 0x8d, 0xd5, 0x4e, 0xa9, 0x6c, 0x56, 0xf4, 0xea, 0x65, 0x7a, 0xae, 0x08,
     0xba, 0x78, 0x25, 0x2e, 0x1c, 0xa6, 0xb4, 0xc6, 0xe8, 0xdd, 0x74, 0x1f, 0x4b, 0xbd, 0x8b, 0x8a,
     0x70, 0x3e, 0xb5, 0x66, 0x48, 0x03, 0xf6, 0x0e, 0x61, 0x35, 0x57, 0xb9, 0x86, 0xc1, 0x1d, 0x9e,
     0xe1, 0xf8, 0x98, 0x11, 0x69, 0xd9, 0x8e, 0x94, 0x9b, 0x1e, 0x87, 0xe9, 0xce, 0x55, 0x28, 0xdf,
     0x8c, 0xa1, 0x89, 0x0d, 0xbf, 0xe6, 0x42, 0x68, 0x41, 0x99, 0x2d, 0x0f, 0xb0, 0x54, 0xbb, 0x16]"

definition InvSBox :: "byte list" where
  "InvSBox =
    [0x52, 0x09, 0x6a, 0xd5, 0x30, 0x36, 0xa5, 0x38, 0xbf, 0x40, 0xa3, 0x9e, 0x81, 0xf3, 0xd7, 0xfb,
     0x7c, 0xe3, 0x39, 0x82, 0x9b, 0x2f, 0xff, 0x87, 0x34, 0x8e, 0x43, 0x44, 0xc4, 0xde, 0xe9, 0xcb,
     0x54, 0x7b, 0x94, 0x32, 0xa6, 0xc2, 0x23, 0x3d, 0xee, 0x4c, 0x95, 0x0b, 0x42, 0xfa, 0xc3, 0x4e,
     0x08, 0x2e, 0xa1, 0x66, 0x28, 0xd9, 0x24, 0xb2, 0x76, 0x5b, 0xa2, 0x49, 0x6d, 0x8b, 0xd1, 0x25,
     0x72, 0xf8, 0xf6, 0x64, 0x86, 0x68, 0x98, 0x16, 0xd4, 0xa4, 0x5c, 0xcc, 0x5d, 0x65, 0xb6, 0x92,
     0x6c, 0x70, 0x48, 0x50, 0xfd, 0xed, 0xb9, 0xda, 0x5e, 0x15, 0x46, 0x57, 0xa7, 0x8d, 0x9d, 0x84,
     0x90, 0xd8, 0xab, 0x00, 0x8c, 0xbc, 0xd3, 0x0a, 0xf7, 0xe4, 0x58, 0x05, 0xb8, 0xb3, 0x45, 0x06,
     0xd0, 0x2c, 0x1e, 0x8f, 0xca, 0x3f, 0x0f, 0x02, 0xc1, 0xaf, 0xbd, 0x03, 0x01, 0x13, 0x8a, 0x6b,
     0x3a, 0x91, 0x11, 0x41, 0x4f, 0x67, 0xdc, 0xea, 0x97, 0xf2, 0xcf, 0xce, 0xf0, 0xb4, 0xe6, 0x73,
     0x96, 0xac, 0x74, 0x22, 0xe7, 0xad, 0x35, 0x85, 0xe2, 0xf9, 0x37, 0xe8, 0x1c, 0x75, 0xdf, 0x6e,
     0x47, 0xf1, 0x1a, 0x71, 0x1d, 0x29, 0xc5, 0x89, 0x6f, 0xb7, 0x62, 0x0e, 0xaa, 0x18, 0xbe, 0x1b,
     0xfc, 0x56, 0x3e, 0x4b, 0xc6, 0xd2, 0x79, 0x20, 0x9a, 0xdb, 0xc0, 0xfe, 0x78, 0xcd, 0x5a, 0xf4,
     0x1f, 0xdd, 0xa8, 0x33, 0x88, 0x07, 0xc7, 0x31, 0xb1, 0x12, 0x10, 0x59, 0x27, 0x80, 0xec, 0x5f,
     0x60, 0x51, 0x7f, 0xa9, 0x19, 0xb5, 0x4a, 0x0d, 0x2d, 0xe5, 0x7a, 0x9f, 0x93, 0xc9, 0x9c, 0xef,
     0xa0, 0xe0, 0x3b, 0x4d, 0xae, 0x2a, 0xf5, 0xb0, 0xc8, 0xeb, 0xbb, 0x3c, 0x83, 0x53, 0x99, 0x61,
     0x17, 0x2b, 0x04, 0x7e, 0xba, 0x77, 0xd6, 0x26, 0xe1, 0x69, 0x14, 0x63, 0x55, 0x21, 0x0c, 0x7d]"

section \<open>Steps\<close>

definition RotationWord :: "byte list \<Rightarrow> byte list" where
  "RotationWord w = [w ! 1, w ! 2, w ! 3, w ! 0]"

text \<open>On the first \<open>nCount\<close> bytes of both arguments.\<close>

definition XorBytes :: "byte list \<Rightarrow> byte list \<Rightarrow> byte list" where
  "XorBytes d1 d2 = map2 (\<lambda>a b. a XOR b) d1 d2"

definition sub_byte :: "bool \<Rightarrow> byte \<Rightarrow> byte" where
  "sub_byte bInvert b = (if bInvert then InvSBox else SBox) ! unat b"

definition SubBytes :: "byte list \<Rightarrow> bool \<Rightarrow> byte list" where
  "SubBytes s bInvert = map (sub_byte bInvert) s"

definition shift_row :: "bool \<Rightarrow> byte list \<Rightarrow> nat \<Rightarrow> byte list" where
  "shift_row bInvert s r = (let rowData = map (\<lambda>c. s ! (r + 4 * c)) [0..<4]; temp = (if bInvert then 4 - r else r)
     in foldl (\<lambda>s c. s[r + 4 * c := rowData ! ((c + temp) mod 4)]) s [0..<4])"

definition ShiftRows :: "byte list \<Rightarrow> bool \<Rightarrow> byte list" where
  "ShiftRows s bInvert = foldl (shift_row bInvert) s [1..<4]"

definition GfMultBy02 :: "byte \<Rightarrow> byte" where
  "GfMultBy02 num = (if num AND 0x80 = 0 then push_bit 1 num else push_bit 1 num XOR BPOLY)"

definition mix_column :: "bool \<Rightarrow> byte list \<Rightarrow> byte list" where
  "mix_column bInvert p =
     (let temp = p ! 0 XOR p ! 1 XOR p ! 2 XOR p ! 3;
          result = [temp XOR p ! 0 XOR GfMultBy02 (p ! 0 XOR p ! 1),
                    temp XOR p ! 1 XOR GfMultBy02 (p ! 1 XOR p ! 2),
                    temp XOR p ! 2 XOR GfMultBy02 (p ! 2 XOR p ! 3),
                    temp XOR p ! 3 XOR GfMultBy02 (p ! 3 XOR p ! 0)]
      in if bInvert then
        (let a0Pa2_M4 = GfMultBy02 (GfMultBy02 (p ! 0 XOR p ! 2));
             a1Pa3_M4 = GfMultBy02 (GfMultBy02 (p ! 1 XOR p ! 3));
             temp = GfMultBy02 (a0Pa2_M4 XOR a1Pa3_M4)
         in [result ! 0 XOR (temp XOR a0Pa2_M4), result ! 1 XOR (temp XOR a1Pa3_M4),
             result ! 2 XOR (temp XOR a0Pa2_M4), result ! 3 XOR (temp XOR a1Pa3_M4)])
      else result)"

definition MixColumns :: "byte list \<Rightarrow> bool \<Rightarrow> byte list" where
  "MixColumns s bInvert = concat (map (\<lambda>i. mix_column bInvert (slice s (4 * i) 4)) [0..<4])"

section \<open>Keys and blocks\<close>

text \<open>One turn of the expansion appends a word to the table; \<open>rc\<close> is \<open>Rcon[0]\<close>.\<close>

definition key_step :: "byte list \<times> byte \<Rightarrow> nat \<Rightarrow> byte list \<times> byte" where
  "key_step = (\<lambda>(tab, rc) i.
     (let w = slice tab (4 * i - 4) 4;
          (w, rc') = (if i mod Nk = 0 then (XorBytes (SubBytes (RotationWord w) False) [rc, 0, 0, 0], GfMultBy02 rc)
            else if 6 < Nk \<and> i mod Nk = Nb then (SubBytes w False, rc) else (w, rc))
      in (tab @ XorBytes w (slice tab (4 * i - 4 * Nk) 4), rc')))"

definition AES_Init :: "byte list \<Rightarrow> byte list" where
  "AES_Init key = fst (foldl key_step (take (4 * Nk) key, 0x01) [Nk..<Nb * (Nr + 1)])"

definition round_key :: "byte list \<Rightarrow> nat \<Rightarrow> byte list" where
  "round_key tab i = slice tab (4 * Nb * i) (4 * Nb)"

definition enc_round :: "byte list \<Rightarrow> byte list \<Rightarrow> nat \<Rightarrow> byte list" where
  "enc_round tab s i =
     (let s = ShiftRows (SubBytes s False) False; s = (if i \<noteq> Nr then MixColumns s False else s)
      in XorBytes s (round_key tab i))"

definition BlockEncrypt :: "byte list \<Rightarrow> byte list \<Rightarrow> byte list" where
  "BlockEncrypt tab s = foldl (enc_round tab) (XorBytes s (round_key tab 0)) [1..<Suc Nr]"

definition dec_round :: "byte list \<Rightarrow> byte list \<Rightarrow> nat \<Rightarrow> byte list" where
  "dec_round tab s i =
     (let s = XorBytes (SubBytes (ShiftRows s True) True) (round_key tab (i - 1))
      in if i \<noteq> 1 then MixColumns s True else s)"

definition BlockDecrypt :: "byte list \<Rightarrow> byte list \<Rightarrow> byte list" where
  "BlockDecrypt tab s = foldl (dec_round tab) (XorBytes s (round_key tab Nr)) (rev [1..<Suc Nr])"

section \<open>Texts\<close>

text \<open>In place: the initial block of the next turn is the block just encrypted.\<close>

fun enc_blocks :: "byte list \<Rightarrow> nat \<Rightarrow> byte list \<Rightarrow> byte list \<Rightarrow> byte list" where
  "enc_blocks tab 0 iv p = p"
| "enc_blocks tab (Suc k) iv p =
     (let c = BlockEncrypt tab (XorBytes (take 16 p) iv) in c @ enc_blocks tab k c (drop 16 p))"

definition AES_Encrypt :: "byte list \<Rightarrow> byte list \<Rightarrow> byte list \<Rightarrow> byte list" where
  "AES_Encrypt tab iv p = enc_blocks tab (length p div (4 * Nb)) iv p"

text \<open>From the last block on; the block in front of it is still encrypted.\<close>

fun dec_blocks :: "byte list \<Rightarrow> byte list \<Rightarrow> nat \<Rightarrow> nat \<Rightarrow> byte list \<Rightarrow> byte list" where
  "dec_blocks tab iv 0 off p = p"
| "dec_blocks tab iv (Suc k) off p =
     (let b = XorBytes (BlockDecrypt tab (slice p off 16)) (if k = 0 then iv else slice p (off - 16) 16)
      in dec_blocks tab iv k (off - 16) (blit p off b))"

definition AES_Decrypt :: "byte list \<Rightarrow> byte list \<Rightarrow> byte list \<Rightarrow> byte list" where
  "AES_Decrypt tab iv p = dec_blocks tab iv (length p div (4 * Nb)) (length p - 4 * Nb) p"

section \<open>The steps undo each other\<close>

lemma xor_xor_left: "x XOR (x XOR y) = y" for x y :: "'a::len word"
  by (simp add: xor.assoc [symmetric])

lemma sbox_inverse: "map (\<lambda>b. InvSBox ! unat b) SBox = map word_of_nat [0..<256]"
  by code_simp

lemma length_SBox: "length SBox = 256"
  by (simp add: SBox_def)

lemma sub_byte_inverse: "sub_byte True (sub_byte False b) = b"
proof -
  have n: "unat b < 256" using unsigned_less [of b] by simp
  have "sub_byte True (sub_byte False b) = map (\<lambda>b. InvSBox ! unat b) SBox ! unat b"
    using n by (simp add: sub_byte_def length_SBox)
  also have "\<dots> = b" unfolding sbox_inverse using n by simp
  finally show ?thesis .
qed

lemma SubBytes_inverse: "SubBytes (SubBytes s False) True = s"
  by (simp add: SubBytes_def sub_byte_inverse comp_def)

lemma XorBytes_cancel: "length s = length k \<Longrightarrow> XorBytes (XorBytes s k) k = s"
  by (induction s k rule: list_induct2) (simp_all add: XorBytes_def)

lemma lengths [simp]: "length (SubBytes s v) = length s" "length (XorBytes s k) = min (length s) (length k)"
  by (simp_all add: SubBytes_def XorBytes_def)

lemma block_bytes:
  assumes "length s = 16"
  obtains a0 a1 a2 a3 b0 b1 b2 b3 c0 c1 c2 c3 d0 d1 d2 d3
  where "s = [a0, a1, a2, a3, b0, b1, b2, b3, c0, c1, c2, c3, d0, d1, d2, d3]"
  using assms by (auto simp: length_Suc_conv numeral_eq_Suc)

lemma upt_4: "[0..<4] = [0, 1, 2, 3 :: nat]" "[1..<4] = [1, 2, 3 :: nat]"
  by code_simp+

lemma shift_rows_list:
  "ShiftRows [a0, a1, a2, a3, b0, b1, b2, b3, c0, c1, c2, c3, d0, d1, d2, d3] False
    = [a0, b1, c2, d3, b0, c1, d2, a3, c0, d1, a2, b3, d0, a1, b2, c3]"
  "ShiftRows [a0, a1, a2, a3, b0, b1, b2, b3, c0, c1, c2, c3, d0, d1, d2, d3] True
    = [a0, d1, c2, b3, b0, a1, d2, c3, c0, b1, a2, d3, d0, c1, b2, a3]"
  unfolding ShiftRows_def shift_row_def Let_def upt_4 by simp_all

lemma ShiftRows_inverse: "length s = 16 \<Longrightarrow> ShiftRows (ShiftRows s False) True = s"
  by (erule block_bytes) (simp add: shift_rows_list)

lemma length_ShiftRows: "length s = 16 \<Longrightarrow> length (ShiftRows s v) = 16"
  by (erule block_bytes) (cases v; simp add: shift_rows_list)

lemma GfMultBy02_eq: "GfMultBy02 n = push_bit 1 n XOR (if bit n 7 then BPOLY else 0)"
proof -
  have "(n AND 0x80 = 0) = (\<not> bit n 7)"
  proof
    assume "n AND 0x80 = 0"
    then have "\<not> bit (n AND 0x80) 7" by simp
    then show "\<not> bit n 7" by (simp add: bit_and_iff)
  next
    assume n: "\<not> bit n 7"
    show "n AND 0x80 = 0"
    proof (rule bit_word_eqI)
      fix k assume "k < LENGTH(8)"
      have "(0x80 :: byte) = push_bit 7 1" by simp
      then have "bit (0x80 :: byte) k = (k = 7)" by (simp only: bit_push_bit_iff bit_1_iff) (use \<open>k < LENGTH(8)\<close> in auto)
      with n show "bit (n AND 0x80) k = bit 0 k" by (auto simp: bit_and_iff)
    qed
  qed
  then show ?thesis by (simp add: GfMultBy02_def)
qed

lemma gf_xor: "GfMultBy02 (a XOR b) = GfMultBy02 a XOR GfMultBy02 b"
  by (simp add: GfMultBy02_eq push_bit_xor bit_xor_iff xor.assoc xor.left_commute xor.commute xor_xor_left)

lemma mix_column_inverse: "mix_column True (mix_column False [a, b, c, d]) = [a, b, c, d]"
  by (simp add: mix_column_def Let_def gf_xor xor.assoc xor.left_commute xor.commute xor_xor_left)

lemma mix_columns_list:
  "MixColumns [a0, a1, a2, a3, b0, b1, b2, b3, c0, c1, c2, c3, d0, d1, d2, d3] v
    = mix_column v [a0, a1, a2, a3] @ mix_column v [b0, b1, b2, b3] @ mix_column v [c0, c1, c2, c3] @ mix_column v [d0, d1, d2, d3]"
  unfolding MixColumns_def slice_def upt_4 by simp

lemma mix_column_list: "\<exists>a' b' c' d'. mix_column v [a, b, c, d] = [a', b', c', d']"
  by (cases v) (simp_all add: mix_column_def Let_def)

lemma MixColumns_inverse:
  assumes "length s = 16"
  shows "MixColumns (MixColumns s False) True = s" "length (MixColumns s v) = 16"
proof -
  obtain a0 a1 a2 a3 b0 b1 b2 b3 c0 c1 c2 c3 d0 d1 d2 d3
    where s: "s = [a0, a1, a2, a3, b0, b1, b2, b3, c0, c1, c2, c3, d0, d1, d2, d3]"
    using assms by (rule block_bytes)
  have q: "MixColumns (A @ B @ C @ D) True = mix_column True A @ mix_column True B @ mix_column True C @ mix_column True D"
    if "\<exists>w x y z. A = [w, x, y, z]" "\<exists>w x y z. B = [w, x, y, z]" "\<exists>w x y z. C = [w, x, y, z]" "\<exists>w x y z. D = [w, x, y, z]" for A B C D
    using that by (elim exE) (simp add: mix_columns_list)
  show "MixColumns (MixColumns s False) True = s"
    unfolding s mix_columns_list q [OF mix_column_list mix_column_list mix_column_list mix_column_list] mix_column_inverse by simp
  show "length (MixColumns s v) = 16"
    unfolding s mix_columns_list by (simp add: mix_column_def Let_def)
qed

section \<open>A block\<close>

definition keys_ok :: "byte list \<Rightarrow> bool" where
  "keys_ok tab = (length tab = 176)"

lemma length_round_key: "keys_ok tab \<Longrightarrow> i \<le> Nr \<Longrightarrow> length (round_key tab i) = 16"
  by (simp add: round_key_def keys_ok_def Nb_def Nr_def)

definition aes_scramble :: "byte list \<Rightarrow> byte list" where
  "aes_scramble s = ShiftRows (SubBytes s False) False"

lemma length_scramble: "length s = 16 \<Longrightarrow> length (aes_scramble s) = 16"
  by (simp add: aes_scramble_def length_ShiftRows)

lemma unscramble: "length s = 16 \<Longrightarrow> SubBytes (ShiftRows (aes_scramble s) True) True = s"
  by (simp add: aes_scramble_def ShiftRows_inverse SubBytes_inverse)

lemma enc_round_eq: "enc_round tab s i
    = XorBytes (if i \<noteq> Nr then MixColumns (aes_scramble s) False else aes_scramble s) (round_key tab i)"
  by (simp add: enc_round_def aes_scramble_def Let_def)

lemma length_enc_round: "keys_ok tab \<Longrightarrow> i \<le> Nr \<Longrightarrow> length s = 16 \<Longrightarrow> length (enc_round tab s i) = 16"
  by (simp add: enc_round_eq length_scramble MixColumns_inverse length_round_key)

lemma length_dec_round: "keys_ok tab \<Longrightarrow> i \<le> Nr \<Longrightarrow> length s = 16 \<Longrightarrow> length (dec_round tab s i) = 16"
  by (simp add: dec_round_def Let_def length_ShiftRows MixColumns_inverse length_round_key)

text \<open>A round of decryption takes the state back over the round before it.\<close>

lemma dec_round_enc:
  assumes "keys_ok tab" "length s = 16" "i < Nr" "i \<noteq> 0"
  shows "dec_round tab (aes_scramble (enc_round tab s i)) (Suc i) = aes_scramble s"
  using assms length_enc_round [of tab i s]
  by (simp add: dec_round_def Let_def unscramble enc_round_eq XorBytes_cancel length_round_key MixColumns_inverse length_scramble)

lemma dec_round_first:
  assumes "keys_ok tab" "length s = 16"
  shows "dec_round tab (aes_scramble (XorBytes s (round_key tab 0))) 1 = s"
  using assms by (simp add: dec_round_def Let_def unscramble XorBytes_cancel length_round_key)

lemma rounds_back:
  assumes "keys_ok tab" "length s = 16" "k < Nr"
  shows "foldl (dec_round tab) (aes_scramble (foldl (enc_round tab) (XorBytes s (round_key tab 0)) [1..<Suc k])) (rev [1..<Suc (Suc k)]) = s
    \<and> length (foldl (enc_round tab) (XorBytes s (round_key tab 0)) [1..<Suc k]) = 16"
  using assms(3)
proof (induction k)
  case 0
  have "length (round_key tab 0) = 16" using length_round_key [OF assms(1)] by simp
  then show ?case using dec_round_first [OF assms(1,2)] assms(2) by simp
next
  case (Suc k)
  let ?s = "foldl (enc_round tab) (XorBytes s (round_key tab 0)) [1..<Suc k]"
  have IH: "foldl (dec_round tab) (aes_scramble ?s) (rev [1..<Suc (Suc k)]) = s" "length ?s = 16"
    using Suc by simp_all
  have e: "foldl (enc_round tab) (XorBytes s (round_key tab 0)) [1..<Suc (Suc k)] = enc_round tab ?s (Suc k)" by simp
  have d: "foldl (dec_round tab) x (rev [1..<Suc (Suc (Suc k))]) = foldl (dec_round tab) (dec_round tab x (Suc (Suc k))) (rev [1..<Suc (Suc k)])" for x
    by simp
  show ?case
    unfolding e d using dec_round_enc [OF assms(1) IH(2), of "Suc k"] IH Suc.prems length_enc_round [OF assms(1) _ IH(2), of "Suc k"] by simp
qed

lemma block_decrypt_encrypt:
  assumes "keys_ok tab" "length s = 16"
  shows "BlockDecrypt tab (BlockEncrypt tab s) = s" "length (BlockEncrypt tab s) = 16"
proof -
  let ?s = "foldl (enc_round tab) (XorBytes s (round_key tab 0)) [1..<Suc 9]"
  have r: "foldl (dec_round tab) (aes_scramble ?s) (rev [1..<Suc (Suc 9)]) = s" "length ?s = 16"
    using rounds_back [OF assms, of 9] by (simp_all add: Nr_def)
  have N: "Nr = Suc 9" by (simp add: Nr_def)
  have e: "BlockEncrypt tab s = XorBytes (aes_scramble ?s) (round_key tab Nr)"
    unfolding BlockEncrypt_def N upt_Suc [of 1 "Suc 9"] by (simp add: enc_round_eq N)
  have l: "length (aes_scramble ?s) = 16" "length (round_key tab Nr) = 16"
    using length_scramble [OF r(2)] length_round_key [OF assms(1)] by simp_all
  then show "length (BlockEncrypt tab s) = 16" unfolding e by simp
  show "BlockDecrypt tab (BlockEncrypt tab s) = s"
    unfolding e BlockDecrypt_def using XorBytes_cancel [of "aes_scramble ?s" "round_key tab Nr"] l r(1) by (simp add: N)
qed

lemma length_BlockDecrypt:
  assumes "keys_ok tab" "length s = 16"
  shows "length (BlockDecrypt tab s) = 16"
proof -
  have "length (foldl (dec_round tab) s xs) = 16" if "length s = 16" "\<forall>i \<in> set xs. i \<le> Nr" for s xs
    using that by (induction xs arbitrary: s) (simp_all add: length_dec_round [OF assms(1)])
  then show ?thesis using assms length_round_key [OF assms(1), of Nr] by (simp add: BlockDecrypt_def Nr_def)
qed

section \<open>A text\<close>

fun cbc_enc :: "byte list \<Rightarrow> byte list \<Rightarrow> byte list list \<Rightarrow> byte list list" where
  "cbc_enc tab iv [] = []"
| "cbc_enc tab iv (p # ps) = (let c = BlockEncrypt tab (XorBytes p iv) in c # cbc_enc tab c ps)"

fun cbc_dec :: "byte list \<Rightarrow> byte list \<Rightarrow> byte list list \<Rightarrow> byte list list" where
  "cbc_dec tab iv [] = []"
| "cbc_dec tab iv (c # cs) = XorBytes (BlockDecrypt tab c) iv # cbc_dec tab c cs"

definition blocks16 :: "byte list list \<Rightarrow> bool" where
  "blocks16 ps = list_all (\<lambda>p. length p = 16) ps"

lemma blocks16_simps [simp]: "blocks16 []" "blocks16 (p # ps) = (length p = 16 \<and> blocks16 ps)"
  "blocks16 (ps @ qs) = (blocks16 ps \<and> blocks16 qs)"
  by (auto simp: blocks16_def)

lemma length_blocks16: "blocks16 ps \<Longrightarrow> length (concat ps) = 16 * length ps"
  by (induction ps) simp_all

lemma split_blocks: "length p = 16 * k \<Longrightarrow> \<exists>ps. p = concat ps \<and> blocks16 ps \<and> length ps = k"
proof (induction k arbitrary: p)
  case (Suc k)
  have "length (drop 16 p) = 16 * k" using Suc.prems by simp
  then obtain ps where "drop 16 p = concat ps" "blocks16 ps" "length ps = k" using Suc.IH by blast
  moreover from this have "p = concat (take 16 p # ps)" by (metis append_take_drop_id concat.simps(2))
  ultimately show ?case using Suc.prems by (intro exI [of _ "take 16 p # ps"]) auto
qed simp

lemma enc_blocks_concat: "blocks16 ps \<Longrightarrow> enc_blocks tab (length ps) iv (concat ps) = concat (cbc_enc tab iv ps)"
  by (induction ps arbitrary: iv) (simp_all add: Let_def)

lemma cbc_enc_blocks:
  assumes "keys_ok tab" "blocks16 ps" "length iv = 16"
  shows "blocks16 (cbc_enc tab iv ps) \<and> length (cbc_enc tab iv ps) = length ps"
  using assms(2,3) by (induction ps arbitrary: iv) (simp_all add: Let_def block_decrypt_encrypt [OF assms(1)])

lemma cbc_inverse:
  assumes "keys_ok tab" "blocks16 ps" "length iv = 16"
  shows "cbc_dec tab iv (cbc_enc tab iv ps) = ps"
  using assms(2,3) by (induction ps arbitrary: iv) (simp_all add: Let_def block_decrypt_encrypt [OF assms(1)] XorBytes_cancel)

lemma cbc_dec_snoc: "cbc_dec tab iv (cs @ [c]) = cbc_dec tab iv cs @ [XorBytes (BlockDecrypt tab c) (last (iv # cs))]"
  by (induction cs arbitrary: iv) simp_all

lemma dec_blocks_concat:
  assumes "keys_ok tab" "length iv = 16" "blocks16 cs"
  shows "dec_blocks tab iv (length cs) (16 * length cs - 16) (concat cs @ r) = concat (cbc_dec tab iv cs) @ r"
  using assms(3)
proof (induction cs arbitrary: r rule: rev_induct)
  case (snoc c cs)
  let ?o = "16 * length cs"
  have l: "length c = 16" "length (concat cs) = ?o" "blocks16 cs" using snoc.prems length_blocks16 by auto
  have c: "slice (concat (cs @ [c]) @ r) ?o 16 = c" using l by (simp add: slice_def)
  have p: "(if length cs = 0 then iv else slice (concat (cs @ [c]) @ r) (?o - 16) 16) = last (iv # cs)"
  proof (cases cs rule: rev_cases)
    case (snoc ds d)
    then have "length (concat ds) = ?o - 16" "length d = 16" using l length_blocks16 [of ds] by simp_all
    with snoc show ?thesis by (simp add: slice_def)
  qed simp
  let ?b = "XorBytes (BlockDecrypt tab c) (last (iv # cs))"
  have "length (last (iv # cs)) = 16" using l(3) assms(2) by (cases cs rule: rev_cases) simp_all
  then have b: "length ?b = 16" using length_BlockDecrypt [OF assms(1) l(1)] by simp
  have w: "blit (concat (cs @ [c]) @ r) ?o ?b = concat cs @ ?b @ r" using l b by (simp add: blit_def)
  have "16 * length (cs @ [c]) - 16 = ?o" "length (cs @ [c]) = Suc (length cs)" by simp_all
  then have "dec_blocks tab iv (length (cs @ [c])) (16 * length (cs @ [c]) - 16) (concat (cs @ [c]) @ r)
      = dec_blocks tab iv (length cs) (?o - 16) (concat cs @ ?b @ r)"
    unfolding w [symmetric] by (simp only: dec_blocks.simps Let_def c p)
  also have "\<dots> = concat (cbc_dec tab iv (cs @ [c])) @ r" using snoc.IH [OF l(3), of "?b @ r"] by (simp add: cbc_dec_snoc)
  finally show ?case .
qed simp

lemma decrypt_encrypt:
  assumes "keys_ok tab" "length iv = 16" "16 dvd length p"
  shows "AES_Decrypt tab iv (AES_Encrypt tab iv p) = p" "length (AES_Encrypt tab iv p) = length p"
proof -
  obtain ps where ps: "p = concat ps" "blocks16 ps" "length p = 16 * length ps"
    using split_blocks assms(3) by (metis dvd_def length_blocks16)
  let ?cs = "cbc_enc tab iv ps"
  note c = cbc_enc_blocks [OF assms(1) ps(2) assms(2)]
  have e: "AES_Encrypt tab iv p = concat ?cs"
    using enc_blocks_concat [OF ps(2), of tab iv] ps(3) by (simp add: AES_Encrypt_def Nb_def ps(1) length_blocks16 [OF ps(2)])
  have l: "length (concat ?cs) = 16 * length ps" using length_blocks16 [OF conjunct1 [OF c]] c by simp
  show "length (AES_Encrypt tab iv p) = length p" unfolding e l ps(3) ..
  have "AES_Decrypt tab iv (concat ?cs) = dec_blocks tab iv (length ?cs) (16 * length ?cs - 16) (concat ?cs @ [])"
    using c l by (simp add: AES_Decrypt_def Nb_def)
  also have "\<dots> = p"
    unfolding dec_blocks_concat [OF assms(1,2) conjunct1 [OF c]] cbc_inverse [OF assms(1) ps(2) assms(2)] ps(1) by simp
  finally show "AES_Decrypt tab iv (AES_Encrypt tab iv p) = p" unfolding e .
qed

lemma length_dec_blocks:
  assumes "keys_ok tab" "length iv = 16"
  shows "off + 16 \<le> length p \<or> k = 0 \<Longrightarrow> 16 * k \<le> off + 16 \<Longrightarrow> length (dec_blocks tab iv k off p) = length p"
proof (induction k arbitrary: off p)
  case (Suc k)
  let ?i = "if k = 0 then iv else slice p (off - 16) 16"
  have "length ?i = 16" using Suc.prems assms(2) by (auto simp: slice_def)
  then have "length (XorBytes (BlockDecrypt tab (slice p off 16)) ?i) = 16"
    using Suc.prems length_BlockDecrypt [OF assms(1), of "slice p off 16"] by simp
  then have l: "length (blit p off (XorBytes (BlockDecrypt tab (slice p off 16)) ?i)) = length p" using Suc.prems by simp
  show ?case
    unfolding dec_blocks.simps Let_def by (rule trans [OF Suc.IH l]) (use l Suc.prems in auto)
qed simp

lemma length_AES_Decrypt:
  assumes "keys_ok tab" "length iv = 16"
  shows "length (AES_Decrypt tab iv p) = length p"
  unfolding AES_Decrypt_def Nb_def using div_times_less_eq_dividend [of "length p" 16]
  by (intro length_dec_blocks [OF assms]) (auto simp: not_less)

section \<open>The key\<close>

lemma key_step_length:
  assumes "4 \<le> i" "length tab = 4 * i"
  shows "length (fst (key_step (tab, rc) i)) = 4 * Suc i"
  using assms by (auto simp: key_step_def Let_def Nk_def RotationWord_def slice_def)

definition keys_upto :: "byte list \<Rightarrow> nat \<Rightarrow> byte list \<times> byte" where
  "keys_upto key n = foldl key_step (key, 1) [4..<n]"

lemma keys_upto_Suc: "4 \<le> n \<Longrightarrow> keys_upto key (Suc n) = key_step (keys_upto key n) n"
  by (simp add: keys_upto_def)

lemma length_keys_upto:
  assumes "length key = 16" "4 \<le> n"
  shows "length (fst (keys_upto key n)) = 4 * n"
  using assms(2)
proof (induction n rule: dec_induct)
  case (step n)
  then show ?case using key_step_length [of n] by (cases "keys_upto key n") (simp add: keys_upto_Suc)
qed (simp add: keys_upto_def assms(1))

lemma AES_Init_eq: "length key = 16 \<Longrightarrow> AES_Init key = fst (keys_upto key 44)"
  by (simp add: AES_Init_def keys_upto_def Nk_def Nb_def Nr_def)

lemma keys_of_key: "length key = 16 \<Longrightarrow> keys_ok (AES_Init key)"
  by (simp add: keys_ok_def AES_Init_eq length_keys_upto)

lemma keys_upto_slice:
  assumes "length key = 16" "4 \<le> m" "m \<le> n" "j < m"
  shows "slice (fst (keys_upto key n)) (4 * j) 4 = slice (fst (keys_upto key m)) (4 * j) 4"
  using assms(3)
proof (induction n rule: dec_induct)
  case (step n)
  obtain t c where k: "keys_upto key n = (t, c)" by (cases "keys_upto key n")
  have "4 * j + 4 \<le> length t" using length_keys_upto [OF assms(1), of n] step(1) assms(2,4) k by simp
  then have "slice (t @ x) (4 * j) 4 = slice t (4 * j) 4" for x by (simp add: slice_def)
  then have "slice (fst (key_step (t, c) n)) (4 * j) 4 = slice t (4 * j) 4" by (simp add: key_step_def Let_def split: prod.split)
  then show ?case using step assms(2) k by (simp add: keys_upto_Suc)
qed simp

section \<open>The standard\<close>

text \<open>Multiplication of polynomials over bits, and the remainder modulo \<open>x^8 + x^4 + x^3 + x + 1\<close>.\<close>

definition clmul :: "byte \<Rightarrow> byte \<Rightarrow> u16" where
  "clmul a b = foldl (\<lambda>r i. if bit a i then r XOR push_bit i (ucast b) else r) 0 [0, 1, 2, 3, 4, 5, 6, 7]"

definition gf_red :: "u16 \<Rightarrow> byte" where
  "gf_red r = ucast (foldl (\<lambda>r i. if bit r (i + 8) then r XOR push_bit i 0x11B else r) r [6, 5, 4, 3, 2, 1, 0])"

definition gf_mul :: "byte \<Rightarrow> byte \<Rightarrow> byte" where
  "gf_mul a b = gf_red (clmul a b)"

definition gf_inverse :: "byte \<Rightarrow> byte \<Rightarrow> bool" where
  "gf_inverse b y = (b = 0 \<and> y = 0 \<or> gf_mul b y = 1)"

definition rol8 :: "byte \<Rightarrow> nat \<Rightarrow> byte" where
  "rol8 x n = push_bit n x OR drop_bit (8 - n) x"

definition fips_affine :: "byte \<Rightarrow> byte" where
  "fips_affine y = y XOR rol8 y 1 XOR rol8 y 2 XOR rol8 y 3 XOR rol8 y 4 XOR 0x63"

text \<open>The inverses, \<open>0\<close> for \<open>0\<close>.\<close>

definition gf_inverses :: "byte list" where
  "gf_inverses =
    [0x00, 0x01, 0x8d, 0xf6, 0xcb, 0x52, 0x7b, 0xd1, 0xe8, 0x4f, 0x29, 0xc0, 0xb0, 0xe1, 0xe5, 0xc7,
     0x74, 0xb4, 0xaa, 0x4b, 0x99, 0x2b, 0x60, 0x5f, 0x58, 0x3f, 0xfd, 0xcc, 0xff, 0x40, 0xee, 0xb2,
     0x3a, 0x6e, 0x5a, 0xf1, 0x55, 0x4d, 0xa8, 0xc9, 0xc1, 0x0a, 0x98, 0x15, 0x30, 0x44, 0xa2, 0xc2,
     0x2c, 0x45, 0x92, 0x6c, 0xf3, 0x39, 0x66, 0x42, 0xf2, 0x35, 0x20, 0x6f, 0x77, 0xbb, 0x59, 0x19,
     0x1d, 0xfe, 0x37, 0x67, 0x2d, 0x31, 0xf5, 0x69, 0xa7, 0x64, 0xab, 0x13, 0x54, 0x25, 0xe9, 0x09,
     0xed, 0x5c, 0x05, 0xca, 0x4c, 0x24, 0x87, 0xbf, 0x18, 0x3e, 0x22, 0xf0, 0x51, 0xec, 0x61, 0x17,
     0x16, 0x5e, 0xaf, 0xd3, 0x49, 0xa6, 0x36, 0x43, 0xf4, 0x47, 0x91, 0xdf, 0x33, 0x93, 0x21, 0x3b,
     0x79, 0xb7, 0x97, 0x85, 0x10, 0xb5, 0xba, 0x3c, 0xb6, 0x70, 0xd0, 0x06, 0xa1, 0xfa, 0x81, 0x82,
     0x83, 0x7e, 0x7f, 0x80, 0x96, 0x73, 0xbe, 0x56, 0x9b, 0x9e, 0x95, 0xd9, 0xf7, 0x02, 0xb9, 0xa4,
     0xde, 0x6a, 0x32, 0x6d, 0xd8, 0x8a, 0x84, 0x72, 0x2a, 0x14, 0x9f, 0x88, 0xf9, 0xdc, 0x89, 0x9a,
     0xfb, 0x7c, 0x2e, 0xc3, 0x8f, 0xb8, 0x65, 0x48, 0x26, 0xc8, 0x12, 0x4a, 0xce, 0xe7, 0xd2, 0x62,
     0x0c, 0xe0, 0x1f, 0xef, 0x11, 0x75, 0x78, 0x71, 0xa5, 0x8e, 0x76, 0x3d, 0xbd, 0xbc, 0x86, 0x57,
     0x0b, 0x28, 0x2f, 0xa3, 0xda, 0xd4, 0xe4, 0x0f, 0xa9, 0x27, 0x53, 0x04, 0x1b, 0xfc, 0xac, 0xe6,
     0x7a, 0x07, 0xae, 0x63, 0xc5, 0xdb, 0xe2, 0xea, 0x94, 0x8b, 0xc4, 0xd5, 0x9d, 0xf8, 0x90, 0x6b,
     0xb1, 0x0d, 0xd6, 0xeb, 0xc6, 0x0e, 0xcf, 0xad, 0x08, 0x4e, 0xd7, 0xe3, 0x5d, 0x50, 0x1e, 0xb3,
     0x5b, 0x23, 0x38, 0x34, 0x68, 0x46, 0x03, 0x8c, 0xdd, 0x9c, 0x7d, 0xa0, 0xcd, 0x1a, 0x41, 0x1c]"

definition sbox_check :: "byte \<times> byte \<Rightarrow> byte \<Rightarrow> bool" where
  "sbox_check zy b = (gf_inverse b (snd zy) \<and> fst zy = fips_affine (snd zy))"

lemmas sbox_simps = gf_inverse_def gf_mul_def gf_red_def clmul_def rol8_def fips_affine_def

lemma sbox_check_pair: "sbox_check (z, y) b = (gf_inverse b y \<and> fips_affine y = z)"
  by (auto simp: sbox_check_def)

lemma sbox_check_1: "list_all2 sbox_check (take 64 (drop 0 (zip SBox gf_inverses))) (map word_of_nat (take 64 (drop 0 [0..<256])))"
  unfolding SBox_def gf_inverses_def upt_256 by (simp, simp add: sbox_check_pair, simp add: sbox_simps)

lemma sbox_check_2: "list_all2 sbox_check (take 64 (drop 64 (zip SBox gf_inverses))) (map word_of_nat (take 64 (drop 64 [0..<256])))"
  unfolding SBox_def gf_inverses_def upt_256 by (simp, simp add: sbox_check_pair, simp add: sbox_simps)

lemma sbox_check_3: "list_all2 sbox_check (take 64 (drop 128 (zip SBox gf_inverses))) (map word_of_nat (take 64 (drop 128 [0..<256])))"
  unfolding SBox_def gf_inverses_def upt_256 by (simp, simp add: sbox_check_pair, simp add: sbox_simps)

lemma sbox_check_4: "list_all2 sbox_check (take 64 (drop 192 (zip SBox gf_inverses))) (map word_of_nat (take 64 (drop 192 [0..<256])))"
  unfolding SBox_def gf_inverses_def upt_256 by (simp, simp add: sbox_check_pair, simp add: sbox_simps)

lemma all2_parts: "list_all2 P (take n xs) (take n ys) \<Longrightarrow> list_all2 P (drop n xs) (drop n ys) \<Longrightarrow> list_all2 P xs ys"
  using list_all2_appendI [of P "take n xs" "take n ys" "drop n xs" "drop n ys"] by simp

lemma sbox_checked: "list_all2 sbox_check (zip SBox gf_inverses) (map word_of_nat [0..<256])"
proof -
  let ?x = "zip SBox gf_inverses" and ?y = "map word_of_nat [0..<256] :: byte list"
  have l: "length ?x = 256" by (simp add: SBox_def gf_inverses_def)
  have c: "list_all2 sbox_check (take 64 (drop k ?x)) (take 64 (drop k ?y))" if "k \<in> {0, 64, 128, 192}" for k
    using that sbox_check_1 sbox_check_2 sbox_check_3 sbox_check_4 by (auto simp only: take_map drop_map insert_iff empty_iff)
  have d: "list_all2 sbox_check (drop k ?x) (drop k ?y)"
    if "k \<in> {0, 64, 128, 192}" "list_all2 sbox_check (drop (k + 64) ?x) (drop (k + 64) ?y)" for k
    by (rule all2_parts [OF c [OF that(1)]]) (use that(2) in \<open>simp only: drop_drop add.commute\<close>)
  have "list_all2 sbox_check (drop 256 ?x) (drop 256 ?y)" using l by simp
  then have "list_all2 sbox_check (drop 0 ?x) (drop 0 ?y)" using d [of 192] d [of 128] d [of 64] d [of 0] by simp
  then show ?thesis by simp
qed

lemma ucast_xor: "ucast (x XOR y) = (ucast x XOR ucast y :: byte)" for x y :: u16
  by (rule bit_word_eqI) (simp add: bit_unsigned_iff bit_xor_iff)

lemma gf_mul_2: "gf_mul 2 b = GfMultBy02 b"
proof -
  let ?c = "push_bit 1 (ucast b) :: u16"
  have "clmul 2 b = ?c" by (simp add: clmul_def)
  moreover have "bit ?c (i + 8) = (i = 0 \<and> bit b 7)" for i
  proof -
    have "bit ?c (i + 8) = bit b (i + 7)" by (simp only: bit_push_bit_iff bit_unsigned_iff) (auto simp: add.commute [of 7] dest: bit_imp_le_length)
    also have "\<dots> = (i = 0 \<and> bit b 7)" using bit_imp_le_length [of b "i + 7"] by (cases "i = 0") auto
    finally show ?thesis .
  qed
  ultimately have "gf_mul 2 b = ucast (if bit b 7 then ?c XOR 0x11B else ?c)"
    unfolding gf_mul_def gf_red_def by simp
  also have "\<dots> = GfMultBy02 b"
  proof -
    have "ucast ?c = push_bit 1 b"
      by (rule bit_word_eqI) (simp only: bit_unsigned_iff bit_push_bit_iff, auto)
    then show ?thesis unfolding GfMultBy02_eq BPOLY_def by (cases "bit b 7") (simp_all add: ucast_xor)
  qed
  finally show ?thesis .
qed

lemma clmul_3: "clmul 3 b = clmul 2 b XOR ucast b"
  by (simp add: clmul_def xor.commute)

lemma gf_mul_3: "gf_mul 3 b = GfMultBy02 b XOR b"
proof -
  have 8: "\<not> bit (ucast b :: u16) (i + 8)" for i
    by (simp only: bit_unsigned_iff) (auto dest: bit_imp_le_length)
  have "gf_red (r XOR ucast b) = gf_red r XOR b" for r
  proof -
    have "foldl (\<lambda>r i. if bit r (i + 8) then r XOR push_bit i 0x11B else r) (r XOR ucast b) is
        = foldl (\<lambda>r i. if bit r (i + 8) then r XOR push_bit i 0x11B else r) r is XOR ucast b" for r :: u16 and "is" :: "nat list"
    proof (induction "is" arbitrary: r)
      case (Cons i js)
      have "bit (r XOR ucast b) (i + 8) = bit r (i + 8)" using 8 [of i] by (simp only: bit_xor_iff) simp
      then show ?case using Cons [of r] Cons [of "r XOR push_bit i 0x11B"] by (simp add: xor.assoc xor.left_commute xor.commute)
    qed simp
    moreover have "ucast (ucast b :: u16) = b" by (rule bit_word_eqI) (auto simp: bit_unsigned_iff)
    ultimately show ?thesis by (simp only: gf_red_def ucast_xor)
  qed
  then show ?thesis using gf_mul_2 [of b] by (simp add: gf_mul_def clmul_3)
qed

lemma sub_byte_fips: "\<exists>y. gf_inverse b y \<and> sub_byte False b = fips_affine y"
proof -
  have n: "unat b < 256" using unsigned_less [of b] by simp
  have l: "length SBox = 256" "length gf_inverses = 256" by (simp_all add: SBox_def gf_inverses_def)
  have "sbox_check (zip SBox gf_inverses ! unat b) (map word_of_nat [0..<256] ! unat b)"
    using list_all2_nthD [OF sbox_checked, of "unat b"] n l by simp
  then show ?thesis using n l by (auto simp: sbox_check_def sub_byte_def)
qed

section \<open>The word of the key table\<close>

definition fips_rcon :: "nat \<Rightarrow> byte" where
  "fips_rcon j = (gf_mul 2 ^^ j) 1"

lemma pred_div4: "4 \<le> n \<Longrightarrow> (n - 1) div 4 = (if n mod 4 = 0 then n div 4 - 1 else n div 4)" for n :: nat
proof -
  assume n: "4 \<le> n"
  have e: "n = 4 * (n div 4) + n mod 4" "n mod 4 < 4" by simp_all
  show ?thesis
  proof (cases "n mod 4 = 0")
    case True
    obtain q where q: "n div 4 = Suc q" using n e by (cases "n div 4") auto
    have "n = 4 * (n div 4)" using True e(1) by simp
    then have "n = 4 * Suc q" unfolding q .
    then have "4 * q \<le> n - 1" "n - 1 < 4 * Suc q" by simp_all
    then have "(n - 1) div 4 = n div 4 - 1" unfolding q by (intro div_nat_eqI) simp_all
    with True show ?thesis by simp
  next
    case False
    have "n < 4 * Suc (n div 4)" using e unfolding mult_Suc_right by linarith
    then have "n - 1 < 4 * Suc (n div 4)" by (rule less_imp_diff_less)
    moreover from False e have "4 * (n div 4) \<le> n - 1" by linarith
    ultimately have "(n - 1) div 4 = n div 4" by (intro div_nat_eqI) simp_all
    with False show ?thesis by simp
  qed
qed

lemma rcon_upto: "4 \<le> n \<Longrightarrow> snd (keys_upto key n) = fips_rcon ((n - 1) div 4)"
proof (induction n rule: dec_induct)
  case base
  then show ?case by (simp add: keys_upto_def fips_rcon_def)
next
  case (step n)
  obtain t c where k: "keys_upto key n = (t, c)" by (cases "keys_upto key n")
  have "0 < n div 4" using step(1) by (simp add: div_greater_zero_iff)
  then have d: "n div 4 = (if n mod 4 = 0 then Suc ((n - 1) div 4) else (n - 1) div 4)"
    using pred_div4 [OF step(1)] by simp
  show ?case
    using step k d by (simp add: keys_upto_Suc key_step_def Let_def Nk_def fips_rcon_def gf_mul_2)
qed

text \<open>
  The standard's side of the key expansion, without the steps of the program: \<open>RotWord\<close> moves the
  first byte of a word behind the others, \<open>SubWord\<close> replaces each byte by the S-box, the round
  constant is a power of \<open>x\<close>.
\<close>

definition fips_rot_word :: "byte list \<Rightarrow> byte list" where
  "fips_rot_word w = tl w @ [hd w]"

definition fips_temp :: "byte list \<Rightarrow> nat \<Rightarrow> byte list" where
  "fips_temp w i = (if i mod 4 = 0
     then map2 (\<lambda>a b. a XOR b) (map (sub_byte False) (fips_rot_word w)) [fips_rcon (i div 4 - 1), 0, 0, 0] else w)"

lemma RotationWord_fips: "length w = 4 \<Longrightarrow> RotationWord w = fips_rot_word w"
  by (auto simp: numeral_eq_Suc length_Suc_conv RotationWord_def fips_rot_word_def)

lemma fips_temp_step:
  assumes "length w = 4"
  shows "fips_temp w i = (if i mod 4 = 0 then XorBytes (SubBytes (RotationWord w) False) [fips_rcon (i div 4 - 1), 0, 0, 0] else w)"
  unfolding fips_temp_def RotationWord_fips [OF assms] by (simp only: XorBytes_def SubBytes_def)

lemma key_words:
  assumes "length key = 16" "4 \<le> i" "i < 44"
  shows "slice (AES_Init key) (4 * i) 4
    = map2 (\<lambda>a b. a XOR b) (fips_temp (slice (AES_Init key) (4 * (i - 1)) 4) i) (slice (AES_Init key) (4 * (i - 4)) 4)"
proof -
  let ?T = "AES_Init key"
  obtain t c where k: "keys_upto key i = (t, c)" by (cases "keys_upto key i")
  have t: "length t = 4 * i" using length_keys_upto [OF assms(1,2)] k by simp
  have w: "slice ?T (4 * j) 4 = slice t (4 * j) 4" if "j < i" for j
    using keys_upto_slice [OF assms(1,2) _ that, of 44] assms(3) k by (simp add: AES_Init_eq assms(1))
  have c: "i mod 4 = 0 \<Longrightarrow> c = fips_rcon (i div 4 - 1)"
  proof -
    assume "i mod 4 = 0"
    then have "(i - 1) div 4 = i div 4 - 1" using pred_div4 [OF assms(2)] by simp
    then show ?thesis using rcon_upto [OF assms(2), of key] k by simp
  qed
  have "slice ?T (4 * i) 4 = slice (fst (key_step (t, c) i)) (4 * i) 4"
    using keys_upto_slice [OF assms(1), of "Suc i" 44 i] assms k by (simp add: AES_Init_eq keys_upto_Suc)
  also have "\<dots> = map2 (\<lambda>a b. a XOR b) (fips_temp (slice t (4 * (i - 1)) 4) i) (slice t (4 * (i - 4)) 4)"
  proof -
    have l: "length (slice t (4 * i - 4) 4) = 4" "length (slice t (4 * i - 16) 4) = 4" using t assms(2) by simp_all
    let ?x = "XorBytes (fips_temp (slice t (4 * i - 4) 4) i) (slice t (4 * i - 16) 4)"
    have "fst (key_step (t, c) i) = t @ ?x"
      unfolding fips_temp_step [OF l(1)] by (cases "i mod 4 = 0") (simp_all add: key_step_def Let_def Nk_def c)
    moreover have "length ?x = 4" using l by (simp add: XorBytes_def fips_temp_def fips_rot_word_def)
    ultimately have "slice (fst (key_step (t, c) i)) (4 * i) 4 = ?x" using t by (simp add: slice_def)
    moreover have "4 * (i - 1) = 4 * i - 4" "4 * (i - 4) = 4 * i - 16" by simp_all
    ultimately show ?thesis by (simp only: XorBytes_def)
  qed
  finally show ?thesis using w [of "i - 1"] w [of "i - 4"] assms(2) by simp
qed

lemma keys_upto_first:
  assumes "length key = 16" "4 \<le> n"
  shows "take 16 (fst (keys_upto key n)) = key"
  using assms(2)
proof (induction n rule: dec_induct)
  case (step n)
  have "16 \<le> length (fst (keys_upto key n))" using length_keys_upto [OF assms(1) step(1)] step(1) by simp
  with step show ?case
    by (cases "keys_upto key n") (auto simp: keys_upto_Suc key_step_def Let_def split: prod.split)
qed (simp add: keys_upto_def assms(1))

lemma key_first: "length key = 16 \<Longrightarrow> length (AES_Init key) = 176 \<and> take 16 (AES_Init key) = key"
  by (simp add: AES_Init_eq length_keys_upto keys_upto_first)

section \<open>Evaluation\<close>

text \<open>Rewriting rules that compute with literal bytes.\<close>

lemma sub_byte_table: "list_all2 (\<lambda>b z. sub_byte False b = z) (map word_of_nat [0..<256]) SBox"
proof -
  have "sub_byte False (map word_of_nat [0..<256] ! i) = SBox ! i" if "i < 256" for i
    using that by (simp add: sub_byte_def unsigned_of_nat take_bit_nat_eq_self)
  then show ?thesis by (simp add: list_all2_conv_all_nth length_SBox)
qed

lemmas sub_byte_values = sub_byte_table [unfolded SBox_def upt_256 list.map, simplified]

lemma GfMultBy02_eval: "GfMultBy02 n = (if n AND 0x80 = 0 then push_bit 1 n else push_bit 1 (n AND 0x7F) XOR 0x1B)"
proof -
  have "push_bit 1 n = push_bit 1 (n AND 0x7F)"
  proof (rule bit_word_eqI)
    fix i assume i: "i < LENGTH(8)"
    have "(0x7F :: byte) = mask 7" by (simp add: mask_numeral)
    then show "bit (push_bit 1 n) i = bit (push_bit 1 (n AND 0x7F)) i"
      using i by (cases i) (simp_all only: bit_push_bit_iff bit_and_iff bit_mask_iff, auto)
  qed
  then show ?thesis by (simp add: GfMultBy02_def BPOLY_def)
qed

lemmas aes_eval = sub_byte_values XorBytes_def SubBytes_def shift_rows_list mix_columns_list mix_column_def GfMultBy02_eval Let_def
  key_step_def RotationWord_def Nk_def Nb_def Nr_def slice_def

lemma upt_44: "[4..<44] = [4, 5, 6, 7, 8, 9, 10, 11, 12, 13, 14, 15, 16, 17, 18, 19, 20, 21, 22, 23,
     24, 25, 26, 27, 28, 29, 30, 31, 32, 33, 34, 35, 36, 37, 38, 39, 40, 41, 42, 43]"
  by code_simp

lemma kv: "AES_Init [1, 2, 3, 4, 5, 6, 7, 8, 9, 10, 11, 12, 13, 14, 15, 16] = [0x01, 0x02, 0x03, 0x04, 0x05, 0x06, 0x07, 0x08, 0x09, 0x0a, 0x0b, 0x0c, 0x0d, 0x0e, 0x0f, 0x10, 0xab, 0x74, 0xc9, 0xd3, 0xae, 0x72, 0xce, 0xdb, 0xa7, 0x78, 0xc5, 0xd7, 0xaa, 0x76, 0xca, 0xc7, 0x91, 0x00, 0x0f, 0x7f, 0x3f, 0x72, 0xc1, 0xa4, 0x98, 0x0a, 0x04, 0x73, 0x32, 0x7c, 0xce, 0xb4, 0x85, 0x8b, 0x82, 0x5c, 0xba, 0xf9, 0x43, 0xf8, 0x22, 0xf3, 0x47, 0x8b, 0x10, 0x8f, 0x89, 0x3f, 0xfe, 0x2c, 0xf7, 0x96, 0x44, 0xd5, 0xb4, 0x6e, 0x66, 0x26, 0xf3, 0xe5, 0x76, 0xa9, 0x7a, 0xda, 0x3d, 0xf6, 0xa0, 0xae, 0x79, 0x23, 0x14, 0xc0, 0x1f, 0x05, 0xe7, 0x25, 0x69, 0xac, 0x9d, 0xff, 0x8c, 0xa8, 0xb6, 0x57, 0xf5, 0x8b, 0xa2, 0x97, 0xea, 0x8e, 0x45, 0xb2, 0x83, 0x22, 0xd8, 0x4d, 0x5f, 0xc9, 0x55, 0xbb, 0xaa, 0x42, 0xf7, 0x2c, 0x40, 0xcc, 0xb2, 0x9e, 0xc3, 0xee, 0x6a, 0xd3, 0xf7, 0xcb, 0x33, 0x95, 0x5d, 0x89, 0xc4, 0xb9, 0x1d, 0x45, 0x76, 0x27, 0xde, 0xab, 0x1c, 0xf4, 0x8e, 0x57, 0x8c, 0x88, 0xd3, 0xde, 0x48, 0x31, 0xce, 0x9b, 0x3e, 0x16, 0x10, 0x30, 0x22, 0xe2, 0xbc, 0xc4, 0x14, 0x42, 0x6f, 0x1a, 0x5c, 0x73, 0xa1, 0x81, 0x62, 0x65, 0xb1, 0xb1, 0x40, 0x87]"
  by (simp add: AES_Init_eq keys_upto_def upt_44) (simp add: aes_eval)

lemma upt_11: "[1..<Suc Nr] = [1, 2, 3, 4, 5, 6, 7, 8, 9, 10]"
  by code_simp

lemmas key_eval = AES_Init_eq keys_upto_def upt_44
lemmas block_eval = BlockEncrypt_def upt_11 enc_round_def round_key_def

text \<open>The example of the standard (appendix C.1).\<close>

lemma fips_keys: "AES_Init [0x00, 0x01, 0x02, 0x03, 0x04, 0x05, 0x06, 0x07, 0x08, 0x09, 0x0a, 0x0b, 0x0c, 0x0d, 0x0e, 0x0f] =
    [0x00, 0x01, 0x02, 0x03, 0x04, 0x05, 0x06, 0x07, 0x08, 0x09, 0x0a, 0x0b, 0x0c, 0x0d, 0x0e, 0x0f, 0xd6,
     0xaa, 0x74, 0xfd, 0xd2, 0xaf, 0x72, 0xfa, 0xda, 0xa6, 0x78, 0xf1, 0xd6, 0xab, 0x76, 0xfe, 0xb6, 0x92,
     0xcf, 0x0b, 0x64, 0x3d, 0xbd, 0xf1, 0xbe, 0x9b, 0xc5, 0x00, 0x68, 0x30, 0xb3, 0xfe, 0xb6, 0xff, 0x74,
     0x4e, 0xd2, 0xc2, 0xc9, 0xbf, 0x6c, 0x59, 0x0c, 0xbf, 0x04, 0x69, 0xbf, 0x41, 0x47, 0xf7, 0xf7, 0xbc,
     0x95, 0x35, 0x3e, 0x03, 0xf9, 0x6c, 0x32, 0xbc, 0xfd, 0x05, 0x8d, 0xfd, 0x3c, 0xaa, 0xa3, 0xe8, 0xa9,
     0x9f, 0x9d, 0xeb, 0x50, 0xf3, 0xaf, 0x57, 0xad, 0xf6, 0x22, 0xaa, 0x5e, 0x39, 0x0f, 0x7d, 0xf7, 0xa6,
     0x92, 0x96, 0xa7, 0x55, 0x3d, 0xc1, 0x0a, 0xa3, 0x1f, 0x6b, 0x14, 0xf9, 0x70, 0x1a, 0xe3, 0x5f, 0xe2,
     0x8c, 0x44, 0x0a, 0xdf, 0x4d, 0x4e, 0xa9, 0xc0, 0x26, 0x47, 0x43, 0x87, 0x35, 0xa4, 0x1c, 0x65, 0xb9,
     0xe0, 0x16, 0xba, 0xf4, 0xae, 0xbf, 0x7a, 0xd2, 0x54, 0x99, 0x32, 0xd1, 0xf0, 0x85, 0x57, 0x68, 0x10,
     0x93, 0xed, 0x9c, 0xbe, 0x2c, 0x97, 0x4e, 0x13, 0x11, 0x1d, 0x7f, 0xe3, 0x94, 0x4a, 0x17, 0xf3, 0x07,
     0xa7, 0x8b, 0x4d, 0x2b, 0x30, 0xc5]"
  by (simp add: key_eval) (simp add: aes_eval)

lemma fips_block: "BlockEncrypt (AES_Init [0x00, 0x01, 0x02, 0x03, 0x04, 0x05, 0x06, 0x07, 0x08, 0x09, 0x0a, 0x0b, 0x0c, 0x0d, 0x0e, 0x0f])
    [0x00, 0x11, 0x22, 0x33, 0x44, 0x55, 0x66, 0x77, 0x88, 0x99, 0xaa, 0xbb, 0xcc, 0xdd, 0xee, 0xff]
    = [0x69, 0xc4, 0xe0, 0xd8, 0x6a, 0x7b, 0x04, 0x30, 0xd8, 0xcd, 0xb7, 0x80, 0x70, 0xb4, 0xc5, 0x5a]"
  unfolding fips_keys block_eval by (simp add: aes_eval)

section \<open>Properties\<close>

text \<open>
  C30. Decryption gives back every text of whole blocks, for every key of 16 bytes and every start
  block; and the key table that the expansion fills has room for the eleven round keys.
\<close>

theorem aes_roundtrip:
  assumes "length key = 16" "length iv = 16" "16 dvd length p"
  shows "length (AES_Init key) = 176 \<and> length (AES_Encrypt (AES_Init key) iv p) = length p
    \<and> AES_Decrypt (AES_Init key) iv (AES_Encrypt (AES_Init key) iv p) = p"
  using decrypt_encrypt [OF keys_of_key [OF assms(1)] assms(2,3)] keys_of_key [OF assms(1)] by (simp add: keys_ok_def)

text \<open>
  C31. The steps are those of FIPS 197: the S-box is the affine image of the inverse modulo
  \<open>x^8 + x^4 + x^3 + x + 1\<close>, row \<open>r\<close> moves by \<open>r\<close> places, each column is multiplied by the matrix
  of the standard, the first four words of the key table are the key, and every further word
  is the exclusive or of the word four places before it with the one before it, which is
  rotated, substituted and added to the round constant at each fourth word.
\<close>

theorem aes_is_fips197:
  assumes "length s = 16" "length key = 16"
  shows "(\<exists>y. gf_inverse b y \<and> sub_byte False b = fips_affine y)
    \<and> (\<forall>r < 4. \<forall>c < 4. ShiftRows s False ! (r + 4 * c) = s ! (r + 4 * ((c + r) mod 4)))
    \<and> (\<forall>r < 4. \<forall>c < 4. MixColumns s False ! (r + 4 * c) = gf_mul 2 (s ! (r + 4 * c)) XOR gf_mul 3 (s ! ((r + 1) mod 4 + 4 * c))
        XOR s ! ((r + 2) mod 4 + 4 * c) XOR s ! ((r + 3) mod 4 + 4 * c))
    \<and> length (AES_Init key) = 176 \<and> take 16 (AES_Init key) = key
    \<and> (\<forall>i. 4 \<le> i \<and> i < 44 \<longrightarrow> slice (AES_Init key) (4 * i) 4
        = map2 (\<lambda>a b. a XOR b) (fips_temp (slice (AES_Init key) (4 * (i - 1)) 4) i) (slice (AES_Init key) (4 * (i - 4)) 4))"
proof -
  obtain a0 a1 a2 a3 b0 b1 b2 b3 c0 c1 c2 c3 d0 d1 d2 d3
    where s: "s = [a0, a1, a2, a3, b0, b1, b2, b3, c0, c1, c2, c3, d0, d1, d2, d3]"
    using assms(1) by (rule block_bytes)
  have four: "(\<forall>r < 4. P r) = (P 0 \<and> P 1 \<and> P 2 \<and> P 3)" for P :: "nat \<Rightarrow> bool"
    by (auto simp: numeral_eq_Suc less_Suc_eq)
  have sh: "\<forall>r < 4. \<forall>c < 4. ShiftRows s False ! (r + 4 * c) = s ! (r + 4 * ((c + r) mod 4))"
    unfolding s shift_rows_list four by simp
  have mc: "mix_column False [a, b, c, d] = [gf_mul 2 a XOR gf_mul 3 b XOR c XOR d, gf_mul 2 b XOR gf_mul 3 c XOR d XOR a,
      gf_mul 2 c XOR gf_mul 3 d XOR a XOR b, gf_mul 2 d XOR gf_mul 3 a XOR b XOR c]" for a b c d
    by (simp add: mix_column_def Let_def gf_mul_2 gf_mul_3 gf_xor xor.assoc xor.left_commute xor.commute xor_xor_left)
  have mx: "\<forall>r < 4. \<forall>c < 4. MixColumns s False ! (r + 4 * c) = gf_mul 2 (s ! (r + 4 * c)) XOR gf_mul 3 (s ! ((r + 1) mod 4 + 4 * c))
        XOR s ! ((r + 2) mod 4 + 4 * c) XOR s ! ((r + 3) mod 4 + 4 * c)"
    unfolding s mix_columns_list mc four by simp
  show ?thesis using sub_byte_fips [of b] sh mx key_words [OF assms(2)] key_first [OF assms(2)] by blast
qed

theorem aes_roundtrip_witness:
  "AES_Decrypt (AES_Init (replicate 16 7)) (replicate 16 1) (AES_Encrypt (AES_Init (replicate 16 7)) (replicate 16 1) (replicate 32 5))
    = replicate 32 5"
  using aes_roundtrip [of "replicate 16 7" "replicate 16 1" "replicate 32 5"] by simp

theorem aes_is_fips197_witness: "(\<exists>y. gf_inverse 0x53 y \<and> sub_byte False 0x53 = fips_affine y)
    \<and> take 16 (AES_Init (replicate 16 0)) = replicate 16 0"
  using aes_is_fips197 [where s = "replicate 16 0" and key = "replicate 16 0" and b = "0x53"] by simp

end
