(* ===== verification/Bjdc.thy ===== *)
theory Bjdc
  imports Crc CText Xml Aes
begin

text \<open>
  The link of the building-energy protocol (\<open>sdccp/cc_bjdc.c\<close>, \<open>sdccp/cc_bjdc.h\<close>): packets of
  encrypted XML text with a checksum, the receive state machine, and the messages it queues for
  the work thread.

  Parsing and printing of XML text are parameters (\<open>bj_lib\<close>). An operation is \<open>None\<close> where the
  code would access memory outside an object or through a null pointer.

  Shown: a packet that was sent is received as the text that was sent; the receiver stays within
  its buffer; a stray first byte is never recovered from.
\<close>

unbundle bit_operations_syntax

section \<open>Constants and state\<close>

definition CC_BJDC_BUF_SIZE :: nat where "CC_BJDC_BUF_SIZE = 2048"
definition CC_BJDC_PRE :: u32 where "CC_BJDC_PRE = 0x55AA55AA"
definition CC_BJDC_EOM :: u32 where "CC_BJDC_EOM = 0x16166868"

datatype eCC_BJDC_RcvState = CC_BJDC_R_S_HEAD | CC_BJDC_R_S_EOM

text \<open>
  \<open>CC_BJDC_Data_t\<close>, with the member of its union that belongs to the type (and, for the two kinds
  of \<open>CC_BJDC_PT_VERIFY\<close>, to \<open>btState\<close>): the bytes of \<open>szSequence[9]\<close>, the first 15 of
  \<open>szDate[16]\<close>.
\<close>

datatype CC_BJDC_Data =
    BJ_VERIFY_SEQ "byte list"
  | BJ_VERIFY_RESULT bool
  | BJ_DEVINFO
  | BJ_HEARTBEAT "byte list"
  | BJ_PERIOD_CFG u32
  | BJ_RESTART
  | BJ_DATA_QUERY
  | BJ_DATA_CONTINUE

text \<open>
  The library: parsing of a text (\<open>mxmlLoadString\<close> with \<open>MXML_NO_CALLBACK\<close>, which makes all
  values text) and printing; and the address at which it keeps the name of an element.
\<close>

record bj_lib =
  mxmlLoadString :: "byte list \<Rightarrow> xdoc option"
  mxmlSaveString :: "xdoc \<Rightarrow> byte list"
  x_name_addr :: "xdoc \<Rightarrow> nat \<Rightarrow> u32"

text \<open>
  AES with the key of the program, which is also its start block. The table of round keys is
  that of \<open>cc_bjdc_open\<close>, the only one to call \<open>AES_Init\<close>.
\<close>

definition c_xAESKeyAndIV :: "byte list" where
  "c_xAESKeyAndIV = [1, 2, 3, 4, 5, 6, 7, 8, 9, 10, 11, 12, 13, 14, 15, 16]"

definition bj_keys :: "byte list" where
  "bj_keys = AES_Init c_xAESKeyAndIV"

definition bj_encrypt :: "byte list \<Rightarrow> byte list" where
  "bj_encrypt x = AES_Encrypt bj_keys c_xAESKeyAndIV x"

definition bj_decrypt :: "byte list \<Rightarrow> byte list" where
  "bj_decrypt x = AES_Decrypt bj_keys c_xAESKeyAndIV x"

lemma bj_keys_ok: "keys_ok bj_keys" "length c_xAESKeyAndIV = 16"
  using keys_of_key [of c_xAESKeyAndIV] by (simp_all add: bj_keys_def c_xAESKeyAndIV_def)

lemma bj_aes: "length (bj_decrypt x) = length x"
  "16 dvd length x \<Longrightarrow> length (bj_encrypt x) = length x \<and> bj_decrypt (bj_encrypt x) = x"
  using length_AES_Decrypt [OF bj_keys_ok] decrypt_encrypt [OF bj_keys_ok] by (simp_all add: bj_decrypt_def bj_encrypt_def)

record bj_link =
  bj_buf :: "byte list"
  bj_pos :: nat
  bj_rcv :: eCC_BJDC_RcvState
  bj_mq :: "CC_BJDC_Data list"
  bj_sent :: "byte list list"

definition bj_send :: "byte list \<Rightarrow> bj_link \<Rightarrow> bj_link" where
  "bj_send f st = st\<lparr>bj_sent := bj_sent st @ [f]\<rparr>"

text \<open>\<open>rt_mq_send\<close> to the queue of three messages.\<close>

definition bj_mq_send :: "CC_BJDC_Data \<Rightarrow> bj_link \<Rightarrow> bj_link" where
  "bj_mq_send x st = (if length (bj_mq st) < 3 then st\<lparr>bj_mq := bj_mq st @ [x]\<rparr> else st)"

definition cc_bjdc_open :: "bj_link \<Rightarrow> bj_link" where
  "cc_bjdc_open st = st\<lparr>bj_buf := replicate CC_BJDC_BUF_SIZE 0, bj_pos := 0, bj_rcv := CC_BJDC_R_S_HEAD, bj_mq := []\<rparr>"

section \<open>Sending\<close>

definition RT_ALIGN16 :: "nat \<Rightarrow> nat" where
  "RT_ALIGN16 n = (n + 15) div 16 * 16"

text \<open>The packet of a text: the text is padded with the zeros of the cleared buffer.\<close>

definition bj_packet :: "byte list \<Rightarrow> byte list" where
  "bj_packet xml =
     (let n = RT_ALIGN16 (length xml);
          body = bytes_le32 0 @ bj_encrypt (xml @ replicate (n - length xml) 0)
      in bytes_le32 CC_BJDC_PRE @ bytes_le32 (word_of_nat (4 + n)) @ body
         @ bytes_le16 (CC_GetCrc16 body) @ bytes_le32 CC_BJDC_EOM)"

definition cc_bjdc_send_xmlpack :: "bool \<Rightarrow> byte list \<Rightarrow> bj_link \<Rightarrow> bool \<times> bj_link" where
  "cc_bjdc_send_xmlpack alloc xml st =
     (if alloc then (True, bj_send (bj_packet xml) st) else (False, st))"

section \<open>Parsing\<close>

text \<open>
  \<open>__xml_str\<close>, \<open>None\<close> where the child is not text. A word of text is what \<open>value.text.string\<close> is.
\<close>

definition xml_word :: "xdoc \<Rightarrow> nat \<Rightarrow> byte list option" where
  "xml_word d p = (case x_item d p of XText _ s \<Rightarrow> Some s | _ \<Rightarrow> None)"

definition xml_str :: "xdoc \<Rightarrow> nat option \<Rightarrow> string \<Rightarrow> bool option" where
  "xml_str d node str = (case node of None \<Rightarrow> Some False | Some p \<Rightarrow>
     (case x_child d p of None \<Rightarrow> Some False | Some c \<Rightarrow> map_option (\<lambda>s. s = lit str) (xml_word d c)))"

definition xml_get :: "xdoc \<Rightarrow> nat option \<Rightarrow> nat option" where
  "xml_get d node = (case node of None \<Rightarrow> None | Some p \<Rightarrow> x_child d p)"

abbreviation x_find :: "xdoc \<Rightarrow> nat option \<Rightarrow> nat option \<Rightarrow> string \<Rightarrow> nat option" where
  "x_find d node tp name \<equiv> mxmlFindElement d node tp (lit name)"

text \<open>
  \<open>value.integer\<close> is the first word of the union: of a word of text its white-space flag, of an
  element (or comment) the pointer to its name, of a \<open>double\<close> its low half.
\<close>

definition xml_integer :: "bj_lib \<Rightarrow> xdoc \<Rightarrow> nat \<Rightarrow> u32" where
  "xml_integer L d p = (case x_item d p of XText w _ \<Rightarrow> if w then 1 else 0 | XElem _ _ \<Rightarrow> x_name_addr L d p
     | XInt i \<Rightarrow> word_of_int i | XReal v \<Rightarrow> ucast v)"

definition bj_sequence :: "xdoc \<Rightarrow> nat option \<Rightarrow> CC_BJDC_Data option option" where
  "bj_sequence d root = (let node = x_find d root (Some 0) ''id_validate''; node = x_find d node root ''sequence''
     in case xml_get d node of None \<Rightarrow> Some None
      | Some c \<Rightarrow> do { s \<leftarrow> xml_word d c; Some (Some (BJ_VERIFY_SEQ (strncpy_arr 9 s))) })"

definition bj_result :: "xdoc \<Rightarrow> nat option \<Rightarrow> CC_BJDC_Data option option" where
  "bj_result d root = (let node = x_find d root (Some 0) ''id_validate''; node = x_find d node root ''result''
     in case xml_get d node of None \<Rightarrow> Some None
      | Some c \<Rightarrow> do { s \<leftarrow> xml_word d c; Some (Some (BJ_VERIFY_RESULT (s = lit ''pass''))) })"

definition bj_time :: "xdoc \<Rightarrow> nat option \<Rightarrow> CC_BJDC_Data option option" where
  "bj_time d root = (let node = x_find d root (Some 0) ''heart_beat''; node = x_find d node root ''time''
     in case xml_get d node of None \<Rightarrow> Some None
      | Some c \<Rightarrow> do { s \<leftarrow> xml_word d c; Some (Some (BJ_HEARTBEAT (strncpy_arr 15 s))) })"

definition bj_period :: "bj_lib \<Rightarrow> xdoc \<Rightarrow> nat option \<Rightarrow> CC_BJDC_Data option option" where
  "bj_period L d root = (let node = x_find d root (Some 0) ''period''
     in Some (map_option (\<lambda>c. BJ_PERIOD_CFG (xml_integer L d c)) (xml_get d node)))"

text \<open>\<open>strcmp (op, "restart")\<close> without a test of \<open>op\<close> for \<open>NULL\<close>.\<close>

definition bj_restart :: "xdoc \<Rightarrow> nat option \<Rightarrow> CC_BJDC_Data option option" where
  "bj_restart d root = (let node = x_find d root (Some 0) ''Instruction''
     in do { op \<leftarrow> mxmlElementGetAttr d node (lit ''operation'');
             Some (if op = lit ''restart'' then Some BJ_RESTART else None) })"

definition bj_message :: "bj_lib \<Rightarrow> xdoc \<Rightarrow> CC_BJDC_Data option option" where
  "bj_message L d =
     (let root = x_find d (Some 0) (Some 0) ''root'';
          common = x_find d root root ''common'';
          type = x_find d common root ''type''
      in do {
        b \<leftarrow> xml_str d type ''sequence''; if b then bj_sequence d root else do {
        b \<leftarrow> xml_str d type ''result''; if b then bj_result d root else do {
        b \<leftarrow> xml_str d type ''device_ack''; if b then Some (Some BJ_DEVINFO) else do {
        b \<leftarrow> xml_str d type ''time''; if b then bj_time d root else do {
        b \<leftarrow> xml_str d type ''period''; if b then bj_period L d root else do {
        b \<leftarrow> xml_str d type ''restart''; if b then bj_restart d root else do {
        b \<leftarrow> xml_str d type ''query''; if b then Some (Some BJ_DATA_QUERY) else do {
        b \<leftarrow> xml_str d type ''continuous''; Some (if b then Some BJ_DATA_CONTINUE else None) }}}}}}}})"

definition CC_BJDC_ParsePack :: "bj_lib \<Rightarrow> byte list \<Rightarrow> bj_link \<Rightarrow> bj_link option" where
  "CC_BJDC_ParsePack L text st = (case mxmlLoadString L text of
      None \<Rightarrow> Some st
    | Some d \<Rightarrow> do { m \<leftarrow> bj_message L d;
        Some (case m of None \<Rightarrow> st | Some x \<Rightarrow> bj_mq_send x st) })"

section \<open>Receiving\<close>

definition le32_at :: "byte list \<Rightarrow> nat \<Rightarrow> u32" where
  "le32_at buf i = le32 (buf ! i) (buf ! (i + 1)) (buf ! (i + 2)) (buf ! (i + 3))"

definition le16_at :: "byte list \<Rightarrow> nat \<Rightarrow> u16" where
  "le16_at buf i = le16 (buf ! i) (buf ! (i + 1))"

text \<open>
  The end of a packet at \<open>nPos\<close>: its length and checksum are compared, the data are decrypted in
  the buffer and closed with a zero, which goes where the checksum was.
\<close>

definition bj_packet_end :: "bj_lib \<Rightarrow> nat \<Rightarrow> bj_link \<Rightarrow> bj_link option" where
  "bj_packet_end L nPos st =
     (let buf = bj_buf st; ulLen = le32_at buf 4; n = unat ulLen
      in if ulLen + 14 = word_of_nat nPos \<and> CC_GetCrc16 (slice buf 8 n) = le16_at buf (nPos - 6)
      then do {
        buf \<leftarrow> blit_chk buf 12 (bj_decrypt (slice buf 12 (n - 4)));
        buf \<leftarrow> blit_chk buf (12 + (n - 4)) [0];
        text \<leftarrow> cstr (drop 12 buf);
        CC_BJDC_ParsePack L text (st\<lparr>bj_buf := buf\<rparr>) }
      else Some st)"

definition bj_put_byte :: "bj_lib \<Rightarrow> bj_link \<Rightarrow> byte \<Rightarrow> bj_link option" where
  "bj_put_byte L st b = do {
     buf \<leftarrow> blit_chk (bj_buf st) (bj_pos st) [b];
     let nPos = (if CC_BJDC_BUF_SIZE \<le> bj_pos st + 1 then 0 else bj_pos st + 1);
     let st = st\<lparr>bj_buf := buf, bj_pos := nPos\<rparr>;
     case bj_rcv st of
       CC_BJDC_R_S_HEAD \<Rightarrow> Some (if nPos = 4
         then (if le32_at buf 0 = CC_BJDC_PRE then st\<lparr>bj_rcv := CC_BJDC_R_S_EOM\<rparr> else st\<lparr>bj_pos := 2\<rparr>)
         else st)
     | CC_BJDC_R_S_EOM \<Rightarrow>
         if 8 \<le> nPos \<and> le32_at buf (nPos - 4) = CC_BJDC_EOM \<and> 18 \<le> nPos
         then do {
           st \<leftarrow> bj_packet_end L nPos st;
           Some (st\<lparr>bj_rcv := CC_BJDC_R_S_HEAD, bj_pos := 0\<rparr>) }
         else Some st }"

fun CC_BJDC_PutBytes :: "bj_lib \<Rightarrow> byte list \<Rightarrow> bj_link \<Rightarrow> bj_link option" where
  "CC_BJDC_PutBytes L [] st = Some st"
| "CC_BJDC_PutBytes L (b # bs) st = do { st \<leftarrow> bj_put_byte L st b; CC_BJDC_PutBytes L bs st }"


section \<open>Receiving a packet\<close>

definition bj_idle :: "bj_link \<Rightarrow> bool" where
  "bj_idle st = (length (bj_buf st) = CC_BJDC_BUF_SIZE \<and> bj_pos st = 0 \<and> bj_rcv st = CC_BJDC_R_S_HEAD)"

text \<open>The link after the first \<open>j\<close> bytes of the packet \<open>p\<close>.\<close>

definition bj_in :: "byte list \<Rightarrow> nat \<Rightarrow> bj_link \<Rightarrow> bj_link" where
  "bj_in p j st = st\<lparr>bj_buf := take j p @ drop j (bj_buf st), bj_pos := j,
     bj_rcv := (if j < 4 then CC_BJDC_R_S_HEAD else CC_BJDC_R_S_EOM)\<rparr>"

text \<open>The mark of the end does not come up inside the packet.\<close>

definition bj_clear :: "byte list \<Rightarrow> bool" where
  "bj_clear p = list_all (\<lambda>j. le32_at p (j - 4) \<noteq> CC_BJDC_EOM) [18..<length p]"

lemma bj_PutBytes_append: "CC_BJDC_PutBytes L (xs @ ys) st = do { st \<leftarrow> CC_BJDC_PutBytes L xs st; CC_BJDC_PutBytes L ys st }"
proof (induction xs arbitrary: st)
  case (Cons x xs)
  then show ?case by (cases "bj_put_byte L st x") simp_all
qed simp

lemma le32_at_take: "i + 4 \<le> n \<Longrightarrow> n \<le> length p \<Longrightarrow> le32_at (take n p @ r) i = le32_at p i"
  by (simp add: le32_at_def nth_append)

lemma le16_at_take: "i + 2 \<le> n \<Longrightarrow> n \<le> length p \<Longrightarrow> le16_at (take n p @ r) i = le16_at p i"
  by (simp add: le16_at_def nth_append)

lemma le32_at_bytes: "length xs = i \<Longrightarrow> le32_at (xs @ bytes_le32 w @ ys) i = w"
  by (simp add: le32_at_def bytes_le32_def nth_append bytes_simps)

lemma le16_at_bytes: "length xs = i \<Longrightarrow> le16_at (xs @ bytes_le16 w @ ys) i = w"
  by (simp add: le16_at_def bytes_le16_def nth_append bytes_simps)

lemma put_next:
  assumes "j < length p" "length p \<le> length b"
  shows "blit_chk (take j p @ drop j b) j [p ! j] = Some (take (Suc j) p @ drop (Suc j) b)"
proof -
  have "blit (take j p @ drop j b) j [p ! j] = take (Suc j) p @ drop (Suc j) b"
    using assms by (simp add: blit_def take_Suc_conv_app_nth)
  then show ?thesis using assms by (simp add: blit_chk_def)
qed

lemma bj_in_step:
  assumes "Suc j < length p" "length p < CC_BJDC_BUF_SIZE" "length (bj_buf st) = CC_BJDC_BUF_SIZE"
    "le32_at p 0 = CC_BJDC_PRE" "bj_clear p"
  shows "bj_put_byte L (bj_in p j st) (p ! j) = Some (bj_in p (Suc j) st)"
proof -
  have n: "blit_chk (take j p @ drop j (bj_buf st)) j [p ! j] = Some (take (Suc j) p @ drop (Suc j) (bj_buf st))"
    using assms(1-3) by (intro put_next) auto
  have pre: "le32_at (take (Suc j) p @ drop (Suc j) (bj_buf st)) 0 = CC_BJDC_PRE" if "Suc j = 4"
    using le32_at_take [of 0 "Suc j" p "drop (Suc j) (bj_buf st)"] assms(1,4) that by simp
  have eom: "le32_at (take (Suc j) p @ drop (Suc j) (bj_buf st)) (Suc j - 4) \<noteq> CC_BJDC_EOM" if "18 \<le> Suc j"
  proof -
    have "Suc j \<in> set [18..<length p]" using that assms(1) by simp
    then have "le32_at p (Suc j - 4) \<noteq> CC_BJDC_EOM" using assms(5) unfolding bj_clear_def list_all_iff by blast
    then show ?thesis using le32_at_take [of "Suc j - 4" "Suc j" p] that assms(1) by simp
  qed
  have w: "\<not> CC_BJDC_BUF_SIZE \<le> Suc j" using assms(1,2) by simp
  show ?thesis
    using n pre eom w by (cases "j < 4"; cases "Suc j < 4"; cases "18 \<le> Suc j"; simp add: bj_put_byte_def bj_in_def Let_def)
qed

lemma bj_in_feed:
  assumes "length p < CC_BJDC_BUF_SIZE" "length (bj_buf st) = CC_BJDC_BUF_SIZE"
    "le32_at p 0 = CC_BJDC_PRE" "bj_clear p" "j < length p"
  shows "CC_BJDC_PutBytes L (take j p) (bj_in p 0 st) = Some (bj_in p j st)"
  using assms(5)
proof (induction j)
  case (Suc j)
  then have "take (Suc j) p = take j p @ [p ! j]" by (simp add: take_Suc_conv_app_nth)
  then show ?case
    using Suc bj_in_step [OF Suc.prems assms(1-4), of L] by (simp add: bj_PutBytes_append)
qed simp

section \<open>The packet of a text\<close>

lemma RT_ALIGN16_facts: "16 dvd RT_ALIGN16 n" "n \<le> RT_ALIGN16 n" "RT_ALIGN16 n < n + 16"
  by (simp_all add: RT_ALIGN16_def)

definition bj_body :: "byte list \<Rightarrow> byte list" where
  "bj_body xml = bj_encrypt (xml @ replicate (RT_ALIGN16 (length xml) - length xml) 0)"

lemma length_padded: "length (xml @ replicate (RT_ALIGN16 (length xml) - length xml) 0) = RT_ALIGN16 (length xml)"
  using RT_ALIGN16_facts(2) [of "length xml"] by simp

lemma body_facts: "length (bj_body xml) = RT_ALIGN16 (length xml)"
    "bj_decrypt (bj_body xml) = xml @ replicate (RT_ALIGN16 (length xml) - length xml) 0"
proof -
  let ?x = "xml @ replicate (RT_ALIGN16 (length xml) - length xml) 0"
  have "16 dvd length ?x" unfolding length_padded by (rule RT_ALIGN16_facts(1))
  from bj_aes(2) [OF this] show "length (bj_body xml) = RT_ALIGN16 (length xml)" "bj_decrypt (bj_body xml) = ?x"
    unfolding bj_body_def length_padded by simp_all
qed

lemma bj_packet_eq:
  "bj_packet xml = bytes_le32 CC_BJDC_PRE @ bytes_le32 (word_of_nat (4 + RT_ALIGN16 (length xml)))
     @ (bytes_le32 0 @ bj_body xml) @ bytes_le16 (CC_GetCrc16 (bytes_le32 0 @ bj_body xml)) @ bytes_le32 CC_BJDC_EOM"
  by (simp only: bj_packet_def bj_body_def Let_def append_assoc)

lemma length_bj_packet: "length (bj_packet xml) = RT_ALIGN16 (length xml) + 18"
  by (simp add: bj_packet_eq body_facts)

text \<open>The fields of the packet, where the receiver reads them.\<close>

lemma packet_fields:
  assumes "n = RT_ALIGN16 (length xml)" "p = bj_packet xml"
  shows "le32_at p 0 = CC_BJDC_PRE" "le32_at p 4 = word_of_nat (4 + n)" "slice p 8 (4 + n) = bytes_le32 0 @ bj_body xml"
    "le16_at p (12 + n) = CC_GetCrc16 (bytes_le32 0 @ bj_body xml)" "le32_at p (14 + n) = CC_BJDC_EOM"
    "slice p 12 n = bj_body xml"
proof -
  let ?h = "bytes_le32 CC_BJDC_PRE" and ?l = "bytes_le32 (word_of_nat (4 + n))" and ?b = "bytes_le32 0 @ bj_body xml"
  let ?c = "bytes_le16 (CC_GetCrc16 ?b)" and ?e = "bytes_le32 CC_BJDC_EOM"
  have p: "p = ?h @ ?l @ ?b @ ?c @ ?e" using assms by (simp only: bj_packet_eq)
  have b: "length (bj_body xml) = n" using body_facts(1) assms(1) by simp
  show "le32_at p 0 = CC_BJDC_PRE" using le32_at_bytes [of "[]" 0] by (simp add: p)
  show "le32_at p 4 = word_of_nat (4 + n)" unfolding p by (rule le32_at_bytes) simp
  have "le16_at ((?h @ ?l @ ?b) @ ?c @ ?e) (12 + n) = CC_GetCrc16 ?b" by (rule le16_at_bytes) (simp add: b)
  then show "le16_at p (12 + n) = CC_GetCrc16 ?b" unfolding p by (simp only: append_assoc)
  have "le32_at ((?h @ ?l @ ?b @ ?c) @ ?e @ []) (14 + n) = CC_BJDC_EOM" by (rule le32_at_bytes) (simp add: b)
  then show "le32_at p (14 + n) = CC_BJDC_EOM" unfolding p by (simp only: append_assoc append_Nil2)
  show "slice p 8 (4 + n) = ?b" by (simp add: p slice_def b)
  show "slice p 12 n = bj_body xml" by (simp add: p slice_def b)
qed


lemma cstr_zeros: "0 \<notin> set s \<Longrightarrow> cstr (s @ replicate k 0 @ 0 # r) = Some s"
  using cstr_append0 [of s] by (cases k) (simp_all add: cstr_append0)

lemma last_packet_byte:
  assumes "0 \<notin> set xml" "length xml \<le> 2016" "length (bj_buf st) = CC_BJDC_BUF_SIZE"
    "p = bj_packet xml"
  shows "\<exists>b. length b = CC_BJDC_BUF_SIZE \<and> bj_packet_end L (length p) (st\<lparr>bj_buf := p @ drop (length p) (bj_buf st)\<rparr>)
    = CC_BJDC_ParsePack L xml (st\<lparr>bj_buf := b\<rparr>)"
proof -
  define n where "n = RT_ALIGN16 (length xml)"
  let ?r = "drop (length p) (bj_buf st)" and ?x = "xml @ replicate (n - length xml) 0"
  note f = packet_fields [OF n_def assms(4)]
  have n: "length p = n + 18" using length_bj_packet assms(4) n_def by simp
  have n2: "n \<le> 2016" "length xml \<le> n"
    using RT_ALIGN16_facts(1,2) [of "length xml"] assms(2) unfolding n_def by (simp_all add: RT_ALIGN16_def)
  have r: "length ?r = 2030 - n" using assms(3) n n2 by (simp add: CC_BJDC_BUF_SIZE_def)
  have at: "le32_at (p @ ?r) i = le32_at p i" "le16_at (p @ ?r) i = le16_at p i" if "i + 4 \<le> length p" for i
    using le32_at_take [of i "length p" p ?r] le16_at_take [of i "length p" p ?r] that by simp_all
  have sl: "slice (p @ ?r) i k = slice p i k" if "i + k \<le> length p" for i k using that by (simp add: slice_def)
  have len: "le32_at (p @ ?r) 4 = word_of_nat (4 + n)" "slice (p @ ?r) 8 (4 + n) = bytes_le32 0 @ bj_body xml"
    "le16_at (p @ ?r) (12 + n) = CC_GetCrc16 (bytes_le32 0 @ bj_body xml)" "slice (p @ ?r) 12 n = bj_body xml"
    using f at sl n by simp_all
  have u: "unat (word_of_nat (4 + n) :: u32) = 4 + n" using n2 by (subst unsigned_of_nat) (simp add: take_bit_nat_eq_self)
  have w: "(word_of_nat (4 + n) :: u32) + 14 = word_of_nat (length p)" by (simp add: n)
  have dec: "bj_decrypt (bj_body xml) = ?x" using body_facts(2) [of xml] n_def by simp
  have lx: "length ?x = n" using n2 by simp
  define b where "b = blit (blit (p @ ?r) 12 ?x) (12 + n) [0]"
  have b1: "blit_chk (p @ ?r) 12 ?x = Some (blit (p @ ?r) 12 ?x)" using lx n n2 by (simp add: blit_chk_def)
  have l1: "length (blit (p @ ?r) 12 ?x) = 2048" using lx n n2 r by simp
  have b2: "blit_chk (blit (p @ ?r) 12 ?x) (12 + n) [0] = Some b" using l1 n2 by (simp add: blit_chk_def b_def)
  have "drop 12 b = ?x @ [0] @ drop (13 + n) (p @ ?r)" using lx n n2 by (simp add: b_def blit_def)
  then have c: "cstr (drop 12 b) = Some xml" using cstr_zeros [OF assms(1)] by simp
  have lb: "length b = 2048" using l1 n2 by (simp add: b_def)
  have "bj_packet_end L (length p) (st\<lparr>bj_buf := p @ ?r\<rparr>) = CC_BJDC_ParsePack L xml (st\<lparr>bj_buf := b\<rparr>)"
    using w u len dec b1 b2 c by (simp add: bj_packet_end_def Let_def n add.commute)
  with lb show ?thesis by (auto simp: CC_BJDC_BUF_SIZE_def)
qed

text \<open>What a link does with a text: the message of its document is queued.\<close>

definition bj_deliver :: "bj_lib \<Rightarrow> byte list \<Rightarrow> CC_BJDC_Data option option" where
  "bj_deliver L xml = (case mxmlLoadString L xml of None \<Rightarrow> Some None | Some d \<Rightarrow> bj_message L d)"

lemma ParsePack_deliver: "CC_BJDC_ParsePack L xml st = do { m \<leftarrow> bj_deliver L xml;
    Some (case m of None \<Rightarrow> st | Some x \<Rightarrow> bj_mq_send x st) }"
  by (simp add: CC_BJDC_ParsePack_def bj_deliver_def split: option.splits)

lemma packet_received:
  assumes "bj_idle st" "0 \<notin> set xml" "length xml \<le> 2016" "bj_clear (bj_packet xml)"
  shows "\<exists>b. length b = CC_BJDC_BUF_SIZE \<and> CC_BJDC_PutBytes L (bj_packet xml) st = do { m \<leftarrow> bj_deliver L xml;
    Some ((case m of None \<Rightarrow> st | Some x \<Rightarrow> bj_mq_send x st)\<lparr>bj_buf := b\<rparr>) }"
proof -
  let ?p = "bj_packet xml"
  define k where "k = length ?p - 1"
  have "RT_ALIGN16 (length xml) \<le> 2016" using assms(3) by (simp add: RT_ALIGN16_def)
  then have n: "length ?p = Suc k" "18 \<le> Suc k" "Suc k < CC_BJDC_BUF_SIZE"
    using length_bj_packet [of xml] by (simp_all add: k_def CC_BJDC_BUF_SIZE_def)
  have b: "length (bj_buf st) = CC_BJDC_BUF_SIZE" using assms(1) by (simp add: bj_idle_def)
  note f = packet_fields [OF refl refl, of xml]
  have 0: "bj_in ?p 0 st = st" using assms(1) by (simp add: bj_in_def bj_idle_def)
  have "CC_BJDC_PutBytes L (take k ?p) st = Some (bj_in ?p k st)"
    using bj_in_feed [OF _ b f(1) assms(4), of k L] n 0 by simp
  then have feed: "CC_BJDC_PutBytes L ?p st = bj_put_byte L (bj_in ?p k st) (?p ! k)"
  proof -
    have "CC_BJDC_PutBytes L [] = Some" by (rule ext) simp
    then show ?thesis
      using \<open>CC_BJDC_PutBytes L (take k ?p) st = Some (bj_in ?p k st)\<close>
        bj_PutBytes_append [of L "take k ?p" "[?p ! k]" st] n(1) take_Suc_conv_app_nth [of k ?p] by simp
  qed
  have e: "le32_at (?p @ drop (Suc k) (bj_buf st)) (Suc k - 4) = CC_BJDC_EOM"
  proof -
    have "14 + RT_ALIGN16 (length xml) = Suc k - 4" using n(1) length_bj_packet [of xml] by simp
    then show ?thesis using f(5) le32_at_take [of "Suc k - 4" "Suc k" ?p] n by simp
  qed
  have put: "blit_chk (take k ?p @ drop k (bj_buf st)) k [?p ! k] = Some (?p @ drop (Suc k) (bj_buf st))"
    using put_next [of k ?p "bj_buf st"] n b by simp
  let ?s = "bj_in ?p k st\<lparr>bj_pos := Suc k\<rparr>"
  obtain b' where b': "length b' = CC_BJDC_BUF_SIZE"
    "bj_packet_end L (Suc k) (?s\<lparr>bj_buf := ?p @ drop (Suc k) (bj_buf ?s)\<rparr>) = CC_BJDC_ParsePack L xml (?s\<lparr>bj_buf := b'\<rparr>)"
    using last_packet_byte [OF assms(2,3) _ refl, of ?s] n b by (auto simp: bj_in_def)
  have d: "drop (Suc k) (bj_buf ?s) = drop (Suc k) (bj_buf st)" using n(1) by (simp add: bj_in_def)
  have sw: "x\<lparr>bj_buf := a, bj_pos := c\<rparr> = x\<lparr>bj_pos := c, bj_buf := a\<rparr>" for x :: bj_link and a c by (cases x) simp
  have "bj_put_byte L (bj_in ?p k st) (?p ! k)
      = do { st \<leftarrow> CC_BJDC_ParsePack L xml (?s\<lparr>bj_buf := b'\<rparr>); Some (st\<lparr>bj_rcv := CC_BJDC_R_S_HEAD, bj_pos := 0\<rparr>) }"
    using b'(2) n(2,3) e put unfolding d by (simp add: bj_put_byte_def bj_in_def Let_def sw)
  also have "\<dots> = do { m \<leftarrow> bj_deliver L xml; Some ((case m of None \<Rightarrow> st | Some x \<Rightarrow> bj_mq_send x st)\<lparr>bj_buf := b'\<rparr>) }"
    using assms(1) by (cases "bj_deliver L xml")
      (auto simp: ParsePack_deliver bj_in_def bj_idle_def bj_mq_send_def split: option.splits)
  finally show ?thesis using feed b'(1) by auto
qed

section \<open>Noise\<close>

text \<open>
  Once the first two bytes are not those of a packet, the receiver keeps them and only ever
  replaces the third and the fourth.
\<close>

definition bj_blind :: "byte \<Rightarrow> byte \<Rightarrow> bj_link \<Rightarrow> bool" where
  "bj_blind b0 b1 st = (length (bj_buf st) = CC_BJDC_BUF_SIZE \<and> bj_rcv st = CC_BJDC_R_S_HEAD
     \<and> (bj_pos st = 2 \<or> bj_pos st = 3) \<and> bj_buf st ! 0 = b0 \<and> bj_buf st ! 1 = b1)"

lemma PRE_bytes: "le32 b0 b1 b2 b3 = CC_BJDC_PRE \<Longrightarrow> b0 = 0xAA \<and> b1 = 0x55"
proof -
  assume "le32 b0 b1 b2 b3 = CC_BJDC_PRE"
  then have "bytes_le32 CC_BJDC_PRE = [b0, b1, b2, b3]" using bytes_le32_le32 [of b0 b1 b2 b3] by simp
  then show ?thesis by (simp add: bytes_le32_def CC_BJDC_PRE_def)
qed

lemma blind_step:
  assumes "bj_blind b0 b1 st" "(b0, b1) \<noteq> (0xAA, 0x55)"
  shows "\<exists>st'. bj_put_byte L st b = Some st' \<and> bj_blind b0 b1 st' \<and> bj_mq st' = bj_mq st"
proof -
  let ?b = "blit (bj_buf st) (bj_pos st) [b]"
  have k: "?b ! 0 = b0" "?b ! 1 = b1" "length ?b = CC_BJDC_BUF_SIZE"
    using assms(1) by (auto simp: bj_blind_def blit_nth_before CC_BJDC_BUF_SIZE_def)
  have "le32_at ?b 0 \<noteq> CC_BJDC_PRE" using PRE_bytes assms(2) k(1,2) by (auto simp: le32_at_def)
  then show ?thesis
    using assms(1) k by (auto simp: bj_blind_def bj_put_byte_def blit_chk_def Let_def CC_BJDC_BUF_SIZE_def)
qed

lemma blind_forever:
  assumes "bj_blind b0 b1 st" "(b0, b1) \<noteq> (0xAA, 0x55)"
  shows "\<exists>st'. CC_BJDC_PutBytes L bs st = Some st' \<and> bj_blind b0 b1 st' \<and> bj_mq st' = bj_mq st"
  using assms(1)
proof (induction bs arbitrary: st)
  case (Cons b bs)
  obtain s1 where s1: "bj_put_byte L st b = Some s1" "bj_blind b0 b1 s1" "bj_mq s1 = bj_mq st"
    using blind_step [OF Cons.prems assms(2)] by blast
  with Cons.IH [OF s1(2)] show ?case by simp
qed simp

section \<open>The link\<close>

definition bj_take :: "CC_BJDC_Data option \<Rightarrow> bj_link \<Rightarrow> bj_link" where
  "bj_take m st = (case m of None \<Rightarrow> st | Some x \<Rightarrow> bj_mq_send x st)"

lemma bj_take_simps [simp]: "bj_pos (bj_take m st) = bj_pos st" "bj_buf (bj_take m st) = bj_buf st"
  "bj_rcv (bj_take m st) = bj_rcv st" "bj_idle (bj_take m st) = bj_idle st"
  by (simp_all add: bj_take_def bj_mq_send_def bj_idle_def split: option.split)

text \<open>A text that fits the receiver and does not come out with the end mark inside its packet.\<close>

definition bj_fits :: "byte list \<Rightarrow> bool" where
  "bj_fits xml = (0 \<notin> set xml \<and> length xml \<le> 2016 \<and> bj_clear (bj_packet xml))"

lemma packet_taken:
  assumes "bj_idle st" "bj_fits xml" "bj_deliver L xml = Some m"
  shows "\<exists>b. CC_BJDC_PutBytes L (bj_packet xml) st = Some (bj_take m st\<lparr>bj_buf := b\<rparr>) \<and> bj_idle (bj_take m st\<lparr>bj_buf := b\<rparr>)"
  using packet_received [OF assms(1), of xml L] assms(1-3)
  by (auto simp: bj_fits_def bj_take_def bj_mq_send_def bj_idle_def split: option.split)

text \<open>
  C6. Whatever texts are packed and sent one behind the other, an idle link takes the message of
  every one of them, in order, until its queue of three is full, and is idle again: provided each
  text has at most 2016 characters and no mark of the end comes up inside its packet.
\<close>

theorem bjdc_packets_delivered:
  assumes "bj_idle st" "\<forall>x \<in> set xmls. bj_fits x" "list_all2 (\<lambda>x m. bj_deliver L x = Some m) xmls ms"
    "length (bj_mq st) \<le> 3"
  shows "\<exists>st'. CC_BJDC_PutBytes L (concat (map (bj_packet) xmls)) st = Some st' \<and> bj_idle st'
    \<and> bj_mq st' = take 3 (bj_mq st @ List.map_filter id ms)"
  using assms(3,1,2,4)
proof (induction xmls ms arbitrary: st rule: list_all2_induct)
  case Nil
  then show ?case by (simp add: List.map_filter_simps)
next
  case (Cons x xs m ms)
  obtain b where b: "CC_BJDC_PutBytes L (bj_packet x) st = Some (bj_take m st\<lparr>bj_buf := b\<rparr>)"
    "bj_idle (bj_take m st\<lparr>bj_buf := b\<rparr>)"
    using packet_taken [OF Cons.prems(1) _ Cons.hyps(1)] Cons.prems(2) by auto
  let ?s = "bj_take m st\<lparr>bj_buf := b\<rparr>"
  have q: "bj_mq ?s = (case m of None \<Rightarrow> bj_mq st | Some y \<Rightarrow> if length (bj_mq st) < 3 then bj_mq st @ [y] else bj_mq st)"
    by (simp add: bj_take_def bj_mq_send_def split: option.split)
  have t: "take 3 (bj_mq ?s @ List.map_filter id ms) = take 3 (bj_mq st @ List.map_filter id (m # ms))"
    unfolding q using Cons.prems(3) by (cases m) (auto simp: List.map_filter_simps take_Cons' [of "3 - _"])
  have l: "length (bj_mq ?s) \<le> 3" unfolding q using Cons.prems(3) by (simp split: option.split)
  have "\<exists>st'. CC_BJDC_PutBytes L (concat (map (bj_packet) xs)) ?s = Some st' \<and> bj_idle st'
      \<and> bj_mq st' = take 3 (bj_mq ?s @ List.map_filter id ms)"
    by (rule Cons.IH [OF b(2) _ l]) (use Cons.prems(2) in simp)
  then show ?case unfolding t list.map concat.simps bj_PutBytes_append b(1) bind.bind_lunit .
qed


section \<open>Bounds\<close>

definition bj_ok :: "bj_link \<Rightarrow> bool" where
  "bj_ok st = (length (bj_buf st) = CC_BJDC_BUF_SIZE \<and> bj_pos st < CC_BJDC_BUF_SIZE \<and> length (bj_mq st) \<le> 3)"

text \<open>
  The documents on which the parser reads a pointer that is none: the word of \<open>type\<close>, or the word
  that its message needs, is not text but an element; or a restart has no operation.
\<close>

definition bj_no_word :: "xdoc \<Rightarrow> nat option \<Rightarrow> bool" where
  "bj_no_word d node = (case xml_get d node of None \<Rightarrow> False | Some c \<Rightarrow> xml_word d c = None)"

definition bj_faulty :: "xdoc \<Rightarrow> bool" where
  "bj_faulty d =
     (let root = x_find d (Some 0) (Some 0) ''root'';
          type = x_find d (x_find d root root ''common'') root ''type'';
          word = Option.bind (xml_get d type) (xml_word d)
      in bj_no_word d type
       \<or> word = Some (lit ''sequence'') \<and> bj_no_word d (x_find d (x_find d root (Some 0) ''id_validate'') root ''sequence'')
       \<or> word = Some (lit ''result'') \<and> bj_no_word d (x_find d (x_find d root (Some 0) ''id_validate'') root ''result'')
       \<or> word = Some (lit ''time'') \<and> bj_no_word d (x_find d (x_find d root (Some 0) ''heart_beat'') root ''time'')
       \<or> word = Some (lit ''restart'')
           \<and> mxmlElementGetAttr d (x_find d root (Some 0) ''Instruction'') (lit ''operation'') = None)"

lemma xml_str_word: "xml_str d node str = (if bj_no_word d node then None
    else Some (Option.bind (xml_get d node) (xml_word d) = Some (lit str)))"
  by (auto simp: xml_str_def bj_no_word_def xml_get_def split: option.split)

lemma part_fails:
  "bj_sequence d r = None \<longleftrightarrow> bj_no_word d (x_find d (x_find d r (Some 0) ''id_validate'') r ''sequence'')"
  "bj_result d r = None \<longleftrightarrow> bj_no_word d (x_find d (x_find d r (Some 0) ''id_validate'') r ''result'')"
  "bj_time d r = None \<longleftrightarrow> bj_no_word d (x_find d (x_find d r (Some 0) ''heart_beat'') r ''time'')"
  "bj_restart d r = None \<longleftrightarrow> mxmlElementGetAttr d (x_find d r (Some 0) ''Instruction'') (lit ''operation'') = None"
  "bj_period L d r \<noteq> None"
  by (simp_all add: bj_sequence_def bj_result_def bj_time_def bj_restart_def bj_period_def bj_no_word_def Let_def
      bind_eq_None_conv split: option.split)

lemma message_fails: "bj_message L d = None \<longleftrightarrow> bj_faulty d"
proof -
  let ?root = "x_find d (Some 0) (Some 0) ''root''"
  let ?type = "x_find d (x_find d ?root ?root ''common'') ?root ''type''"
  show ?thesis
  proof (cases "bj_no_word d ?type")
    case True
    then show ?thesis by (simp add: bj_message_def bj_faulty_def xml_str_word Let_def)
  next
    case False
    define w where "w = Option.bind (xml_get d ?type) (xml_word d)"
    have s: "xml_str d ?type str = Some (w = Some (lit str))" for str using False by (simp add: xml_str_word w_def)
    have m: "bj_message L d = (if w = Some (lit ''sequence'') then bj_sequence d ?root
        else if w = Some (lit ''result'') then bj_result d ?root
        else if w = Some (lit ''device_ack'') then Some (Some BJ_DEVINFO)
        else if w = Some (lit ''time'') then bj_time d ?root
        else if w = Some (lit ''period'') then bj_period L d ?root
        else if w = Some (lit ''restart'') then bj_restart d ?root
        else if w = Some (lit ''query'') then Some (Some BJ_DATA_QUERY)
        else Some (if w = Some (lit ''continuous'') then Some BJ_DATA_CONTINUE else None))"
      unfolding bj_message_def Let_def s by (simp only: bind.bind_lunit)
    have f: "bj_faulty d \<longleftrightarrow> w = Some (lit ''sequence'') \<and> bj_sequence d ?root = None
        \<or> w = Some (lit ''result'') \<and> bj_result d ?root = None \<or> w = Some (lit ''time'') \<and> bj_time d ?root = None
        \<or> w = Some (lit ''restart'') \<and> bj_restart d ?root = None"
      using False by (simp only: bj_faulty_def Let_def part_fails w_def simp_thms)
    have n: "lit ''result'' \<noteq> lit ''sequence''" "lit ''time'' \<noteq> lit ''sequence''" "lit ''time'' \<noteq> lit ''result''"
      "lit ''time'' \<noteq> lit ''device_ack''" "lit ''restart'' \<noteq> lit ''sequence''" "lit ''restart'' \<noteq> lit ''result''"
      "lit ''restart'' \<noteq> lit ''device_ack''" "lit ''restart'' \<noteq> lit ''time''" "lit ''restart'' \<noteq> lit ''period''"
      by simp_all
    show ?thesis unfolding m f using part_fails(5) [of L d ?root] n by (auto simp del: lit_Cons)
  qed
qed

text \<open>The text of the packet that ends at \<open>nPos\<close>; \<open>None\<close> when its length or checksum is wrong.\<close>

definition bj_text :: "byte list \<Rightarrow> nat \<Rightarrow> byte list option" where
  "bj_text buf nPos = (if le32_at buf 4 + 14 = word_of_nat nPos \<and> CC_GetCrc16 (slice buf 8 (nPos - 14)) = le16_at buf (nPos - 6)
     then cstr (bj_decrypt (slice buf 12 (nPos - 18)) @ [0]) else None)"

lemma cstr_zero_ends: "cstr (x @ 0 # r) = cstr (x @ [0])"
proof (induction x)
  case (Cons c x)
  then show ?case by (auto simp: cstr_def)
qed (simp add: cstr_def)

lemma closed_text: "length x = k \<Longrightarrow> 12 + k < length buf \<Longrightarrow> drop 12 (blit (blit buf 12 x) (12 + k) [0]) = x @ 0 # drop (13 + k) buf"
  by (simp add: blit_def)

lemma packet_end_text:
  assumes "length (bj_buf st) = CC_BJDC_BUF_SIZE" "18 \<le> nPos" "nPos < CC_BJDC_BUF_SIZE"
  shows "\<exists>b. length b = CC_BJDC_BUF_SIZE \<and> bj_packet_end L nPos st = (case bj_text (bj_buf st) nPos of
    None \<Rightarrow> Some st | Some t \<Rightarrow> CC_BJDC_ParsePack L t (st\<lparr>bj_buf := b\<rparr>))"
proof (cases "le32_at (bj_buf st) 4 + 14 = word_of_nat nPos")
  case False
  with assms(1) show ?thesis by (intro exI [of _ "bj_buf st"]) (simp add: bj_packet_end_def bj_text_def Let_def)
next
  case True
  let ?u = "le32_at (bj_buf st) 4"
  have "?u + 14 = word_of_nat (nPos - 14) + 14" using True assms(2) by (simp add: of_nat_diff)
  then have u: "unat ?u = nPos - 14"
    using assms(3) by (simp add: CC_BJDC_BUF_SIZE_def unsigned_of_nat take_bit_nat_eq_self)
  let ?t = "bj_decrypt (slice (bj_buf st) 12 (nPos - 18))"
  have k: "unat ?u - 4 = nPos - 18" using u by simp
  have t: "length ?t = nPos - 18" using assms by (simp add: bj_aes slice_def)
  define b where "b = blit (blit (bj_buf st) 12 ?t) (12 + (nPos - 18)) [0]"
  have b1: "blit_chk (bj_buf st) 12 ?t = Some (blit (bj_buf st) 12 ?t)"
    "blit_chk (blit (bj_buf st) 12 ?t) (12 + (nPos - 18)) [0] = Some b" "length b = CC_BJDC_BUF_SIZE"
    using assms t by (simp_all add: blit_chk_def b_def)
  have "12 + (nPos - 18) < length (bj_buf st)" using assms by simp
  then have "drop 12 b = ?t @ 0 # drop (13 + (nPos - 18)) (bj_buf st)" unfolding b_def by (rule closed_text [OF t])
  then have c: "cstr (drop 12 b) = cstr (?t @ [0])" using cstr_zero_ends by metis
  have z: "cstr (?t @ [0]) \<noteq> None" by (simp add: cstr_def)
  show ?thesis
    using True b1 c z by (intro exI [of _ b]) (auto simp: bj_packet_end_def bj_text_def Let_def u k)
qed

lemma bj_take_mq: "length (bj_mq st) \<le> 3 \<Longrightarrow> length (bj_mq (bj_take m st)) \<le> 3"
  by (simp add: bj_take_def bj_mq_send_def split: option.split)

text \<open>One byte: it is taken, or it completes the packet of a text whose document is faulty.\<close>

definition bj_stopped :: "bj_lib \<Rightarrow> bj_link \<Rightarrow> byte \<Rightarrow> bool" where
  "bj_stopped L st b = (bj_rcv st = CC_BJDC_R_S_EOM \<and> (\<exists>t d. bj_text (blit (bj_buf st) (bj_pos st) [b]) (Suc (bj_pos st)) = Some t
     \<and> mxmlLoadString L t = Some d \<and> bj_faulty d))"

lemma put_byte_bounds:
  assumes "bj_ok st"
  shows "case bj_put_byte L st b of Some st' \<Rightarrow> bj_ok st' | None \<Rightarrow> bj_stopped L st b"
proof -
  define n where "n = (if CC_BJDC_BUF_SIZE \<le> bj_pos st + 1 then 0 else bj_pos st + 1)"
  define s where "s = st\<lparr>bj_buf := blit (bj_buf st) (bj_pos st) [b], bj_pos := n\<rparr>"
  have s: "length (bj_buf s) = CC_BJDC_BUF_SIZE" "bj_ok s" "n < CC_BJDC_BUF_SIZE" "bj_ok (s\<lparr>bj_rcv := r\<rparr>)" "bj_ok (s\<lparr>bj_pos := 2\<rparr>)" for r
    using assms by (simp_all add: s_def bj_ok_def n_def CC_BJDC_BUF_SIZE_def)
  have e: "bj_put_byte L st b = (case bj_rcv s of
       CC_BJDC_R_S_HEAD \<Rightarrow> Some (if n = 4
         then (if le32_at (bj_buf s) 0 = CC_BJDC_PRE then s\<lparr>bj_rcv := CC_BJDC_R_S_EOM\<rparr> else s\<lparr>bj_pos := 2\<rparr>) else s)
     | CC_BJDC_R_S_EOM \<Rightarrow>
         if 8 \<le> n \<and> le32_at (bj_buf s) (n - 4) = CC_BJDC_EOM \<and> 18 \<le> n
         then do { s \<leftarrow> bj_packet_end L n s; Some (s\<lparr>bj_rcv := CC_BJDC_R_S_HEAD, bj_pos := 0\<rparr>) }
         else Some s)"
  proof -
    have "blit_chk (bj_buf st) (bj_pos st) [b] = Some (blit (bj_buf st) (bj_pos st) [b])"
      using assms by (simp add: blit_chk_def bj_ok_def)
    then show ?thesis
      unfolding bj_put_byte_def n_def [symmetric] s_def
      by (cases "bj_rcv st") (simp_all add: Let_def del: split_paired_All cong: if_cong split del: if_split)
  qed
  show ?thesis
  proof (cases "bj_rcv s = CC_BJDC_R_S_EOM \<and> 8 \<le> n \<and> le32_at (bj_buf s) (n - 4) = CC_BJDC_EOM \<and> 18 \<le> n")
    case False
    with s(2,4,5) show ?thesis unfolding e by (cases "bj_rcv s") auto
  next
    case True
    have n: "n = Suc (bj_pos st)" using True by (auto simp: n_def split: if_splits)
    obtain c where c: "length c = CC_BJDC_BUF_SIZE" "bj_packet_end L n s = (case bj_text (bj_buf s) n of
        None \<Rightarrow> Some s | Some t \<Rightarrow> CC_BJDC_ParsePack L t (s\<lparr>bj_buf := c\<rparr>))"
      using packet_end_text [OF s(1) _ s(3)] True by blast
    show ?thesis
    proof (cases "bj_text (bj_buf s) n")
      case None
      then show ?thesis using True s(2) c(2) unfolding e by (simp add: bj_ok_def CC_BJDC_BUF_SIZE_def)
    next
      case (Some t)
      show ?thesis
      proof (cases "bj_deliver L t")
        case None
        then obtain d where d: "mxmlLoadString L t = Some d" "bj_message L d = None"
          by (auto simp: bj_deliver_def split: option.splits)
        have "bj_packet_end L n s = None" using c(2) Some None by (simp add: ParsePack_deliver)
        with True have "bj_put_byte L st b = None" unfolding e by simp
        moreover have "bj_rcv st = CC_BJDC_R_S_EOM" using True by (simp add: s_def)
        moreover have "bj_text (blit (bj_buf st) (bj_pos st) [b]) (Suc (bj_pos st)) = Some t" using Some n by (simp add: s_def)
        ultimately show ?thesis using d message_fails [of L d] by (auto simp: bj_stopped_def)
      next
        case m: (Some m)
        have "bj_packet_end L n s = Some (bj_take m (s\<lparr>bj_buf := c\<rparr>))"
          using c(2) Some m by (simp add: ParsePack_deliver bj_take_def)
        with True s(2) c(1) show ?thesis
          unfolding e using bj_take_mq [of "s\<lparr>bj_buf := c\<rparr>" m] by (simp add: bj_ok_def CC_BJDC_BUF_SIZE_def)
      qed
    qed
  qed
qed

text \<open>
  C10. Whatever bytes come in and whatever the library makes of a text, the receiver never leaves
  its buffer, and buffer, write position and queue keep their bounds. It goes wrong only at the
  byte that completes a packet, with the right length and checksum, of a text whose document has
  an element where the parser expects a word, or a restart without an operation; up to that byte
  the bounds hold as well.
\<close>

theorem bjdc_receive_in_bounds:
  assumes "bj_ok st"
  shows "(\<exists>st'. CC_BJDC_PutBytes L bs st = Some st' \<and> bj_ok st')
    \<or> (\<exists>xs b ys st1 t d. bs = xs @ b # ys \<and> CC_BJDC_PutBytes L xs st = Some st1 \<and> bj_ok st1 \<and> bj_rcv st1 = CC_BJDC_R_S_EOM
      \<and> bj_text (blit (bj_buf st1) (bj_pos st1) [b]) (Suc (bj_pos st1)) = Some t
      \<and> mxmlLoadString L t = Some d \<and> bj_faulty d)"
  using assms
proof (induction bs arbitrary: st)
  case (Cons b bs)
  show ?case
  proof (cases "bj_put_byte L st b")
    case None
    then have "bj_stopped L st b" using put_byte_bounds [OF Cons.prems, of L b] by simp
    then obtain t d where "bj_rcv st = CC_BJDC_R_S_EOM"
      "bj_text (blit (bj_buf st) (bj_pos st) [b]) (Suc (bj_pos st)) = Some t" "mxmlLoadString L t = Some d" "bj_faulty d"
      unfolding bj_stopped_def by blast
    then show ?thesis
      using Cons.prems by (intro disjI2 exI [of _ "[]"] exI [of _ b] exI [of _ bs] exI [of _ st] exI [of _ t] exI [of _ d]) simp
  next
    case (Some s1)
    then have "bj_ok s1" using put_byte_bounds [OF Cons.prems, of L b] by simp
    from Cons.IH [OF this] show ?thesis
    proof (elim disjE exE conjE)
      fix st' assume "CC_BJDC_PutBytes L bs s1 = Some st'" "bj_ok st'"
      then show ?thesis using Some by simp
    next
      fix xs c ys st1 t d
      assume "bs = xs @ c # ys" "CC_BJDC_PutBytes L xs s1 = Some st1" "bj_ok st1" "bj_rcv st1 = CC_BJDC_R_S_EOM"
        "bj_text (blit (bj_buf st1) (bj_pos st1) [c]) (Suc (bj_pos st1)) = Some t" "mxmlLoadString L t = Some d" "bj_faulty d"
      then show ?thesis
        using Some by (intro disjI2 exI [of _ "b # xs"] exI [of _ c] exI [of _ ys] exI [of _ st1] exI [of _ t] exI [of _ d]) simp
    qed
  qed
qed simp


section \<open>Messages\<close>

lemma message_of_part:
  "bj_sequence d r = Some (Some x) \<Longrightarrow> \<exists>s. x = BJ_VERIFY_SEQ s"
  "bj_result d r = Some (Some x) \<Longrightarrow> \<exists>b. x = BJ_VERIFY_RESULT b"
  "bj_time d r = Some (Some x) \<Longrightarrow> \<exists>s. x = BJ_HEARTBEAT s"
  "bj_restart d r = Some (Some x) \<Longrightarrow> x = BJ_RESTART"
  by (auto simp: bj_sequence_def bj_result_def bj_time_def bj_restart_def Let_def
      split: option.splits bind_splits if_splits)

lemma message_period:
  assumes "bj_message L d = Some (Some (BJ_PERIOD_CFG v))"
  shows "bj_period L d (x_find d (Some 0) (Some 0) ''root'') = Some (Some (BJ_PERIOD_CFG v))"
  using assms by (auto simp: bj_message_def Let_def split: bind_splits if_splits dest: message_of_part)

text \<open>A document out of a text, with \<open>MXML_NO_CALLBACK\<close>: no numbers.\<close>

definition x_parsed :: "xdoc \<Rightarrow> bool" where
  "x_parsed d = list_all (\<lambda>(k, it). case it of XInt _ \<Rightarrow> False | XReal _ \<Rightarrow> False | _ \<Rightarrow> True) d"

text \<open>
  C39. The period that the server sets is not received: parsed without a callback, a document has
  no numbers. What a period message says is taken from the first child of the element \<open>period\<close>:
  for a word of text it is the white-space flag of the word, so 0 or 1, whatever the word is;
  for an element or a comment it is the address at which the library keeps its name.
\<close>

theorem bjdc_period_lost:
  assumes "x_parsed d" "bj_message L d = Some (Some (BJ_PERIOD_CFG v))"
  shows "\<exists>p c. x_find d (x_find d (Some 0) (Some 0) ''root'') (Some 0) ''period'' = Some p \<and> x_child d p = Some c
    \<and> ((\<exists>w s. x_item d c = XText w s \<and> v = (if w then 1 else 0)) \<or> (\<exists>n as. x_item d c = XElem n as \<and> v = x_name_addr L d c))"
proof -
  obtain p c where c: "x_find d (x_find d (Some 0) (Some 0) ''root'') (Some 0) ''period'' = Some p" "x_child d p = Some c"
    "v = xml_integer L d c"
    using message_period [OF assms(2)] by (auto simp: bj_period_def xml_get_def Let_def split: option.splits)
  then have "c < length d" by (auto simp: x_child_def split: if_splits)
  then have "case x_item d c of XInt _ \<Rightarrow> False | XReal _ \<Rightarrow> False | _ \<Rightarrow> True"
    using assms(1) nth_mem [of c d] unfolding x_parsed_def list_all_iff x_item_def by (cases "d ! c") fastforce
  then have "(\<exists>w s. x_item d c = XText w s \<and> v = (if w then 1 else 0)) \<or> (\<exists>n as. x_item d c = XElem n as \<and> v = x_name_addr L d c)"
    using c(3) by (cases "x_item d c") (simp_all add: xml_integer_def)
  with c(1,2) show ?thesis by blast
qed

text \<open>
  The receiver does not resynchronise: when the first two bytes at an idle link are not
  those of a packet, no later byte stream ever brings a message, though every byte is taken.
\<close>

theorem bjdc_never_resynchronises:
  assumes "bj_idle st" "(b0, b1) \<noteq> (0xAA, 0x55)"
  shows "\<exists>st'. CC_BJDC_PutBytes L (b0 # b1 # bs) st = Some st' \<and> bj_mq st' = bj_mq st"
proof -
  let ?s = "st\<lparr>bj_buf := b0 # b1 # drop 2 (bj_buf st), bj_pos := 2\<rparr>"
  obtain x y r where r: "bj_buf st = x # y # r" "length r = 2046"
    using assms(1) by (cases "bj_buf st"; cases "tl (bj_buf st)") (auto simp: bj_idle_def CC_BJDC_BUF_SIZE_def)
  have "CC_BJDC_PutBytes L [b0, b1] st = Some ?s"
    using assms(1) r by (simp add: bj_put_byte_def bj_idle_def blit_chk_def blit_def CC_BJDC_BUF_SIZE_def Let_def)
  moreover have "bj_blind b0 b1 ?s" using assms(1) r by (simp add: bj_blind_def bj_idle_def CC_BJDC_BUF_SIZE_def)
  ultimately show ?thesis
    using blind_forever [OF _ assms(2), of ?s L bs] bj_PutBytes_append [of L "[b0, b1]" bs st] by auto
qed

section \<open>Instances\<close>

text \<open>
  A library whose documents are those of two texts: the time of the
  server, and a period of one minute.
\<close>

definition bj_doc :: "string \<Rightarrow> string \<Rightarrow> string \<Rightarrow> string \<Rightarrow> xdoc" where
  "bj_doc ty g f v = [(0, XElem (lit ''?xml'') []), (1, XElem (lit ''root'') []), (2, XElem (lit ''common'') []),
     (3, XElem (lit ''type'') []), (4, XText False (lit ty)), (2, XElem (lit g) []),
     (3, XElem (lit f) []), (4, XText False (lit v))]"

definition bj_lib1 :: bj_lib where
  "bj_lib1 = \<lparr>mxmlLoadString = (\<lambda>t. if t = lit ''t'' then Some (bj_doc ''time'' ''heart_beat'' ''time'' ''1'')
       else if t = lit ''p'' then Some (bj_doc ''period'' ''config'' ''period'' ''60'') else None),
     mxmlSaveString = (\<lambda>d. []), x_name_addr = (\<lambda>d p. 0x20001000)\<rparr>"

definition bj_link0 :: bj_link where
  "bj_link0 = cc_bjdc_open \<lparr>bj_buf = [], bj_pos = 0, bj_rcv = CC_BJDC_R_S_HEAD, bj_mq = [], bj_sent = []\<rparr>"

lemmas find_simps = mxmlFindElement_def x_search.simps mxmlWalkNext_def x_below_def x_depth_def x_item_def x_named_def x_child_def

lemma doc_time: "bj_message bj_lib1 (bj_doc ''time'' ''heart_beat'' ''time'' ''1'') = Some (Some (BJ_HEARTBEAT (strncpy_arr 15 (lit ''1''))))"
  by code_simp

lemma doc_period: "bj_message bj_lib1 (bj_doc ''period'' ''config'' ''period'' ''60'') = Some (Some (BJ_PERIOD_CFG 0))"
  by code_simp

lemma bj_keys_value: "bj_keys = 
    [0x01, 0x02, 0x03, 0x04, 0x05, 0x06, 0x07, 0x08, 0x09, 0x0a, 0x0b, 0x0c, 0x0d, 0x0e, 0x0f, 0x10, 0xab,
     0x74, 0xc9, 0xd3, 0xae, 0x72, 0xce, 0xdb, 0xa7, 0x78, 0xc5, 0xd7, 0xaa, 0x76, 0xca, 0xc7, 0x91, 0x00,
     0x0f, 0x7f, 0x3f, 0x72, 0xc1, 0xa4, 0x98, 0x0a, 0x04, 0x73, 0x32, 0x7c, 0xce, 0xb4, 0x85, 0x8b, 0x82,
     0x5c, 0xba, 0xf9, 0x43, 0xf8, 0x22, 0xf3, 0x47, 0x8b, 0x10, 0x8f, 0x89, 0x3f, 0xfe, 0x2c, 0xf7, 0x96,
     0x44, 0xd5, 0xb4, 0x6e, 0x66, 0x26, 0xf3, 0xe5, 0x76, 0xa9, 0x7a, 0xda, 0x3d, 0xf6, 0xa0, 0xae, 0x79,
     0x23, 0x14, 0xc0, 0x1f, 0x05, 0xe7, 0x25, 0x69, 0xac, 0x9d, 0xff, 0x8c, 0xa8, 0xb6, 0x57, 0xf5, 0x8b,
     0xa2, 0x97, 0xea, 0x8e, 0x45, 0xb2, 0x83, 0x22, 0xd8, 0x4d, 0x5f, 0xc9, 0x55, 0xbb, 0xaa, 0x42, 0xf7,
     0x2c, 0x40, 0xcc, 0xb2, 0x9e, 0xc3, 0xee, 0x6a, 0xd3, 0xf7, 0xcb, 0x33, 0x95, 0x5d, 0x89, 0xc4, 0xb9,
     0x1d, 0x45, 0x76, 0x27, 0xde, 0xab, 0x1c, 0xf4, 0x8e, 0x57, 0x8c, 0x88, 0xd3, 0xde, 0x48, 0x31, 0xce,
     0x9b, 0x3e, 0x16, 0x10, 0x30, 0x22, 0xe2, 0xbc, 0xc4, 0x14, 0x42, 0x6f, 0x1a, 0x5c, 0x73, 0xa1, 0x81,
     0x62, 0x65, 0xb1, 0xb1, 0x40, 0x87]"
  unfolding bj_keys_def c_xAESKeyAndIV_def by (simp add: key_eval) (simp add: aes_eval)

lemma one_block: "enc_blocks tab (Suc 0) iv p = BlockEncrypt tab (XorBytes (take 16 p) iv) @ drop 16 p"
  by (simp add: Let_def)

lemma encrypt_t: "bj_encrypt (lit ''t'' @ replicate 15 0) =
    [0x66, 0x68, 0x58, 0xf4, 0xb4, 0x96, 0xbc, 0xc1, 0x6a, 0x99, 0x01, 0x00, 0x43, 0xa4, 0x7b, 0xbf]"
proof -
  have "XorBytes (take 16 (lit ''t'' @ replicate 15 0)) c_xAESKeyAndIV =
    [0x75, 0x02, 0x03, 0x04, 0x05, 0x06, 0x07, 0x08, 0x09, 0x0a, 0x0b, 0x0c, 0x0d, 0x0e, 0x0f, 0x10]"
    by (simp add: XorBytes_def c_xAESKeyAndIV_def numeral_eq_Suc)
  moreover have "BlockEncrypt bj_keys [0x75, 0x02, 0x03, 0x04, 0x05, 0x06, 0x07, 0x08, 0x09, 0x0a, 0x0b, 0x0c, 0x0d, 0x0e, 0x0f, 0x10] =
    [0x66, 0x68, 0x58, 0xf4, 0xb4, 0x96, 0xbc, 0xc1, 0x6a, 0x99, 0x01, 0x00, 0x43, 0xa4, 0x7b, 0xbf]"
    unfolding bj_keys_value block_eval by (simp add: aes_eval)
  ultimately show ?thesis by (simp add: bj_encrypt_def AES_Encrypt_def Nb_def one_block)
qed

lemma encrypt_p: "bj_encrypt (lit ''p'' @ replicate 15 0) =
    [0x25, 0x54, 0x01, 0x18, 0x4c, 0x96, 0xb3, 0x2a, 0xd9, 0x12, 0x2b, 0xe9, 0x7f, 0x2f, 0x60, 0x40]"
proof -
  have "XorBytes (take 16 (lit ''p'' @ replicate 15 0)) c_xAESKeyAndIV =
    [0x71, 0x02, 0x03, 0x04, 0x05, 0x06, 0x07, 0x08, 0x09, 0x0a, 0x0b, 0x0c, 0x0d, 0x0e, 0x0f, 0x10]"
    by (simp add: XorBytes_def c_xAESKeyAndIV_def numeral_eq_Suc)
  moreover have "BlockEncrypt bj_keys [0x71, 0x02, 0x03, 0x04, 0x05, 0x06, 0x07, 0x08, 0x09, 0x0a, 0x0b, 0x0c, 0x0d, 0x0e, 0x0f, 0x10] =
    [0x25, 0x54, 0x01, 0x18, 0x4c, 0x96, 0xb3, 0x2a, 0xd9, 0x12, 0x2b, 0xe9, 0x7f, 0x2f, 0x60, 0x40]"
    unfolding bj_keys_value block_eval by (simp add: aes_eval)
  ultimately show ?thesis by (simp add: bj_encrypt_def AES_Encrypt_def Nb_def one_block)
qed

lemma packet_of_char: "bj_encrypt ([c] @ replicate 15 0) = e \<Longrightarrow> bj_packet [c] = bytes_le32 CC_BJDC_PRE @ bytes_le32 20
    @ (bytes_le32 0 @ e) @ bytes_le16 (CC_GetCrc16 (bytes_le32 0 @ e)) @ bytes_le32 CC_BJDC_EOM"
  unfolding bj_packet_eq bj_body_def by (simp add: RT_ALIGN16_def)

lemma clear_t: "bj_clear (bytes_le32 CC_BJDC_PRE @ bytes_le32 20
    @ (bytes_le32 0 @ [0x66, 0x68, 0x58, 0xf4, 0xb4, 0x96, 0xbc, 0xc1, 0x6a, 0x99, 0x01, 0x00, 0x43, 0xa4, 0x7b, 0xbf]) @ bytes_le16 (CC_GetCrc16 (bytes_le32 0 @ [0x66, 0x68, 0x58, 0xf4, 0xb4, 0x96, 0xbc, 0xc1, 0x6a, 0x99, 0x01, 0x00, 0x43, 0xa4, 0x7b, 0xbf])) @ bytes_le32 CC_BJDC_EOM)"
  by code_simp

lemma clear_p: "bj_clear (bytes_le32 CC_BJDC_PRE @ bytes_le32 20
    @ (bytes_le32 0 @ [0x25, 0x54, 0x01, 0x18, 0x4c, 0x96, 0xb3, 0x2a, 0xd9, 0x12, 0x2b, 0xe9, 0x7f, 0x2f, 0x60, 0x40]) @ bytes_le16 (CC_GetCrc16 (bytes_le32 0 @ [0x25, 0x54, 0x01, 0x18, 0x4c, 0x96, 0xb3, 0x2a, 0xd9, 0x12, 0x2b, 0xe9, 0x7f, 0x2f, 0x60, 0x40])) @ bytes_le32 CC_BJDC_EOM)"
  by code_simp

lemma lib1_fits: "bj_fits (lit ''t'')" "bj_fits (lit ''p'')"
  using clear_t clear_p packet_of_char [of "ch CHR ''t''", OF encrypt_t [simplified lit_Cons lit_Nil]]
    packet_of_char [of "ch CHR ''p''", OF encrypt_p [simplified lit_Cons lit_Nil]]
  by (simp_all add: bj_fits_def)

lemma lib1_deliver: "bj_deliver bj_lib1 (lit ''t'') = Some (Some (BJ_HEARTBEAT (strncpy_arr 15 (lit ''1''))))"
  "bj_deliver bj_lib1 (lit ''p'') = Some (Some (BJ_PERIOD_CFG 0))"
  using doc_time doc_period by (simp_all add: bj_deliver_def bj_lib1_def)

lemma lib1_safe: "mxmlLoadString bj_lib1 t = Some d \<Longrightarrow> \<not> bj_faulty d"
  using doc_time doc_period message_fails [of bj_lib1 d] by (auto simp: bj_lib1_def split: if_splits)

lemma link0: "bj_idle bj_link0" "bj_ok bj_link0" "bj_mq bj_link0 = []"
  by (simp_all add: bj_link0_def cc_bjdc_open_def bj_idle_def bj_ok_def CC_BJDC_BUF_SIZE_def)

theorem bjdc_packets_delivered_witness:
  "\<exists>st'. CC_BJDC_PutBytes bj_lib1 (bj_packet (lit ''t'') @ bj_packet (lit ''p'')) bj_link0 = Some st' \<and> bj_idle st'
    \<and> bj_mq st' = [BJ_HEARTBEAT (strncpy_arr 15 (lit ''1'')), BJ_PERIOD_CFG 0]"
  using bjdc_packets_delivered [OF link0(1), of "[lit ''t'', lit ''p'']" bj_lib1
      "[Some (BJ_HEARTBEAT (strncpy_arr 15 (lit ''1''))), Some (BJ_PERIOD_CFG 0)]"] lib1_fits lib1_deliver link0(3)
  by (simp add: List.map_filter_simps)

theorem bjdc_receive_in_bounds_witness:
  "\<exists>st'. CC_BJDC_PutBytes bj_lib1 [0xAA, 0x55, 0xAA, 0x55] bj_link0 = Some st' \<and> bj_ok st'"
  using bjdc_receive_in_bounds [OF link0(2), of bj_lib1 "[0xAA, 0x55, 0xAA, 0x55]"] lib1_safe by blast

theorem bjdc_period_lost_witness:
  "bj_message bj_lib1 (bj_doc ''period'' ''config'' ''period'' ''60'') = Some (Some (BJ_PERIOD_CFG 0))
    \<and> (\<exists>p c. x_child (bj_doc ''period'' ''config'' ''period'' ''60'') p = Some c
      \<and> ((\<exists>w s. x_item (bj_doc ''period'' ''config'' ''period'' ''60'') c = XText w s)
        \<or> (0 :: u32) = x_name_addr bj_lib1 (bj_doc ''period'' ''config'' ''period'' ''60'') c))"
proof -
  have "x_parsed (bj_doc ''period'' ''config'' ''period'' ''60'')" by (simp add: x_parsed_def bj_doc_def)
  from bjdc_period_lost [OF this doc_period] doc_period show ?thesis by blast
qed

theorem bjdc_never_resynchronises_witness:
  "\<exists>st'. CC_BJDC_PutBytes bj_lib1 (0 # 0xAA # bj_packet (lit ''t'')) bj_link0 = Some st' \<and> bj_mq st' = bj_mq bj_link0"
  by (rule bjdc_never_resynchronises [OF link0(1)]) simp

end
