(* ===== verification/BlockHash.thy ===== *)
theory BlockHash
  imports Prelude
begin

text \<open>
  What the three digests of the program share: a compression function over blocks of 64
  bytes, and a buffer that collects the bytes of the current block. \<open>hash_blocks\<close> is the
  reference (all whole blocks of a text, in order), \<open>hash_rest\<close> the bytes after the last whole
  block, and the locale \<open>block_buffer\<close> the contract of an implementation that takes one byte
  at a time; \<open>Md5\<close> and \<open>Sha\<close> interpret it.
\<close>

text \<open>The test \<open>x + y < x\<close> for a carry, which both digests use in their counts.\<close>

lemma word_add_carry: "(x + y < x) = (2 ^ 32 \<le> unat x + unat y)" for x y :: u32
proof -
  have "unat x < 2 ^ 32" "unat y < 2 ^ 32"
    using unsigned_less [of x] unsigned_less [of y] by simp_all
  moreover have "unat (x + y) = (unat x + unat y) mod 2 ^ 32" by (simp add: unat_word_ariths)
  ultimately show ?thesis
    by (cases "unat x + unat y < 2 ^ 32") (auto simp: word_less_nat_alt le_mod_geq)
qed

function hash_blocks :: "('s \<Rightarrow> byte list \<Rightarrow> 's) \<Rightarrow> 's \<Rightarrow> byte list \<Rightarrow> 's" where
  "hash_blocks tr h xs =
     (if length xs < 64 then h else hash_blocks tr (tr h (take 64 xs)) (drop 64 xs))"
  by pat_completeness auto
termination by (relation "measure (\<lambda>(tr, h, xs). length xs)") auto

declare hash_blocks.simps [simp del]

definition hash_rest :: "byte list \<Rightarrow> byte list" where
  "hash_rest xs = drop (64 * (length xs div 64)) xs"

lemma hash_blocks_short [simp]: "length xs < 64 \<Longrightarrow> hash_blocks tr h xs = h"
  by (simp add: hash_blocks.simps)

lemma hash_rest_short [simp]: "length xs < 64 \<Longrightarrow> hash_rest xs = xs"
  by (simp add: hash_rest_def)

lemma hash_rest_drop: "64 \<le> length xs \<Longrightarrow> hash_rest (drop 64 xs) = hash_rest xs"
proof -
  assume "64 \<le> length xs"
  then have "length xs div 64 = Suc ((length xs - 64) div 64)" by (simp add: le_div_geq)
  then show ?thesis by (simp add: hash_rest_def add.commute)
qed

lemma hash_blocks_block: "length b = 64 \<Longrightarrow> hash_blocks tr h (b @ xs) = hash_blocks tr (tr h b) xs"
  by (subst hash_blocks.simps) simp

lemma hash_rest_block: "length b = 64 \<Longrightarrow> hash_rest (b @ xs) = hash_rest xs"
  using hash_rest_drop [of "b @ xs"] by simp

lemma length_hash_rest: "length (hash_rest xs) = length xs mod 64"
  by (simp add: hash_rest_def minus_mult_div_eq_mod)

text \<open>What comes after a text depends on its chaining value and its open block only.\<close>

lemma hash_append:
  "hash_blocks tr h (xs @ ys) = hash_blocks tr (hash_blocks tr h xs) (hash_rest xs @ ys)
   \<and> hash_rest (xs @ ys) = hash_rest (hash_rest xs @ ys)"
proof (induction tr h xs rule: hash_blocks.induct)
  case (1 tr h xs)
  show ?case
  proof (cases "length xs < 64")
    case True
    then show ?thesis by simp
  next
    case False
    define b where "b = take 64 xs"
    define zs where "zs = drop 64 xs"
    have xs: "xs = b @ zs" "length b = 64" using False by (simp_all add: b_def zs_def)
    show ?thesis
      using "1.IH" [OF False]
      unfolding b_def [symmetric] zs_def [symmetric]
      by (simp add: xs hash_blocks_block hash_rest_block)
  qed
qed

lemmas hash_blocks_append = hash_append [THEN conjunct1]
lemmas hash_rest_append = hash_append [THEN conjunct2]

lemma hash_whole: "length b = 64 \<Longrightarrow> hash_blocks tr h b = tr h b" "length b = 64 \<Longrightarrow> hash_rest b = []"
  using hash_blocks_block [of b tr h "[]"] hash_rest_block [of b "[]"] by simp_all

lemma hash_blocks_fill:
  "length (hash_rest xs) + length ys = 64 \<Longrightarrow>
     hash_blocks tr h (xs @ ys) = tr (hash_blocks tr h xs) (hash_rest xs @ ys)"
  by (subst hash_blocks_append) (simp add: hash_whole)

lemma hash_rest_fill:
  "length (hash_rest xs) + length ys = 64 \<Longrightarrow> hash_rest (xs @ ys) = []"
  by (subst hash_rest_append) (simp add: hash_whole)

lemma hash_blocks_more:
  "length (hash_rest xs) + length ys < 64 \<Longrightarrow> hash_blocks tr h (xs @ ys) = hash_blocks tr h xs"
  by (subst hash_blocks_append) simp

lemma hash_rest_more:
  "length (hash_rest xs) + length ys < 64 \<Longrightarrow> hash_rest (xs @ ys) = hash_rest xs @ ys"
  by (subst hash_rest_append) simp

locale block_buffer =
  fixes tr :: "'s \<Rightarrow> byte list \<Rightarrow> 's"
    and ok :: "'c \<Rightarrow> bool"
    and chain :: "'c \<Rightarrow> 's"
    and pending :: "'c \<Rightarrow> byte list"
    and push :: "byte \<Rightarrow> 'c \<Rightarrow> 'c"
  assumes ok_push: "ok c \<Longrightarrow> ok (push b c)"
    and pending_bound: "ok c \<Longrightarrow> length (pending c) < 64"
    and push_more: "ok c \<Longrightarrow> length (pending c) < 63 \<Longrightarrow>
      chain (push b c) = chain c \<and> pending (push b c) = pending c @ [b]"
    and push_full: "ok c \<Longrightarrow> length (pending c) = 63 \<Longrightarrow>
      chain (push b c) = tr (chain c) (pending c @ [b]) \<and> pending (push b c) = []"
begin

definition holds :: "'s \<Rightarrow> byte list \<Rightarrow> 'c \<Rightarrow> bool" where
  "holds h xs c = (ok c \<and> chain c = hash_blocks tr h xs \<and> pending c = hash_rest xs)"

lemma holds_push: "holds h xs c \<Longrightarrow> holds h (xs @ [b]) (push b c)"
  using pending_bound [of c] push_more [of c b] push_full [of c b] ok_push [of c b]
  by (cases "length (hash_rest xs) = 63")
    (auto simp: holds_def hash_blocks_more hash_rest_more hash_blocks_fill hash_rest_fill)

lemma holds_fold: "holds h xs c \<Longrightarrow> holds h (xs @ ys) (fold push ys c)"
proof (induction ys arbitrary: xs c)
  case (Cons y ys)
  show ?case using Cons.IH [OF holds_push [OF Cons.prems, of y]] by simp
qed simp

lemma holds_start: "ok c \<Longrightarrow> pending c = [] \<Longrightarrow> holds (chain c) [] c"
  by (simp add: holds_def)

lemma push_segments: "fold push (concat xss) c = fold (fold push) xss c"
  by (induction xss arbitrary: c) simp_all

end

end
