(* ===== verification/Des.thy ===== *)
theory Des
  imports Prelude
begin

text \<open>
  The block cipher of the registration code (\<open>reg/rtu_des.c\<close>): the tables, the key schedule
  \<open>_des_main_ks\<close>, one block (\<open>_des_crypt\<close>) and the buffer loops \<open>rtu_des_encrypt\<close> and
  \<open>rtu_des_decrypt\<close>.

  \<open>unsigned long\<close> is 32 bits wide, so a shift to the left drops what leaves the word. The
  variable \<open>T\<close> that the macros share is local to each of their statements. A key and a
  block are lists of eight bytes; the loops work on whole buffers and give \<open>None\<close> when they
  read or write outside one.

  Shown: the initial and final permutation undo each other, the Feistel rounds with the
  reversed schedule undo the rounds, so decryption undoes encryption; what the loops return,
  how much they touch, and that working in place gives the same bytes.
\<close>

section \<open>Tables\<close>

definition SB1 :: "u32 list" where
  "SB1 =
    [0x01010400, 0x00000000, 0x00010000, 0x01010404,
     0x01010004, 0x00010404, 0x00000004, 0x00010000,
     0x00000400, 0x01010400, 0x01010404, 0x00000400,
     0x01000404, 0x01010004, 0x01000000, 0x00000004,
     0x00000404, 0x01000400, 0x01000400, 0x00010400,
     0x00010400, 0x01010000, 0x01010000, 0x01000404,
     0x00010004, 0x01000004, 0x01000004, 0x00010004,
     0x00000000, 0x00000404, 0x00010404, 0x01000000,
     0x00010000, 0x01010404, 0x00000004, 0x01010000,
     0x01010400, 0x01000000, 0x01000000, 0x00000400,
     0x01010004, 0x00010000, 0x00010400, 0x01000004,
     0x00000400, 0x00000004, 0x01000404, 0x00010404,
     0x01010404, 0x00010004, 0x01010000, 0x01000404,
     0x01000004, 0x00000404, 0x00010404, 0x01010400,
     0x00000404, 0x01000400, 0x01000400, 0x00000000,
     0x00010004, 0x00010400, 0x00000000, 0x01010004]"

definition SB2 :: "u32 list" where
  "SB2 =
    [0x80108020, 0x80008000, 0x00008000, 0x00108020,
     0x00100000, 0x00000020, 0x80100020, 0x80008020,
     0x80000020, 0x80108020, 0x80108000, 0x80000000,
     0x80008000, 0x00100000, 0x00000020, 0x80100020,
     0x00108000, 0x00100020, 0x80008020, 0x00000000,
     0x80000000, 0x00008000, 0x00108020, 0x80100000,
     0x00100020, 0x80000020, 0x00000000, 0x00108000,
     0x00008020, 0x80108000, 0x80100000, 0x00008020,
     0x00000000, 0x00108020, 0x80100020, 0x00100000,
     0x80008020, 0x80100000, 0x80108000, 0x00008000,
     0x80100000, 0x80008000, 0x00000020, 0x80108020,
     0x00108020, 0x00000020, 0x00008000, 0x80000000,
     0x00008020, 0x80108000, 0x00100000, 0x80000020,
     0x00100020, 0x80008020, 0x80000020, 0x00100020,
     0x00108000, 0x00000000, 0x80008000, 0x00008020,
     0x80000000, 0x80100020, 0x80108020, 0x00108000]"

definition SB3 :: "u32 list" where
  "SB3 =
    [0x00000208, 0x08020200, 0x00000000, 0x08020008,
     0x08000200, 0x00000000, 0x00020208, 0x08000200,
     0x00020008, 0x08000008, 0x08000008, 0x00020000,
     0x08020208, 0x00020008, 0x08020000, 0x00000208,
     0x08000000, 0x00000008, 0x08020200, 0x00000200,
     0x00020200, 0x08020000, 0x08020008, 0x00020208,
     0x08000208, 0x00020200, 0x00020000, 0x08000208,
     0x00000008, 0x08020208, 0x00000200, 0x08000000,
     0x08020200, 0x08000000, 0x00020008, 0x00000208,
     0x00020000, 0x08020200, 0x08000200, 0x00000000,
     0x00000200, 0x00020008, 0x08020208, 0x08000200,
     0x08000008, 0x00000200, 0x00000000, 0x08020008,
     0x08000208, 0x00020000, 0x08000000, 0x08020208,
     0x00000008, 0x00020208, 0x00020200, 0x08000008,
     0x08020000, 0x08000208, 0x00000208, 0x08020000,
     0x00020208, 0x00000008, 0x08020008, 0x00020200]"

definition SB4 :: "u32 list" where
  "SB4 =
    [0x00802001, 0x00002081, 0x00002081, 0x00000080,
     0x00802080, 0x00800081, 0x00800001, 0x00002001,
     0x00000000, 0x00802000, 0x00802000, 0x00802081,
     0x00000081, 0x00000000, 0x00800080, 0x00800001,
     0x00000001, 0x00002000, 0x00800000, 0x00802001,
     0x00000080, 0x00800000, 0x00002001, 0x00002080,
     0x00800081, 0x00000001, 0x00002080, 0x00800080,
     0x00002000, 0x00802080, 0x00802081, 0x00000081,
     0x00800080, 0x00800001, 0x00802000, 0x00802081,
     0x00000081, 0x00000000, 0x00000000, 0x00802000,
     0x00002080, 0x00800080, 0x00800081, 0x00000001,
     0x00802001, 0x00002081, 0x00002081, 0x00000080,
     0x00802081, 0x00000081, 0x00000001, 0x00002000,
     0x00800001, 0x00002001, 0x00802080, 0x00800081,
     0x00002001, 0x00002080, 0x00800000, 0x00802001,
     0x00000080, 0x00800000, 0x00002000, 0x00802080]"

definition SB5 :: "u32 list" where
  "SB5 =
    [0x00000100, 0x02080100, 0x02080000, 0x42000100,
     0x00080000, 0x00000100, 0x40000000, 0x02080000,
     0x40080100, 0x00080000, 0x02000100, 0x40080100,
     0x42000100, 0x42080000, 0x00080100, 0x40000000,
     0x02000000, 0x40080000, 0x40080000, 0x00000000,
     0x40000100, 0x42080100, 0x42080100, 0x02000100,
     0x42080000, 0x40000100, 0x00000000, 0x42000000,
     0x02080100, 0x02000000, 0x42000000, 0x00080100,
     0x00080000, 0x42000100, 0x00000100, 0x02000000,
     0x40000000, 0x02080000, 0x42000100, 0x40080100,
     0x02000100, 0x40000000, 0x42080000, 0x02080100,
     0x40080100, 0x00000100, 0x02000000, 0x42080000,
     0x42080100, 0x00080100, 0x42000000, 0x42080100,
     0x02080000, 0x00000000, 0x40080000, 0x42000000,
     0x00080100, 0x02000100, 0x40000100, 0x00080000,
     0x00000000, 0x40080000, 0x02080100, 0x40000100]"

definition SB6 :: "u32 list" where
  "SB6 =
    [0x20000010, 0x20400000, 0x00004000, 0x20404010,
     0x20400000, 0x00000010, 0x20404010, 0x00400000,
     0x20004000, 0x00404010, 0x00400000, 0x20000010,
     0x00400010, 0x20004000, 0x20000000, 0x00004010,
     0x00000000, 0x00400010, 0x20004010, 0x00004000,
     0x00404000, 0x20004010, 0x00000010, 0x20400010,
     0x20400010, 0x00000000, 0x00404010, 0x20404000,
     0x00004010, 0x00404000, 0x20404000, 0x20000000,
     0x20004000, 0x00000010, 0x20400010, 0x00404000,
     0x20404010, 0x00400000, 0x00004010, 0x20000010,
     0x00400000, 0x20004000, 0x20000000, 0x00004010,
     0x20000010, 0x20404010, 0x00404000, 0x20400000,
     0x00404010, 0x20404000, 0x00000000, 0x20400010,
     0x00000010, 0x00004000, 0x20400000, 0x00404010,
     0x00004000, 0x00400010, 0x20004010, 0x00000000,
     0x20404000, 0x20000000, 0x00400010, 0x20004010]"

definition SB7 :: "u32 list" where
  "SB7 =
    [0x00200000, 0x04200002, 0x04000802, 0x00000000,
     0x00000800, 0x04000802, 0x00200802, 0x04200800,
     0x04200802, 0x00200000, 0x00000000, 0x04000002,
     0x00000002, 0x04000000, 0x04200002, 0x00000802,
     0x04000800, 0x00200802, 0x00200002, 0x04000800,
     0x04000002, 0x04200000, 0x04200800, 0x00200002,
     0x04200000, 0x00000800, 0x00000802, 0x04200802,
     0x00200800, 0x00000002, 0x04000000, 0x00200800,
     0x04000000, 0x00200800, 0x00200000, 0x04000802,
     0x04000802, 0x04200002, 0x04200002, 0x00000002,
     0x00200002, 0x04000000, 0x04000800, 0x00200000,
     0x04200800, 0x00000802, 0x00200802, 0x04200800,
     0x00000802, 0x04000002, 0x04200802, 0x04200000,
     0x00200800, 0x00000000, 0x00000002, 0x04200802,
     0x00000000, 0x00200802, 0x04200000, 0x00000800,
     0x04000002, 0x04000800, 0x00000800, 0x00200002]"

definition SB8 :: "u32 list" where
  "SB8 =
    [0x10001040, 0x00001000, 0x00040000, 0x10041040,
     0x10000000, 0x10001040, 0x00000040, 0x10000000,
     0x00040040, 0x10040000, 0x10041040, 0x00041000,
     0x10041000, 0x00041040, 0x00001000, 0x00000040,
     0x10040000, 0x10000040, 0x10001000, 0x00001040,
     0x00041000, 0x00040040, 0x10040040, 0x10041000,
     0x00001040, 0x00000000, 0x00000000, 0x10040040,
     0x10000040, 0x10001000, 0x00041040, 0x00040000,
     0x00041040, 0x00040000, 0x10041000, 0x00001000,
     0x00000040, 0x10040040, 0x00001000, 0x00041040,
     0x10001000, 0x00000040, 0x10000040, 0x10040000,
     0x10040040, 0x10000000, 0x00040000, 0x10001040,
     0x00000000, 0x10041040, 0x00040040, 0x10000040,
     0x10040000, 0x10001000, 0x10001040, 0x00000000,
     0x10041040, 0x00041000, 0x00041000, 0x00001040,
     0x00001040, 0x00040040, 0x10000000, 0x10041000]"

definition LHs :: "u32 list" where
  "LHs =
    [0x00000000, 0x00000001, 0x00000100, 0x00000101,
     0x00010000, 0x00010001, 0x00010100, 0x00010101,
     0x01000000, 0x01000001, 0x01000100, 0x01000101,
     0x01010000, 0x01010001, 0x01010100, 0x01010101]"

definition RHs :: "u32 list" where
  "RHs =
    [0x00000000, 0x01000000, 0x00010000, 0x01010000,
     0x00000100, 0x01000100, 0x00010100, 0x01010100,
     0x00000001, 0x01000001, 0x00010001, 0x01010001,
     0x00000101, 0x01000101, 0x00010101, 0x01010101]"

section \<open>Permutations\<close>

definition GET_UINT32_BE :: "byte list \<Rightarrow> nat \<Rightarrow> u32" where
  "GET_UINT32_BE b i =
     push_bit 24 (ucast (b ! i)) OR push_bit 16 (ucast (b ! (i + 1))) OR
     push_bit 8 (ucast (b ! (i + 2))) OR ucast (b ! (i + 3))"

definition PUT_UINT32_BE :: "u32 \<Rightarrow> byte list" where
  "PUT_UINT32_BE n = [ucast (drop_bit 24 n), ucast (drop_bit 16 n), ucast (drop_bit 8 n), ucast n]"

text \<open>
  Every line of the permutation macros is an exchange of the bits selected by a mask:
  \<open>T = ((A >> n) ^ B) & m; B ^= T; A ^= (T << n)\<close>. The function takes \<open>A\<close> and \<open>B\<close> and
  returns both.
\<close>

definition des_swap :: "nat \<Rightarrow> u32 \<Rightarrow> u32 \<times> u32 \<Rightarrow> u32 \<times> u32" where
  "des_swap n m p = (let A = fst p; B = snd p; T = (drop_bit n A XOR B) AND m
                     in (A XOR push_bit n T, B XOR T))"

definition DES_IP :: "u32 \<times> u32 \<Rightarrow> u32 \<times> u32" where
  "DES_IP p = (let
     (X, Y) = des_swap 4 0x0F0F0F0F p;
     (X, Y) = des_swap 16 0x0000FFFF (X, Y);
     (Y, X) = des_swap 2 0x33333333 (Y, X);
     (Y, X) = des_swap 8 0x00FF00FF (Y, X);
     Y = (push_bit 1 Y OR drop_bit 31 Y) AND 0xFFFFFFFF;
     (X, Y) = des_swap 0 0xAAAAAAAA (X, Y);
     X = (push_bit 1 X OR drop_bit 31 X) AND 0xFFFFFFFF
     in (X, Y))"

definition DES_FP :: "u32 \<times> u32 \<Rightarrow> u32 \<times> u32" where
  "DES_FP p = (let
     (X, Y) = p;
     X = (push_bit 31 X OR drop_bit 1 X) AND 0xFFFFFFFF;
     (X, Y) = des_swap 0 0xAAAAAAAA (X, Y);
     Y = (push_bit 31 Y OR drop_bit 1 Y) AND 0xFFFFFFFF;
     (Y, X) = des_swap 8 0x00FF00FF (Y, X);
     (Y, X) = des_swap 2 0x33333333 (Y, X);
     (X, Y) = des_swap 16 0x0000FFFF (X, Y);
     (X, Y) = des_swap 4 0x0F0F0F0F (X, Y)
     in (X, Y))"

section \<open>Rounds\<close>

text \<open>What \<open>DES_ROUND(X, Y)\<close> adds to \<open>Y\<close>, with the two subkey words it takes from \<open>SK\<close>.\<close>

definition des_f :: "u32 \<Rightarrow> u32 \<Rightarrow> u32 \<Rightarrow> u32" where
  "des_f k0 k1 X = (let
     T = k0 XOR X;
     T' = k1 XOR (push_bit 28 X OR drop_bit 4 X)
     in (SB8 ! unat (T AND 0x3F)
         XOR SB6 ! unat (drop_bit 8 T AND 0x3F)
         XOR SB4 ! unat (drop_bit 16 T AND 0x3F)
         XOR SB2 ! unat (drop_bit 24 T AND 0x3F))
        XOR
        (SB7 ! unat (T' AND 0x3F)
         XOR SB5 ! unat (drop_bit 8 T' AND 0x3F)
         XOR SB3 ! unat (drop_bit 16 T' AND 0x3F)
         XOR SB1 ! unat (drop_bit 24 T' AND 0x3F)))"

text \<open>The sequence \<open>DES_ROUND(Y, X); DES_ROUND(X, Y); ...\<close> while there are subkeys.\<close>

fun des_rounds :: "u32 list \<Rightarrow> u32 \<times> u32 \<Rightarrow> u32 \<times> u32" where
  "des_rounds (k0 # k1 # k2 # k3 # SK) (X, Y) =
     (let X' = X XOR des_f k0 k1 Y;
          Y' = Y XOR des_f k2 k3 X'
      in des_rounds SK (X', Y'))"
| "des_rounds _ (X, Y) = (X, Y)"

section \<open>Key schedule\<close>

text \<open>The two subkey words that one turn of the loop of \<open>_des_main_ks\<close> stores.\<close>

definition des_subkey0 :: "u32 \<Rightarrow> u32 \<Rightarrow> u32" where
  "des_subkey0 X Y =
       (push_bit 4 X AND 0x24000000) OR (push_bit 28 X AND 0x10000000)
    OR (push_bit 14 X AND 0x08000000) OR (push_bit 18 X AND 0x02080000)
    OR (push_bit 6 X AND 0x01000000) OR (push_bit 9 X AND 0x00200000)
    OR (drop_bit 1 X AND 0x00100000) OR (push_bit 10 X AND 0x00040000)
    OR (push_bit 2 X AND 0x00020000) OR (drop_bit 10 X AND 0x00010000)
    OR (drop_bit 13 Y AND 0x00002000) OR (drop_bit 4 Y AND 0x00001000)
    OR (push_bit 6 Y AND 0x00000800) OR (drop_bit 1 Y AND 0x00000400)
    OR (drop_bit 14 Y AND 0x00000200) OR (Y AND 0x00000100)
    OR (drop_bit 5 Y AND 0x00000020) OR (drop_bit 10 Y AND 0x00000010)
    OR (drop_bit 3 Y AND 0x00000008) OR (drop_bit 18 Y AND 0x00000004)
    OR (drop_bit 26 Y AND 0x00000002) OR (drop_bit 24 Y AND 0x00000001)"

definition des_subkey1 :: "u32 \<Rightarrow> u32 \<Rightarrow> u32" where
  "des_subkey1 X Y =
       (push_bit 15 X AND 0x20000000) OR (push_bit 17 X AND 0x10000000)
    OR (push_bit 10 X AND 0x08000000) OR (push_bit 22 X AND 0x04000000)
    OR (drop_bit 2 X AND 0x02000000) OR (push_bit 1 X AND 0x01000000)
    OR (push_bit 16 X AND 0x00200000) OR (push_bit 11 X AND 0x00100000)
    OR (push_bit 3 X AND 0x00080000) OR (drop_bit 6 X AND 0x00040000)
    OR (push_bit 15 X AND 0x00020000) OR (drop_bit 4 X AND 0x00010000)
    OR (drop_bit 2 Y AND 0x00002000) OR (push_bit 8 Y AND 0x00001000)
    OR (drop_bit 14 Y AND 0x00000808) OR (drop_bit 9 Y AND 0x00000400)
    OR (Y AND 0x00000200) OR (push_bit 7 Y AND 0x00000100)
    OR (drop_bit 7 Y AND 0x00000020) OR (drop_bit 3 Y AND 0x00000011)
    OR (push_bit 2 Y AND 0x00000004) OR (drop_bit 21 Y AND 0x00000002)"

definition des_rot28 :: "nat \<Rightarrow> u32 \<Rightarrow> u32" where
  "des_rot28 i X =
     (if i < 2 \<or> i = 8 \<or> i = 15 then (push_bit 1 X OR drop_bit 27 X) AND 0x0FFFFFFF
      else (push_bit 2 X OR drop_bit 26 X) AND 0x0FFFFFFF)"

fun des_ks_loop :: "nat list \<Rightarrow> u32 \<Rightarrow> u32 \<Rightarrow> u32 list" where
  "des_ks_loop [] X Y = []"
| "des_ks_loop (i # is) X Y =
     (let X' = des_rot28 i X; Y' = des_rot28 i Y
      in des_subkey0 X' Y' # des_subkey1 X' Y' # des_ks_loop is X' Y')"

definition des_PC1 :: "byte list \<Rightarrow> u32 \<times> u32" where
  "des_PC1 key = (let
     X = GET_UINT32_BE key 0;
     Y = GET_UINT32_BE key 4;
     T = (drop_bit 4 Y XOR X) AND 0x0F0F0F0F; X = X XOR T; Y = Y XOR push_bit 4 T;
     T = (Y XOR X) AND 0x10101010; X = X XOR T; Y = Y XOR T;
     L = (\<lambda>n. LHs ! unat (drop_bit n X AND 0xF));
     R = (\<lambda>n. RHs ! unat (drop_bit n Y AND 0xF));
     X' = push_bit 3 (L 0) OR push_bit 2 (L 8) OR push_bit 1 (L 16) OR L 24
       OR push_bit 7 (L 5) OR push_bit 6 (L 13) OR push_bit 5 (L 21) OR push_bit 4 (L 29);
     Y' = push_bit 3 (R 1) OR push_bit 2 (R 9) OR push_bit 1 (R 17) OR R 25
       OR push_bit 7 (R 4) OR push_bit 6 (R 12) OR push_bit 5 (R 20) OR push_bit 4 (R 28)
     in (X' AND 0x0FFFFFFF, Y' AND 0x0FFFFFFF))"

definition des_main_ks :: "byte list \<Rightarrow> u32 list" where
  "des_main_ks key = (case des_PC1 key of (X, Y) \<Rightarrow> des_ks_loop [0..<16] X Y)"

record rtu_des_context =
  esk :: "u32 list"
  dsk :: "u32 list"

definition des_set_key :: "byte list \<Rightarrow> rtu_des_context" where
  "des_set_key key = (let e = des_main_ks key in
     \<lparr>esk = e,
      dsk = concat (map (\<lambda>j. [e ! (30 - 2 * j), e ! (31 - 2 * j)]) [0..<16])\<rparr>)"

section \<open>Blocks and buffers\<close>

definition des_crypt :: "u32 list \<Rightarrow> byte list \<Rightarrow> byte list" where
  "des_crypt SK input = (let
     X = GET_UINT32_BE input 0;
     Y = GET_UINT32_BE input 4;
     (X, Y) = DES_IP (X, Y);
     (X, Y) = des_rounds SK (X, Y);
     (Y, X) = DES_FP (Y, X)
     in PUT_UINT32_BE Y @ PUT_UINT32_BE X)"

definition des_encrypt :: "rtu_des_context \<Rightarrow> byte list \<Rightarrow> byte list" where
  "des_encrypt ctx input = des_crypt (esk ctx) input"

definition des_decrypt :: "rtu_des_context \<Rightarrow> byte list \<Rightarrow> byte list" where
  "des_decrypt ctx input = des_crypt (dsk ctx) input"

text \<open>
  The loop of both entry points: \<open>k\<close> is how far \<open>in\<close> and \<open>out\<close> have advanced, \<open>inb\<close> and
  \<open>outb\<close> are the objects they point into. The second function is the loop when \<open>out\<close> and
  \<open>in\<close> are the same pointer.
\<close>

function des_loop :: "(byte list \<Rightarrow> byte list) \<Rightarrow> nat \<Rightarrow> byte list \<Rightarrow> byte list \<Rightarrow> int
    \<Rightarrow> (byte list \<times> int) option" where
  "des_loop f k outb inb datalen =
     (if datalen > 0 then
        (if k + 8 \<le> length inb \<and> k + 8 \<le> length outb
         then des_loop f (k + 8)
                (take k outb @ f (take 8 (drop k inb)) @ drop (k + 8) outb) inb (datalen - 8)
         else None)
      else Some (outb, datalen))"
  by pat_completeness auto
termination by (relation "measure (\<lambda>(f, k, outb, inb, datalen). nat datalen)") auto

function des_loop_same :: "(byte list \<Rightarrow> byte list) \<Rightarrow> nat \<Rightarrow> byte list \<Rightarrow> int
    \<Rightarrow> (byte list \<times> int) option" where
  "des_loop_same f k buf datalen =
     (if datalen > 0 then
        (if k + 8 \<le> length buf
         then des_loop_same f (k + 8)
                (take k buf @ f (take 8 (drop k buf)) @ drop (k + 8) buf) (datalen - 8)
         else None)
      else Some (buf, datalen))"
  by pat_completeness auto
termination by (relation "measure (\<lambda>(f, k, buf, datalen). nat datalen)") auto

declare des_loop.simps [simp del] des_loop_same.simps [simp del]

definition rtu_des_encrypt :: "byte list \<Rightarrow> byte list \<Rightarrow> int \<Rightarrow> byte list \<Rightarrow> (byte list \<times> int) option" where
  "rtu_des_encrypt out inp datalen key =
     (let ctx = des_set_key key in des_loop (des_encrypt ctx) 0 out inp datalen)"

definition rtu_des_decrypt :: "byte list \<Rightarrow> byte list \<Rightarrow> int \<Rightarrow> byte list \<Rightarrow> (byte list \<times> int) option" where
  "rtu_des_decrypt out inp datalen key =
     (let ctx = des_set_key key in des_loop (des_decrypt ctx) 0 out inp datalen)"

definition rtu_des_encrypt_same :: "byte list \<Rightarrow> int \<Rightarrow> byte list \<Rightarrow> (byte list \<times> int) option" where
  "rtu_des_encrypt_same buf datalen key =
     (let ctx = des_set_key key in des_loop_same (des_encrypt ctx) 0 buf datalen)"

definition rtu_des_decrypt_same :: "byte list \<Rightarrow> int \<Rightarrow> byte list \<Rightarrow> (byte list \<times> int) option" where
  "rtu_des_decrypt_same buf datalen key =
     (let ctx = des_set_key key in des_loop_same (des_decrypt ctx) 0 buf datalen)"

section \<open>The permutations undo each other\<close>

lemma des_swap_involution:
  assumes "drop_bit n (push_bit n m) = m"
  shows "des_swap n m (des_swap n m p) = p"
proof -
  obtain A B where p: "p = (A, B)" by (cases p)
  define T where "T = (drop_bit n A XOR B) AND m"
  have fits: "j + n < 32" if "bit m j" for j
    using arg_cong [OF assms, of "\<lambda>w. bit w j"] that by (simp add: bit_simps)
  have T: "drop_bit n (push_bit n T) = T"
    by (rule bit_word_eqI) (auto simp: T_def bit_simps dest: fits)
  have "(drop_bit n (A XOR push_bit n T) XOR (B XOR T)) AND m = T"
  proof -
    have "drop_bit n (A XOR push_bit n T) XOR (B XOR T) = drop_bit n A XOR B"
      by (simp add: drop_bit_xor T xor.assoc xor.left_commute xor.commute)
    then show ?thesis by (simp add: T_def)
  qed
  note T' = this
  have "des_swap n m p = (A XOR push_bit n T, B XOR T)"
    by (simp only: des_swap_def Let_def p fst_conv snd_conv T_def)
  moreover have "des_swap n m (A XOR push_bit n T, B XOR T) =
      ((A XOR push_bit n T) XOR push_bit n T, (B XOR T) XOR T)"
    by (simp only: des_swap_def Let_def fst_conv snd_conv T')
  ultimately show ?thesis by (simp add: p xor.assoc)
qed

lemma des_swap_undo [simp]:
  "des_swap 4 0x0F0F0F0F (des_swap 4 0x0F0F0F0F p) = p"
  "des_swap 16 0x0000FFFF (des_swap 16 0x0000FFFF p) = p"
  "des_swap 2 0x33333333 (des_swap 2 0x33333333 p) = p"
  "des_swap 8 0x00FF00FF (des_swap 8 0x00FF00FF p) = p"
  "des_swap 0 0xAAAAAAAA (des_swap 0 0xAAAAAAAA p) = p"
  by (rule des_swap_involution, simp add: push_bit_eq_mult drop_bit_eq_div)+

lemma and_full: "w AND 0xFFFFFFFF = w" for w :: u32
proof -
  have "(0xFFFFFFFF :: u32) = - 1" by simp
  then show ?thesis by (simp only: and.right_neutral)
qed

lemma rol32_undo:
  assumes "n < 32" "n + m = 32"
  shows "rol32 (rol32 w n) m = w"
proof (rule bit_word_eqI)
  have m: "m = 32 - n" using assms by simp
  fix j assume "j < LENGTH(32)"
  then have "j < m \<or> (m \<le> j \<and> j < 32)" by simp arith
  then show "bit (rol32 (rol32 w n) m) j = bit w j"
    using assms unfolding m
    by (elim disjE) (auto simp: rol32_def bit_simps dest: bit_imp_le_length)
qed

text \<open>The two permutations as compositions, so that their steps cancel pairwise.\<close>

definition rot_fst :: "nat \<Rightarrow> u32 \<times> u32 \<Rightarrow> u32 \<times> u32" where
  "rot_fst n p = (rol32 (fst p) n, snd p)"

lemma rot_fst_undo [simp]: "rot_fst 1 (rot_fst 31 p) = p" "rot_fst 31 (rot_fst 1 p) = p"
  by (simp_all add: rot_fst_def rol32_undo)

lemma rol32_code:
  "(push_bit 1 X OR drop_bit 31 X) AND 0xFFFFFFFF = rol32 X 1"
  "(push_bit 31 X OR drop_bit 1 X) AND 0xFFFFFFFF = rol32 X 31"
  unfolding and_full rol32_def by simp_all

lemma DES_IP_steps: "DES_IP p =
  rot_fst 1 (des_swap 0 0xAAAAAAAA (prod.swap (rot_fst 1 (des_swap 8 0x00FF00FF
    (des_swap 2 0x33333333 (prod.swap (des_swap 16 0x0000FFFF (des_swap 4 0x0F0F0F0F p))))))))"
  unfolding DES_IP_def Let_def rol32_code case_prod_beta rot_fst_def prod.swap_def
  by (simp only: fst_conv snd_conv prod.collapse)

lemma DES_FP_steps: "DES_FP p =
  des_swap 4 0x0F0F0F0F (des_swap 16 0x0000FFFF (prod.swap (des_swap 2 0x33333333
    (des_swap 8 0x00FF00FF (rot_fst 31 (prod.swap (des_swap 0 0xAAAAAAAA (rot_fst 31 p))))))))"
  unfolding DES_FP_def Let_def rol32_code case_prod_beta rot_fst_def prod.swap_def
  by (simp only: fst_conv snd_conv prod.collapse)

lemma DES_IP_FP [simp]: "DES_IP (DES_FP p) = p"
  by (simp add: DES_IP_steps DES_FP_steps del: One_nat_def)

lemma DES_FP_IP [simp]: "DES_FP (DES_IP p) = p"
  by (simp add: DES_IP_steps DES_FP_steps del: One_nat_def)

section \<open>The rounds undo each other\<close>

text \<open>The schedule with its pairs in the opposite order, as \<open>dsk\<close> holds it.\<close>

fun rev_pairs :: "'a list \<Rightarrow> 'a list" where
  "rev_pairs (a # b # xs) = rev_pairs xs @ [a, b]"
| "rev_pairs _ = []"

lemma four_more:
  assumes "length ks = 4 * Suc n"
  obtains k0 k1 k2 k3 SK where "ks = k0 # k1 # k2 # k3 # SK" "length SK = 4 * n"
  using assms by (auto simp: length_Suc_conv numeral_eq_Suc)

lemma length_rev_pairs: "length xs = 4 * n \<Longrightarrow> length (rev_pairs xs) = 4 * n"
proof (induction n arbitrary: xs)
  case (Suc n)
  then show ?case by (elim four_more) simp
qed simp

lemma des_rounds_append:
  "length ks = 4 * n \<Longrightarrow> des_rounds (ks @ ls) (X, Y) = des_rounds ls (des_rounds ks (X, Y))"
proof (induction n arbitrary: ks X Y)
  case (Suc n)
  then show ?case by (elim four_more) (simp add: Let_def)
qed simp

lemma des_rounds_reversed:
  "length ks = 4 * n \<Longrightarrow>
   des_rounds (rev_pairs ks) (prod.swap (des_rounds ks (X, Y))) = (Y, X)"
proof (induction n arbitrary: ks X Y)
  case 0
  then show ?case by simp
next
  case (Suc n)
  from Suc.prems obtain k0 k1 k2 k3 SK
    where ks: "ks = k0 # k1 # k2 # k3 # SK" "length SK = 4 * n"
    by (rule four_more)
  define X' where "X' = X XOR des_f k0 k1 Y"
  define Y' where "Y' = Y XOR des_f k2 k3 X'"
  obtain U V where UV: "des_rounds SK (X', Y') = (U, V)" by (cases "des_rounds SK (X', Y')")
  have "des_rounds (rev_pairs ks) (prod.swap (des_rounds ks (X, Y))) =
    des_rounds [k2, k3, k0, k1] (des_rounds (rev_pairs SK) (prod.swap (des_rounds SK (X', Y'))))"
    by (simp add: ks Let_def X'_def [symmetric] Y'_def [symmetric] UV
        des_rounds_append [OF length_rev_pairs [OF ks(2)]])
  also have "\<dots> = (Y, X)"
    by (simp add: Suc.IH [OF ks(2)] Let_def X'_def Y'_def xor.assoc)
  finally show ?case .
qed

section \<open>Blocks\<close>

lemma GET_UINT32_BE_le32:
  "GET_UINT32_BE b i = le32 (b ! (i + 3)) (b ! (i + 2)) (b ! (i + 1)) (b ! i)"
  by (simp add: GET_UINT32_BE_def le32_def or.assoc or.commute or.left_commute)

lemma PUT_UINT32_BE_le32 [simp]: "PUT_UINT32_BE (le32 d c b a) = [a, b, c, d]"
  using bytes_le32_le32 [of d c b a] by (simp add: PUT_UINT32_BE_def bytes_le32_def)

lemma length_PUT_UINT32_BE [simp]: "length (PUT_UINT32_BE x) = 4"
  by (simp add: PUT_UINT32_BE_def)

lemma GET_PUT [simp]:
  "GET_UINT32_BE (PUT_UINT32_BE x @ ys) 0 = x"
  "GET_UINT32_BE (PUT_UINT32_BE x @ PUT_UINT32_BE y) 4 = y"
  by (simp_all add: GET_UINT32_BE_le32 PUT_UINT32_BE_def le32_bytes_le32)

lemma block8:
  assumes "length b = 8"
  obtains b0 b1 b2 b3 b4 b5 b6 b7 where "b = [b0, b1, b2, b3, b4, b5, b6, b7]"
  using assms by (auto simp: length_Suc_conv numeral_eq_Suc)

lemma PUT_GET:
  assumes "length b = 8"
  shows "PUT_UINT32_BE (GET_UINT32_BE b 0) @ PUT_UINT32_BE (GET_UINT32_BE b 4) = b"
  using assms by (elim block8) (simp add: GET_UINT32_BE_le32)

lemma length_des_crypt [simp]: "length (des_crypt SK b) = 8"
  by (simp add: des_crypt_def Let_def split: prod.splits)

text \<open>A block under the reversed schedule gives the block back.\<close>

lemma des_crypt_reversed:
  assumes "length SK = 4 * n" and b: "length b = 8"
  shows "des_crypt (rev_pairs SK) (des_crypt SK b) = b"
proof -
  obtain X Y where XY: "DES_IP (GET_UINT32_BE b 0, GET_UINT32_BE b 4) = (X, Y)" by fastforce
  obtain U V where UV: "des_rounds SK (X, Y) = (U, V)" by fastforce
  obtain P Q where PQ: "DES_FP (V, U) = (P, Q)" by fastforce
  have enc: "des_crypt SK b = PUT_UINT32_BE P @ PUT_UINT32_BE Q"
    by (simp add: des_crypt_def XY UV PQ)
  have ip: "DES_IP (P, Q) = (V, U)" by (simp flip: PQ)
  have rounds: "des_rounds (rev_pairs SK) (V, U) = (Y, X)"
    using des_rounds_reversed [OF assms(1), of X Y] by (simp add: UV)
  have fp: "DES_FP (X, Y) = (GET_UINT32_BE b 0, GET_UINT32_BE b 4)" by (simp flip: XY)
  show ?thesis
    unfolding enc by (simp add: des_crypt_def ip rounds fp PUT_GET [OF b])
qed

lemma rev_pairs_append:
  "length ks = 4 * n \<Longrightarrow> rev_pairs (ks @ ls) = rev_pairs ls @ rev_pairs ks"
proof (induction n arbitrary: ks)
  case (Suc n)
  then show ?case by (elim four_more) simp
qed simp

lemma rev_pairs_rev_pairs: "length ks = 4 * n \<Longrightarrow> rev_pairs (rev_pairs ks) = ks"
proof (induction n arbitrary: ks)
  case (Suc n)
  then show ?case by (elim four_more) (simp add: rev_pairs_append [OF length_rev_pairs])
qed simp

lemma length_des_ks_loop [simp]: "length (des_ks_loop is X Y) = 2 * length is"
  by (induction "is" X Y rule: des_ks_loop.induct) (simp_all add: Let_def)

lemma length_des_main_ks [simp]: "length (des_main_ks key) = 32"
  by (simp add: des_main_ks_def split: prod.splits)

lemma rev_pairs_32:
  assumes "length e = 32"
  shows "concat (map (\<lambda>j. [e ! (30 - 2 * j), e ! (31 - 2 * j)]) [0..<16]) = rev_pairs e"
proof -
  have e: "map ((!) e) [0..<32] = e" using map_nth [of e] assms by simp
  have "rev_pairs (map ((!) e) [0..<32]) =
      concat (map (\<lambda>j. [e ! (30 - 2 * j), e ! (31 - 2 * j)]) [0..<16])"
    by (simp add: upt_rec) (simp add: numeral_eq_Suc)
  then show ?thesis by (simp add: e)
qed

lemma esk_set_key [simp]: "esk (des_set_key key) = des_main_ks key"
  by (simp add: des_set_key_def Let_def)

lemma dsk_set_key [simp]: "dsk (des_set_key key) = rev_pairs (des_main_ks key)"
  by (simp add: des_set_key_def Let_def rev_pairs_32)

lemma des_decrypt_encrypt [simp]:
  "length b = 8 \<Longrightarrow> des_decrypt (des_set_key key) (des_encrypt (des_set_key key) b) = b"
  by (simp add: des_decrypt_def des_encrypt_def des_crypt_reversed [of _ 8])

lemma des_encrypt_decrypt:
  assumes "length b = 8"
  shows "des_encrypt (des_set_key key) (des_decrypt (des_set_key key) b) = b"
proof -
  have "length (des_main_ks key) = 4 * 8" by simp
  then show ?thesis
    using des_crypt_reversed [OF length_rev_pairs assms, of "des_main_ks key" 8]
    by (simp add: des_decrypt_def des_encrypt_def rev_pairs_rev_pairs)
qed

lemma length_des_encrypt [simp]: "length (des_encrypt ctx b) = 8"
  by (simp add: des_encrypt_def)

lemma length_des_decrypt [simp]: "length (des_decrypt ctx b) = 8"
  by (simp add: des_decrypt_def)

section \<open>Buffers\<close>

text \<open>What the loop writes: the image of the first \<open>m\<close> blocks.\<close>

fun des_blocks :: "(byte list \<Rightarrow> byte list) \<Rightarrow> nat \<Rightarrow> byte list \<Rightarrow> byte list" where
  "des_blocks f 0 xs = []"
| "des_blocks f (Suc m) xs = f (take 8 xs) @ des_blocks f m (drop 8 xs)"

text \<open>The number of turns for a \<open>datalen\<close>.\<close>

definition des_turns :: "int \<Rightarrow> nat" where
  "des_turns datalen = nat ((datalen + 7) div 8)"

lemma des_turns_step: "datalen > 0 \<Longrightarrow> des_turns datalen = Suc (des_turns (datalen - 8))"
  unfolding des_turns_def by linarith

lemma des_turns_stop: "datalen \<le> 0 \<Longrightarrow> des_turns datalen = 0"
  unfolding des_turns_def by linarith

text \<open>
  What the loops need of a cipher: it maps blocks to blocks, and its inverse undoes it.
\<close>

locale block_cipher =
  fixes E :: "byte list \<Rightarrow> byte list" and D :: "byte list \<Rightarrow> byte list"
  assumes length_E: "length (E b) = 8"
    and D_E: "length b = 8 \<Longrightarrow> D (E b) = b"
begin

lemma length_blocks: "length (des_blocks E m xs) = 8 * m"
  by (induction m arbitrary: xs) (simp_all add: length_E)

lemma blocks_inverse:
  "8 * m \<le> length xs \<Longrightarrow> des_blocks D m (des_blocks E m xs @ ys) = take (8 * m) xs"
proof (induction m arbitrary: xs)
  case (Suc m)
  have "take (8 + 8 * m) xs = take 8 xs @ take (8 * m) (drop 8 xs)" by (rule take_add)
  with Suc show ?case by (simp add: length_E D_E)
qed simp

lemma loop_result:
  "des_loop E k outb inb datalen =
    (let m = des_turns datalen in
     if m = 0 \<or> (k + 8 * m \<le> length inb \<and> k + 8 * m \<le> length outb)
     then Some (take k outb @ des_blocks E m (drop k inb) @ drop (k + 8 * m) outb,
                datalen - 8 * int m)
     else None)"
proof (induction "nat datalen" arbitrary: k outb datalen rule: less_induct)
  case less
  show ?case
  proof (cases "datalen > 0")
    case False
    then show ?thesis by (simp add: des_loop.simps des_turns_stop)
  next
    case pos: True
    define m where "m = des_turns (datalen - 8)"
    have turns: "des_turns datalen = Suc m" using pos by (simp add: des_turns_step m_def)
    show ?thesis
    proof (cases "k + 8 \<le> length inb \<and> k + 8 \<le> length outb")
      case False
      then show ?thesis using pos by (subst des_loop.simps) (auto simp: turns)
    next
      case True
      define out' where "out' = take k outb @ E (take 8 (drop k inb)) @ drop (k + 8) outb"
      have parts: "length out' = length outb" "take (k + 8) out' = take k outb @ E (take 8 (drop k inb))"
        "\<And>n. k + 8 \<le> n \<Longrightarrow> drop n out' = drop n outb"
        using True by (simp_all add: out'_def length_E min_def)
      have "des_loop E k outb inb datalen = des_loop E (k + 8) out' inb (datalen - 8)"
        using pos True by (subst des_loop.simps) (simp add: out'_def)
      also have "\<dots> = (let m = des_turns (datalen - 8) in
          if m = 0 \<or> (k + 8 + 8 * m \<le> length inb \<and> k + 8 + 8 * m \<le> length out')
          then Some (take (k + 8) out' @ des_blocks E m (drop (k + 8) inb) @
            drop (k + 8 + 8 * m) out', datalen - 8 - 8 * int m)
          else None)"
        using pos by (intro less.hyps) simp
      finally show ?thesis
        using True by (simp add: turns Let_def parts m_def [symmetric] algebra_simps)
    qed
  qed
qed

text \<open>Working in place reads each block before it is overwritten.\<close>

lemma loop_same_eq:
  "drop k inb = drop k buf \<Longrightarrow> length inb = length buf \<Longrightarrow>
    des_loop_same E k buf datalen = des_loop E k buf inb datalen"
proof (induction "nat datalen" arbitrary: k buf datalen rule: less_induct)
  case less
  show ?case
  proof (cases "datalen > 0 \<and> k + 8 \<le> length buf")
    case False
    then show ?thesis using less.prems by (subst des_loop_same.simps, subst des_loop.simps) auto
  next
    case True
    define buf' where "buf' = take k buf @ E (take 8 (drop k buf)) @ drop (k + 8) buf"
    have "drop (k + 8) inb = drop (k + 8) buf"
      by (metis less.prems(1) drop_drop add.commute)
    then have "drop (k + 8) inb = drop (k + 8) buf'" "length inb = length buf'"
      using True less.prems by (simp_all add: buf'_def length_E min_def)
    then have "des_loop_same E (k + 8) buf' (datalen - 8) = des_loop E (k + 8) buf' inb (datalen - 8)"
      using True by (intro less.hyps) auto
    then show ?thesis
      using True less.prems
      by (subst des_loop_same.simps, subst des_loop.simps) (simp add: buf'_def)
  qed
qed

end

interpretation des: block_cipher "des_encrypt (des_set_key key)" "des_decrypt (des_set_key key)" for key
  by unfold_locales simp_all

interpretation des_inv: block_cipher "des_decrypt (des_set_key key)" "des_encrypt (des_set_key key)" for key
  by unfold_locales (simp_all add: des_encrypt_decrypt)

lemma rtu_des_encrypt_result:
  "rtu_des_encrypt out inp datalen key =
    (let m = des_turns datalen in
     if m = 0 \<or> (8 * m \<le> length inp \<and> 8 * m \<le> length out)
     then Some (des_blocks (des_encrypt (des_set_key key)) m inp @ drop (8 * m) out,
                datalen - 8 * int m)
     else None)"
  by (simp add: rtu_des_encrypt_def des.loop_result Let_def)

lemma rtu_des_decrypt_result:
  "rtu_des_decrypt out inp datalen key =
    (let m = des_turns datalen in
     if m = 0 \<or> (8 * m \<le> length inp \<and> 8 * m \<le> length out)
     then Some (des_blocks (des_decrypt (des_set_key key)) m inp @ drop (8 * m) out,
                datalen - 8 * int m)
     else None)"
  by (simp add: rtu_des_decrypt_def des_inv.loop_result Let_def)

lemma des_turns_whole [simp]: "des_turns (8 * int m) = m"
  unfolding des_turns_def by linarith

lemma rtu_des_return_not_positive:
  "rtu_des_encrypt out inp datalen key = Some (res, len) \<Longrightarrow> len \<le> 0"
  by (auto simp: rtu_des_encrypt_result Let_def des_turns_def split: if_splits)

section \<open>A published example\<close>

text \<open>The published example, stage by stage.\<close>

lemma example_PC1: "des_PC1 [0x13, 0x34, 0x57, 0x79, 0x9B, 0xBC, 0xDF, 0xF1] = (0x0F0CCAAF, 0x0556678F)"
  by (simp add: des_PC1_def GET_UINT32_BE_def Let_def LHs_def RHs_def cong: let_weak_cong)

lemma example_loop: "des_ks_loop [0, 1, 2, 3, 4, 5, 6, 7, 8, 9, 10, 11, 12, 13, 14, 15] 0x0F0CCAAF 0x0556678F =
  [0x302F0732, 0x060B3F01, 0x1A193C25, 0x1E3B3627,
   0x1F0A2C19, 0x1532103E, 0x2A16331D, 0x1C373614,
   0x0E073528, 0x1F303A0E, 0x3A3E072F, 0x1814142C,
   0x0837213C, 0x3B123D22, 0x383A133B, 0x3D28302F,
   0x0D2B1E01, 0x382F3B1E, 0x1F07240F, 0x2C0D2E19,
   0x15132D06, 0x083F370E, 0x17350629, 0x1D07251F,
   0x3C112B01, 0x25173E29, 0x34372E3A, 0x170E3C1C,
   0x390D130A, 0x2F060F3C, 0x330B2135, 0x3236031F]"
  by (simp add: des_rot28_def des_subkey0_def des_subkey1_def Let_def cong: let_weak_cong)

lemma example_schedule: "des_main_ks [0x13, 0x34, 0x57, 0x79, 0x9B, 0xBC, 0xDF, 0xF1] =
  [0x302F0732, 0x060B3F01, 0x1A193C25, 0x1E3B3627,
   0x1F0A2C19, 0x1532103E, 0x2A16331D, 0x1C373614,
   0x0E073528, 0x1F303A0E, 0x3A3E072F, 0x1814142C,
   0x0837213C, 0x3B123D22, 0x383A133B, 0x3D28302F,
   0x0D2B1E01, 0x382F3B1E, 0x1F07240F, 0x2C0D2E19,
   0x15132D06, 0x083F370E, 0x17350629, 0x1D07251F,
   0x3C112B01, 0x25173E29, 0x34372E3A, 0x170E3C1C,
   0x390D130A, 0x2F060F3C, 0x330B2135, 0x3236031F]"
proof -
  have "[0..<16] = [0, 1, 2, 3, 4, 5, 6, 7, 8, 9, 10, 11, 12, 13, 14, 15]" by (simp add: upt_rec)
  then show ?thesis by (simp only: des_main_ks_def example_PC1 prod.case example_loop)
qed

lemma example_IP: "DES_IP (0x01234567, 0x89ABCDEF) = (0x980199FF, 0xE155E155)"
  by (simp add: DES_IP_def des_swap_def Let_def)

lemma example_rounds: "des_rounds
  [0x302F0732, 0x060B3F01, 0x1A193C25, 0x1E3B3627,
   0x1F0A2C19, 0x1532103E, 0x2A16331D, 0x1C373614,
   0x0E073528, 0x1F303A0E, 0x3A3E072F, 0x1814142C,
   0x0837213C, 0x3B123D22, 0x383A133B, 0x3D28302F,
   0x0D2B1E01, 0x382F3B1E, 0x1F07240F, 0x2C0D2E19,
   0x15132D06, 0x083F370E, 0x17350629, 0x1D07251F,
   0x3C112B01, 0x25173E29, 0x34372E3A, 0x170E3C1C,
   0x390D130A, 0x2F060F3C, 0x330B2135, 0x3236031F]
  (0x980199FF, 0xE155E155) = (0x86846468, 0x1499B32A)"
  by (simp add: des_f_def Let_def SB1_def SB2_def SB3_def SB4_def SB5_def SB6_def SB7_def SB8_def
      cong: let_weak_cong)

lemma example_FP: "DES_FP (0x1499B32A, 0x86846468) = (0x85E81354, 0x0F0AB405)"
  by (simp add: DES_FP_def des_swap_def Let_def)

lemma example_block: "des_crypt (des_main_ks [0x13, 0x34, 0x57, 0x79, 0x9B, 0xBC, 0xDF, 0xF1])
    [0x01, 0x23, 0x45, 0x67, 0x89, 0xAB, 0xCD, 0xEF] = [0x85, 0xE8, 0x13, 0x54, 0x0F, 0x0A, 0xB4, 0x05]"
proof -
  have get: "GET_UINT32_BE [0x01, 0x23, 0x45, 0x67, 0x89, 0xAB, 0xCD, 0xEF] 0 = 0x01234567" "GET_UINT32_BE [0x01, 0x23, 0x45, 0x67, 0x89, 0xAB, 0xCD, 0xEF] 4 = 0x89ABCDEF"
    by (simp_all add: GET_UINT32_BE_def)
  have put: "PUT_UINT32_BE 0x85E81354 @ PUT_UINT32_BE 0x0F0AB405 = [0x85, 0xE8, 0x13, 0x54, 0x0F, 0x0A, 0xB4, 0x05]"
    by (simp add: PUT_UINT32_BE_def)
  show ?thesis
    by (simp only: des_crypt_def Let_def get example_IP example_schedule prod.case example_rounds
        example_FP put)
qed

section \<open>Properties\<close>

text \<open>
  C32. Decryption undoes encryption, for every key and every text of whole blocks: encrypting
  \<open>8 * m\<close> bytes into any buffer that holds them returns 0 and writes exactly \<open>8 * m\<close> bytes
  \<open>c\<close>, and decrypting these with the same key returns the text, with every byte after it left
  as it was. The same bytes result when the call works in place.
\<close>

theorem des_roundtrip:
  assumes "length msg = 8 * m" "8 * m \<le> length out1" "8 * m \<le> length out2"
  shows "\<exists>c. length c = 8 * m
    \<and> rtu_des_encrypt out1 msg (8 * int m) key = Some (c @ drop (8 * m) out1, 0)
    \<and> rtu_des_encrypt_same msg (8 * int m) key = Some (c, 0)
    \<and> rtu_des_decrypt out2 (c @ extra) (8 * int m) key = Some (msg @ drop (8 * m) out2, 0)
    \<and> rtu_des_decrypt_same c (8 * int m) key = Some (msg, 0)"
proof -
  define c where "c = des_blocks (des_encrypt (des_set_key key)) m msg"
  have len: "length c = 8 * m" by (simp add: c_def des.length_blocks)
  have undo: "des_blocks (des_decrypt (des_set_key key)) m (c @ xs) = msg" for xs
    unfolding c_def using assms(1) by (simp add: des.blocks_inverse)
  have enc: "rtu_des_encrypt o1 msg (8 * int m) key = Some (c @ drop (8 * m) o1, 0)"
    if "8 * m \<le> length o1" for o1
    using that assms(1) by (simp add: rtu_des_encrypt_result c_def)
  have dec: "rtu_des_decrypt o2 (c @ extra) (8 * int m) key = Some (msg @ drop (8 * m) o2, 0)"
    if "8 * m \<le> length o2" for o2 extra
    using that len undo [of extra] by (simp add: rtu_des_decrypt_result)
  have "rtu_des_encrypt_same msg d key = rtu_des_encrypt msg msg d key"
    "rtu_des_decrypt_same c d key = rtu_des_decrypt c c d key" for d
    by (simp_all add: rtu_des_encrypt_same_def rtu_des_encrypt_def rtu_des_decrypt_same_def
        rtu_des_decrypt_def des.loop_same_eq des_inv.loop_same_eq)
  then show ?thesis
    using len enc [OF assms(2)] enc [of msg] dec [OF assms(3)] dec [of c "[]"] assms(1)
    by (intro exI [of _ c]) simp
qed

theorem des_roundtrip_witness:
  "\<exists>c. length c = 8
    \<and> rtu_des_encrypt (replicate 32 0) [1, 2, 3, 4, 5, 6, 7, 8] 8 [9, 9, 9, 9, 9, 9, 9, 9]
        = Some (c @ replicate 24 0, 0)
    \<and> rtu_des_decrypt (replicate 8 7) (c @ [5]) 8 [9, 9, 9, 9, 9, 9, 9, 9]
        = Some ([1, 2, 3, 4, 5, 6, 7, 8], 0)"
  using des_roundtrip [of "[1, 2, 3, 4, 5, 6, 7, 8]" 1 "replicate 32 0" "replicate 8 7"
      "[9, 9, 9, 9, 9, 9, 9, 9]" "[5]"]
  by auto

text \<open>
  How far a call reaches: it works on whole blocks, as many as cover \<open>datalen\<close> bytes. It
  stays inside its buffers exactly when both hold that many blocks, so for a length that is
  no multiple of eight it reads and writes up to seven bytes past the data; what it returns
  is \<open>datalen\<close> less eight times the blocks, which is never positive.
\<close>

theorem des_extent:
  fixes datalen :: int
  defines "blocks \<equiv> nat ((datalen + 7) div 8)"
  shows "if blocks = 0 \<or> 8 * blocks \<le> min (length inp) (length out)
    then \<exists>c. length c = 8 * blocks \<and> datalen - 8 * int blocks \<le> 0
      \<and> rtu_des_encrypt out inp datalen key = Some (c @ drop (8 * blocks) out, datalen - 8 * int blocks)
    else rtu_des_encrypt out inp datalen key = None"
proof -
  have b: "des_turns datalen = blocks" by (simp add: blocks_def des_turns_def)
  have "datalen - 8 * int blocks \<le> 0" unfolding blocks_def by linarith
  then show ?thesis
    by (auto simp: rtu_des_encrypt_result b Let_def des.length_blocks
        intro!: exI [of _ "des_blocks (des_encrypt (des_set_key key)) blocks inp"])
qed

text \<open>
  The tables, the schedule and the rounds are those of the Data Encryption Standard on
  its published example: the key 133457799BBCDFF1 takes 0123456789ABCDEF to
  85E813540F0AB405.
\<close>

theorem des_known_answer:
  "rtu_des_encrypt (replicate 8 0) [0x01, 0x23, 0x45, 0x67, 0x89, 0xAB, 0xCD, 0xEF] 8
     [0x13, 0x34, 0x57, 0x79, 0x9B, 0xBC, 0xDF, 0xF1] =
   Some ([0x85, 0xE8, 0x13, 0x54, 0x0F, 0x0A, 0xB4, 0x05], 0)"
proof -
  have "des_turns 8 = 1" by (simp add: des_turns_def)
  then show ?thesis
    using example_block by (simp add: rtu_des_encrypt_result Let_def des_encrypt_def del: des_swap_undo)
qed

end
