(* ===== verification/Md5.thy ===== *)
theory Md5
  imports BlockHash Des Crc
begin

text \<open>
  The two copies of the MD5 digest: \<open>sdccp/cc_md5.c\<close> (names \<open>CC_...\<close>), which the cloud
  protocol uses, and \<open>reg/rtu_md5.c\<close> (names \<open>rtu_...\<close>) of the registration code, whose steps
  replace each additive constant by a function of the constant and the message word.

  A context keeps its bit count as two words, the chaining value (\<open>md_buf\<close>, four words), the
  64 bytes of the open block and the digest. An update reads \<open>inLen\<close> bytes of a buffer and
  gives \<open>None\<close> if they are not there.

  Shown: every sequence of updates followed by the final call gives the digest of the
  concatenated text, as RFC 1321 defines it over the padded blocks, and the second copy
  computes the same digest.
\<close>

section \<open>The basic functions\<close>

definition md5_F :: "u32 \<Rightarrow> u32 \<Rightarrow> u32 \<Rightarrow> u32" where
  "md5_F x y z = ((x AND y) OR (NOT x AND z))"

definition md5_G :: "u32 \<Rightarrow> u32 \<Rightarrow> u32 \<Rightarrow> u32" where
  "md5_G x y z = ((x AND z) OR (y AND NOT z))"

definition md5_H :: "u32 \<Rightarrow> u32 \<Rightarrow> u32 \<Rightarrow> u32" where
  "md5_H x y z = (x XOR y XOR z)"

definition md5_I :: "u32 \<Rightarrow> u32 \<Rightarrow> u32 \<Rightarrow> u32" where
  "md5_I x y z = (y XOR (x OR NOT z))"

definition md5_PADDING :: "byte list" where
  "md5_PADDING = 0x80 # replicate 63 0"

record MD5_CTX =
  md_i0 :: u32
  md_i1 :: u32
  md_buf :: "u32 list"
  md_in :: "byte list"
  md_digest :: "byte list"

text \<open>The loop \<open>in[i] = ...\<close>: \<open>n\<close> words out of the bytes, the low byte first.\<close>

definition md5_words :: "byte list \<Rightarrow> nat \<Rightarrow> u32 list" where
  "md5_words b n = map (\<lambda>i. let ii = 4 * i in
     push_bit 24 (ucast (b ! (ii + 3))) OR push_bit 16 (ucast (b ! (ii + 2))) OR
     push_bit 8 (ucast (b ! (ii + 1))) OR ucast (b ! ii)) [0..<n]"

text \<open>The last loop of the final call.\<close>

definition md5_digest_bytes :: "u32 list \<Rightarrow> byte list" where
  "md5_digest_bytes h = concat (map (\<lambda>w. [ucast (w AND 0xFF), ucast (drop_bit 8 w AND 0xFF),
     ucast (drop_bit 16 w AND 0xFF), ucast (drop_bit 24 w AND 0xFF)]) (take 4 h))"

type_synonym md5_vars = "u32 \<times> u32 \<times> u32 \<times> u32"

section \<open>The digest of the cloud protocol\<close>

definition CC_FF :: "u32 \<Rightarrow> u32 \<Rightarrow> u32 \<Rightarrow> u32 \<Rightarrow> u32 \<Rightarrow> nat \<Rightarrow> u32 \<Rightarrow> u32" where
  "CC_FF a b c d x s ac = (let a = a + (md5_F b c d + x + ac); a = rol32 a s in a + b)"

definition CC_GG :: "u32 \<Rightarrow> u32 \<Rightarrow> u32 \<Rightarrow> u32 \<Rightarrow> u32 \<Rightarrow> nat \<Rightarrow> u32 \<Rightarrow> u32" where
  "CC_GG a b c d x s ac = (let a = a + (md5_G b c d + x + ac); a = rol32 a s in a + b)"

definition CC_HH :: "u32 \<Rightarrow> u32 \<Rightarrow> u32 \<Rightarrow> u32 \<Rightarrow> u32 \<Rightarrow> nat \<Rightarrow> u32 \<Rightarrow> u32" where
  "CC_HH a b c d x s ac = (let a = a + (md5_H b c d + x + ac); a = rol32 a s in a + b)"

definition CC_II :: "u32 \<Rightarrow> u32 \<Rightarrow> u32 \<Rightarrow> u32 \<Rightarrow> u32 \<Rightarrow> nat \<Rightarrow> u32 \<Rightarrow> u32" where
  "CC_II a b c d x s ac = (let a = a + (md5_I b c d + x + ac); a = rol32 a s in a + b)"

definition CC_round1 :: "u32 list \<Rightarrow> md5_vars \<Rightarrow> md5_vars" where
  "CC_round1 x v = (let
     (a, b, c, d) = v;
     a = CC_FF a b c d (x ! 0) 7 3614090360;
     d = CC_FF d a b c (x ! 1) 12 3905402710;
     c = CC_FF c d a b (x ! 2) 17 606105819;
     b = CC_FF b c d a (x ! 3) 22 3250441966;
     a = CC_FF a b c d (x ! 4) 7 4118548399;
     d = CC_FF d a b c (x ! 5) 12 1200080426;
     c = CC_FF c d a b (x ! 6) 17 2821735955;
     b = CC_FF b c d a (x ! 7) 22 4249261313;
     a = CC_FF a b c d (x ! 8) 7 1770035416;
     d = CC_FF d a b c (x ! 9) 12 2336552879;
     c = CC_FF c d a b (x ! 10) 17 4294925233;
     b = CC_FF b c d a (x ! 11) 22 2304563134;
     a = CC_FF a b c d (x ! 12) 7 1804603682;
     d = CC_FF d a b c (x ! 13) 12 4254626195;
     c = CC_FF c d a b (x ! 14) 17 2792965006;
     b = CC_FF b c d a (x ! 15) 22 1236535329
     in (a, b, c, d))"

definition CC_round2 :: "u32 list \<Rightarrow> md5_vars \<Rightarrow> md5_vars" where
  "CC_round2 x v = (let
     (a, b, c, d) = v;
     a = CC_GG a b c d (x ! 1) 5 4129170786;
     d = CC_GG d a b c (x ! 6) 9 3225465664;
     c = CC_GG c d a b (x ! 11) 14 643717713;
     b = CC_GG b c d a (x ! 0) 20 3921069994;
     a = CC_GG a b c d (x ! 5) 5 3593408605;
     d = CC_GG d a b c (x ! 10) 9 38016083;
     c = CC_GG c d a b (x ! 15) 14 3634488961;
     b = CC_GG b c d a (x ! 4) 20 3889429448;
     a = CC_GG a b c d (x ! 9) 5 568446438;
     d = CC_GG d a b c (x ! 14) 9 3275163606;
     c = CC_GG c d a b (x ! 3) 14 4107603335;
     b = CC_GG b c d a (x ! 8) 20 1163531501;
     a = CC_GG a b c d (x ! 13) 5 2850285829;
     d = CC_GG d a b c (x ! 2) 9 4243563512;
     c = CC_GG c d a b (x ! 7) 14 1735328473;
     b = CC_GG b c d a (x ! 12) 20 2368359562
     in (a, b, c, d))"

definition CC_round3 :: "u32 list \<Rightarrow> md5_vars \<Rightarrow> md5_vars" where
  "CC_round3 x v = (let
     (a, b, c, d) = v;
     a = CC_HH a b c d (x ! 5) 4 4294588738;
     d = CC_HH d a b c (x ! 8) 11 2272392833;
     c = CC_HH c d a b (x ! 11) 16 1839030562;
     b = CC_HH b c d a (x ! 14) 23 4259657740;
     a = CC_HH a b c d (x ! 1) 4 2763975236;
     d = CC_HH d a b c (x ! 4) 11 1272893353;
     c = CC_HH c d a b (x ! 7) 16 4139469664;
     b = CC_HH b c d a (x ! 10) 23 3200236656;
     a = CC_HH a b c d (x ! 13) 4 681279174;
     d = CC_HH d a b c (x ! 0) 11 3936430074;
     c = CC_HH c d a b (x ! 3) 16 3572445317;
     b = CC_HH b c d a (x ! 6) 23 76029189;
     a = CC_HH a b c d (x ! 9) 4 3654602809;
     d = CC_HH d a b c (x ! 12) 11 3873151461;
     c = CC_HH c d a b (x ! 15) 16 530742520;
     b = CC_HH b c d a (x ! 2) 23 3299628645
     in (a, b, c, d))"

definition CC_round4 :: "u32 list \<Rightarrow> md5_vars \<Rightarrow> md5_vars" where
  "CC_round4 x v = (let
     (a, b, c, d) = v;
     a = CC_II a b c d (x ! 0) 6 4096336452;
     d = CC_II d a b c (x ! 7) 10 1126891415;
     c = CC_II c d a b (x ! 14) 15 2878612391;
     b = CC_II b c d a (x ! 5) 21 4237533241;
     a = CC_II a b c d (x ! 12) 6 1700485571;
     d = CC_II d a b c (x ! 3) 10 2399980690;
     c = CC_II c d a b (x ! 10) 15 4293915773;
     b = CC_II b c d a (x ! 1) 21 2240044497;
     a = CC_II a b c d (x ! 8) 6 1873313359;
     d = CC_II d a b c (x ! 15) 10 4264355552;
     c = CC_II c d a b (x ! 6) 15 2734768916;
     b = CC_II b c d a (x ! 13) 21 1309151649;
     a = CC_II a b c d (x ! 4) 6 4149444226;
     d = CC_II d a b c (x ! 11) 10 3174756917;
     c = CC_II c d a b (x ! 2) 15 718787259;
     b = CC_II b c d a (x ! 9) 21 3951481745
     in (a, b, c, d))"

definition CC_Transform :: "u32 list \<Rightarrow> u32 list \<Rightarrow> u32 list" where
  "CC_Transform h x = (let
     v = (h ! 0, h ! 1, h ! 2, h ! 3);
     v = CC_round1 x v;
     v = CC_round2 x v;
     v = CC_round3 x v;
     (a, b, c, d) = CC_round4 x v
     in [h ! 0 + a, h ! 1 + b, h ! 2 + c, h ! 3 + d])"

definition CC_MD5Init :: "MD5_CTX \<Rightarrow> MD5_CTX" where
  "CC_MD5Init c = c\<lparr>md_i0 := 0, md_i1 := 0,
     md_buf := [0x67452301, 0xefcdab89, 0x98badcfe, 0x10325476]\<rparr>"

text \<open>One turn of the loop of the update; \<open>mdi\<close> is the position in the open block.\<close>

definition CC_MD5_byte :: "byte \<Rightarrow> MD5_CTX \<times> nat \<Rightarrow> MD5_CTX \<times> nat" where
  "CC_MD5_byte b s = (let
     (c, mdi) = s;
     c = c\<lparr>md_in := (md_in c)[mdi := b]\<rparr>;
     mdi = mdi + 1
     in if mdi = 0x40
        then (c\<lparr>md_buf := CC_Transform (md_buf c) (md5_words (md_in c) 16)\<rparr>, 0)
        else (c, mdi))"

definition md5_mdi :: "MD5_CTX \<Rightarrow> nat" where
  "md5_mdi c = unat (drop_bit 3 (md_i0 c) AND 0x3F)"

definition md5_count :: "u32 \<Rightarrow> MD5_CTX \<Rightarrow> MD5_CTX" where
  "md5_count inLen c = (let
     c = (if md_i0 c + push_bit 3 inLen < md_i0 c then c\<lparr>md_i1 := md_i1 c + 1\<rparr> else c)
     in c\<lparr>md_i0 := md_i0 c + push_bit 3 inLen, md_i1 := md_i1 c + drop_bit 29 inLen\<rparr>)"

definition CC_MD5Update :: "MD5_CTX \<Rightarrow> byte list \<Rightarrow> u32 \<Rightarrow> MD5_CTX option" where
  "CC_MD5Update c inBuf inLen =
     (let mdi = md5_mdi c; c = md5_count inLen c
      in if unat inLen \<le> length inBuf
         then Some (fst (fold CC_MD5_byte (take (unat inLen) inBuf) (c, mdi)))
         else None)"

definition CC_MD5Final :: "MD5_CTX \<Rightarrow> MD5_CTX option" where
  "CC_MD5Final c = (let
     in14 = md_i0 c;
     in15 = md_i1 c;
     mdi = md5_mdi c;
     padLen = (if mdi < 56 then 56 - mdi else 120 - mdi)
     in do {
       c \<leftarrow> CC_MD5Update c md5_PADDING (word_of_nat padLen);
       let c = c\<lparr>md_buf := CC_Transform (md_buf c) (md5_words (md_in c) 14 @ [in14, in15])\<rparr>;
       Some (c\<lparr>md_digest := md5_digest_bytes (md_buf c)\<rparr>)
     })"

section \<open>The digest of the registration code\<close>

text \<open>
  The additive term of each step. \<open>out\<close> is an uninitialised local array; the encryption is
  asked for eight bytes.
\<close>

definition md5_transform_enc1 :: "u32 \<Rightarrow> u32 \<Rightarrow> u32 option" where
  "md5_transform_enc1 k inw = (let
     inbuf =
        [ucast inw, ucast (drop_bit 24 inw), ucast (drop_bit 8 inw), ucast (drop_bit 16 inw),
         ucast (drop_bit 12 inw), ucast (drop_bit 20 inw), ucast (drop_bit 4 inw), ucast (drop_bit 22 inw)];
     out = replicate 32 0;
     key =
        [ucast inw, 0x15, ucast (drop_bit 24 inw), 0xAF,
         ucast (drop_bit 8 inw), 0x5B, ucast (drop_bit 16 inw), 0x2C]
     in do {
       (out, len) \<leftarrow> rtu_des_encrypt out inbuf 8 key;
       if len > 0 then Some (rtu_crc32 inw (take (nat len) out)) else Some k
     })"

definition md5_transform_enc2 :: "u32 \<Rightarrow> u32 \<Rightarrow> u32 option" where
  "md5_transform_enc2 k inw = (let
     inbuf =
        [ucast (drop_bit 20 inw), ucast (drop_bit 4 inw), ucast (drop_bit 24 inw), ucast (drop_bit 12 inw),
         ucast (drop_bit 22 inw), ucast (drop_bit 8 inw), ucast inw, ucast (drop_bit 16 inw)];
     out = replicate 32 0;
     key =
        [0x35, ucast (drop_bit 16 inw), 0x47, ucast (drop_bit 8 inw),
         0xCC, ucast (drop_bit 24 inw), ucast inw, 0xAB]
     in do {
       (out, len) \<leftarrow> rtu_des_encrypt out inbuf 8 key;
       if len > 0 then Some (rtu_crc32 inw (take (nat len) out)) else Some k
     })"

definition md5_transform_enc3 :: "u32 \<Rightarrow> u32 \<Rightarrow> u32 option" where
  "md5_transform_enc3 k inw = (let
     inbuf =
        [ucast inw, ucast (drop_bit 16 inw), ucast (drop_bit 12 inw), ucast (drop_bit 20 inw),
         ucast (drop_bit 24 inw), ucast (drop_bit 8 inw), ucast (drop_bit 4 inw), ucast (drop_bit 22 inw)];
     out = replicate 32 0;
     key =
        [ucast inw, 0x15, ucast (drop_bit 24 inw), 0xAF,
         ucast (drop_bit 8 inw), 0x5B, ucast (drop_bit 16 inw), 0x2C]
     in do {
       (out, len) \<leftarrow> rtu_des_encrypt out inbuf 8 key;
       if len > 0 then Some (rtu_ncrc32 inw (take (nat len) out)) else Some k
     })"

definition md5_transform_enc4 :: "u32 \<Rightarrow> u32 \<Rightarrow> u32 option" where
  "md5_transform_enc4 k inw = (let
     inbuf =
        [ucast (drop_bit 8 inw), ucast (drop_bit 20 inw), ucast inw, ucast (drop_bit 24 inw),
         ucast (drop_bit 4 inw), ucast (drop_bit 16 inw), ucast (drop_bit 12 inw), ucast (drop_bit 22 inw)];
     out = replicate 32 0;
     key =
        [0x35, ucast (drop_bit 16 inw), 0x47, ucast (drop_bit 8 inw),
         0xCC, ucast (drop_bit 24 inw), ucast inw, 0xAB]
     in do {
       (out, len) \<leftarrow> rtu_des_encrypt out inbuf 8 key;
       if len > 0 then Some (rtu_ncrc32 inw (take (nat len) out)) else Some k
     })"

definition rtu_FF :: "u32 \<Rightarrow> u32 \<Rightarrow> u32 \<Rightarrow> u32 \<Rightarrow> u32 \<Rightarrow> nat \<Rightarrow> u32 \<Rightarrow> u32 option" where
  "rtu_FF a b c d x s ac = do {
     k \<leftarrow> md5_transform_enc1 ac x;
     let a = a + (md5_F b c d + x + k);
     let a = rol32 a s;
     Some (a + b)}"

definition rtu_GG :: "u32 \<Rightarrow> u32 \<Rightarrow> u32 \<Rightarrow> u32 \<Rightarrow> u32 \<Rightarrow> nat \<Rightarrow> u32 \<Rightarrow> u32 option" where
  "rtu_GG a b c d x s ac = do {
     k \<leftarrow> md5_transform_enc3 ac x;
     let a = a + (md5_G b c d + x + k);
     let a = rol32 a s;
     Some (a + b)}"

definition rtu_HH :: "u32 \<Rightarrow> u32 \<Rightarrow> u32 \<Rightarrow> u32 \<Rightarrow> u32 \<Rightarrow> nat \<Rightarrow> u32 \<Rightarrow> u32 option" where
  "rtu_HH a b c d x s ac = do {
     k \<leftarrow> md5_transform_enc4 ac x;
     let a = a + (md5_H b c d + x + k);
     let a = rol32 a s;
     Some (a + b)}"

definition rtu_II :: "u32 \<Rightarrow> u32 \<Rightarrow> u32 \<Rightarrow> u32 \<Rightarrow> u32 \<Rightarrow> nat \<Rightarrow> u32 \<Rightarrow> u32 option" where
  "rtu_II a b c d x s ac = do {
     k \<leftarrow> md5_transform_enc2 ac x;
     let a = a + (md5_I b c d + x + k);
     let a = rol32 a s;
     Some (a + b)}"

definition rtu_round1 :: "u32 list \<Rightarrow> md5_vars \<Rightarrow> md5_vars option" where
  "rtu_round1 x v = (case v of (a, b, c, d) \<Rightarrow> do {
     a \<leftarrow> rtu_FF a b c d (x ! 0) 7 3614090360;
     d \<leftarrow> rtu_FF d a b c (x ! 1) 12 3905402710;
     c \<leftarrow> rtu_FF c d a b (x ! 2) 17 606105819;
     b \<leftarrow> rtu_FF b c d a (x ! 3) 22 3250441966;
     a \<leftarrow> rtu_FF a b c d (x ! 4) 7 4118548399;
     d \<leftarrow> rtu_FF d a b c (x ! 5) 12 1200080426;
     c \<leftarrow> rtu_FF c d a b (x ! 6) 17 2821735955;
     b \<leftarrow> rtu_FF b c d a (x ! 7) 22 4249261313;
     a \<leftarrow> rtu_FF a b c d (x ! 8) 7 1770035416;
     d \<leftarrow> rtu_FF d a b c (x ! 9) 12 2336552879;
     c \<leftarrow> rtu_FF c d a b (x ! 10) 17 4294925233;
     b \<leftarrow> rtu_FF b c d a (x ! 11) 22 2304563134;
     a \<leftarrow> rtu_FF a b c d (x ! 12) 7 1804603682;
     d \<leftarrow> rtu_FF d a b c (x ! 13) 12 4254626195;
     c \<leftarrow> rtu_FF c d a b (x ! 14) 17 2792965006;
     b \<leftarrow> rtu_FF b c d a (x ! 15) 22 1236535329;
     Some (a, b, c, d)})"

definition rtu_round2 :: "u32 list \<Rightarrow> md5_vars \<Rightarrow> md5_vars option" where
  "rtu_round2 x v = (case v of (a, b, c, d) \<Rightarrow> do {
     a \<leftarrow> rtu_GG a b c d (x ! 1) 5 4129170786;
     d \<leftarrow> rtu_GG d a b c (x ! 6) 9 3225465664;
     c \<leftarrow> rtu_GG c d a b (x ! 11) 14 643717713;
     b \<leftarrow> rtu_GG b c d a (x ! 0) 20 3921069994;
     a \<leftarrow> rtu_GG a b c d (x ! 5) 5 3593408605;
     d \<leftarrow> rtu_GG d a b c (x ! 10) 9 38016083;
     c \<leftarrow> rtu_GG c d a b (x ! 15) 14 3634488961;
     b \<leftarrow> rtu_GG b c d a (x ! 4) 20 3889429448;
     a \<leftarrow> rtu_GG a b c d (x ! 9) 5 568446438;
     d \<leftarrow> rtu_GG d a b c (x ! 14) 9 3275163606;
     c \<leftarrow> rtu_GG c d a b (x ! 3) 14 4107603335;
     b \<leftarrow> rtu_GG b c d a (x ! 8) 20 1163531501;
     a \<leftarrow> rtu_GG a b c d (x ! 13) 5 2850285829;
     d \<leftarrow> rtu_GG d a b c (x ! 2) 9 4243563512;
     c \<leftarrow> rtu_GG c d a b (x ! 7) 14 1735328473;
     b \<leftarrow> rtu_GG b c d a (x ! 12) 20 2368359562;
     Some (a, b, c, d)})"

definition rtu_round3 :: "u32 list \<Rightarrow> md5_vars \<Rightarrow> md5_vars option" where
  "rtu_round3 x v = (case v of (a, b, c, d) \<Rightarrow> do {
     a \<leftarrow> rtu_HH a b c d (x ! 5) 4 4294588738;
     d \<leftarrow> rtu_HH d a b c (x ! 8) 11 2272392833;
     c \<leftarrow> rtu_HH c d a b (x ! 11) 16 1839030562;
     b \<leftarrow> rtu_HH b c d a (x ! 14) 23 4259657740;
     a \<leftarrow> rtu_HH a b c d (x ! 1) 4 2763975236;
     d \<leftarrow> rtu_HH d a b c (x ! 4) 11 1272893353;
     c \<leftarrow> rtu_HH c d a b (x ! 7) 16 4139469664;
     b \<leftarrow> rtu_HH b c d a (x ! 10) 23 3200236656;
     a \<leftarrow> rtu_HH a b c d (x ! 13) 4 681279174;
     d \<leftarrow> rtu_HH d a b c (x ! 0) 11 3936430074;
     c \<leftarrow> rtu_HH c d a b (x ! 3) 16 3572445317;
     b \<leftarrow> rtu_HH b c d a (x ! 6) 23 76029189;
     a \<leftarrow> rtu_HH a b c d (x ! 9) 4 3654602809;
     d \<leftarrow> rtu_HH d a b c (x ! 12) 11 3873151461;
     c \<leftarrow> rtu_HH c d a b (x ! 15) 16 530742520;
     b \<leftarrow> rtu_HH b c d a (x ! 2) 23 3299628645;
     Some (a, b, c, d)})"

definition rtu_round4 :: "u32 list \<Rightarrow> md5_vars \<Rightarrow> md5_vars option" where
  "rtu_round4 x v = (case v of (a, b, c, d) \<Rightarrow> do {
     a \<leftarrow> rtu_II a b c d (x ! 0) 6 4096336452;
     d \<leftarrow> rtu_II d a b c (x ! 7) 10 1126891415;
     c \<leftarrow> rtu_II c d a b (x ! 14) 15 2878612391;
     b \<leftarrow> rtu_II b c d a (x ! 5) 21 4237533241;
     a \<leftarrow> rtu_II a b c d (x ! 12) 6 1700485571;
     d \<leftarrow> rtu_II d a b c (x ! 3) 10 2399980690;
     c \<leftarrow> rtu_II c d a b (x ! 10) 15 4293915773;
     b \<leftarrow> rtu_II b c d a (x ! 1) 21 2240044497;
     a \<leftarrow> rtu_II a b c d (x ! 8) 6 1873313359;
     d \<leftarrow> rtu_II d a b c (x ! 15) 10 4264355552;
     c \<leftarrow> rtu_II c d a b (x ! 6) 15 2734768916;
     b \<leftarrow> rtu_II b c d a (x ! 13) 21 1309151649;
     a \<leftarrow> rtu_II a b c d (x ! 4) 6 4149444226;
     d \<leftarrow> rtu_II d a b c (x ! 11) 10 3174756917;
     c \<leftarrow> rtu_II c d a b (x ! 2) 15 718787259;
     b \<leftarrow> rtu_II b c d a (x ! 9) 21 3951481745;
     Some (a, b, c, d)})"

definition rtu_Transform :: "u32 list \<Rightarrow> u32 list \<Rightarrow> u32 list option" where
  "rtu_Transform h x = do {
     let v = (h ! 0, h ! 1, h ! 2, h ! 3);
     v \<leftarrow> rtu_round1 x v;
     v \<leftarrow> rtu_round2 x v;
     v \<leftarrow> rtu_round3 x v;
     (a, b, c, d) \<leftarrow> rtu_round4 x v;
     Some [h ! 0 + a, h ! 1 + b, h ! 2 + c, h ! 3 + d]}"

definition rtu_MD5Init :: "MD5_CTX \<Rightarrow> MD5_CTX" where
  "rtu_MD5Init c = c\<lparr>md_i0 := 0, md_i1 := 0,
     md_buf := [0x67452301, 0xefcdab89, 0x98badcfe, 0x10325476]\<rparr>"

fun rtu_MD5_loop :: "byte list \<Rightarrow> MD5_CTX \<Rightarrow> nat \<Rightarrow> MD5_CTX option" where
  "rtu_MD5_loop [] c mdi = Some c"
| "rtu_MD5_loop (b # bs) c mdi = do {
     let c = c\<lparr>md_in := (md_in c)[mdi := b]\<rparr>;
     let mdi = mdi + 1;
     if mdi = 0x40
     then do {
       h \<leftarrow> rtu_Transform (md_buf c) (md5_words (md_in c) 16);
       rtu_MD5_loop bs (c\<lparr>md_buf := h\<rparr>) 0 }
     else rtu_MD5_loop bs c mdi }"

definition rtu_MD5Update :: "MD5_CTX \<Rightarrow> byte list \<Rightarrow> u32 \<Rightarrow> MD5_CTX option" where
  "rtu_MD5Update c inBuf inLen =
     (let mdi = md5_mdi c; c = md5_count inLen c
      in if unat inLen \<le> length inBuf
         then rtu_MD5_loop (take (unat inLen) inBuf) c mdi
         else None)"

definition rtu_MD5Final :: "MD5_CTX \<Rightarrow> MD5_CTX option" where
  "rtu_MD5Final c = (let
     in14 = md_i0 c;
     in15 = md_i1 c;
     mdi = md5_mdi c;
     padLen = (if mdi < 56 then 56 - mdi else 120 - mdi)
     in do {
       c \<leftarrow> rtu_MD5Update c md5_PADDING (word_of_nat padLen);
       h \<leftarrow> rtu_Transform (md_buf c) (md5_words (md_in c) 14 @ [in14, in15]);
       let c = c\<lparr>md_buf := h\<rparr>;
       Some (c\<lparr>md_digest := md5_digest_bytes (md_buf c)\<rparr>)
     })"

section \<open>The two copies agree\<close>

text \<open>The encryption of one block returns 0, so the constant is never replaced.\<close>

lemma md5_transform_enc:
  "md5_transform_enc1 k x = Some k" "md5_transform_enc2 k x = Some k"
  "md5_transform_enc3 k x = Some k" "md5_transform_enc4 k x = Some k"
proof -
  have "\<exists>out'. rtu_des_encrypt (replicate 32 0) [a, b, c, d, e, f, g, h] 8 key = Some (out', 0)"
    for a b c d e f g h key
    by (simp add: rtu_des_encrypt_result des_turns_def)
  then show "md5_transform_enc1 k x = Some k" "md5_transform_enc2 k x = Some k"
    "md5_transform_enc3 k x = Some k" "md5_transform_enc4 k x = Some k"
    by (simp_all add: md5_transform_enc1_def md5_transform_enc2_def md5_transform_enc3_def
        md5_transform_enc4_def Let_def split: bind_splits)
       (metis option.inject prod.inject order_less_irrefl)+
qed

lemma rtu_steps:
  "rtu_FF a b c d x s ac = Some (CC_FF a b c d x s ac)"
  "rtu_GG a b c d x s ac = Some (CC_GG a b c d x s ac)"
  "rtu_HH a b c d x s ac = Some (CC_HH a b c d x s ac)"
  "rtu_II a b c d x s ac = Some (CC_II a b c d x s ac)"
  by (simp_all add: rtu_FF_def rtu_GG_def rtu_HH_def rtu_II_def CC_FF_def CC_GG_def CC_HH_def
      CC_II_def md5_transform_enc Let_def)

lemma Some_let: "Some (Let e f) = Option.bind (Some e) (\<lambda>x. Some (f x))"
  by simp

lemma rtu_rounds:
  "rtu_round1 x v = Some (CC_round1 x v)" "rtu_round2 x v = Some (CC_round2 x v)"
  "rtu_round3 x v = Some (CC_round3 x v)" "rtu_round4 x v = Some (CC_round4 x v)"
  by (cases v, simp only: rtu_round1_def CC_round1_def rtu_round2_def CC_round2_def rtu_round3_def
      CC_round3_def rtu_round4_def CC_round4_def rtu_steps prod.case Let_def [of "(_, _, _, _)"]
      Some_let)+

lemma rtu_Transform_eq: "rtu_Transform h x = Some (CC_Transform h x)"
  by (simp add: rtu_Transform_def CC_Transform_def rtu_rounds Let_def split: prod.splits)

lemma rtu_MD5_loop_eq: "rtu_MD5_loop bs c mdi = Some (fst (fold CC_MD5_byte bs (c, mdi)))"
  by (induction bs c mdi rule: rtu_MD5_loop.induct)
    (simp_all add: rtu_Transform_eq CC_MD5_byte_def Let_def)

lemma rtu_MD5_eq:
  "rtu_MD5Init c = CC_MD5Init c" "rtu_MD5Update c b n = CC_MD5Update c b n"
  "rtu_MD5Final c = CC_MD5Final c"
proof -
  show upd: "rtu_MD5Update c b n = CC_MD5Update c b n" for c b n
    by (simp add: rtu_MD5Update_def CC_MD5Update_def rtu_MD5_loop_eq)
  show "rtu_MD5Init c = CC_MD5Init c" by (simp add: rtu_MD5Init_def CC_MD5Init_def)
  show "rtu_MD5Final c = CC_MD5Final c"
    by (simp add: rtu_MD5Final_def CC_MD5Final_def upd rtu_Transform_eq)
qed

section \<open>The reference digest\<close>

definition md5_compress :: "u32 list \<Rightarrow> byte list \<Rightarrow> u32 list" where
  "md5_compress h block = CC_Transform h (md5_words block 16)"

definition md5_iv :: "u32 list" where
  "md5_iv = [0x67452301, 0xefcdab89, 0x98badcfe, 0x10325476]"

text \<open>
  The text, a byte 0x80, zeros up to eight bytes before the end of a block, and the number of
  bits modulo \<open>2 ^ 64\<close>, low word first.
\<close>

definition md5_pad :: "byte list \<Rightarrow> byte list" where
  "md5_pad m = m @ [0x80] @ replicate ((119 - length m mod 64) mod 64) 0
     @ bytes_le32 (word_of_nat (8 * length m)) @ bytes_le32 (word_of_nat (8 * length m div 2 ^ 32))"

definition md5 :: "byte list \<Rightarrow> byte list" where
  "md5 m = concat (map bytes_le32 (hash_blocks md5_compress md5_iv (md5_pad m)))"

section \<open>The implementation refines the reference\<close>

definition md5_ok :: "MD5_CTX \<times> nat \<Rightarrow> bool" where
  "md5_ok s = (snd s < 64 \<and> length (md_in (fst s)) = 64)"

definition md5_pending :: "MD5_CTX \<times> nat \<Rightarrow> byte list" where
  "md5_pending s = take (snd s) (md_in (fst s))"

lemma take_update_Suc: "i < length xs \<Longrightarrow> take (Suc i) (xs[i := b]) = take i xs @ [b]"
  by (simp add: take_Suc_conv_app_nth)

interpretation md5: block_buffer md5_compress md5_ok "\<lambda>s. md_buf (fst s)" md5_pending CC_MD5_byte
proof unfold_locales
  fix s :: "MD5_CTX \<times> nat" and b
  obtain c mdi where s: "s = (c, mdi)" by fastforce
  assume ok: "md5_ok s"
  then show "md5_ok (CC_MD5_byte b s)"
    by (auto simp: md5_ok_def CC_MD5_byte_def Let_def s)
  show "length (md5_pending s) < 64"
    using ok by (simp add: md5_ok_def md5_pending_def)
  show "md_buf (fst (CC_MD5_byte b s)) = md_buf (fst s) \<and>
      md5_pending (CC_MD5_byte b s) = md5_pending s @ [b]" if "length (md5_pending s) < 63"
    using ok that by (auto simp: md5_ok_def md5_pending_def CC_MD5_byte_def Let_def s
        take_update_Suc)
  show "md_buf (fst (CC_MD5_byte b s)) = md5_compress (md_buf (fst s)) (md5_pending s @ [b]) \<and>
      md5_pending (CC_MD5_byte b s) = []" if "length (md5_pending s) = 63"
  proof -
    have "mdi = 63" "length (md_in c) = 64"
      using ok that by (auto simp: md5_ok_def md5_pending_def s)
    moreover from this have "(md_in c)[63 := b] = take 63 (md_in c) @ [b]"
      using take_update_Suc [of 63 "md_in c" b] by simp
    ultimately show ?thesis
      by (simp add: CC_MD5_byte_def s Let_def md5_pending_def md5_compress_def)
  qed
qed

text \<open>A context that has taken the text \<open>m\<close>.\<close>

definition md5_holds :: "byte list \<Rightarrow> MD5_CTX \<Rightarrow> bool" where
  "md5_holds m c = (md5.holds md5_iv m (c, length m mod 64)
     \<and> md_i0 c = word_of_nat (8 * length m)
     \<and> md_i1 c = word_of_nat (8 * length m div 2 ^ 32))"

lemma md5_mdi_length:
  assumes "md_i0 c = word_of_nat (8 * n)"
  shows "md5_mdi c = n mod 64"
proof -
  have "unat (drop_bit 3 (md_i0 c)) = n mod 2 ^ 29"
    using mod_mult2_eq [of "8 * n" 8 "2 ^ 29"]
    by (subst unat_drop_bit_eq) (simp add: assms unat_of_nat drop_bit_eq_div del: of_nat_mult)
  then have "unat (drop_bit 3 (md_i0 c)) mod 64 = n mod 64"
    by (simp add: mod_mod_cancel)
  moreover have "unat (w AND 0x3F) = unat w mod 64" for w :: u32
  proof -
    have "(0x3F :: u32) = mask 6" by (simp add: mask_eq_exp_minus_1)
    then have "w AND 0x3F = take_bit 6 w" by (simp only: take_bit_eq_mask)
    then show ?thesis by (simp add: unsigned_take_bit_eq take_bit_nat_def)
  qed
  ultimately show ?thesis by (simp add: md5_mdi_def)
qed

text \<open>The two words of the count are those of the 64-bit number.\<close>

lemma md5_count_length:
  assumes i0: "md_i0 c = word_of_nat (8 * n)" and i1: "md_i1 c = word_of_nat (8 * n div 2 ^ 32)"
  shows "md5_count k c = c\<lparr>md_i0 := word_of_nat (8 * (n + unat k)),
    md_i1 := word_of_nat (8 * (n + unat k) div 2 ^ 32)\<rparr>"
proof -
  define A where "A = 8 * n"
  define B where "B = 8 * unat k"
  have shift: "push_bit 3 k = word_of_nat B" by (simp add: push_bit_eq_mult B_def)
  have hi: "drop_bit 29 k = word_of_nat (B div 2 ^ 32)"
  proof -
    have "B div 2 ^ 32 = unat k div 2 ^ 29"
      unfolding B_def using div_mult2_eq [of "8 * unat k" 8 "2 ^ 29"] by simp
    moreover have "unat (drop_bit 29 k) = unat k div 2 ^ 29"
      by (subst unat_drop_bit_eq) (simp add: drop_bit_eq_div)
    moreover have "word_of_nat (unat w) = w" for w :: u32 by simp
    ultimately show ?thesis by metis
  qed
  have carry: "(md_i0 c + push_bit 3 k < md_i0 c) = (2 ^ 32 \<le> A mod 2 ^ 32 + B mod 2 ^ 32)"
    unfolding word_add_carry shift i0 A_def [symmetric] by (simp add: unat_of_nat)
  have lo: "md_i0 c + push_bit 3 k = word_of_nat (A + B)" by (simp add: shift i0 A_def)
  have sum: "(A + B) div 2 ^ 32 = A div 2 ^ 32 + B div 2 ^ 32
      + (if 2 ^ 32 \<le> A mod 2 ^ 32 + B mod 2 ^ 32 then 1 else 0)"
    using mod_less_divisor [of "2 ^ 32" A] mod_less_divisor [of "2 ^ 32" B]
    by (subst div_add1_eq) (auto simp: div_if)
  have hi_sum: "word_of_nat ((A + B) div 2 ^ 32) =
      md_i1 c + drop_bit 29 k + (if md_i0 c + push_bit 3 k < md_i0 c then 1 else 0)"
    unfolding carry sum hi i1 A_def [symmetric] by simp
  have total: "8 * (n + unat k) = A + B" by (simp add: A_def B_def)
  show ?thesis
    unfolding total md5_count_def Let_def lo [symmetric] hi_sum
    by (cases "md_i0 c + push_bit 3 k < md_i0 c") (simp_all add: algebra_simps)
qed

lemma md5_start: "length (md_in c) = 64 \<Longrightarrow> md5_holds [] (CC_MD5Init c)"
  by (simp add: md5_holds_def md5.holds_def CC_MD5Init_def md5_ok_def md5_pending_def md5_iv_def)

lemma md5_byte_keeps:
  "md_i0 (fst (fold CC_MD5_byte xs s)) = md_i0 (fst s) \<and> md_i1 (fst (fold CC_MD5_byte xs s)) = md_i1 (fst s)"
  by (induction xs arbitrary: s) (simp_all add: CC_MD5_byte_def Let_def split: prod.splits)

lemma md5_byte_mdi:
  "snd s < 64 \<Longrightarrow> snd (fold CC_MD5_byte xs s) = (snd s + length xs) mod 64"
proof (induction xs arbitrary: s)
  case (Cons x xs)
  have "snd (CC_MD5_byte x s) = (snd s + 1) mod 64"
    using Cons.prems by (auto simp: CC_MD5_byte_def Let_def split: prod.splits)
  then show ?case using Cons.IH [of "CC_MD5_byte x s"] by (simp add: mod_simps)
qed simp

lemma md5_update:
  assumes holds: "md5_holds m c" and len: "length x = unat k"
  shows "\<exists>c'. CC_MD5Update c (x @ rest) k = Some c' \<and> md5_holds (m @ x) c'"
proof -
  define s where "s = (md5_count k c, length m mod 64)"
  have cnt: "fst s = c\<lparr>md_i0 := word_of_nat (8 * (length m + unat k)),
      md_i1 := word_of_nat (8 * (length m + unat k) div 2 ^ 32)\<rparr>"
    using holds unfolding s_def md5_holds_def by (simp add: md5_count_length)
  have "md5.holds md5_iv m s"
    using holds cnt unfolding md5_holds_def md5.holds_def
    by (simp add: md5_ok_def md5_pending_def s_def)
  then have h: "md5.holds md5_iv (m @ x) (fold CC_MD5_byte x s)" by (rule md5.holds_fold)
  define t where "t = fold CC_MD5_byte x s"
  have "snd t = length (m @ x) mod 64"
    using md5_byte_mdi [of s x] by (simp add: t_def s_def mod_simps)
  then have "md5_holds (m @ x) (fst t)"
    using h md5_byte_keeps [of x s] cnt len
    unfolding md5_holds_def t_def [symmetric] by (cases t) simp
  moreover have "CC_MD5Update c (x @ rest) k = Some (fst t)"
    using holds len by (simp add: CC_MD5Update_def md5_holds_def md5_mdi_length t_def s_def)
  ultimately show ?thesis by blast
qed

section \<open>The final call\<close>

lemma md5_word_le32: "push_bit 24 (ucast d) OR push_bit 16 (ucast c) OR push_bit 8 (ucast b) OR ucast a = le32 a b c d"
  by (simp add: le32_def or.assoc or.commute or.left_commute)

text \<open>The last block as the code assembles it: 14 words of the buffer and the two counts.\<close>

lemma md5_words_last:
  assumes "length inb = 64"
  shows "md5_words (take 56 inb @ bytes_le32 u @ bytes_le32 v) 16 = md5_words inb 14 @ [u, v]"
proof -
  define bs where "bs = take 56 inb @ bytes_le32 u @ bytes_le32 v"
  have "[0..<16] = [0..<14] @ [14, 15]" by (simp add: upt_rec)
  then have "md5_words bs 16 = md5_words bs 14 @
      [le32 (bs ! 56) (bs ! 57) (bs ! 58) (bs ! 59), le32 (bs ! 60) (bs ! 61) (bs ! 62) (bs ! 63)]"
    by (simp add: md5_words_def Let_def md5_word_le32)
  moreover have "md5_words bs 14 = md5_words inb 14"
    using assms by (simp add: md5_words_def bs_def Let_def nth_append)
  moreover have "le32 (bs ! 56) (bs ! 57) (bs ! 58) (bs ! 59) = u"
    "le32 (bs ! 60) (bs ! 61) (bs ! 62) (bs ! 63) = v"
    using assms by (simp_all add: bs_def nth_append bytes_le32_def le32_bytes_le32)
  ultimately show ?thesis by (simp add: bs_def)
qed

lemma ucast_byte: "ucast (w AND 0xFF :: u32) = (ucast w :: byte)"
proof -
  have "(0xFF :: u32) = mask 8" by (simp add: mask_eq_exp_minus_1)
  then have "w AND 0xFF = take_bit 8 w" by (simp only: take_bit_eq_mask)
  then show ?thesis by (auto intro: bit_word_eqI simp: bit_simps)
qed

lemma md5_digest_bytes: "length h = 4 \<Longrightarrow> md5_digest_bytes h = concat (map bytes_le32 h)"
  by (simp add: md5_digest_bytes_def ucast_byte bytes_le32_def [abs_def])

lemma length_CC_Transform [simp]: "length (CC_Transform h x) = 4"
  by (simp add: CC_Transform_def Let_def split: prod.splits)

lemma md5_final:
  assumes holds: "md5_holds m c"
  shows "\<exists>c'. CC_MD5Final c = Some c' \<and> md_digest c' = md5 m"
proof -
  define r where "r = length m mod 64"
  define p where "p = (if r < 56 then 56 - r else 120 - r)"
  define x where "x = take p md5_PADDING"
  have r: "r < 64" "md5_mdi c = r"
    using holds by (simp_all add: r_def md5_holds_def md5_mdi_length)
  have p: "1 \<le> p" "p \<le> 64" "p - 1 = (119 - r) mod 64" "(r + p) mod 64 = 56"
    using r(1) by (auto simp: p_def le_mod_geq)
  have x: "x = 0x80 # replicate ((119 - r) mod 64) 0" "length x = p"
    using p by (cases p; simp add: x_def md5_PADDING_def min_def)+
  have k: "unat (word_of_nat p :: u32) = p" using p by (simp add: unat_of_nat)
  obtain d where upd: "CC_MD5Update c md5_PADDING (word_of_nat p) = Some d"
    and d: "md5_holds (m @ x) d"
    using md5_update [OF holds, of x "word_of_nat p" "drop p md5_PADDING"] x(2) k
    by (auto simp: x_def)
  have len: "length (m @ x) mod 64 = 56"
    using p(4) x(2) by (simp add: r_def mod_simps)
  then have pend: "take 56 (md_in d) = hash_rest (m @ x)" "length (md_in d) = 64"
    and buf: "md_buf d = hash_blocks md5_compress md5_iv (m @ x)"
    using d by (simp_all add: md5_holds_def md5.holds_def md5_ok_def md5_pending_def)
  define tl8 where "tl8 = bytes_le32 (md_i0 c) @ bytes_le32 (md_i1 c)"
  have "md5_pad m = (m @ x) @ tl8"
    using holds by (simp add: md5_pad_def x tl8_def md5_holds_def r_def)
  moreover have "hash_blocks md5_compress md5_iv ((m @ x) @ tl8) =
      CC_Transform (md_buf d) (md5_words (md_in d) 14 @ [md_i0 c, md_i1 c])"
    using len pend by (subst hash_blocks_fill)
      (simp_all add: length_hash_rest tl8_def md5_compress_def buf flip: md5_words_last)
  ultimately have "md5 m = md5_digest_bytes
      (CC_Transform (md_buf d) (md5_words (md_in d) 14 @ [md_i0 c, md_i1 c]))"
    by (simp add: md5_def md5_digest_bytes)
  then show ?thesis
    by (simp add: CC_MD5Final_def Let_def r(2) p_def [symmetric] upd)
qed

text \<open>A sequence of updates.\<close>

fun CC_MD5_updates :: "MD5_CTX \<Rightarrow> byte list list \<Rightarrow> MD5_CTX option" where
  "CC_MD5_updates c [] = Some c"
| "CC_MD5_updates c (x # xs) = do {
     c \<leftarrow> CC_MD5Update c x (word_of_nat (length x));
     CC_MD5_updates c xs }"

lemma md5_updates:
  "md5_holds m c \<Longrightarrow> \<forall>x \<in> set xss. length x < 2 ^ 32 \<Longrightarrow>
   \<exists>c'. CC_MD5_updates c xss = Some c' \<and> md5_holds (m @ concat xss) c'"
proof (induction xss arbitrary: m c)
  case (Cons x xss)
  have "length x = unat (word_of_nat (length x) :: u32)"
    using Cons.prems(2) by (simp add: unat_of_nat)
  from md5_update [OF Cons.prems(1) this, of "[]"] obtain d
    where "CC_MD5Update c x (word_of_nat (length x)) = Some d" "md5_holds (m @ x) d" by auto
  with Cons.IH [of "m @ x" d] Cons.prems(2) show ?case by simp
qed simp

section \<open>A published example\<close>

definition md5_example_block :: "u32 list" where
  "md5_example_block = [0x80636261, 0, 0, 0, 0, 0, 0, 0, 0, 0, 0, 0, 0, 0, 24, 0]"

lemma md5_steps:
  "CC_FF a b c d x s ac = rol32 (a + (md5_F b c d + x + ac)) s + b"
  "CC_GG a b c d x s ac = rol32 (a + (md5_G b c d + x + ac)) s + b"
  "CC_HH a b c d x s ac = rol32 (a + (md5_H b c d + x + ac)) s + b"
  "CC_II a b c d x s ac = rol32 (a + (md5_I b c d + x + ac)) s + b"
  by (simp_all add: CC_FF_def CC_GG_def CC_HH_def CC_II_def)

lemma md5_example_round1: "CC_round1 md5_example_block (0x67452301, 0xEFCDAB89, 0x98BADCFE, 0x10325476) =
   (0xDDA9B9A6, 0x72AFF2E0, 0xE396856B, 0xA1051895)"
  by (simp only: CC_round1_def Let_def [of "(_, _, _, _)"] prod.case)
    (simp add: md5_example_block_def md5_F_def md5_steps rol32_def cong: let_weak_cong)

lemma md5_example_round2: "CC_round2 md5_example_block (0xDDA9B9A6, 0x72AFF2E0, 0xE396856B, 0xA1051895) =
   (0x790A77FB, 0x726342D3, 0xA62884AA, 0x9F47E4F8)"
  by (simp only: CC_round2_def Let_def [of "(_, _, _, _)"] prod.case)
    (simp add: md5_example_block_def md5_G_def md5_steps rol32_def cong: let_weak_cong)

lemma md5_example_round3: "CC_round3 md5_example_block (0x790A77FB, 0x726342D3, 0xA62884AA, 0x9F47E4F8) =
   (0x7F2E507B, 0x7BEB9700, 0x8FAE6399, 0x99D9679D)"
  by (simp only: CC_round3_def Let_def [of "(_, _, _, _)"] prod.case)
    (simp add: md5_example_block_def md5_H_def md5_steps rol32_def cong: let_weak_cong)

lemma md5_example_round4: "CC_round4 md5_example_block (0x7F2E507B, 0x7BEB9700, 0x8FAE6399, 0x99D9679D) =
   (0x310ADE8F, 0xC08226B3, 0xE484B9D8, 0x624D8CB2)"
  by (simp only: CC_round4_def Let_def [of "(_, _, _, _)"] prod.case)
    (simp add: md5_example_block_def md5_I_def md5_steps rol32_def cong: let_weak_cong)

lemma md5_example: "md5 [0x61, 0x62, 0x63] =
  [0x90, 0x01, 0x50, 0x98, 0x3c, 0xd2, 0x4f, 0xb0, 0xd6, 0x96, 0x3f, 0x7d, 0x28, 0xe1, 0x7f, 0x72]"
proof -
  define block where "block = md5_pad [0x61, 0x62, 0x63]"
  have "block = [0x61, 0x62, 0x63, 0x80] @ replicate 52 0 @ [24, 0, 0, 0, 0, 0, 0, 0]"
    unfolding block_def by (simp add: md5_pad_def bytes_le32_def)
  then have bytes: "block = [0x61, 0x62, 0x63, 0x80, 0, 0, 0, 0, 0, 0, 0, 0, 0, 0, 0, 0, 0, 0, 0, 0, 0, 0, 0, 0, 0, 0, 0, 0, 0, 0, 0, 0, 0, 0, 0, 0, 0, 0, 0, 0, 0, 0, 0, 0, 0, 0, 0, 0, 0, 0, 0, 0, 0, 0, 0, 0,
      24, 0, 0, 0, 0, 0, 0, 0]"
    by (simp add: numeral_eq_Suc)
  have index: "[0..<16] = [0, 1, 2, 3, 4, 5, 6, 7, 8, 9, 10, 11, 12, 13, 14, 15]"
    by (simp add: upt_rec)
  have block: "length block = 64" "md5_words block 16 = md5_example_block"
    unfolding bytes by (simp_all add: md5_words_def md5_example_block_def index Let_def)
  have "CC_Transform md5_iv md5_example_block =
      [0x98500190, 0xB04FD23C, 0x7D3F96D6, 0x727FE128]"
    by (simp add: CC_Transform_def md5_iv_def Let_def md5_example_round1 md5_example_round2
        md5_example_round3 md5_example_round4)
  with block show ?thesis
    by (simp add: md5_def block_def [symmetric] hash_whole md5_compress_def bytes_le32_def)
qed

section \<open>Properties\<close>

text \<open>
  C28. However a text is cut into updates (none as long as \<open>2 ^ 32\<close> bytes), from any context
  the digest after the final call is the MD5 of the whole text: the chaining of the
  compression over the text padded with its bit count modulo \<open>2 ^ 64\<close>. No call reads outside
  its buffer.
\<close>

theorem md5_of_segments:
  assumes "length (md_in c0) = 64" "\<forall>x \<in> set xss. length x < 2 ^ 32"
  shows "\<exists>c c'. CC_MD5_updates (CC_MD5Init c0) xss = Some c \<and> CC_MD5Final c = Some c'
    \<and> md_digest c' = md5 (concat xss)"
  using md5_updates [OF md5_start [OF assms(1)] assms(2)] md5_final by fastforce

theorem md5_of_segments_witness:
  "\<exists>c c'. CC_MD5_updates (CC_MD5Init \<lparr>md_i0 = 7, md_i1 = 7, md_buf = [], md_in = replicate 64 1,
      md_digest = []\<rparr>) [[0x61], [], [0x62, 0x63]] = Some c \<and> CC_MD5Final c = Some c'
    \<and> md_digest c' = [0x90, 0x01, 0x50, 0x98, 0x3c, 0xd2, 0x4f, 0xb0, 0xd6, 0x96, 0x3f, 0x7d, 0x28, 0xe1, 0x7f, 0x72]"
  using md5_of_segments [of "\<lparr>md_i0 = 7, md_i1 = 7, md_buf = [], md_in = replicate 64 1,
      md_digest = []\<rparr>" "[[0x61], [], [0x62, 0x63]]"]
  by (simp add: md5_example)

text \<open>
  The digest of the registration code is the same function: the DES-based term that each
  step computes instead of its constant is the constant itself, since \<open>rtu_des_encrypt\<close>
  returns 0 after one block and the checksum branch needs a positive length.
\<close>

theorem rtu_md5_is_md5:
  "rtu_MD5Init c = CC_MD5Init c \<and> rtu_MD5Update c b n = CC_MD5Update c b n
   \<and> rtu_MD5Final c = CC_MD5Final c
   \<and> md5_transform_enc1 k x = Some k \<and> md5_transform_enc2 k x = Some k
   \<and> md5_transform_enc3 k x = Some k \<and> md5_transform_enc4 k x = Some k"
  by (simp add: rtu_MD5_eq md5_transform_enc)

end
