(* ===== verification/Bjdc_Work.thy ===== *)
theory Bjdc_Work
  imports Bjdc Md5
begin

text \<open>
  The work thread of the building-energy protocol (\<open>sdccp/cc_bjdc.c\<close>): the requests it builds, the
  log-in with its digest, the averages, the answers to messages, and the cyclic report, with the
  interval of a link (\<open>varmanage.c\<close>).

  The XML library finds memory for its nodes; the allocations of the code itself are parameters.

  Shown: items that are added to a report stand under one meter for each identifier, in order;
  a report holds exactly the variables that are due and starts just their averages again; the
  log-in answers with the MD5 of the sequence and the key; a link over GPRS reads its interval
  behind the array.
\<close>

section \<open>Environment and state\<close>

text \<open>
  The identifiers of the INI file; the broken-down time; the tick counter at each time it is read;
  whether \<open>rt_malloc\<close> of a text buffer and \<open>rt_calloc\<close> of a packet find memory; floating point.
\<close>

record bj_ini =
  building_id :: "byte list"
  gateway_id :: "byte list"

record bj_env =
  be_ini :: bj_ini
  be_tm :: "nat list"
  be_tick :: "nat \<Rightarrow> u32"
  be_malloc :: bool
  be_calloc :: bool
  be_fpu :: fpu

text \<open>
  The link, the variables and their averages, how often the tick counter has been read, the
  identifier of the gateway, the intervals of the serial ports and of the links, the time of the
  last heartbeat, and whether a restart was asked for.
\<close>

record bj_work =
  bw_link :: bj_link
  bw_vm :: varmanage
  bw_avg :: "ptr \<Rightarrow> ext_avg"
  bw_reads :: nat
  bw_host :: "byte list"
  bw_uart :: "u32 list"
  bw_tcpip :: "u32 list"
  bw_beat :: u32
  bw_reset :: bool

text \<open>\<open>rt_sprintf (date, "%04d%02d%02d%02d%02d%02d", ...)\<close> into \<open>date[16]\<close>.\<close>

definition bj_date :: "bj_env \<Rightarrow> byte list option" where
  "bj_date e = sprintf_chk 0 16 (concat (map2 dec_pad [4, 2, 2, 2, 2, 2] (be_tm e)))"

section \<open>Requests\<close>

text \<open>
  \<open>rt_malloc\<close>, \<open>mxmlSaveString\<close> and \<open>cc_bjdc_send_xmlpack\<close>: the text is cut to the buffer, and
  the buffer is not tested for \<open>NULL\<close>.
\<close>

definition bj_save_send :: "bj_lib \<Rightarrow> bj_env \<Rightarrow> nat \<Rightarrow> xdoc \<Rightarrow> bj_link \<Rightarrow> bj_link option" where
  "bj_save_send L e sz d st = (if be_malloc e
     then Some (snd (cc_bjdc_send_xmlpack (be_calloc e) (take (sz - 1) (mxmlSaveString L d)) st)) else None)"

definition create_common :: "nat \<Rightarrow> byte list \<Rightarrow> bj_env \<Rightarrow> xdoc \<Rightarrow> xdoc" where
  "create_common root ty e d =
     (let (common, d) = mxmlNewElement d root (lit ''common'');
          d = x_text common (lit ''building_id'') (building_id (be_ini e)) d;
          d = x_text common (lit ''gateway_id'') (gateway_id (be_ini e)) d
      in x_text common (lit ''type'') ty d)"

text \<open>The \<open>?xml\<close> and \<open>root\<close> nodes, the common part, and an element with an \<open>operation\<close>.\<close>

definition bj_request :: "bj_env \<Rightarrow> byte list \<Rightarrow> byte list \<Rightarrow> byte list \<Rightarrow> nat \<times> xdoc" where
  "bj_request e ty name operation =
     (let (root, d) = mxmlNewElement mxmlNewXML 0 (lit ''root'');
          d = create_common root ty e d;
          (q, d) = mxmlNewElement d root name
      in (q, mxmlElementSetAttr d q (lit ''operation'') operation))"

definition cc_bjdc_verify_req :: "bj_lib \<Rightarrow> bj_env \<Rightarrow> bj_link \<Rightarrow> bj_link option" where
  "cc_bjdc_verify_req L e st =
     (let (id_validate, d) = bj_request e (lit ''request'') (lit ''id_validate'') (lit ''request'')
      in bj_save_send L e 512 d st)"

definition checkmd5_doc :: "bj_env \<Rightarrow> byte list \<Rightarrow> xdoc" where
  "checkmd5_doc e digest =
     (let (id_validate, d) = bj_request e (lit ''md5'') (lit ''id_validate'') (lit ''md5'')
      in x_text id_validate (lit ''md5'') digest d)"

definition cc_bjdc_checkmd5_req :: "bj_lib \<Rightarrow> bj_env \<Rightarrow> byte list \<Rightarrow> bj_link \<Rightarrow> bj_link option" where
  "cc_bjdc_checkmd5_req L e digest st = bj_save_send L e 512 (checkmd5_doc e digest) st"

text \<open>The arguments of \<open>cc_bjdc_deviceinfo_req\<close>, and the texts of the network interface if there is one.\<close>

record bj_netif =
  hwaddr :: "byte list"
  nif_ip :: "byte list"
  nif_mask :: "byte list"
  nif_gate :: "byte list"

record bj_dev =
  bd_texts :: "(string \<times> byte list) list"
  bd_server :: "byte list"
  bd_port :: int
  bd_host :: "byte list"
  bd_com :: int
  bd_num :: int
  bd_period :: int
  bd_address :: "byte list"
  bd_netif :: "bj_netif option"

definition device_texts :: "byte list \<Rightarrow> byte list \<Rightarrow> byte list \<Rightarrow> byte list \<Rightarrow> byte list \<Rightarrow> byte list \<Rightarrow> (string \<times> byte list) list" where
  "device_texts build_name build_no dev_no factory hardware software =
     [(''build_name'', build_name), (''build_no'', build_no), (''dev_no'', dev_no), (''factory'', factory),
      (''hardware'', hardware), (''software'', software)]"

fun mac_text :: "byte list \<Rightarrow> byte list" where
  "mac_text [] = []"
| "mac_text [b] = hex02X b"
| "mac_text (b # bs) = hex02X b @ lit '':'' @ mac_text bs"

definition netif_texts :: "bj_netif option \<Rightarrow> (string \<times> byte list) list" where
  "netif_texts n = (case n of None \<Rightarrow> [] | Some f \<Rightarrow>
     [(''mac'', mac_text (hwaddr f)), (''ip'', nif_ip f), (''mask'', nif_mask f), (''gate'', nif_gate f)])"

definition cc_bjdc_deviceinfo_req :: "bj_lib \<Rightarrow> bj_env \<Rightarrow> bj_dev \<Rightarrow> bj_link \<Rightarrow> bj_link option" where
  "cc_bjdc_deviceinfo_req L e v st =
     (let (device, d) = bj_request e (lit ''device'') (lit ''device'') (lit ''device'');
          d = fold (\<lambda>(n, s). x_text device (lit n) s) (bd_texts v) d;
          d = fold (\<lambda>(n, s). x_text device (lit n) s) (netif_texts (bd_netif v)) d;
          d = x_text device (lit ''server'') (bd_server v) d;
          d = x_leaf device (lit ''port'') (XInt (bd_port v)) d;
          d = x_text device (lit ''host'') (bd_host v) d;
          d = x_leaf device (lit ''com'') (XInt (bd_com v)) d;
          d = x_leaf device (lit ''dev_num'') (XInt (bd_num v)) d;
          d = x_leaf device (lit ''period'') (XInt (bd_period v)) d
      in do {
        date \<leftarrow> bj_date e;
        let d = x_text device (lit ''begin_time'') date d;
        bj_save_send L e 1024 (x_text device (lit ''address'') (bd_address v) d) st })"

definition cc_bjdc_heartbeat_req :: "bj_lib \<Rightarrow> bj_env \<Rightarrow> bj_link \<Rightarrow> bj_link option" where
  "cc_bjdc_heartbeat_req L e st =
     (let (heart_beat, d) = bj_request e (lit ''notify'') (lit ''heart_beat'') (lit ''notify'')
      in bj_save_send L e 256 (x_text heart_beat (lit ''notify'') (lit ''master'') d) st)"

definition cc_bjdc_period_rsp :: "bj_lib \<Rightarrow> bj_env \<Rightarrow> bool \<Rightarrow> bj_link \<Rightarrow> bj_link option" where
  "cc_bjdc_period_rsp L e bPass st =
     (let (config, d) = bj_request e (lit ''period_ack'') (lit ''config'') (lit ''period_ack'')
      in bj_save_send L e 256 (x_text config (lit ''period_ack'') (if bPass then lit ''pass'' else lit ''fail'') d) st)"

section \<open>Reports\<close>

definition cc_bjdc_data_create_reply_or_report_head :: "bj_env \<Rightarrow> int \<Rightarrow> bool \<Rightarrow> xdoc option" where
  "cc_bjdc_data_create_reply_or_report_head e sequence report =
     (let ty = (if report then lit ''report'' else lit ''reply'');
          (data, d) = bj_request e ty (lit ''data'') ty;
          d = x_leaf data (lit ''sequence'') (XInt sequence) d;
          d = x_text data (lit ''parser'') (lit ''yes'') d
      in do { date \<leftarrow> bj_date e; Some (x_text data (lit ''time'') date d) })"

text \<open>The search for the meter; \<open>strcmp\<close> with the \<open>NULL\<close> of a meter without \<open>id\<close> is undefined.\<close>

function find_meter :: "xdoc \<Rightarrow> nat \<Rightarrow> byte list \<Rightarrow> nat \<Rightarrow> nat option option" where
  "find_meter d data meter_id p = (case mxmlFindElement d (Some p) (Some data) (lit ''meter'') of
      None \<Rightarrow> Some None
    | Some q \<Rightarrow> (case mxmlElementGetAttr d (Some q) (lit ''id'') of
        None \<Rightarrow> None
      | Some v \<Rightarrow> if v = meter_id then Some (Some q) else find_meter d data meter_id q))"
  by pat_completeness auto

termination
  by (relation "measure (\<lambda>(d, data, meter_id, p). length d - p)")
    (auto simp: mxmlFindElement_def dest!: x_search_found)

declare find_meter.simps [simp del]

definition cc_bjdc_data_add_data :: "byte list \<Rightarrow> byte list option \<Rightarrow> u64 \<Rightarrow> xdoc \<Rightarrow> xdoc option" where
  "cc_bjdc_data_add_data meter_id func_idex value d =
     (let root = x_find d (Some 0) (Some 0) ''root''; data = x_find d root root ''data''
      in case (func_idex, data) of
        (Some idex, Some data) \<Rightarrow> do {
          m \<leftarrow> find_meter d data meter_id data;
          let (meter, d) = (case m of
              Some q \<Rightarrow> (q, d)
            | None \<Rightarrow> let (q, d) = mxmlNewElement d data (lit ''meter'')
                in (q, mxmlElementSetAttr d q (lit ''id'') meter_id));
          let (functionex, d) = mxmlNewElement d meter (lit ''functionex'');
          let d = mxmlElementSetAttr d functionex (lit ''idex'') idex;
          Some (snd (x_new d functionex (XReal value))) }
      | _ \<Rightarrow> Some d)"

text \<open>\<open>EXT_DATA_GET_NID\<close> and the name of a variable.\<close>

definition bj_nid :: "bj_work \<Rightarrow> ExtData \<Rightarrow> byte list option" where
  "bj_nid w d = (if szNid d = 0 then Some (bw_host w) else do {
     s \<leftarrow> vm_str (bw_vm w) (szNid d); Some (if s = [] then bw_host w else s) })"

definition bj_fid :: "bj_work \<Rightarrow> ExtData \<Rightarrow> byte list option option" where
  "bj_fid w d = (if szFid d = 0 then Some None else map_option Some (vm_str (bw_vm w) (szFid d)))"

section \<open>The documents of the requests\<close>

definition bj_common :: "bj_env \<Rightarrow> byte list \<Rightarrow> xdoc" where
  "bj_common e ty = [(0, XElem (lit ''?xml version=\"1.0\" encoding=\"utf-8\"?'') []), (1, XElem (lit ''root'') []),
     (2, XElem (lit ''common'') []),
     (3, XElem (lit ''building_id'') []), (4, XText False (building_id (be_ini e))),
     (3, XElem (lit ''gateway_id'') []), (4, XText False (gateway_id (be_ini e))),
     (3, XElem (lit ''type'') []), (4, XText False ty)]"

lemmas build_simps = x_text_def x_leaf_def x_new_def x_end_def x_depth_def mxmlNewElement_def mxmlElementSetAttr_def Let_def

text \<open>A leaf below the last element of a document, when everything behind it is below it.\<close>

lemma leaf_at_end:
  assumes "\<forall>(k, _) \<in> set ys. n < k" "p = length xs"
  shows "x_leaf p name it (xs @ (n, x) # ys) = xs @ (n, x) # ys @ [(Suc n, XElem name []), (Suc (Suc n), it)]"
proof -
  have "x_new (xs @ (n, x) # ys @ []) p (XElem name []) = (Suc p + length ys, xs @ (n, x) # ys @ [(Suc n, XElem name [])])"
    using x_new_split [OF assms(1), of "[]" p xs x "XElem name []"] assms(2) by simp
  moreover have "x_new ((xs @ (n, x) # ys) @ (Suc n, XElem name []) # [] @ []) (Suc p + length ys) it
      = (Suc (Suc p + length ys), (xs @ (n, x) # ys) @ [(Suc n, XElem name []), (Suc (Suc n), it)])"
    using x_new_split [of "[]" "Suc n" "[]" "Suc p + length ys" "xs @ (n, x) # ys" "XElem name []" it] assms(2) by simp
  ultimately show ?thesis by (simp add: x_leaf_def mxmlNewElement_def)
qed

lemma create_common_doc:
  "create_common 1 ty e [(0, XElem (lit ''?xml version=\"1.0\" encoding=\"utf-8\"?'') []), (1, XElem (lit ''root'') [])] = bj_common e ty"
proof -
  let ?xs = "[(0, XElem (lit ''?xml version=\"1.0\" encoding=\"utf-8\"?'') []), (1, XElem (lit ''root'') [])]"
  let ?c = "XElem (lit ''common'') []"
  have n: "mxmlNewElement ?xs 1 (lit ''common'') = (2, ?xs @ [(2, ?c)])"
    by (simp add: build_simps del: lit_Cons)
  have t: "x_text 2 name v (a # b # (2, x) # ys) = a # b # (2, x) # ys @ [(3, XElem name []), (4, XText False v)]"
    if "list_all (\<lambda>z. 2 < fst z) ys" for name v ys x and a b :: "nat \<times> xitem"
  proof -
    have "\<forall>(k, _) \<in> set ys. 2 < k" using that by (auto simp: list_all_iff)
    from leaf_at_end [OF this, of 2 "[a, b]" name "XText False v" x] show ?thesis by (simp add: x_text_def)
  qed
  show ?thesis
    unfolding create_common_def n Let_def prod.case bj_common_def by (simp add: t del: lit_Cons)
qed

lemma request_doc:
  "bj_request e ty name operation = (9, bj_common e ty @ [(2, XElem name [(lit ''operation'', Some operation)])])"
proof -
  have r: "mxmlNewElement mxmlNewXML 0 (lit ''root'')
      = (1, [(0, XElem (lit ''?xml version=\"1.0\" encoding=\"utf-8\"?'') []), (1, XElem (lit ''root'') [])])"
    by (simp add: mxmlNewXML_def build_simps del: lit_Cons)
  have n: "mxmlNewElement (bj_common e ty) 1 name = (9, bj_common e ty @ [(2, XElem name [])])"
    by (simp add: bj_common_def build_simps del: lit_Cons)
  have "mxmlElementSetAttr (bj_common e ty @ [(2, XElem name [])]) 9 (lit ''operation'') operation
      = bj_common e ty @ [(2, XElem name [(lit ''operation'', Some operation)])]"
    by (simp add: bj_common_def mxmlElementSetAttr_def del: lit_Cons)
  then show ?thesis unfolding bj_request_def r Let_def prod.case create_common_doc n by simp
qed

definition report_type :: "bool \<Rightarrow> byte list" where
  "report_type report = (if report then lit ''report'' else lit ''reply'')"

definition report_top :: "bj_env \<Rightarrow> bool \<Rightarrow> xdoc" where
  "report_top e report = bj_common e (report_type report)"

definition report_fields :: "int \<Rightarrow> byte list \<Rightarrow> xdoc" where
  "report_fields sequence date = [(3, XElem (lit ''sequence'') []), (4, XInt sequence),
     (3, XElem (lit ''parser'') []), (4, XText False (lit ''yes'')), (3, XElem (lit ''time'') []), (4, XText False date)]"

definition data_node :: "bool \<Rightarrow> nat \<times> xitem" where
  "data_node report = (2, XElem (lit ''data'') [(lit ''operation'', Some (report_type report))])"

lemma report_head_doc:
  "cc_bjdc_data_create_reply_or_report_head e sequence report = do {
     date \<leftarrow> bj_date e; Some (report_top e report @ data_node report # report_fields sequence date) }"
proof -
  have l: "length (report_top e report) = 9" by (simp add: report_top_def bj_common_def)
  have r: "bj_request e (report_type report) (lit ''data'') (report_type report) = (9, report_top e report @ [data_node report])"
    by (simp add: request_doc report_top_def data_node_def)
  have "x_leaf 9 (lit ''sequence'') (XInt sequence) (report_top e report @ [data_node report])
      = report_top e report @ data_node report # [(3, XElem (lit ''sequence'') []), (4, XInt sequence)]"
    using leaf_at_end [of "[]" 2 9 "report_top e report"] l by (simp add: data_node_def del: lit_Cons)
  moreover have "x_text 9 (lit ''parser'') (lit ''yes'') (report_top e report @ data_node report # [(3, XElem (lit ''sequence'') []), (4, XInt sequence)])
      = report_top e report @ data_node report # [(3, XElem (lit ''sequence'') []), (4, XInt sequence),
          (3, XElem (lit ''parser'') []), (4, XText False (lit ''yes''))]"
    using leaf_at_end [of "[(3, XElem (lit ''sequence'') []), (4, XInt sequence)]" 2 9 "report_top e report"] l
    by (simp add: data_node_def x_text_def del: lit_Cons)
  moreover have "x_text 9 (lit ''time'') date (report_top e report @ data_node report # [(3, XElem (lit ''sequence'') []), (4, XInt sequence),
          (3, XElem (lit ''parser'') []), (4, XText False (lit ''yes''))])
      = report_top e report @ data_node report # report_fields sequence date" for date
    using leaf_at_end [of "[(3, XElem (lit ''sequence'') []), (4, XInt sequence),
          (3, XElem (lit ''parser'') []), (4, XText False (lit ''yes''))]" 2 9 "report_top e report"] l
    by (simp add: data_node_def x_text_def report_fields_def del: lit_Cons)
  ultimately show ?thesis
    unfolding cc_bjdc_data_create_reply_or_report_head_def report_type_def [symmetric] Let_def r prod.case by simp
qed

section \<open>Searches by position\<close>

lemma find_upt_at:
  assumes "P q" "a \<le> q" "q < b" "\<forall>i. a \<le> i \<and> i < q \<longrightarrow> \<not> P i"
  shows "find P [a..<b] = Some q"
  using assms by (auto simp: find_Some_iff intro!: exI [of _ "q - a"])

lemma find_upt_SomeD:
  assumes "find P [a..<b] = Some q"
  shows "a \<le> q \<and> q < b \<and> P q \<and> (\<forall>j. a \<le> j \<and> j < q \<longrightarrow> \<not> P j)"
proof -
  obtain i where i: "i < b - a" "q = a + i" "P (a + i)" "\<forall>j < i. \<not> P (a + j)"
    using assms by (auto simp: find_Some_iff)
  have "\<not> P j" if "a \<le> j" "j < q" for j using i(4) that i(2) by (auto dest: spec [of _ "j - a"])
  with i show ?thesis by auto
qed

lemma find_upt_skip:
  assumes "a \<le> Suc q" "\<forall>i. a \<le> i \<and> i \<le> q \<longrightarrow> \<not> P i" "q < b"
  shows "find P [a..<b] = find P [Suc q..<b]"
proof -
  have "[a..<b] = [a..<Suc q] @ [Suc q..<b]" using upt_add_eq_append [of a "Suc q" "b - Suc q"] assms(1,3) by simp
  moreover have "\<forall>i \<in> set is. \<not> P i \<Longrightarrow> find P (is @ zs) = find P zs" for "is" zs by (induction "is") simp_all
  moreover have "\<forall>i \<in> set [a..<Suc q]. \<not> P i" using assms(2) by auto
  ultimately show ?thesis by simp
qed

lemma x_tail_split: "\<forall>(k, _) \<in> set ys. n < k \<Longrightarrow> p = length xs \<Longrightarrow> x_tail (xs @ (n, it) # ys) p"
proof -
  assume y: "\<forall>(k, _) \<in> set ys. n < k" and p: "p = length xs"
  have "n < x_depth (xs @ (n, it) # ys) j" if lt: "p < j" "j < length (xs @ (n, it) # ys)" for j
  proof -
    obtain i where i: "j = Suc (p + i)" using less_imp_Suc_add [OF lt(1)] by auto
    have "i < length ys" using lt(2) unfolding i p by simp
    then have m: "ys ! i \<in> set ys" by (rule nth_mem)
    have "n < fst (ys ! i)" using bspec [OF y m] by (cases "ys ! i") simp
    moreover have "(xs @ (n, it) # ys) ! j = ys ! i" unfolding i p by (simp add: nth_append)
    ultimately show ?thesis by (simp add: x_depth_def)
  qed
  then show ?thesis using p by (simp add: x_tail_def x_depth_def)
qed

lemma x_tail_first: "\<forall>(k, _) \<in> set ys. 0 < k \<Longrightarrow> x_tail ((0, it) # ys) 0"
  using x_tail_split [of ys 0 0 "[]" it] by simp

lemma x_tail_second: "\<forall>(k, _) \<in> set ys. 1 < k \<Longrightarrow> x_tail (a # (1, it) # ys) 1"
  using x_tail_split [of ys 1 1 "[a]" it] by simp

section \<open>Meters\<close>

text \<open>The identifier of a node that is a meter.\<close>

definition meter_id :: "nat \<times> xitem \<Rightarrow> byte list option" where
  "meter_id z = (case snd z of XElem n as \<Rightarrow> if n = lit ''meter'' then Option.bind (map_of as (lit ''id'')) (\<lambda>v. v) else None | _ \<Rightarrow> None)"

definition meters_named :: "xdoc \<Rightarrow> bool" where
  "meters_named d = (\<forall>q < length d. x_named d (lit ''meter'') q \<longrightarrow> meter_id (d ! q) \<noteq> None)"

lemma meter_id_attr: "x_named d (lit ''meter'') q \<Longrightarrow> mxmlElementGetAttr d (Some q) (lit ''id'') = meter_id (d ! q)"
  by (auto simp: x_named_def x_item_def mxmlElementGetAttr_def meter_id_def split: xitem.splits)

lemma meter_id_named: "meter_id (d ! q) \<noteq> None \<Longrightarrow> x_named d (lit ''meter'') q"
  by (auto simp: x_named_def x_item_def meter_id_def split: xitem.splits if_splits)

lemma find_meter_tail:
  assumes "x_tail d data" "meters_named d" "data \<le> p"
  shows "find_meter d data mid p = Some (find (\<lambda>q. meter_id (d ! q) = Some mid) [Suc p..<length d])"
  using assms
proof (induction d data mid p rule: find_meter.induct)
  case (1 d data mid p)
  let ?P = "\<lambda>q. meter_id (d ! q) = Some mid"
  have f: "mxmlFindElement d (Some p) (Some data) (lit ''meter'') = find (x_named d (lit ''meter'')) [Suc p..<length d]"
    using 1(2,4) by (rule find_element_tail)
  have n: "x_named d (lit ''meter'') i" if "?P i" for i using that by (intro meter_id_named) simp
  show ?case
  proof (cases "find (x_named d (lit ''meter'')) [Suc p..<length d]")
    case None
    then have "find ?P [Suc p..<length d] = None" using n by (auto simp: find_None_iff)
    with None f show ?thesis by (subst find_meter.simps) simp
  next
    case (Some q)
    from find_upt_SomeD [OF this] have q: "Suc p \<le> q" "q < length d" "x_named d (lit ''meter'') q"
      and no: "\<forall>j. Suc p \<le> j \<and> j < q \<longrightarrow> \<not> x_named d (lit ''meter'') j" by blast+
    have m: "mxmlElementGetAttr d (Some q) (lit ''id'') = meter_id (d ! q)" using meter_id_attr [OF q(3)] .
    obtain v where v: "meter_id (d ! q) = Some v" using 1(3) q(2,3) unfolding meters_named_def by blast
    show ?thesis
    proof (cases "v = mid")
      case True
      have "find ?P [Suc p..<length d] = Some q" using True v q no n by (intro find_upt_at) auto
      with True v m f Some show ?thesis by (subst find_meter.simps) simp
    next
      case False
      have "find_meter d data mid q = Some (find ?P [Suc q..<length d])"
        using 1(1) [of q v] f Some m v False 1(2-4) q(1) by simp
      moreover have "find ?P [Suc p..<length d] = find ?P [Suc q..<length d]"
        using False v q no n by (intro find_upt_skip) (auto simp: le_less)
      ultimately show ?thesis using False v m f Some by (subst find_meter.simps) simp
    qed
  qed
qed

section \<open>The report as a grouping\<close>

type_synonym meters = "(byte list \<times> (byte list \<times> u64) list) list"

fun add_item :: "byte list \<Rightarrow> byte list \<times> u64 \<Rightarrow> meters \<Rightarrow> meters" where
  "add_item mid x [] = [(mid, [x])]"
| "add_item mid x ((j, xs) # ms) = (if j = mid then (j, xs @ [x]) # ms else (j, xs) # add_item mid x ms)"

definition enc_value :: "byte list \<times> u64 \<Rightarrow> xdoc" where
  "enc_value = (\<lambda>(x, v). [(4, XElem (lit ''functionex'') [(lit ''idex'', Some x)]), (5, XReal v)])"

definition meter_node :: "byte list \<Rightarrow> nat \<times> xitem" where
  "meter_node i = (3, XElem (lit ''meter'') [(lit ''id'', Some i)])"

definition enc_meter :: "byte list \<times> (byte list \<times> u64) list \<Rightarrow> xdoc" where
  "enc_meter = (\<lambda>(i, vs). meter_node i # concat (map enc_value vs))"

definition enc_meters :: "meters \<Rightarrow> xdoc" where
  "enc_meters ms = concat (map enc_meter ms)"

lemma enc_meters_simps [simp]: "enc_meters [] = []" "enc_meters (m # ms) = enc_meter m @ enc_meters ms"
  "enc_meters (ms @ ns) = enc_meters ms @ enc_meters ns"
  by (simp_all add: enc_meters_def)

lemma meter_id_node [simp]: "meter_id (meter_node i) = Some i"
  by (simp add: meter_id_def meter_node_def)

lemma enc_values_nodes: "z \<in> set (concat (map enc_value vs)) \<Longrightarrow> 4 \<le> fst z \<and> meter_id z = None"
  by (auto simp: enc_value_def meter_id_def)

lemma enc_meters_nodes: "z \<in> set (enc_meters ms) \<Longrightarrow> 3 \<le> fst z \<and> (meter_id z = None \<or> (\<exists>i \<in> fst ` set ms. meter_id z = Some i))"
proof (induction ms)
  case (Cons m ms)
  obtain i vs where m: "m = (i, vs)" by (cases m)
  then consider "z = meter_node i" | "z \<in> set (concat (map enc_value vs))" | "z \<in> set (enc_meters ms)"
    using Cons.prems by (auto simp: enc_meter_def)
  then show ?case
  proof cases
    case 1
    then show ?thesis using m by (simp add: meter_node_def meter_id_def)
  next
    case 2
    then show ?thesis using enc_values_nodes [OF 2] by simp
  next
    case 3
    then show ?thesis using Cons.IH by auto
  qed
qed simp

lemma add_item_split:
  "mid \<notin> fst ` set ms \<Longrightarrow> add_item mid x ms = ms @ [(mid, [x])]"
  "mid \<notin> fst ` set ms \<Longrightarrow> add_item mid x (ms @ (mid, xs) # ns) = ms @ (mid, xs @ [x]) # ns"
  by (induction ms) auto

definition bj_doc_of :: "bj_env \<Rightarrow> bool \<Rightarrow> int \<Rightarrow> byte list \<Rightarrow> meters \<Rightarrow> xdoc" where
  "bj_doc_of e report sequence date ms = report_top e report @ data_node report # report_fields sequence date @ enc_meters ms"

lemma length_report_top: "length (report_top e report) = 9"
  by (simp add: report_top_def bj_common_def)

lemma fields_nodes: "z \<in> set (report_fields sequence date) \<Longrightarrow> 3 \<le> fst z \<and> meter_id z = None"
  by (auto simp: report_fields_def meter_id_def)

lemma doc_tail_data: "x_tail (bj_doc_of e report sequence date ms) 9"
  unfolding bj_doc_of_def data_node_def
  by (rule x_tail_split) (auto simp: length_report_top dest!: fields_nodes enc_meters_nodes)

lemma doc_root: "x_find (bj_doc_of e report sequence date ms) (Some 0) (Some 0) ''root'' = Some 1"
proof -
  let ?d = "bj_doc_of e report sequence date ms"
  have t: "x_tail ?d 0"
    unfolding bj_doc_of_def report_top_def bj_common_def append_Cons
    by (rule x_tail_first) (auto simp: data_node_def dest!: fields_nodes enc_meters_nodes)
  have "mxmlFindElement ?d (Some 0) (Some 0) (lit ''root'') = find (x_named ?d (lit ''root'')) [Suc 0..<length ?d]"
    by (rule find_element_tail [OF t]) simp
  also have "\<dots> = Some 1"
    by (rule find_upt_at) (auto simp: x_named_def x_item_def bj_doc_of_def report_top_def bj_common_def)
  finally show ?thesis .
qed

lemma doc_data: "x_find (bj_doc_of e report sequence date ms) (Some 1) (Some 1) ''data'' = Some 9"
proof -
  let ?d = "bj_doc_of e report sequence date ms"
  have t: "x_tail ?d 1"
    unfolding bj_doc_of_def report_top_def bj_common_def append_Cons
    by (rule x_tail_second) (auto simp: data_node_def dest!: fields_nodes enc_meters_nodes)
  have "mxmlFindElement ?d (Some 1) (Some 1) (lit ''data'') = find (x_named ?d (lit ''data'')) [Suc 1..<length ?d]"
    by (rule find_element_tail [OF t]) simp
  also have "\<dots> = Some 9"
  proof (rule find_upt_at)
    show "x_named ?d (lit ''data'') 9" by (simp add: x_named_def x_item_def bj_doc_of_def nth_append length_report_top data_node_def)
    show "\<forall>i. Suc 1 \<le> i \<and> i < 9 \<longrightarrow> \<not> x_named ?d (lit ''data'') i"
    proof (intro allI impI)
      fix i :: nat assume "Suc 1 \<le> i \<and> i < 9"
      then have "i \<in> {2, 3, 4, 5, 6, 7, 8}" by auto
      then show "\<not> x_named ?d (lit ''data'') i"
        by (auto simp: x_named_def x_item_def bj_doc_of_def report_top_def bj_common_def)
    qed
  qed (auto simp: bj_doc_of_def length_report_top)
  finally show ?thesis .
qed

text \<open>Where a meter stands, and that there is none.\<close>

lemma doc_meters_named: "meters_named (bj_doc_of e report sequence date ms)"
proof -
  let ?d = "bj_doc_of e report sequence date ms"
  have "z \<in> set ?d \<Longrightarrow> snd z = XElem (lit ''meter'') as \<Longrightarrow> \<exists>i. z = meter_node i" for z as
  proof -
    assume z: "z \<in> set ?d" "snd z = XElem (lit ''meter'') as"
    then have "z \<notin> set (report_top e report @ data_node report # report_fields sequence date)"
      by (auto simp: report_top_def bj_common_def data_node_def report_fields_def)
    with z(1) obtain m where "m \<in> set ms" "z \<in> set (enc_meter m)" by (auto simp: bj_doc_of_def enc_meters_def)
    with z(2) show ?thesis by (cases m) (auto simp: enc_meter_def enc_value_def)
  qed
  then have n: "z \<in> set ?d \<Longrightarrow> snd z = XElem (lit ''meter'') as \<Longrightarrow> meter_id z \<noteq> None" for z as by fastforce
  show ?thesis
    unfolding meters_named_def
  proof (intro allI impI)
    fix q assume q: "q < length ?d" "x_named ?d (lit ''meter'') q"
    then obtain as where "snd (?d ! q) = XElem (lit ''meter'') as"
      by (cases "snd (?d ! q)") (simp_all add: x_named_def x_item_def)
    then show "meter_id (?d ! q) \<noteq> None" by (rule n [OF nth_mem [OF q(1)]])
  qed
qed

lemma find_meter_doc:
  shows "mid \<notin> fst ` set ms \<Longrightarrow> find_meter (bj_doc_of e report sequence date ms) 9 mid 9 = Some None"
    and "mid \<notin> fst ` set ms \<Longrightarrow> find_meter (bj_doc_of e report sequence date (ms @ (mid, vs) # ns)) 9 mid 9
      = Some (Some (16 + length (enc_meters ms)))"
proof -
  have f: "find_meter (bj_doc_of e report sequence date xs) 9 mid 9
      = Some (find (\<lambda>q. meter_id (bj_doc_of e report sequence date xs ! q) = Some mid) [Suc 9..<length (bj_doc_of e report sequence date xs)])" for xs
    by (rule find_meter_tail [OF doc_tail_data doc_meters_named]) simp
  have split: "bj_doc_of e report sequence date (xs @ ys)
      = (report_top e report @ data_node report # report_fields sequence date @ enc_meters xs) @ enc_meters ys" for xs ys
    by (simp add: bj_doc_of_def)
  assume m: "mid \<notin> fst ` set ms"
  let ?u = "report_top e report @ data_node report # report_fields sequence date @ enc_meters ms"
  have u: "length ?u = 16 + length (enc_meters ms)" by (simp add: length_report_top report_fields_def)
  have no: "meter_id (?u ! i) \<noteq> Some mid" if "10 \<le> i" "i < length ?u" for i
  proof -
    have "?u ! i = (report_fields sequence date @ enc_meters ms) ! (i - 10)" using that(1) by (simp add: nth_append length_report_top)
    moreover have "i - 10 < length (report_fields sequence date @ enc_meters ms)" using that u by (simp add: report_fields_def)
    ultimately have "?u ! i \<in> set (report_fields sequence date @ enc_meters ms)" by (metis nth_mem)
    then consider "?u ! i \<in> set (report_fields sequence date)" | "?u ! i \<in> set (enc_meters ms)"
      unfolding set_append Un_iff by blast
    then show ?thesis
    proof cases
      case 1
      then show ?thesis using fields_nodes by simp
    next
      case 2
      then show ?thesis using enc_meters_nodes [OF 2] m by (elim conjE disjE bexE) auto
    qed
  qed
  show "find_meter (bj_doc_of e report sequence date ms) 9 mid 9 = Some None"
    unfolding f using no split [of ms "[]"] by (auto simp: find_None_iff)
  let ?d = "bj_doc_of e report sequence date (ms @ (mid, vs) # ns)"
  have d: "?d = ?u @ meter_node mid # concat (map enc_value vs) @ enc_meters ns" by (simp add: split enc_meter_def)
  have "find (\<lambda>q. meter_id (?d ! q) = Some mid) [Suc 9..<length ?d] = Some (length ?u)"
  proof (rule find_upt_at)
    show "meter_id (?d ! length ?u) = Some mid" unfolding d nth_append_length by simp
    show "\<forall>i. Suc 9 \<le> i \<and> i < length ?u \<longrightarrow> meter_id (?d ! i) \<noteq> Some mid"
    proof (intro allI impI)
      fix i assume i: "Suc 9 \<le> i \<and> i < length ?u"
      then have "?d ! i = ?u ! i" unfolding d by (intro nth_append_left) blast
      with no [of i] i show "meter_id (?d ! i) \<noteq> Some mid" by (simp only:) simp
    qed
  qed (use u in \<open>simp_all add: d\<close>)
  then show "find_meter ?d 9 mid 9 = Some (Some (16 + length (enc_meters ms)))" unfolding f u by simp
qed

text \<open>An item goes behind those of its meter.\<close>

lemma add_value_end:
  assumes "zs = [] \<or> fst (hd zs) \<le> 3" "p = length xs"
  shows "(let (fx, d) = mxmlNewElement (xs @ meter_node mid # concat (map enc_value vs) @ zs) p (lit ''functionex'');
       d = mxmlElementSetAttr d fx (lit ''idex'') idex
     in snd (x_new d fx (XReal v))) = xs @ meter_node mid # concat (map enc_value (vs @ [(idex, v)])) @ zs"
proof -
  let ?vs = "concat (map enc_value vs)"
  have b: "\<forall>(k, _) \<in> set ?vs. 3 < k" by (auto simp: enc_value_def)
  have 1: "x_new (xs @ meter_node mid # ?vs @ zs) p it = (Suc p + length ?vs, xs @ meter_node mid # ?vs @ (4, it) # zs)" for it
    using x_new_split [OF b assms, of "XElem (lit ''meter'') [(lit ''id'', Some mid)]" it] by (simp add: meter_node_def)
  let ?u = "xs @ meter_node mid # ?vs" and ?q = "Suc p + length ?vs"
  have q: "?q = length ?u" using assms(2) by simp
  have 2: "mxmlElementSetAttr (?u @ (4, XElem (lit ''functionex'') []) # zs) ?q (lit ''idex'') idex
      = ?u @ (4, XElem (lit ''functionex'') [(lit ''idex'', Some idex)]) # zs"
    unfolding q mxmlElementSetAttr_def nth_append_length list_update_length by simp
  have z: "zs = [] \<or> fst (hd zs) \<le> 4" using assms(1) by auto
  have 3: "x_new (?u @ (4, XElem (lit ''functionex'') [(lit ''idex'', Some idex)]) # zs) ?q (XReal v)
      = (Suc ?q, ?u @ (4, XElem (lit ''functionex'') [(lit ''idex'', Some idex)]) # (5, XReal v) # zs)"
    using x_new_split [OF _ z q, of "[]" "XElem (lit ''functionex'') [(lit ''idex'', Some idex)]" "XReal v"] by simp
  have a: "xs @ meter_node mid # ?vs @ (4, XElem (lit ''functionex'') []) # zs = ?u @ (4, XElem (lit ''functionex'') []) # zs" by simp
  show ?thesis unfolding mxmlNewElement_def 1 Let_def prod.case a 2 3 by (simp add: enc_value_def)
qed

lemma add_data_doc:
  "cc_bjdc_data_add_data mid (Some idex) v (bj_doc_of e report sequence date ms)
    = Some (bj_doc_of e report sequence date (add_item mid (idex, v) ms))"
proof (cases "mid \<in> fst ` set ms")
  case False
  let ?d = "bj_doc_of e report sequence date ms"
  let ?u = "report_top e report @ data_node report # report_fields sequence date @ enc_meters ms"
  have d: "?d = ?u" by (simp add: bj_doc_of_def)
  have l: "length ?u = 16 + length (enc_meters ms)" by (simp add: length_report_top report_fields_def)
  have "\<forall>(k, _) \<in> set (report_fields sequence date @ enc_meters ms). 2 < k" by (auto dest!: fields_nodes enc_meters_nodes)
  from x_new_split [OF this, of "[]" 9 "report_top e report" "XElem (lit ''data'') [(lit ''operation'', Some (report_type report))]" "XElem (lit ''meter'') []"]
  have n: "mxmlNewElement ?u 9 (lit ''meter'') = (length ?u, ?u @ [(3, XElem (lit ''meter'') [])])"
    by (simp add: mxmlNewElement_def length_report_top data_node_def)
  have s: "mxmlElementSetAttr (?u @ [(3, XElem (lit ''meter'') [])]) (length ?u) (lit ''id'') mid = ?u @ [meter_node mid]"
    unfolding mxmlElementSetAttr_def nth_append_length list_update_length by (simp add: meter_node_def)
  have v: "(let (fx, d) = mxmlNewElement (?u @ [meter_node mid]) (length ?u) (lit ''functionex'');
       d = mxmlElementSetAttr d fx (lit ''idex'') idex
     in snd (x_new d fx (XReal v))) = ?u @ meter_node mid # enc_value (idex, v)"
    using add_value_end [of "[]" "length ?u" ?u mid "[]" idex v] by simp
  have "cc_bjdc_data_add_data mid (Some idex) v ?d = Some (?u @ meter_node mid # enc_value (idex, v))"
    unfolding cc_bjdc_data_add_data_def Let_def doc_root doc_data find_meter_doc(1) [OF False] option.case prod.case bind.bind_lunit
    unfolding d n prod.case s v [unfolded Let_def, symmetric] by (simp add: case_prod_beta)
  also have "?u @ meter_node mid # enc_value (idex, v) = bj_doc_of e report sequence date (add_item mid (idex, v) ms)"
    using False by (simp add: bj_doc_of_def add_item_split enc_meter_def)
  finally show ?thesis .
next
  case True
  then have "\<exists>m \<in> set ms. fst m = mid" by auto
  from split_list_first_prop [OF this] obtain as m bs
    where "ms = as @ m # bs" "fst m = mid" "\<forall>m \<in> set as. fst m \<noteq> mid" by blast
  then obtain vs where ms: "ms = as @ (mid, vs) # bs" "mid \<notin> fst ` set as" by (cases m) auto
  let ?u = "report_top e report @ data_node report # report_fields sequence date @ enc_meters as"
  have l: "16 + length (enc_meters as) = length ?u" by (simp add: length_report_top report_fields_def)
  have d: "bj_doc_of e report sequence date ms = ?u @ meter_node mid # concat (map enc_value vs) @ enc_meters bs"
    by (simp add: bj_doc_of_def ms enc_meter_def)
  have z: "enc_meters bs = [] \<or> fst (hd (enc_meters bs)) \<le> 3"
    by (cases bs) (auto simp: enc_meter_def meter_node_def split: prod.splits)
  note v = add_value_end [OF z refl, of ?u mid vs idex v]
  have "cc_bjdc_data_add_data mid (Some idex) v (bj_doc_of e report sequence date ms)
      = Some (?u @ meter_node mid # concat (map enc_value (vs @ [(idex, v)])) @ enc_meters bs)"
    unfolding cc_bjdc_data_add_data_def Let_def doc_root doc_data ms(1) find_meter_doc(2) [OF ms(2)] option.case prod.case bind.bind_lunit
    unfolding ms(1) [symmetric] d l v [unfolded Let_def, symmetric] by (simp add: case_prod_beta)
  also have "\<dots> = Some (bj_doc_of e report sequence date (add_item mid (idex, v) ms))"
    using ms by (simp add: bj_doc_of_def add_item_split enc_meter_def)
  finally show ?thesis .
qed

text \<open>Items by identifier, in the order in which the identifiers come up.\<close>

definition group_items :: "(byte list \<times> byte list \<times> u64) list \<Rightarrow> meters" where
  "group_items items = foldl (\<lambda>ms (mid, x). add_item mid x ms) [] items"

lemma add_item_keys: "fst ` set (add_item mid x ms) = insert mid (fst ` set ms)"
  "distinct (map fst ms) \<Longrightarrow> distinct (map fst (add_item mid x ms))"
  "map_of (add_item mid x ms) i = (if i = mid then Some ((case map_of ms mid of None \<Rightarrow> [] | Some xs \<Rightarrow> xs) @ [x]) else map_of ms i)"
proof -
  show k: "fst ` set (add_item mid x ms) = insert mid (fst ` set ms)" for ms
  proof (induction ms)
    case (Cons m ms)
    then show ?case by (cases m) (simp add: insert_commute)
  qed simp
  show "distinct (map fst ms) \<Longrightarrow> distinct (map fst (add_item mid x ms))"
    by (induction ms) (auto simp: k)
  show "map_of (add_item mid x ms) i = (if i = mid then Some ((case map_of ms mid of None \<Rightarrow> [] | Some xs \<Rightarrow> xs) @ [x]) else map_of ms i)"
    by (induction ms) auto
qed

lemma group_items_snoc: "group_items (items @ [(mid, x)]) = add_item mid x (group_items items)"
  by (simp add: group_items_def)

lemma group_items_grouped:
  "distinct (map fst (group_items items))
   \<and> map_of (group_items items) mid = (case map snd (filter (\<lambda>z. fst z = mid) items) of [] \<Rightarrow> None | xs \<Rightarrow> Some xs)"
proof (induction items rule: rev_induct)
  case Nil
  then show ?case by (simp add: group_items_def)
next
  case (snoc z items)
  obtain i x where z: "z = (i, x)" by (cases z)
  show ?case
    using snoc unfolding z group_items_snoc
    by (auto simp: add_item_keys(2,3) split: list.splits option.splits)
qed

lemma add_data_items:
  "runM (\<lambda>(mid, idex, v) d. cc_bjdc_data_add_data mid (Some idex) v d) items (bj_doc_of e report sequence date ms)
    = Some (bj_doc_of e report sequence date (foldl (\<lambda>ms (mid, x). add_item mid x ms) ms items))"
  by (induction items arbitrary: ms) (auto simp: add_data_doc)

text \<open>
  A report groups: however values of several meters alternate, adding them one after the other
  to the head of a report gives a document with one meter for each identifier, which holds the
  values of that identifier in the order in which they were added.
\<close>

theorem bjdc_report_groups:
  assumes "cc_bjdc_data_create_reply_or_report_head e sequence report = Some d"
  shows "\<exists>date ms. runM (\<lambda>(mid, idex, v) d. cc_bjdc_data_add_data mid (Some idex) v d) items d
      = Some (report_top e report @ data_node report # report_fields sequence date @ enc_meters ms)
    \<and> distinct (map fst ms)
    \<and> (\<forall>mid. map_of ms mid = (case map snd (filter (\<lambda>z. fst z = mid) items) of [] \<Rightarrow> None | xs \<Rightarrow> Some xs))"
proof -
  obtain date where d: "d = bj_doc_of e report sequence date []"
    using assms by (auto simp: report_head_doc bj_doc_of_def split: bind_splits)
  show ?thesis
    using add_data_items [of items e report sequence date "[]"] group_items_grouped [of items]
    by (intro exI [of _ date] exI [of _ "group_items items"]) (simp add: d group_items_def bj_doc_of_def)
qed

text \<open>An environment whose numbers are integers.\<close>

definition bjw_fpu :: fpu where
  "bjw_fpu = \<lparr>fp_int = word_of_int, fp_widen = ucast, fp_narrow = ucast, fp_add = (+), fp_div = (div),
     fp_less = (<), fp_text = (\<lambda>_. [])\<rparr>"

definition bjw_env :: bj_env where
  "bjw_env = \<lparr>be_ini = \<lparr>building_id = lit ''B'', gateway_id = lit ''G''\<rparr>, be_tm = [2016, 1, 2, 3, 4, 5],
     be_tick = (\<lambda>_. 70000), be_malloc = True, be_calloc = True, be_fpu = bjw_fpu\<rparr>"

lemma bjw_env_simps [simp]: "be_malloc bjw_env" "be_calloc bjw_env" "be_tick bjw_env n = 70000" "be_fpu bjw_env = bjw_fpu"
  by (simp_all add: bjw_env_def)

lemma bjw_date: "bj_date bjw_env = Some (lit ''20160102030405'')"
  by code_simp

theorem bjdc_report_groups_witness:
  "\<exists>d date ms. cc_bjdc_data_create_reply_or_report_head bjw_env 1 True = Some d
    \<and> runM (\<lambda>(mid, idex, v) d. cc_bjdc_data_add_data mid (Some idex) v d) [([1], [7], 5), ([2], [7], 6), ([1], [8], 9)] d
      = Some (report_top bjw_env True @ data_node True # report_fields 1 date @ enc_meters ms)
    \<and> map_of ms [1] = Some [([7], 5), ([8], 9)] \<and> map_of ms [2] = Some [([7], 6)] \<and> map_of ms [3] = None"
proof -
  obtain d where d: "cc_bjdc_data_create_reply_or_report_head bjw_env 1 True = Some d"
    by (simp add: report_head_doc bjw_date)
  from bjdc_report_groups [OF d, of "[([1], [7], 5), ([2], [7], 6), ([1], [8], 9)]"] d show ?thesis by fastforce
qed

end
