(* ===== verification/Bjdc_Cycle.thy ===== *)
theory Bjdc_Cycle
  imports Bjdc_Work
begin

text \<open>
  The thread of the building-energy protocol (\<open>cc_bjdc_work_task\<close> of \<open>sdccp/cc_bjdc.c\<close>): one
  attempt at the log-in, the averages, the messages, the heartbeat and the cyclic report, with the
  interval of a link as \<open>varmanage.c\<close> looks it up.

  Shown: the log-in answers a sequence with the MD5 of the sequence and the key; a report is one
  packet with every variable that is due, and starts just their averages again; the interval of a
  link over GPRS is read behind the array of the links.
\<close>

definition PROTO_CC_BJDC :: u16 where "PROTO_CC_BJDC = 1"
definition CC_BJDC_MD5_KEY :: "byte list" where "CC_BJDC_MD5_KEY = lit ''IJKLMNOPQRSTUVWX''"

section \<open>Log-in\<close>

text \<open>
  The digest as text. \<open>szSequence\<close> is read as a string (\<open>None\<close>: nine characters without a
  terminator). The context is an uninitialised local variable.
\<close>

definition bj_digest :: "MD5_CTX \<Rightarrow> byte list \<Rightarrow> byte list option" where
  "bj_digest ctx szSequence = do {
     sequence \<leftarrow> cstr szSequence;
     c \<leftarrow> CC_MD5Update (CC_MD5Init ctx) sequence (word_of_nat (length sequence));
     c \<leftarrow> CC_MD5Update c CC_BJDC_MD5_KEY (word_of_nat (length CC_BJDC_MD5_KEY));
     c \<leftarrow> CC_MD5Final c;
     Some (concat (map hex02 (md_digest c))) }"

text \<open>
  One turn of the loop. A wrong result and a time-out of the first answer make the thread
  disconnect and start again after five seconds; anything else that is not a pass is tried again.
  \<open>arr1\<close> and \<open>arr2\<close> are what the receiver queues while the thread waits.
\<close>

datatype bj_verify = CC_BJDC_VERIFY_PASS | BJ_AGAIN | BJ_DISCONNECT

definition bj_arrive :: "CC_BJDC_Data list \<Rightarrow> bj_link \<Rightarrow> bj_link" where
  "bj_arrive ms st = fold bj_mq_send ms st"

definition rt_mq_recv :: "bj_link \<Rightarrow> CC_BJDC_Data option \<times> bj_link" where
  "rt_mq_recv st = (case bj_mq st of [] \<Rightarrow> (None, st) | x # xs \<Rightarrow> (Some x, st\<lparr>bj_mq := xs\<rparr>))"

definition bj_verify_turn ::
  "bj_lib \<Rightarrow> bj_env \<Rightarrow> MD5_CTX \<Rightarrow> CC_BJDC_Data list \<Rightarrow> CC_BJDC_Data list \<Rightarrow> bj_link \<Rightarrow> (bj_verify \<times> bj_link) option" where
  "bj_verify_turn L e ctx arr1 arr2 st = do {
     st \<leftarrow> cc_bjdc_verify_req L e st;
     (case rt_mq_recv (bj_arrive arr1 st) of
       (None, st) \<Rightarrow> Some (BJ_DISCONNECT, st)
     | (Some (BJ_VERIFY_SEQ szSequence), st) \<Rightarrow> do {
         digest \<leftarrow> bj_digest ctx szSequence;
         st \<leftarrow> cc_bjdc_checkmd5_req L e digest st;
         (case rt_mq_recv (bj_arrive arr2 st) of
           (Some (BJ_VERIFY_RESULT bPass), st) \<Rightarrow> Some (if bPass then CC_BJDC_VERIFY_PASS else BJ_DISCONNECT, st)
         | (_, st) \<Rightarrow> Some (BJ_AGAIN, st)) }
     | (_, st) \<Rightarrow> Some (BJ_AGAIN, st)) }"

section \<open>Intervals\<close>

text \<open>The intervals of the serial ports and of the links; \<open>None\<close> is an index behind an array.\<close>

definition arr_at :: "'a list \<Rightarrow> nat \<Rightarrow> 'a option" where
  "arr_at xs i = (if i < length xs then Some (xs ! i) else None)"

definition lVarManage_GetExtDataUpInterval :: "u32 list \<Rightarrow> u32 list \<Rightarrow> u16 \<Rightarrow> nat \<Rightarrow> u32 option" where
  "lVarManage_GetExtDataUpInterval uart tcpip dev_type dev_num =
     (if uint dev_type \<le> PROTO_DEV_RS_MAX then arr_at uart (unat dev_type)
      else if uint dev_type = PROTO_DEV_NET then arr_at tcpip dev_num
      else if uint dev_type = PROTO_DEV_GPRS then arr_at tcpip (4 + dev_num)
      else Some (-1))"

definition vVarManage_SetExtDataUpInterval :: "u16 \<Rightarrow> nat \<Rightarrow> u32 \<Rightarrow> u32 list \<times> u32 list \<Rightarrow> (u32 list \<times> u32 list) option" where
  "vVarManage_SetExtDataUpInterval dev_type dev_num interval = (\<lambda>(uart, tcpip).
     (if uint dev_type \<le> PROTO_DEV_RS_MAX
      then if unat dev_type < length uart then Some (uart[unat dev_type := interval], tcpip) else None
      else if uint dev_type = PROTO_DEV_NET
      then if dev_num < length tcpip then Some (uart, tcpip[dev_num := interval]) else None
      else if uint dev_type = PROTO_DEV_GPRS
      then if 4 + dev_num < length tcpip then Some (uart, tcpip[4 + dev_num := interval]) else None
      else Some (uart, tcpip)))"

section \<open>One turn of the thread\<close>

text \<open>The averages take the current values.\<close>

definition bj_update_node :: "fpu \<Rightarrow> ptr \<Rightarrow> bj_work \<Rightarrow> bj_work option" where
  "bj_update_node fp q w = do {
     d \<leftarrow> vm_heap (bw_vm w) q;
     let (ok, v) = bVarManage_GetExtValue fp (Some d) 0;
     let x = bw_avg w q;
     let a = xAvgUp x;
     Some (if up_bEnable d \<and> ok
       then w\<lparr>bw_avg := (bw_avg w)(q := x\<lparr>xAvgUp := a\<lparr>va_avg := fp_add fp (va_avg a) v,
         va_cur := fp_narrow fp v, va_count := va_count a + 1\<rparr>\<rparr>)\<rparr> else w) }"

definition bj_update :: "bj_env \<Rightarrow> nat \<Rightarrow> bj_work \<Rightarrow> bj_work option" where
  "bj_update e index w = up_loop bw_vm PROTO_CC_BJDC index (bj_update_node (be_fpu e)) 0 w"

text \<open>The answer to a query: the current values of all variables.\<close>

definition bj_query_node :: "fpu \<Rightarrow> ptr \<Rightarrow> xdoc \<times> bj_work \<Rightarrow> (xdoc \<times> bj_work) option" where
  "bj_query_node fp q = (\<lambda>(xml, w). do {
     d \<leftarrow> vm_heap (bw_vm w) q;
     if up_bEnable d then do {
       nid \<leftarrow> bj_nid w d;
       fid \<leftarrow> bj_fid w d;
       xml \<leftarrow> cc_bjdc_data_add_data nid fid (fp_widen fp (va_cur (xAvgUp (bw_avg w q)))) xml;
       Some (xml, w) }
     else Some (xml, w) })"

definition bj_query :: "bj_lib \<Rightarrow> bj_env \<Rightarrow> nat \<Rightarrow> bj_work \<Rightarrow> bj_work option" where
  "bj_query L e index w = do {
     xml \<leftarrow> cc_bjdc_data_create_reply_or_report_head e 1 False;
     (xml, w) \<leftarrow> up_loop (\<lambda>(xml, w). bw_vm w) PROTO_CC_BJDC index (bj_query_node (be_fpu e)) 0 (xml, w);
     st \<leftarrow> bj_save_send L e 2048 xml (bw_link w);
     Some (w\<lparr>bw_link := st\<rparr>) }"

text \<open>A variable in the cyclic report: when its time has come and it has a value.\<close>

definition bj_due :: "u32 \<Rightarrow> u32 \<Rightarrow> VarAvg \<Rightarrow> bool" where
  "bj_due up_interval t a = (rt_tick_from_millisecond (up_interval * 1000) \<le> t - va_time a \<and> 0 < va_count a)"

definition bj_report_node :: "bj_env \<Rightarrow> u32 \<Rightarrow> ptr \<Rightarrow> xdoc option \<times> bj_work \<Rightarrow> (xdoc option \<times> bj_work) option" where
  "bj_report_node e up_interval q = (\<lambda>(xml, w). do {
     d \<leftarrow> vm_heap (bw_vm w) q;
     if up_bEnable d then do {
       let x = bw_avg w q;
       let a = xAvgUp x;
       let t = be_tick e (bw_reads w);
       let w = w\<lparr>bw_reads := bw_reads w + 1\<rparr>;
       if bj_due up_interval t a then do {
         let value = fp_div (be_fpu e) (va_avg a) (fp_int (be_fpu e) (uint (va_count a)));
         d' \<leftarrow> (case xml of None \<Rightarrow> cc_bjdc_data_create_reply_or_report_head e 1 True | Some d' \<Rightarrow> Some d');
         nid \<leftarrow> bj_nid w d;
         fid \<leftarrow> bj_fid w d;
         d' \<leftarrow> cc_bjdc_data_add_data nid fid value d';
         Some (Some d', w\<lparr>bw_avg := (bw_avg w)(q := x\<lparr>xAvgUp := a\<lparr>va_avg := 0, va_count := 0,
           va_time := be_tick e (bw_reads w)\<rparr>\<rparr>), bw_reads := bw_reads w + 1\<rparr>) }
       else Some (xml, w) }
     else Some (xml, w) })"

definition bj_report :: "bj_lib \<Rightarrow> bj_env \<Rightarrow> nat \<Rightarrow> u32 \<Rightarrow> bj_work \<Rightarrow> bj_work option" where
  "bj_report L e index up_interval w = (if 0 <s up_interval \<and> up_interval <s 180 * 60 then do {
       (xml, w) \<leftarrow> up_loop (\<lambda>(xml, w). bw_vm w) PROTO_CC_BJDC index (bj_report_node e up_interval) 0 (None, w);
       (case xml of None \<Rightarrow> Some w | Some d \<Rightarrow> do {
         st \<leftarrow> bj_save_send L e 2048 d (bw_link w);
         Some (w\<lparr>bw_link := st\<rparr>) }) }
     else Some w)"

section \<open>Messages and the turn\<close>

definition bj_handle :: "bj_lib \<Rightarrow> bj_env \<Rightarrow> nat \<Rightarrow> CC_BJDC_Data \<Rightarrow> bj_work \<Rightarrow> bj_work option" where
  "bj_handle L e index x w = (case x of
      BJ_HEARTBEAT szDate \<Rightarrow> Some (w\<lparr>bw_beat := be_tick e (bw_reads w), bw_reads := bw_reads w + 1\<rparr>)
    | BJ_PERIOD_CFG period \<Rightarrow>
        if 0 <s period then do {
          (uart, tcpip) \<leftarrow> vVarManage_SetExtDataUpInterval (PROTO_DEV_NET_TYPE index) index (period * 60) (bw_uart w, bw_tcpip w);
          Some (w\<lparr>bw_uart := uart, bw_tcpip := tcpip\<rparr>) }
        else Some w
    | BJ_RESTART \<Rightarrow> Some (w\<lparr>bw_reset := True\<rparr>)
    | BJ_DATA_QUERY \<Rightarrow> bj_query L e index w
    | _ \<Rightarrow> Some w)"

definition bj_recv :: "bj_lib \<Rightarrow> bj_env \<Rightarrow> nat \<Rightarrow> bj_work \<Rightarrow> bj_work option" where
  "bj_recv L e index w = (case rt_mq_recv (bw_link w) of
      (None, st) \<Rightarrow> Some w
    | (Some x, st) \<Rightarrow> bj_handle L e index x (w\<lparr>bw_link := st\<rparr>))"

text \<open>A heartbeat once 20 seconds have passed since its last answer.\<close>

definition bj_heartbeat :: "bj_lib \<Rightarrow> bj_env \<Rightarrow> bj_work \<Rightarrow> bj_work option" where
  "bj_heartbeat L e w = (let t = be_tick e (bw_reads w); w = w\<lparr>bw_reads := bw_reads w + 1\<rparr> in
     if rt_tick_from_millisecond (20 * 1000) \<le> t - bw_beat w
     then do { st \<leftarrow> cc_bjdc_heartbeat_req L e (bw_link w); Some (w\<lparr>bw_link := st\<rparr>) }
     else Some w)"

definition bj_interval :: "nat \<Rightarrow> bj_work \<Rightarrow> u32 option" where
  "bj_interval index w = lVarManage_GetExtDataUpInterval (bw_uart w) (bw_tcpip w) (PROTO_DEV_NET_TYPE index) index"

definition bj_turn :: "bj_lib \<Rightarrow> bj_env \<Rightarrow> nat \<Rightarrow> bj_work \<Rightarrow> bj_work option" where
  "bj_turn L e index w = do {
     w \<leftarrow> bj_update e index w;
     w \<leftarrow> bj_recv L e index w;
     w \<leftarrow> bj_heartbeat L e w;
     up_interval \<leftarrow> bj_interval index w;
     bj_report L e index up_interval w }"

section \<open>The report\<close>

text \<open>The names of a variable can be read; its item, and the items of several.\<close>

definition bj_named :: "bj_work \<Rightarrow> ptr \<Rightarrow> bool" where
  "bj_named w q = (\<exists>d. vm_heap (bw_vm w) q = Some d \<and> up_bEnable d \<and> bj_nid w d \<noteq> None \<and> bj_fid w d \<noteq> None)"

definition bj_value :: "bj_env \<Rightarrow> VarAvg \<Rightarrow> u64" where
  "bj_value e a = fp_div (be_fpu e) (va_avg a) (fp_int (be_fpu e) (uint (va_count a)))"

definition bj_item :: "bj_env \<Rightarrow> bj_work \<Rightarrow> ptr \<Rightarrow> (byte list \<times> byte list \<times> u64) list" where
  "bj_item e w q = (let d = the (vm_heap (bw_vm w) q) in case the (bj_fid w d) of
      None \<Rightarrow> [] | Some idex \<Rightarrow> [(the (bj_nid w d), idex, bj_value e (xAvgUp (bw_avg w q)))])"

definition bj_items :: "bj_env \<Rightarrow> bj_work \<Rightarrow> ptr list \<Rightarrow> (byte list \<times> byte list \<times> u64) list" where
  "bj_items e w qs = concat (map (bj_item e w) qs)"

text \<open>A variable without a name for the platform (\<open>szFid\<close>) has no item; every other one has its own.\<close>

definition bj_entry :: "bj_env \<Rightarrow> bj_work \<Rightarrow> ptr \<Rightarrow> byte list \<times> byte list \<times> u64" where
  "bj_entry e w q = (let d = the (vm_heap (bw_vm w) q)
     in (the (bj_nid w d), the (vm_str (bw_vm w) (szFid d)), bj_value e (xAvgUp (bw_avg w q))))"

definition bj_nameless :: "bj_work \<Rightarrow> ptr \<Rightarrow> bool" where
  "bj_nameless w q = (szFid (the (vm_heap (bw_vm w) q)) = 0)"

lemma bj_items_entries:
  assumes "\<forall>q \<in> set qs. bj_named w q"
  shows "bj_items e w qs = map (bj_entry e w) (filter (\<lambda>q. \<not> bj_nameless w q) qs)"
  using assms
proof (induction qs)
  case (Cons q qs)
  then have "bj_item e w q = (if bj_nameless w q then [] else [bj_entry e w q])"
    by (auto simp: bj_named_def bj_item_def bj_fid_def bj_entry_def bj_nameless_def Let_def split: if_splits)
  with Cons show ?case by (simp add: bj_items_def)
qed (simp add: bj_items_def)

text \<open>The average of \<open>q\<close> has been started again, at a tick that was read on the way.\<close>

definition bj_restarted :: "u32 \<Rightarrow> ext_avg \<Rightarrow> ext_avg" where
  "bj_restarted t x = x\<lparr>xAvgUp := (xAvgUp x)\<lparr>va_avg := 0, va_count := 0, va_time := t\<rparr>\<rparr>"

definition bj_again :: "bj_env \<Rightarrow> bj_work \<Rightarrow> bj_work \<Rightarrow> ptr \<Rightarrow> bool" where
  "bj_again e w w' q = (\<exists>n. bw_reads w < n \<and> n < bw_reads w' \<and> bw_avg w' q = bj_restarted (be_tick e n) (bw_avg w q))"

abbreviation add_items :: "meters \<Rightarrow> (byte list \<times> byte list \<times> u64) list \<Rightarrow> meters" where
  "add_items ms items \<equiv> foldl (\<lambda>ms (mid, x). add_item mid x ms) ms items"

text \<open>Whether a variable is due does not change while the report is built.\<close>

definition bj_settled :: "bj_env \<Rightarrow> u32 \<Rightarrow> bj_work \<Rightarrow> (ptr \<Rightarrow> bool) \<Rightarrow> ptr \<Rightarrow> bool" where
  "bj_settled e up_interval w r q = (\<forall>n \<ge> bw_reads w. bj_due up_interval (be_tick e n) (xAvgUp (bw_avg w q)) = r q)"

lemma add_data_item:
  assumes "bj_named w q" "vm_heap (bw_vm w) q = Some d"
  shows "\<exists>nid fid. bj_nid w d = Some nid \<and> bj_fid w d = Some fid
    \<and> cc_bjdc_data_add_data nid fid (bj_value e (xAvgUp (bw_avg w q))) (bj_doc_of e report sequence date ms)
      = Some (bj_doc_of e report sequence date (add_items ms (bj_item e w q)))"
proof -
  obtain nid fid where n: "bj_nid w d = Some nid" "bj_fid w d = Some fid" using assms by (auto simp: bj_named_def)
  show ?thesis
  proof (cases fid)
    case None
    with n assms(2) show ?thesis by (simp add: bj_item_def cc_bjdc_data_add_data_def)
  next
    case (Some idex)
    with n assms(2) show ?thesis by (simp add: bj_item_def Let_def add_data_doc)
  qed
qed

definition bj_frame :: "bj_work \<Rightarrow> bj_work \<Rightarrow> bool" where
  "bj_frame w w' = (w'\<lparr>bw_avg := bw_avg w, bw_reads := bw_reads w\<rparr> = w \<and> bw_reads w \<le> bw_reads w')"

lemma bj_frame_names: "bj_frame w w' \<Longrightarrow> bw_vm w' = bw_vm w \<and> bw_host w' = bw_host w \<and> bw_link w' = bw_link w"
  by (cases w; cases w') (simp add: bj_frame_def)

lemma bj_frame_nid:
  assumes "bj_frame w w'"
  shows "bj_nid w' = bj_nid w \<and> bj_fid w' = bj_fid w \<and> bj_named w' = bj_named w"
proof -
  have n: "bj_nid w' = bj_nid w" "bj_fid w' = bj_fid w"
    using bj_frame_names [OF assms] by (simp_all add: fun_eq_iff bj_nid_def bj_fid_def cong: if_cong)
  then show ?thesis using bj_frame_names [OF assms] by (simp add: fun_eq_iff bj_named_def)
qed

lemma bj_frame_trans: "bj_frame w w' \<Longrightarrow> bj_frame w' w'' \<Longrightarrow> bj_frame w w''"
  by (cases w; cases w'; cases w'') (simp add: bj_frame_def)

text \<open>One variable.\<close>

lemma report_node_step:
  assumes "bj_named w q" "bj_due up_interval (be_tick e (bw_reads w)) (xAvgUp (bw_avg w q)) = r q" "bj_date e = Some date"
    "xml = None \<and> ms = [] \<or> xml = Some (bj_doc_of e True 1 date ms)"
  shows "\<exists>w'. bj_report_node e up_interval q (xml, w)
      = Some (if r q then Some (bj_doc_of e True 1 date (add_items ms (bj_item e w q))) else xml, w')
    \<and> bj_frame w w' \<and> (\<forall>x. x \<noteq> q \<or> \<not> r q \<longrightarrow> bw_avg w' x = bw_avg w x)
    \<and> (r q \<longrightarrow> bj_again e w w' q)"
proof -
  obtain d where d: "vm_heap (bw_vm w) q = Some d" "up_bEnable d" using assms(1) by (auto simp: bj_named_def)
  note due = assms(2)
  have h: "(case xml of None \<Rightarrow> cc_bjdc_data_create_reply_or_report_head e 1 True | Some d' \<Rightarrow> Some d') = Some (bj_doc_of e True 1 date ms)"
    using assms(3,4) by (auto simp: report_head_doc bj_doc_of_def)
  obtain nid fid where n: "bj_nid w d = Some nid" "bj_fid w d = Some fid"
    "cc_bjdc_data_add_data nid fid (bj_value e (xAvgUp (bw_avg w q))) (bj_doc_of e True 1 date ms)
      = Some (bj_doc_of e True 1 date (add_items ms (bj_item e w q)))"
    using add_data_item [OF assms(1) d(1)] by blast
  let ?w = "w\<lparr>bw_reads := bw_reads w + 1\<rparr>"
  have "bj_frame w ?w" by (simp add: bj_frame_def)
  from bj_frame_nid [OF this] have nn: "bj_nid ?w d = Some nid" "bj_fid ?w d = Some fid" using n(1,2) by simp_all
  show ?thesis
  proof (cases "r q")
    case False
    have "bj_report_node e up_interval q (xml, w) = Some (xml, ?w)"
      using False d due by (simp add: bj_report_node_def)
    with False show ?thesis by (intro exI [of _ ?w]) (simp add: bj_frame_def)
  next
    case True
    let ?v = "w\<lparr>bw_avg := (bw_avg w)(q := (bw_avg w q)\<lparr>xAvgUp := (xAvgUp (bw_avg w q))\<lparr>va_avg := 0, va_count := 0,
      va_time := be_tick e (bw_reads w + 1)\<rparr>\<rparr>), bw_reads := bw_reads w + 2\<rparr>"
    have "bj_report_node e up_interval q (xml, w) = Some (Some (bj_doc_of e True 1 date (add_items ms (bj_item e w q))), ?v)"
      using True d due h n(3) nn by (simp add: bj_report_node_def bj_value_def Let_def)
    moreover have "bj_again e w ?v q" unfolding bj_again_def by (intro exI [of _ "bw_reads w + 1"]) (simp add: bj_restarted_def)
    ultimately show ?thesis using True by (intro exI [of _ ?v]) (simp add: bj_frame_def)
  qed
qed

lemma report_run:
  assumes "\<forall>q \<in> set qs. bj_named w q \<and> bj_settled e up_interval w r q" "distinct qs" "bj_date e = Some date"
    "xml = None \<and> ms = [] \<or> xml = Some (bj_doc_of e True 1 date ms)"
  shows "\<exists>w'. runM (bj_report_node e up_interval) qs (xml, w)
      = Some (if filter r qs = [] then xml else Some (bj_doc_of e True 1 date (add_items ms (bj_items e w (filter r qs)))), w')
    \<and> bj_frame w w' \<and> (\<forall>x. x \<notin> set (filter r qs) \<longrightarrow> bw_avg w' x = bw_avg w x)
    \<and> (\<forall>q \<in> set (filter r qs). bj_again e w w' q)"
  using assms(1,2,4)
proof (induction qs arbitrary: xml ms w)
  case Nil
  then show ?case by (intro exI [of _ w]) (simp add: bj_frame_def)
next
  case (Cons q qs)
  let ?x = "if r q then Some (bj_doc_of e True 1 date (add_items ms (bj_item e w q))) else xml"
  let ?m = "if r q then add_items ms (bj_item e w q) else ms"
  obtain v where v: "bj_report_node e up_interval q (xml, w) = Some (?x, v)" "bj_frame w v"
    "\<forall>x. x \<noteq> q \<or> \<not> r q \<longrightarrow> bw_avg v x = bw_avg w x"
    "r q \<longrightarrow> bj_again e w v q"
    using report_node_step [of w q up_interval e r, OF _ _ assms(3) Cons.prems(3)] Cons.prems(1)
    unfolding bj_settled_def by (meson list.set_intros(1) order_refl)
  have keep: "bw_avg v x = bw_avg w x" if "x \<in> set qs" for x using v(3) that Cons.prems(2) by auto
  have pre: "\<forall>x \<in> set qs. bj_named v x \<and> bj_settled e up_interval v r x"
    using Cons.prems(1) keep bj_frame_nid [OF v(2)] v(2) by (auto simp: bj_settled_def bj_frame_def)
  have st: "?x = None \<and> ?m = [] \<or> ?x = Some (bj_doc_of e True 1 date ?m)" using Cons.prems(3) by auto
  have it: "bj_items e v (filter r qs) = bj_items e w (filter r qs)"
    unfolding bj_items_def
    by (intro arg_cong [where f = concat] map_cong refl) (use keep bj_frame_nid [OF v(2)] bj_frame_names [OF v(2)] in \<open>auto simp: bj_item_def Let_def cong: option.case_cong\<close>)
  obtain w' where w': "runM (bj_report_node e up_interval) qs (?x, v)
      = Some (if filter r qs = [] then ?x else Some (bj_doc_of e True 1 date (add_items ?m (bj_items e w (filter r qs)))), w')"
    "bj_frame v w'" "\<forall>x. x \<notin> set (filter r qs) \<longrightarrow> bw_avg w' x = bw_avg v x"
    "\<forall>q \<in> set (filter r qs). bj_again e v w' q"
    using Cons.IH [OF pre _ st] Cons.prems(2) unfolding it by auto
  have r: "runM (bj_report_node e up_interval) (q # qs) (xml, w)
      = Some (if filter r (q # qs) = [] then xml else Some (bj_doc_of e True 1 date (add_items ms (bj_items e w (filter r (q # qs))))), w')"
    using w'(1) v(1) by (simp add: bj_items_def)
  have q: "q \<notin> set (filter r qs)" using Cons.prems(2) by simp
  show ?case
  proof (intro exI conjI)
    show "bj_frame w w'" by (rule bj_frame_trans [OF v(2) w'(2)])
    show "\<forall>x. x \<notin> set (filter r (q # qs)) \<longrightarrow> bw_avg w' x = bw_avg w x" using w'(3) v(3) by auto
    show "\<forall>x \<in> set (filter r (q # qs)). bj_again e w w' x"
    proof
      fix x assume x: "x \<in> set (filter r (q # qs))"
      have m: "bw_reads w \<le> bw_reads v" "bw_reads v \<le> bw_reads w'" using v(2) w'(2) by (simp_all add: bj_frame_def)
      show "bj_again e w w' x"
      proof (cases "x = q")
        case True
        then have "bj_again e w v q" "bw_avg w' q = bw_avg v q" using x v(4) w'(3) q by auto
        with True m(2) show ?thesis unfolding bj_again_def by auto
      next
        case False
        then have "x \<in> set (filter r qs)" using x by (auto split: if_splits)
        then have "bj_again e v w' x" "bw_avg v x = bw_avg w x" using w'(4) v(3) False by blast+
        with m(1) show ?thesis unfolding bj_again_def by (metis order_le_less_trans)
      qed
    qed
  qed (rule r)
qed


text \<open>The loops of the thread visit the variables of the link.\<close>

lemma bj_loops:
  assumes "up_at (bw_vm w) 0 [] ps"
  shows "bj_update e index w = runM (bj_update_node (be_fpu e)) (up_nodes PROTO_CC_BJDC index (bw_vm w) ps) w"
    and "up_loop (\<lambda>(xml, w). bw_vm w) PROTO_CC_BJDC index (bj_query_node fp) 0 (xml, w)
      = runM (bj_query_node fp) (up_nodes PROTO_CC_BJDC index (bw_vm w) ps) (xml, w)"
    and "up_loop (\<lambda>(xml, w). bw_vm w) PROTO_CC_BJDC index (bj_report_node e up_interval) 0 (x, w)
      = runM (bj_report_node e up_interval) (up_nodes PROTO_CC_BJDC index (bw_vm w) ps) (x, w)"
proof -
  show "bj_update e index w = runM (bj_update_node (be_fpu e)) (up_nodes PROTO_CC_BJDC index (bw_vm w) ps) w"
    unfolding bj_update_def
    by (rule up_loop_list [where us = "[]"]) (use assms in \<open>auto simp: bj_update_node_def Let_def split: bind_splits if_splits prod.splits\<close>)
  show "up_loop (\<lambda>(xml, w). bw_vm w) PROTO_CC_BJDC index (bj_query_node fp) 0 (xml, w)
      = runM (bj_query_node fp) (up_nodes PROTO_CC_BJDC index (bw_vm w) ps) (xml, w)"
    by (subst up_loop_list [where us = "[]" and vs = ps])
      (use assms in \<open>auto simp: bj_query_node_def split: bind_splits if_splits\<close>)
  show "up_loop (\<lambda>(xml, w). bw_vm w) PROTO_CC_BJDC index (bj_report_node e up_interval) 0 (x, w)
      = runM (bj_report_node e up_interval) (up_nodes PROTO_CC_BJDC index (bw_vm w) ps) (x, w)"
    by (subst up_loop_list [where us = "[]" and vs = ps])
      (use assms in \<open>auto simp: bj_report_node_def Let_def split: bind_splits if_splits\<close>)
qed

lemma save_send:
  "be_malloc e \<Longrightarrow> be_calloc e \<Longrightarrow>
    bj_save_send L e n d st = Some (st\<lparr>bj_sent := bj_sent st @ [bj_packet (take (n - 1) (mxmlSaveString L d))]\<rparr>)"
  by (simp add: bj_save_send_def cc_bjdc_send_xmlpack_def bj_send_def)

text \<open>
  C7. A cyclic report is one packet that holds every variable of the link that is due and has a
  name for the platform, under the meter of its identifier, with its average, in the order of the
  list and with one meter for each identifier. Exactly the averages of the variables that are due
  are started again: sum and count are 0, the time is a tick read during the report, everything
  else of them is as before. A variable without a name is started again, too, though the packet
  does not hold its average, which is lost; and the text is cut to the 2047 characters of the
  buffer. Nothing is sent when no variable is due.
\<close>

theorem bjdc_report_complete:
  assumes "up_at (bw_vm w) 0 [] ps" "bj_date e = Some date" "be_malloc e" "be_calloc e"
    "0 <s up_interval" "up_interval <s 180 * 60"
    "\<forall>q \<in> set (up_nodes PROTO_CC_BJDC index (bw_vm w) ps). bj_named w q
      \<and> (\<forall>n \<ge> bw_reads w. bj_due up_interval (be_tick e n) (xAvgUp (bw_avg w q)) = r q)"
    "due = filter r (up_nodes PROTO_CC_BJDC index (bw_vm w) ps)"
  shows "\<exists>w' ms. bj_report L e index up_interval w = Some w'
    \<and> bj_sent (bw_link w') = bj_sent (bw_link w) @ (if due = [] then []
        else [bj_packet (take 2047 (mxmlSaveString L (bj_doc_of e True 1 date ms)))])
    \<and> distinct (map fst ms)
    \<and> (\<forall>mid. map_of ms mid = (case map snd (filter (\<lambda>z. fst z = mid)
        (map (bj_entry e w) (filter (\<lambda>q. \<not> bj_nameless w q) due))) of [] \<Rightarrow> None | xs \<Rightarrow> Some xs))
    \<and> (\<forall>q \<in> set due. \<exists>n. bw_reads w < n \<and> n < bw_reads w' \<and> bw_avg w' q = bj_restarted (be_tick e n) (bw_avg w q))
    \<and> (\<forall>q. q \<notin> set due \<longrightarrow> bw_avg w' q = bw_avg w q)"
proof -
  let ?qs = "up_nodes PROTO_CC_BJDC index (bw_vm w) ps"
  have d: "distinct ?qs" using assms(1) chain_distinct by (fastforce simp: up_at_def up_nodes_def)
  have "\<forall>q \<in> set ?qs. bj_named w q \<and> bj_settled e up_interval w r q" using assms(7) by (simp add: bj_settled_def)
  from report_run [OF this d assms(2), of None "[]"] obtain w'
    where w': "runM (bj_report_node e up_interval) ?qs (None, w)
      = Some (if due = [] then None else Some (bj_doc_of e True 1 date (group_items (bj_items e w due))), w')"
    "bj_frame w w'" "\<forall>x. x \<notin> set due \<longrightarrow> bw_avg w' x = bw_avg w x"
    "\<forall>q \<in> set due. bj_again e w w' q"
    unfolding assms(8) [symmetric] group_items_def by blast
  have it: "bj_items e w due = map (bj_entry e w) (filter (\<lambda>q. \<not> bj_nameless w q) due)"
    by (rule bj_items_entries) (use assms(7,8) in simp)
  note l = bj_frame_names [OF w'(2)]
  have run: "bj_report L e index up_interval w = (if due = [] then Some w' else do {
      st \<leftarrow> bj_save_send L e 2048 (bj_doc_of e True 1 date (group_items (bj_items e w due))) (bw_link w);
      Some (w'\<lparr>bw_link := st\<rparr>) })"
    using assms(5,6) w'(1) l by (simp add: bj_report_def bj_loops(3) [OF assms(1)])
  note grp = group_items_grouped [of "bj_items e w due"]
  show ?thesis
  proof (cases "due = []")
    case True
    with run w'(3) l grp show ?thesis unfolding it
      by (intro exI [of _ w'] exI [of _ "group_items []"]) simp
  next
    case False
    let ?ms = "group_items (bj_items e w due)"
    let ?st = "bw_link w\<lparr>bj_sent := bj_sent (bw_link w) @ [bj_packet (take 2047 (mxmlSaveString L (bj_doc_of e True 1 date ?ms)))]\<rparr>"
    have "bj_report L e index up_interval w = Some (w'\<lparr>bw_link := ?st\<rparr>)"
      using False unfolding run save_send [OF assms(3,4)] by simp
    then show ?thesis
      using False w'(3,4) [unfolded bj_again_def] grp unfolding it [symmetric]
      by (intro exI [of _ "w'\<lparr>bw_link := ?st\<rparr>"] exI [of _ ?ms]) simp
  qed
qed

section \<open>A turn\<close>

text \<open>What one step leaves as it was, and how many packets it sends at most.\<close>

definition bj_keeps :: "nat \<Rightarrow> bj_work \<Rightarrow> bj_work \<Rightarrow> bool" where
  "bj_keeps n w w' = (bw_vm w' = bw_vm w \<and> bw_host w' = bw_host w \<and> length (bw_uart w') = length (bw_uart w)
     \<and> length (bw_tcpip w') = length (bw_tcpip w) \<and> (bj_ok (bw_link w) \<longrightarrow> bj_ok (bw_link w'))
     \<and> (\<exists>fs. bj_sent (bw_link w') = bj_sent (bw_link w) @ fs \<and> length fs \<le> n))"

lemma bj_keeps_trans: "bj_keeps m w w' \<Longrightarrow> bj_keeps n w' w'' \<Longrightarrow> bj_keeps (m + n) w w''"
  by (auto simp: bj_keeps_def)

lemma bj_frame_keeps: "bj_frame w w' \<Longrightarrow> bj_keeps 0 w w'"
  by (cases w; cases w') (simp add: bj_frame_def bj_keeps_def)

lemma bj_keeps_send: "bj_keeps n w w' \<Longrightarrow> bj_keeps (Suc n) w (w'\<lparr>bw_link := (bw_link w')\<lparr>bj_sent := bj_sent (bw_link w') @ [f]\<rparr>\<rparr>)"
  by (auto simp: bj_keeps_def bj_ok_def)

lemma bj_keeps_nid:
  assumes "bj_keeps n w w'"
  shows "bj_nid w' = bj_nid w \<and> bj_fid w' = bj_fid w \<and> bj_named w' = bj_named w"
proof -
  have "bj_nid w' = bj_nid w" "bj_fid w' = bj_fid w"
    using assms by (simp_all add: fun_eq_iff bj_nid_def bj_fid_def bj_keeps_def cong: if_cong)
  then show ?thesis using assms by (simp add: fun_eq_iff bj_named_def bj_keeps_def)
qed

lemma runM_total:
  assumes "\<And>q s. q \<in> set qs \<Longrightarrow> P s \<Longrightarrow> \<exists>s'. step q s = Some s' \<and> P s'" "P s"
  shows "\<exists>s'. runM step qs s = Some s' \<and> P s'"
  using assms
proof (induction qs arbitrary: s)
  case (Cons q qs)
  obtain s1 where "step q s = Some s1" "P s1" using Cons.prems by (metis list.set_intros(1))
  moreover have "\<exists>s'. runM step qs s1 = Some s' \<and> P s'" using Cons.IH Cons.prems(1) \<open>P s1\<close> by simp
  ultimately show ?case by simp
qed simp

text \<open>The thread can run: its state is well formed, and the variables of the link have names.\<close>

definition bj_ready :: "nat \<Rightarrow> bj_work \<Rightarrow> bool" where
  "bj_ready index w = (bj_ok (bw_link w) \<and> length (bw_uart w) = 4 \<and> length (bw_tcpip w) = BOARD_TCPIP_MAX
     \<and> (\<exists>ps. up_at (bw_vm w) 0 [] ps \<and> (\<forall>q \<in> set (up_nodes PROTO_CC_BJDC index (bw_vm w) ps). bj_named w q)))"

lemma bj_ready_keeps: "bj_ready index w \<Longrightarrow> bj_keeps n w w' \<Longrightarrow> bj_ready index w'"
  using bj_keeps_nid [of n w w'] by (auto simp: bj_ready_def bj_keeps_def)

lemma bj_ready_nodes:
  assumes "bj_ready index w"
  obtains ps where "up_at (bw_vm w) 0 [] ps"
    "\<And>q w'. q \<in> set (up_nodes PROTO_CC_BJDC index (bw_vm w) ps) \<Longrightarrow> bj_keeps n w w' \<Longrightarrow> bj_named w' q"
  using assms bj_keeps_nid unfolding bj_ready_def by metis

lemma bj_update_total:
  assumes "bj_ready index w"
  shows "\<exists>w'. bj_update e index w = Some w' \<and> bj_keeps 0 w w'"
proof -
  obtain ps where ps: "up_at (bw_vm w) 0 [] ps"
    "\<And>q w'. q \<in> set (up_nodes PROTO_CC_BJDC index (bw_vm w) ps) \<Longrightarrow> bj_keeps 0 w w' \<Longrightarrow> bj_named w' q"
    using bj_ready_nodes [OF assms] by metis
  show ?thesis
    unfolding bj_loops(1) [OF ps(1)]
  proof (rule runM_total)
    fix q s assume q: "q \<in> set (up_nodes PROTO_CC_BJDC index (bw_vm w) ps)" "bj_keeps 0 w s"
    then obtain d where "vm_heap (bw_vm s) q = Some d" using ps(2) by (auto simp: bj_named_def)
    then show "\<exists>s'. bj_update_node (be_fpu e) q s = Some s' \<and> bj_keeps 0 w s'"
      using q(2) by (auto simp: bj_update_node_def Let_def bj_keeps_def split: prod.split)
  qed (simp add: bj_keeps_def)
qed

lemma bj_query_total:
  assumes "bj_ready index w" "bj_date e = Some date" "be_malloc e" "be_calloc e"
  shows "\<exists>w'. bj_query L e index w = Some w' \<and> bj_keeps 1 w w'"
proof -
  obtain ps where ps: "up_at (bw_vm w) 0 [] ps"
    "\<And>q w'. q \<in> set (up_nodes PROTO_CC_BJDC index (bw_vm w) ps) \<Longrightarrow> bj_keeps 0 w w' \<Longrightarrow> bj_named w' q"
    using bj_ready_nodes [OF assms(1)] by metis
  have "\<exists>s'. runM (bj_query_node (be_fpu e)) (up_nodes PROTO_CC_BJDC index (bw_vm w) ps) (bj_doc_of e False 1 date [], w) = Some s'
    \<and> snd s' = w \<and> (\<exists>ms. fst s' = bj_doc_of e False 1 date ms)"
  proof (rule runM_total)
    fix q and s :: "xdoc \<times> bj_work"
    assume q: "q \<in> set (up_nodes PROTO_CC_BJDC index (bw_vm w) ps)" "snd s = w \<and> (\<exists>ms. fst s = bj_doc_of e False 1 date ms)"
    then obtain ms where s: "s = (bj_doc_of e False 1 date ms, w)" by (cases s) auto
    have "bj_named w q" using ps(2) [OF q(1)] by (simp add: bj_keeps_def)
    then obtain d nid fid where d: "vm_heap (bw_vm w) q = Some d" "up_bEnable d" "bj_nid w d = Some nid" "bj_fid w d = Some fid"
      by (auto simp: bj_named_def)
    show "\<exists>s'. bj_query_node (be_fpu e) q s = Some s' \<and> snd s' = w \<and> (\<exists>ms. fst s' = bj_doc_of e False 1 date ms)"
    proof (cases fid)
      case None
      then show ?thesis using d s by (auto simp: bj_query_node_def cc_bjdc_data_add_data_def)
    next
      case (Some idex)
      then show ?thesis using d s by (auto simp: bj_query_node_def add_data_doc)
    qed
  qed auto
  then obtain d where "runM (bj_query_node (be_fpu e)) (up_nodes PROTO_CC_BJDC index (bw_vm w) ps) (bj_doc_of e False 1 date [], w)
      = Some (d, w)" by auto
  moreover have "cc_bjdc_data_create_reply_or_report_head e 1 False = Some (bj_doc_of e False 1 date [])"
    using assms(2) by (simp add: report_head_doc bj_doc_of_def)
  ultimately have "bj_query L e index w = do { st \<leftarrow> bj_save_send L e 2048 d (bw_link w); Some (w\<lparr>bw_link := st\<rparr>) }"
    by (simp add: bj_query_def bj_loops(2) [OF ps(1)])
  moreover have "bj_keeps 0 w w" by (simp add: bj_keeps_def)
  from bj_keeps_send [OF this] have "bj_keeps 1 w (w\<lparr>bw_link := (bw_link w)\<lparr>bj_sent := bj_sent (bw_link w) @ [f]\<rparr>\<rparr>)" for f by simp
  ultimately show ?thesis by (simp add: save_send [OF assms(3,4)])
qed

lemma bj_report_total:
  assumes "bj_ready index w" "bj_date e = Some date" "be_malloc e" "be_calloc e"
  shows "\<exists>w'. bj_report L e index up_interval w = Some w' \<and> bj_keeps 1 w w'"
proof (cases "0 <s up_interval \<and> up_interval <s 180 * 60")
  case False
  then have "bj_report L e index up_interval w = Some w" unfolding bj_report_def by (rule if_not_P)
  then show ?thesis by (simp add: bj_keeps_def)
next
  case True
  obtain ps where ps: "up_at (bw_vm w) 0 [] ps"
    "\<And>q w'. q \<in> set (up_nodes PROTO_CC_BJDC index (bw_vm w) ps) \<Longrightarrow> bj_keeps 0 w w' \<Longrightarrow> bj_named w' q"
    using bj_ready_nodes [OF assms(1)] by metis
  let ?P = "\<lambda>s. bj_keeps 0 w (snd s) \<and> (fst s = None \<or> (\<exists>ms. fst s = Some (bj_doc_of e True 1 date ms)))"
  have "\<exists>s'. runM (bj_report_node e up_interval) (up_nodes PROTO_CC_BJDC index (bw_vm w) ps) (None, w) = Some s' \<and> ?P s'"
  proof (rule runM_total)
    fix q and s :: "xdoc option \<times> bj_work"
    assume q: "q \<in> set (up_nodes PROTO_CC_BJDC index (bw_vm w) ps)" "?P s"
    obtain xml v where s: "s = (xml, v)" by (cases s)
    have v: "bj_keeps 0 w v" and x: "xml = None \<or> (\<exists>ms. xml = Some (bj_doc_of e True 1 date ms))" using q(2) s by simp_all
    then obtain ms where m: "xml = None \<and> ms = [] \<or> xml = Some (bj_doc_of e True 1 date ms)" by blast
    from report_node_step [of v q up_interval e "\<lambda>_. bj_due up_interval (be_tick e (bw_reads v)) (xAvgUp (bw_avg v q))",
        OF ps(2) [OF q(1) v] refl assms(2) m]
    obtain y w' where "bj_report_node e up_interval q (xml, v) = Some (y, w')" "bj_frame v w'"
      "y = xml \<or> (\<exists>ms. y = Some (bj_doc_of e True 1 date ms))" by (fastforce split: if_splits)
    with x bj_keeps_trans [OF v bj_frame_keeps] show "\<exists>s'. bj_report_node e up_interval q s = Some s' \<and> ?P s'"
      unfolding s by (intro exI [of _ "(y, w')"]) auto
  qed (simp add: bj_keeps_def)
  then obtain xml v where r: "runM (bj_report_node e up_interval) (up_nodes PROTO_CC_BJDC index (bw_vm w) ps) (None, w) = Some (xml, v)"
    "bj_keeps 0 w v" by auto
  have "bj_report L e index up_interval w = (case xml of None \<Rightarrow> Some v | Some d \<Rightarrow> do {
      st \<leftarrow> bj_save_send L e 2048 d (bw_link v); Some (v\<lparr>bw_link := st\<rparr>) })"
    using True r(1) by (simp add: bj_report_def bj_loops(3) [OF ps(1)])
  moreover have "bj_keeps 1 w (v\<lparr>bw_link := (bw_link v)\<lparr>bj_sent := bj_sent (bw_link v) @ [f]\<rparr>\<rparr>)" for f
    using bj_keeps_send [OF r(2)] by simp
  moreover have "bj_keeps 1 w v" using r(2) by (auto simp: bj_keeps_def)
  ultimately show ?thesis by (cases xml) (simp_all add: save_send [OF assms(3,4)])
qed

lemma bj_heartbeat_total:
  assumes "be_malloc e" "be_calloc e"
  shows "\<exists>w'. bj_heartbeat L e w = Some w' \<and> bj_keeps 1 w w'"
proof -
  have "bj_keeps 1 w (w\<lparr>bw_reads := n\<rparr>)" for n by (simp add: bj_keeps_def)
  moreover have "bj_keeps 1 w (w\<lparr>bw_reads := n, bw_link := (bw_link w)\<lparr>bj_sent := bj_sent (bw_link w) @ [f]\<rparr>\<rparr>)" for n f
    by (simp add: bj_keeps_def bj_ok_def)
  ultimately show ?thesis
    by (simp add: bj_heartbeat_def Let_def cc_bjdc_heartbeat_req_def save_send [OF assms] split: prod.split)
qed

text \<open>On the Ethernet links the interval is that of the link; a GPRS link is behind the array.\<close>

lemma net_type: "index < 4 \<Longrightarrow> PROTO_DEV_NET_TYPE index = 4" "4 \<le> index \<Longrightarrow> PROTO_DEV_NET_TYPE index = 6"
  by (simp_all add: PROTO_DEV_NET_TYPE_def BOARD_ENET_TCPIP_NUM_def PROTO_DEV_NET_def PROTO_DEV_GPRS_def)

lemma interval_net: "index < 4 \<Longrightarrow> bj_interval index w = arr_at (bw_tcpip w) index"
  by (simp add: bj_interval_def lVarManage_GetExtDataUpInterval_def net_type PROTO_DEV_RS_MAX_def PROTO_DEV_NET_def)

lemma interval_gprs: "4 \<le> index \<Longrightarrow> bj_interval index w = arr_at (bw_tcpip w) (4 + index)"
  by (simp add: bj_interval_def lVarManage_GetExtDataUpInterval_def net_type PROTO_DEV_RS_MAX_def PROTO_DEV_NET_def PROTO_DEV_GPRS_def)

lemma bj_recv_total:
  assumes "bj_ready index w" "bj_date e = Some date" "be_malloc e" "be_calloc e"
  shows "(\<exists>w'. bj_recv L e index w = Some w' \<and> bj_keeps 1 w w') \<or> 4 \<le> index \<and> bj_recv L e index w = None"
proof (cases "bj_mq (bw_link w)")
  case Nil
  then show ?thesis by (simp add: bj_recv_def rt_mq_recv_def bj_keeps_def)
next
  case (Cons x xs)
  let ?w = "w\<lparr>bw_link := (bw_link w)\<lparr>bj_mq := xs\<rparr>\<rparr>"
  have w: "bj_keeps 0 w ?w" "bj_recv L e index w = bj_handle L e index x ?w"
    using Cons by (simp_all add: bj_recv_def rt_mq_recv_def bj_keeps_def bj_ok_def)
  have "(\<exists>w'. bj_handle L e index x ?w = Some w' \<and> bj_keeps 1 ?w w') \<or> 4 \<le> index \<and> bj_handle L e index x ?w = None"
  proof (cases x)
    case (BJ_PERIOD_CFG period)
    then show ?thesis
      using assms(1) net_type [of index]
      by (cases "4 \<le> index") (simp_all add: bj_handle_def bj_keeps_def bj_ready_def vVarManage_SetExtDataUpInterval_def
          PROTO_DEV_RS_MAX_def PROTO_DEV_NET_def PROTO_DEV_GPRS_def BOARD_TCPIP_MAX_def)
  next
    case BJ_DATA_QUERY
    then show ?thesis
      using bj_query_total [OF bj_ready_keeps [OF assms(1) w(1)] assms(2-4)] by (simp add: bj_handle_def)
  qed (simp_all add: bj_handle_def bj_keeps_def)
  with bj_keeps_trans [OF w(1)] show ?thesis unfolding w(2) by fastforce
qed

text \<open>
  C11. On an Ethernet link every turn of the thread runs to its end: from a well-formed state, with
  a message or none in the queue, it comes to a well-formed state again, with the same variables
  and arrays of the same size, and has sent at most three packets.
\<close>

theorem bjdc_turn_total:
  assumes "bj_ready index w" "index < 4" "bj_date e \<noteq> None" "be_malloc e" "be_calloc e"
  shows "\<exists>w' fs. bj_turn L e index w = Some w' \<and> bj_ready index w' \<and> bw_vm w' = bw_vm w
    \<and> bj_sent (bw_link w') = bj_sent (bw_link w) @ fs \<and> length fs \<le> 3"
proof -
  obtain date where date: "bj_date e = Some date" using assms(3) by blast
  obtain w1 where w1: "bj_update e index w = Some w1" "bj_keeps 0 w w1" using bj_update_total [OF assms(1)] by blast
  obtain w2 where w2: "bj_recv L e index w1 = Some w2" "bj_keeps 1 w1 w2"
    using bj_recv_total [OF bj_ready_keeps [OF assms(1) w1(2)] date assms(4,5), of L] assms(2) by auto
  obtain w3 where w3: "bj_heartbeat L e w2 = Some w3" "bj_keeps 1 w2 w3" using bj_heartbeat_total [OF assms(4,5)] by blast
  have k: "bj_keeps 2 w w3" using bj_keeps_trans [OF bj_keeps_trans [OF w1(2) w2(2)] w3(2)] by (simp add: numeral_eq_Suc)
  then have ready: "bj_ready index w3" by (rule bj_ready_keeps [OF assms(1)])
  have i: "\<exists>i. bj_interval index w3 = Some i"
    using ready assms(2) by (simp add: interval_net arr_at_def bj_ready_def BOARD_TCPIP_MAX_def)
  then obtain i where i: "bj_interval index w3 = Some i" ..
  obtain w4 where w4: "bj_report L e index i w3 = Some w4" "bj_keeps 1 w3 w4"
    using bj_report_total [OF ready date assms(4,5)] by blast
  have k4: "bj_keeps 3 w w4" using bj_keeps_trans [OF k w4(2)] by (simp add: numeral_eq_Suc)
  show ?thesis
    using w1(1) w2(1) w3(1) i w4(1) bj_ready_keeps [OF assms(1) k4] k4 by (auto simp: bj_turn_def bj_keeps_def)
qed

text \<open>
  C38. On a GPRS link the interval is read behind the array of the eight links: the number of the
  link already counts the four Ethernet links, and 4 is added again. No turn of the thread is
  defined.
\<close>

theorem bjdc_gprs_interval:
  assumes "4 \<le> index" "bj_ready index w" "bj_date e \<noteq> None" "be_malloc e" "be_calloc e"
  shows "bj_interval index w = None \<and> bj_turn L e index w = None"
proof -
  obtain date where date: "bj_date e = Some date" using assms(3) by blast
  have none: "bj_interval index v = None" if "bj_ready index v" for v
  proof -
    have "length (bw_tcpip v) = 8" using that unfolding bj_ready_def BOARD_TCPIP_MAX_def by blast
    then show ?thesis using assms(1) by (simp add: interval_gprs arr_at_def)
  qed
  obtain w1 where w1: "bj_update e index w = Some w1" "bj_keeps 0 w w1" using bj_update_total [OF assms(2)] by blast
  have r1: "bj_ready index w1" by (rule bj_ready_keeps [OF assms(2) w1(2)])
  consider (stop) "bj_recv L e index w1 = None" | (go) w2 where "bj_recv L e index w1 = Some w2" "bj_keeps 1 w1 w2"
    using bj_recv_total [where L = L, OF r1 date assms(4,5)] by (elim disjE exE conjE)
  then have "bj_turn L e index w = None"
  proof cases
    case go
    obtain w3 where w3: "bj_heartbeat L e w2 = Some w3" "bj_keeps 1 w2 w3" using bj_heartbeat_total [OF assms(4,5)] by blast
    have "bj_ready index w3" using bj_ready_keeps r1 go(2) w3(2) by blast
    with w1(1) go(1) w3(1) show ?thesis by (simp add: bj_turn_def none)
  qed (simp add: bj_turn_def w1(1))
  with none [OF assms(2)] show ?thesis ..
qed

section \<open>The log-in\<close>

lemma arrive_mq:
  assumes "length (bj_mq st) \<le> 3"
  shows "bj_arrive ms st = st\<lparr>bj_mq := take 3 (bj_mq st @ ms)\<rparr>"
  using assms
proof (induction ms arbitrary: st)
  case (Cons m ms)
  have "length (bj_mq (bj_mq_send m st)) \<le> 3" using Cons.prems by (simp add: bj_mq_send_def)
  from Cons.IH [OF this] Cons.prems show ?case
    by (cases "length (bj_mq st) = 3") (auto simp: bj_arrive_def bj_mq_send_def)
qed (simp add: bj_arrive_def)

lemma digest_md5:
  assumes "length (md_in ctx) = 64" "cstr szSequence = Some s" "length s < 2 ^ 32"
  shows "bj_digest ctx szSequence = Some (concat (map hex02 (md5 (s @ CC_BJDC_MD5_KEY))))"
proof -
  have "\<forall>x \<in> set [s, CC_BJDC_MD5_KEY]. length x < 2 ^ 32" using assms(3) by (simp add: CC_BJDC_MD5_KEY_def)
  from md5_updates [OF md5_start [OF assms(1)] this] obtain c
    where c: "CC_MD5_updates (CC_MD5Init ctx) [s, CC_BJDC_MD5_KEY] = Some c" "md5_holds (s @ CC_BJDC_MD5_KEY) c" by auto
  with md5_final [OF c(2)] assms(2) show ?thesis by (auto simp: bj_digest_def split: bind_splits)
qed

text \<open>
  C13. At the log-in the answer to a sequence is the MD5 of the sequence and the key in hexadecimal
  digits, after one request for the sequence. The message that comes next decides: only a result
  \<open>pass\<close> lets the thread go on, another result disconnects, and any other message or none starts
  the log-in again.
\<close>

theorem bjdc_verify_answer:
  assumes "length (md_in ctx) = 64" "cstr szSequence = Some s" "length s < 2 ^ 32" "be_malloc e" "be_calloc e"
    "bj_mq st = []" "arr1 = BJ_VERIFY_SEQ szSequence # late" "length late \<le> 2"
  shows "\<exists>st' request. bj_verify_turn L e ctx arr1 arr2 st
      = Some (case late @ arr2 of BJ_VERIFY_RESULT bPass # _ \<Rightarrow> if bPass then CC_BJDC_VERIFY_PASS else BJ_DISCONNECT
          | _ \<Rightarrow> BJ_AGAIN, st')
    \<and> bj_sent st' = bj_sent st @ [bj_packet (take 511 (mxmlSaveString L request)),
        bj_packet (take 511 (mxmlSaveString L (checkmd5_doc e (concat (map hex02 (md5 (s @ CC_BJDC_MD5_KEY)))))))]"
proof -
  let ?s = "bj_sent st" and ?md5 = "concat (map hex02 (md5 (s @ CC_BJDC_MD5_KEY)))"
  obtain request where r: "bj_request e (lit ''request'') (lit ''id_validate'') (lit ''request'') = (9, request)"
    using request_doc by blast
  have request: "cc_bjdc_verify_req L e x = bj_save_send L e 512 request x" for x
    unfolding cc_bjdc_verify_req_def r by simp
  let ?p = "bj_packet (take 511 (mxmlSaveString L request))"
  let ?a = "st\<lparr>bj_sent := ?s @ [?p], bj_mq := late\<rparr>"
  let ?b = "?a\<lparr>bj_sent := ?s @ [?p] @ [bj_packet (take 511 (mxmlSaveString L (checkmd5_doc e ?md5)))]\<rparr>"
  have 1: "rt_mq_recv (bj_arrive arr1 (st\<lparr>bj_sent := ?s @ [?p]\<rparr>)) = (Some (BJ_VERIFY_SEQ szSequence), ?a)"
    using assms(6-8) by (simp add: arrive_mq rt_mq_recv_def)
  have q: "rt_mq_recv (y\<lparr>bj_mq := take 3 ys\<rparr>) = (case ys of [] \<Rightarrow> (None, y\<lparr>bj_mq := []\<rparr>)
      | x # xs \<Rightarrow> (Some x, y\<lparr>bj_mq := take 2 xs\<rparr>))" for y :: bj_link and ys
    by (cases ys) (simp_all add: rt_mq_recv_def)
  have "length (bj_mq ?b) \<le> 3" using assms(8) by simp
  note 2 = arrive_mq [OF this, of arr2]
  have 3: "bj_verify_turn L e ctx arr1 arr2 st = (case rt_mq_recv (bj_arrive arr2 ?b) of
      (Some (BJ_VERIFY_RESULT bPass), st) \<Rightarrow> Some (if bPass then CC_BJDC_VERIFY_PASS else BJ_DISCONNECT, st)
    | (_, st) \<Rightarrow> Some (BJ_AGAIN, st))"
    by (simp add: bj_verify_turn_def request save_send [OF assms(4,5)] 1 digest_md5 [OF assms(1-3)] cc_bjdc_checkmd5_req_def)
  have "\<exists>st'. bj_verify_turn L e ctx arr1 arr2 st = Some (case late @ arr2 of
        BJ_VERIFY_RESULT bPass # _ \<Rightarrow> if bPass then CC_BJDC_VERIFY_PASS else BJ_DISCONNECT | _ \<Rightarrow> BJ_AGAIN, st')
      \<and> bj_sent st' = bj_sent ?b"
  proof (cases "late @ arr2")
    case Nil
    then show ?thesis unfolding 3 2 q by simp
  next
    case (Cons x xs)
    then show ?thesis unfolding 3 2 q by (cases x) simp_all
  qed
  then show ?thesis by auto
qed

section \<open>The tick counter\<close>

lemma small_interval:
  assumes "0 <s up_interval" "up_interval <s (180 * 60 :: u32)"
  shows "unat up_interval < 10800"
proof -
  have s: "0 < sint up_interval" "sint up_interval < 10800" using assms by (simp_all add: word_sless_alt)
  have "uint up_interval = take_bit 32 (sint up_interval)" by (simp add: uint_sint)
  also have "\<dots> = sint up_interval" using s by (simp add: take_bit_int_eq_self)
  finally have "int (unat up_interval) < 10800" using s(2) by simp
  then show ?thesis by linarith
qed

lemma interval_ticks:
  "unat (rt_tick_from_millisecond (up_interval * 1000)) = (1000000 * unat up_interval + 999) mod 2 ^ 32 div 1000"
proof -
  have "rt_tick_from_millisecond (up_interval * 1000) = word_of_nat (1000000 * unat up_interval + 999) div 1000"
    by (simp add: rt_tick_from_millisecond_def RT_TICK_PER_SECOND_def)
  then show ?thesis by (simp add: unat_div unat_of_nat del: of_nat_add of_nat_mult)
qed

text \<open>
  Of the intervals that the cyclic report accepts, those up to 4294 seconds are kept to the
  millisecond, and every longer one comes too early: the number of ticks is computed through a
  product that does not fit 32 bits. An interval of 72 minutes is one of 25 seconds.
\<close>

theorem bjdc_interval_wraps:
  assumes "0 <s up_interval" "up_interval <s 180 * 60"
  shows "(unat up_interval \<le> 4294 \<longrightarrow> bj_due up_interval t a = (1000 * unat up_interval \<le> unat (t - va_time a) \<and> 0 < va_count a))
    \<and> (4294 < unat up_interval \<longrightarrow> unat (rt_tick_from_millisecond (up_interval * 1000)) < 1000 * unat up_interval)
    \<and> rt_tick_from_millisecond ((72 * 60) * 1000) = 25033"
proof (intro conjI impI)
  let ?n = "unat up_interval"
  note small = small_interval [OF assms]
  show "bj_due up_interval t a = (1000 * ?n \<le> unat (t - va_time a) \<and> 0 < va_count a)" if "?n \<le> 4294"
  proof -
    have "(1000000 * ?n + 999) div 1000 = 1000 * ?n" by linarith
    with that show ?thesis by (simp add: bj_due_def word_le_nat_alt interval_ticks)
  qed
  show "unat (rt_tick_from_millisecond (up_interval * 1000)) < 1000 * ?n" if "4294 < ?n"
  proof -
    have "(1000000 * ?n + 999) mod 2 ^ 32 < 1000000 * ?n"
    proof (cases "1000000 * ?n + 999 < 2 * 2 ^ 32")
      case True
      with that show ?thesis by (simp add: mod_if)
    next
      case False
      then have "(2 :: nat) ^ 32 < 1000000 * ?n" by simp
      moreover have "(1000000 * ?n + 999) mod 2 ^ 32 < 2 ^ 32" by simp
      ultimately show ?thesis by linarith
    qed
    then show ?thesis unfolding interval_ticks by linarith
  qed
  show "rt_tick_from_millisecond ((72 * 60) * 1000) = 25033"
    by (simp add: rt_tick_from_millisecond_def RT_TICK_PER_SECOND_def)
qed

section \<open>Witnesses\<close>

text \<open>The text of a document is that of its nodes. Of three variables the second has no value.\<close>

definition bjw_lib :: bj_lib where
  "bjw_lib = \<lparr>mxmlLoadString = (\<lambda>_. None), mxmlSaveString = (\<lambda>d. concat (map (\<lambda>(k, it). case it of
     XText _ s \<Rightarrow> s | XElem n _ \<Rightarrow> n | _ \<Rightarrow> []) d)), x_name_addr = (\<lambda>d p. 0)\<rparr>"

definition bjw_var :: "ptr \<Rightarrow> ptr \<Rightarrow> ptr \<Rightarrow> ExtData" where
  "bjw_var nid nxt prv = (plain_var 1024 nxt prv)\<lparr>up_bEnable := True, szNid := nid, szFid := 102,
     up_usDevType := 4, up_usDevNum := 0, up_usProtoType := 1\<rparr>"

definition bjw_avg :: "ptr \<Rightarrow> VarAvg" where
  "bjw_avg p = \<lparr>va_time = 0, va_count = (if p = 17 then 0 else 2), va_avg = 6, va_cur = 4, va_min = 0, va_max = 0\<rparr>"

definition bjw :: bj_work where
  "bjw = \<lparr>bw_link = bj_link0, bw_vm = (vars_of [16 \<mapsto> bjw_var 100 17 0, 17 \<mapsto> bjw_var 100 18 16, 18 \<mapsto> bjw_var 0 0 17] 16 3)
       \<lparr>vm_str := [100 \<mapsto> lit ''M1'', 102 \<mapsto> lit ''W'']\<rparr>,
     bw_avg = (\<lambda>p. \<lparr>xAvgUp = bjw_avg p, xAvgMin = bjw_avg p, xAvgHour = bjw_avg p\<rparr>), bw_reads = 0, bw_host = lit ''H'',
     bw_uart = replicate 4 60, bw_tcpip = replicate 8 60, bw_beat = 0, bw_reset = False\<rparr>"

lemma bjw_simps [simp]:
  "vm_heap (bw_vm bjw) = [16 \<mapsto> bjw_var 100 17 0, 17 \<mapsto> bjw_var 100 18 16, 18 \<mapsto> bjw_var 0 0 17]" "vm_list (bw_vm bjw) = 16"
  "vm_str (bw_vm bjw) = [100 \<mapsto> lit ''M1'', 102 \<mapsto> lit ''W'']" "bw_host bjw = lit ''H''" "bw_link bjw = bj_link0"
  "bw_avg bjw p = \<lparr>xAvgUp = bjw_avg p, xAvgMin = bjw_avg p, xAvgHour = bjw_avg p\<rparr>" "bw_reads bjw = 0"
  "ed_next (bjw_var a b c) = b" "up_bEnable (bjw_var a b c)" "szNid (bjw_var a b c) = a" "szFid (bjw_var a b c) = 102"
  by (simp_all add: bjw_def bjw_var_def vars_of_def)

lemma bjw_match: "up_match PROTO_CC_BJDC 0 (bjw_var a b c)"
  by (simp add: up_match_def bjw_var_def plain_var_def net_type PROTO_CC_BJDC_def)

lemma bjw_walk: "up_at (bw_vm bjw) 0 [] [16, 17, 18]" "up_nodes PROTO_CC_BJDC 0 (bw_vm bjw) [16, 17, 18] = [16, 17, 18]"
  by (simp_all add: up_at_def up_nodes_def bjw_match)

lemma bjw_named: "\<forall>q \<in> set [16, 17, 18]. bj_named bjw q"
  by (simp add: bj_named_def bj_nid_def bj_fid_def)

lemma bjw_ready: "bj_ready 0 bjw"
proof -
  have "length (bw_uart bjw) = 4" "length (bw_tcpip bjw) = BOARD_TCPIP_MAX"
    by (simp_all add: bjw_def BOARD_TCPIP_MAX_def)
  moreover have "\<exists>ps. up_at (bw_vm bjw) 0 [] ps \<and> (\<forall>q \<in> set (up_nodes PROTO_CC_BJDC 0 (bw_vm bjw) ps). bj_named bjw q)"
    using bjw_walk(1) bjw_named by (intro exI [of _ "[16, 17, 18]"]) (simp only: bjw_walk(2) simp_thms)
  ultimately show ?thesis unfolding bj_ready_def using link0(2) by simp
qed

lemma bjw_due: "bj_due 60 70000 (bjw_avg p) = (p \<noteq> 17)"
  by (simp add: bj_due_def bjw_avg_def rt_tick_from_millisecond_def RT_TICK_PER_SECOND_def)

theorem bjdc_report_complete_witness:
  "\<exists>w' ms. bj_report bjw_lib bjw_env 0 60 bjw = Some w'
    \<and> bj_sent (bw_link w') = [bj_packet (take 2047 (mxmlSaveString bjw_lib (bj_doc_of bjw_env True 1 (lit ''20160102030405'') ms)))]
    \<and> map_of ms (lit ''M1'') = Some [(lit ''W'', 3)] \<and> map_of ms (lit ''H'') = Some [(lit ''W'', 3)] \<and> map_of ms (lit ''W'') = None
    \<and> va_count (xAvgUp (bw_avg w' 16)) = 0 \<and> va_time (xAvgUp (bw_avg w' 16)) = 70000 \<and> bw_avg w' 17 = bw_avg bjw 17"
proof -
  have v: "bj_value bjw_env (bjw_avg p) = (if p = 17 then 0 else 3)" for p
    by (simp add: bj_value_def bjw_fpu_def bjw_avg_def)
  have i: "map (bj_entry bjw_env bjw) (filter (\<lambda>q. \<not> bj_nameless bjw q) [16, 18])
      = [(lit ''M1'', lit ''W'', 3), (lit ''H'', lit ''W'', 3)]"
    by (simp add: bj_entry_def bj_nameless_def bj_nid_def v)
  have due: "[16, 18] = filter (\<lambda>p. p \<noteq> 17) (up_nodes PROTO_CC_BJDC 0 (bw_vm bjw) [16, 17, 18])"
    unfolding bjw_walk(2) by simp
  have s: "bj_sent (bw_link bjw) = []" by (simp add: bj_link0_def cc_bjdc_open_def)
  have lo: "0 <s (60 :: u32)" "60 <s (180 * 60 :: u32)" by (simp_all add: word_sless_alt)
  have "\<forall>q \<in> set (up_nodes PROTO_CC_BJDC 0 (bw_vm bjw) [16, 17, 18]). bj_named bjw q
      \<and> (\<forall>n \<ge> bw_reads bjw. bj_due 60 (be_tick bjw_env n) (xAvgUp (bw_avg bjw q)) = (q \<noteq> 17))"
    unfolding bjw_walk(2) using bjw_named by (simp add: bjw_due)
  from bjdc_report_complete [OF bjw_walk(1) bjw_date bjw_env_simps(1,2) lo this due, of bjw_lib]
  obtain w' ms where r: "bj_report bjw_lib bjw_env 0 60 bjw = Some w'"
    "bj_sent (bw_link w') = [bj_packet (take 2047 (mxmlSaveString bjw_lib (bj_doc_of bjw_env True 1 (lit ''20160102030405'') ms)))]"
    "\<forall>mid. map_of ms mid = (case map snd (filter (\<lambda>z. fst z = mid) [(lit ''M1'', lit ''W'', 3), (lit ''H'', lit ''W'', 3)])
      of [] \<Rightarrow> None | xs \<Rightarrow> Some xs)"
    "\<forall>q \<in> set [16, 18]. \<exists>n. bw_reads bjw < n \<and> n < bw_reads w' \<and> bw_avg w' q = bj_restarted (be_tick bjw_env n) (bw_avg bjw q)" "\<forall>q. q \<notin> set [16, 18] \<longrightarrow> bw_avg w' q = bw_avg bjw q"
    unfolding i s by (auto simp del: lit_Cons)
  have "map_of ms (lit ''M1'') = Some [(lit ''W'', 3)] \<and> map_of ms (lit ''H'') = Some [(lit ''W'', 3)] \<and> map_of ms (lit ''W'') = None"
    using r(3) by simp
  moreover have "va_count (xAvgUp (bw_avg w' 16)) = 0 \<and> va_time (xAvgUp (bw_avg w' 16)) = 70000" "bw_avg w' 17 = bw_avg bjw 17"
    using r(4,5) by (auto simp: bj_restarted_def)
  ultimately show ?thesis using r(1,2) by blast
qed

theorem bjdc_turn_total_witness:
  "\<exists>w' fs. bj_turn bjw_lib bjw_env 0 bjw = Some w' \<and> bj_ready 0 w' \<and> bw_vm w' = bw_vm bjw
    \<and> bj_sent (bw_link w') = bj_sent (bw_link bjw) @ fs \<and> length fs \<le> 3"
  using bjdc_turn_total [OF bjw_ready, of bjw_env bjw_lib] bjw_date by simp

lemma bjw_gprs: "bj_ready 5 bjw"
proof -
  have "\<not> up_match PROTO_CC_BJDC 5 (bjw_var a b c)" for a b c
    by (simp add: up_match_def bjw_var_def net_type)
  then have "up_nodes PROTO_CC_BJDC 5 (bw_vm bjw) [16, 17, 18] = []" by (simp add: up_nodes_def)
  then have "\<exists>ps. up_at (bw_vm bjw) 0 [] ps \<and> (\<forall>q \<in> set (up_nodes PROTO_CC_BJDC 5 (bw_vm bjw) ps). bj_named bjw q)"
    by (intro exI [of _ "[16, 17, 18]"]) (simp only: bjw_walk list.set ball_simps simp_thms)
  with bjw_ready show ?thesis by (simp only: bj_ready_def simp_thms)
qed

theorem bjdc_gprs_interval_witness: "bj_interval 5 bjw = None \<and> bj_turn bjw_lib bjw_env 5 bjw = None"
  by (rule bjdc_gprs_interval [OF _ bjw_gprs]) (simp_all add: bjw_date)

theorem bjdc_verify_answer_witness:
  "\<exists>st' request. bj_verify_turn bjw_lib bjw_env \<lparr>md_i0 = 7, md_i1 = 7, md_buf = [], md_in = replicate 64 1, md_digest = []\<rparr>
        [BJ_VERIFY_SEQ (lit ''12345678'' @ [0])] [BJ_VERIFY_RESULT True] bj_link0 = Some (CC_BJDC_VERIFY_PASS, st')
    \<and> bj_sent st' = [bj_packet (take 511 (mxmlSaveString bjw_lib request)), bj_packet (take 511 (mxmlSaveString bjw_lib
        (checkmd5_doc bjw_env (concat (map hex02 (md5 (lit ''12345678'' @ CC_BJDC_MD5_KEY)))))))]"
proof -
  have c: "cstr (lit ''12345678'' @ [0]) = Some (lit ''12345678'')" by (simp add: cstr_def)
  have l: "length (lit ''12345678'') < 2 ^ 32" by simp
  have m: "length (md_in \<lparr>md_i0 = 7, md_i1 = 7, md_buf = [], md_in = replicate 64 1, md_digest = []\<rparr>) = 64" by simp
  have s: "bj_sent bj_link0 = []" by (simp add: bj_link0_def cc_bjdc_open_def)
  show ?thesis
    using bjdc_verify_answer [OF m c l _ _ link0(3) refl, of bjw_env "[]" bjw_lib "[BJ_VERIFY_RESULT True]"]
    unfolding s by (simp del: lit_Cons)
qed

theorem bjdc_interval_wraps_witness:
  "bj_due 60 70000 (bjw_avg 16) = (1000 * 60 \<le> unat (70000 - va_time (bjw_avg 16)) \<and> 0 < va_count (bjw_avg 16))
   \<and> unat (rt_tick_from_millisecond (4295 * 1000)) < 1000 * 4295"
  using bjdc_interval_wraps [of 60 70000 "bjw_avg 16"] bjdc_interval_wraps [of 4295 0 "bjw_avg 16"] by (simp add: word_sless_alt)

end
