(* ===== verification/CFloat.thy ===== *)
theory CFloat
  imports Complex_Main "HOL-Library.Log_Nat"
begin

text \<open>
  The floating-point arithmetic of the C code: a \<open>float\<close> is an IEEE 754 binary32 number, a
  \<open>double\<close> a binary64 number, and an operation yields its exact result rounded to the nearest
  number of the format, ties to the even one. A number is a sign and a magnitude, an exact
  rational; the operations modelled here make no NaN. The rounding computes.
\<close>

section \<open>Rounding\<close>

definition round_even :: "rat \<Rightarrow> int" where
  "round_even q = (let n = \<lfloor>q\<rfloor>; f = q - of_int n in
     if f < 1 / 2 \<or> (f = 1 / 2 \<and> even n) then n else n + 1)"

text \<open>The binary exponent of a positive number: \<open>2 powi e \<le> q < 2 powi (e + 1)\<close>.\<close>

definition fp_exp :: "rat \<Rightarrow> int" where
  "fp_exp q = (let (a, b) = quotient_of q; k = bitlen a - bitlen b in if 2 powi k \<le> q then k else k - 1)"

text \<open>A magnitude rounded to \<open>p\<close> bits, with the spacing of the exponent \<open>emin\<close> below \<open>2 powi emin\<close>.\<close>

definition fp_mag :: "int \<Rightarrow> int \<Rightarrow> rat \<Rightarrow> rat" where
  "fp_mag p emin q = (if q = 0 then 0 else
     let u = 2 powi (max emin (fp_exp q) - (p - 1)) in of_int (round_even (q / u)) * u)"

datatype fnum = Fin bool rat | Inf bool

definition fp_num :: "int \<Rightarrow> int \<Rightarrow> int \<Rightarrow> bool \<Rightarrow> rat \<Rightarrow> fnum" where
  "fp_num p emin emax s q = (let r = fp_mag p emin q in if 2 powi (emax + 1) \<le> r then Inf s else Fin s r)"

definition f32 :: "bool \<Rightarrow> rat \<Rightarrow> fnum" where "f32 = fp_num 24 (-126) 127"
definition f64 :: "bool \<Rightarrow> rat \<Rightarrow> fnum" where "f64 = fp_num 53 (-1022) 1023"

text \<open>The conversion of a \<open>double\<close> to \<open>float\<close>, and the division of a \<open>float\<close> by a positive constant.\<close>

fun to_f32 :: "fnum \<Rightarrow> fnum" where
  "to_f32 (Fin s q) = f32 s q"
| "to_f32 (Inf s) = Inf s"

fun f32_div :: "fnum \<Rightarrow> rat \<Rightarrow> fnum" where
  "f32_div (Fin s q) c = f32 s (q / c)"
| "f32_div (Inf s) c = Inf s"

text \<open>The value of a number, \<open>None\<close> for an infinity.\<close>

fun fval :: "fnum \<Rightarrow> rat option" where
  "fval (Fin s q) = Some (if s then - q else q)"
| "fval (Inf s) = None"

text \<open>The \<open>float\<close> for a rational number within the range of the format, and what numbers it has.\<close>

definition f32_near :: "rat \<Rightarrow> rat" where
  "f32_near v = (if v < 0 then - fp_mag 24 (-126) (- v) else fp_mag 24 (-126) v)"

definition is_f32 :: "rat \<Rightarrow> bool" where
  "is_f32 y = (\<exists>m k. y = of_int m * 2 powi k \<and> \<bar>m\<bar> < 2 ^ 24 \<and> -149 \<le> k \<and> k \<le> 104)"

section \<open>The rounding is right\<close>

lemma round_even_int [simp]: "round_even (of_int n) = n"
  by (simp add: round_even_def)

lemma round_even_cases: "round_even q = \<lfloor>q\<rfloor> \<and> q - of_int \<lfloor>q\<rfloor> \<le> 1 / 2 \<or> round_even q = \<lfloor>q\<rfloor> + 1 \<and> 1 / 2 \<le> q - of_int \<lfloor>q\<rfloor>"
  by (auto simp: round_even_def Let_def)

lemma round_even_err: "\<bar>of_int (round_even q) - q\<bar> \<le> 1 / 2"
  using round_even_cases [of q] of_int_floor_le [of q] real_of_int_floor_add_one_gt floor_correct [of q] by auto

lemma round_even_nearest: "\<bar>of_int (round_even q) - q\<bar> \<le> \<bar>of_int m - q\<bar>"
proof (cases "m \<le> \<lfloor>q\<rfloor>")
  case True
  then have "of_int m \<le> (of_int \<lfloor>q\<rfloor> :: rat)" by simp
  then show ?thesis using round_even_cases [of q] floor_correct [of q] by auto
next
  case False
  then have "\<lfloor>q\<rfloor> + 1 \<le> m" by simp
  then have "of_int (\<lfloor>q\<rfloor> + 1) \<le> (of_int m :: rat)" by (simp only: of_int_le_iff)
  then show ?thesis using round_even_cases [of q] floor_correct [of q] by auto
qed

abbreviation pow2 :: "int \<Rightarrow> rat" where "pow2 k \<equiv> 2 powi k"

lemma pow2_pos: "0 < pow2 k"
  by simp

lemma pow2_le_iff: "(pow2 a \<le> pow2 b) = (a \<le> b)"
  using power_int_increasing [of a b "2 :: rat"] power_int_strict_increasing [of b a "2 :: rat"] by (cases "a \<le> b") auto

lemma pow2_less_iff: "(pow2 a < pow2 b) = (a < b)"
  using pow2_le_iff [of b a] by auto

lemma pow2_add: "pow2 (a + b) = pow2 a * pow2 b"
  by (simp add: power_int_add)

lemma pow2_diff: "pow2 (a - b) = pow2 a / pow2 b"
  by (simp add: power_int_diff)

lemma pow2_Suc: "pow2 (a + 1) = 2 * pow2 a"
  by (simp add: pow2_add)

lemma pow2_nat: "0 \<le> k \<Longrightarrow> pow2 k = of_int (2 ^ nat k)"
  by (simp add: power_int_def)

lemma bitlen_pow2_bounds:
  assumes "0 < a"
  shows "pow2 (bitlen a - 1) \<le> of_int a" "of_int a < pow2 (bitlen a)"
proof -
  have b: "1 \<le> bitlen a" using assms bitlen_eq_zero_iff [of a] bitlen_nonneg [of a] by linarith
  have "2 ^ nat (bitlen a - 1) \<le> a" "a < 2 ^ nat (bitlen a)" using bitlen_bounds [OF assms] by auto
  then have "of_int (2 ^ nat (bitlen a - 1)) \<le> (of_int a :: rat)" "of_int a < (of_int (2 ^ nat (bitlen a)) :: rat)"
    by (simp_all only: of_int_le_iff of_int_less_iff)
  then show "pow2 (bitlen a - 1) \<le> of_int a" "of_int a < pow2 (bitlen a)"
    using b by (simp_all only: pow2_nat [of "bitlen a - 1"] pow2_nat [of "bitlen a"])
qed

lemma fp_exp_bounds:
  assumes "0 < q"
  shows "pow2 (fp_exp q) \<le> q" "q < pow2 (fp_exp q + 1)"
proof -
  obtain a b where ab: "quotient_of q = (a, b)" by fastforce
  have b: "0 < b" by (rule quotient_of_denom_pos [OF ab])
  have q: "q = of_int a / of_int b" by (rule quotient_of_div [OF ab])
  have a: "0 < a" using assms b unfolding q by (simp add: zero_less_divide_iff)
  define k where "k = bitlen a - bitlen b"
  note la = bitlen_pow2_bounds [OF a] and lb = bitlen_pow2_bounds [OF b]
  have B: "0 < (of_int b :: rat)" using b by simp
  have "q < pow2 (bitlen a) / pow2 (bitlen b - 1)"
    unfolding q using la(2) lb(1) pow2_pos [of "bitlen b - 1"] a b by (intro frac_less) auto
  then have up: "q < pow2 (k + 1)" by (simp add: pow2_diff [symmetric] k_def algebra_simps)
  have "pow2 (bitlen a - 1) / pow2 (bitlen b) \<le> q"
    unfolding q using la(1) lb(2) a b by (intro frac_le) auto
  then have lo: "pow2 (k - 1) \<le> q" by (simp add: pow2_diff [symmetric] k_def algebra_simps)
  have e: "fp_exp q = (if pow2 k \<le> q then k else k - 1)" by (simp add: fp_exp_def ab k_def)
  show "pow2 (fp_exp q) \<le> q" "q < pow2 (fp_exp q + 1)" using up lo by (auto simp: e)
qed

lemma fp_exp_ge: "0 < q \<Longrightarrow> pow2 k \<le> q \<Longrightarrow> k \<le> fp_exp q"
  using fp_exp_bounds(2) [of q] pow2_less_iff [of k "fp_exp q + 1"] by linarith

lemma fp_exp_le: "0 < q \<Longrightarrow> q \<le> pow2 k \<Longrightarrow> fp_exp q \<le> k"
  using fp_exp_bounds(1) [of q] pow2_le_iff [of "fp_exp q" k] by linarith

lemma fp_mag_multiple:
  assumes "0 < q" "q = of_int m * pow2 (max emin (fp_exp q) - (p - 1))"
  shows "fp_mag p emin q = q"
proof -
  let ?u = "pow2 (max emin (fp_exp q) - (p - 1))"
  have "q / ?u = of_int m * ?u / ?u" using assms(2) by (rule arg_cong)
  then have "q / ?u = of_int m" by simp
  then show ?thesis using assms by (simp add: fp_mag_def Let_def del: of_int_mult)
qed

text \<open>A natural number of at most \<open>p\<close> bits is a number of the format.\<close>

lemma fp_mag_int:
  assumes "0 \<le> n" "n \<le> 2 ^ nat p" "1 \<le> p" "emin \<le> 0"
  shows "fp_mag p emin (of_int n) = of_int n"
proof (cases "n = 0")
  case False
  let ?q = "of_int n :: rat" and ?e = "fp_exp (of_int n)"
  have q: "0 < ?q" using assms(1) False by simp
  have "1 \<le> n" using assms(1) False by simp
  then have "pow2 0 \<le> ?q" by simp
  then have e0: "0 \<le> ?e" by (rule fp_exp_ge [OF q])
  have "?q \<le> of_int (2 ^ nat p)" using assms(2) by (simp only: of_int_le_iff)
  then have np: "?q \<le> pow2 p" using assms(3) by (simp only: pow2_nat)
  then have ep: "?e \<le> p" by (rule fp_exp_le [OF q])
  have mx: "max emin ?e = ?e" using e0 assms(4) by simp
  show ?thesis
  proof (cases "?e = p")
    case True
    then have "?q = pow2 p" using np fp_exp_bounds(1) [OF q] by simp
    also have "\<dots> = pow2 (p - 1) * pow2 1" by (simp only: pow2_add [symmetric]) simp
    finally have "?q = pow2 (p - 1) * pow2 1" .
    moreover have "pow2 (p - 1) = of_int (2 ^ nat (p - 1))" using assms(3) by (intro pow2_nat) simp
    moreover have "max emin ?e - (p - 1) = 1" using trans [OF mx True] by linarith
    ultimately have "?q = of_int (2 ^ nat (p - 1)) * pow2 (max emin ?e - (p - 1))" by (simp only:)
    then show ?thesis by (rule fp_mag_multiple [OF q])
  next
    case False
    then have "0 \<le> p - 1 - ?e" using ep by simp
    then have "of_int (n * 2 ^ nat (p - 1 - ?e)) = ?q * pow2 (p - 1 - ?e)" by (simp only: of_int_mult pow2_nat)
    then have "of_int (n * 2 ^ nat (p - 1 - ?e)) * pow2 (max emin ?e - (p - 1))
        = ?q * (pow2 (p - 1 - ?e) * pow2 (?e - (p - 1)))" by (simp only: mx mult.assoc)
    also have "pow2 (p - 1 - ?e) * pow2 (?e - (p - 1)) = 1" by (simp only: pow2_add [symmetric]) simp
    finally have "?q = of_int (n * 2 ^ nat (p - 1 - ?e)) * pow2 (max emin ?e - (p - 1))" by (simp only: mult_1_right)
    then show ?thesis by (rule fp_mag_multiple [OF q])
  qed
qed (simp add: fp_mag_def)

text \<open>The error of a rounding is at most half a unit of the last place.\<close>

lemma fp_mag_err:
  assumes "0 < q" "pow2 emin \<le> q"
  shows "\<bar>fp_mag p emin q - q\<bar> \<le> q / pow2 p"
proof -
  let ?e = "fp_exp q"
  let ?u = "pow2 (?e - (p - 1))"
  have "max emin ?e = ?e" using fp_exp_ge [OF assms] by simp
  then have "fp_mag p emin q = of_int (round_even (q / ?u)) * ?u"
    using assms(1) by (simp add: fp_mag_def Let_def)
  moreover have "q = (q / ?u) * ?u" by simp
  ultimately have "fp_mag p emin q - q = (of_int (round_even (q / ?u)) - q / ?u) * ?u"
    by (metis left_diff_distrib)
  then have "\<bar>fp_mag p emin q - q\<bar> = \<bar>of_int (round_even (q / ?u)) - q / ?u\<bar> * ?u"
    by (simp only: abs_mult) simp
  also have "\<dots> \<le> 1 / 2 * ?u"
    using round_even_err [of "q / ?u"] pow2_pos [of "?e - (p - 1)"] by (intro mult_right_mono) simp_all
  also have "1 / 2 * ?u = pow2 ?e / pow2 p"
  proof -
    have "?e - (p - 1) = ?e - p + 1" by simp
    then have "?u = 2 * pow2 (?e - p)" by (simp only: pow2_Suc)
    then show ?thesis by (simp add: pow2_diff)
  qed
  also have "\<dots> \<le> q / pow2 p"
    using fp_exp_bounds(1) [OF assms(1)] pow2_pos [of p] by (intro divide_right_mono) simp_all
  finally show ?thesis .
qed

lemma fp_mag_zero [simp]: "fp_mag p emin 0 = 0"
  by (simp add: fp_mag_def)

text \<open>
  No number of the format is nearer: a number with a spacing no finer than the rounded one's is
  a multiple of that spacing, any other is at most \<open>pow2 (fp_exp q)\<close>, which is a multiple, too.
\<close>

lemma fp_mag_nearest:
  assumes "0 < q" "\<bar>m\<bar> \<le> 2 ^ nat p" "1 \<le> p" "emin - (p - 1) \<le> k"
  shows "\<bar>fp_mag p emin q - q\<bar> \<le> \<bar>of_int m * pow2 k - q\<bar>"
proof -
  define e where "e = max emin (fp_exp q)"
  define u where "u = pow2 (e - (p - 1))"
  have u: "0 < u" by (simp add: u_def)
  have r: "fp_mag p emin q = of_int (round_even (q / u)) * u"
    using assms(1) by (simp add: fp_mag_def Let_def u_def e_def)
  have near: "\<bar>fp_mag p emin q - q\<bar> \<le> \<bar>of_int j * u - q\<bar>" for j
  proof -
    have "of_int i * u - q = (of_int i - q / u) * u" for i using u by (simp add: left_diff_distrib)
    then show ?thesis unfolding r
      using round_even_nearest [of "q / u" j] u by (simp add: abs_mult)
  qed
  show ?thesis
  proof (cases "e - (p - 1) \<le> k")
    case True
    have "pow2 k = pow2 (k - (e - (p - 1))) * u" unfolding u_def by (simp only: pow2_add [symmetric]) simp
    also have "pow2 (k - (e - (p - 1))) = of_int (2 ^ nat (k - (e - (p - 1))))" using True by (intro pow2_nat) simp
    finally have "of_int m * pow2 k = of_int (m * 2 ^ nat (k - (e - (p - 1)))) * u" by (simp only: of_int_mult mult.assoc)
    then show ?thesis using near [of "m * 2 ^ nat (k - (e - (p - 1)))"] by (simp only:)
  next
    case False
    then have e: "e = fp_exp q" "k \<le> e - p" using assms(4) by (auto simp: e_def)
    have "of_int m \<le> pow2 p" using assms(2,3) of_int_le_iff [of m "2 ^ nat p", where 'a = rat] by (simp add: pow2_nat)
    then have "of_int m * pow2 k \<le> pow2 p * pow2 k" by (intro mult_right_mono) simp_all
    also have "\<dots> \<le> pow2 e" using e(2) by (simp only: pow2_add [symmetric] pow2_le_iff)
    finally have "of_int m * pow2 k \<le> pow2 e" .
    moreover have "pow2 e \<le> q" using fp_exp_bounds(1) [OF assms(1)] by (simp add: e(1))
    moreover have "pow2 e = pow2 (p - 1) * u" unfolding u_def by (simp only: pow2_add [symmetric]) simp
    then have "pow2 e = of_int (2 ^ nat (p - 1)) * u" using assms(3) pow2_nat [of "p - 1"] by simp
    ultimately show ?thesis using near [of "2 ^ nat (p - 1)"] by simp
  qed
qed

lemma f32_near_nearest:
  assumes "is_f32 y"
  shows "\<bar>f32_near v - v\<bar> \<le> \<bar>y - v\<bar>"
proof -
  obtain m k where y: "y = of_int m * pow2 k" "\<bar>m\<bar> < 2 ^ 24" "-149 \<le> k"
    using assms by (auto simp: is_f32_def)
  consider "v = 0" | "0 < v" | "v < 0" by linarith
  then show ?thesis
  proof cases
    case 2
    then show ?thesis using fp_mag_nearest [of v m 24 "-126" k] y by (simp add: f32_near_def)
  next
    case 3
    then show ?thesis using fp_mag_nearest [of "- v" "- m" 24 "-126" k] y by (simp add: f32_near_def abs_minus_commute)
  qed (simp add: f32_near_def)
qed

text \<open>And it is a number of the format.\<close>

lemma round_even_range:
  assumes "0 \<le> q" "q < of_int n"
  shows "0 \<le> round_even q" "round_even q \<le> n"
proof -
  have "0 \<le> \<lfloor>q\<rfloor>" "\<lfloor>q\<rfloor> < n" using assms by (simp_all add: floor_less_iff)
  then show "0 \<le> round_even q" "round_even q \<le> n" using round_even_cases [of q] by auto
qed

lemma is_f32_le:
  assumes "\<bar>m\<bar> \<le> 2 ^ 24" "-149 \<le> k" "k < 104"
  shows "is_f32 (of_int m * pow2 k)"
proof (cases "\<bar>m\<bar> = 2 ^ 24")
  case True
  then have "m = sgn m * 2 ^ 23 * 2" using sgn_mult_abs [of m] by simp
  then have "of_int m * pow2 k = of_int (sgn m * 2 ^ 23) * pow2 (k + 1)" by (metis mult.assoc of_int_mult of_int_numeral pow2_Suc)
  moreover have "\<bar>sgn m * 2 ^ 23\<bar> < 2 ^ 24" using True by (simp add: abs_mult sgn_if)
  moreover have "-149 \<le> k + 1" "k + 1 \<le> 104" using assms by simp_all
  ultimately show ?thesis unfolding is_f32_def by blast
next
  case False
  then have "\<bar>m\<bar> < 2 ^ 24" using assms(1) by simp
  then show ?thesis using assms(2,3) unfolding is_f32_def by (intro exI [of _ m] exI [of _ k]) simp
qed

lemma f32_near_is_f32:
  assumes "\<bar>v\<bar> < pow2 126"
  shows "is_f32 (f32_near v)"
proof (cases "v = 0")
  case False
  define q where "q = \<bar>v\<bar>"
  have q: "0 < q" "q < pow2 126" using False assms by (simp_all add: q_def)
  define k where "k = max (-126) (fp_exp q) - (24 - 1)"
  have "pow2 (fp_exp q) < pow2 126" by (rule le_less_trans [OF fp_exp_bounds(1) [OF q(1)] q(2)])
  then have "fp_exp q < 126" by (simp only: pow2_less_iff)
  then have k: "-149 \<le> k" "k < 104" by (auto simp: k_def)
  have "q < pow2 (k + 24)"
    using fp_exp_bounds(2) [OF q(1)] pow2_le_iff [of "fp_exp q + 1" "k + 24"] by (simp add: k_def)
  also have "pow2 (k + 24) = of_int (2 ^ 24) * pow2 k" using pow2_nat [of 24] by (simp add: pow2_add)
  finally have "q / pow2 k < of_int (2 ^ 24)" by (simp only: pos_divide_less_eq [OF pow2_pos])
  then have r: "0 \<le> round_even (q / pow2 k)" "round_even (q / pow2 k) \<le> 2 ^ 24"
    using round_even_range [of "q / pow2 k" "2 ^ 24"] q(1) by simp_all
  have "f32_near v = (if v < 0 then - fp_mag 24 (-126) q else fp_mag 24 (-126) q)" by (simp add: f32_near_def q_def)
  also have "fp_mag 24 (-126) q = of_int (round_even (q / pow2 k)) * pow2 k"
    using q(1) by (simp add: fp_mag_def Let_def k_def)
  finally have "f32_near v = of_int (if v < 0 then - round_even (q / pow2 k) else round_even (q / pow2 k)) * pow2 k" by simp
  then show ?thesis using r k by (simp only:) (intro is_f32_le, auto)
next
  case True
  then show ?thesis unfolding is_f32_def by (intro exI [of _ 0] exI [of _ 0]) (simp add: f32_near_def)
qed

section \<open>A decimal reading\<close>

lemma fp_mag_small: "0 \<le> q \<Longrightarrow> pow2 emin \<le> q \<or> q = 0 \<Longrightarrow> 0 \<le> p \<Longrightarrow> fp_mag p emin q \<le> 2 * q"
proof -
  assume q: "0 \<le> q" "pow2 emin \<le> q \<or> q = 0" "0 \<le> p"
  have "1 \<le> pow2 p" using q(3) by simp
  then have "q / pow2 p \<le> q" using q(1) by (simp add: divide_le_eq mult_le_cancel_left1)
  then show ?thesis using q fp_mag_err [of q emin p] by (cases "q = 0") auto
qed

lemma fp_num_fin:
  assumes "0 \<le> q" "pow2 emin \<le> q \<or> q = 0" "0 \<le> p" "2 * q < pow2 (emax + 1)"
  shows "fp_num p emin emax s q = Fin s (fp_mag p emin q)"
  using fp_mag_small [OF assms(1-3)] assms(4) by (simp add: fp_num_def Let_def)

lemma f64_int:
  assumes "0 \<le> n" "n < 10 ^ 8"
  shows "f64 s (of_int n) = Fin s (of_int n)"
proof -
  have m: "fp_mag 53 (-1022) (of_int n) = of_int n" using assms by (intro fp_mag_int) simp_all
  have "pow2 27 \<le> pow2 1024" by (simp only: pow2_le_iff)
  moreover have "of_int n < pow2 27" using assms(2) by (simp add: power_int_def)
  ultimately show ?thesis unfolding f64_def fp_num_def by (simp add: m)
qed

lemma f32_mag:
  assumes "q = 0 \<or> 1 / 10 ^ 4 \<le> q" "q < 10 ^ 8 + 10 ^ 7"
  shows "f32 s q = Fin s (fp_mag 24 (-126) q)"
  unfolding f32_def
proof (rule fp_num_fin)
  have "pow2 (-126) \<le> pow2 (-14)" by (simp only: pow2_le_iff)
  also have "pow2 (-14) = 1 / 2 ^ 14" by (simp add: power_int_minus inverse_eq_divide)
  also have "\<dots> \<le> 1 / 10 ^ 4" by simp
  finally show "pow2 (-126) \<le> q \<or> q = 0" using assms(1) by auto
  have "2 * q < pow2 28" using assms(2) by (simp add: power_int_def)
  also have "pow2 28 \<le> pow2 (127 + 1)" by (simp only: pow2_le_iff)
  finally show "2 * q < pow2 (127 + 1)" .
qed (use assms in auto)

text \<open>
  The \<open>float\<close> of an integer divided by a power of ten: the quotient rounded when the integer has at most 24
  bits, and in any case at most two roundings off.
\<close>

lemma f32_quotient:
  assumes "0 \<le> n" "n < 10 ^ 8" "c \<in> {10, 100, 1000, 10000}"
  shows "\<exists>r. f32_div (to_f32 (Fin s (of_int n))) c = Fin s r \<and> \<bar>r - of_int n / c\<bar> \<le> of_int n / c / 2 ^ 22
     \<and> (n \<le> 2 ^ 24 \<longrightarrow> r = fp_mag 24 (-126) (of_int n / c))"
proof -
  let ?n = "of_int n :: rat" and ?R = "fp_mag 24 (-126)"
  have n: "0 \<le> ?n" "?n < 10 ^ 8" using assms(1,2) by simp_all
  have n1: "n = 0 \<or> 1 \<le> ?n" using assms(1) by auto
  have c: "10 \<le> c" "c \<le> 10 ^ 4" using assms(3) by auto
  have err: "\<bar>?R q - q\<bar> \<le> q / 2 ^ 24" if "q = 0 \<or> 1 / 10 ^ 4 \<le> q" for q
  proof (cases "q = 0")
    case False
    with that have q: "1 / 10 ^ 4 \<le> q" by simp
    have "pow2 (-126) \<le> pow2 (-14)" by (simp only: pow2_le_iff)
    also have "pow2 (-14) = 1 / 2 ^ 14" by (simp add: power_int_minus inverse_eq_divide)
    finally have "pow2 (-126) \<le> q" using q by simp
    then show ?thesis using fp_mag_err [of q "-126" 24] q by (simp add: power_int_def)
  qed simp
  have e1: "\<bar>?R ?n - ?n\<bar> \<le> ?n / 2 ^ 24" using n1 by (intro err) auto
  have ex: "?R ?n = ?n" if "n \<le> 2 ^ 24" using that assms(1) by (intro fp_mag_int) simp_all
  have x: "f32 s ?n = Fin s (?R ?n)" using n n1 by (intro f32_mag) auto
  have ge: "n = 0 \<or> 1 \<le> ?R ?n"
  proof (cases "n \<le> 2 ^ 24")
    case True
    then show ?thesis using ex n1 by simp
  next
    case False
    have "1 \<le> a" if "\<bar>a - v\<bar> \<le> v / 2 ^ 24" "2 ^ 24 < v" for a v :: rat
    proof -
      have "v - a \<le> v / 2 ^ 24" using that(1) by (simp only: abs_le_iff) linarith
      then show ?thesis using that(2) by (simp add: field_simps)
    qed
    moreover from False have "2 ^ 24 < ?n" by simp
    ultimately show ?thesis using e1 by blast
  qed
  have "a \<le> 10 ^ 8 + 6" if "\<bar>a - v\<bar> \<le> v / 2 ^ 24" "v < 10 ^ 8" for a v :: rat
  proof -
    have "a - v \<le> v / 2 ^ 24" using that(1) by (simp only: abs_le_iff)
    then show ?thesis using that(2) by (simp add: field_simps)
  qed
  from this [OF e1 n(2)] have le: "?R ?n \<le> 10 ^ 8 + 6" .
  have q: "?R ?n / c = 0 \<or> 1 / 10 ^ 4 \<le> ?R ?n / c"
  proof (cases "n = 0")
    case False
    then have "1 / 10 ^ 4 \<le> ?R ?n / c" using ge c by (intro frac_le) auto
    then show ?thesis ..
  qed simp
  have "?R ?n / c \<le> ?R ?n / 10" using ge c divide_left_mono [of 10 c "?R ?n"] by (cases "n = 0") simp_all
  also have "?R ?n / 10 < 10 ^ 8 + 10 ^ 7" using le by simp
  finally have "?R ?n / c < 10 ^ 8 + 10 ^ 7" .
  then have r: "f32 s (?R ?n / c) = Fin s (?R (?R ?n / c))" by (intro f32_mag q)
  have e2: "\<bar>?R (?R ?n / c) - ?R ?n / c\<bar> \<le> ?R ?n / c / 2 ^ 24" by (rule err [OF q])
  have e3: "\<bar>?R ?n / c - ?n / c\<bar> \<le> ?n / c / 2 ^ 24"
  proof -
    have "?R ?n / c - ?n / c = (?R ?n - ?n) / c" by (simp add: diff_divide_distrib)
    then have "\<bar>?R ?n / c - ?n / c\<bar> = \<bar>?R ?n - ?n\<bar> / c" using c by simp
    also have "\<dots> \<le> ?n / 2 ^ 24 / c" using e1 c by (intro divide_right_mono) simp_all
    finally show ?thesis by (simp add: mult.commute)
  qed
  have tri: "\<bar>a - v\<bar> \<le> v / 2 ^ 22" if "\<bar>a - b\<bar> \<le> b / 2 ^ 24" "\<bar>b - v\<bar> \<le> v / 2 ^ 24" "0 \<le> v" for a b v :: rat
  proof -
    have "\<bar>a - v\<bar> \<le> \<bar>a - b\<bar> + \<bar>b - v\<bar>" "b \<le> v + \<bar>b - v\<bar>" by simp_all
    moreover have "x + y \<le> v / 4194304" if "x \<le> b / 16777216" "y \<le> v / 16777216" "b \<le> v + y" for x y
      using that \<open>0 \<le> v\<close> by linarith
    ultimately show ?thesis using that by simp
  qed
  have "\<bar>?R (?R ?n / c) - ?n / c\<bar> \<le> ?n / c / 2 ^ 22" using n c by (intro tri [OF e2 e3]) simp
  then show ?thesis using x r ex by simp
qed


text \<open>The same with a sign, against the rational number it stands for.\<close>

lemma f32_reading:
  assumes "\<bar>k\<bar> < 10 ^ 8" "c \<in> {10, 100, 1000, 10000}" "s \<Longrightarrow> k \<le> 0" "\<not> s \<Longrightarrow> 0 \<le> k"
  defines "v \<equiv> of_int k / c"
  shows "\<exists>w. fval (f32_div (to_f32 (Fin s (of_int \<bar>k\<bar>))) c) = Some w \<and> \<bar>w - v\<bar> \<le> \<bar>v\<bar> / 2 ^ 22
     \<and> (\<bar>v\<bar> * c \<le> 2 ^ 24 \<longrightarrow> w = f32_near v)"
proof -
  have c: "0 < c" using assms(2) by auto
  obtain r where r: "f32_div (to_f32 (Fin s (of_int \<bar>k\<bar>))) c = Fin s r" "\<bar>r - of_int \<bar>k\<bar> / c\<bar> \<le> of_int \<bar>k\<bar> / c / 2 ^ 22"
    "\<bar>k\<bar> \<le> 2 ^ 24 \<longrightarrow> r = fp_mag 24 (-126) (of_int \<bar>k\<bar> / c)"
    using f32_quotient [of "\<bar>k\<bar>" c s] assms(1,2) by auto
  define w where "w = (if s then - r else r)"
  have av: "\<bar>v\<bar> = of_int \<bar>k\<bar> / c" using c by (simp add: v_def)
  have v: "v = (if s then - (of_int \<bar>k\<bar> / c) else of_int \<bar>k\<bar> / c)"
    using assms(3,4) by (cases s) (simp_all add: v_def)
  have "\<bar>w - v\<bar> = \<bar>r - of_int \<bar>k\<bar> / c\<bar>" by (simp add: w_def v abs_minus_commute)
  then have err: "\<bar>w - v\<bar> \<le> \<bar>v\<bar> / 2 ^ 22" using r(2) by (simp only: av)
  have "\<bar>v\<bar> * c = of_int \<bar>k\<bar>" unfolding av using c by simp
  then have "\<bar>v\<bar> * c \<le> 2 ^ 24 \<longleftrightarrow> of_int \<bar>k\<bar> \<le> (of_int (2 ^ 24) :: rat)" by simp
  then have b: "\<bar>v\<bar> * c \<le> 2 ^ 24 \<longleftrightarrow> \<bar>k\<bar> \<le> 2 ^ 24" by (simp only: of_int_le_iff)
  have near: "f32_near v = (if s then - fp_mag 24 (-126) \<bar>v\<bar> else fp_mag 24 (-126) \<bar>v\<bar>)"
    using assms(3,4) c by (cases "k = 0") (auto simp: f32_near_def v_def divide_less_0_iff)
  have "w = f32_near v" if "\<bar>k\<bar> \<le> 2 ^ 24" using r(3) that by (simp only: near av w_def)
  moreover have "fval (Fin s r) = Some w" by (simp add: w_def)
  ultimately show ?thesis unfolding r(1) using err b by blast
qed

text \<open>
  220.3 V and the first hundredth beyond 24 bits: 167772.17 kWh is 16777217 hundredths, which
  \<open>float\<close> rounds down before the division, to 167772.15625 instead of 167772.171875.
\<close>

lemma f32_examples:
  "f32_div (to_f32 (Fin False 2203)) 10 = Fin False (14437581 / 65536)"
  "f32_near (2203 / 10) = 14437581 / 65536"
  "f32_div (to_f32 (Fin False 16777217)) 100 = Fin False (5368709 / 32)"
  "f32_near (16777217 / 100) = 10737419 / 64"
  by code_simp+

end
