(* ===== verification/Dlt645.thy ===== *)
theory Dlt645
  imports Complex_Main Crc CText CFloat
begin

text \<open>
  The DL/T 645-2007 electricity-meter protocol (\<open>sdccp/dlt645.c\<close>, \<open>sdccp/dlt645.h\<close>) and the
  part of the serial layer that collects its frames (\<open>sdccp/sdccp_serial.c\<close>): the packet
  builder \<open>vCreatePaket\<close>, the requests, the decoding of measured values, the frame parser
  \<open>Dlt645_PutBytes\<close> with the message queue of one result per port, and the waiting loop of
  \<open>bDlt645ReadData\<close>. Measured values are \<open>double\<close> and \<open>float\<close> numbers with the roundings of the code
  (\<open>CFloat\<close>). \<open>None\<close> is an access outside a buffer.
\<close>

unbundle bit_operations_syntax

section \<open>Constants and data\<close>

definition DLT645_PRE :: byte where "DLT645_PRE = 0x68"
definition DLT645_MID :: byte where "DLT645_MID = 0x68"
definition DLT645_EOM :: byte where "DLT645_EOM = 0x16"

definition C_CODE_CHECK_TIME :: byte where "C_CODE_CHECK_TIME = 0x08"
definition C_CODE_READ_DATA :: byte where "C_CODE_READ_DATA = 0x11"
definition C_CODE_READ_ADDR :: byte where "C_CODE_READ_ADDR = 0x13"
definition C_CODE_SET_BAUD :: byte where "C_CODE_SET_BAUD = 0x17"

definition ENERGY_DATA_MARK_A0 :: u32 where "ENERGY_DATA_MARK_A0 = 0x00000000"
definition ENERGY_DATA_MARK_A4 :: u32 where "ENERGY_DATA_MARK_A4 = 0x00000400"
definition ENERGY_DATA_MARK_D0 :: u32 where "ENERGY_DATA_MARK_D0 = 0x00030000"
definition ENERGY_DATA_MARK_D4 :: u32 where "ENERGY_DATA_MARK_D4 = 0x00030400"
definition ENERGY_DATA_MARK_E0 :: u32 where "ENERGY_DATA_MARK_E0 = 0x00040000"
definition ENERGY_DATA_MARK_E4 :: u32 where "ENERGY_DATA_MARK_E4 = 0x00040400"
definition ENERGY_DATA_MARK_67 :: u32 where "ENERGY_DATA_MARK_67 = 0x00440000"
definition VAR_DATA_MARK_00 :: u32 where "VAR_DATA_MARK_00 = 0x02010100"
definition VAR_DATA_MARK_03 :: u32 where "VAR_DATA_MARK_03 = 0x0201FF00"
definition VAR_DATA_MARK_04 :: u32 where "VAR_DATA_MARK_04 = 0x02020100"
definition VAR_DATA_MARK_07 :: u32 where "VAR_DATA_MARK_07 = 0x0202FF00"
definition VAR_DATA_MARK_08 :: u32 where "VAR_DATA_MARK_08 = 0x02030000"
definition VAR_DATA_MARK_16 :: u32 where "VAR_DATA_MARK_16 = 0x0205FF00"
definition VAR_DATA_MARK_17 :: u32 where "VAR_DATA_MARK_17 = 0x02060000"
definition VAR_DATA_MARK_1B :: u32 where "VAR_DATA_MARK_1B = 0x0206FF00"
definition VAR_DATA_MARK_1C :: u32 where "VAR_DATA_MARK_1C = 0x02070100"
definition VAR_DATA_MARK_1F :: u32 where "VAR_DATA_MARK_1F = 0x02070400"

text \<open>The control field, bit fields from the least significant bit: 5, 1, 1, 1.\<close>

record S_DLT645_C =
  C_CODE :: byte
  FCK :: bool
  ACK :: bool
  DIR :: bool

definition con_byte :: "S_DLT645_C \<Rightarrow> byte" where
  "con_byte c = (C_CODE c AND 0x1F) OR (if FCK c then 0x20 else 0) OR (if ACK c then 0x40 else 0)
     OR (if DIR c then 0x80 else 0)"

definition byte_con :: "byte \<Rightarrow> S_DLT645_C" where
  "byte_con b = \<lparr>C_CODE = b AND 0x1F, FCK = bit b 5, ACK = bit b 6, DIR = bit b 7\<rparr>"

record S_DLT645_Time =
  t_YY :: byte
  t_MM :: byte
  t_DD :: byte
  t_hh :: byte
  t_mm :: byte
  t_ss :: byte

datatype S_DLT645_BAUD = BAUD_600BPS | BAUD_1200BPS | BAUD_2400BPS | BAUD_4800BPS | BAUD_9600BPS | BAUD_19200BPS

fun baud_byte :: "S_DLT645_BAUD \<Rightarrow> byte" where
  "baud_byte BAUD_600BPS = 0x02"
| "baud_byte BAUD_1200BPS = 0x04"
| "baud_byte BAUD_2400BPS = 0x08"
| "baud_byte BAUD_4800BPS = 0x10"
| "baud_byte BAUD_9600BPS = 0x20"
| "baud_byte BAUD_19200BPS = 0x40"

record S_DLT645_Result =
  res_index :: nat
  res_addr :: "byte list"
  res_op :: u32
  res_val :: fnum

record dlt645 =
  gDlt645Addr :: "byte list"
  s_dlt645_queue :: "nat \<Rightarrow> S_DLT645_Result list option"
  send_registered :: bool
  dl_sent :: "(nat \<times> byte list) list"

text \<open>The module's start: no queue, no send function, the wildcard address.\<close>

definition dlt645_start :: dlt645 where
  "dlt645_start = \<lparr>gDlt645Addr = replicate 6 0xaa, s_dlt645_queue = (\<lambda>_. None),
     send_registered = False, dl_sent = []\<rparr>"

text \<open>\<open>mq_ok\<close>: whether \<open>rt_mq_create\<close> succeeds. The function is registered only then.\<close>

definition dlt645_init :: "nat \<Rightarrow> bool \<Rightarrow> dlt645 \<Rightarrow> dlt645" where
  "dlt645_init index mq_ok st =
     (if mq_ok then st\<lparr>s_dlt645_queue := (s_dlt645_queue st)(index := Some []), send_registered := True\<rparr>
      else st\<lparr>s_dlt645_queue := (s_dlt645_queue st)(index := None)\<rparr>)"

section \<open>Building packets\<close>

definition CheckSum :: "byte list \<Rightarrow> byte" where
  "CheckSum buf = foldl (+) 0 buf"

text \<open>The packet is built in \<open>static mdBYTE buf[64]\<close>.\<close>

definition packet_body :: "byte list \<Rightarrow> S_DLT645_C \<Rightarrow> byte \<Rightarrow> byte list \<Rightarrow> byte list" where
  "packet_body xAddr xCon xDataLen d =
     [DLT645_PRE] @ xAddr @ [DLT645_MID, con_byte xCon, xDataLen] @ d"

definition vCreatePaket ::
  "byte list \<Rightarrow> S_DLT645_C \<Rightarrow> byte list option \<Rightarrow> byte \<Rightarrow> byte list option" where
  "vCreatePaket xAddr xCon pData xDataLen = do {
     d \<leftarrow> (case pData of
            None \<Rightarrow> Some []
          | Some p \<Rightarrow> if unat xDataLen \<le> length p then Some (take (unat xDataLen) p) else None);
     let body = packet_body xAddr xCon xDataLen d;
     let pkt = body @ [CheckSum body, DLT645_EOM];
     if length pkt \<le> 64 then Some pkt else None }"

definition dl_send :: "nat \<Rightarrow> byte list \<Rightarrow> dlt645 \<Rightarrow> dlt645" where
  "dl_send index pbuf st =
     (if send_registered st then st\<lparr>dl_sent := dl_sent st @ [(index, pbuf)]\<rparr> else st)"

definition host_con :: "byte \<Rightarrow> S_DLT645_C" where
  "host_con code = \<lparr>C_CODE = code, FCK = False, ACK = False, DIR = False\<rparr>"

text \<open>The broadcast of the time; the caller's record comes back with the offset added.\<close>

definition vDlt645RequestCheckTime ::
  "byte list \<Rightarrow> S_DLT645_Time \<Rightarrow> dlt645 \<Rightarrow> (S_DLT645_Time \<times> dlt645) option" where
  "vDlt645RequestCheckTime xaddr ptime st = do {
     let p = \<lparr>t_YY = t_YY ptime + 0x33, t_MM = t_MM ptime + 0x33, t_DD = t_DD ptime + 0x33,
       t_hh = t_hh ptime + 0x33, t_mm = t_mm ptime + 0x33, t_ss = t_ss ptime + 0x33\<rparr>;
     pbuf \<leftarrow> vCreatePaket xaddr (host_con C_CODE_CHECK_TIME)
       (Some [t_YY p, t_MM p, t_DD p, t_hh p, t_mm p, t_ss p]) 6;
     Some (p, dl_send 0 pbuf st) }"

definition vDlt645ReadAddr :: "dlt645 \<Rightarrow> dlt645 option" where
  "vDlt645ReadAddr st = do {
     pbuf \<leftarrow> vCreatePaket (replicate 6 0xaa) (host_con C_CODE_READ_ADDR) None 0;
     Some (dl_send 3 pbuf st) }"

definition vDlt645ResponAddr :: "dlt645 \<Rightarrow> dlt645 option" where
  "vDlt645ResponAddr st = do {
     let xaddr = [0x12, 0x34, 0x56, 0x78, 0x90, 0x1A];
     pbuf \<leftarrow> vCreatePaket xaddr \<lparr>C_CODE = C_CODE_READ_ADDR, FCK = False, ACK = False, DIR = True\<rparr> (Some xaddr) 6;
     Some (dl_send 0 pbuf st) }"

definition vDlt645SetBaud :: "byte list \<Rightarrow> S_DLT645_BAUD \<Rightarrow> dlt645 \<Rightarrow> dlt645 option" where
  "vDlt645SetBaud xaddr baud st = do {
     pbuf \<leftarrow> vCreatePaket xaddr (host_con C_CODE_SET_BAUD) (Some [baud_byte baud]) 1;
     Some (dl_send 0 pbuf st) }"

text \<open>
  The request for a value and the wait for its answer. \<open>arrivals\<close> are the results that the
  successive \<open>rt_mq_recv\<close> calls of the loop return before one of them times out; the
  first, non-waiting call empties the queue of an answer to an earlier request. The result
  record holds the last result received.
\<close>

fun wait_result :: "byte list \<Rightarrow> u32 \<Rightarrow> S_DLT645_Result list \<Rightarrow> S_DLT645_Result option \<Rightarrow> bool \<times> S_DLT645_Result option" where
  "wait_result xaddr op [] r0 = (False, r0)"
| "wait_result xaddr op (r # rs) r0 =
     (if res_addr r = xaddr \<and> res_op r = op then (True, Some r) else wait_result xaddr op rs (Some r))"

definition bDlt645ReadData ::
  "nat \<Rightarrow> byte list \<Rightarrow> u32 \<Rightarrow> S_DLT645_Result list \<Rightarrow> dlt645 \<Rightarrow>
   (bool \<times> S_DLT645_Result option \<times> dlt645) option" where
  "bDlt645ReadData index xaddr DataMarker arrivals st = do {
     let datamarker = DataMarker + 0x33333333;
     pbuf \<leftarrow> vCreatePaket xaddr (host_con C_CODE_READ_DATA) (Some (bytes_le32 datamarker)) 4;
     let (stale, q) = (case s_dlt645_queue st index of
         Some (r # rs) \<Rightarrow> (Some r, Some rs) | q \<Rightarrow> (None, q));
     let st = dl_send index pbuf (st\<lparr>s_dlt645_queue := (s_dlt645_queue st)(index := q)\<rparr>);
     Some (case q of
         None \<Rightarrow> (False, stale, st)
       | Some _ \<Rightarrow> let (ok, r) = wait_result xaddr DataMarker arrivals stale in (ok, r, st)) }"

section \<open>Decoding values\<close>

text \<open>
  \<open>atof\<close> on the texts the code prints: a sign, decimal digits and, since \<open>%02x\<close> may print
  an \<open>e\<close>, an exponent. \<open>atof_num\<close> is the number that is written, \<open>atof\<close> the \<open>double\<close>.
\<close>

definition atof_num :: "byte list \<Rightarrow> rat" where
  "atof_num s = (let m = of_int (atoi_digits s); r = dropWhile is_digit s in
     if takeWhile is_digit s \<noteq> [] \<and> r \<noteq> [] \<and> hd r = 0x65 \<and> takeWhile is_digit (tl r) \<noteq> []
     then m * 10 ^ nat (atoi_digits (tl r)) else m)"

definition atof :: "byte list \<Rightarrow> fnum" where
  "atof s = (case s of
      [] \<Rightarrow> f64 False 0
    | c # r \<Rightarrow> if c = 0x2d then f64 True (atof_num r) else f64 False (atof_num s))"

text \<open>Both decoders take the offset off in place; the changed bytes are returned, too.\<close>

definition DataToDouble :: "byte list \<Rightarrow> fnum \<times> byte list" where
  "DataToDouble pData =
     (let d = map (\<lambda>b. b - 0x33) pData;
          datas = (if 1 \<le> length d \<and> length d \<le> 4 then concat (map hex02 (rev d)) else [])
      in (atof datas, d))"

text \<open>\<open>pData[len-1] && 0x80\<close> is the logical conjunction: true for every top byte but zero.\<close>

definition DataToDouble_signed :: "byte list \<Rightarrow> fnum \<times> byte list" where
  "DataToDouble_signed pData =
     (let d = map (\<lambda>b. b - 0x33) pData;
          datas = (if 1 \<le> length d \<and> length d \<le> 4 then
             (if last d \<noteq> 0 \<and> (0x80 :: byte) \<noteq> 0 then [0x2d] else []) @ hex02 (last d AND 0x7f)
               @ concat (map hex02 (rev (butlast d)))
             else [])
      in (atof datas, d))"

text \<open>Reads in the receive buffer at an absolute index, \<open>None\<close> outside of it.\<close>

definition rd :: "byte list \<Rightarrow> int \<Rightarrow> byte option" where
  "rd mem j = (if 0 \<le> j \<and> j < int (length mem) then Some (mem ! nat j) else None)"

definition rds :: "byte list \<Rightarrow> nat \<Rightarrow> nat \<Rightarrow> byte list option" where
  "rds mem i n = (if i + n \<le> length mem then Some (slice mem i n) else None)"

text \<open>
  The value of a data item by its marker; \<open>pData\<close> is the position of its \<open>len\<close> bytes in the
  buffer, which are read only when \<open>len\<close> is the length the marker asks for. The decoder's \<open>double\<close>
  is stored as a \<open>float\<close> and divided by a \<open>float\<close> constant. The result is the status, the
  value (that of the caller's variable when the status is false) and the buffer afterwards.
\<close>

definition convert ::
  "(byte list \<Rightarrow> fnum \<times> byte list) \<Rightarrow> rat \<Rightarrow> byte list \<Rightarrow> nat \<Rightarrow> nat \<Rightarrow> (bool \<times> fnum \<times> byte list) option" where
  "convert f scale mem pData len = do {
     d \<leftarrow> rds mem pData len;
     let (v, d') = f d;
     let floatData = to_f32 v;
     Some (True, f32_div floatData scale, blit mem pData d') }"

definition vPraseData :: "byte list \<Rightarrow> nat \<Rightarrow> nat \<Rightarrow> u32 \<Rightarrow> (bool \<times> fnum \<times> byte list) option" where
  "vPraseData mem pData len DataMark =
     (if len \<le> 0 then Some (False, Fin False 0, mem)
      else if ENERGY_DATA_MARK_A0 \<le> DataMark \<and> DataMark \<le> ENERGY_DATA_MARK_67 then
        (if len = 4 then
           convert (if (ENERGY_DATA_MARK_A0 \<le> DataMark \<and> DataMark \<le> ENERGY_DATA_MARK_A4)
                 \<or> (ENERGY_DATA_MARK_D0 \<le> DataMark \<and> DataMark \<le> ENERGY_DATA_MARK_D4)
                 \<or> (DataMark \<le> ENERGY_DATA_MARK_E0 \<and> ENERGY_DATA_MARK_E4 \<le> DataMark)
               then DataToDouble_signed else DataToDouble) 100 mem pData len
         else Some (False, Fin False 0, mem))
      else if VAR_DATA_MARK_00 \<le> DataMark \<and> DataMark \<le> VAR_DATA_MARK_03 then
        (if len = 2 then convert DataToDouble 10 mem pData len else Some (False, Fin False 0, mem))
      else if VAR_DATA_MARK_04 \<le> DataMark \<and> DataMark \<le> VAR_DATA_MARK_07 then
        (if len = 3 then convert DataToDouble_signed 1000 mem pData len else Some (False, Fin False 0, mem))
      else if VAR_DATA_MARK_08 \<le> DataMark \<and> DataMark \<le> VAR_DATA_MARK_16 then
        (if len = 3 then convert DataToDouble_signed 10000 mem pData len else Some (False, Fin False 0, mem))
      else if VAR_DATA_MARK_17 \<le> DataMark \<and> DataMark \<le> VAR_DATA_MARK_1B then
        (if len = 2 then convert DataToDouble 1000 mem pData len else Some (False, Fin False 0, mem))
      else if VAR_DATA_MARK_1C \<le> DataMark \<and> DataMark \<le> VAR_DATA_MARK_1F then
        (if len = 2 then convert DataToDouble 10 mem pData len else Some (False, Fin False 0, mem))
      else Some (False, Fin False 0, mem))"

section \<open>Parsing frames\<close>

text \<open>\<open>rt_mq_send\<close> on a queue of one message.\<close>

definition mq_send1 :: "nat \<Rightarrow> S_DLT645_Result \<Rightarrow> dlt645 \<Rightarrow> dlt645" where
  "mq_send1 index r st = (case s_dlt645_queue st index of
      Some [] \<Rightarrow> st\<lparr>s_dlt645_queue := (s_dlt645_queue st)(index := Some [r])\<rparr>
    | _ \<Rightarrow> st)"

text \<open>
  \<open>Dlt645_ParsePack\<close> on the frame that starts at \<open>i\<close>: its control byte, its length byte and
  its data at \<open>i + 10\<close>. The buffer is returned with the offset taken off the value bytes.
\<close>

definition Dlt645_ParsePack ::
  "nat \<Rightarrow> nat \<Rightarrow> byte list \<Rightarrow> dlt645 \<Rightarrow> (byte list \<times> dlt645) option" where
  "Dlt645_ParsePack index i mem st =
     (let xAddr = slice mem (i + 1) 6;
          xCon = byte_con (mem ! (i + 8));
          btLen = unat (mem ! (i + 9));
          pData = i + 10
      in if \<not> DIR xCon \<or> ACK xCon then
           (if btLen = 1 then do { err_code \<leftarrow> rds mem pData 1; Some (mem, st) } else Some (mem, st))
         else if C_CODE xCon = C_CODE_CHECK_TIME then Some (mem, st)
         else if C_CODE xCon = C_CODE_READ_ADDR then
           (if btLen = 6 then do { a \<leftarrow> rds mem pData 6; Some (mem, st\<lparr>gDlt645Addr := a\<rparr>) }
            else Some (mem, st))
         else if C_CODE xCon = C_CODE_SET_BAUD then
           (if btLen = 1 then do { baud \<leftarrow> rds mem pData 1; Some (mem, st) } else Some (mem, st))
         else if C_CODE xCon = C_CODE_READ_DATA then
           (if 4 \<le> btLen then do {
              m \<leftarrow> rds mem pData 4;
              let DataMark = le32 (m ! 0) (m ! 1) (m ! 2) (m ! 3) - 0x33333333;
              (status, fdata, mem) \<leftarrow> vPraseData mem (pData + 4) (btLen - 4) DataMark;
              if status then
                Some (mem, mq_send1 index \<lparr>res_index = index, res_addr = xAddr, res_op = DataMark, res_val = fdata\<rparr> st)
              else Some (mem, st) }
            else Some (mem, st))
         else Some (mem, st))"

text \<open>
  \<open>Dlt645_PutBytes\<close> on the \<open>usBytesLen\<close> bytes at the start of the buffer \<open>mem\<close>. The result is
  the returned value, \<open>None\<close> where the function ends without a \<open>return\<close>, the buffer and the
  module. \<open>pBytes[usBytesLen-1]\<close> is read with the signed index the C promotions give.
\<close>

definition Dlt645_PutBytes ::
  "nat \<Rightarrow> byte list \<Rightarrow> nat \<Rightarrow> dlt645 \<Rightarrow> (bool option \<times> byte list \<times> dlt645) option" where
  "Dlt645_PutBytes index mem usBytesLen st =
     (if \<not> usBytesLen \<le> length mem then None else do {
        let i = length (takeWhile (\<lambda>b. b \<noteq> DLT645_PRE) (take usBytesLen mem));
        let n = int usBytesLen - int i;
        b0 \<leftarrow> rd mem (int i);
        if b0 \<noteq> DLT645_PRE then Some (Some False, mem, st) else do {
        b7 \<leftarrow> rd mem (int i + 7);
        if b7 \<noteq> DLT645_MID then Some (Some False, mem, st) else do {
        bl \<leftarrow> rd mem (int i + n - 1);
        if bl \<noteq> DLT645_EOM then Some (Some False, mem, st) else do {
        bc \<leftarrow> rd mem (int i + n - 2);
        if CheckSum (slice mem i (nat (n - 2))) \<noteq> bc then Some (Some False, mem, st) else do {
        hdr \<leftarrow> rds mem i 10;
        (mem, st) \<leftarrow> Dlt645_ParsePack index i mem st;
        Some (None, mem, st) }}}}})"

section \<open>The serial layer that collects a frame\<close>

text \<open>
  \<open>sdccp_serial_queue_t\<close>: the buffer is allocated with two bytes of the struct's padding
  beyond \<open>size\<close>.
\<close>

record sdccp_serial_queue =
  sq_size :: nat
  sq_n :: nat
  sq_buf :: "byte list"

definition sdccp_serial_queue_new :: "nat \<Rightarrow> sdccp_serial_queue" where
  "sdccp_serial_queue_new bufsz =
     (let bufsz = (if bufsz \<le> 1 then 64 else bufsz)
      in \<lparr>sq_size = bufsz, sq_n = 0, sq_buf = replicate (bufsz + 2) 0\<rparr>)"

definition sdccp_serial_recv_handle :: "byte \<Rightarrow> sdccp_serial_queue \<Rightarrow> sdccp_serial_queue" where
  "sdccp_serial_recv_handle value q =
     (if sq_n q < sq_size q then q\<lparr>sq_buf := (sq_buf q)[sq_n q := value], sq_n := sq_n q + 1\<rparr> else q)"

text \<open>\<open>_sdccp_serial_rx_ind\<close> checks once and then stores everything the device has read.\<close>

fun sdccp_rx_loop :: "byte list \<Rightarrow> sdccp_serial_queue \<Rightarrow> sdccp_serial_queue option" where
  "sdccp_rx_loop [] q = Some q"
| "sdccp_rx_loop (b # bs) q =
     (if sq_n q < length (sq_buf q)
      then sdccp_rx_loop bs (q\<lparr>sq_buf := (sq_buf q)[sq_n q := b], sq_n := sq_n q + 1\<rparr>) else None)"

definition sdccp_serial_rx_ind :: "byte list \<Rightarrow> sdccp_serial_queue \<Rightarrow> sdccp_serial_queue option" where
  "sdccp_serial_rx_ind pending q = (if sq_n q < sq_size q then sdccp_rx_loop pending q else Some q)"

text \<open>The gap timer has run out: hand the frame to the parser, empty the buffer.\<close>

definition sdccp_serial_timeout_do ::
  "bool \<Rightarrow> nat \<Rightarrow> sdccp_serial_queue \<Rightarrow> dlt645 \<Rightarrow> (sdccp_serial_queue \<times> dlt645) option" where
  "sdccp_serial_timeout_do is_dlt645 index q st =
     (if is_dlt645 then do {
        (_, mem, st) \<leftarrow> Dlt645_PutBytes index (sq_buf q) (sq_n q) st;
        Some (q\<lparr>sq_buf := mem, sq_n := 0\<rparr>, st) }
      else Some (q\<lparr>sq_n := 0\<rparr>, st))"

section \<open>Lemmas: text and numbers\<close>

definition is_bcd :: "byte \<Rightarrow> bool" where
  "is_bcd b = (unat b div 16 \<le> 9 \<and> unat b mod 16 \<le> 9)"

definition bcd :: "byte \<Rightarrow> int" where
  "bcd b = 10 * int (unat b div 16) + int (unat b mod 16)"

text \<open>The number that the bytes hold, lowest pair of digits first.\<close>

definition bcd_val :: "byte list \<Rightarrow> int" where
  "bcd_val d = foldr (\<lambda>b v. v * 100 + bcd b) d 0"

definition digval :: "int \<Rightarrow> byte list \<Rightarrow> int" where
  "digval v s = foldl (\<lambda>v b. v * 10 + int (unat (b - 0x30))) v s"

lemma digit_word:
  assumes "d < 10"
  shows "is_digit (0x30 + word_of_nat d)" "unat (0x30 + word_of_nat d - 0x30 :: byte) = d"
proof -
  from assms have "d \<in> {0,1,2,3,4,5,6,7,8,9}" by auto
  then show "is_digit (0x30 + word_of_nat d)" "unat (0x30 + word_of_nat d - 0x30 :: byte) = d"
    by (auto simp: is_digit_def)
qed

lemma nibbles:
  "unat (drop_bit 4 (b :: byte)) = unat b div 16" "unat (b AND 0x0F) = unat b mod 16"
proof -
  show "unat (drop_bit 4 b) = unat b div 16" unfolding unat_drop_bit_eq by (simp add: drop_bit_eq_div)
  have "b AND 0x0F = take_bit 4 b" by (simp add: take_bit_eq_mask mask_numeral)
  then have "unat (b AND 0x0F) = take_bit 4 (unat b)" by (simp add: unsigned_take_bit_eq)
  then show "unat (b AND 0x0F) = unat b mod 16" by (simp add: take_bit_eq_mod)
qed

lemma hexdig_dec: "unat x < 10 \<Longrightarrow> hexdig x = 0x30 + word_of_nat (unat x)"
  by (simp add: hexdig_def word_less_nat_alt)

lemma hex02_bcd:
  assumes "is_bcd b"
  shows "hex02 b = [0x30 + word_of_nat (unat b div 16), 0x30 + word_of_nat (unat b mod 16)]"
  using assms by (simp add: hex02_def hexdig_dec nibbles is_bcd_def)

lemma hex02_digits: "is_bcd b \<Longrightarrow> \<forall>c \<in> set (hex02 b). is_digit c"
  using digit_word(1) by (simp add: hex02_bcd) (simp add: is_bcd_def)

lemma digval_Cons: "d < 10 \<Longrightarrow> digval v ((0x30 + word_of_nat d) # s) = digval (v * 10 + int d) s"
  unfolding digval_def foldl_Cons by (simp only: digit_word(2))

lemma digval_hex02:
  assumes "is_bcd b"
  shows "digval v (hex02 b @ s) = digval (v * 100 + bcd b) s"
proof -
  have "unat b div 16 < 10" "unat b mod 16 < 10" using assms by (auto simp: is_bcd_def)
  then have "digval v (hex02 b @ s) = digval ((v * 10 + int (unat b div 16)) * 10 + int (unat b mod 16)) s"
    by (simp only: hex02_bcd [OF assms] append.simps digval_Cons)
  also have "(v * 10 + int (unat b div 16)) * 10 + int (unat b mod 16) = v * 100 + bcd b"
    by (simp add: bcd_def algebra_simps del: of_nat_div of_nat_mod)
  finally show ?thesis .
qed

lemma digval_concat:
  "\<forall>b \<in> set bs. is_bcd b \<Longrightarrow> digval v (concat (map hex02 bs)) = foldl (\<lambda>v b. v * 100 + bcd b) v bs"
proof (induction bs arbitrary: v)
  case Nil
  then show ?case by (simp add: digval_def)
next
  case (Cons b bs)
  then show ?case by (simp add: digval_hex02)
qed

lemma atof_num_digits:
  assumes "\<forall>c \<in> set s. is_digit c"
  shows "atof_num s = of_int (digval 0 s)"
proof -
  have tw: "takeWhile is_digit s = s" and dw: "dropWhile is_digit s = []"
    using assms by (auto simp: takeWhile_eq_all_conv dropWhile_eq_Nil_conv)
  show ?thesis unfolding atof_num_def Let_def atoi_digits_def digval_def tw dw by simp
qed

lemma atof_bcd:
  assumes "\<forall>b \<in> set d. is_bcd b"
  shows "atof (concat (map hex02 (rev d))) = f64 False (of_int (bcd_val d))"
    "atof (0x2d # concat (map hex02 (rev d))) = f64 True (of_int (bcd_val d))"
proof -
  let ?s = "concat (map hex02 (rev d))"
  have dig: "\<forall>c \<in> set ?s. is_digit c" using assms hex02_digits by auto
  have v: "digval 0 ?s = bcd_val d"
    using assms by (simp add: digval_concat bcd_val_def foldl_conv_foldr)
  have "atof ?s = f64 False (atof_num ?s)"
  proof (cases ?s)
    case Nil
    show ?thesis unfolding Nil by (simp add: atof_def atof_num_def atoi_digits_def)
  next
    case (Cons c r)
    with dig have "c \<noteq> 0x2d" by (auto simp: is_digit_def)
    with Cons show ?thesis by (simp add: atof_def)
  qed
  then show "atof ?s = f64 False (of_int (bcd_val d))" by (simp add: atof_num_digits [OF dig] v)
  show "atof (0x2d # ?s) = f64 True (of_int (bcd_val d))" by (simp add: atof_def atof_num_digits [OF dig] v)
qed

definition offset33 :: "byte list \<Rightarrow> byte list" where
  "offset33 d = map (\<lambda>b. b + 0x33) d"

lemma offset33_off: "map (\<lambda>b. b - 0x33) (offset33 d) = d"
  by (simp add: offset33_def comp_def)

lemma length_offset33 [simp]: "length (offset33 d) = length d"
  by (simp add: offset33_def)

text \<open>Four bytes hold at most eight digits, which a \<open>double\<close> holds exactly.\<close>

lemma bcd_val_bound:
  assumes "\<forall>b \<in> set d. is_bcd b"
  shows "0 \<le> bcd_val d" "bcd_val d < 100 ^ length d"
proof -
  have "0 \<le> bcd_val d \<and> bcd_val d < 100 ^ length d"
    using assms
  proof (induction d)
    case (Cons b d)
    then have "0 \<le> bcd b" "bcd b \<le> 99" by (auto simp: is_bcd_def bcd_def simp del: of_nat_div of_nat_mod)
    then show ?case using Cons by (auto simp: bcd_val_def)
  qed (simp add: bcd_val_def)
  then show "0 \<le> bcd_val d" "bcd_val d < 100 ^ length d" by auto
qed

lemma f64_bcd:
  assumes "\<forall>b \<in> set d. is_bcd b" "length d \<le> 4"
  shows "f64 s (of_int (bcd_val d)) = Fin s (of_int (bcd_val d))"
proof (rule f64_int)
  have "(100 :: int) ^ length d \<le> 100 ^ 4" using assms(2) by (intro power_increasing) simp_all
  then show "bcd_val d < 10 ^ 8" using bcd_val_bound(2) [OF assms(1)] by simp
qed (rule bcd_val_bound(1) [OF assms(1)])

lemma DataToDouble_bcd:
  assumes "1 \<le> length d" "length d \<le> 4" "\<forall>b \<in> set d. is_bcd b"
  shows "DataToDouble (offset33 d) = (Fin False (of_int (bcd_val d)), d)"
  using assms by (simp add: DataToDouble_def Let_def offset33_off atof_bcd f64_bcd)

text \<open>What the signed decoder computes: every top byte but zero makes the value negative.\<close>

lemma DataToDouble_signed_bcd:
  assumes "1 \<le> length d" "length d \<le> 4" "\<forall>b \<in> set (butlast d). is_bcd b" "is_bcd (last d AND 0x7f)"
  shows "DataToDouble_signed (offset33 d) =
    (Fin (last d \<noteq> 0) (of_int (bcd_val (butlast d @ [last d AND 0x7f]))), d)"
proof -
  let ?e = "butlast d @ [last d AND 0x7f]"
  have l: "length ?e \<le> 4" using assms(1,2) by simp
  have tx: "hex02 (last d AND 0x7f) @ concat (map hex02 (rev (butlast d))) = concat (map hex02 (rev ?e))"
    by simp
  have e: "\<forall>b \<in> set ?e. is_bcd b" using assms(3,4) by auto
  have d0: "?e = d" if "last d = 0"
    using that assms(1) append_butlast_last_id [of d] by (cases d) auto
  show ?thesis
  proof (cases "last d = 0")
    case True
    have "atof (hex02 (last d AND 0x7f) @ concat (map hex02 (rev (butlast d)))) = Fin False (of_int (bcd_val ?e))"
      unfolding tx using atof_bcd(1) [OF e] f64_bcd [OF e l] by simp
    with True assms(1,2) show ?thesis by (simp add: DataToDouble_signed_def Let_def offset33_off)
  next
    case False
    have "atof (0x2d # hex02 (last d AND 0x7f) @ concat (map hex02 (rev (butlast d)))) = Fin True (of_int (bcd_val ?e))"
      unfolding tx using atof_bcd(2) [OF e] f64_bcd [OF e l] by simp
    with False assms(1,2) show ?thesis by (simp add: DataToDouble_signed_def Let_def offset33_off)
  qed
qed

section \<open>Lemmas: the checksum\<close>

text \<open>Adding a byte can be undone, so the checksum detects every error in one byte.\<close>

interpretation dlt: byte_check "(+) :: byte \<Rightarrow> byte \<Rightarrow> byte" "\<lambda>c. c"
  by unfold_locales auto

lemma CheckSum_single: "CheckSum (xs @ b # ys) = CheckSum (xs @ b' # ys) \<Longrightarrow> b = b'"
  unfolding CheckSum_def by (rule dlt.single_byte)

section \<open>Lemmas: frames in the buffer\<close>

lemma rd_at: "j < length mem \<Longrightarrow> int j = k \<Longrightarrow> rd mem k = Some (mem ! j)"
  by (auto simp: rd_def)

lemma PutBytes_frame:
  fixes c :: byte and rest :: "byte list"
  assumes "DLT645_PRE \<notin> set junk" "10 \<le> length body" "body ! 0 = DLT645_PRE" "body ! 7 = DLT645_MID"
  defines "mem \<equiv> junk @ body @ [c, DLT645_EOM] @ rest"
  shows "Dlt645_PutBytes index mem (length junk + length body + 2) st =
    (if CheckSum body \<noteq> c then Some (Some False, mem, st)
     else do { (mem, st) \<leftarrow> Dlt645_ParsePack index (length junk) mem st; Some (None, mem, st) })"
proof -
  let ?j = "length junk" and ?b = "length body"
  have "take (?j + ?b + 2) mem = junk @ body @ [c, DLT645_EOM]" by (simp add: mem_def)
  moreover obtain x where "body = DLT645_PRE # x" using assms(2,3) by (cases body) auto
  ultimately have i: "length (takeWhile (\<lambda>b. b \<noteq> DLT645_PRE) (take (?j + ?b + 2) mem)) = ?j"
    using assms(1) by (auto simp: takeWhile_append)
  have at: "mem ! (?j + k) = body ! k" if "k < ?b" for k
    using that by (simp add: mem_def nth_append)
  have len: "length mem = ?j + ?b + 2 + length rest" by (simp add: mem_def)
  have tail: "mem ! (?j + ?b + 1) = DLT645_EOM" "mem ! (?j + ?b) = c" by (simp_all add: mem_def nth_append)
  have b0: "rd mem (int ?j) = Some DLT645_PRE"
  proof -
    have "body \<noteq> []" using assms(2) by auto
    then show ?thesis using at [of 0] assms(3) len by (simp add: rd_def)
  qed
  have b7: "rd mem (int ?j + 7) = Some DLT645_MID"
  proof -
    have "nat (int ?j + 7) = ?j + 7" by simp
    then show ?thesis using at [of 7] assms(2,4) len by (simp add: rd_def)
  qed
  have bl: "rd mem (int ?j + (int (?j + ?b + 2) - int ?j) - 1) = Some DLT645_EOM"
  proof -
    have "nat (int ?j + (int (?j + ?b + 2) - int ?j) - 1) = ?j + ?b + 1" by simp
    then show ?thesis using tail len by (simp add: rd_def)
  qed
  have bc: "rd mem (int ?j + (int (?j + ?b + 2) - int ?j) - 2) = Some c"
  proof -
    have "nat (int ?j + (int (?j + ?b + 2) - int ?j) - 2) = ?j + ?b" by simp
    then show ?thesis using tail len by (simp add: rd_def)
  qed
  have sl: "slice mem ?j (nat (int (?j + ?b + 2) - int ?j - 2)) = body"
    by (simp add: slice_def mem_def)
  have hdr: "rds mem ?j 10 = Some (slice mem ?j 10)" using assms(2) by (simp add: rds_def mem_def)
  have le: "?j + ?b + 2 \<le> length mem" by (simp add: mem_def)
  show ?thesis
    unfolding Dlt645_PutBytes_def Let_def i
    using le by (simp only: b0 b7 bl bc sl hdr bind.bind_lunit simp_thms if_True if_False not_not)
qed

lemma con_roundtrip: "byte_con (con_byte c) = c\<lparr>C_CODE := C_CODE c AND 0x1F\<rparr>"
  by (cases c; cases "FCK c"; cases "ACK c"; cases "DIR c")
    (simp_all add: byte_con_def con_byte_def bit.conj_disj_distrib2 and.assoc bit_or_iff bit_and_iff)

section \<open>The documented meaning of the data items\<close>

text \<open>
  From the comments of the source: the length of an item, whether its top bit is a sign, and
  its scale. Combined active and both combined reactive energies, currents, powers and power
  factors carry a sign.
\<close>

definition mark_class :: "u32 \<Rightarrow> (nat \<times> bool \<times> rat) option" where
  "mark_class m =
     (if m \<le> ENERGY_DATA_MARK_A4 \<or> (ENERGY_DATA_MARK_D0 \<le> m \<and> m \<le> ENERGY_DATA_MARK_D4)
         \<or> (ENERGY_DATA_MARK_E0 \<le> m \<and> m \<le> ENERGY_DATA_MARK_E4) then Some (4, True, 100)
      else if m \<le> ENERGY_DATA_MARK_67 then Some (4, False, 100)
      else if VAR_DATA_MARK_00 \<le> m \<and> m \<le> VAR_DATA_MARK_03 then Some (2, False, 10)
      else if VAR_DATA_MARK_04 \<le> m \<and> m \<le> VAR_DATA_MARK_07 then Some (3, True, 1000)
      else if VAR_DATA_MARK_08 \<le> m \<and> m \<le> VAR_DATA_MARK_16 then Some (3, True, 10000)
      else if VAR_DATA_MARK_17 \<le> m \<and> m \<le> VAR_DATA_MARK_1B then Some (2, True, 1000)
      else if VAR_DATA_MARK_1C \<le> m \<and> m \<le> VAR_DATA_MARK_1F then Some (2, False, 10)
      else None)"

definition signed_val :: "byte list \<Rightarrow> int" where
  "signed_val d = (if bit (last d) 7 then - bcd_val (butlast d @ [last d AND 0x7f]) else bcd_val d)"

definition spec_value :: "u32 \<Rightarrow> byte list \<Rightarrow> rat option" where
  "spec_value m d = (case mark_class m of
      Some (n, sg, scale) \<Rightarrow>
        if length d = n then Some ((if sg then of_int (signed_val d) else of_int (bcd_val d)) / scale) else None
    | None \<Rightarrow> None)"

text \<open>Markers whose item the code decodes without a sign although it has one.\<close>

definition sign_lost :: "u32 \<Rightarrow> bool" where
  "sign_lost m = ((ENERGY_DATA_MARK_E0 \<le> m \<and> m \<le> ENERGY_DATA_MARK_E4)
     \<or> (VAR_DATA_MARK_17 \<le> m \<and> m \<le> VAR_DATA_MARK_1B))"

text \<open>Two decimal digits per byte; the top byte may carry the sign bit.\<close>

definition bcd_item :: "byte list \<Rightarrow> bool" where
  "bcd_item d = (d \<noteq> [] \<and> (\<forall>b \<in> set (butlast d). is_bcd b) \<and> is_bcd (last d AND 0x7f))"

lemma and_7f: "(b AND 0x7f) = take_bit 7 b" for b :: byte
  by (simp add: take_bit_eq_mask mask_numeral)

lemma top_clear:
  assumes "\<not> bit (b :: byte) 7"
  shows "b AND 0x7f = b"
  unfolding and_7f
proof (rule bit_word_eqI)
  fix n assume "n < LENGTH(8)"
  then have "n < 7 \<or> n = 7" by auto
  then show "bit (take_bit 7 b) n = bit b n" using assms by (auto simp: bit_simps)
qed

lemma bcd_item_plain: "bcd_item d \<Longrightarrow> \<not> bit (last d) 7 \<Longrightarrow> \<forall>b \<in> set d. is_bcd b"
  using append_butlast_last_id [of d] by (metis (mono_tags, lifting) Un_iff bcd_item_def empty_iff
      insert_iff list.set(1) list.set(2) set_append top_clear)

lemma top_item:
  assumes "bcd_item d"
  shows "\<forall>b \<in> set (butlast d @ [last d AND 0x7f]). is_bcd b"
    "\<not> bit (last d) 7 \<Longrightarrow> butlast d @ [last d AND 0x7f] = d" "1 \<le> length d"
  using assms by (auto simp: bcd_item_def top_clear Suc_le_eq)

lemma signed_val_abs:
  assumes "bcd_item d"
  shows "\<bar>signed_val d\<bar> = bcd_val (butlast d @ [last d AND 0x7f])" "bit (last d) 7 \<Longrightarrow> signed_val d \<le> 0"
    "\<not> bit (last d) 7 \<Longrightarrow> 0 \<le> signed_val d"
  using bcd_val_bound(1) [OF top_item(1) [OF assms]] top_item(2) [OF assms] by (auto simp: signed_val_def)

lemma signed_decoder:
  assumes "bcd_item d" "length d \<le> 4"
  shows "DataToDouble_signed (offset33 d) = (Fin (last d \<noteq> 0) (of_int \<bar>signed_val d\<bar>), d)"
  unfolding signed_val_abs(1) [OF assms(1)]
  using assms top_item(3) by (intro DataToDouble_signed_bcd) (auto simp: bcd_item_def)

lemma plain_decoder:
  assumes "bcd_item d" "length d \<le> 4" "\<not> bit (last d) 7"
  shows "DataToDouble (offset33 d) = (Fin False (of_int (bcd_val d)), d)" "signed_val d = bcd_val d"
proof -
  have "1 \<le> length d" using assms(1) by (cases d) (auto simp: bcd_item_def)
  then show "DataToDouble (offset33 d) = (Fin False (of_int (bcd_val d)), d)"
    using assms bcd_item_plain by (intro DataToDouble_bcd) auto
  show "signed_val d = bcd_val d" using assms(3) by (simp add: signed_val_def)
qed

text \<open>The number behind an item, with at most eight digits.\<close>

lemma item_bound:
  assumes "bcd_item d" "length d \<le> 4"
  shows "\<bar>signed_val d\<bar> < 10 ^ 8"
proof -
  have "bcd_val (butlast d @ [last d AND 0x7f]) < 100 ^ length (butlast d @ [last d AND 0x7f])"
    by (rule bcd_val_bound(2) [OF top_item(1) [OF assms(1)]])
  moreover have "(100 :: int) ^ length (butlast d @ [last d AND 0x7f]) \<le> 100 ^ 4"
    using assms top_item(3) by (intro power_increasing) auto
  ultimately show ?thesis by (simp add: signed_val_abs(1) [OF assms(1)])
qed

lemma mark_scale: "mark_class m = Some (n, sg, sc) \<Longrightarrow> sc \<in> {10, 100, 1000, 10000} \<and> n \<le> 4"
  by (auto simp: mark_class_def split: if_splits)

lemma convert_at:
  assumes "rds mem p (length d) = Some (offset33 d)" "f (offset33 d) = (v, d)"
  shows "convert f sc mem p (length d) = Some (True, f32_div (to_f32 v) sc, blit mem p d)"
  using assms by (simp add: convert_def Let_def)

lemmas marks = ENERGY_DATA_MARK_A0_def ENERGY_DATA_MARK_A4_def ENERGY_DATA_MARK_D0_def ENERGY_DATA_MARK_D4_def
  ENERGY_DATA_MARK_E0_def ENERGY_DATA_MARK_E4_def ENERGY_DATA_MARK_67_def VAR_DATA_MARK_00_def
  VAR_DATA_MARK_03_def VAR_DATA_MARK_04_def VAR_DATA_MARK_07_def VAR_DATA_MARK_08_def VAR_DATA_MARK_16_def
  VAR_DATA_MARK_17_def VAR_DATA_MARK_1B_def VAR_DATA_MARK_1C_def VAR_DATA_MARK_1F_def

text \<open>The branches of \<open>vPraseData\<close> by the class of the marker.\<close>

lemma vPraseData_branch:
  assumes "mark_class m = Some (n, sg, sc)"
  shows "vPraseData mem p n m =
    convert (if sg \<and> \<not> sign_lost m then DataToDouble_signed else DataToDouble) sc mem p n"
proof -
  define k where "k = unat m"
  have up: "(w \<le> m) = (unat w \<le> k)" and lo: "(m \<le> w) = (k \<le> unat w)" for w
    by (simp_all add: k_def word_le_nat_alt)
  note ks = up lo marks
  consider (A) "k \<le> 0x400 \<or> 0x30000 \<le> k \<and> k \<le> 0x30400" "n = 4" "sg" "sc = 100"
    | (E) "0x40000 \<le> k" "k \<le> 0x40400" "n = 4" "sg" "sc = 100"
    | (En) "\<not> (k \<le> 0x400 \<or> 0x30000 \<le> k \<and> k \<le> 0x30400)" "\<not> (0x40000 \<le> k \<and> k \<le> 0x40400)"
        "k \<le> 0x440000" "n = 4" "\<not> sg" "sc = 100"
    | (V) "0x02010100 \<le> k" "k \<le> 0x0201FF00" "n = 2" "\<not> sg" "sc = 10"
    | (I) "0x02020100 \<le> k" "k \<le> 0x0202FF00" "n = 3" "sg" "sc = 1000"
    | (P) "0x02030000 \<le> k" "k \<le> 0x0205FF00" "n = 3" "sg" "sc = 10000"
    | (F) "0x02060000 \<le> k" "k \<le> 0x0206FF00" "n = 2" "sg" "sc = 1000"
    | (G) "0x02070100 \<le> k" "k \<le> 0x02070400" "n = 2" "\<not> sg" "sc = 10"
    using assms unfolding mark_class_def ks by (simp split: if_splits) blast+
  then show ?thesis
  proof cases
    case A
    then have "\<not> sign_lost m" unfolding sign_lost_def ks by auto
    with A show ?thesis unfolding vPraseData_def ks by auto
  next
    case E
    then have "sign_lost m" unfolding sign_lost_def ks by auto
    with E show ?thesis unfolding vPraseData_def ks by auto
  next
    case En
    then show ?thesis unfolding vPraseData_def ks by auto
  next
    case V
    then show ?thesis unfolding vPraseData_def ks by simp
  next
    case I
    then have "\<not> sign_lost m" unfolding sign_lost_def ks by auto
    with I show ?thesis unfolding vPraseData_def ks by simp
  next
    case P
    then have "\<not> sign_lost m" unfolding sign_lost_def ks by auto
    with P show ?thesis unfolding vPraseData_def ks by simp
  next
    case F
    then have "sign_lost m" unfolding sign_lost_def ks by auto
    with F show ?thesis unfolding vPraseData_def ks by simp
  next
    case G
    then show ?thesis unfolding vPraseData_def ks by simp
  qed
qed

text \<open>
  The value that is delivered for \<open>v\<close> at a scale: within one part in four million, and the nearest
  \<open>float\<close> when the number without its decimal point has at most 24 bits.
\<close>

definition f32_value :: "rat \<Rightarrow> rat \<Rightarrow> fnum \<Rightarrow> bool" where
  "f32_value sc v x = (case fval x of
      None \<Rightarrow> False
    | Some w \<Rightarrow> \<bar>w - v\<bar> \<le> \<bar>v\<bar> / 2 ^ 22 \<and> (\<bar>v\<bar> * sc \<le> 2 ^ 24 \<longrightarrow> w = f32_near v))"

lemma f32_value_reading:
  assumes "\<bar>k\<bar> < 10 ^ 8" "mark_class m = Some (n, sg, sc)" "s \<Longrightarrow> k \<le> 0" "\<not> s \<Longrightarrow> 0 \<le> k"
  shows "f32_value sc (of_int k / sc) (f32_div (to_f32 (Fin s (of_int \<bar>k\<bar>))) sc)"
  using f32_reading [of k sc s] mark_scale [OF assms(2)] assms(1,3,4) by (auto simp: f32_value_def)

lemma vPraseData_spec:
  assumes "mark_class m = Some (n, sg, sc)" "spec_value m d = Some v" "bcd_item d"
    and "rds mem p (length d) = Some (offset33 d)"
    and "if sg \<and> \<not> sign_lost m then last d = 0 \<or> bit (last d) 7 else \<not> bit (last d) 7"
  shows "\<exists>x. vPraseData mem p (length d) m = Some (True, x, blit mem p d) \<and> f32_value sc v x"
proof -
  let ?k = "if sg then signed_val d else bcd_val d"
  have v: "v = of_int ?k / sc" and n: "length d = n"
    using assms(1,2) by (auto simp: spec_value_def split: if_splits)
  have l4: "length d \<le> 4" using n mark_scale [OF assms(1)] by simp
  have k: "?k = signed_val d" using assms(5) plain_decoder(2) [OF assms(3) l4] by (auto split: if_splits)
  obtain s where s: "(if sg \<and> \<not> sign_lost m then DataToDouble_signed else DataToDouble) (offset33 d)
      = (Fin s (of_int \<bar>signed_val d\<bar>), d)" "s \<Longrightarrow> signed_val d \<le> 0" "\<not> s \<Longrightarrow> 0 \<le> signed_val d"
  proof (cases "sg \<and> \<not> sign_lost m")
    case True
    with assms(5) have top: "last d = 0 \<or> bit (last d) 7" by simp
    then have "\<not> last d \<noteq> 0 \<Longrightarrow> \<not> bit (last d) 7" by auto
    with True top show ?thesis
      using that [of "last d \<noteq> 0"] signed_decoder [OF assms(3) l4] signed_val_abs(2,3) [OF assms(3)] by auto
  next
    case False
    with assms(5) have top: "\<not> bit (last d) 7" by auto
    with False show ?thesis
      using that [of False] plain_decoder [OF assms(3) l4 top] signed_val_abs(3) [OF assms(3) top] by auto
  qed
  have "f32_value sc v (f32_div (to_f32 (Fin s (of_int \<bar>signed_val d\<bar>))) sc)"
    unfolding v k by (rule f32_value_reading [OF item_bound [OF assms(3) l4] assms(1) s(2,3)])
  then show ?thesis
    using vPraseData_branch [OF assms(1)] n
      convert_at [where f = "if sg \<and> \<not> sign_lost m then DataToDouble_signed else DataToDouble", OF assms(4) s(1)] by auto
qed

section \<open>Markers on the wire\<close>

text \<open>The standard adds 33H to each byte of the marker.\<close>

definition no_carry :: "u32 \<Rightarrow> bool" where
  "no_carry m = (\<forall>b \<in> set (bytes_le32 m). b < 0xCD)"

lemma marker_offset:
  assumes "no_carry m"
  shows "bytes_le32 (m + 0x33333333) = offset33 (bytes_le32 m)"
proof -
  obtain a b c d where m: "bytes_le32 m = [a, b, c, d]" by (simp add: bytes_le32_def)
  have u: "unat (x + 0x33 :: byte) = unat x + 0x33" if "x \<in> {a, b, c, d}" for x
  proof -
    have "unat x < 0xCD" using that assms m by (auto simp: no_carry_def word_less_nat_alt)
    then show ?thesis by (subst unat_add_lem [THEN iffD1]) auto
  qed
  have "m + 0x33333333 = word_of_nat (unat a + 256 * unat b + 65536 * unat c + 16777216 * unat d) + 0x33333333"
    using bytes_sum [OF m] by simp
  also have "\<dots> = word_of_nat (unat (a + 0x33) + 256 * unat (b + 0x33) + 65536 * unat (c + 0x33) + 16777216 * unat (d + 0x33))"
    using u by simp
  also have "\<dots> = le32 (a + 0x33) (b + 0x33) (c + 0x33) (d + 0x33)" by (rule le32_sum [symmetric])
  finally show ?thesis using m by (simp add: bytes_le32_le32 offset33_def)
qed

section \<open>Lemmas: an answer of a meter\<close>

definition meter_con :: S_DLT645_C where
  "meter_con = \<lparr>C_CODE = C_CODE_READ_DATA, FCK = False, ACK = False, DIR = True\<rparr>"

lemma meter_con_byte: "con_byte meter_con = 0x91" "DIR (byte_con 0x91)" "\<not> ACK (byte_con 0x91)"
  "C_CODE (byte_con 0x91) = C_CODE_READ_DATA"
  by (simp_all add: con_byte_def meter_con_def byte_con_def C_CODE_READ_DATA_def)

text \<open>An answer with the marker bytes \<open>w\<close> and the value bytes \<open>e\<close>, both as on the wire.\<close>

definition answer_body :: "byte list \<Rightarrow> byte list \<Rightarrow> byte list \<Rightarrow> byte list" where
  "answer_body a w e = packet_body a meter_con (word_of_nat (length w + length e)) (w @ e)"

lemma answer_packet:
  assumes "length a = 6" "length w = 4" "length e \<le> 60"
    and "vCreatePaket a meter_con (Some (w @ e)) (word_of_nat (length w + length e)) = Some f"
  shows "f = answer_body a w e @ [CheckSum (answer_body a w e), DLT645_EOM]"
proof -
  have "unat (word_of_nat (length w + length e) :: byte) = length w + length e"
    using assms(2,3) by (simp add: unat_of_nat take_bit_nat_eq_self del: of_nat_add)
  then show ?thesis
    using assms(4) by (auto simp: vCreatePaket_def answer_body_def Let_def split: if_splits)
qed

lemma answer_nth:
  assumes "length a = 6" "length w = 4" "length e \<le> 60"
  defines "b \<equiv> answer_body a w e"
  shows "length b = 14 + length e" "b ! 0 = DLT645_PRE" "b ! 7 = DLT645_MID" "b ! 8 = 0x91"
    "b ! 9 = word_of_nat (4 + length e)" "take 6 (drop 1 b) = a" "drop 10 b = w @ e"
proof -
  obtain a0 a1 a2 a3 a4 a5 where a: "a = [a0, a1, a2, a3, a4, a5]"
    using assms(1) by (auto simp: numeral_eq_Suc length_Suc_conv)
  have b: "b = [DLT645_PRE, a0, a1, a2, a3, a4, a5, DLT645_MID, 0x91, word_of_nat (4 + length e)] @ w @ e"
    using assms(2) by (simp add: b_def answer_body_def packet_body_def meter_con_byte a)
  show "length b = 14 + length e" "b ! 0 = DLT645_PRE" "b ! 7 = DLT645_MID" "b ! 8 = 0x91"
    "b ! 9 = word_of_nat (4 + length e)" "take 6 (drop 1 b) = a" "drop 10 b = w @ e"
    unfolding b using assms(2) by (simp_all add: a)
qed

lemma answer_parsed:
  fixes rest :: "byte list"
  assumes "DLT645_PRE \<notin> set junk" "length a = 6" "length w = 4" "length e \<le> 60"
    and "vCreatePaket a meter_con (Some (w @ e)) (word_of_nat (length w + length e)) = Some f"
  defines "mem \<equiv> junk @ f @ rest"
  defines "m \<equiv> le32 (w ! 0) (w ! 1) (w ! 2) (w ! 3) - 0x33333333"
  shows "Dlt645_PutBytes index mem (length junk + length f) st =
    vPraseData mem (length junk + 14) (length e) m \<bind> (\<lambda>(status, v, mem').
      Some (None, mem', if status then mq_send1 index \<lparr>res_index = index, res_addr = a, res_op = m, res_val = v\<rparr> st else st))"
    and "rds mem (length junk + 14) (length e) = Some e"
proof -
  let ?b = "answer_body a w e" and ?j = "length junk"
  note f = answer_packet [OF assms(2-5)] and b = answer_nth [OF assms(2-4)]
  have mem: "mem = junk @ ?b @ [CheckSum ?b, DLT645_EOM] @ rest" by (simp add: mem_def f)
  have at: "mem ! (?j + k) = ?b ! k" if "k < length ?b" for k
    using that by (simp add: mem nth_append)
  have dr: "drop (?j + k) mem = drop k ?b @ [CheckSum ?b, DLT645_EOM] @ rest" if "k \<le> length ?b" for k
    using that by (simp add: mem)
  have len: "length mem = ?j + length ?b + 2 + length rest" by (simp add: mem)
  have addr: "slice mem (?j + 1) 6 = a"
    using b(1,6) dr [of 1] by (simp add: slice_def)
  have n: "unat (mem ! (?j + 9)) = 4 + length e"
    using at [of 9] b(1,5) assms(4) by (simp add: unat_of_nat take_bit_nat_eq_self del: of_nat_add)
  have con: "mem ! (?j + 8) = 0x91" using at [of 8] b(1,4) by simp
  have w: "rds mem (?j + 10) 4 = Some w"
    using dr [of 10] b(1,7) assms(3) len by (simp add: rds_def slice_def)
  have "drop 14 ?b = drop 4 (drop 10 ?b)" by simp
  then have d14: "drop 14 ?b = e" unfolding b(7) using assms(3) by simp
  then show "rds mem (?j + 14) (length e) = Some e"
    using dr [of 14] b(1) len by (simp add: rds_def slice_def)
  have code: "C_CODE_READ_DATA \<noteq> C_CODE_CHECK_TIME" "C_CODE_READ_DATA \<noteq> C_CODE_READ_ADDR" "C_CODE_READ_DATA \<noteq> C_CODE_SET_BAUD"
    by (simp_all add: C_CODE_READ_DATA_def C_CODE_CHECK_TIME_def C_CODE_READ_ADDR_def C_CODE_SET_BAUD_def)
  have "Dlt645_ParsePack index ?j mem st =
    vPraseData mem (?j + 14) (length e) m \<bind> (\<lambda>(status, v, mem').
      Some (mem', if status then mq_send1 index \<lparr>res_index = index, res_addr = a, res_op = m, res_val = v\<rparr> st else st))"
    using w n con addr meter_con_byte code
    by (auto simp: Dlt645_ParsePack_def Let_def m_def add.assoc split: Option.bind_split)
  moreover have "Dlt645_PutBytes index mem (?j + length ?b + 2) st =
    (if CheckSum ?b \<noteq> CheckSum ?b then Some (Some False, mem, st)
     else do { (mem, st) \<leftarrow> Dlt645_ParsePack index ?j mem st; Some (None, mem, st) })"
    unfolding mem by (rule PutBytes_frame) (use assms(1) b in auto)
  moreover have "?j + length f = ?j + length ?b + 2" by (simp add: f)
  ultimately show "Dlt645_PutBytes index mem (length junk + length f) st =
    vPraseData mem (length junk + 14) (length e) m \<bind> (\<lambda>(status, v, mem').
      Some (None, mem', if status then mq_send1 index \<lparr>res_index = index, res_addr = a, res_op = m, res_val = v\<rparr> st else st))"
    by (auto split: Option.bind_split)
qed

text \<open>When the decoders agree with the documents.\<close>

definition sign_safe :: "u32 \<Rightarrow> byte list \<Rightarrow> bool" where
  "sign_safe m d = (case mark_class m of
      Some (n, sg, sc) \<Rightarrow> if sg \<and> \<not> sign_lost m then last d = 0 \<or> bit (last d) 7 else \<not> bit (last d) 7
    | None \<Rightarrow> False)"

lemma le32_marker:
  assumes "no_carry m"
  defines "w \<equiv> offset33 (bytes_le32 m)"
  shows "le32 (w ! 0) (w ! 1) (w ! 2) (w ! 3) - 0x33333333 = m"
proof -
  have w: "w = bytes_le32 (m + 0x33333333)" using marker_offset [OF assms(1)] by (simp add: w_def)
  have "le32 (w ! 0) (w ! 1) (w ! 2) (w ! 3) = m + 0x33333333"
    unfolding w bytes_le32_def by (simp add: le32_bytes_le32)
  then show ?thesis by simp
qed

lemma spec_value_length: "spec_value m d = Some v \<Longrightarrow> length d \<le> 4"
  by (auto simp: spec_value_def mark_class_def split: option.splits if_splits)

section \<open>Properties\<close>

text \<open>
  C4. A meter's answer, encoded as the standard says (33H added to each byte of marker and
  value), is decoded, whatever noise without a start byte (68H) comes before it: the queue of
  the port receives exactly the address, the marker and a \<open>float\<close> within one part in
  four million of the documented value; it is the \<open>float\<close> nearest to that value when the digits,
  read as an integer, do not exceed 16777216, which leaves out only energies above 167772.16.
  This holds for markers without a byte above CCH and for values whose sign the decoders
  handle.
\<close>

theorem dlt645_reading_delivered:
  assumes "DLT645_PRE \<notin> set junk" "length a = 6" "no_carry m" "bcd_item d" "sign_safe m d"
    and "mark_class m = Some (n, sg, sc)" "spec_value m d = Some v" "s_dlt645_queue st index = Some []"
    and "vCreatePaket a meter_con (Some (offset33 (bytes_le32 m) @ offset33 d)) (word_of_nat (4 + length d)) = Some f"
  shows "\<exists>mem' x. Dlt645_PutBytes index (junk @ f @ rest) (length junk + length f) st =
    Some (None, mem', st\<lparr>s_dlt645_queue := (s_dlt645_queue st)
      (index := Some [\<lparr>res_index = index, res_addr = a, res_op = m, res_val = x\<rparr>])\<rparr>)
    \<and> f32_value sc v x"
proof -
  let ?w = "offset33 (bytes_le32 m)" and ?e = "offset33 d"
  have pk: "length ?w = 4" "length ?e \<le> 60"
    "vCreatePaket a meter_con (Some (?w @ ?e)) (word_of_nat (length ?w + length ?e)) = Some f"
    using assms(9) spec_value_length [OF assms(7)] by simp_all
  note ans = answer_parsed [OF assms(1,2) pk, where rest = rest]
  have r: "rds (junk @ f @ rest) (length junk + 14) (length d) = Some (offset33 d)" using ans(2) by simp
  have s: "if sg \<and> \<not> sign_lost m then last d = 0 \<or> bit (last d) 7 else \<not> bit (last d) 7"
    using assms(5,6) by (simp add: sign_safe_def)
  obtain x where x: "vPraseData (junk @ f @ rest) (length junk + 14) (length d) m
      = Some (True, x, blit (junk @ f @ rest) (length junk + 14) d)" "f32_value sc v x"
    using vPraseData_spec [OF assms(6,7,4) r s] by blast
  then show ?thesis
    unfolding ans(1) le32_marker [OF assms(3)] using assms(8) by (auto simp: mq_send1_def)
qed

text \<open>
  A positive reading of a signed item with a top byte other than zero (a current of
  10 A, say) is delivered with the wrong sign: the test of the sign bit is a logical, not a
  bitwise conjunction.
\<close>

theorem dlt645_sign_inverted:
  assumes "DLT645_PRE \<notin> set junk" "length a = 6" "no_carry m" "bcd_item d"
    and "mark_class m = Some (n, True, sc)" "\<not> sign_lost m" "last d \<noteq> 0" "\<not> bit (last d) 7"
    and "spec_value m d = Some v" "s_dlt645_queue st index = Some []"
    and "vCreatePaket a meter_con (Some (offset33 (bytes_le32 m) @ offset33 d)) (word_of_nat (4 + length d)) = Some f"
  shows "\<exists>mem' x. Dlt645_PutBytes index (junk @ f @ rest) (length junk + length f) st =
    Some (None, mem', st\<lparr>s_dlt645_queue := (s_dlt645_queue st)
      (index := Some [\<lparr>res_index = index, res_addr = a, res_op = m, res_val = x\<rparr>])\<rparr>)
    \<and> 0 \<le> v \<and> f32_value sc (- v) x"
proof -
  let ?w = "offset33 (bytes_le32 m)" and ?e = "offset33 d"
  have l4: "length d \<le> 4" by (rule spec_value_length [OF assms(9)])
  have pk: "length ?w = 4" "length ?e \<le> 60"
    "vCreatePaket a meter_con (Some (?w @ ?e)) (word_of_nat (length ?w + length ?e)) = Some f"
    using assms(11) l4 by simp_all
  note ans = answer_parsed [OF assms(1,2) pk, where rest = rest]
  have n: "length d = n" and v: "v = of_int (signed_val d) / sc"
    using assms(5,9) by (auto simp: spec_value_def split: if_splits)
  have pos: "0 \<le> signed_val d" by (rule signed_val_abs(3) [OF assms(4,8)])
  let ?x = "f32_div (to_f32 (Fin True (of_int \<bar>signed_val d\<bar>))) sc"
  have "vPraseData (junk @ f @ rest) (length junk + 14) n m
      = convert DataToDouble_signed sc (junk @ f @ rest) (length junk + 14) n"
    using vPraseData_branch [OF assms(5)] assms(6) by simp
  also have "\<dots> = Some (True, ?x, blit (junk @ f @ rest) (length junk + 14) d)"
    unfolding n [symmetric]
    by (rule convert_at) (use ans(2) signed_decoder [OF assms(4) l4] assms(7) in simp_all)
  finally have x: "vPraseData (junk @ f @ rest) (length junk + 14) n m
      = Some (True, ?x, blit (junk @ f @ rest) (length junk + 14) d)" .
  have "f32_value sc (- v) ?x"
    using f32_value_reading [of "- signed_val d", OF _ assms(5), of True] item_bound [OF assms(4) l4] pos by (simp add: v)
  moreover have "0 \<le> v" using pos mark_scale [OF assms(5)] by (auto simp: v)
  ultimately show ?thesis
    unfolding ans(1) le32_marker [OF assms(3)] using assms(10) n x by (auto simp: mq_send1_def)
qed

text \<open>
  Energies beyond 16777216 hundredths lose them: 167772.17 kWh is delivered as 167772.15625, though
  \<open>float\<close> has 167772.171875, because the integer is rounded before it is divided.
\<close>

theorem dlt645_energy_hundredths:
  assumes "rds mem p 4 = Some (offset33 [0x17, 0x72, 0x77, 0x16])"
  shows "vPraseData mem p 4 0x00010000 = Some (True, Fin False (5368709 / 32), blit mem p [0x17, 0x72, 0x77, 0x16])"
    "spec_value 0x00010000 [0x17, 0x72, 0x77, 0x16] = Some (16777217 / 100)" "f32_near (16777217 / 100) = 10737419 / 64"
proof -
  have c: "mark_class 0x00010000 = Some (4, False, 100)" by (simp add: mark_class_def marks)
  have v: "bcd_val [0x17, 0x72, 0x77, 0x16] = 16777217" by (simp add: bcd_val_def bcd_def)
  have "DataToDouble (offset33 [0x17, 0x72, 0x77, 0x16]) = (Fin False 16777217, [0x17, 0x72, 0x77, 0x16])"
    using plain_decoder(1) [of "[0x17, 0x72, 0x77, 0x16]"] v by (simp add: bcd_item_def is_bcd_def)
  moreover have l: "length [0x17, 0x72, 0x77, 0x16 :: byte] = 4" by simp
  ultimately have "convert DataToDouble 100 mem p (length [0x17, 0x72, 0x77, 0x16 :: byte])
      = Some (True, f32_div (to_f32 (Fin False 16777217)) 100, blit mem p [0x17, 0x72, 0x77, 0x16])"
    using assms by (intro convert_at) (simp_all only: l)
  then show "vPraseData mem p 4 0x00010000 = Some (True, Fin False (5368709 / 32), blit mem p [0x17, 0x72, 0x77, 0x16])"
    using vPraseData_branch [OF c, of mem p] by (simp only: l f32_examples(3) simp_thms if_False)
  show "spec_value 0x00010000 [0x17, 0x72, 0x77, 0x16] = Some (16777217 / 100)" by (simp add: spec_value_def c v)
  show "f32_near (16777217 / 100) = 10737419 / 64" by (rule f32_examples(4))
qed

text \<open>The markers of the data blocks: their second byte is FFH.\<close>

definition block_markers :: "u32 list" where
  "block_markers = [0x0201FF00, 0x0202FF00, 0x0203FF00, 0x0204FF00, 0x0205FF00, 0x0206FF00]"

text \<open>
  The markers of the data blocks (second byte FFH) are sent wrongly: the 32-bit addition
  carries from that byte into the next, so the request does not carry the marker the standard
  asks for; and an answer that carries it is never delivered under that marker.
\<close>

theorem dlt645_block_marker_lost:
  assumes "m \<in> set block_markers" "DLT645_PRE \<notin> set junk" "length a = 6" "length e \<le> 60"
    and "vCreatePaket a meter_con (Some (offset33 (bytes_le32 m) @ e)) (word_of_nat (4 + length e)) = Some f"
    and "s_dlt645_queue st index = Some []"
    and "Dlt645_PutBytes index (junk @ f @ rest) (length junk + length f) st = Some (r, mem', st')"
  shows "bytes_le32 (m + 0x33333333) \<noteq> offset33 (bytes_le32 m)
    \<and> (\<forall>q x. s_dlt645_queue st' index = Some q \<longrightarrow> x \<in> set q \<longrightarrow> res_op x \<noteq> m)"
proof -
  let ?w = "offset33 (bytes_le32 m)"
  have cases: "m = 0x0201FF00 \<or> m = 0x0202FF00 \<or> m = 0x0203FF00 \<or> m = 0x0204FF00 \<or> m = 0x0205FF00 \<or> m = 0x0206FF00"
    using assms(1) by (simp add: block_markers_def)
  then have ne: "bytes_le32 (m + 0x33333333) \<noteq> ?w"
    by (elim disjE) (simp_all add: bytes_le32_def offset33_def)
  have lw: "length ?w = 4" by simp
  have op: "le32 (?w ! 0) (?w ! 1) (?w ! 2) (?w ! 3) - 0x33333333 \<noteq> m"
  proof
    assume "le32 (?w ! 0) (?w ! 1) (?w ! 2) (?w ! 3) - 0x33333333 = m"
    then have "le32 (?w ! 0) (?w ! 1) (?w ! 2) (?w ! 3) = m + 0x33333333"
      by (simp add: diff_eq_eq)
    then have "bytes_le32 (m + 0x33333333) = [?w ! 0, ?w ! 1, ?w ! 2, ?w ! 3]"
      using bytes_le32_le32 by metis
    also have "\<dots> = ?w" by (simp add: offset33_def bytes_le32_def)
    finally show False using ne by simp
  qed
  have pk: "vCreatePaket a meter_con (Some (?w @ e)) (word_of_nat (length ?w + length e)) = Some f"
    using assms(5) by simp
  define k where "k = le32 (?w ! 0) (?w ! 1) (?w ! 2) (?w ! 3) - 0x33333333"
  have "\<forall>q x. s_dlt645_queue st' index = Some q \<longrightarrow> x \<in> set q \<longrightarrow> res_op x \<noteq> m"
    using assms(6,7) op unfolding answer_parsed(1) [OF assms(2,3) lw assms(4) pk] k_def [symmetric]
    by (auto simp: mq_send1_def split: Option.bind_splits if_splits)
  with ne show ?thesis by blast
qed

text \<open>
  A frame damaged in one byte (other than its two start bytes, its check and its end
  byte) is refused: the parser returns false and changes nothing.
\<close>

theorem dlt645_damaged_frame_refused:
  assumes "DLT645_PRE \<notin> set junk" "length a = 6" "vCreatePaket a c p n = Some f"
    and "f = xs @ b # ys" "b \<noteq> b'" "length xs \<noteq> 0" "length xs \<noteq> 7" "2 \<le> length ys"
  shows "Dlt645_PutBytes index (junk @ (xs @ b' # ys) @ rest) (length junk + length f) st =
    Some (Some False, junk @ (xs @ b' # ys) @ rest, st)"
proof -
  obtain body where f: "f = body @ [CheckSum body, DLT645_EOM]" and l: "10 \<le> length body"
    and h: "body ! 0 = DLT645_PRE" "body ! 7 = DLT645_MID"
    using assms(2,3)
    by (auto simp: vCreatePaket_def Let_def packet_body_def nth_append nth_Cons' split: if_splits Option.bind_splits)
  define zs where "zs = take (length ys - 2) ys"
  have ys: "ys = zs @ [CheckSum body, DLT645_EOM]"
  proof -
    have "drop (length ys - 2) (xs @ b # ys) = drop (length ys - 2) (xs @ b # ys)" ..
    have "length body = length xs + 1 + (length ys - 2)"
      using arg_cong [OF f, of length] assms(4,8) by simp
    then have "drop (length xs + 1 + (length ys - 2)) f = [CheckSum body, DLT645_EOM]"
      by (simp add: f)
    then have "drop (length ys - 2) ys = [CheckSum body, DLT645_EOM]" by (simp add: assms(4))
    then show ?thesis unfolding zs_def by (metis append_take_drop_id)
  qed
  have body: "body = xs @ b # zs" using f ys assms(4) by simp
  let ?b' = "xs @ b' # zs"
  have "CheckSum ?b' \<noteq> CheckSum body"
    using assms(5) unfolding body by (metis CheckSum_single)
  moreover have "?b' ! 0 = DLT645_PRE" "?b' ! 7 = DLT645_MID" "10 \<le> length ?b'"
    using h l assms(6,7) unfolding body by (auto simp: nth_append nth_Cons' split: if_splits)
  ultimately have "Dlt645_PutBytes index (junk @ ?b' @ [CheckSum body, DLT645_EOM] @ rest) (length junk + length ?b' + 2) st
      = Some (Some False, junk @ ?b' @ [CheckSum body, DLT645_EOM] @ rest, st)"
    by (subst PutBytes_frame [OF assms(1)]) auto
  then show ?thesis by (simp add: ys assms(4))
qed

lemma wait_result_find:
  "wait_result a m rs r0 = (case find (\<lambda>r. res_addr r = a \<and> res_op r = m) rs of
     Some r \<Rightarrow> (True, Some r) | None \<Rightarrow> (False, if rs = [] then r0 else Some (last rs)))"
  by (induction rs arbitrary: r0) (auto split: option.splits)

lemma request_packet:
  assumes "length a = 6" "length w = 4"
  shows "vCreatePaket a (host_con C_CODE_READ_DATA) (Some w) 4 =
    Some ([0x68] @ a @ [0x68, 0x11, 4] @ w @ [CheckSum ([0x68] @ a @ [0x68, 0x11, 4] @ w), 0x16])"
  using assms by (simp add: vCreatePaket_def Let_def packet_body_def DLT645_PRE_def DLT645_MID_def
      DLT645_EOM_def host_con_def con_byte_def C_CODE_READ_DATA_def)

text \<open>
  C15. A request for a value sends exactly one frame: start, address, control 11H, length 4,
  the marker with the offset added, sum and end. The call succeeds exactly when one of the
  answers that arrive before a time-out is from that address and for that marker, and then
  returns the first such answer; an answer left over from before is thrown away.
\<close>

theorem dlt645_read_data:
  assumes "length xaddr = 6" "send_registered st" "s_dlt645_queue st index = Some q" "no_carry m"
  shows "bDlt645ReadData index xaddr m arrivals st =
    (let req = [0x68] @ xaddr @ [0x68, 0x11, 4] @ offset33 (bytes_le32 m);
         st' = st\<lparr>s_dlt645_queue := (s_dlt645_queue st)(index := Some (tl q)),
           dl_sent := dl_sent st @ [(index, req @ [CheckSum req, 0x16])]\<rparr>
     in Some (case find (\<lambda>r. res_addr r = xaddr \<and> res_op r = m) arrivals of
          Some r \<Rightarrow> (True, Some r, st')
        | None \<Rightarrow> (False, if arrivals = [] then (if q = [] then None else Some (hd q)) else Some (last arrivals), st')))"
proof -
  have p: "vCreatePaket xaddr (host_con C_CODE_READ_DATA) (Some (bytes_le32 (m + 0x33333333))) 4 =
    Some ([0x68] @ xaddr @ [0x68, 0x11, 4] @ offset33 (bytes_le32 m)
      @ [CheckSum ([0x68] @ xaddr @ [0x68, 0x11, 4] @ offset33 (bytes_le32 m)), 0x16])"
    unfolding marker_offset [OF assms(4)] by (rule request_packet) (simp_all add: assms(1))
  show ?thesis
    unfolding bDlt645ReadData_def Let_def p using assms(2,3)
    by (cases q) (auto simp: dl_send_def wait_result_find split: option.split)
qed

text \<open>
  The packet buffer holds 64 bytes: a packet is built exactly for up to 52 data bytes,
  and a longer one is written past the buffer.
\<close>

theorem dlt645_packet_bound:
  assumes "length a = 6" "length d = unat n"
  shows "vCreatePaket a c (Some d) n =
    (if unat n \<le> 52 then Some (packet_body a c n d @ [CheckSum (packet_body a c n d), DLT645_EOM]) else None)"
  using assms by (simp add: vCreatePaket_def Let_def packet_body_def)

text \<open>
  A start byte too close to the end of the receive buffer makes the parser read behind
  it: a frame announced by its first byte is examined at offset seven before its length is.
\<close>

theorem dlt645_late_start_overread:
  assumes "takeWhile (\<lambda>b. b \<noteq> DLT645_PRE) (take n mem) = junk" "length junk < n" "n \<le> length mem"
    and "length mem \<le> length junk + 7"
  shows "Dlt645_PutBytes index mem n st = None"
proof -
  have "dropWhile (\<lambda>b. b \<noteq> DLT645_PRE) (take n mem) \<noteq> []"
  proof
    assume "dropWhile (\<lambda>b. b \<noteq> DLT645_PRE) (take n mem) = []"
    then have "junk = take n mem"
      using assms(1) takeWhile_dropWhile_id by (metis append_Nil2)
    with assms(2,3) show False by simp
  qed
  then have "hd (dropWhile (\<lambda>b. b \<noteq> DLT645_PRE) (take n mem)) = DLT645_PRE"
    using hd_dropWhile by blast
  moreover have "take n mem = junk @ dropWhile (\<lambda>b. b \<noteq> DLT645_PRE) (take n mem)"
    using assms(1) takeWhile_dropWhile_id by metis
  ultimately have "take n mem ! length junk = DLT645_PRE"
    using \<open>dropWhile (\<lambda>b. b \<noteq> DLT645_PRE) (take n mem) \<noteq> []\<close>
    by (metis hd_conv_nth nth_append_length hd_append2 list.collapse)
  then have "mem ! length junk = DLT645_PRE" using assms(2) by simp
  moreover have "rd mem (int (length junk) + 7) = None" using assms(4) by (simp add: rd_def)
  ultimately show ?thesis
    using assms by (simp add: Dlt645_PutBytes_def Let_def rd_def)
qed

lemma vPraseData_leaf:
  "vPraseData mem p n m = Some (False, Fin False 0, mem)
    \<or> (\<exists>f sc. (f = DataToDouble \<or> f = DataToDouble_signed) \<and> vPraseData mem p n m = convert f sc mem p n)"
proof -
  define leaf where "leaf x = (x = Some (False, Fin False 0, mem)
    \<or> (\<exists>f sc. (f = DataToDouble \<or> f = DataToDouble_signed) \<and> x = convert f sc mem p n))" for x
  have "leaf (Some (False, Fin False 0, mem))" by (simp add: leaf_def)
  moreover have "leaf (convert DataToDouble sc mem p n)" "leaf (convert DataToDouble_signed sc mem p n)" for sc
    by (auto simp: leaf_def)
  moreover have "leaf (if c then x else y)" if "leaf x" "leaf y" for c x y using that by simp
  moreover have "leaf (convert (if c then DataToDouble_signed else DataToDouble) sc mem p n)" for c sc
    using calculation by simp
  ultimately have "leaf (vPraseData mem p n m)"
    unfolding vPraseData_def by (intro \<open>\<And>c x y. leaf x \<Longrightarrow> leaf y \<Longrightarrow> leaf (if c then x else y)\<close>) blast+
  then show ?thesis by (simp only: leaf_def)
qed

lemma vPraseData_inside:
  assumes "k + l \<le> length mem"
  shows "\<exists>s v mem'. vPraseData mem k l m = Some (s, v, mem') \<and> length mem' = length mem"
proof -
  have "\<exists>v mem'. convert f sc mem k l = Some (True, v, mem') \<and> length mem' = length mem"
    if "f = DataToDouble \<or> f = DataToDouble_signed" for f sc
  proof -
    note f = that
    obtain v where "f (slice mem k l) = (v, map (\<lambda>b. b - 0x33) (slice mem k l))"
      using f by (auto simp: DataToDouble_def DataToDouble_signed_def Let_def)
    moreover have "rds mem k l = Some (slice mem k l)" using assms by (simp add: rds_def)
    ultimately have "convert f sc mem k l = Some (True, f32_div (to_f32 v) sc, blit mem k (map (\<lambda>b. b - 0x33) (slice mem k l)))"
      by (simp add: convert_def)
    moreover have "length (map (\<lambda>b. b - 0x33) (slice mem k l)) = l" using assms by simp
    ultimately show ?thesis using assms by (auto intro: length_blit)
  qed
  then show ?thesis using vPraseData_leaf [of mem k l m] by metis
qed

lemma ParsePack_inside:
  assumes "i + 10 + unat (mem ! (i + 9)) \<le> length mem"
  shows "\<exists>mem' st'. Dlt645_ParsePack index i mem st = Some (mem', st') \<and> length mem' = length mem"
proof (cases "4 \<le> unat (mem ! (i + 9))")
  case True
  have rds: "rds mem k l = Some (slice mem k l)" if "k + l \<le> length mem" for k l
    using that by (simp add: rds_def)
  obtain m where m: "rds mem (i + 10) 4 = Some m" using rds [of "i + 10" 4] assms True by auto
  have k: "i + 10 + 4 + (unat (mem ! (i + 9)) - 4) \<le> length mem" using assms True by simp
  show ?thesis
    using rds [of "i + 10"] assms True m vPraseData_inside [OF k, of "le32 (m ! 0) (m ! 1) (m ! 2) (m ! 3) - 0x33333333"]
    by (auto simp: Dlt645_ParsePack_def Let_def)
next
  case False
  then show ?thesis using assms by (auto simp: Dlt645_ParsePack_def rds_def Let_def)
qed

text \<open>
  C33. A frame that lies completely in the buffer is parsed without leaving it, whatever its
  bytes are.
\<close>

theorem dlt645_whole_frame_safe:
  assumes "length (takeWhile (\<lambda>b. b \<noteq> DLT645_PRE) (take n mem)) = i"
    and "i + 12 + unat (mem ! (i + 9)) \<le> n" "n \<le> length mem"
  shows "\<exists>r mem' st'. Dlt645_PutBytes index mem n st = Some (r, mem', st') \<and> length mem' = length mem"
proof -
  have rd: "rd mem j = Some (mem ! nat j)" if "0 \<le> j" "j < int n" for j
    using that assms(3) by (simp add: rd_def)
  have "\<exists>mem' st'. Dlt645_ParsePack index i mem st = Some (mem', st') \<and> length mem' = length mem"
    using assms(2,3) by (intro ParsePack_inside) simp
  then obtain mem' st' where pp: "Dlt645_ParsePack index i mem st = Some (mem', st')" "length mem' = length mem"
    by blast
  have h: "rds mem i 10 = Some (slice mem i 10)" using assms(2,3) by (simp add: rds_def)
  have r: "rd mem (int i) = Some (mem ! nat (int i))" "rd mem (int i + 7) = Some (mem ! nat (int i + 7))"
    "rd mem (int i + (int n - int i) - 1) = Some (mem ! nat (int i + (int n - int i) - 1))"
    "rd mem (int i + (int n - int i) - 2) = Some (mem ! nat (int i + (int n - int i) - 2))"
    by (rule rd; use assms(2) in simp)+
  show ?thesis
    using assms(1,3) pp h unfolding Dlt645_PutBytes_def Let_def
    by (simp only: assms(1) r h pp bind.bind_lunit prod.case not_not if_True simp_thms split: if_split) (auto simp: pp(2))
qed

section \<open>Witnesses\<close>

definition w_meter :: "byte list" where "w_meter = [0x96, 0x58, 0x72, 0x10, 0x16, 0x04]"

definition w_dlt :: dlt645 where
  "w_dlt = dlt645_init 1 True dlt645_start"

lemma w_dlt_queue: "s_dlt645_queue w_dlt 1 = Some []" "send_registered w_dlt"
  by (simp_all add: w_dlt_def dlt645_init_def)

definition w_answer :: "u32 \<Rightarrow> byte list \<Rightarrow> byte list" where
  "w_answer m d = answer_body w_meter (offset33 (bytes_le32 m)) (offset33 d)
     @ [CheckSum (answer_body w_meter (offset33 (bytes_le32 m)) (offset33 d)), DLT645_EOM]"

lemma w_answer_packet:
  assumes "length d \<le> 4"
  shows "vCreatePaket w_meter meter_con (Some (offset33 (bytes_le32 m) @ offset33 d)) (word_of_nat (4 + length d))
    = Some (w_answer m d)"
proof -
  have "unat (word_of_nat (4 + length d) :: byte) = 4 + length d"
    using assms by (simp add: unat_of_nat take_bit_nat_eq_self del: of_nat_add)
  then show ?thesis
    using assms by (simp add: vCreatePaket_def Let_def w_answer_def answer_body_def packet_body_def w_meter_def del: of_nat_add)
qed

lemma w_marks: "no_carry 0x02010100" "no_carry 0x02020100"
  "mark_class 0x02010100 = Some (2, False, 10)" "mark_class 0x02020100 = Some (3, True, 1000)"
  "\<not> sign_lost 0x02010100" "\<not> sign_lost 0x02020100"
  by (simp_all add: no_carry_def bytes_le32_def mark_class_def sign_lost_def marks)

theorem dlt645_reading_delivered_witness:
  "\<exists>mem' x. Dlt645_PutBytes 1 ([0xFE, 0xFE] @ w_answer 0x02010100 [0x03, 0x22] @ []) (length [0xFE, 0xFE :: byte] + length (w_answer 0x02010100 [0x03, 0x22])) w_dlt =
    Some (None, mem', w_dlt\<lparr>s_dlt645_queue := (s_dlt645_queue w_dlt)
      (1 := Some [\<lparr>res_index = 1, res_addr = w_meter, res_op = 0x02010100, res_val = x\<rparr>])\<rparr>)
    \<and> fval x = Some (14437581 / 65536)"
proof -
  have "\<exists>mem' x. Dlt645_PutBytes 1 ([0xFE, 0xFE] @ w_answer 0x02010100 [0x03, 0x22] @ []) (length [0xFE, 0xFE :: byte] + length (w_answer 0x02010100 [0x03, 0x22])) w_dlt =
      Some (None, mem', w_dlt\<lparr>s_dlt645_queue := (s_dlt645_queue w_dlt)
        (1 := Some [\<lparr>res_index = 1, res_addr = w_meter, res_op = 0x02010100, res_val = x\<rparr>])\<rparr>) \<and> f32_value 10 (2203 / 10) x"
    by (rule dlt645_reading_delivered [OF _ _ w_marks(1) _ _ w_marks(3) _ w_dlt_queue(1) w_answer_packet])
      (simp_all add: DLT645_PRE_def w_meter_def bcd_item_def is_bcd_def sign_safe_def w_marks spec_value_def
        bcd_val_def bcd_def)
  moreover have "fval x = Some (14437581 / 65536)" if "f32_value 10 (2203 / 10) x" for x
    using that by (auto simp: f32_value_def f32_examples(2) split: option.splits)
  ultimately show ?thesis by blast
qed

theorem dlt645_sign_inverted_witness:
  "\<exists>mem' x. Dlt645_PutBytes 1 ([] @ w_answer 0x02020100 [0, 0, 0x01] @ []) (length ([] :: byte list) + length (w_answer 0x02020100 [0, 0, 0x01])) w_dlt =
    Some (None, mem', w_dlt\<lparr>s_dlt645_queue := (s_dlt645_queue w_dlt)
      (1 := Some [\<lparr>res_index = 1, res_addr = w_meter, res_op = 0x02020100, res_val = x\<rparr>])\<rparr>)
    \<and> 0 \<le> (10000 / 1000 :: rat) \<and> f32_value 1000 (- (10000 / 1000)) x"
  by (rule dlt645_sign_inverted [OF _ _ w_marks(2) _ w_marks(4,6) _ _ _ w_dlt_queue(1) w_answer_packet])
    (simp_all add: w_meter_def bcd_item_def is_bcd_def w_marks spec_value_def signed_val_def bcd_val_def bcd_def)

theorem dlt645_block_marker_lost_witness:
  "bytes_le32 (0x0201FF00 + 0x33333333) \<noteq> offset33 (bytes_le32 0x0201FF00)"
proof -
  let ?f = "w_answer 0x0201FF00 [0x05, 0x22]"
  obtain r mem' st' where "Dlt645_PutBytes 1 ([] @ ?f @ []) (length ([] :: byte list) + length ?f) w_dlt = Some (r, mem', st')"
  proof -
    have pk: "vCreatePaket w_meter meter_con (Some (offset33 (bytes_le32 0x0201FF00) @ offset33 [0x05, 0x22]))
        (word_of_nat (length (offset33 (bytes_le32 0x0201FF00)) + length (offset33 [0x05, 0x22 :: byte]))) = Some ?f"
      using w_answer_packet [of "[0x05, 0x22]" "0x0201FF00"] by simp
    have off: "offset33 (bytes_le32 0x0201FF00) = [0x33, 0x32, 0x34, 0x35]"
      by (simp add: offset33_def bytes_le32_def)
    have m: "le32 0x33 0x32 0x34 0x35 - 0x33333333 = (0x0200FF00 :: u32)" by (simp add: le32_def)
    have "vPraseData mem k l 0x0200FF00 = Some (False, Fin False 0, mem)" for mem k l
      by (simp add: vPraseData_def marks)
    then show ?thesis
      using that answer_parsed(1) [OF _ _ _ _ pk, of "[]" 1 "[]" w_dlt]
      by (simp add: w_meter_def off m)
  qed
  then show ?thesis
    using dlt645_block_marker_lost [of "0x0201FF00" "[]" w_meter "offset33 [0x05, 0x22]" ?f w_dlt 1 "[]"]
      w_answer_packet [of "[0x05, 0x22]" "0x0201FF00"] w_dlt_queue(1)
    by (simp add: block_markers_def w_meter_def)
qed

theorem dlt645_damaged_frame_refused_witness:
  "\<exists>f g. vCreatePaket w_meter meter_con (Some [1, 2, 3, 4]) 4 = Some f \<and> length g = length f
     \<and> Dlt645_PutBytes 1 ([] @ g @ []) (length ([] :: byte list) + length f) w_dlt = Some (Some False, [] @ g @ [], w_dlt)"
proof -
  let ?b = "[0x68, 0x96, 0x58, 0x72, 0x10, 0x16, 0x04, 0x68, 0x91, 4, 1, 2, 3, 4] :: byte list"
  have f: "vCreatePaket w_meter meter_con (Some [1, 2, 3, 4]) 4 = Some (?b @ [CheckSum ?b, 0x16])"
    by (simp add: vCreatePaket_def Let_def packet_body_def w_meter_def meter_con_byte DLT645_PRE_def
        DLT645_MID_def DLT645_EOM_def)
  have s: "?b @ [CheckSum ?b, 0x16] = take 10 ?b @ 1 # [2, 3, 4, CheckSum ?b, 0x16]" by simp
  have "Dlt645_PutBytes 1 ([] @ (take 10 ?b @ 9 # [2, 3, 4, CheckSum ?b, 0x16]) @ []) (length ([] :: byte list) + length (?b @ [CheckSum ?b, 0x16])) w_dlt
      = Some (Some False, [] @ (take 10 ?b @ 9 # [2, 3, 4, CheckSum ?b, 0x16]) @ [], w_dlt)"
    by (rule dlt645_damaged_frame_refused [OF _ _ f s]) (simp_all add: w_meter_def)
  moreover have "length (take 10 ?b @ 9 # [2, 3, 4, CheckSum ?b, 0x16]) = length (?b @ [CheckSum ?b, 0x16])" by simp
  ultimately show ?thesis using f by blast
qed

theorem dlt645_read_data_witness:
  "\<exists>st'. bDlt645ReadData 1 w_meter 0x02010100
     [\<lparr>res_index = 1, res_addr = w_meter, res_op = 0x02010200, res_val = Fin False 1\<rparr>,
      \<lparr>res_index = 1, res_addr = w_meter, res_op = 0x02010100, res_val = Fin False 2\<rparr>] w_dlt
   = Some (True, Some \<lparr>res_index = 1, res_addr = w_meter, res_op = 0x02010100, res_val = Fin False 2\<rparr>, st')"
  using dlt645_read_data [OF _ w_dlt_queue(2,1) w_marks(1), of w_meter]
  by (simp add: Let_def w_meter_def)

theorem dlt645_packet_bound_witness: "vCreatePaket w_meter meter_con (Some (replicate 53 0)) 53 = None"
  using dlt645_packet_bound [of w_meter "replicate 53 0" 53 meter_con] by (simp add: w_meter_def)

theorem dlt645_late_start_overread_witness:
  "Dlt645_PutBytes 1 (replicate 63 0 @ [0x68, 0, 0]) 64 w_dlt = None"
  by (rule dlt645_late_start_overread [where junk = "replicate 63 0"])
    (simp_all add: DLT645_PRE_def takeWhile_append)

theorem dlt645_whole_frame_safe_witness:
  "\<exists>r mem' st'. Dlt645_PutBytes 1 ([0x68] @ replicate 70 0) 71 w_dlt = Some (r, mem', st')
     \<and> length mem' = length ([0x68] @ replicate 70 (0 :: byte))"
  by (rule dlt645_whole_frame_safe [where i = 0]) (simp_all add: DLT645_PRE_def)

end
