(* ===== verification/Threaddog.thy ===== *)
theory Threaddog
  imports Prelude
begin

text \<open>
  The software watchdog of the threads, \<open>threaddog/threaddog.c\<close>: a static table of 50 slots,
  registration and removal, feeding, and the check that the main loop calls.

  A pointer into the table is an index (\<open>None\<close> for \<open>NULL\<close>); the pointers a slot only stores
  (function name, description, user data) are numbers, 0 for \<open>NULL\<close>. Ticks are the 32-bit
  \<open>long\<close> values that \<open>rt_tick_get\<close> gives after its conversion, kept as words and compared as
  signed numbers. Whether the plain bit-field \<open>over_sec:8\<close> is signed is up to the C
  implementation, so it is the argument \<open>sb\<close> of the check.

  Shown: the number of used slots is the counter in every reachable state, and a slot that
  has fired is dead until it is registered again; the check reports the first overdue slot and
  touches no other; with the clock past \<open>2 ^ 31\<close> ticks, or with a limit of 128 seconds or more
  in a signed bit-field, it does not do what it is for.
\<close>

section \<open>State\<close>

datatype thddog_state = THD_DOG_S_RUNNING | THD_DOG_S_SUSPEND | THD_DOG_S_DIE | THD_DOG_S_EXIT

record thddog =
  dog_name :: "byte list"
  dog_use :: bool
  dog_is_over :: bool
  dog_over_sec :: byte
  dog_tick_reg :: u32
  dog_tick_feed :: u32
  dog_func :: nat
  dog_line :: int
  dog_run_desc :: nat
  dog_state :: thddog_state
  dog_data :: nat

record thddogs =
  dog_list :: "thddog list"
  dog_cnt :: int

definition THREAD_DOG_NUM :: nat where "THREAD_DOG_NUM = 50"


text \<open>What \<open>memset(..., 0, ...)\<close> leaves in a slot.\<close>

definition dog_zero :: thddog where
  "dog_zero = \<lparr>dog_name = replicate 12 0, dog_use = False, dog_is_over = False, dog_over_sec = 0,
     dog_tick_reg = 0, dog_tick_feed = 0, dog_func = 0, dog_line = 0, dog_run_desc = 0,
     dog_state = THD_DOG_S_RUNNING, dog_data = 0\<rparr>"

definition threaddog_sec2tick :: "u32 \<Rightarrow> u32" where
  "threaddog_sec2tick sec = sec * RT_TICK_PER_SECOND"

definition threaddog_init :: thddogs where
  "threaddog_init = \<lparr>dog_list = replicate THREAD_DOG_NUM dog_zero, dog_cnt = 0\<rparr>"

section \<open>Operations\<close>

text \<open>\<open>strncpy\<close> into a field of \<open>n\<close> bytes: the string, cut off or filled up with zeros.\<close>

definition strncpy :: "nat \<Rightarrow> byte list \<Rightarrow> byte list" where
  "strncpy n s = take n (takeWhile (\<lambda>b. b \<noteq> 0) s @ replicate n 0)"

definition threaddog_register :: "u32 \<Rightarrow> byte list \<Rightarrow> u32 \<Rightarrow> nat \<Rightarrow> thddogs \<Rightarrow> thddogs \<times> nat option" where
  "threaddog_register tick thread_name over_sec data s =
     (case find_from (\<lambda>d. \<not> dog_use d) 0 (dog_list s) of
        Some i \<Rightarrow>
          let d = dog_zero\<lparr>dog_name := strncpy 12 thread_name, dog_is_over := False,
                dog_over_sec := ucast (over_sec AND 0xFF), dog_tick_reg := tick,
                dog_tick_feed := tick, dog_func := 0, dog_line := - 1, dog_run_desc := 0,
                dog_state := THD_DOG_S_RUNNING, dog_data := data, dog_use := True\<rparr>
          in (s\<lparr>dog_list := (dog_list s)[i := d], dog_cnt := dog_cnt s + 1\<rparr>, Some i)
      | None \<Rightarrow> (s, None))"

definition threaddog_unregister :: "nat option \<Rightarrow> thddogs \<Rightarrow> thddogs" where
  "threaddog_unregister dog s = (case dog of
     Some i \<Rightarrow>
       if dog_use (dog_list s ! i)
       then s\<lparr>dog_list := (dog_list s)[i := (dog_list s ! i)\<lparr>dog_use := False\<rparr>], dog_cnt := dog_cnt s - 1\<rparr>
       else s
   | None \<Rightarrow> s)"

definition threaddog_update ::
  "u32 \<Rightarrow> nat option \<Rightarrow> nat \<Rightarrow> int \<Rightarrow> nat \<Rightarrow> thddog_state \<Rightarrow> thddogs \<Rightarrow> thddogs" where
  "threaddog_update tick dog func line desc state s = (case dog of
     Some i \<Rightarrow>
       let d = dog_list s ! i in
       if dog_use d \<and> \<not> dog_is_over d
       then (let d = d\<lparr>dog_tick_feed := tick, dog_is_over := False, dog_func := func, dog_line := line\<rparr>;
                 d = (if desc \<noteq> 0 then d\<lparr>dog_run_desc := desc\<rparr> else d);
                 d = d\<lparr>dog_state := state\<rparr>
             in s\<lparr>dog_list := (dog_list s)[i := d]\<rparr>)
       else s
   | None \<Rightarrow> s)"

text \<open>The value of the bit-field in an expression.\<close>

definition over_sec_val :: "bool \<Rightarrow> thddog \<Rightarrow> u32" where
  "over_sec_val sb d = (if sb then scast (dog_over_sec d) else ucast (dog_over_sec d))"

text \<open>
  One turn of the loop of the check: the slot after it, and whether it fired. The difference
  of the ticks is formed in 32 bits.
\<close>

definition dog_watched :: "thddog \<Rightarrow> bool" where
  "dog_watched d = (dog_use d \<and> \<not> dog_is_over d \<and> dog_state d \<noteq> THD_DOG_S_SUSPEND
     \<and> dog_state d \<noteq> THD_DOG_S_EXIT)"

definition dog_turn :: "bool \<Rightarrow> u32 \<Rightarrow> thddog \<Rightarrow> thddog \<times> bool" where
  "dog_turn sb tick d =
     (if dog_watched d then
        (let over_tick = threaddog_sec2tick (over_sec_val sb d);
             d = (if tick <s dog_tick_feed d then d\<lparr>dog_tick_feed := 0\<rparr> else d)
         in if over_tick \<le>s tick \<and> over_tick <s tick - dog_tick_feed d
            then (d\<lparr>dog_is_over := True, dog_state := THD_DOG_S_DIE\<rparr>, True)
            else (d, False))
      else (d, False))"

fun dog_scan :: "bool \<Rightarrow> u32 \<Rightarrow> thddog list \<Rightarrow> thddog list \<times> nat option" where
  "dog_scan sb tick [] = ([], None)"
| "dog_scan sb tick (d # ds) = (case dog_turn sb tick d of
     (d', True) \<Rightarrow> (d' # ds, Some (dog_data d'))
   | (d', False) \<Rightarrow> (case dog_scan sb tick ds of (ds', r) \<Rightarrow> (d' # ds', r)))"

text \<open>The user data of the slot that fired, \<open>None\<close> when the loop ends with \<open>return NULL\<close>.\<close>

definition threaddog_check :: "bool \<Rightarrow> u32 \<Rightarrow> thddogs \<Rightarrow> thddogs \<times> nat option" where
  "threaddog_check sb tick s =
     (case dog_scan sb tick (dog_list s) of (ds, r) \<Rightarrow> (s\<lparr>dog_list := ds\<rparr>, r))"

text \<open>The rows that the shell command prints: the slots below the counter.\<close>

definition list_thddog :: "thddogs \<Rightarrow> thddog list" where
  "list_thddog s = take (nat (dog_cnt s)) (dog_list s)"

section \<open>The main loop\<close>

text \<open>
  What the main thread does with the check (\<open>application.c\<close>): it calls it until it gets
  \<open>NULL\<close>, and resets the board afterwards when one of the threads it got has a watchdog slot
  in its user data (\<open>has_dog\<close>). The \<open>k\<close>-th call reads the tick \<open>tick k\<close>.
\<close>

definition dog_alive :: "thddog \<Rightarrow> bool" where
  "dog_alive d = (dog_use d \<and> \<not> dog_is_over d)"

definition dog_alives :: "thddogs \<Rightarrow> nat" where
  "dog_alives s = length (filter dog_alive (dog_list s))"

lemma dog_turn_fires:
  "dog_turn sb tick d = (d', True) \<Longrightarrow> dog_alive d \<and> \<not> dog_alive d' \<and> dog_data d' = dog_data d"
  by (auto simp: dog_turn_def Let_def dog_watched_def dog_alive_def split: if_splits)

lemma dog_turn_alive: "dog_turn sb tick d = (d', False) \<Longrightarrow> dog_alive d' = dog_alive d"
  by (auto simp: dog_turn_def Let_def dog_watched_def dog_alive_def split: if_splits)

lemma dog_scan_alive:
  "dog_scan sb tick ds = (ds', r) \<Longrightarrow>
     length (filter dog_alive ds) = length (filter dog_alive ds') + (case r of Some x \<Rightarrow> 1 | None \<Rightarrow> 0)"
  by (induction ds arbitrary: ds' r)
    (auto dest: dog_turn_fires dog_turn_alive split: prod.splits bool.splits)

lemma threaddog_check_alive:
  "threaddog_check sb tick s = (s', Some x) \<Longrightarrow> dog_alives s' < dog_alives s"
  using dog_scan_alive [of sb tick "dog_list s"]
  by (auto simp: threaddog_check_def dog_alives_def split: prod.splits)

text \<open>Every turn takes one slot out of the watch, so the loop ends.\<close>

function main_dog_check :: "(nat \<Rightarrow> bool) \<Rightarrow> bool \<Rightarrow> (nat \<Rightarrow> u32) \<Rightarrow> nat \<Rightarrow> thddogs \<Rightarrow> thddogs \<times> bool" where
  "main_dog_check has_dog sb tick k s = (case threaddog_check sb (tick k) s of
     (s', Some thread) \<Rightarrow>
       if thread \<noteq> 0
       then (case main_dog_check has_dog sb tick (Suc k) s' of
               (s'', reset) \<Rightarrow> (s'', reset \<or> has_dog thread))
       else (s', False)
   | (s', None) \<Rightarrow> (s', False))"
  by pat_completeness auto

termination
  by (relation "measure (\<lambda>(has_dog, sb, tick, k, s). dog_alives s)")
    (auto dest: threaddog_check_alive [OF sym])

declare main_dog_check.simps [simp del]

section \<open>What the table guarantees\<close>

lemma count_update:
  "i < length xs \<Longrightarrow> int (length (filter P (xs[i := d]))) =
     int (length (filter P xs)) + of_bool (P d) - of_bool (P (xs ! i))"
proof (induction xs arbitrary: i)
  case (Cons x xs)
  then show ?case by (cases i) auto
qed simp

text \<open>The table is well formed: 50 slots, counted; a slot that fired and is in use is dead.\<close>

definition dogs_wf :: "thddogs \<Rightarrow> bool" where
  "dogs_wf s = (length (dog_list s) = THREAD_DOG_NUM
     \<and> dog_cnt s = int (length (filter dog_use (dog_list s)))
     \<and> (\<forall>d \<in> set (dog_list s). dog_use d \<and> dog_is_over d \<longrightarrow> dog_state d = THD_DOG_S_DIE)
     \<and> (\<forall>d \<in> set (dog_list s). length (dog_name d) = 12))"

text \<open>The steps of the threads and of the main loop.\<close>

inductive dog_step :: "bool \<Rightarrow> thddogs \<Rightarrow> thddogs \<Rightarrow> bool" for sb where
  register: "dog_step sb s (fst (threaddog_register tick name over_sec data s))"
| unregister: "dog \<in> {None} \<union> Some ` {..<THREAD_DOG_NUM} \<Longrightarrow> dog_step sb s (threaddog_unregister dog s)"
| update: "dog \<in> {None} \<union> Some ` {..<THREAD_DOG_NUM} \<Longrightarrow>
    dog_step sb s (threaddog_update tick dog func line desc state s)"
| check: "dog_step sb s (fst (threaddog_check sb tick s))"

inductive_cases dog_stepE: "dog_step sb s s'"

lemma length_strncpy: "length (strncpy n s) = n"
  by (simp add: strncpy_def)

lemma dogs_wf_set:
  assumes "dogs_wf s" "i < THREAD_DOG_NUM" "length (dog_name d) = 12"
    "dog_use d \<and> dog_is_over d \<longrightarrow> dog_state d = THD_DOG_S_DIE"
    "n = dog_cnt s + of_bool (dog_use d) - of_bool (dog_use (dog_list s ! i))"
  shows "dogs_wf (s\<lparr>dog_list := (dog_list s)[i := d], dog_cnt := n\<rparr>)"
  using assms by (auto simp: dogs_wf_def count_update dest!: set_update_subset_insert [THEN subsetD])

lemma dogs_wf_register:
  assumes "dogs_wf s"
  shows "dogs_wf (fst (threaddog_register tick name over_sec data s))"
proof (cases "find_from (\<lambda>d. \<not> dog_use d) 0 (dog_list s)")
  case (Some i)
  then have "i < THREAD_DOG_NUM" "\<not> dog_use (dog_list s ! i)"
    using find_from_Some [OF Some] assms by (simp_all add: dogs_wf_def)
  then show ?thesis
    unfolding threaddog_register_def Some option.case Let_def fst_conv
    by (intro dogs_wf_set [OF assms]) (simp_all add: length_strncpy)
qed (use assms in \<open>simp add: threaddog_register_def\<close>)

lemma dogs_wf_nth: "dogs_wf s \<Longrightarrow> i < THREAD_DOG_NUM \<Longrightarrow> length (dog_name (dog_list s ! i)) = 12"
  by (simp add: dogs_wf_def)

lemma dogs_wf_unregister:
  assumes "dogs_wf s" "dog \<in> {None} \<union> Some ` {..<THREAD_DOG_NUM}"
  shows "dogs_wf (threaddog_unregister dog s)"
proof (cases dog)
  case (Some i)
  then have i: "i < THREAD_DOG_NUM" using assms(2) by auto
  show ?thesis
  proof (cases "dog_use (dog_list s ! i)")
    case True
    then show ?thesis
      unfolding threaddog_unregister_def Some option.case if_P [OF True]
      by (intro dogs_wf_set [OF assms(1) i]) (simp_all add: dogs_wf_nth [OF assms(1) i])
  qed (use Some assms in \<open>simp add: threaddog_unregister_def\<close>)
qed (use assms in \<open>simp add: threaddog_unregister_def\<close>)

lemma dogs_wf_update:
  assumes "dogs_wf s" "dog \<in> {None} \<union> Some ` {..<THREAD_DOG_NUM}"
  shows "dogs_wf (threaddog_update tick dog func line desc state s)"
proof (cases dog)
  case (Some i)
  then have i: "i < THREAD_DOG_NUM" using assms(2) by auto
  show ?thesis
  proof (cases "dog_use (dog_list s ! i) \<and> \<not> dog_is_over (dog_list s ! i)")
    case True
    then show ?thesis
      using dogs_wf_set [OF assms(1) i, where n = "dog_cnt s"]
      by (simp add: threaddog_update_def Some Let_def dogs_wf_nth [OF assms(1) i])
  qed (use Some assms in \<open>auto simp: threaddog_update_def Let_def\<close>)
qed (use assms in \<open>simp add: threaddog_update_def\<close>)

lemma dog_turn_keeps:
  assumes "dog_turn sb tick d = (d', f)"
  shows "dog_use d' = dog_use d \<and> dog_name d' = dog_name d \<and>
    ((dog_use d \<and> dog_is_over d \<longrightarrow> dog_state d = THD_DOG_S_DIE) \<longrightarrow>
     (dog_use d' \<and> dog_is_over d' \<longrightarrow> dog_state d' = THD_DOG_S_DIE))"
  using assms by (auto simp: dog_turn_def Let_def dog_watched_def split: if_splits)

lemma dog_scan_keeps:
  "dog_scan sb tick ds = (ds', r) \<Longrightarrow> map dog_use ds' = map dog_use ds \<and> map dog_name ds' = map dog_name ds
    \<and> ((\<forall>d \<in> set ds. dog_use d \<and> dog_is_over d \<longrightarrow> dog_state d = THD_DOG_S_DIE) \<longrightarrow>
       (\<forall>d \<in> set ds'. dog_use d \<and> dog_is_over d \<longrightarrow> dog_state d = THD_DOG_S_DIE))"
proof (induction ds arbitrary: ds' r)
  case (Cons d ds)
  then show ?case
    using dog_turn_keeps [of sb tick d]
    by (auto split: prod.splits bool.splits)
qed simp

lemma dogs_wf_check:
  assumes "dogs_wf s"
  shows "dogs_wf (fst (threaddog_check sb tick s))"
proof -
  obtain ds r where scan: "dog_scan sb tick (dog_list s) = (ds, r)" by fastforce
  note k = dog_scan_keeps [OF scan]
  have "length ds = length (dog_list s)" using k by (metis length_map)
  moreover have "length (filter dog_use ds) = length (filter dog_use (dog_list s))"
  proof -
    have "length (filter P xs) = length (filter (\<lambda>b. b) (map P xs))" for P :: "thddog \<Rightarrow> bool" and xs
      by (simp add: filter_map comp_def)
    then show ?thesis using k by metis
  qed
  moreover have "\<forall>d \<in> set ds. length (dog_name d) = 12"
  proof -
    have "dog_name ` set ds = dog_name ` set (dog_list s)" using k by (metis set_map)
    moreover have "dog_name ` set (dog_list s) \<subseteq> {n. length n = 12}"
      using assms by (auto simp: dogs_wf_def)
    ultimately show ?thesis by blast
  qed
  ultimately show ?thesis
    using assms k by (simp add: threaddog_check_def scan dogs_wf_def)
qed

lemma dogs_wf_step: "dog_step sb s s' \<Longrightarrow> dogs_wf s \<Longrightarrow> dogs_wf s'"
  by (induction rule: dog_step.induct)
    (simp_all only: dogs_wf_register dogs_wf_unregister dogs_wf_update dogs_wf_check)

lemma dogs_wf_init: "dogs_wf threaddog_init"
  by (simp add: dogs_wf_def threaddog_init_def dog_zero_def)

section \<open>What the check reports\<close>

definition dog_overdue :: "bool \<Rightarrow> u32 \<Rightarrow> thddog \<Rightarrow> bool" where
  "dog_overdue sb tick d = (dog_watched d \<and>
     (let over_tick = threaddog_sec2tick (over_sec_val sb d);
          feed = (if tick <s dog_tick_feed d then 0 else dog_tick_feed d)
      in over_tick \<le>s tick \<and> over_tick <s tick - feed))"

lemma dog_turn_overdue:
  assumes "dog_turn sb tick d = (d', f)"
  shows "f = dog_overdue sb tick d \<and> dog_data d' = dog_data d \<and> (dog_alive d' = (dog_alive d \<and> \<not> f))
    \<and> \<not> dog_overdue sb tick d'"
  using assms
  by (auto simp: dog_turn_def dog_overdue_def Let_def dog_watched_def dog_alive_def over_sec_val_def
      split: if_splits)

text \<open>
  A scan changes nothing but the slot that fires (and feeding times from the future); it ends
  with \<open>NULL\<close> only if no slot is overdue.
\<close>

lemma dog_scan_result:
  "dog_scan sb tick ds = (ds', r) \<Longrightarrow> length ds' = length ds \<and> map dog_data ds' = map dog_data ds \<and>
    (case r of
       None \<Rightarrow> map dog_alive ds' = map dog_alive ds \<and> (\<forall>d \<in> set ds'. \<not> dog_overdue sb tick d)
     | Some x \<Rightarrow> \<exists>j < length ds. dog_data (ds ! j) = x \<and> dog_alive (ds ! j)
         \<and> map dog_alive ds' = (map dog_alive ds)[j := False])"
proof (induction ds arbitrary: ds' r)
  case (Cons d ds)
  obtain d' f where turn: "dog_turn sb tick d = (d', f)" by fastforce
  note t = dog_turn_overdue [OF turn]
  show ?case
  proof (cases f)
    case True
    then have "ds' = d' # ds" "r = Some (dog_data d)" using Cons.prems turn t by auto
    moreover have "dog_alive d" using dog_turn_fires [of sb tick d d'] turn True by simp
    ultimately show ?thesis using t True by (auto intro!: exI [of _ 0])
  next
    case False
    obtain es where es: "dog_scan sb tick ds = (es, r)" "ds' = d' # es"
      using Cons.prems turn False by (auto split: prod.splits)
    note ih = Cons.IH [OF es(1)]
    show ?thesis
    proof (cases r)
      case None
      then show ?thesis using ih es(2) t False by auto
    next
      case (Some x)
      then obtain j where "j < length ds" "dog_data (ds ! j) = x" "dog_alive (ds ! j)"
        "map dog_alive es = (map dog_alive ds)[j := False]" using ih by auto
      then show ?thesis using ih es(2) t False Some by (auto intro!: exI [of _ "Suc j"])
    qed
  qed
qed simp

text \<open>The slots of \<open>s\<close> that are out of the watch in \<open>s'\<close>.\<close>

definition dog_fired :: "thddogs \<Rightarrow> thddogs \<Rightarrow> nat \<Rightarrow> bool" where
  "dog_fired s s' i = (i < length (dog_list s) \<and> dog_alive (dog_list s ! i) \<and> \<not> dog_alive (dog_list s' ! i))"

lemma dog_alive_nth:
  assumes "map dog_alive xs = (map dog_alive ys)[j := False]" "i < length ys"
  shows "dog_alive (xs ! i) = (dog_alive (ys ! i) \<and> i \<noteq> j)"
proof -
  have "length xs = length ys" using assms(1) by (metis length_list_update length_map)
  then have "dog_alive (xs ! i) = (map dog_alive ys)[j := False] ! i"
    using assms by (metis nth_map)
  then show ?thesis using assms(2) by (cases "i = j") simp_all
qed

lemma map_eq_nth: "map f xs = map f ys \<Longrightarrow> i < length ys \<Longrightarrow> f (xs ! i) = f (ys ! i)"
  by (metis length_map nth_map)

lemma main_dog_check_result:
  assumes "\<forall>i < length (dog_list s). dog_alive (dog_list s ! i) \<longrightarrow> dog_data (dog_list s ! i) \<noteq> 0"
    and "main_dog_check has_dog sb tick k s = (s', reset)"
  shows "length (dog_list s') = length (dog_list s)
    \<and> map dog_data (dog_list s') = map dog_data (dog_list s)
    \<and> (\<forall>i < length (dog_list s). dog_alive (dog_list s' ! i) \<longrightarrow> dog_alive (dog_list s ! i))
    \<and> (\<exists>n. \<forall>d \<in> set (dog_list s'). \<not> dog_overdue sb (tick (k + n)) d)
    \<and> reset = (\<exists>i. dog_fired s s' i \<and> has_dog (dog_data (dog_list s ! i)))"
  using assms
proof (induction has_dog sb tick k s arbitrary: s' reset rule: main_dog_check.induct)
  case (1 has_dog sb tick k s)
  obtain ds r where scan: "dog_scan sb (tick k) (dog_list s) = (ds, r)" by fastforce
  define t where "t = s\<lparr>dog_list := ds\<rparr>"
  have chk: "threaddog_check sb (tick k) s = (t, r)" by (simp add: threaddog_check_def scan t_def)
  note sr = dog_scan_result [OF scan]
  have t: "length (dog_list t) = length (dog_list s)" "map dog_data (dog_list t) = map dog_data (dog_list s)"
    using sr by (simp_all add: t_def)
  have data: "dog_data (dog_list t ! i) = dog_data (dog_list s ! i)" if "i < length (dog_list s)" for i
    using map_eq_nth [OF t(2) that] .
  show ?case
  proof (cases r)
    case None
    have alive: "dog_alive (dog_list t ! i) = dog_alive (dog_list s ! i)" if "i < length (dog_list s)" for i
      using map_eq_nth [of dog_alive ds "dog_list s"] that sr None by (simp add: t_def)
    have "s' = t" "reset = False" using "1.prems"(2) chk None by (simp_all add: main_dog_check.simps)
    then show ?thesis
      using t alive sr None by (auto simp: t_def dog_fired_def intro!: exI [of _ 0])
  next
    case (Some x)
    then obtain j where j: "j < length (dog_list s)" "dog_data (dog_list s ! j) = x" "dog_alive (dog_list s ! j)"
      "map dog_alive (dog_list t) = (map dog_alive (dog_list s))[j := False]"
      using sr by (auto simp: t_def)
    note alive = dog_alive_nth [OF j(4)]
    have x: "x \<noteq> 0" using "1.prems"(1) j by auto
    obtain r' where rec: "main_dog_check has_dog sb tick (Suc k) t = (s', r')" "reset = (r' \<or> has_dog x)"
      using "1.prems"(2) chk Some x by (subst (asm) main_dog_check.simps) (auto split: prod.splits)
    have "\<forall>i < length (dog_list t). dog_alive (dog_list t ! i) \<longrightarrow> dog_data (dog_list t ! i) \<noteq> 0"
      using "1.prems"(1) alive data t(1) by auto
    note ih = "1.IH" [OF chk [symmetric] Some x this rec(1)]
    have mono: "\<not> dog_alive (dog_list s' ! j)" using ih alive [OF j(1)] j(1) t(1) by auto
    have fired: "dog_fired s s' i = (i = j \<or> dog_fired t s' i)" for i
      using j mono alive t(1) by (auto simp: dog_fired_def)
    obtain n where "\<forall>d \<in> set (dog_list s'). \<not> dog_overdue sb (tick (Suc k + n)) d" using ih by blast
    then have "\<exists>n. \<forall>d \<in> set (dog_list s'). \<not> dog_overdue sb (tick (k + n)) d"
      by (intro exI [of _ "Suc n"]) simp
    moreover have "r' = (\<exists>i. dog_fired t s' i \<and> has_dog (dog_data (dog_list s ! i)))"
      using ih data t(1) by (auto simp: dog_fired_def)
    ultimately show ?thesis
      using ih t alive j rec(2) fired by auto
  qed
qed

section \<open>Ticks as signed numbers\<close>

lemma sint_of_int32: "- (2 ^ 31) \<le> i \<Longrightarrow> i < 2 ^ 31 \<Longrightarrow> sint (word_of_int i :: u32) = i"
  by (simp add: sint_sbintrunc' signed_take_bit_int_eq_self)

lemma sint_range32: "- (2 ^ 31) \<le> sint w \<and> sint w < 2 ^ 31" for w :: u32
  using sint_range_size [of w] by (simp add: word_size)

lemma sint_diff_small:
  fixes v w :: u32
  assumes "0 \<le> sint v" "sint v \<le> sint w"
  shows "sint (w - v) = sint w - sint v"
proof -
  have "w - v = word_of_int (sint w - sint v)" by simp
  moreover have "sint (word_of_int (sint w - sint v) :: u32) = sint w - sint v"
    using assms sint_range32 [of w] by (intro sint_of_int32) simp_all
  ultimately show ?thesis by simp
qed

lemma over_sec_unsigned:
  "sint (threaddog_sec2tick (over_sec_val False d)) = 1000 * uint (dog_over_sec d)"
proof -
  define u where "u = uint (dog_over_sec d)"
  have "0 \<le> u" "u < 256"
    using uint_range_size [of "dog_over_sec d"] by (simp_all add: word_size u_def)
  then have "sint (word_of_int (1000 * u) :: u32) = 1000 * u"
    by (intro sint_of_int32) simp_all
  then have "sint (word_of_int (1000 * uint (dog_over_sec d)) :: u32) = 1000 * uint (dog_over_sec d)"
    by (simp only: u_def)
  moreover have "threaddog_sec2tick (over_sec_val False d) = word_of_int (1000 * uint (dog_over_sec d))"
    by (simp add: threaddog_sec2tick_def over_sec_val_def RT_TICK_PER_SECOND_def mult.commute)
  ultimately show ?thesis by simp
qed

lemma over_sec_signed:
  assumes "128 \<le> uint (dog_over_sec d)"
  shows "sint (threaddog_sec2tick (over_sec_val True d)) < 0"
proof -
  define i where "i = uint (dog_over_sec d) - 256"
  have i: "- 128 \<le> i" "i < 0"
    using assms uint_range_size [of "dog_over_sec d"] by (simp_all add: i_def word_size)
  have b: "dog_over_sec d = word_of_int i"
  proof -
    have "word_of_int i = (word_of_int (uint (dog_over_sec d)) - 256 :: byte)"
      by (simp add: i_def)
    then show ?thesis by simp
  qed
  have "sint (dog_over_sec d) = i"
    using i unfolding b by (simp add: sint_sbintrunc' signed_take_bit_int_eq_self)
  then have "threaddog_sec2tick (over_sec_val True d) = word_of_int (1000 * i)"
    by (simp add: threaddog_sec2tick_def over_sec_val_def RT_TICK_PER_SECOND_def scast_eq mult.commute)
  moreover have "sint (word_of_int (1000 * i) :: u32) = 1000 * i"
    using i by (intro sint_of_int32) simp_all
  ultimately show ?thesis using i by simp
qed

section \<open>Properties\<close>

text \<open>The states that the threads and the main loop can reach.\<close>

inductive dog_reachable :: "bool \<Rightarrow> thddogs \<Rightarrow> bool" for sb where
  start: "dog_reachable sb threaddog_init"
| step: "dog_reachable sb s \<Longrightarrow> dog_step sb s s' \<Longrightarrow> dog_reachable sb s'"

text \<open>
  C21. In every state that registrations, removals, feedings and checks can reach, the table has
  50 slots, the counter is the number of slots in use, and a slot in use that has fired is
  marked dead. So registration fails exactly when the counter is 50; it then changes nothing,
  and otherwise it takes the first free slot and leaves the others alone.
\<close>

theorem dog_table_invariant:
  assumes "dog_reachable sb s"
  shows "dogs_wf s \<and> (case threaddog_register tick name over_sec data s of
      (s', None) \<Rightarrow> dog_cnt s = int THREAD_DOG_NUM \<and> s' = s
    | (s', Some i) \<Rightarrow> dog_cnt s < int THREAD_DOG_NUM \<and> i < THREAD_DOG_NUM
        \<and> \<not> dog_use (dog_list s ! i) \<and> (\<forall>j < i. dog_use (dog_list s ! j))
        \<and> dog_use (dog_list s' ! i) \<and> \<not> dog_is_over (dog_list s' ! i)
        \<and> dog_cnt s' = dog_cnt s + 1 \<and> (\<forall>j. j \<noteq> i \<longrightarrow> dog_list s' ! j = dog_list s ! j))"
proof -
  have wf: "dogs_wf s" using assms by (induction rule: dog_reachable.induct) (auto intro: dogs_wf_init dogs_wf_step)
  let ?free = "\<lambda>d. \<not> dog_use d"
  have len: "length (dog_list s) = THREAD_DOG_NUM" "dog_cnt s = int (length (filter dog_use (dog_list s)))"
    using wf by (simp_all add: dogs_wf_def)
  show ?thesis
  proof (cases "find_from ?free 0 (dog_list s)")
    case None
    then have "filter dog_use (dog_list s) = dog_list s" by (simp add: find_from_None filter_id_conv)
    then show ?thesis using wf len None by (simp add: threaddog_register_def)
  next
    case (Some i)
    have i: "i < THREAD_DOG_NUM" "\<not> dog_use (dog_list s ! i)"
      using find_from_Some [OF Some] len by simp_all
    have before: "\<forall>j < i. dog_use (dog_list s ! j)"
    proof (intro allI impI)
      fix j assume j: "j < i"
      then have "dog_list s ! j \<in> set (take i (dog_list s))"
        using i len by (auto simp: in_set_conv_nth intro!: exI [of _ j])
      then show "dog_use (dog_list s ! j)" using find_from_first [OF Some] by simp
    qed
    have "filter dog_use (dog_list s) \<noteq> dog_list s"
      using i len by (metis filter_id_conv nth_mem)
    then have "length (filter dog_use (dog_list s)) < THREAD_DOG_NUM"
      using len by (metis filter_id_conv length_filter_less)
    then show ?thesis
      using wf len i before Some by (auto simp: threaddog_register_def Let_def)
  qed
qed

theorem dog_table_invariant_witness:
  "dogs_wf (fst (threaddog_check True 5 (fst (threaddog_register 1 [65] 10 7 threaddog_init))))"
  using dog_table_invariant [OF dog_reachable.step [OF dog_reachable.step [OF dog_reachable.start
      dog_step.register] dog_step.check]]
  by blast

text \<open>
  C22. The main loop's sequence of checks ends, whatever the clock does meanwhile. When every
  watched slot belongs to a thread, no slot is overdue at the tick of its last check, nothing
  but the watch changes, and the board is reset exactly when a thread that has a slot was
  among those that fired.
\<close>

theorem dog_main_check:
  assumes "\<forall>i < length (dog_list s). dog_alive (dog_list s ! i) \<longrightarrow> dog_data (dog_list s ! i) \<noteq> 0"
  shows "\<exists>s' reset n. main_dog_check has_dog sb tick k s = (s', reset)
    \<and> (\<forall>d \<in> set (dog_list s'). \<not> dog_overdue sb (tick (k + n)) d)
    \<and> length (dog_list s') = length (dog_list s)
    \<and> map dog_data (dog_list s') = map dog_data (dog_list s)
    \<and> (\<forall>i < length (dog_list s). dog_alive (dog_list s' ! i) \<longrightarrow> dog_alive (dog_list s ! i))
    \<and> reset = (\<exists>i. dog_fired s s' i \<and> has_dog (dog_data (dog_list s ! i)))"
  using main_dog_check_result [OF assms, of has_dog sb tick k]
  by (cases "main_dog_check has_dog sb tick k s") auto

theorem dog_main_check_witness:
  "\<exists>s' reset n. main_dog_check (\<lambda>d. d = 9) False (\<lambda>k. 20000) 0
      \<lparr>dog_list = [dog_zero\<lparr>dog_use := True, dog_over_sec := 10, dog_data := 9\<rparr>], dog_cnt = 1\<rparr> = (s', reset)
    \<and> (\<forall>d \<in> set (dog_list s'). \<not> dog_overdue False 20000 d)"
  using dog_main_check [of "\<lparr>dog_list = [dog_zero\<lparr>dog_use := True, dog_over_sec := 10, dog_data := 9\<rparr>],
      dog_cnt = 1\<rparr>" "\<lambda>d. d = 9" False "\<lambda>k. 20000" 0]
  by auto

text \<open>
  C36. When a slot is overdue. With an unsigned bit-field and a clock that has not passed
  \<open>2 ^ 31\<close> since the last feeding, it is overdue exactly when more than its seconds have gone by.
  With the clock in the negative half of \<open>long\<close> (from 24.8 days on, for as long again) no slot
  is ever overdue; and with a signed bit-field a limit of 128 seconds or more is overdue at
  the very moment of its feeding.
\<close>

theorem dog_deadline:
  assumes "dog_watched d"
  shows "(0 \<le> sint (dog_tick_feed d) \<and> sint (dog_tick_feed d) \<le> sint tick \<longrightarrow>
      snd (dog_turn False tick d) = (1000 * uint (dog_over_sec d) < sint tick - sint (dog_tick_feed d)))
    \<and> (sint tick < 0 \<longrightarrow> \<not> snd (dog_turn False tick d))
    \<and> (0 \<le> sint tick \<and> dog_tick_feed d = tick \<and> 128 \<le> uint (dog_over_sec d) \<longrightarrow> snd (dog_turn True tick d))"
proof -
  have fires: "snd (dog_turn sb tick d) = dog_overdue sb tick d" for sb
    using dog_turn_overdue [OF prod.collapse [symmetric], of sb tick d] by simp
  have u: "0 \<le> uint (dog_over_sec d)" by simp
  show ?thesis
    unfolding fires
  proof (intro conjI impI)
    assume "0 \<le> sint (dog_tick_feed d) \<and> sint (dog_tick_feed d) \<le> sint tick"
    then show "dog_overdue False tick d = (1000 * uint (dog_over_sec d) < sint tick - sint (dog_tick_feed d))"
      using assms u by (auto simp: dog_overdue_def Let_def word_sless_alt word_sle_eq over_sec_unsigned
          sint_diff_small)
  next
    assume "sint tick < 0"
    then have "\<not> 1000 * uint (dog_over_sec d) \<le> sint tick" using u by linarith
    then show "\<not> dog_overdue False tick d"
      by (auto simp: dog_overdue_def Let_def word_sless_alt word_sle_eq over_sec_unsigned)
  next
    assume "0 \<le> sint tick \<and> dog_tick_feed d = tick \<and> 128 \<le> uint (dog_over_sec d)"
    then show "dog_overdue True tick d"
      using assms over_sec_signed [of d]
      by (auto simp: dog_overdue_def Let_def word_sless_alt word_sle_eq)
  qed
qed

theorem dog_deadline_witness:
  "snd (dog_turn False 10001 (dog_zero\<lparr>dog_use := True, dog_over_sec := 10\<rparr>))
   \<and> \<not> snd (dog_turn False 10000 (dog_zero\<lparr>dog_use := True, dog_over_sec := 10\<rparr>))
   \<and> \<not> snd (dog_turn False 0x80000000 (dog_zero\<lparr>dog_use := True, dog_over_sec := 10\<rparr>))
   \<and> snd (dog_turn True 5 (dog_zero\<lparr>dog_use := True, dog_over_sec := 200, dog_tick_feed := 5\<rparr>))"
  using dog_deadline [of "dog_zero\<lparr>dog_use := True, dog_over_sec := 10\<rparr>"]
    dog_deadline [of "dog_zero\<lparr>dog_use := True, dog_over_sec := 200, dog_tick_feed := 5\<rparr>" 5]
  by (simp add: dog_watched_def dog_zero_def)

end
