(* ===== verification/ByteBuffer.thy ===== *)
theory ByteBuffer
  imports Prelude
begin

text \<open>
  The byte stream over a caller's array, \<open>applications/test/bytebuffer.h\<close>, as it is built with
  \<open>LITTLE_EDIAN\<close> (numbers are stored with the high byte first). A stream has a 32-bit position,
  the length its creator declared, and the array it points into. No operation compares the
  position with the length: an access outside the array gives \<open>None\<close>.

  Shown: what is put is got back, by the relative and by the absolute operations, and nothing
  else in the array changes; the operations fail exactly when they leave the array, and the
  remaining size wraps around once the position is past the length.
\<close>

section \<open>Streams\<close>

record byte_buffer =
  bb_p :: u32
  bb_len :: u32
  bb_buf :: "byte list"

definition bb_new_from_buf :: "byte list \<Rightarrow> u32 \<Rightarrow> byte_buffer" where
  "bb_new_from_buf buf len = \<lparr>bb_p = 0, bb_len = len, bb_buf = buf\<rparr>"

definition bb_skip :: "u32 \<Rightarrow> byte_buffer \<Rightarrow> byte_buffer" where
  "bb_skip len bb = bb\<lparr>bb_p := bb_p bb + len\<rparr>"

definition bb_rewind :: "byte_buffer \<Rightarrow> byte_buffer" where
  "bb_rewind bb = bb\<lparr>bb_p := 0\<rparr>"

definition bb_limit :: "byte_buffer \<Rightarrow> u32" where
  "bb_limit bb = bb_len bb"

definition bb_remain :: "byte_buffer \<Rightarrow> u32" where
  "bb_remain bb = bb_len bb - bb_p bb"

definition bb_set_pos :: "u32 \<Rightarrow> byte_buffer \<Rightarrow> byte_buffer" where
  "bb_set_pos pos bb = bb\<lparr>bb_p := pos\<rparr>"

definition bb_get_pos :: "byte_buffer \<Rightarrow> u32" where
  "bb_get_pos bb = bb_p bb"

definition bb_clear :: "byte_buffer \<Rightarrow> byte_buffer option" where
  "bb_clear bb = (if unat (bb_len bb) \<le> length (bb_buf bb)
     then Some (bb\<lparr>bb_buf := replicate (unat (bb_len bb)) 0 @ drop (unat (bb_len bb)) (bb_buf bb), bb_p := 0\<rparr>)
     else None)"

section \<open>Reading\<close>

text \<open>One element of the array.\<close>

definition buf_at :: "byte list \<Rightarrow> u32 \<Rightarrow> byte option" where
  "buf_at buf i = (if unat i < length buf then Some (buf ! unat i) else None)"

definition bb_peek :: "byte_buffer \<Rightarrow> byte option" where
  "bb_peek bb = buf_at (bb_buf bb) (bb_p bb)"

definition bb_get :: "byte_buffer \<Rightarrow> (byte \<times> byte_buffer) option" where
  "bb_get bb = do { b \<leftarrow> buf_at (bb_buf bb) (bb_p bb); Some (b, bb\<lparr>bb_p := bb_p bb + 1\<rparr>) }"

definition bb_get_at :: "u32 \<Rightarrow> byte_buffer \<Rightarrow> byte option" where
  "bb_get_at index bb = buf_at (bb_buf bb) index"

text \<open>\<open>memcpy\<close> out of the array, from an offset.\<close>

definition buf_read :: "byte list \<Rightarrow> u32 \<Rightarrow> u32 \<Rightarrow> byte list option" where
  "buf_read buf off len = (if unat off + unat len \<le> length buf
     then Some (take (unat len) (drop (unat off) buf)) else None)"

definition bb_get_bytes :: "u32 \<Rightarrow> byte_buffer \<Rightarrow> (byte list \<times> byte_buffer) option" where
  "bb_get_bytes len bb = do {
     dest \<leftarrow> buf_read (bb_buf bb) (bb_p bb) len;
     Some (dest, bb\<lparr>bb_p := bb_p bb + len\<rparr>) }"

definition bb_get_bytes_at :: "u32 \<Rightarrow> u32 \<Rightarrow> byte_buffer \<Rightarrow> byte list option" where
  "bb_get_bytes_at index len bb = buf_read (bb_buf bb) index len"

definition bb_get_int :: "byte_buffer \<Rightarrow> (u32 \<times> byte_buffer) option" where
  "bb_get_int bb = do {
     let ret = (0 :: u32);
     (b, bb) \<leftarrow> bb_get bb;
     let ret = ret OR push_bit 24 (ucast b);
     (b, bb) \<leftarrow> bb_get bb;
     let ret = ret OR push_bit 16 (ucast b);
     (b, bb) \<leftarrow> bb_get bb;
     let ret = ret OR push_bit 8 (ucast b);
     (b, bb) \<leftarrow> bb_get bb;
     let ret = ret OR push_bit 0 (ucast b);
     Some (ret, bb) }"

definition bb_get_int_at :: "u32 \<Rightarrow> byte_buffer \<Rightarrow> u32 option" where
  "bb_get_int_at index bb = do {
     let ret = (0 :: u32);
     b \<leftarrow> bb_get_at index bb;
     let ret = ret OR push_bit 24 (ucast b);
     b \<leftarrow> bb_get_at (index + 1) bb;
     let ret = ret OR push_bit 16 (ucast b);
     b \<leftarrow> bb_get_at (index + 2) bb;
     let ret = ret OR push_bit 8 (ucast b);
     b \<leftarrow> bb_get_at (index + 3) bb;
     let ret = ret OR push_bit 0 (ucast b);
     Some ret }"

definition bb_get_short :: "byte_buffer \<Rightarrow> (u16 \<times> byte_buffer) option" where
  "bb_get_short bb = do {
     let ret = (0 :: u32);
     (b, bb) \<leftarrow> bb_get bb;
     let ret = ret OR push_bit 8 (ucast b);
     (b, bb) \<leftarrow> bb_get bb;
     let ret = ret OR push_bit 0 (ucast b);
     Some (ucast ret, bb) }"

definition bb_get_short_at :: "u32 \<Rightarrow> byte_buffer \<Rightarrow> u16 option" where
  "bb_get_short_at index bb = do {
     let ret = (0 :: u32);
     b \<leftarrow> bb_get_at index bb;
     let ret = ret OR push_bit 8 (ucast b);
     b \<leftarrow> bb_get_at (index + 1) bb;
     let ret = ret OR push_bit 0 (ucast b);
     Some (ucast ret) }"

section \<open>Writing\<close>

definition buf_set :: "byte list \<Rightarrow> u32 \<Rightarrow> byte \<Rightarrow> byte list option" where
  "buf_set buf i b = (if unat i < length buf then Some (buf[unat i := b]) else None)"

definition bb_put :: "byte \<Rightarrow> byte_buffer \<Rightarrow> byte_buffer option" where
  "bb_put v bb = do {
     buf \<leftarrow> buf_set (bb_buf bb) (bb_p bb) v;
     Some (bb\<lparr>bb_buf := buf, bb_p := bb_p bb + 1\<rparr>) }"

definition bb_put_at :: "byte \<Rightarrow> u32 \<Rightarrow> byte_buffer \<Rightarrow> byte_buffer option" where
  "bb_put_at v index bb = do {
     buf \<leftarrow> buf_set (bb_buf bb) index v;
     Some (bb\<lparr>bb_buf := buf\<rparr>) }"

text \<open>\<open>memcpy\<close> into the array. The source holds \<open>len\<close> bytes, or the read leaves it.\<close>

definition buf_write :: "byte list \<Rightarrow> u32 \<Rightarrow> byte list \<Rightarrow> u32 \<Rightarrow> byte list option" where
  "buf_write buf off arr len = (if unat off + unat len \<le> length buf \<and> unat len \<le> length arr
     then Some (take (unat off) buf @ take (unat len) arr @ drop (unat off + unat len) buf) else None)"

definition bb_put_bytes :: "byte list \<Rightarrow> u32 \<Rightarrow> byte_buffer \<Rightarrow> byte_buffer option" where
  "bb_put_bytes arr len bb = do {
     buf \<leftarrow> buf_write (bb_buf bb) (bb_p bb) arr len;
     Some (bb\<lparr>bb_buf := buf, bb_p := bb_p bb + len\<rparr>) }"

definition bb_put_bytes_at :: "byte list \<Rightarrow> u32 \<Rightarrow> u32 \<Rightarrow> byte_buffer \<Rightarrow> byte_buffer option" where
  "bb_put_bytes_at arr len index bb = do {
     buf \<leftarrow> buf_write (bb_buf bb) index arr len;
     Some (bb\<lparr>bb_buf := buf\<rparr>) }"

definition bb_put_int :: "u32 \<Rightarrow> byte_buffer \<Rightarrow> byte_buffer option" where
  "bb_put_int v bb = do {
     bb \<leftarrow> bb_put (ucast (drop_bit 24 v AND 0xFF)) bb;
     bb \<leftarrow> bb_put (ucast (drop_bit 16 v AND 0xFF)) bb;
     bb \<leftarrow> bb_put (ucast (drop_bit 8 v AND 0xFF)) bb;
     bb_put (ucast (drop_bit 0 v AND 0xFF)) bb }"

definition bb_put_int_at :: "u32 \<Rightarrow> u32 \<Rightarrow> byte_buffer \<Rightarrow> byte_buffer option" where
  "bb_put_int_at v index bb = do {
     bb \<leftarrow> bb_put_at (ucast (drop_bit 24 v AND 0xFF)) index bb;
     bb \<leftarrow> bb_put_at (ucast (drop_bit 16 v AND 0xFF)) (index + 1) bb;
     bb \<leftarrow> bb_put_at (ucast (drop_bit 8 v AND 0xFF)) (index + 2) bb;
     bb_put_at (ucast (drop_bit 0 v AND 0xFF)) (index + 3) bb }"

definition bb_put_short :: "u16 \<Rightarrow> byte_buffer \<Rightarrow> byte_buffer option" where
  "bb_put_short v bb = do {
     bb \<leftarrow> bb_put (ucast (drop_bit 8 v AND 0xFF)) bb;
     bb_put (ucast (drop_bit 0 v AND 0xFF)) bb }"

definition bb_put_short_at :: "u16 \<Rightarrow> u32 \<Rightarrow> byte_buffer \<Rightarrow> byte_buffer option" where
  "bb_put_short_at v index bb = do {
     bb \<leftarrow> bb_put_at (ucast (drop_bit 8 v AND 0xFF)) index bb;
     bb_put_at (ucast (drop_bit 0 v AND 0xFF)) (index + 1) bb }"

section \<open>Sequences of single bytes\<close>

text \<open>The room from a position on, and the position after \<open>n\<close> bytes of it.\<close>

definition room :: "u32 \<Rightarrow> nat \<Rightarrow> byte_buffer \<Rightarrow> bool" where
  "room p n bb = (unat p + n \<le> length (bb_buf bb) \<and> length (bb_buf bb) < 2 ^ 32)"

fun bb_puts :: "byte list \<Rightarrow> byte_buffer \<Rightarrow> byte_buffer option" where
  "bb_puts [] bb = Some bb"
| "bb_puts (b # bs) bb = do { bb \<leftarrow> bb_put b bb; bb_puts bs bb }"

fun bb_gets :: "nat \<Rightarrow> byte_buffer \<Rightarrow> (byte list \<times> byte_buffer) option" where
  "bb_gets 0 bb = Some ([], bb)"
| "bb_gets (Suc n) bb = do {
     (b, bb) \<leftarrow> bb_get bb;
     (bs, bb) \<leftarrow> bb_gets n bb;
     Some (b # bs, bb) }"

lemma room_next:
  assumes "room p (Suc n) bb"
  shows "unat (p + 1) = Suc (unat p)" "unat p < length (bb_buf bb)"
proof -
  have "unat p + 1 < 2 ^ 32" using assms by (simp add: room_def)
  then show "unat (p + 1) = Suc (unat p)" by (simp add: unat_word_ariths)
  show "unat p < length (bb_buf bb)" using assms by (simp add: room_def)
qed

lemma bb_puts_result:
  "room (bb_p bb) (length bs) bb \<Longrightarrow> bb_puts bs bb =
     Some (bb\<lparr>bb_buf := take (unat (bb_p bb)) (bb_buf bb) @ bs @ drop (unat (bb_p bb) + length bs) (bb_buf bb),
       bb_p := bb_p bb + word_of_nat (length bs)\<rparr>)"
proof (induction bs arbitrary: bb)
  case (Cons b bs)
  define c where "c = bb\<lparr>bb_buf := (bb_buf bb)[unat (bb_p bb) := b], bb_p := bb_p bb + 1\<rparr>"
  note n = room_next [of "bb_p bb" "length bs" bb]
  have p: "unat (bb_p c) = Suc (unat (bb_p bb))" "unat (bb_p bb) < length (bb_buf bb)"
    using n Cons.prems by (simp_all add: c_def)
  then have "room (bb_p c) (length bs) c" using Cons.prems by (simp add: room_def c_def)
  from Cons.IH [OF this] p show ?case
    by (simp add: bb_put_def buf_set_def c_def [symmetric])
      (simp add: c_def p take_Suc_conv_app_nth add.commute add.left_commute)
qed simp

lemma bb_gets_result:
  "room (bb_p bb) n bb \<Longrightarrow> bb_gets n bb =
     Some (take n (drop (unat (bb_p bb)) (bb_buf bb)), bb\<lparr>bb_p := bb_p bb + word_of_nat n\<rparr>)"
proof (induction n arbitrary: bb)
  case (Suc n)
  define c where "c = bb\<lparr>bb_p := bb_p bb + 1\<rparr>"
  have p: "unat (bb_p c) = Suc (unat (bb_p bb))" "unat (bb_p bb) < length (bb_buf bb)"
    using room_next [OF Suc.prems] by (simp_all add: c_def)
  then have "room (bb_p c) n c" using Suc.prems by (simp add: room_def c_def)
  from Suc.IH [OF this] p show ?case
    by (simp add: bb_get_def buf_at_def c_def [symmetric])
      (simp add: c_def p Cons_nth_drop_Suc [symmetric] add.commute add.left_commute)
qed simp

section \<open>Numbers\<close>

lemma ucast_and_FF: "ucast (w AND 0xFF :: u32) = (ucast w :: byte)" "ucast (v AND 0xFF :: u16) = (ucast v :: byte)"
proof -
  have "(0xFF :: u32) = mask 8" "(0xFF :: u16) = mask 8" by (simp_all add: mask_eq_exp_minus_1)
  then have "w AND 0xFF = take_bit 8 w" "v AND 0xFF = take_bit 8 v" by (simp_all only: take_bit_eq_mask)
  then show "ucast (w AND 0xFF) = (ucast w :: byte)" "ucast (v AND 0xFF) = (ucast v :: byte)"
    by (auto intro: bit_word_eqI simp: bit_simps)
qed

definition bytes_be16 :: "u16 \<Rightarrow> byte list" where
  "bytes_be16 v = [ucast (drop_bit 8 v), ucast v]"

lemma bb_put_int_puts: "bb_put_int v bb = bb_puts (bytes_be32 v) bb"
  by (simp add: bb_put_int_def bytes_be32_def ucast_and_FF split: bind_splits)

lemma bb_put_short_puts: "bb_put_short v bb = bb_puts (bytes_be16 v) bb"
  by (simp add: bb_put_short_def bytes_be16_def ucast_and_FF split: bind_splits)

lemma bb_get_int_gets: "bb_get_int bb = do {
    (bs, bb) \<leftarrow> bb_gets 4 bb;
    Some (le32 (bs ! 3) (bs ! 2) (bs ! 1) (bs ! 0), bb) }"
  by (simp add: bb_get_int_def numeral_eq_Suc le32_def or.assoc or.commute or.left_commute
      split: bind_splits prod.splits)

lemma ucast_le16: "ucast (push_bit 8 (ucast a) OR ucast b :: u32) = le16 b a"
  by (rule bit_word_eqI) (auto simp: le16_def bit_simps)

lemma ucast_le16': "ucast (256 * ucast a OR ucast b :: u32) = le16 b a"
  using ucast_le16 [of a b] by (simp add: push_bit_eq_mult mult.commute)

lemma bb_get_short_gets: "bb_get_short bb = do {
    (bs, bb) \<leftarrow> bb_gets 2 bb;
    Some (le16 (bs ! 1) (bs ! 0), bb) }"
  by (simp add: bb_get_short_def numeral_eq_Suc ucast_le16' split: bind_splits prod.splits)

text \<open>A number written in the room behind the position, and read again from there.\<close>

lemma be32_nth: "take 4 (bytes_be32 v @ ys) = bytes_be32 v"
  "le32 (bytes_be32 v ! 3) (bytes_be32 v ! 2) (bytes_be32 v ! Suc 0) (bytes_be32 v ! 0) = v"
  by (simp_all add: bytes_be32_def le32_bytes_le32)

lemma be16_nth: "take 2 (bytes_be16 v @ ys) = bytes_be16 v"
  "le16 (bytes_be16 v ! Suc 0) (bytes_be16 v ! 0) = v"
  by (simp_all add: bytes_be16_def le16_bytes)

lemma length_bytes_be16 [simp]: "length (bytes_be16 v) = 2"
  by (simp add: bytes_be16_def)

lemma room_put:
  assumes "room p n bb" "length bs = n"
  shows "room p n (bb\<lparr>bb_buf := take (unat p) (bb_buf bb) @ bs @ drop (unat p + n) (bb_buf bb), bb_p := q\<rparr>)"
    and "room p n (bb\<lparr>bb_buf := take (unat p) (bb_buf bb) @ bs @ drop (unat p + n) (bb_buf bb)\<rparr>)"
  using assms by (simp_all add: room_def)

section \<open>Properties\<close>

text \<open>
  C34. What is put into a stream is got back from it: a 32-bit number, a 16-bit number and a
  string of bytes, written where the array has room for them, change exactly their bytes, and
  reading at the old position returns them and ends where the writing ended.
\<close>

theorem bb_roundtrip:
  assumes "length (bb_buf bb) < 2 ^ 32"
  shows "(unat (bb_p bb) + 4 \<le> length (bb_buf bb) \<longrightarrow>
      (\<exists>b. bb_put_int v bb = Some b
        \<and> bb_buf b = take (unat (bb_p bb)) (bb_buf bb) @ bytes_be32 v @ drop (unat (bb_p bb) + 4) (bb_buf bb)
        \<and> bb_get_int (bb_set_pos (bb_p bb) b) = Some (v, b)))
    \<and> (unat (bb_p bb) + 2 \<le> length (bb_buf bb) \<longrightarrow>
      (\<exists>b. bb_put_short w bb = Some b
        \<and> bb_buf b = take (unat (bb_p bb)) (bb_buf bb) @ bytes_be16 w @ drop (unat (bb_p bb) + 2) (bb_buf bb)
        \<and> bb_get_short (bb_set_pos (bb_p bb) b) = Some (w, b)))
    \<and> (unat (bb_p bb) + unat n \<le> length (bb_buf bb) \<and> length arr = unat n \<longrightarrow>
      (\<exists>b. bb_put_bytes arr n bb = Some b
        \<and> bb_buf b = take (unat (bb_p bb)) (bb_buf bb) @ arr @ drop (unat (bb_p bb) + unat n) (bb_buf bb)
        \<and> bb_get_bytes n (bb_set_pos (bb_p bb) b) = Some (arr, b)))"
proof (intro conjI impI)
  assume "unat (bb_p bb) + 4 \<le> length (bb_buf bb)"
  then have "room (bb_p bb) 4 bb" using assms by (simp add: room_def)
  from this room_put [OF this, of "bytes_be32 v"]
  show "\<exists>b. bb_put_int v bb = Some b
      \<and> bb_buf b = take (unat (bb_p bb)) (bb_buf bb) @ bytes_be32 v @ drop (unat (bb_p bb) + 4) (bb_buf bb)
      \<and> bb_get_int (bb_set_pos (bb_p bb) b) = Some (v, b)"
    by (simp add: bb_put_int_puts bb_puts_result bb_get_int_gets bb_gets_result bb_set_pos_def be32_nth
        room_def)
next
  assume "unat (bb_p bb) + 2 \<le> length (bb_buf bb)"
  then have "room (bb_p bb) 2 bb" using assms by (simp add: room_def)
  from this room_put [OF this, of "bytes_be16 w"]
  show "\<exists>b. bb_put_short w bb = Some b
      \<and> bb_buf b = take (unat (bb_p bb)) (bb_buf bb) @ bytes_be16 w @ drop (unat (bb_p bb) + 2) (bb_buf bb)
      \<and> bb_get_short (bb_set_pos (bb_p bb) b) = Some (w, b)"
    by (simp add: bb_put_short_puts bb_puts_result bb_get_short_gets bb_gets_result bb_set_pos_def be16_nth
        room_def)
next
  assume "unat (bb_p bb) + unat n \<le> length (bb_buf bb) \<and> length arr = unat n"
  then show "\<exists>b. bb_put_bytes arr n bb = Some b
      \<and> bb_buf b = take (unat (bb_p bb)) (bb_buf bb) @ arr @ drop (unat (bb_p bb) + unat n) (bb_buf bb)
      \<and> bb_get_bytes n (bb_set_pos (bb_p bb) b) = Some (arr, b)"
    by (auto simp: bb_put_bytes_def buf_write_def bb_get_bytes_def buf_read_def bb_set_pos_def)
qed

theorem bb_roundtrip_witness:
  "\<exists>b. bb_put_int 5 \<lparr>bb_p = 2, bb_len = 6, bb_buf = [9, 9, 9, 9, 9, 9]\<rparr> = Some b
    \<and> bb_buf b = [9, 9, 0, 0, 0, 5]
    \<and> bb_get_int (bb_set_pos 2 b) = Some (5, b)"
  using bb_roundtrip [of "\<lparr>bb_p = 2, bb_len = 6, bb_buf = [9, 9, 9, 9, 9, 9]\<rparr>" 5]
  by (simp add: bytes_be32_def)

text \<open>
  The declared length of a stream guards nothing: with the position at or past it, a put
  goes into the array behind it as long as the array has a byte there and leaves the array
  otherwise, and the remaining size that \<open>bb_remain\<close> reports is then the difference wrapped
  around, at least \<open>2 ^ 32\<close> less the position.
\<close>

theorem bb_limit_unchecked:
  assumes "unat (bb_limit bb) < unat (bb_p bb)"
  shows "bb_put v bb = (if unat (bb_p bb) < length (bb_buf bb)
      then Some (bb\<lparr>bb_buf := (bb_buf bb)[unat (bb_p bb) := v], bb_p := bb_p bb + 1\<rparr>) else None)
    \<and> unat (bb_remain bb) = 2 ^ 32 + unat (bb_limit bb) - unat (bb_get_pos bb)"
proof -
  have "unat (bb_len bb - bb_p bb) = 2 ^ 32 + unat (bb_len bb) - unat (bb_p bb)"
    using assms by (simp add: unat_sub_if_size word_size bb_limit_def)
  then show ?thesis
    by (simp add: bb_put_def buf_set_def bb_remain_def bb_limit_def bb_get_pos_def)
qed

theorem bb_limit_unchecked_witness:
  "bb_put 5 (bb_skip 3 (bb_new_from_buf [1, 2, 3, 4] 2)) =
     Some \<lparr>bb_p = 4, bb_len = 2, bb_buf = [1, 2, 3, 5]\<rparr>
   \<and> unat (bb_remain (bb_skip 3 (bb_new_from_buf [1, 2, 3, 4] 2))) = 4294967295"
proof -
  have "[1, 2, 3, 4][3 := 5] = [1, 2, 3, 5 :: byte]" by (simp add: numeral_eq_Suc)
  then show ?thesis
    using bb_limit_unchecked [of "bb_skip 3 (bb_new_from_buf [1, 2, 3, 4] 2)" 5]
    by (simp add: bb_skip_def bb_new_from_buf_def bb_limit_def bb_get_pos_def)
qed

end
