(* ===== verification/SyncList.thy ===== *)
theory SyncList
  imports VarList
begin

text \<open>
  The polling list of the gateway, \<open>drivers/varmanage/varmanage.c\<close>: the variables grouped by
  device and slave (\<open>sync_slave_t\<close>), each group with the requests to make (\<open>sync_ext_t\<close>), how it
  is built from the variable list, how neighbouring requests are merged, and how the
  acquisition thread steps through it.

  The groups are only appended to, walked, and freed together; their chain is a list of
  records that carry their address. The requests are records on a heap, for the insertion code
  works on their \<open>next\<close> and \<open>prev\<close> links. Their union has its address field at one place for all
  protocols; the other members are only read for the protocol they were written for. Results
  of the coming allocations are a list, as in \<open>VarList\<close>; \<open>None\<close> is a \<open>NULL\<close> dereference, a read
  of freed memory or a loop along a cycle.

  Shown here: adding a request and trimming a group do on the heap what functions on lists of
  requests do. The theory \<open>SyncPolls\<close> draws the conclusions.
\<close>

section \<open>State\<close>

definition SYNC_EXT_MAX_SIZE :: int where "SYNC_EXT_MAX_SIZE = 32"
definition BOARD_UART_MAX :: nat where "BOARD_UART_MAX = 6"

record sync_ext =
  se_addr :: u16
  se_ofs :: u16
  se_size :: byte
  se_op :: u32
  se_next :: ptr
  se_prev :: ptr

record sync_slave =
  sl_ptr :: ptr
  sl_dev_type :: byte
  sl_dev_num :: byte
  sl_proto_type :: byte
  sl_param :: "byte list"
  sl_ext_list :: ptr

text \<open>What the thread gets of the next request; \<open>SN_none\<close> where no member of the union is set.\<close>

datatype sync_param =
  SN_self u16
| SN_modbus byte byte u16 u16 byte
| SN_dlt645 "byte list" u16 u32
| SN_none

record sync_node =
  sn_dev_type :: byte
  sn_dev_num :: byte
  sn_proto_type :: byte
  sn_param :: sync_param

record sync_link =
  sy_slaves :: "sync_slave list"
  sy_heap :: "sync_ext heap"
  sy_alloc :: "ptr list"
  sy_last_tick :: "u32 list"

definition sync_calloc :: "sync_link \<Rightarrow> ptr \<times> sync_link" where
  "sync_calloc st = (case sy_alloc st of [] \<Rightarrow> (0, st) | p # ps \<Rightarrow> (p, st\<lparr>sy_alloc := ps\<rparr>))"

definition ext_zero :: sync_ext where
  "ext_zero = \<lparr>se_addr = 0, se_ofs = 0, se_size = 0, se_op = 0, se_next = 0, se_prev = 0\<rparr>"

definition sync_upd :: "ptr \<Rightarrow> (sync_ext \<Rightarrow> sync_ext) \<Rightarrow> sync_ext heap \<Rightarrow> sync_ext heap option" where
  "sync_upd p f h = (if p = 0 then None else do { e \<leftarrow> h p; Some (h(p \<mapsto> f e)) })"

section \<open>Kinds of devices\<close>

abbreviation bint :: "byte \<Rightarrow> int" where
  "bint b \<equiv> uint b"

abbreviation wint :: "u16 \<Rightarrow> int" where
  "wint w \<equiv> uint w"

definition sl_is_self :: "sync_slave \<Rightarrow> bool" where
  "sl_is_self s = proto_is_rtu_self (bint (sl_dev_type s)) (bint (sl_dev_num s))"

definition sl_is_modbus :: "sync_slave \<Rightarrow> bool" where
  "sl_is_modbus s = proto_is_modbus (bint (sl_dev_type s)) (bint (sl_proto_type s))"

definition sl_is_dlt645 :: "sync_slave \<Rightarrow> bool" where
  "sl_is_dlt645 s = proto_is_dlt645 (bint (sl_dev_type s)) (bint (sl_proto_type s))"

section \<open>Building the list\<close>

text \<open>The loop that frees the requests of a group, and the one over the groups.\<close>

partial_function (option) free_exts :: "ptr \<Rightarrow> sync_ext heap \<Rightarrow> sync_ext heap option" where
  "free_exts p h = (if p = 0 then Some h
     else do { e \<leftarrow> h p; free_exts (se_next e) (h(p := None)) })"

definition free_sync_slave_link :: "sync_link \<Rightarrow> sync_link option" where
  "free_sync_slave_link st = do {
     h \<leftarrow> runM (\<lambda>s. free_exts (sl_ext_list s)) (sy_slaves st) (sy_heap st);
     Some (st\<lparr>sy_heap := h, sy_slaves := []\<rparr>) }"

text \<open>The fields of a new group, and of a new request in a group.\<close>

definition slave_param :: "sync_slave \<Rightarrow> ExtData \<Rightarrow> byte list" where
  "slave_param s d =
     (if sl_is_self s then replicate 6 0
      else if sl_is_modbus s then [mb_btOpCode d, mb_btSlaveAddr d, ucast (mb_nSyncFAddr d), 0, 0, 0]
      else if sl_is_dlt645 s then dl_addr d
      else replicate 6 0)"

definition new_slave :: "ExtData \<Rightarrow> ptr \<Rightarrow> ptr \<Rightarrow> sync_slave" where
  "new_slave d p q = (let s = \<lparr>sl_ptr = p, sl_dev_type = ucast (usDevType d), sl_dev_num = ucast (usDevNum d),
       sl_proto_type = ucast (usProtoType d), sl_param = [], sl_ext_list = q\<rparr>
     in s\<lparr>sl_param := slave_param s d\<rparr>)"

definition new_ext :: "sync_slave \<Rightarrow> ExtData \<Rightarrow> sync_ext" where
  "new_ext s d =
     (if sl_is_self s then ext_zero\<lparr>se_addr := usAddr d\<rparr>
      else if sl_is_modbus s then
        ext_zero\<lparr>se_addr := mb_usExtAddr d, se_ofs := mb_usAddrOfs d, se_size := word_of_nat (var_regs d)\<rparr>
      else if sl_is_dlt645 s then ext_zero\<lparr>se_addr := usAddr d, se_op := dl_op d\<rparr>
      else ext_zero)"

definition add_sync_slave_node :: "ExtData \<Rightarrow> sync_link \<Rightarrow> sync_slave option \<times> sync_link" where
  "add_sync_slave_node d st = (let (p, st) = sync_calloc st in
     if p = 0 then (None, st)
     else (let (q, st) = sync_calloc st; s = new_slave d p q in
       (Some s, st\<lparr>sy_slaves := sy_slaves st @ [s],
          sy_heap := (if q = 0 then sy_heap st else (sy_heap st)(q \<mapsto> new_ext s d))\<rparr>)))"

text \<open>The test of \<open>__find_sync_slave_node\<close>, by the kind of the variable's device.\<close>

definition sl_match :: "ExtData \<Rightarrow> sync_slave \<Rightarrow> bool" where
  "sl_match d s =
     (if proto_is_rtu_self (wint (usDevType d)) (wint (usDevNum d)) then
        ucast (sl_dev_type s) = usDevType d \<and> ucast (sl_dev_num s) = usDevNum d
      else if proto_is_modbus (wint (usDevType d)) (wint (usProtoType d)) then
        sl_param s ! 0 = mb_btOpCode d \<and> scast (sl_param s ! 2) = mb_nSyncFAddr d \<and>
        sl_param s ! 1 = mb_btSlaveAddr d \<and> ucast (sl_dev_type s) = usDevType d \<and>
        ucast (sl_dev_num s) = usDevNum d \<and> ucast (sl_proto_type s) = usProtoType d
      else if proto_is_dlt645 (wint (usDevType d)) (wint (usProtoType d)) then
        sl_param s = dl_addr d \<and> ucast (sl_dev_type s) = usDevType d \<and>
        ucast (sl_dev_num s) = usDevNum d \<and> ucast (sl_proto_type s) = usProtoType d
      else False)"

definition find_sync_slave_node :: "ExtData \<Rightarrow> sync_link \<Rightarrow> sync_slave option" where
  "find_sync_slave_node d st = find (sl_match d) (sy_slaves st)"

definition set_ext_list :: "sync_slave \<Rightarrow> ptr \<Rightarrow> sync_link \<Rightarrow> sync_link" where
  "set_ext_list sl p st = st\<lparr>sy_slaves :=
     map (\<lambda>s. if sl_ptr s = sl_ptr sl then s\<lparr>sl_ext_list := p\<rparr> else s) (sy_slaves st)\<rparr>"

text \<open>The new request \<open>p\<close> goes in at the place of \<open>q\<close>, the first with a greater address.\<close>

definition ext_insert_at :: "sync_slave \<Rightarrow> ptr \<Rightarrow> ptr \<Rightarrow> sync_link \<Rightarrow> sync_link option" where
  "ext_insert_at sl p q st = do {
     x \<leftarrow> sy_heap st q;
     let prev = se_prev x;
     let next = se_next x;
     st \<leftarrow> (if prev \<noteq> 0
       then do { h \<leftarrow> sync_upd prev (\<lambda>e. e\<lparr>se_next := p\<rparr>) (sy_heap st); Some (st\<lparr>sy_heap := h\<rparr>) }
       else Some (set_ext_list sl p st));
     h \<leftarrow> (if next \<noteq> 0 then sync_upd next (\<lambda>e. e\<lparr>se_prev := prev\<rparr>) (sy_heap st) else Some (sy_heap st));
     h \<leftarrow> sync_upd p (\<lambda>e. e\<lparr>se_prev := prev, se_next := next\<rparr>) h;
     Some (st\<lparr>sy_heap := h\<rparr>) }"

definition ext_append :: "sync_slave \<Rightarrow> ptr \<Rightarrow> sync_link \<Rightarrow> sync_link option" where
  "ext_append sl p st = do {
     q \<leftarrow> walk_last se_next (sy_heap st) (sl_ext_list sl);
     h \<leftarrow> sync_upd q (\<lambda>e. e\<lparr>se_next := p\<rparr>) (sy_heap st);
     Some (st\<lparr>sy_heap := h\<rparr>) }"

definition add_sync_ext_node :: "ExtData \<Rightarrow> sync_link \<Rightarrow> (ptr \<times> sync_link) option" where
  "add_sync_ext_node d st = (case find_sync_slave_node d st of
     Some sl \<Rightarrow>
       (let (p, st) = sync_calloc st in
        if p = 0 then Some (0, st)
        else (let e = new_ext sl d; h = sy_heap st; st = st\<lparr>sy_heap := h(p \<mapsto> e)\<rparr> in do {
          q \<leftarrow> (if sl_is_modbus sl \<and> \<not> sl_is_self sl
                then walk_find se_next (\<lambda>x. se_addr e < se_addr x) (sy_heap st) (sl_ext_list sl)
                else Some 0);
          st \<leftarrow> (if q \<noteq> 0 then ext_insert_at sl p q st else ext_append sl p st);
          Some (p, st) }))
   | None \<Rightarrow>
       (case add_sync_slave_node d st of
          (None, st) \<Rightarrow> None
        | (Some sl, st) \<Rightarrow> Some (sl_ext_list sl, st)))"

section \<open>Merging requests\<close>

text \<open>
  What becomes of a request and its successor: \<open>None\<close> when both stay, otherwise the first one
  with the size that it has once the second is deleted. The sums of the sizes wrap in 16 bits,
  the difference is an \<open>int\<close>.
\<close>

definition merged :: "sync_ext \<Rightarrow> sync_ext \<Rightarrow> sync_ext option" where
  "merged x y =
     (if unat (se_addr y) \<le> unat (se_addr x) + unat (se_size x) then
        (let addr_a = se_addr x + ucast (se_size x); addr_b = se_addr y + ucast (se_size y) in
         if addr_a < addr_b then
           (if wint addr_b - wint (se_addr x) \<le> SYNC_EXT_MAX_SIZE
            then Some (x\<lparr>se_size := word_of_int (wint addr_b - wint (se_addr x))\<rparr>) else None)
         else Some x)
      else None)"

partial_function (option) trim_exts :: "ptr \<Rightarrow> sync_ext heap \<Rightarrow> sync_ext heap option" where
  "trim_exts p h = (if p = 0 then Some h
     else do {
       x \<leftarrow> h p;
       if se_next x = 0 then Some h
       else do {
         y \<leftarrow> h (se_next x);
         (case merged x y of
            None \<Rightarrow> trim_exts (se_next x) h
          | Some x' \<Rightarrow> do {
              let h' = h(p \<mapsto> x'\<lparr>se_next := se_next y\<rparr>);
              h' \<leftarrow> (if se_next y \<noteq> 0 then sync_upd (se_next y) (\<lambda>e. e\<lparr>se_prev := p\<rparr>) h' else Some h');
              trim_exts p (h'(se_next x := None)) }) } })"

definition trim_sync_slave_link :: "sync_link \<Rightarrow> sync_link option" where
  "trim_sync_slave_link st = do {
     h \<leftarrow> runM (\<lambda>s h. if sl_is_modbus s then trim_exts (sl_ext_list s) h else Some h)
       (sy_slaves st) (sy_heap st);
     Some (st\<lparr>sy_heap := h\<rparr>) }"

section \<open>Stepping through the list\<close>

definition isexist_sync_ext :: "ptr \<Rightarrow> ptr \<Rightarrow> sync_link \<Rightarrow> bool option" where
  "isexist_sync_ext slave ext st = (case find (\<lambda>s. slave = sl_ptr s) (sy_slaves st) of
     Some s \<Rightarrow> walk_mem se_next (sy_heap st) ext (sl_ext_list s)
   | None \<Rightarrow> Some False)"

text \<open>The group behind a group, and the values that the thread gets.\<close>

fun slave_after :: "ptr \<Rightarrow> sync_slave list \<Rightarrow> sync_slave option" where
  "slave_after p [] = None"
| "slave_after p (s # ss) = (if sl_ptr s = p then (case ss of [] \<Rightarrow> None | t # _ \<Rightarrow> Some t)
     else slave_after p ss)"

definition node_param :: "sync_slave \<Rightarrow> sync_ext \<Rightarrow> sync_param" where
  "node_param s e =
     (if sl_is_self s then SN_self (se_addr e)
      else if sl_is_modbus s then
        SN_modbus (sl_param s ! 0) (sl_param s ! 1) (se_addr e) (se_ofs e) (se_size e)
      else if sl_is_dlt645 s then SN_dlt645 (sl_param s) (se_addr e) (se_op e)
      else SN_none)"

definition node_of :: "sync_slave \<Rightarrow> sync_ext \<Rightarrow> sync_node" where
  "node_of s e = \<lparr>sn_dev_type = sl_dev_type s, sn_dev_num = sl_dev_num s,
     sn_proto_type = sl_proto_type s, sn_param = node_param s e\<rparr>"

text \<open>The cursor is the pair of pointers of the thread; \<open>None\<close> inside for the result \<open>FALSE\<close>.\<close>

definition get_next_sync_ext_node ::
  "ptr \<times> ptr \<Rightarrow> sync_link \<Rightarrow> ((ptr \<times> ptr) \<times> sync_node option) option" where
  "get_next_sync_ext_node c st = (case c of (slave, ext) \<Rightarrow> do {
     here \<leftarrow> (if slave \<noteq> 0 \<and> ext \<noteq> 0 then isexist_sync_ext slave ext st else Some False);
     (s, e) \<leftarrow> (if here
       then do {
         x \<leftarrow> sy_heap st ext;
         Some (if se_next x \<noteq> 0 then (find (\<lambda>s. slave = sl_ptr s) (sy_slaves st), se_next x)
           else (case slave_after slave (sy_slaves st) of
             Some t \<Rightarrow> (Some t, sl_ext_list t) | None \<Rightarrow> (None, ext))) }
       else Some (case sy_slaves st of [] \<Rightarrow> (None, 0) | s # _ \<Rightarrow> (Some s, sl_ext_list s)));
     (case s of
        Some sl \<Rightarrow>
          if e \<noteq> 0 then do { x \<leftarrow> sy_heap st e; Some ((sl_ptr sl, e), Some (node_of sl x)) }
          else Some ((sl_ptr sl, e), None)
      | None \<Rightarrow> Some ((0, e), None)) })"

section \<open>From the variable list\<close>

definition creat_sync_slave_link :: "u32 \<Rightarrow> varmanage \<Rightarrow> sync_link \<Rightarrow> (bool \<times> sync_link) option" where
  "creat_sync_slave_link tick vm st = do {
     st \<leftarrow> free_sync_slave_link (st\<lparr>sy_last_tick := replicate BOARD_UART_MAX tick\<rparr>);
     st \<leftarrow> walk ed_next (\<lambda>_. vm_heap vm) (\<lambda>p st. do {
         d \<leftarrow> vm_heap vm p;
         if bEnable d then map_option snd (add_sync_ext_node d st) else Some st }) (vm_list vm) st;
     st \<leftarrow> trim_sync_slave_link st;
     Some (vm_list vm \<noteq> 0, st) }"

text \<open>
  Loading the variables: one entry for each row of the database that has a name and a
  configuration, the record that was allocated and parsed for it, or \<open>None\<close> if that failed;
  no rows at all when the database is not open.
\<close>

definition storage_cfg_varext_loadlist :: "ptr option list option \<Rightarrow> varmanage \<Rightarrow> (bool \<times> varmanage) option" where
  "storage_cfg_varext_loadlist rows s = (case rows of
     None \<Rightarrow> Some (False, s)
   | Some rs \<Rightarrow> do {
       s \<leftarrow> runM (\<lambda>r s. case r of Some p \<Rightarrow> vVarManage_InsertNode p s | None \<Rightarrow> Some s) rs s;
       Some (rs \<noteq> [], s) })"

definition vVarManage_ExtDataInit ::
  "ptr option list option \<Rightarrow> u32 \<Rightarrow> varmanage \<Rightarrow> sync_link \<Rightarrow> (varmanage \<times> sync_link) option" where
  "vVarManage_ExtDataInit rows tick s st = do {
     (ok, s) \<leftarrow> storage_cfg_varext_loadlist rows (s\<lparr>vm_n := 0, vm_list := 0\<rparr>);
     let s = (if ok then s else prvSetExtDataCfgDefault s);
     s \<leftarrow> sort_extdata_link s;
     s \<leftarrow> RefreshRegsFlag s;
     (_, st) \<leftarrow> creat_sync_slave_link tick s st;
     Some (s, st) }"

definition varmanage_free_all :: "varmanage \<Rightarrow> sync_link \<Rightarrow> (varmanage \<times> sync_link) option" where
  "varmanage_free_all s st = do {
     s \<leftarrow> varmanage_free_vars s;
     st \<leftarrow> free_sync_slave_link st;
     Some (s, st) }"

section \<open>The list as a function of the variables\<close>

interpretation ext: linked se_next "\<lambda>p e. e\<lparr>se_next := p\<rparr>"
  by unfold_locales simp

type_synonym poll_group = "sync_slave \<times> sync_ext list"

text \<open>A group and a request without their pointers.\<close>

definition key_of :: "ExtData \<Rightarrow> sync_slave" where
  "key_of d = new_slave d 0 0"

definition strip :: "sync_slave \<Rightarrow> sync_slave" where
  "strip s = s\<lparr>sl_ptr := 0, sl_ext_list := 0\<rparr>"

definition bare :: "sync_ext \<Rightarrow> sync_ext" where
  "bare e = e\<lparr>se_next := 0, se_prev := 0\<rparr>"

text \<open>
  What insertion really does: without a greater address it appends, otherwise the new request
  takes the place of the first greater one and of all before it.
\<close>

definition ext_insert :: "sync_ext \<Rightarrow> sync_ext list \<Rightarrow> sync_ext list" where
  "ext_insert e es = (case dropWhile (\<lambda>x. \<not> se_addr e < se_addr x) es of
     [] \<Rightarrow> es @ [e] | _ # xs \<Rightarrow> e # xs)"

definition group_add :: "ExtData \<Rightarrow> poll_group \<Rightarrow> poll_group" where
  "group_add d g = (case g of (s, es) \<Rightarrow>
     (s, if sl_is_modbus s \<and> \<not> sl_is_self s then ext_insert (new_ext s d) es else es @ [new_ext s d]))"

fun poll_add :: "ExtData \<Rightarrow> poll_group list \<Rightarrow> poll_group list" where
  "poll_add d [] = [(key_of d, [new_ext (key_of d) d])]"
| "poll_add d (g # gs) = (if sl_match d (fst g) then group_add d g # gs else g # poll_add d gs)"

function trim_list :: "sync_ext list \<Rightarrow> sync_ext list" where
  "trim_list [] = []"
| "trim_list [x] = [x]"
| "trim_list (x # y # zs) = (case merged x y of
     None \<Rightarrow> x # trim_list (y # zs) | Some x' \<Rightarrow> trim_list (x' # zs))"
  by pat_completeness auto

termination by (relation "measure length") auto

definition group_trim :: "poll_group \<Rightarrow> poll_group" where
  "group_trim g = (case g of (s, es) \<Rightarrow> (s, if sl_is_modbus s then trim_list es else es))"

definition poll_list :: "ExtData list \<Rightarrow> poll_group list" where
  "poll_list vs = map group_trim (fold poll_add (filter bEnable vs) [])"

section \<open>Abstraction of the heap\<close>

text \<open>
  The group \<open>s\<close> holds the requests \<open>es\<close> in the records \<open>qs\<close>; \<open>pz\<close> asks for the \<open>prev\<close> fields
  to be \<open>NULL\<close>, as they are until the list is trimmed.
\<close>

definition is_group :: "bool \<Rightarrow> sync_ext heap \<Rightarrow> sync_slave \<Rightarrow> ptr list \<Rightarrow> poll_group \<Rightarrow> bool" where
  "is_group pz h s qs g = (chain se_next h (sl_ext_list s) qs \<and> qs \<noteq> [] \<and>
     (pz \<longrightarrow> (\<forall>q \<in> set qs. se_prev (the (h q)) = 0)) \<and>
     fst g = strip s \<and> snd g = map (\<lambda>q. bare (the (h q))) qs)"

fun is_groups :: "bool \<Rightarrow> sync_ext heap \<Rightarrow> sync_slave list \<Rightarrow> ptr list list \<Rightarrow> poll_group list \<Rightarrow> bool" where
  "is_groups pz h [] [] [] = True"
| "is_groups pz h (s # ss) (qs # qss) (g # gs) = (is_group pz h s qs g \<and> is_groups pz h ss qss gs)"
| "is_groups pz h _ _ _ = False"

definition is_polls :: "bool \<Rightarrow> nat \<Rightarrow> sync_link \<Rightarrow> poll_group list \<Rightarrow> bool" where
  "is_polls pz n st gs = (\<exists>qss. is_groups pz (sy_heap st) (sy_slaves st) qss gs \<and> distinct (concat qss) \<and>
     distinct (map sl_ptr (sy_slaves st)) \<and> 0 \<notin> sl_ptr ` set (sy_slaves st) \<and>
     n \<le> length (sy_alloc st) \<and> distinct (sy_alloc st) \<and> 0 \<notin> set (sy_alloc st) \<and>
     set (sy_alloc st) \<inter> (dom (sy_heap st) \<union> sl_ptr ` set (sy_slaves st)) = {})"

lemma strip_kinds [simp]:
  "sl_is_self (strip s) = sl_is_self s" "sl_is_modbus (strip s) = sl_is_modbus s"
  "sl_is_dlt645 (strip s) = sl_is_dlt645 s" "sl_match d (strip s) = sl_match d s"
  "new_ext (strip s) d = new_ext s d" "node_of (strip s) e = node_of s e"
  by (simp_all add: strip_def sl_is_self_def sl_is_modbus_def sl_is_dlt645_def sl_match_def new_ext_def
      node_of_def node_param_def)

lemma set_list_kinds [simp]:
  "strip (s\<lparr>sl_ext_list := p\<rparr>) = strip s" "sl_ptr (strip s) = 0"
  by (simp_all add: strip_def)

lemma bare_simps [simp]:
  "bare (e\<lparr>se_next := p\<rparr>) = bare e" "bare (e\<lparr>se_prev := p\<rparr>) = bare e"
  "se_addr (bare e) = se_addr e" "bare (new_ext s d) = new_ext s d"
  by (simp_all add: bare_def new_ext_def ext_zero_def)

lemma new_ext_links [simp]: "se_next (new_ext s d) = 0" "se_prev (new_ext s d) = 0"
  by (simp_all add: new_ext_def ext_zero_def)

lemma strip_new_slave: "strip (new_slave d p q) = key_of d"
  by (simp add: strip_def new_slave_def key_of_def slave_param_def Let_def sl_is_self_def
      sl_is_modbus_def sl_is_dlt645_def)

lemma new_ext_key: "new_ext (new_slave d p q) d = new_ext (key_of d) d"
  using strip_kinds(5) [of "new_slave d p q" d] by (simp only: strip_new_slave)

lemma is_group_cong:
  "(\<And>q. q \<in> set qs \<Longrightarrow> h q = h' q) \<Longrightarrow> is_group pz h s qs g = is_group pz h' s qs g"
proof -
  assume *: "\<And>q. q \<in> set qs \<Longrightarrow> h q = h' q"
  have c: "chain se_next h p qs = chain se_next h' p qs" for p by (rule seg_cong) (rule *)
  have m: "map (\<lambda>q. bare (the (h q))) qs = map (\<lambda>q. bare (the (h' q))) qs"
    using * by (simp cong: map_cong)
  have z: "(\<forall>q \<in> set qs. se_prev (the (h q)) = 0) = (\<forall>q \<in> set qs. se_prev (the (h' q)) = 0)"
    using * by simp
  show ?thesis by (simp only: is_group_def c m z)
qed

lemma is_groups_cong:
  "(\<And>q. q \<in> set (concat qss) \<Longrightarrow> h q = h' q) \<Longrightarrow> is_groups pz h ss qss gs = is_groups pz h' ss qss gs"
proof (induction pz h ss qss gs rule: is_groups.induct)
  case (2 pz h s ss qs qss g gs)
  have "is_group pz h s qs g = is_group pz h' s qs g" using 2 by (intro is_group_cong) auto
  then show ?case using 2 by auto
qed auto

lemma is_groups_in_heap:
  "is_groups pz h ss qss gs \<Longrightarrow> q \<in> set (concat qss) \<Longrightarrow> q \<noteq> 0 \<and> q \<in> dom h"
  by (induction pz h ss qss gs rule: is_groups.induct) (auto simp: is_group_def dest: seg_in_heap)

lemma is_groups_append:
  "is_groups pz h ss qss gs \<Longrightarrow> is_groups pz h (ss @ [s]) (qss @ [qs]) (gs @ [g]) = is_group pz h s qs g"
  by (induction pz h ss qss gs rule: is_groups.induct) auto

text \<open>The group that a variable matches, with what stands before and behind it.\<close>

lemma is_groups_find:
  assumes "is_groups pz h ss qss gs" "find P ss = Some s"
    "\<And>s. P (strip s) = P s"
  shows "\<exists>s1 s2 q1 qs q2 g1 g g2. ss = s1 @ s # s2 \<and> qss = q1 @ qs # q2 \<and> gs = g1 @ g # g2
    \<and> is_groups pz h s1 q1 g1 \<and> is_group pz h s qs g \<and> is_groups pz h s2 q2 g2
    \<and> P s \<and> (\<forall>x \<in> set g1. \<not> P (fst x))"
  using assms(1,2)
proof (induction pz h ss qss gs rule: is_groups.induct)
  case (2 pz h t ss qs qss g gs)
  show ?case
  proof (cases "P t")
    case True
    then have "s = t" using 2 by simp
    then show ?thesis using 2 True
      by (intro exI [of _ "[]"] exI [of _ ss] exI [of _ qs] exI [of _ qss] exI [of _ g] exI [of _ gs]) auto
  next
    case False
    then have "is_groups pz h ss qss gs" "find P ss = Some s" using 2 by auto
    from 2(1) [OF this] obtain s1 s2 q1 rs q2 g1 f g2 where
      "ss = s1 @ s # s2" "qss = q1 @ rs # q2" "gs = g1 @ f # g2" "is_groups pz h s1 q1 g1"
      "is_group pz h s rs f" "is_groups pz h s2 q2 g2" "P s" "\<forall>x \<in> set g1. \<not> P (fst x)" by blast
    moreover have "\<not> P (fst g)" using False 2 assms(3) [of t] by (simp add: is_group_def)
    ultimately show ?thesis using 2
      by (intro exI [of _ "t # s1"] exI [of _ s2] exI [of _ "qs # q1"] exI [of _ rs] exI [of _ q2]
          exI [of _ "g # g1"] exI [of _ f] exI [of _ g2]) auto
  qed
qed auto

lemma is_groups_join:
  "is_groups pz h s1 q1 g1 \<Longrightarrow> is_groups pz h (s1 @ s2) (q1 @ q2) (g1 @ g2) = is_groups pz h s2 q2 g2"
  by (induction pz h s1 q1 g1 rule: is_groups.induct) auto

lemma poll_add_split:
  "(\<forall>x \<in> set g1. \<not> sl_match d (fst x)) \<Longrightarrow> sl_match d (fst g) \<Longrightarrow>
     poll_add d (g1 @ g # g2) = g1 @ group_add d g # g2"
  by (induction g1) auto

lemma poll_add_new:
  "(\<forall>x \<in> set gs. \<not> sl_match d (fst x)) \<Longrightarrow> poll_add d gs = gs @ [(key_of d, [new_ext (key_of d) d])]"
  by (induction gs) auto

lemma is_groups_keys: "is_groups pz h ss qss gs \<Longrightarrow> map fst gs = map strip ss"
  by (induction pz h ss qss gs rule: is_groups.induct) (auto simp: is_group_def)


section \<open>Adding a request\<close>

lemma append_group:
  assumes g: "is_group True h s qs (strip s, es)" and p: "p \<noteq> 0" "p \<notin> set qs"
    and e: "se_next e = 0" "se_prev e = 0" "bare e = e"
  shows "\<exists>x. h (last qs) = Some x \<and> last qs \<noteq> 0 \<and> last qs \<in> set qs
    \<and> walk_last se_next (h(p \<mapsto> e)) (sl_ext_list s) = Some (last qs)
    \<and> is_group True (h(p \<mapsto> e, last qs \<mapsto> x\<lparr>se_next := p\<rparr>)) s (qs @ [p]) (strip s, es @ [e])"
proof -
  have "qs \<noteq> []" using g by (simp add: is_group_def)
  then obtain ys q where qs: "qs = ys @ [q]" by (metis rev_exhaust)
  have ch: "chain se_next h (sl_ext_list s) (ys @ [q])" using g qs by (simp add: is_group_def)
  obtain x where x: "h q = Some x" "q \<noteq> 0" using seg_in_heap [OF ch, of q] by auto
  have d: "q \<notin> set ys" using chain_distinct [OF ch] by simp
  let ?h = "h(q \<mapsto> x\<lparr>se_next := p\<rparr>, p \<mapsto> e)"
  have eq: "h(p \<mapsto> e, q \<mapsto> x\<lparr>se_next := p\<rparr>) = ?h" using p qs by (auto intro: fun_upd_twist)
  have "chain se_next ?h (sl_ext_list s) ((ys @ [q]) @ [p])"
    by (rule ext.append_node) (use ch x p e qs in auto)
  moreover have "walk_last se_next (h(p \<mapsto> e)) (sl_ext_list s) = Some q"
    using walk_last_chain [of se_next "h(p \<mapsto> e)" "sl_ext_list s" "ys @ [q]"] ch p qs by (simp add: seg_upd)
  moreover have "map (\<lambda>r. bare (the (?h r))) (ys @ [q]) = es"
    using g x d p qs by (auto simp: is_group_def)
  ultimately show ?thesis
    using g x p e d qs by (auto simp: is_group_def eq)
qed

lemma find_dropWhile:
  "find P xs = None \<Longrightarrow> dropWhile (\<lambda>x. \<not> P x) xs = []"
  "find P (us @ x # vs) = Some x \<Longrightarrow> P x \<Longrightarrow> \<forall>u \<in> set us. \<not> P u \<Longrightarrow> dropWhile (\<lambda>x. \<not> P x) (us @ x # vs) = x # vs"
  by (auto simp: find_None_iff dropWhile_append)

lemma insert_group:
  assumes g: "is_group True h s qs (strip s, es)" and p: "p \<noteq> 0" "p \<notin> set qs"
    and e: "bare e = e"
    and q: "find (\<lambda>q. se_addr e < se_addr (the (h q))) qs = Some q"
  shows "\<exists>x ys. h q = Some x \<and> q \<noteq> 0 \<and> se_prev x = 0 \<and> set ys \<subseteq> set qs \<and> p \<notin> set ys \<and> distinct ys
    \<and> (se_next x = 0 \<or> (\<exists>y. h (se_next x) = Some y \<and> y\<lparr>se_prev := 0\<rparr> = y \<and> se_next x \<noteq> p))
    \<and> is_group True (h(p \<mapsto> e\<lparr>se_prev := 0, se_next := se_next x\<rparr>)) (s\<lparr>sl_ext_list := p\<rparr>) (p # ys)
        (strip s, ext_insert e es)"
proof -
  from find_split [OF q] obtain us ys where qs: "qs = us @ q # ys" "se_addr e < se_addr (the (h q))"
    "\<forall>u \<in> set us. \<not> se_addr e < se_addr (the (h u))" by blast
  have ch: "chain se_next h (sl_ext_list s) (us @ q # ys)" using g qs by (simp add: is_group_def)
  obtain x where x: "h q = Some x" "q \<noteq> 0" using seg_in_heap [OF ch, of q] by auto
  have tail: "chain se_next h (se_next x) ys" using chain_mid [OF ch] x by auto
  have pz: "\<forall>r \<in> set qs. se_prev (the (h r)) = 0" using g by (simp add: is_group_def)
  have d: "distinct ys" using chain_distinct [OF tail] .
  have ins: "ext_insert e es = e # map (\<lambda>r. bare (the (h r))) ys"
  proof -
    have es: "es = map (\<lambda>r. bare (the (h r))) us @ bare x # map (\<lambda>r. bare (the (h r))) ys"
      using g qs x by (simp add: is_group_def)
    have "dropWhile (\<lambda>y. \<not> se_addr e < se_addr y) es = bare x # map (\<lambda>r. bare (the (h r))) ys"
      unfolding es using qs x by (simp add: dropWhile_append)
    then show ?thesis by (simp add: ext_insert_def)
  qed
  have nx: "se_next x = 0 \<or> (\<exists>y. h (se_next x) = Some y \<and> y\<lparr>se_prev := 0\<rparr> = y \<and> se_next x \<noteq> p)"
  proof (cases ys)
    case Nil then show ?thesis using tail by simp
  next
    case (Cons r rs)
    then have r: "se_next x = r" using tail by simp
    then obtain y where "h r = Some y" using seg_in_heap [OF tail, of r] Cons by auto
    moreover have "se_prev y = 0" using pz qs Cons calculation by (metis option.sel list.set_intros(1) set_append Un_iff list.set_intros(2))
    ultimately show ?thesis using r p qs Cons by (auto intro!: sync_ext.equality)
  qed
  have "is_group True (h(p \<mapsto> e\<lparr>se_prev := 0, se_next := se_next x\<rparr>)) (s\<lparr>sl_ext_list := p\<rparr>) (p # ys)
      (strip s, ext_insert e es)"
  proof -
    have ny: "p \<notin> set ys" using p qs by simp
    have "bare (e\<lparr>se_prev := 0, se_next := se_next x\<rparr>) = e" using e by simp
    then show ?thesis
      unfolding is_group_def ins
      using tail p ny pz qs by (auto simp: seg_upd)
  qed
  then show ?thesis using x pz qs d nx p by auto
qed

text \<open>A state whose group \<open>s\<close> has been changed, and which has taken one allocation for it.\<close>

lemma polls_replace:
  assumes g1: "is_groups pz h s1 q1 g1" and g2: "is_groups pz h s2 q2 g2"
    and dist: "distinct (concat (q1 @ qs # q2))" and live: "set qs \<subseteq> dom h"
    and new: "is_group pz h' s' qs' g'" "set qs' \<subseteq> insert p (set qs)" "distinct qs'"
    and frame: "\<And>x. x \<notin> insert p (set qs) \<Longrightarrow> h' x = h x"
    and ptrs: "sl_ptr s' = sl_ptr s" "distinct (map sl_ptr (s1 @ s # s2))" "0 \<notin> sl_ptr ` set (s1 @ s # s2)"
    and p: "p \<notin> dom h" "n \<le> length ps" "distinct (p # ps)" "0 \<notin> set ps"
      "set ps \<inter> (dom h \<union> sl_ptr ` set (s1 @ s # s2)) = {}"
  shows "is_polls pz n (st\<lparr>sy_slaves := s1 @ s' # s2, sy_heap := h', sy_alloc := ps\<rparr>) (g1 @ g' # g2)"
proof -
  have in1: "set (concat q1) \<subseteq> dom h" and in2: "set (concat q2) \<subseteq> dom h"
    using is_groups_in_heap [OF g1] is_groups_in_heap [OF g2] by blast+
  have np: "p \<notin> set (concat q1)" "p \<notin> set (concat q2)" "p \<notin> set qs"
    using in1 in2 live p(1) by blast+
  have dis: "set (concat q1) \<inter> set qs = {}" "set (concat q2) \<inter> set qs = {}" using dist by auto
  have "is_groups pz h' s1 q1 g1"
  proof -
    have "h x = h' x" if "x \<in> set (concat q1)" for x
      by (rule frame [symmetric]) (use that np dis in auto)
    then show ?thesis using g1 is_groups_cong [of q1 h h'] by blast
  qed
  moreover have "is_groups pz h' s2 q2 g2"
  proof -
    have "h x = h' x" if "x \<in> set (concat q2)" for x
      by (rule frame [symmetric]) (use that np dis in auto)
    then show ?thesis using g2 is_groups_cong [of q2 h h'] by blast
  qed
  ultimately have "is_groups pz h' (s1 @ s' # s2) (q1 @ qs' # q2) (g1 @ g' # g2)"
    using new(1) by (simp add: is_groups_join)
  moreover have "distinct (concat (q1 @ qs' # q2))"
  proof -
    have "set (concat q1) \<inter> set qs' = {}" "set (concat q2) \<inter> set qs' = {}"
      using np dis new(2) by blast+
    then show ?thesis using dist new(3) by auto
  qed
  moreover have "dom h' \<subseteq> insert p (dom h)"
  proof
    fix x assume "x \<in> dom h'"
    then show "x \<in> insert p (dom h)"
      using frame [of x] live by (cases "x \<in> insert p (set qs)") (blast, simp add: domIff)
  qed
  then have "set ps \<inter> (dom h' \<union> sl_ptr ` set (s1 @ s' # s2)) = {}"
    using p ptrs(1) by fastforce
  ultimately show ?thesis
    unfolding is_polls_def using p ptrs by (intro exI [of _ "q1 @ qs' # q2"]) auto
qed

lemma set_ext_list_at:
  assumes "sy_slaves st = s1 @ s # s2" "distinct (map sl_ptr (s1 @ s # s2))"
  shows "set_ext_list s p st = st\<lparr>sy_slaves := s1 @ s\<lparr>sl_ext_list := p\<rparr> # s2\<rparr>"
proof -
  have "map (\<lambda>t. if sl_ptr t = sl_ptr s then t\<lparr>sl_ext_list := p\<rparr> else t) s' = s'"
    if "sl_ptr s \<notin> sl_ptr ` set s'" for s'
    using that by (induction s') auto
  from this [of s1] this [of s2] show ?thesis using assms by (auto simp: set_ext_list_def)
qed

lemma add_step_new:
  assumes "is_polls True (2 + n) st gs" "find_sync_slave_node d st = None"
  shows "\<exists>r st'. add_sync_ext_node d st = Some (r, st') \<and> is_polls True n st' (poll_add d gs)"
proof -
  obtain qss where qss: "is_groups True (sy_heap st) (sy_slaves st) qss gs" "distinct (concat qss)"
    "distinct (map sl_ptr (sy_slaves st))" "0 \<notin> sl_ptr ` set (sy_slaves st)"
    and al: "2 + n \<le> length (sy_alloc st)" "distinct (sy_alloc st)" "0 \<notin> set (sy_alloc st)"
      "set (sy_alloc st) \<inter> (dom (sy_heap st) \<union> sl_ptr ` set (sy_slaves st)) = {}"
    using assms(1) unfolding is_polls_def by blast
  obtain p q ps where ps: "sy_alloc st = p # q # ps" using al(1)
    by (metis Suc_le_length_iff add_2_eq_Suc)
  define s where "s = new_slave d p q"
  let ?h = "(sy_heap st)(q \<mapsto> new_ext s d)"
  let ?st = "st\<lparr>sy_slaves := sy_slaves st @ [s], sy_heap := ?h, sy_alloc := ps\<rparr>"
  have pq: "p \<noteq> 0" "q \<noteq> 0" "q \<notin> dom (sy_heap st)" "p \<notin> sl_ptr ` set (sy_slaves st)" "p \<noteq> q"
    using al ps by auto
  have add: "add_sync_ext_node d st = Some (q, ?st)"
    using assms(2) pq ps
    by (simp add: add_sync_ext_node_def add_sync_slave_node_def sync_calloc_def Let_def s_def [symmetric])
      (simp add: s_def new_slave_def Let_def)
  have qn: "q \<notin> set (concat qss)" using is_groups_in_heap [OF qss(1)] pq(3) by blast
  have "\<forall>x \<in> set gs. \<not> sl_match d (fst x)"
  proof
    fix x assume "x \<in> set gs"
    then have "fst x \<in> set (map strip (sy_slaves st))"
      using is_groups_keys [OF qss(1)] by (metis imageI set_map)
    then show "\<not> sl_match d (fst x)"
      using assms(2) by (auto simp: find_sync_slave_node_def find_None_iff)
  qed
  then have abs: "poll_add d gs = gs @ [(key_of d, [new_ext (key_of d) d])]" by (rule poll_add_new)
  have "is_groups True ?h (sy_slaves st) qss gs"
    using qss(1) is_groups_cong [of qss "sy_heap st" ?h] qn by (metis fun_upd_apply)
  moreover have "is_group True ?h s [q] (key_of d, [new_ext (key_of d) d])"
    using pq by (simp add: is_group_def s_def strip_new_slave new_ext_key)
      (simp add: new_slave_def Let_def)
  ultimately have "is_groups True ?h (sy_slaves st @ [s]) (qss @ [[q]]) (poll_add d gs)"
    by (simp add: abs is_groups_append)
  moreover have "distinct (map sl_ptr (sy_slaves st @ [s]))" "0 \<notin> sl_ptr ` set (sy_slaves st @ [s])"
    "sl_ptr s = p"
    using qss pq by (simp_all add: s_def new_slave_def Let_def)
  ultimately have "is_polls True n ?st (poll_add d gs)"
    unfolding is_polls_def using qss(2) qn al ps by (intro exI [of _ "qss @ [[q]]"]) auto
  then show ?thesis using add by blast
qed

lemma find_upd: "p \<notin> set qs \<Longrightarrow> find (\<lambda>q. P (the ((h(p \<mapsto> e)) q))) qs = find (\<lambda>q. P (the (h q))) qs"
  by (induction qs) auto

lemma add_step_old:
  assumes "is_polls True (Suc n) st gs" "find_sync_slave_node d st = Some sl"
  shows "\<exists>r st'. add_sync_ext_node d st = Some (r, st') \<and> is_polls True n st' (poll_add d gs)"
proof -
  let ?h = "sy_heap st"
  obtain qss where qss: "is_groups True ?h (sy_slaves st) qss gs" "distinct (concat qss)"
    "distinct (map sl_ptr (sy_slaves st))" "0 \<notin> sl_ptr ` set (sy_slaves st)"
    and al: "Suc n \<le> length (sy_alloc st)" "distinct (sy_alloc st)" "0 \<notin> set (sy_alloc st)"
      "set (sy_alloc st) \<inter> (dom ?h \<union> sl_ptr ` set (sy_slaves st)) = {}"
    using assms(1) unfolding is_polls_def by blast
  obtain p ps where ps: "sy_alloc st = p # ps" "n \<le> length ps" using al(1) by (auto simp: Suc_le_length_iff)
  from is_groups_find [OF qss(1), of "sl_match d" sl] assms(2)
  obtain s1 s2 q1 qs q2 g1 g g2 where sp: "sy_slaves st = s1 @ sl # s2" "qss = q1 @ qs # q2" "gs = g1 @ g # g2"
    "is_groups True ?h s1 q1 g1" "is_group True ?h sl qs g" "is_groups True ?h s2 q2 g2"
    "sl_match d sl" "\<forall>x \<in> set g1. \<not> sl_match d (fst x)"
    by (auto simp: find_sync_slave_node_def)
  obtain es where g: "g = (strip sl, es)" using sp(5) by (cases g) (simp add: is_group_def)
  define e where "e = new_ext sl d"
  have e: "se_next e = 0" "se_prev e = 0" "bare e = e" by (simp_all add: e_def)
  have live: "set qs \<subseteq> dom ?h" using is_groups_in_heap [OF qss(1)] sp(2) by auto
  have p: "p \<noteq> 0" "p \<notin> dom ?h" "p \<notin> set qs" using al ps live by auto
  have abs: "poll_add d gs = g1 @ group_add d g # g2"
    using sp(3,7,8) g by (simp add: poll_add_split)
  have chain: "chain se_next ?h (sl_ext_list sl) qs" using sp(5) by (simp add: is_group_def)
  let ?at = "find (\<lambda>q. se_addr e < se_addr (the (?h q))) qs"
  have wf: "walk_find se_next (\<lambda>x. se_addr e < se_addr x) (?h(p \<mapsto> e)) (sl_ext_list sl) =
      Some (case ?at of Some q \<Rightarrow> q | None \<Rightarrow> 0)"
  proof -
    have "chain se_next (?h(p \<mapsto> e)) (sl_ext_list sl) qs" using chain p(3) by (simp add: seg_upd)
    from walk_find_chain [OF this, of "\<lambda>x. se_addr e < se_addr x"]
    show ?thesis unfolding find_upd [OF p(3), of "\<lambda>x. se_addr e < se_addr x"] .
  qed
  note rep = polls_replace [OF sp(4) sp(6) qss(2) [unfolded sp(2)] live, where p = p and ps = ps and n = n and s = sl]
  have rest: "distinct (map sl_ptr (s1 @ sl # s2))" "0 \<notin> sl_ptr ` set (s1 @ sl # s2)"
    "distinct (p # ps)" "0 \<notin> set ps" "set ps \<inter> (dom ?h \<union> sl_ptr ` set (s1 @ sl # s2)) = {}"
    using qss al ps sp(1) by auto
  show ?thesis
  proof (cases "sl_is_modbus sl \<and> \<not> sl_is_self sl \<and> ?at \<noteq> None")
    case True
    then obtain q where q: "?at = Some q" by auto
    from insert_group [OF sp(5) [unfolded g] p(1,3) e(3) q]
    obtain x ys where x: "?h q = Some x" "q \<noteq> 0" "se_prev x = 0" "set ys \<subseteq> set qs" "p \<notin> set ys" "distinct ys"
      "se_next x = 0 \<or> (\<exists>y. ?h (se_next x) = Some y \<and> y\<lparr>se_prev := 0\<rparr> = y \<and> se_next x \<noteq> p)"
      "is_group True (?h(p \<mapsto> e\<lparr>se_prev := 0, se_next := se_next x\<rparr>)) (sl\<lparr>sl_ext_list := p\<rparr>) (p # ys)
        (strip sl, ext_insert e es)" by blast
    let ?h' = "?h(p \<mapsto> e\<lparr>se_prev := 0, se_next := se_next x\<rparr>)"
    let ?st = "st\<lparr>sy_slaves := s1 @ sl\<lparr>sl_ext_list := p\<rparr> # s2, sy_heap := ?h', sy_alloc := ps\<rparr>"
    have qp: "q \<noteq> p" using x p by auto
    have "ext_insert_at sl p q (st\<lparr>sy_alloc := ps, sy_heap := ?h(p \<mapsto> e)\<rparr>) = Some ?st"
    proof (cases "se_next x = 0")
      case True
      then show ?thesis using x(1-3) qp p(1) sp(1) rest(1)
        by (simp add: ext_insert_at_def set_ext_list_at [of _ s1 sl s2] Let_def) (simp add: sync_upd_def)
    next
      case False
      then obtain y where y: "?h (se_next x) = Some y" "y\<lparr>se_prev := 0\<rparr> = y" "se_next x \<noteq> p" using x(7) by auto
      then have "?h(se_next x \<mapsto> y) = ?h" by (simp add: map_upd_triv)
      then show ?thesis using x(1-3) qp p(1) sp(1) rest(1) False y
        by (simp add: ext_insert_at_def set_ext_list_at [of _ s1 sl s2] Let_def) (simp add: sync_upd_def)
    qed
    then have "add_sync_ext_node d st = Some (p, ?st)"
      using assms(2) ps p True q wf x(2)
      by (simp add: add_sync_ext_node_def sync_calloc_def Let_def e_def [symmetric])
    moreover have "is_polls True n ?st (poll_add d gs)"
    proof -
      have "group_add d g = (strip sl, ext_insert e es)" using True g by (simp add: group_add_def e_def)
      then show ?thesis unfolding abs
        by (simp only:) (rule rep [OF x(8)], use x(4-6) p(2) rest ps(2) in auto)
    qed
    ultimately show ?thesis by blast
  next
    case False
    from append_group [OF sp(5) [unfolded g] p(1,3) e]
    obtain x where x: "?h (last qs) = Some x" "last qs \<noteq> 0" "last qs \<in> set qs"
      "walk_last se_next (?h(p \<mapsto> e)) (sl_ext_list sl) = Some (last qs)"
      "is_group True (?h(p \<mapsto> e, last qs \<mapsto> x\<lparr>se_next := p\<rparr>)) sl (qs @ [p]) (strip sl, es @ [e])" by blast
    let ?h' = "?h(p \<mapsto> e, last qs \<mapsto> x\<lparr>se_next := p\<rparr>)"
    let ?st = "st\<lparr>sy_slaves := s1 @ sl # s2, sy_heap := ?h', sy_alloc := ps\<rparr>"
    have lp: "last qs \<noteq> p" using x(3) p(3) by auto
    have "ext_append sl p (st\<lparr>sy_alloc := ps, sy_heap := ?h(p \<mapsto> e)\<rparr>) = Some ?st"
      using x lp sp(1) by (simp add: ext_append_def sync_upd_def)
    then have "add_sync_ext_node d st = Some (p, ?st)"
      using assms(2) ps p False wf
      by (auto simp: add_sync_ext_node_def sync_calloc_def Let_def e_def [symmetric])
    moreover have "is_polls True n ?st (poll_add d gs)"
    proof -
      have "group_add d g = (strip sl, es @ [e])"
      proof (cases "sl_is_modbus sl \<and> \<not> sl_is_self sl")
        case True
        then have none: "dropWhile (\<lambda>x. \<not> se_addr e < se_addr x) es = []"
          using False sp(5) g by (auto simp: is_group_def find_None_iff)
        have "ext_insert e es = es @ [e]" unfolding ext_insert_def none by simp
        then show ?thesis using True g by (simp add: group_add_def e_def)
      qed (use g in \<open>auto simp: group_add_def e_def\<close>)
      moreover have "distinct (qs @ [p])" using chain_distinct [OF chain] p(3) by simp
      ultimately show ?thesis unfolding abs
        by (simp only:) (rule rep [OF x(5)], use x(3) p(2) rest ps(2) in auto)
    qed
    ultimately show ?thesis by blast
  qed
qed

section \<open>Freeing and trimming\<close>

lemma free_exts_chain:
  "chain se_next h p qs \<Longrightarrow> free_exts p h = Some (h |` (- set qs))"
proof (induction qs arbitrary: p h)
  case Nil
  then show ?case by (subst free_exts.simps) (simp add: restrict_map_def)
next
  case (Cons q qs)
  then obtain e where e: "q = p" "p \<noteq> 0" "h p = Some e" "chain se_next h (se_next e) qs"
    by (auto split: option.splits)
  have "p \<notin> set qs" using chain_distinct [OF Cons.prems] e(1) by simp
  then have "chain se_next (h(p := None)) (se_next e) qs" using e(4) by (simp add: seg_upd)
  from Cons.IH [OF this] have "free_exts (se_next e) (h(p := None)) = Some (h(p := None) |` (- set qs))" .
  moreover have "h(p := None) |` (- set qs) = h |` (- set (q # qs))"
    using e(1) by (auto simp: restrict_map_def)
  ultimately have "free_exts (se_next e) (h(p := None)) = Some (h |` (- set (q # qs)))" by (simp only:)
  then show ?case using e(2,3) by (subst free_exts.simps) (simp only: if_False bind.bind_lunit)
qed

lemma free_groups:
  "is_groups pz h ss qss gs \<Longrightarrow> distinct (concat qss) \<Longrightarrow>
     runM (\<lambda>s. free_exts (sl_ext_list s)) ss h = Some (h |` (- set (concat qss)))"
proof (induction ss arbitrary: h qss gs)
  case Nil
  then show ?case by (cases qss; cases gs) simp_all
next
  case (Cons s ss)
  then obtain qs rss g fs where sp: "qss = qs # rss" "gs = g # fs" "is_group pz h s qs g"
    "is_groups pz h ss rss fs" by (cases qss; cases gs) auto
  have "set (concat rss) \<inter> set qs = {}" using Cons.prems(2) sp(1) by auto
  then have "h x = (h |` (- set qs)) x" if "x \<in> set (concat rss)" for x
    using that by (metis ComplI disjoint_iff restrict_in)
  then have "is_groups pz (h |` (- set qs)) ss rss fs"
    using sp(4) is_groups_cong [of rss h "h |` (- set qs)"] by blast
  from Cons.IH [OF this] Cons.prems(2) sp(1)
  have "runM (\<lambda>s. free_exts (sl_ext_list s)) ss (h |` (- set qs)) =
      Some (h |` (- set qs) |` (- set (concat rss)))" by simp
  moreover have "h |` (- set qs) |` (- set (concat rss)) = h |` (- set (concat qss))"
    using sp(1) by (auto simp: restrict_map_def)
  ultimately show ?case
    using free_exts_chain [of h "sl_ext_list s" qs] sp(3) by (simp add: is_group_def)
qed

lemma free_polls:
  assumes "is_polls pz n st gs"
  shows "\<exists>st'. free_sync_slave_link st = Some st' \<and> is_polls True n st' [] \<and> sy_last_tick st' = sy_last_tick st"
proof -
  obtain qss where qss: "is_groups pz (sy_heap st) (sy_slaves st) qss gs" "distinct (concat qss)"
    and al: "n \<le> length (sy_alloc st)" "distinct (sy_alloc st)" "0 \<notin> set (sy_alloc st)"
      "set (sy_alloc st) \<inter> (dom (sy_heap st) \<union> sl_ptr ` set (sy_slaves st)) = {}"
    using assms unfolding is_polls_def by blast
  then show ?thesis
    using free_groups [OF qss] by (auto simp: free_sync_slave_link_def is_polls_def intro!: exI [of _ "[]"])
qed

lemma merged_bare: "merged (bare x) (bare y) = map_option bare (merged x y)"
  by (simp add: merged_def bare_def Let_def)

lemma merged_links: "merged x y = Some x' \<Longrightarrow> se_next x' = se_next x"
  by (auto simp: merged_def Let_def split: if_splits)

lemma trim_chain:
  "chain se_next h p qs \<Longrightarrow> qs \<noteq> [] \<Longrightarrow> \<exists>h' rs. trim_exts p h = Some h' \<and> chain se_next h' p rs \<and> rs \<noteq> []
     \<and> set rs \<subseteq> set qs \<and> map (\<lambda>q. bare (the (h' q))) rs = trim_list (map (\<lambda>q. bare (the (h q))) qs)
     \<and> (\<forall>x. x \<notin> set qs \<longrightarrow> h' x = h x)"
proof (induction "length qs" arbitrary: p h qs)
  case 0
  then show ?case by simp
next
  case (Suc n)
  then obtain q rs where qs: "qs = q # rs" by (cases qs) auto
  obtain x where x: "q = p" "p \<noteq> 0" "h p = Some x" "chain se_next h (se_next x) rs"
    using Suc.prems(1) qs by (auto split: option.splits)
  have dist: "distinct qs" by (rule chain_distinct [OF Suc.prems(1)])
  show ?case
  proof (cases rs)
    case Nil
    then show ?thesis using Suc.prems x qs
      by (subst trim_exts.simps) (auto intro!: exI [of _ h] exI [of _ qs])
  next
    case (Cons r us)
    obtain y where y: "r = se_next x" "r \<noteq> 0" "h r = Some y" "chain se_next h (se_next y) us"
      using x(4) Cons by (auto split: option.splits)
    have nin: "p \<noteq> r" "p \<notin> set us" "r \<notin> set us" using dist qs Cons x(1) by auto
    show ?thesis
    proof (cases "merged x y")
      case None
      have "chain se_next h r rs" using x(4) y(1) by simp
      from Suc.hyps(1) [OF _ this] Suc.hyps(2) qs Cons
      obtain h' vs where ih: "trim_exts r h = Some h'" "chain se_next h' r vs" "vs \<noteq> []" "set vs \<subseteq> set rs"
        "map (\<lambda>q. bare (the (h' q))) vs = trim_list (map (\<lambda>q. bare (the (h q))) rs)"
        "\<forall>z. z \<notin> set rs \<longrightarrow> h' z = h z" by auto
      have hp: "h' p = Some x" using ih(6) nin x(3) Cons by auto
      have "trim_exts p h = Some h'" using x y None ih(1) by (subst trim_exts.simps) simp
      moreover have "chain se_next h' p (p # vs)" using hp x(2) y(1) ih(2) by simp
      moreover have "map (\<lambda>q. bare (the (h' q))) (p # vs) = trim_list (map (\<lambda>q. bare (the (h q))) qs)"
        using ih(5) hp x qs Cons y None by (simp add: merged_bare)
      ultimately show ?thesis
        using ih(4,6) qs x(1) by (intro exI [of _ h'] exI [of _ "p # vs"]) auto
    next
      case (Some x')
      let ?x = "x'\<lparr>se_next := se_next y\<rparr>" and ?h1 = "h(p \<mapsto> x'\<lparr>se_next := se_next y\<rparr>)"
      obtain h2 where h2: "(if se_next y \<noteq> 0 then sync_upd (se_next y) (\<lambda>e. e\<lparr>se_prev := p\<rparr>) ?h1 else Some ?h1) = Some h2"
        "h2 p = Some ?x" "\<forall>z. z \<notin> insert p (set us) \<longrightarrow> h2 z = h z"
        "\<forall>z \<in> set us. map_option se_next (h2 z) = map_option se_next (h z) \<and> bare (the (h2 z)) = bare (the (h z))"
      proof (cases us)
        case Nil
        then show thesis using that [of ?h1] y(4) nin by simp
      next
        case (Cons v vs)
        then have v: "se_next y = v" "v \<noteq> 0" using y(4) by auto
        obtain e where "h v = Some e" using seg_in_heap [OF y(4), of v] Cons by auto
        then show thesis using that [of "?h1(v \<mapsto> e\<lparr>se_prev := p\<rparr>)"] v nin Cons by (auto simp: sync_upd_def)
      qed
      let ?h3 = "h2(r := None)"
      have us3: "map_option se_next (?h3 z) = map_option se_next (h z) \<and> bare (the (?h3 z)) = bare (the (h z))"
        if "z \<in> set us" for z using that h2(4) nin by auto
      have "chain se_next ?h3 (se_next y) us"
        using y(4) seg_cong_next [of us se_next ?h3 h] us3 by blast
      then have ch3: "chain se_next ?h3 p (p # us)" using h2(2) nin(1) x(2) by simp
      from Suc.hyps(1) [OF _ ch3] Suc.hyps(2) qs Cons
      obtain h' vs where ih: "trim_exts p ?h3 = Some h'" "chain se_next h' p vs" "vs \<noteq> []" "set vs \<subseteq> set (p # us)"
        "map (\<lambda>q. bare (the (h' q))) vs = trim_list (map (\<lambda>q. bare (the (?h3 q))) (p # us))"
        "\<forall>z. z \<notin> set (p # us) \<longrightarrow> h' z = ?h3 z" by auto
      have "trim_exts p h = Some h'"
        using x y Some h2(1) ih(1) by (subst trim_exts.simps) (simp add: Let_def)
      moreover have "map (\<lambda>q. bare (the (h' q))) vs = trim_list (map (\<lambda>q. bare (the (h q))) qs)"
      proof -
        have "map (\<lambda>q. bare (the (?h3 q))) us = map (\<lambda>q. bare (the (h q))) us"
          using us3 by (intro map_cong) auto
        moreover have "bare (the (?h3 p)) = bare x'" using h2(2) nin(1) by simp
        ultimately have m: "map (\<lambda>q. bare (the (?h3 q))) (p # us) = bare x' # map (\<lambda>q. bare (the (h q))) us"
          by (simp only: list.map)
        show ?thesis
          unfolding ih(5) m using qs Cons x(1,3) y(3) Some by (simp add: merged_bare)
      qed
      moreover have "\<forall>z. z \<notin> set qs \<longrightarrow> h' z = h z" using ih(6) h2(3) qs Cons x(1) by auto
      ultimately show ?thesis
        using ih(2-4) qs Cons x(1) by (intro exI [of _ h'] exI [of _ vs]) auto
    qed
  qed
qed

lemma trim_groups:
  "is_groups pz h ss qss gs \<Longrightarrow> distinct (concat qss) \<Longrightarrow>
     \<exists>h' rss. runM (\<lambda>s h. if sl_is_modbus s then trim_exts (sl_ext_list s) h else Some h) ss h = Some h'
       \<and> is_groups False h' ss rss (map group_trim gs) \<and> distinct (concat rss)
       \<and> set (concat rss) \<subseteq> set (concat qss) \<and> (\<forall>x. x \<notin> set (concat qss) \<longrightarrow> h' x = h x)"
proof (induction ss arbitrary: h qss gs)
  case Nil
  then show ?case by (cases qss; cases gs) (auto intro!: exI [of _ "[]"])
next
  case (Cons s ss)
  then obtain qs rss g fs where sp: "qss = qs # rss" "gs = g # fs" "is_group pz h s qs g"
    "is_groups pz h ss rss fs" by (cases qss; cases gs) auto
  have chq: "chain se_next h (sl_ext_list s) qs" "qs \<noteq> []" using sp(3) by (simp_all add: is_group_def)
  obtain h1 rs where h1: "(if sl_is_modbus s then trim_exts (sl_ext_list s) h else Some h) = Some h1"
    "is_group False h1 s rs (group_trim g)" "set rs \<subseteq> set qs" "distinct rs" "\<forall>x. x \<notin> set qs \<longrightarrow> h1 x = h x"
  proof (cases "sl_is_modbus s")
    case True
    from trim_chain [OF chq] obtain h' rs where t: "trim_exts (sl_ext_list s) h = Some h'"
      "chain se_next h' (sl_ext_list s) rs" "rs \<noteq> []" "set rs \<subseteq> set qs"
      "map (\<lambda>q. bare (the (h' q))) rs = trim_list (map (\<lambda>q. bare (the (h q))) qs)"
      "\<forall>x. x \<notin> set qs \<longrightarrow> h' x = h x" by blast
    then have "is_group False h' s rs (group_trim g)"
      using sp(3) True by (cases g) (auto simp: is_group_def group_trim_def)
    then show thesis using that [of h' rs] t True chain_distinct [OF t(2)] by simp
  next
    case False
    then have "is_group False h s qs (group_trim g)"
      using sp(3) by (cases g) (auto simp: is_group_def group_trim_def)
    then show thesis using that [of h qs] False chain_distinct [OF chq(1)] by simp
  qed
  have dis: "set (concat rss) \<inter> set qs = {}" using Cons.prems(2) sp(1) by auto
  have g1: "is_groups pz h1 ss rss fs"
  proof -
    have "h x = h1 x" if "x \<in> set (concat rss)" for x
    proof -
      have "x \<notin> set qs" using dis that by blast
      then show ?thesis using h1(5) by simp
    qed
    then show ?thesis using sp(4) is_groups_cong [of rss h h1] by blast
  qed
  from Cons.IH [OF g1] Cons.prems(2) sp(1) obtain h2 tss where h2:
    "runM (\<lambda>s h. if sl_is_modbus s then trim_exts (sl_ext_list s) h else Some h) ss h1 = Some h2"
    "is_groups False h2 ss tss (map group_trim fs)" "distinct (concat tss)"
    "set (concat tss) \<subseteq> set (concat rss)" "\<forall>x. x \<notin> set (concat rss) \<longrightarrow> h2 x = h1 x" by auto
  have "is_group False h2 s rs (group_trim g)"
  proof -
    have "h1 x = h2 x" if "x \<in> set rs" for x
    proof -
      have "x \<notin> set (concat rss)" using dis that h1(3) by blast
      then show ?thesis using h2(5) by simp
    qed
    then show ?thesis using h1(2) is_group_cong [of rs h1 h2] by blast
  qed
  moreover have "set rs \<inter> set (concat tss) = {}" using h1(3) h2(4) dis by blast
  ultimately show ?case
    using h1 h2 sp(1,2) by (intro exI [of _ h2] exI [of _ "rs # tss"]) auto
qed

lemma trim_polls:
  assumes "is_polls pz n st gs"
  shows "\<exists>st'. trim_sync_slave_link st = Some st' \<and> is_polls False n st' (map group_trim gs)
    \<and> sy_last_tick st' = sy_last_tick st"
proof -
  obtain qss where qss: "is_groups pz (sy_heap st) (sy_slaves st) qss gs" "distinct (concat qss)"
    and al: "distinct (map sl_ptr (sy_slaves st))" "0 \<notin> sl_ptr ` set (sy_slaves st)"
      "n \<le> length (sy_alloc st)" "distinct (sy_alloc st)" "0 \<notin> set (sy_alloc st)"
      "set (sy_alloc st) \<inter> (dom (sy_heap st) \<union> sl_ptr ` set (sy_slaves st)) = {}"
    using assms unfolding is_polls_def by blast
  from trim_groups [OF qss] obtain h rss where h:
    "runM (\<lambda>s h. if sl_is_modbus s then trim_exts (sl_ext_list s) h else Some h) (sy_slaves st) (sy_heap st) = Some h"
    "is_groups False h (sy_slaves st) rss (map group_trim gs)" "distinct (concat rss)"
    "set (concat rss) \<subseteq> set (concat qss)" "\<forall>x. x \<notin> set (concat qss) \<longrightarrow> h x = sy_heap st x" by blast
  have "dom h \<subseteq> dom (sy_heap st)"
  proof
    fix x assume "x \<in> dom h"
    then show "x \<in> dom (sy_heap st)"
      using h(5) is_groups_in_heap [OF qss(1), of x] by (cases "x \<in> set (concat qss)") (blast, simp add: domIff)
  qed
  then have "set (sy_alloc st) \<inter> (dom h \<union> sl_ptr ` set (sy_slaves st)) = {}" using al(6) by blast
  then have "is_polls False n (st\<lparr>sy_heap := h\<rparr>) (map group_trim gs)"
    unfolding is_polls_def using h al by (intro exI [of _ rss]) simp
  then show ?thesis using h(1) by (simp add: trim_sync_slave_link_def)
qed

end
