(* ===== verification/SyncPolls.thy ===== *)
theory SyncPolls
  imports SyncList
begin

text \<open>
  What the polling list of \<open>SyncList\<close> is for: the list that is built from a variable list, the
  round in which the acquisition thread gets its requests, and which registers they cover.
  Adding a variable is an operation that refines a function on groups of requests, so building
  the list is an instance of the contract \<open>refines\<close> of \<open>HeapList\<close>.
\<close>

section \<open>Building from the variable list\<close>

lemma is_polls_mono: "is_polls pz n st gs \<Longrightarrow> m \<le> n \<Longrightarrow> is_polls pz m st gs"
  by (auto simp: is_polls_def)

text \<open>Adding a variable refines \<open>poll_add\<close>, given two allocations.\<close>

interpretation polls: refines "is_polls True" "\<lambda>d st. map_option snd (add_sync_ext_node d st)" poll_add 2
  "\<lambda>_. True"
proof
  fix d n st gs
  assume *: "is_polls True (2 + n) st gs"
  have "\<exists>r st'. add_sync_ext_node d st = Some (r, st') \<and> is_polls True n st' (poll_add d gs)"
  proof (cases "find_sync_slave_node d st")
    case None
    then show ?thesis by (rule add_step_new [OF *])
  next
    case (Some s)
    then show ?thesis using add_step_old [OF is_polls_mono [OF *, of "Suc n"]] by simp
  qed
  then show "\<exists>st'. map_option snd (add_sync_ext_node d st) = Some st' \<and> is_polls True n st' (poll_add d gs)"
    by auto
qed

lemma add_unlink: "add_sync_ext_node (unlink d) = add_sync_ext_node d"
proof -
  have n: "new_ext s (unlink d) = new_ext s d" for s
    by (simp add: new_ext_def unlink_def mb_usExtAddr_def mb_usAddrOfs_def var_regs_def dl_op_def)
  have m: "sl_match (unlink d) s = sl_match d s" for s
    by (simp add: sl_match_def unlink_def mb_btOpCode_def mb_nSyncFAddr_def mb_btSlaveAddr_def dl_addr_def)
  have k: "new_slave (unlink d) p q = new_slave d p q" for p q
    by (simp add: new_slave_def slave_param_def unlink_def mb_btOpCode_def mb_nSyncFAddr_def
        mb_btSlaveAddr_def dl_addr_def sl_is_self_def sl_is_modbus_def sl_is_dlt645_def Let_def)
  have f: "find_sync_slave_node (unlink d) st = find_sync_slave_node d st" for st
    unfolding find_sync_slave_node_def by (rule arg_cong [of _ _ "\<lambda>P. find P _"]) (simp add: fun_eq_iff m)
  show ?thesis
    by (intro ext) (simp only: add_sync_ext_node_def add_sync_slave_node_def f k n)
qed

lemma creat_walk:
  assumes "chain ed_next h p ps"
  shows "walk ed_next (\<lambda>_. h) (\<lambda>p st. do {
      d \<leftarrow> h p;
      if bEnable d then map_option snd (add_sync_ext_node d st) else Some st }) p st =
    runM (\<lambda>d st. map_option snd (add_sync_ext_node d st)) (filter bEnable (vals h ps)) st"
proof -
  let ?step = "\<lambda>p st. do { d \<leftarrow> h p;
      if bEnable d then map_option snd (add_sync_ext_node d st) else Some st }"
  have "runM ?step qs st = runM (\<lambda>d st. map_option snd (add_sync_ext_node d st)) (filter bEnable (vals h qs)) st"
    if "set qs \<subseteq> set ps" for qs st
    using that
  proof (induction qs arbitrary: st)
    case (Cons q qs)
    then obtain d where d: "h q = Some d" using seg_in_heap [OF assms, of q] by auto
    have v: "vals h (q # qs) = unlink d # vals h qs" using d by (simp add: vals_def)
    have qs: "set qs \<subseteq> set ps" using Cons.prems by simp
    have ih: "runM ?step qs = runM (\<lambda>d st. map_option snd (add_sync_ext_node d st)) (filter bEnable (vals h qs))"
      by (intro ext) (rule Cons.IH [OF qs])
    show ?case
      by (simp add: v d ih add_unlink)
  qed (simp add: vals_def)
  then show ?thesis unfolding walk_const [OF assms] by simp
qed

lemma creat_polls:
  assumes vars: "is_vars vm ps vs" and old: "is_polls pz (2 * length vs) st gs"
  shows "\<exists>st'. creat_sync_slave_link tick vm st = Some (vs \<noteq> [], st') \<and> is_polls False 0 st' (poll_list vs)"
proof -
  let ?e = "filter bEnable vs"
  have "is_polls pz (2 * length ?e) (st\<lparr>sy_last_tick := replicate BOARD_UART_MAX tick\<rparr>) gs"
    using is_polls_mono [OF old, of "2 * length ?e"] by (simp add: is_polls_def)
  from free_polls [OF this] obtain st1 where
    st1: "free_sync_slave_link (st\<lparr>sy_last_tick := replicate BOARD_UART_MAX tick\<rparr>) = Some st1"
      "is_polls True (2 * length ?e + 0) st1 []" by auto
  have "list_all (\<lambda>_. True) ?e" by (simp add: list_all_iff)
  from polls.run [OF this st1(2)] obtain st2 where
    st2: "runM (\<lambda>d st. map_option snd (add_sync_ext_node d st)) ?e st1 = Some st2"
      "is_polls True 0 st2 (fold poll_add ?e [])" by blast
  from trim_polls [OF st2(2)] obtain st3 where
    st3: "trim_sync_slave_link st2 = Some st3" "is_polls False 0 st3 (poll_list vs)"
    by (auto simp: poll_list_def)
  have ch: "chain ed_next (vm_heap vm) (vm_list vm) ps" "vals (vm_heap vm) ps = vs"
    using vars by (simp_all add: is_vars_def)
  have ne: "(vm_list vm \<noteq> 0) = (vs \<noteq> [])" using ch by (cases ps) (auto simp: vals_def)
  have "creat_sync_slave_link tick vm st = Some (vm_list vm \<noteq> 0, st3)"
    using st1(1) st2(1) st3(1) creat_walk [OF ch(1), of st1] ch(2)
    by (simp add: creat_sync_slave_link_def)
  then show ?thesis using st3(2) ne by auto
qed

section \<open>A round of the acquisition\<close>

text \<open>The next requests of the thread, and the requests of the groups in order.\<close>

fun polls_from :: "nat \<Rightarrow> ptr \<times> ptr \<Rightarrow> sync_link \<Rightarrow> sync_node option list option" where
  "polls_from 0 c st = Some []"
| "polls_from (Suc n) c st = do {
     (c, r) \<leftarrow> get_next_sync_ext_node c st;
     rs \<leftarrow> polls_from n c st;
     Some (r # rs) }"

lemma polls_step:
  "get_next_sync_ext_node c st = Some (d, r) \<Longrightarrow> polls_from n d st = Some rs \<Longrightarrow>
     polls_from (Suc n) c st = Some (r # rs)"
  by simp

definition nodes :: "poll_group list \<Rightarrow> sync_node list" where
  "nodes gs = concat (map (\<lambda>(s, es). map (node_of s) es) gs)"

lemma nodes_simps [simp]: "nodes [] = []" "nodes ((s, es) # gs) = map (node_of s) es @ nodes gs"
  by (simp_all add: nodes_def)

lemma node_of_bare [simp]: "node_of s (bare e) = node_of s e"
  by (simp add: node_of_def node_param_def bare_def)

lemma slave_after_split:
  "sl_ptr s \<notin> sl_ptr ` set s1 \<Longrightarrow> slave_after (sl_ptr s) (s1 @ s # s2) = (case s2 of [] \<Rightarrow> None | t # _ \<Rightarrow> Some t)"
  by (induction s1) auto

lemma find_ptr_split:
  "sl_ptr s \<notin> sl_ptr ` set s1 \<Longrightarrow> find (\<lambda>t. sl_ptr s = sl_ptr t) (s1 @ s # s2) = Some s"
  by (induction s1) auto

lemma round_from:
  assumes "sy_slaves st = s1 @ s # s2" "distinct (map sl_ptr (s1 @ s # s2))" "0 \<notin> sl_ptr ` set (s1 @ s # s2)"
    and "is_group pz (sy_heap st) s (us @ q # ws) g" "is_groups pz (sy_heap st) s2 q2 g2"
  shows "polls_from (Suc (length ws + length (nodes g2))) (sl_ptr s, q) st =
    Some (map Some (map (\<lambda>r. node_of s (the (sy_heap st r))) ws @ nodes g2) @ [None])"
  using assms
proof (induction "length ws + length (nodes g2)" arbitrary: s1 s s2 us q ws g q2 g2)
  case 0
  have none: "ws = []" "nodes g2 = []" using 0(1) by auto
  have s2: "s2 = []"
  proof (rule ccontr)
    assume "s2 \<noteq> []"
    then obtain t ts qs qss f fs where "s2 = t # ts" "q2 = qs # qss" "g2 = f # fs" "is_group pz (sy_heap st) t qs f"
      using 0(6) by (cases s2; cases q2; cases g2) auto
    then show False using none by (cases f) (simp add: is_group_def)
  qed
  have ch: "chain se_next (sy_heap st) (sl_ext_list s) (us @ q # ws)" using 0(5) by (simp add: is_group_def)
  obtain x where x: "sy_heap st q = Some x" "se_next x = 0" "q \<noteq> 0"
    using chain_mid [OF ch] seg_in_heap [OF ch, of q] none by auto
  have ptr: "sl_ptr s \<notin> sl_ptr ` set s1" "sl_ptr s \<noteq> 0" using 0(3,4) by auto
  show ?case
    using 0(2) none s2 x ptr walk_mem_chain [OF ch, of q]
    by (simp add: get_next_sync_ext_node_def isexist_sync_ext_def find_ptr_split slave_after_split)
next
  case (Suc n)
  let ?h = "sy_heap st"
  have ch: "chain se_next ?h (sl_ext_list s) (us @ q # ws)" using Suc.prems(4) by (simp add: is_group_def)
  obtain x where x: "?h q = Some x" "chain se_next ?h (se_next x) ws" "q \<noteq> 0"
    using chain_mid [OF ch] seg_in_heap [OF ch, of q] by auto
  have ptr: "sl_ptr s \<notin> sl_ptr ` set s1" "sl_ptr s \<noteq> 0" using Suc.prems(2,3) by auto
  have here: "isexist_sync_ext (sl_ptr s) q st = Some True"
    using walk_mem_chain [OF ch, of q] Suc.prems(1) ptr
    by (simp add: isexist_sync_ext_def find_ptr_split)
  show ?case
  proof (cases ws)
    case (Cons r rs)
    then obtain y where y: "se_next x = r" "r \<noteq> 0" "?h r = Some y" using x(2) by (auto split: option.splits)
    have "get_next_sync_ext_node (sl_ptr s, q) st = Some ((sl_ptr s, r), Some (node_of s y))"
      using here x(1,3) y ptr Suc.prems(1)
      by (simp add: get_next_sync_ext_node_def find_ptr_split)
    moreover have "is_group pz ?h s ((us @ [q]) @ r # rs) g" "n = length rs + length (nodes g2)"
      using Suc.prems(4) Suc.hyps(2) Cons by simp_all
    note Suc.hyps(1) [OF this(2) Suc.prems(1-3) this(1) Suc.prems(5)]
    ultimately have "polls_from (Suc (Suc (length rs + length (nodes g2)))) (sl_ptr s, q) st =
        Some (Some (node_of s y) # map Some (map (\<lambda>r. node_of s (the (?h r))) rs @ nodes g2) @ [None])"
      by (rule polls_step)
    then show ?thesis using Cons y(3) by (simp del: polls_from.simps)
  next
    case Nil
    then have "nodes g2 \<noteq> []" using Suc.hyps(2) by auto
    then obtain t ts qs qss f fs where sp: "s2 = t # ts" "q2 = qs # qss" "g2 = f # fs" "is_group pz ?h t qs f"
      "is_groups pz ?h ts qss fs" using Suc.prems(5) by (cases s2; cases q2; cases g2) auto
    obtain p vs where qs: "qs = p # vs" using sp(4) by (cases qs) (auto simp: is_group_def)
    have cht: "chain se_next ?h (sl_ext_list t) (p # vs)" using sp(4) qs by (simp add: is_group_def)
    obtain y where y: "sl_ext_list t = p" "p \<noteq> 0" "?h p = Some y" using cht by (auto split: option.splits)
    have f: "f = (strip t, map (\<lambda>r. bare (the (?h r))) (p # vs))"
      using sp(4) qs by (cases f) (auto simp: is_group_def)
    have "get_next_sync_ext_node (sl_ptr s, q) st = Some ((sl_ptr t, p), Some (node_of t y))"
      using here x y ptr Suc.prems(1) sp(1) Nil
      by (simp add: get_next_sync_ext_node_def slave_after_split)
    moreover have g: "is_group pz ?h t ([] @ p # vs) f" "n = length vs + length (nodes fs)"
      "sy_slaves st = (s1 @ [s]) @ t # ts" "distinct (map sl_ptr ((s1 @ [s]) @ t # ts))"
      "0 \<notin> sl_ptr ` set ((s1 @ [s]) @ t # ts)"
      using Suc.prems(1-3) Suc.hyps(2) sp qs f Nil by simp_all
    note Suc.hyps(1) [OF g(2-5) g(1) sp(5)]
    ultimately have "polls_from (Suc (Suc (length vs + length (nodes fs)))) (sl_ptr s, q) st =
        Some (Some (node_of t y) # map Some (map (\<lambda>r. node_of t (the (?h r))) vs @ nodes fs) @ [None])"
      by (rule polls_step)
    then show ?thesis using Nil sp(3) f y(3) by (simp add: comp_def del: polls_from.simps)
  qed
qed

text \<open>From an empty cursor a round gives every request once, in order, and then \<open>FALSE\<close>.\<close>

lemma round_polls:
  assumes "is_polls pz n st gs"
  shows "polls_from (Suc (length (nodes gs))) (0, 0) st = Some (map Some (nodes gs) @ [None])"
proof -
  obtain qss where qss: "is_groups pz (sy_heap st) (sy_slaves st) qss gs"
    "distinct (map sl_ptr (sy_slaves st))" "0 \<notin> sl_ptr ` set (sy_slaves st)"
    using assms unfolding is_polls_def by blast
  show ?thesis
  proof (cases "sy_slaves st")
    case Nil
    then have "gs = []" using qss(1) by (cases qss; cases gs) simp_all
    then show ?thesis using Nil by (simp add: get_next_sync_ext_node_def)
  next
    case (Cons t ts)
    then obtain qs rss f fs where sp: "qss = qs # rss" "gs = f # fs" "is_group pz (sy_heap st) t qs f"
      "is_groups pz (sy_heap st) ts rss fs" using qss(1) by (cases qss; cases gs) auto
    obtain p vs where qs: "qs = p # vs" using sp(3) by (cases qs) (auto simp: is_group_def)
    have cht: "chain se_next (sy_heap st) (sl_ext_list t) (p # vs)" using sp(3) qs by (simp add: is_group_def)
    obtain y where y: "sl_ext_list t = p" "p \<noteq> 0" "sy_heap st p = Some y" using cht by (auto split: option.splits)
    have f: "f = (strip t, map (\<lambda>r. bare (the (sy_heap st r))) (p # vs))"
      using sp(3) qs by (cases f) (auto simp: is_group_def)
    have "get_next_sync_ext_node (0, 0) st = Some ((sl_ptr t, p), Some (node_of t y))"
      using Cons y by (simp add: get_next_sync_ext_node_def)
    moreover have "polls_from (Suc (length vs + length (nodes fs))) (sl_ptr t, p) st =
        Some (map Some (map (\<lambda>r. node_of t (the (sy_heap st r))) vs @ nodes fs) @ [None])"
      using round_from [of st "[]" t ts pz "[]" p vs f rss fs] Cons qss sp qs by (simp del: polls_from.simps)
    ultimately have "polls_from (Suc (Suc (length vs + length (nodes fs)))) (0, 0) st =
        Some (Some (node_of t y) # map Some (map (\<lambda>r. node_of t (the (sy_heap st r))) vs @ nodes fs) @ [None])"
      by (rule polls_step)
    then show ?thesis using sp(2) f y(3) by (simp add: comp_def del: polls_from.simps)
  qed
qed

section \<open>Which registers are polled\<close>

text \<open>
  The variables that the Modbus code of the list is for: the device speaks Modbus, and its
  number and the frame address fit the bytes of the group.
\<close>

definition modbus_var :: "ExtData \<Rightarrow> bool" where
  "modbus_var d = (proto_is_modbus (wint (usDevType d)) (wint (usProtoType d)) \<and>
     uint (usDevNum d) < 256 \<and> scast (ucast (mb_nSyncFAddr d) :: byte) = mb_nSyncFAddr d)"

lemma modbus_range: "proto_is_modbus t p \<Longrightarrow> t \<le> 6 \<and> p \<le> 2"
  by (auto simp: proto_is_modbus_def proto_defs split: if_splits)

lemma ucast_small: "uint w < 256 \<Longrightarrow> uint (ucast w :: byte) = uint w" for w :: u16
  by (simp add: unsigned_ucast_eq take_bit_int_eq_self)

lemma wide_byte: "uint (ucast b :: u16) = uint b" "unat (ucast b :: u16) = unat b" for b :: byte
proof -
  have "unat b < 2 ^ LENGTH(8)" "uint b < 2 ^ LENGTH(8)" by (rule unsigned_less)+
  then show "uint (ucast b :: u16) = uint b" "unat (ucast b :: u16) = unat b"
    by (simp_all add: unsigned_ucast_eq take_bit_nat_eq_self take_bit_int_eq_self)
qed

lemma ucast_eq: "ucast b = w \<Longrightarrow> b = ucast w \<and> uint w = uint b" for b :: byte and w :: u16
proof -
  assume "ucast b = w"
  moreover have "b = ucast (ucast b :: u16)" by (rule bit_word_eqI) (simp add: bit_simps)
  ultimately show ?thesis using wide_byte [of b] by auto
qed

lemma ucast_scast: "ucast (scast b :: u32) = b" for b :: byte
  by (rule bit_word_eqI) (simp add: bit_simps)

lemma key_simps [simp]:
  "sl_dev_type (key_of d) = ucast (usDevType d)" "sl_dev_num (key_of d) = ucast (usDevNum d)"
  "sl_proto_type (key_of d) = ucast (usProtoType d)" "sl_ptr (key_of d) = 0" "sl_ext_list (key_of d) = 0"
  by (simp_all add: key_of_def new_slave_def Let_def)

lemma key_param: "sl_is_modbus (key_of d) \<Longrightarrow> \<not> sl_is_self (key_of d) \<and>
    sl_param (key_of d) = [mb_btOpCode d, mb_btSlaveAddr d, ucast (mb_nSyncFAddr d), 0, 0, 0]"
  using proto_exclusive(1) [of "bint (ucast (usDevType d))" "bint (ucast (usDevNum d))"]
  by (auto simp: key_of_def new_slave_def slave_param_def Let_def sl_is_modbus_def sl_is_self_def)

text \<open>A variable only joins a Modbus group of the very fields it would give a group of its own.\<close>

lemma match_key:
  assumes "sl_match d (key_of c)" "sl_is_modbus (key_of c)"
  shows "key_of c = key_of d"
proof -
  have m: "proto_is_modbus (bint (ucast (usDevType c))) (bint (ucast (usProtoType c)))"
    using assms(2) by (simp add: sl_is_modbus_def)
  have ty: "ucast (ucast (usDevType c) :: byte) = usDevType d"
    using assms(1) by (auto simp: sl_match_def split: if_splits)
  then have t: "wint (usDevType d) = bint (ucast (usDevType c))" using ucast_eq [OF ty] by blast
  have ns: "\<not> proto_is_rtu_self (wint (usDevType d)) n" for n
    using modbus_range [OF m] t by (auto simp: proto_is_rtu_self_def proto_defs)
  have pr: "ucast (ucast (usProtoType c) :: byte) = usProtoType d"
    using assms(1) ns by (auto simp: sl_match_def split: if_splits)
  then have p: "wint (usProtoType d) = bint (ucast (usProtoType c))" using ucast_eq [OF pr] by blast
  have dm: "proto_is_modbus (wint (usDevType d)) (wint (usProtoType d))" using m t p by simp
  then have eqs: "ucast (usDevType c) = (ucast (usDevType d) :: byte)" "ucast (usDevNum c) = (ucast (usDevNum d) :: byte)"
    "ucast (usProtoType c) = (ucast (usProtoType d) :: byte)"
    "mb_btOpCode c = mb_btOpCode d" "mb_btSlaveAddr c = mb_btSlaveAddr d"
    "scast (ucast (mb_nSyncFAddr c) :: byte) = mb_nSyncFAddr d"
    using assms(1) ns key_param [OF assms(2)] ucast_eq
    by (auto simp: sl_match_def dest!: ucast_eq)
  have "ucast (mb_nSyncFAddr c) = (ucast (mb_nSyncFAddr d) :: byte)"
    using ucast_scast [of "ucast (mb_nSyncFAddr c)"] by (simp only: eqs)
  moreover have "sl_is_modbus (key_of d)" using assms(2) eqs by (simp add: sl_is_modbus_def)
  ultimately show ?thesis
    using key_param [OF assms(2)] key_param [of d] eqs by (intro sync_slave.equality) simp_all
qed

lemma own_match:
  assumes "modbus_var d"
  shows "sl_match d (key_of d)" "sl_is_modbus (key_of d)"
proof -
  have m: "proto_is_modbus (wint (usDevType d)) (wint (usProtoType d))" using assms by (simp add: modbus_var_def)
  have s: "uint (usDevType d) < 256" "uint (usProtoType d) < 256" "uint (usDevNum d) < 256"
    using modbus_range [OF m] assms by (auto simp: modbus_var_def)
  have u: "ucast (ucast w :: byte) = w" if "uint w < 256" for w :: u16
    using ucast_small [OF that] wide_byte [of "ucast w"] by (metis word_uint_eqI)
  show k: "sl_is_modbus (key_of d)"
    using m s by (simp add: sl_is_modbus_def ucast_small)
  show "sl_match d (key_of d)"
    using m s u key_param [OF k] assms proto_exclusive(1)
    by (auto simp: sl_match_def modbus_var_def)
qed

lemma modbus_match:
  assumes "modbus_var d" "sl_match d (key_of c)"
  shows "key_of c = key_of d"
proof -
  have m: "proto_is_modbus (wint (usDevType d)) (wint (usProtoType d))" using assms(1) by (simp add: modbus_var_def)
  then have "\<not> proto_is_rtu_self (wint (usDevType d)) n" for n using proto_exclusive(1) by blast
  then have "ucast (ucast (usDevType c) :: byte) = usDevType d" "ucast (ucast (usProtoType c) :: byte) = usProtoType d"
    using assms(2) m by (simp_all add: sl_match_def)
  from this [THEN ucast_eq] m have "sl_is_modbus (key_of c)" by (simp add: sl_is_modbus_def)
  then show ?thesis using match_key assms(2) by blast
qed

text \<open>What the groups hold after the variables \<open>ds\<close>, which are ascending in each Modbus group.\<close>

definition polls_inv :: "ExtData list \<Rightarrow> poll_group list \<Rightarrow> bool" where
  "polls_inv ds gs = ((\<forall>g \<in> set gs. \<exists>c. fst g = key_of c) \<and>
     (\<forall>g \<in> set gs. sl_is_modbus (fst g) \<longrightarrow> sorted (map se_addr (snd g)) \<and>
        (\<forall>e \<in> set (snd g). \<exists>d \<in> set ds. key_of d = fst g \<and> e = new_ext (fst g) d)) \<and>
     (\<forall>d \<in> set ds. modbus_var d \<longrightarrow> (\<exists>es. (key_of d, es) \<in> set gs \<and> new_ext (key_of d) d \<in> set es)))"

lemma new_ext_modbus:
  "sl_is_modbus s \<Longrightarrow> \<not> sl_is_self s \<Longrightarrow> se_addr (new_ext s d) = mb_usExtAddr d \<and>
     unat (se_size (new_ext s d)) = var_regs d"
  using var_regs_le [of d] by (simp add: new_ext_def unat_of_nat take_bit_nat_eq_self)

lemma poll_add_inv:
  assumes inv: "polls_inv ds gs"
    and asc: "\<forall>c \<in> set ds. key_of c = key_of d \<longrightarrow> mb_usExtAddr c \<le> mb_usExtAddr d"
  shows "polls_inv (ds @ [d]) (poll_add d gs)"
proof (cases "\<exists>g \<in> set gs. sl_match d (fst g)")
  case False
  then have add: "poll_add d gs = gs @ [(key_of d, [new_ext (key_of d) d])]" by (intro poll_add_new) auto
  show ?thesis using inv unfolding polls_inv_def add by (auto 0 4)
next
  case True
  then obtain g1 g g2 where sp: "gs = g1 @ g # g2" "sl_match d (fst g)" "\<forall>x \<in> set g1. \<not> sl_match d (fst x)"
    using split_list_first_prop [of gs "\<lambda>g. sl_match d (fst g)"] by blast
  obtain c where c: "fst g = key_of c" using inv sp(1) by (auto simp: polls_inv_def)
  obtain es where g: "g = (key_of c, es)" using c by (cases g) simp
  have add: "poll_add d gs = g1 @ group_add d g # g2" unfolding sp(1) by (rule poll_add_split) (use sp in auto)
  have app: "group_add d g = (key_of c, es @ [new_ext (key_of c) d])"
    and srt: "sl_is_modbus (key_of c) \<Longrightarrow> sorted (map se_addr (es @ [new_ext (key_of c) d])) \<and> key_of c = key_of d"
  proof -
    have "sorted (map se_addr es) \<and> (\<forall>e \<in> set es. se_addr e \<le> mb_usExtAddr d) \<and> key_of c = key_of d"
      if m: "sl_is_modbus (key_of c)"
    proof -
      have k: "key_of c = key_of d" using match_key [of d c] sp(2) g m by simp
      have "se_addr e \<le> mb_usExtAddr d" if "e \<in> set es" for e
      proof -
        have "\<exists>b \<in> set ds. key_of b = key_of c \<and> e = new_ext (key_of c) b"
          using inv sp(1) g m that by (auto simp: polls_inv_def)
        then show ?thesis using asc k new_ext_modbus [OF m] key_param [OF m] by auto
      qed
      then show ?thesis using inv sp(1) g m k by (auto simp: polls_inv_def)
    qed
    note s = this
    show "group_add d g = (key_of c, es @ [new_ext (key_of c) d])"
    proof (cases "sl_is_modbus (key_of c) \<and> \<not> sl_is_self (key_of c)")
      case True
      then have "dropWhile (\<lambda>x. \<not> se_addr (new_ext (key_of c) d) < se_addr x) es = []"
        using s new_ext_modbus [of "key_of c" d] by (auto simp: not_less)
      then have "ext_insert (new_ext (key_of c) d) es = es @ [new_ext (key_of c) d]"
        unfolding ext_insert_def by (simp only: list.case)
      then show ?thesis using True g by (simp add: group_add_def)
    qed (use g in \<open>auto simp: group_add_def\<close>)
    show "sorted (map se_addr (es @ [new_ext (key_of c) d])) \<and> key_of c = key_of d" if "sl_is_modbus (key_of c)"
      using s [OF that] new_ext_modbus [OF that, of d] key_param [OF that] by (auto simp: sorted_append)
  qed
  have old: "(key_of b, bs) \<in> set gs \<Longrightarrow> \<exists>bs'. (key_of b, bs') \<in> set (poll_add d gs) \<and> set bs \<subseteq> set bs'" for b bs
    unfolding add app by (subst (asm) sp(1)) (auto simp: g)
  have "modbus_var d \<longrightarrow> key_of c = key_of d" using modbus_match sp(2) g by simp
  then have new: "modbus_var d \<Longrightarrow> \<exists>es. (key_of d, es) \<in> set (poll_add d gs) \<and> new_ext (key_of d) d \<in> set es"
    unfolding add app by (intro exI [of _ "es @ [new_ext (key_of c) d]"]) auto
  have b: "\<forall>b \<in> set (ds @ [d]). modbus_var b \<longrightarrow>
      (\<exists>es. (key_of b, es) \<in> set (poll_add d gs) \<and> new_ext (key_of b) b \<in> set es)"
  proof (intro ballI impI)
    fix b assume b: "b \<in> set (ds @ [d])" "modbus_var b"
    show "\<exists>es. (key_of b, es) \<in> set (poll_add d gs) \<and> new_ext (key_of b) b \<in> set es"
    proof (cases "b = d")
      case True
      then show ?thesis using new b(2) by simp
    next
      case False
      then have "b \<in> set ds" using b(1) by simp
      then obtain bs where "(key_of b, bs) \<in> set gs" "new_ext (key_of b) b \<in> set bs"
        using inv b(2) unfolding polls_inv_def by blast
      then show ?thesis using old by blast
    qed
  qed
  have k: "\<forall>g \<in> set (poll_add d gs). \<exists>c. fst g = key_of c"
  proof
    fix h assume "h \<in> set (poll_add d gs)"
    then have "h \<in> set g1 \<or> h = group_add d g \<or> h \<in> set g2" by (auto simp: add)
    then have "h = group_add d g \<or> h \<in> set gs" using sp(1) by auto
    then show "\<exists>c. fst h = key_of c" using inv app unfolding polls_inv_def by auto
  qed
  have m: "\<forall>h \<in> set (poll_add d gs). sl_is_modbus (fst h) \<longrightarrow> sorted (map se_addr (snd h)) \<and>
      (\<forall>e \<in> set (snd h). \<exists>b \<in> set (ds @ [d]). key_of b = fst h \<and> e = new_ext (fst h) b)"
  proof (intro ballI impI)
    fix h assume h: "h \<in> set (poll_add d gs)" "sl_is_modbus (fst h)"
    show "sorted (map se_addr (snd h)) \<and> (\<forall>e \<in> set (snd h). \<exists>b \<in> set (ds @ [d]). key_of b = fst h \<and> e = new_ext (fst h) b)"
    proof (cases "h = group_add d g")
      case True
      then have "sl_is_modbus (key_of c)" using h(2) app by simp
      moreover have "\<forall>e \<in> set es. \<exists>b \<in> set ds. key_of b = key_of c \<and> e = new_ext (key_of c) b"
        using inv sp(1) g calculation unfolding polls_inv_def by auto
      ultimately show ?thesis using srt True app by auto
    next
      case False
      then have "h \<in> set gs" using h(1) add sp(1) by auto
      then show ?thesis using inv h(2) unfolding polls_inv_def by auto
    qed
  qed
  show ?thesis unfolding polls_inv_def using k m b by blast
qed

lemma polls_inv_fold:
  assumes "sorted_wrt (\<lambda>c d. key_of c = key_of d \<longrightarrow> mb_usExtAddr c \<le> mb_usExtAddr d) ds"
  shows "polls_inv ds (fold poll_add ds [])"
  using assms
proof (induction ds rule: rev_induct)
  case Nil
  then show ?case by (simp add: polls_inv_def)
next
  case (snoc d ds)
  then show ?case using poll_add_inv [of ds "fold poll_add ds []" d] by (auto simp: sorted_wrt_append)
qed

text \<open>Merging covers the registers of every request it is given.\<close>

definition ext_end :: "sync_ext \<Rightarrow> nat" where
  "ext_end e = unat (se_addr e) + unat (se_size e)"

lemma merged_covers:
  assumes "merged x y = Some z" "se_addr x \<le> se_addr y" "ext_end x < 2 ^ 16" "ext_end y < 2 ^ 16"
  shows "se_addr z = se_addr x \<and> ext_end z = max (ext_end x) (ext_end y) \<and> ext_end z < 2 ^ 16"
proof -
  have e: "unat (se_addr e + ucast (se_size e)) = ext_end e" if "ext_end e < 2 ^ 16" for e
    using that unat_word_ariths(1) [of "se_addr e" "ucast (se_size e)"] by (simp add: ext_end_def wide_byte)
  show ?thesis
  proof (cases "ext_end x < ext_end y")
    case True
    then have lt: "se_addr x + ucast (se_size x) < se_addr y + ucast (se_size y)"
      using e assms by (simp add: word_less_nat_alt)
    let ?n = "ext_end y - unat (se_addr x)"
    have n: "ext_end y \<ge> unat (se_addr x)" using True by (simp add: ext_end_def)
    let ?b = "se_addr y + ucast (se_size y)"
    have "int (unat ?b) - int (unat (se_addr x)) = int ?n" using n e [OF assms(4)] by simp
    then have d: "wint ?b - wint (se_addr x) = int ?n" by simp
    have "z = x\<lparr>se_size := word_of_int (wint ?b - wint (se_addr x))\<rparr>" "wint ?b - wint (se_addr x) \<le> 32"
      using assms(1) lt by (auto simp: merged_def Let_def SYNC_EXT_MAX_SIZE_def simp del: of_int_diff split: if_splits)
    then have z: "z = x\<lparr>se_size := word_of_nat ?n\<rparr>" "?n \<le> 32"
      unfolding d by simp_all
    have "unat (word_of_nat ?n :: byte) = ?n" using z(2) by (simp add: unat_of_nat take_bit_nat_eq_self)
    then show ?thesis using z(1) n True assms(4) by (simp add: ext_end_def)
  next
    case False
    then have "\<not> se_addr x + ucast (se_size x) < se_addr y + ucast (se_size y)"
      using e assms by (simp add: word_less_nat_alt)
    then have "z = x" using assms(1) by (auto simp: merged_def Let_def split: if_splits)
    then show ?thesis using False assms(3) by simp
  qed
qed

lemma trim_list_covers:
  "sorted (map se_addr es) \<Longrightarrow> \<forall>e \<in> set es. ext_end e < 2 ^ 16 \<Longrightarrow> e \<in> set es \<Longrightarrow>
     \<exists>t \<in> set (trim_list es). se_addr t \<le> se_addr e \<and> ext_end e \<le> ext_end t"
proof (induction es arbitrary: e rule: trim_list.induct)
  case (3 x y zs)
  show ?case
  proof (cases "merged x y")
    case None
    have tl: "sorted (map se_addr (y # zs))" "\<forall>e \<in> set (y # zs). ext_end e < 2 ^ 16" using 3(3,4) by auto
    show ?thesis
    proof (cases "e = x")
      case False
      then have "\<exists>t \<in> set (trim_list (y # zs)). se_addr t \<le> se_addr e \<and> ext_end e \<le> ext_end t"
        using 3(1) [OF None tl, of e] 3(5) by auto
      then show ?thesis using None by auto
    qed (use None in auto)
  next
    case (Some z)
    have c: "se_addr z = se_addr x" "ext_end z = max (ext_end x) (ext_end y)" "ext_end z < 2 ^ 16"
      using merged_covers [OF Some] 3(3,4) by auto
    have tl: "sorted (map se_addr (z # zs))" "\<forall>e \<in> set (z # zs). ext_end e < 2 ^ 16" using 3(3,4) c by auto
    have tr: "trim_list (x # y # zs) = trim_list (z # zs)" using Some by simp
    show ?thesis
    proof (cases "e \<in> set zs")
      case True
      then show ?thesis unfolding tr using 3(2) [OF Some tl, of e] by simp
    next
      case False
      then have "e = x \<or> e = y" using 3(5) by auto
      then have "se_addr z \<le> se_addr e \<and> ext_end e \<le> ext_end z" using c 3(3) by auto
      moreover obtain t where "t \<in> set (trim_list (z # zs))" "se_addr t \<le> se_addr z" "ext_end z \<le> ext_end t"
        using 3(2) [OF Some tl, of z] by auto
      ultimately show ?thesis unfolding tr by (meson le_trans order_trans)
    qed
  qed
qed auto

lemma polls_cover:
  assumes asc: "sorted_wrt (\<lambda>c d. key_of c = key_of d \<longrightarrow> mb_usExtAddr c \<le> mb_usExtAddr d) (filter bEnable vs)"
    and fit: "\<forall>d \<in> set vs. bEnable d \<longrightarrow> unat (mb_usExtAddr d) + var_regs d < 2 ^ 16"
    and d: "d \<in> set vs" "bEnable d" "modbus_var d"
  shows "\<exists>a ofs n. node_of (key_of d) \<lparr>se_addr = a, se_ofs = ofs, se_size = n, se_op = 0, se_next = 0, se_prev = 0\<rparr>
      \<in> set (nodes (poll_list vs)) \<and> unat a \<le> unat (mb_usExtAddr d)
      \<and> unat (mb_usExtAddr d) + var_regs d \<le> unat a + unat n"
proof -
  let ?gs = "fold poll_add (filter bEnable vs) []" and ?k = "key_of d"
  have inv: "polls_inv (filter bEnable vs) ?gs" by (rule polls_inv_fold [OF asc])
  have m: "sl_is_modbus ?k" "\<not> sl_is_self ?k" using own_match [OF d(3)] key_param by blast+
  obtain es where es: "(?k, es) \<in> set ?gs" "new_ext ?k d \<in> set es"
    using inv d unfolding polls_inv_def by auto
  have "\<forall>g \<in> set ?gs. sl_is_modbus (fst g) \<longrightarrow> sorted (map se_addr (snd g)) \<and>
      (\<forall>e \<in> set (snd g). \<exists>c \<in> set (filter bEnable vs). key_of c = fst g \<and> e = new_ext (fst g) c)"
    using inv unfolding polls_inv_def by blast
  from bspec [OF this es(1)] m(1) have srt: "sorted (map se_addr es)"
    and orig: "\<forall>e \<in> set es. \<exists>c \<in> set (filter bEnable vs). key_of c = ?k \<and> e = new_ext ?k c"
    by simp_all
  have "\<forall>e \<in> set es. ext_end e < 2 ^ 16"
    using orig fit new_ext_modbus [OF m] by (fastforce simp: ext_end_def)
  from trim_list_covers [OF srt this es(2)] obtain t where
    t: "t \<in> set (trim_list es)" "se_addr t \<le> mb_usExtAddr d" "unat (mb_usExtAddr d) + var_regs d \<le> ext_end t"
    using new_ext_modbus [OF m, of d] by (auto simp: ext_end_def)
  have "group_trim (?k, es) \<in> set (poll_list vs)" using es(1) unfolding poll_list_def by (simp only: set_map image_eqI)
  then have "node_of ?k t \<in> set (nodes (poll_list vs))"
    using t(1) m(1) by (force simp: nodes_def group_trim_def)
  moreover have "node_of ?k t = node_of ?k \<lparr>se_addr = se_addr t, se_ofs = se_ofs t, se_size = se_size t, se_op = 0,
      se_next = 0, se_prev = 0\<rparr>"
    using m by (simp add: node_of_def node_param_def)
  ultimately show ?thesis
    using t(2,3) by (intro exI [of _ "se_addr t"] exI [of _ "se_ofs t"] exI [of _ "se_size t"])
      (simp add: ext_end_def word_le_nat_alt)
qed

section \<open>Properties\<close>

lemma is_polls_empty:
  "distinct ps \<Longrightarrow> 0 \<notin> set ps \<Longrightarrow> n \<le> length ps \<Longrightarrow>
     is_polls True n \<lparr>sy_slaves = [], sy_heap = Map.empty, sy_alloc = ps, sy_last_tick = ts\<rparr> []"
  by (auto simp: is_polls_def intro: exI [of _ "[]"])

lemma var_regs_plain [simp]: "var_regs (plain_var a n p) = 1"
  by (simp add: var_regs_def plain_var_def)

lemma plain_modbus: "modbus_var (plain_var a n p)" "key_of (plain_var a n p) = key_of (plain_var 0 0 0)"
  "mb_usExtAddr (plain_var a n p) = a" "bEnable (plain_var a n p)"
proof -
  have "io_param (plain_var a n p) = modbus_param 3 0 1 a 0" by (simp add: plain_var_def)
  note mem = modbus_param_members [OF this]
  show "mb_usExtAddr (plain_var a n p) = a" by (rule mem)
  show "bEnable (plain_var a n p)" by (simp add: plain_var_def)
  show "modbus_var (plain_var a n p)"
    using mem by (simp add: modbus_var_def proto_is_modbus_def proto_defs) (simp add: plain_var_def)
  have k: "key_of (plain_var b m q) = \<lparr>sl_ptr = 0, sl_dev_type = 0, sl_dev_num = 0, sl_proto_type = 0,
      sl_param = [3, 1, 0, 0, 0, 0], sl_ext_list = 0\<rparr>" for b m q
  proof -
    have "io_param (plain_var b m q) = modbus_param 3 0 1 b 0" by (simp add: plain_var_def)
    note mem = modbus_param_members [OF this]
    have ty: "usDevType (plain_var b m q) = 0" "usDevNum (plain_var b m q) = 0" "usProtoType (plain_var b m q) = 0"
      by (simp_all add: plain_var_def)
    show ?thesis
      by (simp add: key_of_def new_slave_def slave_param_def sl_is_self_def sl_is_modbus_def Let_def mem ty
          proto_is_rtu_self_def proto_is_modbus_def proto_defs)
  qed
  show "key_of (plain_var a n p) = key_of (plain_var 0 0 0)" by (simp only: k)
qed

text \<open>
  C2. The pointer code implements the list functions: for every variable list, and from every
  earlier polling list, with memory for two records per variable, \<open>__creat_sync_slave_link\<close>
  returns without a stray access, the records it builds represent exactly the groups and merged
  requests of \<open>poll_list\<close>, and the acquisition thread then gets these requests one by one, each
  once and in order, before the \<open>FALSE\<close> that ends its round.
\<close>

theorem sync_list_refines:
  assumes "is_vars vm ps vs" and "is_polls pz (2 * length vs) st gs"
  shows "\<exists>st'. creat_sync_slave_link tick vm st = Some (vs \<noteq> [], st') \<and> is_polls False 0 st' (poll_list vs)
    \<and> polls_from (Suc (length (nodes (poll_list vs)))) (0, 0) st' =
        Some (map Some (nodes (poll_list vs)) @ [None])"
  using creat_polls [OF assms] round_polls by blast

theorem sync_list_refines_witness:
  "\<exists>st'. creat_sync_slave_link 7 (vars_of [16 \<mapsto> plain_var 1024 17 0, 17 \<mapsto> plain_var 1025 0 16,
       18 \<mapsto> plain_var 1030 0 0] 16 2)
       \<lparr>sy_slaves = [], sy_heap = Map.empty, sy_alloc = [21, 22, 23, 24], sy_last_tick = []\<rparr> = Some (True, st')
     \<and> is_polls False 0 st' (poll_list [plain_var 1024 0 0, plain_var 1025 0 0])"
  using sync_list_refines [OF is_vars_two is_polls_empty, of "[21, 22, 23, 24]" 7 "[]"] by auto

text \<open>
  C3. Every register is polled: when the enabled variables of each Modbus group stand in
  ascending order of their addresses in the slave, and none reaches past address 65535, a round of
  the acquisition contains for each of them a request to its slave, with its function code,
  whose range of registers holds all of the variable.
\<close>

theorem sync_polls_all:
  assumes "is_vars vm ps vs" and "is_polls pz (2 * length vs) st gs"
    and "sorted_wrt (\<lambda>c d. key_of c = key_of d \<longrightarrow> mb_usExtAddr c \<le> mb_usExtAddr d) (filter bEnable vs)"
    and "\<forall>d \<in> set vs. bEnable d \<longrightarrow> unat (mb_usExtAddr d) + var_regs d < 2 ^ 16"
  shows "\<exists>st' rs. creat_sync_slave_link tick vm st = Some (vs \<noteq> [], st')
    \<and> polls_from (Suc (length rs)) (0, 0) st' = Some (map Some rs @ [None])
    \<and> (\<forall>d \<in> set vs. bEnable d \<and> modbus_var d \<longrightarrow> (\<exists>r \<in> set rs. \<exists>a ofs n.
        uint (sn_dev_type r) = uint (usDevType d) \<and> uint (sn_dev_num r) = uint (usDevNum d)
        \<and> sn_param r = SN_modbus (mb_btOpCode d) (mb_btSlaveAddr d) a ofs n
        \<and> unat a \<le> unat (mb_usExtAddr d)
        \<and> unat (mb_usExtAddr d) + var_regs d \<le> unat a + unat n))"
proof -
  obtain st' where st': "creat_sync_slave_link tick vm st = Some (vs \<noteq> [], st')"
    "polls_from (Suc (length (nodes (poll_list vs)))) (0, 0) st' = Some (map Some (nodes (poll_list vs)) @ [None])"
    using creat_polls [OF assms(1,2)] round_polls by blast
  have "\<exists>r \<in> set (nodes (poll_list vs)). \<exists>a ofs n.
        uint (sn_dev_type r) = uint (usDevType d) \<and> uint (sn_dev_num r) = uint (usDevNum d)
        \<and> sn_param r = SN_modbus (mb_btOpCode d) (mb_btSlaveAddr d) a ofs n
        \<and> unat a \<le> unat (mb_usExtAddr d) \<and> unat (mb_usExtAddr d) + var_regs d \<le> unat a + unat n"
    if d: "d \<in> set vs" "bEnable d" "modbus_var d" for d
  proof -
    obtain a ofs n where n: "node_of (key_of d) \<lparr>se_addr = a, se_ofs = ofs, se_size = n, se_op = 0, se_next = 0,
        se_prev = 0\<rparr> \<in> set (nodes (poll_list vs))" "unat a \<le> unat (mb_usExtAddr d)"
      "unat (mb_usExtAddr d) + var_regs d \<le> unat a + unat n"
      using polls_cover [OF assms(3,4) d] by blast
    have m: "sl_is_modbus (key_of d)" by (rule own_match [OF d(3)])
    have "uint (usDevType d) < 256" "uint (usDevNum d) < 256"
      using d(3) modbus_range by (fastforce simp: modbus_var_def)+
    then show ?thesis
      using n key_param [OF m] m
      by (intro bexI [OF _ n(1)] exI [of _ a] exI [of _ ofs] exI [of _ n])
        (simp add: node_of_def node_param_def ucast_small)
  qed
  then show ?thesis using st' by blast
qed

theorem sync_polls_all_witness:
  "\<exists>st' rs. creat_sync_slave_link 7 (vars_of [16 \<mapsto> plain_var 1024 17 0, 17 \<mapsto> plain_var 1025 0 16,
       18 \<mapsto> plain_var 1030 0 0] 16 2)
       \<lparr>sy_slaves = [], sy_heap = Map.empty, sy_alloc = [21, 22, 23, 24], sy_last_tick = []\<rparr> = Some (True, st')
     \<and> polls_from (Suc (length rs)) (0, 0) st' = Some (map Some rs @ [None])"
proof -
  let ?vs = "[plain_var 1024 0 0, plain_var 1025 0 0]"
  let ?st = "\<lparr>sy_slaves = [], sy_heap = Map.empty, sy_alloc = [21, 22, 23, 24], sy_last_tick = []\<rparr>"
  have a: "is_polls True (2 * length ?vs) ?st []" by (rule is_polls_empty) simp_all
  have b: "sorted_wrt (\<lambda>c d. key_of c = key_of d \<longrightarrow> mb_usExtAddr c \<le> mb_usExtAddr d) (filter bEnable ?vs)"
    by (simp add: plain_modbus(3))
  have c: "\<forall>d \<in> set ?vs. bEnable d \<longrightarrow> unat (mb_usExtAddr d) + var_regs d < 2 ^ 16"
    by (simp add: plain_modbus(3))
  from sync_polls_all [OF is_vars_two a b c, of 7] show ?thesis
    by (elim exE conjE) (intro exI conjI, simp_all only: list.distinct not_False_eq_True)
qed

text \<open>
  A variable that stands after one with a greater address makes the code lose requests: of the
  registers 10, 20 and 5 of one slave only 5 and 20 are polled.
\<close>

lemma insertion_loses_a_request:
  "map se_addr (concat (map snd (poll_list [plain_var 10 0 0, plain_var 20 0 0, plain_var 5 0 0]))) = [5, 20]"
proof -
  let ?k = "key_of (plain_var 0 0 0)" and ?e = "\<lambda>a. new_ext (key_of (plain_var 0 0 0)) (plain_var a 0 0)"
  have k: "key_of (plain_var a 0 0) = ?k" for a by (rule plain_modbus)
  have m: "sl_is_modbus ?k" "\<not> sl_is_self ?k" "sl_match (plain_var a 0 0) ?k" for a
  proof -
    show m: "sl_is_modbus ?k" by (rule own_match [OF plain_modbus(1)])
    show "\<not> sl_is_self ?k" using key_param [OF m] ..
    show "sl_match (plain_var a 0 0) ?k" using own_match(1) [OF plain_modbus(1) [of a 0 0]] by (simp only: k [of a])
  qed
  have e: "se_addr (?e a) = a" "unat (se_size (?e a)) = 1" for a
    using new_ext_modbus [OF m(1,2), of "plain_var a 0 0"] by (simp_all only: plain_modbus(3) var_regs_plain)
  have ins: "ext_insert (?e 20) [?e 10] = [?e 10, ?e 20]" "ext_insert (?e 5) [?e 10, ?e 20] = [?e 5, ?e 20]"
    by (simp_all add: ext_insert_def e)
  have "poll_add (plain_var 10 0 0) [] = [(?k, [?e 10])]" by (simp only: poll_add.simps k [of 10])
  moreover have "poll_add (plain_var 20 0 0) [(?k, [?e 10])] = [(?k, [?e 10, ?e 20])]"
    "poll_add (plain_var 5 0 0) [(?k, [?e 10, ?e 20])] = [(?k, [?e 5, ?e 20])]"
    by (simp_all only: poll_add.simps fst_conv m if_True group_add_def prod.case ins simp_thms)
  ultimately have f: "fold poll_add [plain_var 10 0 0, plain_var 20 0 0, plain_var 5 0 0] [] = [(?k, [?e 5, ?e 20])]"
    by simp
  have n: "merged (?e 5) (?e 20) = None" unfolding merged_def by (simp only: e) simp
  have t: "trim_list [?e 5, ?e 20] = [?e 5, ?e 20]" by (simp only: trim_list.simps n option.case)
  have b: "filter bEnable [plain_var 10 0 0, plain_var 20 0 0, plain_var 5 0 0] =
      [plain_var 10 0 0, plain_var 20 0 0, plain_var 5 0 0]"
    by (simp add: plain_modbus(4))
  have "poll_list [plain_var 10 0 0, plain_var 20 0 0, plain_var 5 0 0] = [(?k, [?e 5, ?e 20])]"
    unfolding poll_list_def b f by (simp add: group_trim_def m t del: trim_list.simps)
  then show ?thesis by (simp add: e)
qed

end
