(* ===== verification/BoardCfg.thy ===== *)
theory BoardCfg
  imports Crc
begin

text \<open>
  The configuration file of the board (\<open>board/cfg/board_cfg.c\<close>): a file of areas, each at a
  fixed offset and made of a magic number, the image of a configuration structure and the
  Modbus checksum (\<open>freemodbus/modbus/rtu/mbcrc.c\<close>) of that image. A pair \<open>(pcfg, len)\<close> of a
  pointer to a structure and its \<open>sizeof\<close> is the list of the \<open>len\<close> bytes at \<open>pcfg\<close>. The locale
  \<open>checked_areas\<close> is what the users of the file rely on; it is interpreted on the model of the
  file here, and in \<open>Reg\<close> for the flash sector.
\<close>

unbundle bit_operations_syntax

section \<open>The checksum\<close>

definition aucCRCHi :: "byte list" where
  "aucCRCHi = [
     0x00, 0xc1, 0x81, 0x40, 0x01, 0xc0, 0x80, 0x41, 0x01, 0xc0, 0x80, 0x41,
     0x00, 0xc1, 0x81, 0x40, 0x01, 0xc0, 0x80, 0x41, 0x00, 0xc1, 0x81, 0x40,
     0x00, 0xc1, 0x81, 0x40, 0x01, 0xc0, 0x80, 0x41, 0x01, 0xc0, 0x80, 0x41,
     0x00, 0xc1, 0x81, 0x40, 0x00, 0xc1, 0x81, 0x40, 0x01, 0xc0, 0x80, 0x41,
     0x00, 0xc1, 0x81, 0x40, 0x01, 0xc0, 0x80, 0x41, 0x01, 0xc0, 0x80, 0x41,
     0x00, 0xc1, 0x81, 0x40, 0x01, 0xc0, 0x80, 0x41, 0x00, 0xc1, 0x81, 0x40,
     0x00, 0xc1, 0x81, 0x40, 0x01, 0xc0, 0x80, 0x41, 0x00, 0xc1, 0x81, 0x40,
     0x01, 0xc0, 0x80, 0x41, 0x01, 0xc0, 0x80, 0x41, 0x00, 0xc1, 0x81, 0x40,
     0x00, 0xc1, 0x81, 0x40, 0x01, 0xc0, 0x80, 0x41, 0x01, 0xc0, 0x80, 0x41,
     0x00, 0xc1, 0x81, 0x40, 0x01, 0xc0, 0x80, 0x41, 0x00, 0xc1, 0x81, 0x40,
     0x00, 0xc1, 0x81, 0x40, 0x01, 0xc0, 0x80, 0x41, 0x01, 0xc0, 0x80, 0x41,
     0x00, 0xc1, 0x81, 0x40, 0x00, 0xc1, 0x81, 0x40, 0x01, 0xc0, 0x80, 0x41,
     0x00, 0xc1, 0x81, 0x40, 0x01, 0xc0, 0x80, 0x41, 0x01, 0xc0, 0x80, 0x41,
     0x00, 0xc1, 0x81, 0x40, 0x00, 0xc1, 0x81, 0x40, 0x01, 0xc0, 0x80, 0x41,
     0x01, 0xc0, 0x80, 0x41, 0x00, 0xc1, 0x81, 0x40, 0x01, 0xc0, 0x80, 0x41,
     0x00, 0xc1, 0x81, 0x40, 0x00, 0xc1, 0x81, 0x40, 0x01, 0xc0, 0x80, 0x41,
     0x00, 0xc1, 0x81, 0x40, 0x01, 0xc0, 0x80, 0x41, 0x01, 0xc0, 0x80, 0x41,
     0x00, 0xc1, 0x81, 0x40, 0x01, 0xc0, 0x80, 0x41, 0x00, 0xc1, 0x81, 0x40,
     0x00, 0xc1, 0x81, 0x40, 0x01, 0xc0, 0x80, 0x41, 0x01, 0xc0, 0x80, 0x41,
     0x00, 0xc1, 0x81, 0x40, 0x00, 0xc1, 0x81, 0x40, 0x01, 0xc0, 0x80, 0x41,
     0x00, 0xc1, 0x81, 0x40, 0x01, 0xc0, 0x80, 0x41, 0x01, 0xc0, 0x80, 0x41,
     0x00, 0xc1, 0x81, 0x40]"

definition aucCRCLo :: "byte list" where
  "aucCRCLo = [
     0x00, 0xc0, 0xc1, 0x01, 0xc3, 0x03, 0x02, 0xc2, 0xc6, 0x06, 0x07, 0xc7,
     0x05, 0xc5, 0xc4, 0x04, 0xcc, 0x0c, 0x0d, 0xcd, 0x0f, 0xcf, 0xce, 0x0e,
     0x0a, 0xca, 0xcb, 0x0b, 0xc9, 0x09, 0x08, 0xc8, 0xd8, 0x18, 0x19, 0xd9,
     0x1b, 0xdb, 0xda, 0x1a, 0x1e, 0xde, 0xdf, 0x1f, 0xdd, 0x1d, 0x1c, 0xdc,
     0x14, 0xd4, 0xd5, 0x15, 0xd7, 0x17, 0x16, 0xd6, 0xd2, 0x12, 0x13, 0xd3,
     0x11, 0xd1, 0xd0, 0x10, 0xf0, 0x30, 0x31, 0xf1, 0x33, 0xf3, 0xf2, 0x32,
     0x36, 0xf6, 0xf7, 0x37, 0xf5, 0x35, 0x34, 0xf4, 0x3c, 0xfc, 0xfd, 0x3d,
     0xff, 0x3f, 0x3e, 0xfe, 0xfa, 0x3a, 0x3b, 0xfb, 0x39, 0xf9, 0xf8, 0x38,
     0x28, 0xe8, 0xe9, 0x29, 0xeb, 0x2b, 0x2a, 0xea, 0xee, 0x2e, 0x2f, 0xef,
     0x2d, 0xed, 0xec, 0x2c, 0xe4, 0x24, 0x25, 0xe5, 0x27, 0xe7, 0xe6, 0x26,
     0x22, 0xe2, 0xe3, 0x23, 0xe1, 0x21, 0x20, 0xe0, 0xa0, 0x60, 0x61, 0xa1,
     0x63, 0xa3, 0xa2, 0x62, 0x66, 0xa6, 0xa7, 0x67, 0xa5, 0x65, 0x64, 0xa4,
     0x6c, 0xac, 0xad, 0x6d, 0xaf, 0x6f, 0x6e, 0xae, 0xaa, 0x6a, 0x6b, 0xab,
     0x69, 0xa9, 0xa8, 0x68, 0x78, 0xb8, 0xb9, 0x79, 0xbb, 0x7b, 0x7a, 0xba,
     0xbe, 0x7e, 0x7f, 0xbf, 0x7d, 0xbd, 0xbc, 0x7c, 0xb4, 0x74, 0x75, 0xb5,
     0x77, 0xb7, 0xb6, 0x76, 0x72, 0xb2, 0xb3, 0x73, 0xb1, 0x71, 0x70, 0xb0,
     0x50, 0x90, 0x91, 0x51, 0x93, 0x53, 0x52, 0x92, 0x96, 0x56, 0x57, 0x97,
     0x55, 0x95, 0x94, 0x54, 0x9c, 0x5c, 0x5d, 0x9d, 0x5f, 0x9f, 0x9e, 0x5e,
     0x5a, 0x9a, 0x9b, 0x5b, 0x99, 0x59, 0x58, 0x98, 0x88, 0x48, 0x49, 0x89,
     0x4b, 0x8b, 0x8a, 0x4a, 0x4e, 0x8e, 0x8f, 0x4f, 0x8d, 0x4d, 0x4c, 0x8c,
     0x44, 0x84, 0x85, 0x45, 0x87, 0x47, 0x46, 0x86, 0x82, 0x42, 0x43, 0x83,
     0x41, 0x81, 0x80, 0x40]"

text \<open>One turn of the loop on \<open>(ucCRCHi, ucCRCLo)\<close>; \<open>usLen\<close> is 16 bits wide.\<close>

definition mb_crc_upd :: "byte \<times> byte \<Rightarrow> byte \<Rightarrow> byte \<times> byte" where
  "mb_crc_upd c b = (let
     (ucCRCHi, ucCRCLo) = c;
     iIndex = unat (ucCRCLo XOR b);
     ucCRCLo = ucCRCHi XOR aucCRCHi ! iIndex;
     ucCRCHi = aucCRCLo ! iIndex
     in (ucCRCHi, ucCRCLo))"

definition usMBCRC16 :: "byte list \<Rightarrow> u16 \<Rightarrow> u16" where
  "usMBCRC16 pucFrame usLen =
     (case foldl mb_crc_upd (0xFF, 0xFF) (take (unat usLen) pucFrame) of
        (ucCRCHi, ucCRCLo) \<Rightarrow> push_bit 8 (ucast ucCRCHi) OR ucast ucCRCLo)"

section \<open>Files\<close>

text \<open>
  What the code uses of the file system: \<open>d_file\<close> is the content of the file, if it exists;
  \<open>d_opens\<close> whether it can be opened; \<open>d_room\<close> how long it can get before the disk is full;
  \<open>d_stale\<close> what the clusters hold that are added to a file by a seek behind its end. From the
  call number \<open>d_fault\<close> on the disk fails, and with it every call on the open file.
\<close>

record cfg_disk =
  d_file :: "byte list option"
  d_opens :: bool
  d_room :: nat
  d_stale :: "nat \<Rightarrow> byte"
  d_fault :: "nat option"

record cfg_fd =
  f_data :: "byte list"
  f_pos :: nat
  f_write :: bool
  f_fault :: "nat option"

definition fs_open :: "cfg_disk \<Rightarrow> bool \<Rightarrow> cfg_fd option" where
  "fs_open d wr =
     (if d_opens d then
        (case d_file d of
           Some xs \<Rightarrow> Some \<lparr>f_data = xs, f_pos = 0, f_write = wr, f_fault = d_fault d\<rparr>
         | None \<Rightarrow> if wr then Some \<lparr>f_data = [], f_pos = 0, f_write = wr, f_fault = d_fault d\<rparr> else None)
      else None)"

definition fs_close :: "cfg_disk \<Rightarrow> cfg_fd \<Rightarrow> cfg_disk" where
  "fs_close d fd = (if f_write fd then d\<lparr>d_file := Some (f_data fd), d_fault := f_fault fd\<rparr>
     else d\<lparr>d_fault := f_fault fd\<rparr>)"

text \<open>One more call on the open file; None when the disk fails.\<close>

definition fs_call :: "cfg_fd \<Rightarrow> cfg_fd option" where
  "fs_call fd = (case f_fault fd of
     None \<Rightarrow> Some fd
   | Some 0 \<Rightarrow> None
   | Some (Suc n) \<Rightarrow> Some (fd\<lparr>f_fault := Some n\<rparr>))"

text \<open>
  A seek returns the offset it was asked for. A file open for writing is stretched to it as
  far as the disk has room; the position of any other file stops at its end.
\<close>

definition fs_lseek :: "cfg_disk \<Rightarrow> cfg_fd \<Rightarrow> nat \<Rightarrow> int \<times> cfg_fd" where
  "fs_lseek d fd ofs = (case fs_call fd of
     None \<Rightarrow> (-1, fd)
   | Some fd \<Rightarrow> (let
       xs = f_data fd;
       xs = (if f_write fd then xs @ map (d_stale d) [length xs ..< min ofs (d_room d)] else xs)
       in (int ofs, fd\<lparr>f_data := xs, f_pos := min ofs (length xs)\<rparr>)))"

definition fs_read :: "cfg_fd \<Rightarrow> nat \<Rightarrow> int \<times> byte list \<times> cfg_fd" where
  "fs_read fd n = (case fs_call fd of
     None \<Rightarrow> (-1, [], fd)
   | Some fd \<Rightarrow> (let got = take n (drop (f_pos fd) (f_data fd))
       in (int (length got), got, fd\<lparr>f_pos := f_pos fd + length got\<rparr>)))"

definition fs_write :: "cfg_disk \<Rightarrow> cfg_fd \<Rightarrow> byte list \<Rightarrow> int \<times> cfg_fd" where
  "fs_write d fd bs = (case fs_call fd of
     None \<Rightarrow> (-1, fd)
   | Some fd \<Rightarrow> (let
       bs = take (d_room d - f_pos fd) bs;
       xs = take (f_pos fd) (f_data fd) @ bs @ drop (f_pos fd + length bs) (f_data fd)
       in (int (length bs), fd\<lparr>f_data := xs, f_pos := f_pos fd + length bs\<rparr>)))"

section \<open>The configuration file\<close>

definition CFG_VER :: byte where "CFG_VER = 0x01"
definition CFG_MAGIC :: u32 where "CFG_MAGIC = 0xD6BCF4ED"

text \<open>The offsets and sizes of the areas.\<close>

definition CFG_INFO_OFS :: nat where "CFG_INFO_OFS = 0"
definition CFG_INFO_SIZE :: nat where "CFG_INFO_SIZE = 128"
definition DEV_CFG_OFS :: nat where "DEV_CFG_OFS = CFG_INFO_OFS + CFG_INFO_SIZE"
definition DEV_CFG_SIZE :: nat where "DEV_CFG_SIZE = 256"
definition REG_CFG_OFS :: nat where "REG_CFG_OFS = DEV_CFG_OFS + DEV_CFG_SIZE"
definition REG_CFG_SIZE :: nat where "REG_CFG_SIZE = 512"
definition UART_CFG_OFS :: nat where "UART_CFG_OFS = REG_CFG_OFS + REG_CFG_SIZE"
definition UART_CFG_SIZE :: nat where "UART_CFG_SIZE = 512"
definition NET_CFG_OFS :: nat where "NET_CFG_OFS = UART_CFG_OFS + UART_CFG_SIZE"
definition NET_CFG_SIZE :: nat where "NET_CFG_SIZE = 256"
definition GPRS_NET_CFG_OFS :: nat where "GPRS_NET_CFG_OFS = NET_CFG_OFS + NET_CFG_SIZE"
definition GPRS_NET_CFG_SIZE :: nat where "GPRS_NET_CFG_SIZE = 512"
definition GPRS_WORK_CFG_OFS :: nat where "GPRS_WORK_CFG_OFS = GPRS_NET_CFG_OFS + GPRS_NET_CFG_SIZE"
definition GPRS_WORK_CFG_SIZE :: nat where "GPRS_WORK_CFG_SIZE = 512"
definition TCPIP_CFG_OFS :: nat where "TCPIP_CFG_OFS = GPRS_WORK_CFG_OFS + GPRS_WORK_CFG_SIZE"
definition TCPIP_CFG_SIZE :: nat where "TCPIP_CFG_SIZE = 2 * 1024"
definition DI_CFG_OFS :: nat where "DI_CFG_OFS = TCPIP_CFG_OFS + TCPIP_CFG_SIZE"
definition DI_CFG_SIZE :: nat where "DI_CFG_SIZE = 2 * 1024"
definition DO_CFG_OFS :: nat where "DO_CFG_OFS = DI_CFG_OFS + DI_CFG_SIZE"
definition DO_CFG_SIZE :: nat where "DO_CFG_SIZE = 2 * 1024"
definition ANALOG_CFG_OFS :: nat where "ANALOG_CFG_OFS = DO_CFG_OFS + DO_CFG_SIZE"
definition ANALOG_CFG_SIZE :: nat where "ANALOG_CFG_SIZE = 1024"
definition AUTH_CFG_OFS :: nat where "AUTH_CFG_OFS = ANALOG_CFG_OFS + ANALOG_CFG_SIZE"
definition AUTH_CFG_SIZE :: nat where "AUTH_CFG_SIZE = 512"
definition STORAGE_CFG_OFS :: nat where "STORAGE_CFG_OFS = AUTH_CFG_OFS + AUTH_CFG_SIZE"
definition STORAGE_CFG_SIZE :: nat where "STORAGE_CFG_SIZE = 256"
definition HOST_CFG_OFS :: nat where "HOST_CFG_OFS = STORAGE_CFG_OFS + STORAGE_CFG_SIZE"
definition HOST_CFG_SIZE :: nat where "HOST_CFG_SIZE = 256"
definition ZIGBEE_CFG_OFS :: nat where "ZIGBEE_CFG_OFS = HOST_CFG_OFS + HOST_CFG_SIZE"
definition ZIGBEE_CFG_SIZE :: nat where "ZIGBEE_CFG_SIZE = 256"
definition XFER_UART_CFG_OFS :: nat where "XFER_UART_CFG_OFS = ZIGBEE_CFG_OFS + ZIGBEE_CFG_SIZE"
definition XFER_UART_CFG_SIZE :: nat where "XFER_UART_CFG_SIZE = 2 * 1024"

lemmas cfg_layout = CFG_INFO_OFS_def CFG_INFO_SIZE_def DEV_CFG_OFS_def DEV_CFG_SIZE_def
  REG_CFG_OFS_def REG_CFG_SIZE_def UART_CFG_OFS_def UART_CFG_SIZE_def NET_CFG_OFS_def
  NET_CFG_SIZE_def GPRS_NET_CFG_OFS_def GPRS_NET_CFG_SIZE_def GPRS_WORK_CFG_OFS_def
  GPRS_WORK_CFG_SIZE_def TCPIP_CFG_OFS_def TCPIP_CFG_SIZE_def DI_CFG_OFS_def DI_CFG_SIZE_def
  DO_CFG_OFS_def DO_CFG_SIZE_def ANALOG_CFG_OFS_def ANALOG_CFG_SIZE_def AUTH_CFG_OFS_def
  AUTH_CFG_SIZE_def STORAGE_CFG_OFS_def STORAGE_CFG_SIZE_def HOST_CFG_OFS_def HOST_CFG_SIZE_def
  ZIGBEE_CFG_OFS_def ZIGBEE_CFG_SIZE_def XFER_UART_CFG_OFS_def XFER_UART_CFG_SIZE_def

text \<open>
  Reading without a check: the number of bytes read, and the object afterwards. The call that
  finds no file returns 0 and leaves the object.
\<close>

definition board_cfg_justread :: "cfg_disk \<Rightarrow> nat \<Rightarrow> byte list \<Rightarrow> int \<times> byte list \<times> cfg_disk" where
  "board_cfg_justread d ofs obj = (case fs_open d False of
     None \<Rightarrow> (0, obj, d)
   | Some fd \<Rightarrow> (let
       (pos, fd) = fs_lseek d fd ofs;
       (readlen, got, fd) = (if pos = int ofs then fs_read fd (length obj) else (0, [], fd))
       in (readlen, got @ drop (length got) obj, fs_close d fd)))"

text \<open>
  Reading with a check. The object is overwritten as soon as the magic number fits, also when
  the check then fails. \<open>ulMagic\<close> and \<open>usCheck\<close> start as 0 and keep the bytes that were not
  read.
\<close>

definition board_cfg_read :: "cfg_disk \<Rightarrow> nat \<Rightarrow> byte list \<Rightarrow> bool \<times> byte list \<times> cfg_disk" where
  "board_cfg_read d ofs pcfg = (case fs_open d False of
     None \<Rightarrow> (False, pcfg, d)
   | Some fd \<Rightarrow> (let
       (pos, fd) = fs_lseek d fd ofs;
       (ret, pcfg, fd) =
         (if pos = int ofs then let
            (_, m, fd) = fs_read fd 4;
            ulMagic = m @ replicate (4 - length m) 0
            in if ulMagic = bytes_le32 CFG_MAGIC then let
              len = length pcfg;
              (n, got, fd) = fs_read fd len;
              pcfg = got @ drop (length got) pcfg
              in if n = int len then let
                (n, chk, fd) = fs_read fd 2
                in if n = 2
                   then (chk = bytes_le16 (usMBCRC16 pcfg (word_of_nat len)), pcfg, fd)
                   else (False, pcfg, fd)
              else (False, pcfg, fd)
            else (False, pcfg, fd)
          else (False, pcfg, fd))
       in (ret, pcfg, fs_close d fd)))"

text \<open>
  The padding loop of both write functions: \<open>remain\<close> goes down by what was written, and up by
  one when the write fails. None stands for a loop that does not end or that lets the \<open>int\<close>
  overflow.
\<close>

partial_function (option) cfg_pad :: "cfg_disk \<Rightarrow> int \<Rightarrow> cfg_fd \<Rightarrow> cfg_fd option" where
  "cfg_pad d remain fd =
     (if remain > 0 then
        (let wlen = (if remain > 128 then 128 else remain);
             (wlen, fd) = fs_write d fd (replicate (nat wlen) 0);
             remain = remain - wlen
         in if remain < 2 ^ 31 then cfg_pad d remain fd else None)
      else Some fd)"

declare cfg_pad.simps [code]

text \<open>Both write functions up to the second seek.\<close>

definition cfg_seek :: "cfg_disk \<Rightarrow> cfg_fd \<Rightarrow> nat \<Rightarrow> (int \<times> cfg_fd) option" where
  "cfg_seek d fd ofs = (let (pos, fd) = fs_lseek d fd ofs in
     if pos < int ofs
     then map_option (\<lambda>fd. fs_lseek d fd ofs) (cfg_pad d (int ofs - pos) fd)
     else Some (fs_lseek d fd ofs))"

definition board_cfg_justwrite :: "cfg_disk \<Rightarrow> nat \<Rightarrow> byte list \<Rightarrow> (int \<times> cfg_disk) option" where
  "board_cfg_justwrite d ofs obj = (case fs_open d True of
     None \<Rightarrow> Some (0, d)
   | Some fd \<Rightarrow> (case cfg_seek d fd ofs of
       None \<Rightarrow> None
     | Some (pos, fd) \<Rightarrow> (let
         (writelen, fd) = (if pos = int ofs then fs_write d fd obj else (0, fd))
         in Some (writelen, fs_close d fd))))"

definition board_cfg_write :: "cfg_disk \<Rightarrow> nat \<Rightarrow> byte list \<Rightarrow> (bool \<times> cfg_disk) option" where
  "board_cfg_write d ofs pcfg = (case fs_open d True of
     None \<Rightarrow> Some (False, d)
   | Some fd \<Rightarrow> (case cfg_seek d fd ofs of
       None \<Rightarrow> None
     | Some (pos, fd) \<Rightarrow> (let
         len = length pcfg;
         (ret, fd) =
           (if pos = int ofs then let
              (n, fd) = fs_write d fd (bytes_le32 CFG_MAGIC)
              in if n = 4 then let
                (n, fd) = fs_write d fd pcfg
                in if n = int len then let
                  (n, fd) = fs_write d fd (bytes_le16 (usMBCRC16 pcfg (word_of_nat len)))
                  in (n = 2, fd)
                else (False, fd)
              else (False, fd)
            else (False, fd))
         in Some (ret, fs_close d fd))))"

text \<open>
  Start and deletion of the file. \<open>cfg_info_t\<close> has one member and one byte; \<open>recover\<close> is
  \<open>_cfg_recover_0_2_1\<close>, which converts the other areas of an old file and returns the disk.
\<close>

definition cfg_recover_try :: "(cfg_disk \<Rightarrow> byte \<times> cfg_disk) \<Rightarrow> byte \<Rightarrow> cfg_disk \<Rightarrow> bool \<times> byte \<times> cfg_disk" where
  "cfg_recover_try recover usVer d =
     (if usVer \<noteq> CFG_VER then
        (if usVer = 0 \<and> CFG_VER = 1
         then (case recover d of (usVer, d) \<Rightarrow> (True, usVer, d))
         else (True, usVer, d))
      else (False, usVer, d))"

definition board_cfg_init :: "(cfg_disk \<Rightarrow> byte \<times> cfg_disk) \<Rightarrow> byte \<Rightarrow> cfg_disk \<Rightarrow> (byte \<times> cfg_disk) option" where
  "board_cfg_init recover usVer d = (let
     (ok, img, d) = board_cfg_read d CFG_INFO_OFS [usVer];
     usVer = hd img
     in do {
       (usVer, d) \<leftarrow> (if ok then Some (usVer, d)
          else map_option (\<lambda>(_, d). (CFG_VER, d)) (board_cfg_write d CFG_INFO_OFS [CFG_VER]));
       Some (snd (cfg_recover_try recover usVer d)) })"

definition board_cfg_del :: "byte \<Rightarrow> byte list \<Rightarrow> cfg_disk \<Rightarrow> cfg_disk option" where
  "board_cfg_del usVer reg d = do {
     let d = d\<lparr>d_file := None\<rparr>;
     (_, d) \<leftarrow> board_cfg_write d CFG_INFO_OFS [usVer];
     (_, d) \<leftarrow> board_cfg_write d REG_CFG_OFS reg;
     Some d }"

section \<open>The checksum is the division of the HJ/T 212 polynomial\<close>

lemma mb_table: "map2 le16 aucCRCHi aucCRCLo = map (\<lambda>i. crc_byte_r poly_a001 (word_of_nat i)) [0..<256]"
  by (simp only: aucCRCHi_def aucCRCLo_def upt_256 list.map zip_Cons_Cons zip_Nil prod.case)
    (simp add: poly_a001_def crc_byte_r_def crc_bit_r_def le16_def)

lemma length_mb_tables: "length aucCRCHi = 256" "length aucCRCLo = 256"
  by (simp_all add: aucCRCHi_def aucCRCLo_def)

text \<open>The pair of bytes as one register.\<close>

definition mb_reg :: "byte \<times> byte \<Rightarrow> u16" where
  "mb_reg c = le16 (snd c) (fst c)"

lemma mb_reg_inj: "mb_reg c = mb_reg c' \<Longrightarrow> c = c'"
  by (simp add: mb_reg_def le16_eq_iff prod_eq_iff)

lemma mb_reg_upd: "mb_reg (mb_crc_upd c b) = crc_byte_r poly_a001 (mb_reg c XOR ucast b)"
proof -
  obtain hi lo where c: "c = (hi, lo)" by fastforce
  let ?i = "lo XOR b"
  have i: "unat ?i < 256" using unsigned_less [of ?i] by simp
  have "map2 le16 aucCRCHi aucCRCLo ! unat ?i = crc_byte_r poly_a001 (word_of_nat (unat ?i))"
    unfolding mb_table using i by simp
  then have tab: "le16 (aucCRCHi ! unat ?i) (aucCRCLo ! unat ?i) = crc_byte_r poly_a001 (ucast ?i)"
    using i by (simp add: length_mb_tables)
  have low: "(mb_reg c XOR ucast b) AND 0xFF = ucast ?i"
    unfolding c mb_reg_def and_FF
    by (rule bit_word_eqI) (auto simp: le16_def bit_simps dest: bit_imp_le_length)
  have high: "drop_bit 8 (mb_reg c XOR ucast b) = ucast hi"
    unfolding c mb_reg_def
    by (rule bit_word_eqI) (auto simp: le16_def bit_simps dest: bit_imp_le_length)
  have "mb_reg (mb_crc_upd c b) = le16 (hi XOR aucCRCHi ! unat ?i) (aucCRCLo ! unat ?i)"
    by (simp add: mb_reg_def mb_crc_upd_def c Let_def)
  also have "\<dots> = le16 (aucCRCHi ! unat ?i) (aucCRCLo ! unat ?i) XOR ucast hi"
    by (rule bit_word_eqI) (auto simp: le16_def bit_simps dest: bit_imp_le_length)
  also have "\<dots> = crc_byte_r poly_a001 (mb_reg c XOR ucast b)"
    by (subst crc_byte_r_split) (simp only: tab low high)
  finally show ?thesis .
qed

lemmas crc_byte_r_a001_inj = crc_byte_r_inj [OF bit_poly_a001]

interpretation mbcrc: byte_check mb_crc_upd "\<lambda>c. c"
proof
  fix c c' :: "byte \<times> byte" and b b' :: byte
  assume "mb_crc_upd c b = mb_crc_upd c b'"
  then have "crc_byte_r poly_a001 (mb_reg c XOR ucast b) = crc_byte_r poly_a001 (mb_reg c XOR ucast b')"
    by (simp flip: mb_reg_upd)
  then have "(ucast b :: u16) = ucast b'" by (auto dest: crc_byte_r_a001_inj)
  then show "b = b'" by (rule ucast_byte_inj [rotated]) simp
next
  fix c c' :: "byte \<times> byte" and b :: byte
  assume "mb_crc_upd c b = mb_crc_upd c' b"
  then have "crc_byte_r poly_a001 (mb_reg c XOR ucast b) = crc_byte_r poly_a001 (mb_reg c' XOR ucast b)"
    by (simp flip: mb_reg_upd)
  then have "mb_reg c XOR ucast b = mb_reg c' XOR ucast b" by (rule crc_byte_r_a001_inj)
  then show "c = c'" by (simp add: mb_reg_inj)
qed

lemma usMBCRC16_reg: "usMBCRC16 xs n = mb_reg (foldl mb_crc_upd (0xFF, 0xFF) (take (unat n) xs))"
  by (simp add: usMBCRC16_def mb_reg_def le16_def or.commute split: prod.splits)

lemma usMBCRC16_division:
  "usMBCRC16 xs n = foldl (\<lambda>r b. crc_byte_r poly_a001 (r XOR ucast b)) 0xFFFF (take (unat n) xs)"
proof -
  have "mb_reg (foldl mb_crc_upd c ys) = foldl (\<lambda>r b. crc_byte_r poly_a001 (r XOR ucast b)) (mb_reg c) ys"
    for c ys by (induction ys arbitrary: c) (simp_all add: mb_reg_upd)
  then show ?thesis by (simp add: usMBCRC16_reg mb_reg_def le16_def)
qed

lemma usMBCRC16_byte:
  assumes "length xs < 2 ^ 16" "i < length xs" "b \<noteq> xs ! i"
  shows "usMBCRC16 (xs[i := b]) (word_of_nat (length xs)) \<noteq> usMBCRC16 xs (word_of_nat (length xs))"
proof
  assume eq: "usMBCRC16 (xs[i := b]) (word_of_nat (length xs)) = usMBCRC16 xs (word_of_nat (length xs))"
  have n: "unat (word_of_nat (length xs) :: u16) = length xs"
    using assms(1) by (simp add: unat_of_nat)
  have "foldl mb_crc_upd (0xFF, 0xFF) (take i xs @ b # drop (Suc i) xs)
      = foldl mb_crc_upd (0xFF, 0xFF) (take i xs @ xs ! i # drop (Suc i) xs)"
    using mb_reg_inj [OF eq [unfolded usMBCRC16_reg]] assms(2)
    by (simp add: n upd_conv_take_nth_drop id_take_nth_drop [symmetric])
  then show False using assms(3) mbcrc.single_byte by blast
qed

section \<open>Calls on the file\<close>

definition cfg_record :: "byte list \<Rightarrow> byte list" where
  "cfg_record v = bytes_le32 CFG_MAGIC @ v @ bytes_le16 (usMBCRC16 v (word_of_nat (length v)))"

definition cfg_holds :: "cfg_disk \<Rightarrow> nat \<Rightarrow> byte list \<Rightarrow> bool" where
  "cfg_holds d ofs v = (case d_file d of
     None \<Rightarrow> False | Some xs \<Rightarrow> slice xs ofs (length v + 6) = cfg_record v)"

text \<open>A disk that works, with room for all areas.\<close>

definition cfg_works :: "cfg_disk \<Rightarrow> bool" where
  "cfg_works d = (d_opens d \<and> d_fault d = None \<and> XFER_UART_CFG_OFS + XFER_UART_CFG_SIZE \<le> d_room d)"

lemma length_cfg_record [simp]: "length (cfg_record v) = length v + 6"
  by (simp add: cfg_record_def)

lemma CFG_MAGIC_bytes: "bytes_le32 CFG_MAGIC = [0xED, 0xF4, 0xBC, 0xD6]"
  by (simp add: CFG_MAGIC_def bytes_le32_def)

lemma fs_lseek_read:
  assumes "fs_lseek d fd ofs = (int ofs, fd')" "\<not> f_write fd"
  shows "f_data fd' = f_data fd \<and> f_pos fd' = min ofs (length (f_data fd)) \<and> \<not> f_write fd'"
  using assms by (auto simp: fs_lseek_def fs_call_def Let_def split: option.splits nat.splits)

lemma take_to_end: "take (min (length xs - i) n) (drop i xs) = take n (drop i xs)"
  by (simp add: min_def)

lemma fs_read_run:
  assumes "fs_read fd n = (r, got, fd')"
  shows "f_data fd' = f_data fd \<and> got = slice (f_data fd) (f_pos fd) (length got)
    \<and> f_pos fd' = f_pos fd + length got \<and> length got \<le> n \<and> (0 \<le> r \<longrightarrow> r = int (length got))"
  using assms
  by (auto simp: fs_read_def fs_call_def Let_def slice_def take_to_end split: option.splits nat.splits)

lemma slice_join: "slice xs i m @ slice xs (i + m) n = slice xs i (m + n)"
  by (simp add: slice_def take_add add.commute)

lemma slice_three: "slice xs i (n + 6) = slice xs i 4 @ slice xs (i + 4) n @ slice xs (i + 4 + n) 2"
proof -
  have "slice xs i (4 + (n + 2)) = slice xs i 4 @ slice xs (i + 4) n @ slice xs (i + 4 + n) 2"
    by (simp only: slice_join [symmetric])
  then show ?thesis by (simp add: add.commute)
qed

lemma magic_padded:
  assumes eq: "m @ replicate (4 - length m) 0 = bytes_le32 CFG_MAGIC" and le: "length m \<le> 4"
  shows "m = bytes_le32 CFG_MAGIC"
proof (cases "length m = 4")
  case True
  then show ?thesis using eq by simp
next
  case False
  have "last (m @ replicate (4 - length m) 0) = (0xD6 :: byte)"
    unfolding eq CFG_MAGIC_bytes by simp
  then show ?thesis using le False by (simp add: last_append)
qed

text \<open>A read that reports success has found a record of the right length.\<close>

lemma cfg_read_sound:
  assumes "board_cfg_read d ofs p = (True, v, d')"
  shows "length v = length p \<and> cfg_holds d ofs v"
proof -
  obtain fd where fd: "fs_open d False = Some fd"
    using assms by (auto simp: board_cfg_read_def split: option.splits)
  then obtain xs where xs: "d_file d = Some xs" "f_data fd = xs" "\<not> f_write fd"
    by (auto simp: fs_open_def split: if_splits option.splits)
  obtain pos fd1 where s: "fs_lseek d fd ofs = (pos, fd1)" by fastforce
  obtain r m fd2 where m: "fs_read fd1 4 = (r, m, fd2)" using prod_cases3 by blast
  obtain n got fd3 where g: "fs_read fd2 (length p) = (n, got, fd3)" using prod_cases3 by blast
  define v' where "v' = got @ drop (length got) p"
  obtain n' chk fd4 where c: "fs_read fd3 2 = (n', chk, fd4)" using prod_cases3 by blast
  note all = assms [unfolded board_cfg_read_def fd option.case s m g c Let_def prod.case, folded v'_def]
  have pos: "pos = int ofs" using all by (auto split: if_splits)
  have mm: "m @ replicate (4 - length m) 0 = bytes_le32 CFG_MAGIC"
    using all by (auto split: if_splits)
  have n: "n = int (length p)" using all pos mm by (auto split: if_splits)
  have n': "n' = 2" using all pos mm n by (auto split: if_splits)
  have chk: "chk = bytes_le16 (usMBCRC16 v' (word_of_nat (length p)))" and v: "v = v'"
    using all pos mm n n' by (simp_all add: m g c v'_def)
  have 1: "f_data fd1 = xs" "f_pos fd1 = min ofs (length xs)"
    using fs_lseek_read [of d fd ofs fd1] s pos xs by simp_all
  have 2: "f_data fd2 = xs" "m = bytes_le32 CFG_MAGIC" "m = slice xs (f_pos fd1) 4" "f_pos fd2 = f_pos fd1 + 4"
    using fs_read_run [OF m] magic_padded [OF mm] 1 by simp_all
  have 3: "f_data fd3 = xs" "got = slice xs (f_pos fd2) (length p)" "length got = length p"
    "f_pos fd3 = f_pos fd2 + length p"
    using fs_read_run [OF g] 2 n by simp_all
  have 4: "chk = slice xs (f_pos fd3) 2"
  proof -
    have len: "length chk = 2" and eq: "chk = slice (f_data fd3) (f_pos fd3) (length chk)"
      using fs_read_run [OF c] n' by auto
    from eq show ?thesis unfolding len 3(1) .
  qed
  have "ofs < length xs"
  proof (rule ccontr)
    assume "\<not> ofs < length xs"
    then have "slice xs (f_pos fd1) 4 = []" using 1 by (simp add: slice_def)
    then show False using 2 by (simp add: CFG_MAGIC_bytes)
  qed
  then have pos1: "f_pos fd1 = ofs" using 1 by simp
  have "cfg_record v = slice xs ofs 4 @ slice xs (ofs + 4) (length p) @ slice xs (ofs + 4 + length p) 2"
    using 2 3 4 chk pos1 by (simp add: cfg_record_def v v'_def)
  also have "\<dots> = slice xs ofs (length v + 6)"
    using 3 by (simp add: slice_three v v'_def)
  finally show ?thesis using 3 by (simp add: cfg_holds_def xs v v'_def)
qed

text \<open>On a disk that works, reading and writing by what they leave.\<close>

lemma fs_call_works [simp]: "f_fault fd = None \<Longrightarrow> fs_call fd = Some fd"
  by (simp add: fs_call_def)

lemma cfg_read_complete:
  assumes d: "d_opens d" "d_fault d = None" and v: "cfg_holds d ofs v" and len: "length p = length v"
  shows "board_cfg_read d ofs p = (True, v, d)"
proof -
  obtain xs where xs: "d_file d = Some xs" "slice xs ofs (length v + 6) = cfg_record v"
    using v by (auto simp: cfg_holds_def split: option.splits)
  then have "length (slice xs ofs (length v + 6)) = length v + 6" by simp
  then have bound: "ofs + length v + 6 \<le> length xs" by (auto simp: slice_def)
  have "slice xs ofs 4 @ slice xs (ofs + 4) (length v) @ slice xs (ofs + 4 + length v) 2
      = cfg_record v" using xs(2) by (simp only: slice_three)
  then have parts: "slice xs ofs 4 = bytes_le32 CFG_MAGIC" "slice xs (ofs + 4) (length v) = v"
    "slice xs (ofs + 4 + length v) 2 = bytes_le16 (usMBCRC16 v (word_of_nat (length v)))"
    using bound by (auto simp: cfg_record_def append_eq_append_conv)
  show ?thesis
    using d xs(1) bound parts
    by (simp add: board_cfg_read_def fs_open_def fs_lseek_def fs_read_def fs_close_def len
        slice_def Let_def)
qed

lemma fs_write_works:
  assumes "f_fault fd = None" "f_pos fd + length bs \<le> d_room d"
  shows "fs_write d fd bs = (int (length bs),
    fd\<lparr>f_data := blit (f_data fd) (f_pos fd) bs, f_pos := f_pos fd + length bs\<rparr>)"
  using assms by (simp add: fs_write_def blit_def Let_def)

lemma blit_blit: "i \<le> length xs \<Longrightarrow> blit (blit xs i a) (i + length a) b = blit xs i (a @ b)"
  by (simp add: blit_def min_def ac_simps)

text \<open>The file stretched to an offset, and what a successful write makes of it.\<close>

definition cfg_stretch :: "cfg_disk \<Rightarrow> nat \<Rightarrow> byte list" where
  "cfg_stretch d ofs = (let xs = (case d_file d of None \<Rightarrow> [] | Some xs \<Rightarrow> xs)
     in xs @ map (d_stale d) [length xs ..< ofs])"

definition cfg_written :: "cfg_disk \<Rightarrow> nat \<Rightarrow> byte list \<Rightarrow> cfg_disk" where
  "cfg_written d ofs v = d\<lparr>d_file := Some (blit (cfg_stretch d ofs) ofs (cfg_record v))\<rparr>"

lemma cfg_stretch_bound: "ofs \<le> length (cfg_stretch d ofs)"
  by (simp add: cfg_stretch_def Let_def)

lemma cfg_seek_works:
  assumes "f_fault fd = None" "f_write fd" "ofs \<le> d_room d"
  shows "cfg_seek d fd ofs =
    Some (int ofs, fd\<lparr>f_data := f_data fd @ map (d_stale d) [length (f_data fd) ..< ofs], f_pos := ofs\<rparr>)"
  using assms by (simp add: cfg_seek_def fs_lseek_def Let_def min_def)

lemma cfg_write_works:
  assumes "d_opens d" "d_fault d = None" "ofs + length v + 6 \<le> d_room d"
  shows "board_cfg_write d ofs v = Some (True, cfg_written d ofs v)"
proof -
  define xs where "xs = (case d_file d of None \<Rightarrow> [] | Some xs \<Rightarrow> xs)"
  have open': "fs_open d True = Some \<lparr>f_data = xs, f_pos = 0, f_write = True, f_fault = None\<rparr>"
    using assms by (simp add: fs_open_def xs_def split: option.splits)
  have ys: "cfg_stretch d ofs = xs @ map (d_stale d) [length xs ..< ofs]"
    by (simp add: cfg_stretch_def xs_def Let_def)
  have eq: "blit (blit (blit (cfg_stretch d ofs) ofs (bytes_le32 CFG_MAGIC)) (ofs + 4) v) (ofs + 4 + length v)
      (bytes_le16 (usMBCRC16 v (word_of_nat (length v)))) = blit (cfg_stretch d ofs) ofs (cfg_record v)"
    using blit_blit [of ofs "cfg_stretch d ofs" "bytes_le32 CFG_MAGIC" v]
      blit_blit [of ofs "cfg_stretch d ofs" "bytes_le32 CFG_MAGIC @ v"]
    by (simp add: cfg_record_def add.assoc cfg_stretch_bound)
  show ?thesis
    using assms
    by (simp add: board_cfg_write_def open' cfg_seek_works fs_write_works fs_close_def
        cfg_written_def eq flip: ys)
qed

lemma cfg_written_works [simp]:
  "d_opens (cfg_written d ofs v) = d_opens d" "d_fault (cfg_written d ofs v) = d_fault d"
  "d_room (cfg_written d ofs v) = d_room d"
  by (simp_all add: cfg_written_def)

lemma slice_blit: "i \<le> length xs \<Longrightarrow> slice (blit xs i a) i (length a) = a"
  by (simp add: slice_def blit_def)

lemma cfg_written_holds: "cfg_holds (cfg_written d ofs v) ofs v"
  using slice_blit [of ofs "cfg_stretch d ofs" "cfg_record v"]
  by (simp add: cfg_holds_def cfg_written_def cfg_stretch_bound)

text \<open>A record elsewhere in the file survives a write.\<close>

lemma slice_blit_other:
  assumes "i + length a \<le> j \<or> j + n \<le> i" "j + n \<le> length xs" "i \<le> length xs"
  shows "slice (blit xs i a) j n = slice xs j n"
  using assms(1)
proof
  assume "i + length a \<le> j"
  then have "drop j (blit xs i a) = drop j xs" using assms(3) by (simp add: blit_def min_def)
  then show ?thesis by (simp add: slice_def)
next
  assume "j + n \<le> i"
  then show ?thesis using assms(2,3) by (auto simp: slice_def blit_def drop_take min_def)
qed

lemma cfg_written_other:
  assumes holds: "cfg_holds d ofs' v'"
    and apart: "ofs + length v + 6 \<le> ofs' \<or> ofs' + length v' + 6 \<le> ofs"
  shows "cfg_holds (cfg_written d ofs v) ofs' v'"
proof -
  obtain xs where xs: "d_file d = Some xs" "slice xs ofs' (length v' + 6) = cfg_record v'"
    using holds by (auto simp: cfg_holds_def split: option.splits)
  then have "length (slice xs ofs' (length v' + 6)) = length v' + 6" by simp
  then have bound: "ofs' + (length v' + 6) \<le> length xs" by (auto simp: slice_def)
  have "slice (blit (cfg_stretch d ofs) ofs (cfg_record v)) ofs' (length v' + 6)
      = slice (cfg_stretch d ofs) ofs' (length v' + 6)"
    using bound apart xs(1) by (intro slice_blit_other) (auto simp: cfg_stretch_def Let_def)
  also have "\<dots> = slice xs ofs' (length v' + 6)"
    using bound xs(1) by (simp add: cfg_stretch_def slice_def Let_def)
  finally show ?thesis using xs by (simp add: cfg_holds_def cfg_written_def)
qed

text \<open>Changing one byte of a record never gives another record of that length.\<close>

lemma bytes_le16_inj: "bytes_le16 x = bytes_le16 y \<Longrightarrow> x = y"
  unfolding bytes_le16_def by (metis le16_bytes list.inject)

lemma cfg_record_byte:
  assumes len: "length u = length v" "length v < 2 ^ 16"
    and eq: "cfg_record u = (cfg_record v)[j := b]" and j: "j < length v + 6" "b \<noteq> cfg_record v ! j"
  shows False
proof -
  have img: "take (length w) (drop 4 (cfg_record w)) = w" for w
    by (simp add: cfg_record_def)
  have u: "u = take (length v) (drop 4 ((cfg_record v)[j := b]))"
    using img [of u] unfolding eq len(1) by simp
  have "u \<noteq> v"
  proof
    assume "u = v"
    then have "(cfg_record v)[j := b] ! j = cfg_record v ! j" using eq by simp
    then show False using j by simp
  qed
  have j4: "4 \<le> j"
  proof (rule ccontr)
    assume "\<not> 4 \<le> j"
    then show False using u \<open>u \<noteq> v\<close> img [of v] by simp
  qed
  moreover have jl: "j - 4 < length v"
  proof (rule ccontr)
    assume "\<not> j - 4 < length v"
    then show False using u \<open>u \<noteq> v\<close> img [of v] j4 by (simp add: drop_update_swap)
  qed
  ultimately have "u = v[j - 4 := b]"
    using u img [of v] by (simp add: drop_update_swap take_update_swap)
  moreover have "b \<noteq> v ! (j - 4)" using j j4 jl by (simp add: cfg_record_def nth_append)
  moreover have "drop (4 + length u) (cfg_record u) = drop (4 + length u) (cfg_record v)"
    unfolding eq using len j4 jl by simp
  then have "usMBCRC16 u (word_of_nat (length v)) = usMBCRC16 v (word_of_nat (length v))"
    using len by (simp add: cfg_record_def bytes_le16_inj)
  ultimately show False using usMBCRC16_byte [OF len(2) jl] by blast
qed

text \<open>Once the disk has failed, the padding loop counts upwards.\<close>

lemma cfg_pad_fails:
  assumes "f_fault fd = Some 0" "0 < remain"
  shows "cfg_pad d remain fd = None"
  using assms(2)
proof (induction "nat (2 ^ 31 - remain)" arbitrary: remain rule: less_induct)
  case less
  have "fs_write d fd bs = (-1, fd)" for bs
    using assms(1) by (simp add: fs_write_def fs_call_def)
  then show ?case
    using less by (subst cfg_pad.simps) (auto simp: Let_def)
qed

section \<open>What the users of the file rely on\<close>

text \<open>
  A store of areas \<open>'k\<close> in which an image that fits can be written: it reads back, and the
  images in other areas stay. \<open>rd s k n\<close> is the image of \<open>n\<close> bytes that a checked read of area
  \<open>k\<close> accepts, if it accepts one.
\<close>

locale checked_areas =
  fixes ok :: "'s \<Rightarrow> bool"
    and fits :: "'k \<Rightarrow> nat \<Rightarrow> bool"
    and rd :: "'s \<Rightarrow> 'k \<Rightarrow> nat \<Rightarrow> byte list option"
    and wr :: "'s \<Rightarrow> 'k \<Rightarrow> byte list \<Rightarrow> 's"
  assumes ok_wr: "ok s \<Longrightarrow> fits k (length v) \<Longrightarrow> ok (wr s k v)"
    and rd_wr: "ok s \<Longrightarrow> fits k (length v) \<Longrightarrow> rd (wr s k v) k (length v) = Some v"
    and rd_other: "ok s \<Longrightarrow> fits k (length v) \<Longrightarrow> fits k' n \<Longrightarrow> k \<noteq> k' \<Longrightarrow>
      rd s k' n = Some v' \<Longrightarrow> rd (wr s k v) k' n = Some v'"
begin

definition wrs :: "'s \<Rightarrow> ('k \<times> byte list) list \<Rightarrow> 's" where
  "wrs s ws = foldl (\<lambda>s (k, v). wr s k v) s ws"

lemma wrs_ok: "ok s \<Longrightarrow> \<forall>(k, v) \<in> set ws. fits k (length v) \<Longrightarrow> ok (wrs s ws)"
  by (induction ws arbitrary: s) (auto simp: wrs_def ok_wr)

lemma wrs_keep:
  "ok s \<Longrightarrow> \<forall>(k, v) \<in> set ws. fits k (length v) \<Longrightarrow> fits k n \<Longrightarrow> k \<notin> fst ` set ws \<Longrightarrow>
    rd s k n = Some v \<Longrightarrow> rd (wrs s ws) k n = Some v"
  by (induction ws arbitrary: s) (auto simp: wrs_def ok_wr rd_other)

text \<open>The last image written to an area is the one that is read.\<close>

lemma last_written:
  assumes "ok s" "\<forall>(k, v) \<in> set (ws @ (k, v) # ws'). fits k (length v)" "k \<notin> fst ` set ws'"
  shows "rd (wrs s (ws @ (k, v) # ws')) k (length v) = Some v"
proof -
  have "wrs s (ws @ (k, v) # ws') = wrs (wr (wrs s ws) k v) ws'" by (simp add: wrs_def)
  moreover have "ok (wrs s ws)" using assms by (intro wrs_ok) auto
  ultimately show ?thesis using assms by (auto intro!: wrs_keep simp: ok_wr rd_wr)
qed

end

text \<open>The areas of the file, in their order.\<close>

datatype cfg_area = Cfg_Info | Cfg_Dev | Cfg_Reg | Cfg_Uart | Cfg_Net | Cfg_Gprs_Net | Cfg_Gprs_Work
  | Cfg_Tcpip | Cfg_Di | Cfg_Do | Cfg_Analog | Cfg_Auth | Cfg_Storage | Cfg_Host | Cfg_Zigbee
  | Cfg_Xfer_Uart

fun cfg_ofs :: "cfg_area \<Rightarrow> nat" where
  "cfg_ofs Cfg_Info = CFG_INFO_OFS"
| "cfg_ofs Cfg_Dev = DEV_CFG_OFS"
| "cfg_ofs Cfg_Reg = REG_CFG_OFS"
| "cfg_ofs Cfg_Uart = UART_CFG_OFS"
| "cfg_ofs Cfg_Net = NET_CFG_OFS"
| "cfg_ofs Cfg_Gprs_Net = GPRS_NET_CFG_OFS"
| "cfg_ofs Cfg_Gprs_Work = GPRS_WORK_CFG_OFS"
| "cfg_ofs Cfg_Tcpip = TCPIP_CFG_OFS"
| "cfg_ofs Cfg_Di = DI_CFG_OFS"
| "cfg_ofs Cfg_Do = DO_CFG_OFS"
| "cfg_ofs Cfg_Analog = ANALOG_CFG_OFS"
| "cfg_ofs Cfg_Auth = AUTH_CFG_OFS"
| "cfg_ofs Cfg_Storage = STORAGE_CFG_OFS"
| "cfg_ofs Cfg_Host = HOST_CFG_OFS"
| "cfg_ofs Cfg_Zigbee = ZIGBEE_CFG_OFS"
| "cfg_ofs Cfg_Xfer_Uart = XFER_UART_CFG_OFS"

fun cfg_size :: "cfg_area \<Rightarrow> nat" where
  "cfg_size Cfg_Info = CFG_INFO_SIZE"
| "cfg_size Cfg_Dev = DEV_CFG_SIZE"
| "cfg_size Cfg_Reg = REG_CFG_SIZE"
| "cfg_size Cfg_Uart = UART_CFG_SIZE"
| "cfg_size Cfg_Net = NET_CFG_SIZE"
| "cfg_size Cfg_Gprs_Net = GPRS_NET_CFG_SIZE"
| "cfg_size Cfg_Gprs_Work = GPRS_WORK_CFG_SIZE"
| "cfg_size Cfg_Tcpip = TCPIP_CFG_SIZE"
| "cfg_size Cfg_Di = DI_CFG_SIZE"
| "cfg_size Cfg_Do = DO_CFG_SIZE"
| "cfg_size Cfg_Analog = ANALOG_CFG_SIZE"
| "cfg_size Cfg_Auth = AUTH_CFG_SIZE"
| "cfg_size Cfg_Storage = STORAGE_CFG_SIZE"
| "cfg_size Cfg_Host = HOST_CFG_SIZE"
| "cfg_size Cfg_Zigbee = ZIGBEE_CFG_SIZE"
| "cfg_size Cfg_Xfer_Uart = XFER_UART_CFG_SIZE"

definition cfg_fits :: "cfg_area \<Rightarrow> nat \<Rightarrow> bool" where
  "cfg_fits k n = (n + 6 \<le> cfg_size k)"

lemma cfg_area_bound: "cfg_ofs k + cfg_size k \<le> XFER_UART_CFG_OFS + XFER_UART_CFG_SIZE"
  by (cases k) (simp_all add: cfg_layout)

lemma cfg_area_disjoint:
  "k \<noteq> k' \<Longrightarrow> cfg_ofs k + cfg_size k \<le> cfg_ofs k' \<or> cfg_ofs k' + cfg_size k' \<le> cfg_ofs k"
  by (cases k; cases k') (simp_all add: cfg_layout)

lemma cfg_size_bound: "cfg_size k \<le> 2048"
  by (cases k) (simp_all add: cfg_layout)

text \<open>A checked read and a checked write of an area.\<close>

definition cfg_get :: "cfg_disk \<Rightarrow> cfg_area \<Rightarrow> nat \<Rightarrow> byte list option" where
  "cfg_get d k n = (case board_cfg_read d (cfg_ofs k) (replicate n 0) of
     (ret, v, _) \<Rightarrow> if ret then Some v else None)"

definition cfg_put :: "cfg_disk \<Rightarrow> cfg_area \<Rightarrow> byte list \<Rightarrow> cfg_disk" where
  "cfg_put d k v = (case board_cfg_write d (cfg_ofs k) v of None \<Rightarrow> d | Some (_, d) \<Rightarrow> d)"

lemma cfg_get_holds:
  "cfg_get d k n = Some v \<Longrightarrow> length v = n \<and> cfg_holds d (cfg_ofs k) v"
  using cfg_read_sound [of d "cfg_ofs k" "replicate n 0" v]
  by (auto simp: cfg_get_def split: prod.splits if_splits)

lemma cfg_get_complete:
  "cfg_works d \<Longrightarrow> cfg_holds d (cfg_ofs k) v \<Longrightarrow> cfg_get d k (length v) = Some v"
  using cfg_read_complete [of d "cfg_ofs k" v "replicate (length v) 0"]
  by (simp add: cfg_get_def cfg_works_def)

lemma cfg_write_fits:
  "cfg_works d \<Longrightarrow> cfg_fits k (length v) \<Longrightarrow>
    board_cfg_write d (cfg_ofs k) v = Some (True, cfg_written d (cfg_ofs k) v)"
  using cfg_area_bound [of k] by (intro cfg_write_works) (auto simp: cfg_works_def cfg_fits_def)

lemma cfg_put_fits:
  "cfg_works d \<Longrightarrow> cfg_fits k (length v) \<Longrightarrow> cfg_put d k v = cfg_written d (cfg_ofs k) v"
  by (simp add: cfg_put_def cfg_write_fits)

lemma cfg_works_written [simp]: "cfg_works (cfg_written d ofs v) = cfg_works d"
  by (simp add: cfg_works_def)

interpretation cfg: checked_areas cfg_works cfg_fits cfg_get cfg_put
proof
  fix d k k' and v v' :: "byte list" and n
  assume d: "cfg_works d" and k: "cfg_fits k (length v)"
  then show "cfg_works (cfg_put d k v)" by (simp add: cfg_put_fits)
  show "cfg_get (cfg_put d k v) k (length v) = Some v"
    using d k by (simp add: cfg_put_fits cfg_get_complete cfg_written_holds)
  assume "cfg_fits k' n" "k \<noteq> k'" "cfg_get d k' n = Some v'"
  then have k': "cfg_fits k' (length v')" "cfg_holds d (cfg_ofs k') v'" "length v' = n"
    using cfg_get_holds [of d k' n v'] by simp_all
  have "cfg_holds (cfg_written d (cfg_ofs k) v) (cfg_ofs k') v'"
    using cfg_area_disjoint [OF \<open>k \<noteq> k'\<close>] k k'
    by (intro cfg_written_other) (auto simp: cfg_fits_def)
  then show "cfg_get (cfg_put d k v) k' n = Some v'"
    using cfg_get_complete [of "cfg_put d k v" k' v'] d k k' by (simp add: cfg_put_fits)
qed

text \<open>A sequence of checked writes, all of which have to end.\<close>

fun cfg_writes :: "(cfg_area \<times> byte list) list \<Rightarrow> cfg_disk \<Rightarrow> cfg_disk option" where
  "cfg_writes [] d = Some d"
| "cfg_writes ((k, v) # ws) d = do {
     (_, d) \<leftarrow> board_cfg_write d (cfg_ofs k) v;
     cfg_writes ws d }"

lemma cfg_writes_wrs:
  "cfg_works d \<Longrightarrow> \<forall>(k, v) \<in> set ws. cfg_fits k (length v) \<Longrightarrow>
    cfg_writes ws d = Some (cfg.wrs d ws)"
  by (induction ws d rule: cfg_writes.induct)
    (auto simp: cfg.wrs_def cfg_write_fits cfg_put_fits)

section \<open>Properties\<close>

text \<open>
  C19. Settings survive. On a disk that works, any sequence of checked writes of images that fit
  their areas ends, and afterwards the checked read of each area returns the image that was
  last written to it, whatever was written to the other areas and whatever the file held.
\<close>

theorem cfg_last_written:
  assumes "d_opens d" "d_fault d = None" "XFER_UART_CFG_OFS + XFER_UART_CFG_SIZE \<le> d_room d"
    and "\<forall>(k, v) \<in> set (ws @ (k, v) # ws'). length v + 6 \<le> cfg_size k" "k \<notin> fst ` set ws'"
    and "length p = length v"
  shows "\<exists>d'. cfg_writes (ws @ (k, v) # ws') d = Some d' \<and> board_cfg_read d' (cfg_ofs k) p = (True, v, d')"
proof -
  have d: "cfg_works d" and fit: "\<forall>(k, v) \<in> set (ws @ (k, v) # ws'). cfg_fits k (length v)"
    using assms by (auto simp: cfg_works_def cfg_fits_def)
  let ?d = "cfg.wrs d (ws @ (k, v) # ws')"
  have "cfg_works ?d" "cfg_holds ?d (cfg_ofs k) v"
    using cfg.wrs_ok [OF d fit] cfg.last_written [OF d fit assms(5)] cfg_get_holds by auto
  then show ?thesis
    using cfg_writes_wrs [OF d fit] assms(6) cfg_read_complete by (auto simp: cfg_works_def)
qed

theorem cfg_last_written_witness:
  "let d = \<lparr>d_file = Some [1, 2, 3], d_opens = True, d_room = 65536, d_stale = (\<lambda>_. 7), d_fault = None\<rparr>
   in \<exists>d'. cfg_writes ([(Cfg_Host, [1])] @ (Cfg_Auth, [5, 6]) # [(Cfg_Host, [2]), (Cfg_Info, [1])]) d = Some d'
     \<and> board_cfg_read d' (cfg_ofs Cfg_Auth) [0, 0] = (True, [5, 6], d')"
  unfolding Let_def by (rule cfg_last_written) (simp_all add: cfg_layout)

text \<open>
  No damaged area is taken for a valid one: after a write, a change of any one byte of the
  record (magic number, image or checksum) makes the checked read fail.
\<close>

theorem cfg_damage_detected:
  assumes "d_opens d" "d_fault d = None" "ofs + length v + 6 \<le> d_room d" "length v < 2 ^ 16"
    and "board_cfg_write d ofs v = Some (ret, d')" "d_file d' = Some xs"
    and "ofs \<le> i" "i < ofs + length v + 6" "b \<noteq> xs ! i" "length p = length v"
  shows "ret \<and> \<not> fst (board_cfg_read (d'\<lparr>d_file := Some (xs[i := b])\<rparr>) ofs p)"
proof
  have w: "ret" "d' = cfg_written d ofs v" using assms cfg_write_works by simp_all
  then show ret by simp
  define j where "j = i - ofs"
  have holds: "slice xs ofs (length v + 6) = cfg_record v"
    using cfg_written_holds [of d ofs v] assms(6) w(2) by (simp add: cfg_holds_def)
  then have "length (slice xs ofs (length v + 6)) = length v + 6" by simp
  then have bound: "ofs + length v + 6 \<le> length xs" by (auto simp: slice_def)
  have ys: "slice (xs[i := b]) ofs (length v + 6) = (cfg_record v)[j := b]"
    using assms(7,8) holds by (simp add: slice_def drop_update_swap take_update_swap j_def)
  have j: "j < length v + 6" "b \<noteq> cfg_record v ! j"
    using assms(7-9) bound by (auto simp: j_def slice_def simp flip: holds)
  show "\<not> fst (board_cfg_read (d'\<lparr>d_file := Some (xs[i := b])\<rparr>) ofs p)"
  proof
    assume "fst (board_cfg_read (d'\<lparr>d_file := Some (xs[i := b])\<rparr>) ofs p)"
    then obtain u d'' where "board_cfg_read (d'\<lparr>d_file := Some (xs[i := b])\<rparr>) ofs p = (True, u, d'')"
      by (cases "board_cfg_read (d'\<lparr>d_file := Some (xs[i := b])\<rparr>) ofs p") auto
    from cfg_read_sound [OF this] have "length u = length v" "cfg_record u = (cfg_record v)[j := b]"
      using assms(10) ys by (auto simp: cfg_holds_def)
    then show False using cfg_record_byte j assms(4) by blast
  qed
qed

theorem cfg_damage_detected_witness:
  "let d = \<lparr>d_file = None, d_opens = True, d_room = 65536, d_stale = (\<lambda>_. 7), d_fault = None\<rparr>
   in \<not> fst (board_cfg_read (d\<lparr>d_file := Some ([0xED, 0xF4, 0xBC, 0xD6, 0xFF, 0xFF, 0x00][3 := 0])\<rparr>) 0 [9])"
proof -
  let ?d = "\<lparr>d_file = None, d_opens = True, d_room = 65536, d_stale = (\<lambda>_. 7), d_fault = None\<rparr> :: cfg_disk"
  have w: "board_cfg_write ?d 0 [0xFF] =
      Some (True, ?d\<lparr>d_file := Some [0xED, 0xF4, 0xBC, 0xD6, 0xFF, 0xFF, 0x00]\<rparr>)"
    by (simp add: cfg_write_works cfg_written_def cfg_stretch_def blit_def cfg_record_def
        CFG_MAGIC_bytes usMBCRC16_def mb_crc_upd_def aucCRCHi_def aucCRCLo_def bytes_le16_def)
  show ?thesis
    using cfg_damage_detected [OF _ _ _ _ w, of "[0xED, 0xF4, 0xBC, 0xD6, 0xFF, 0xFF, 0x00]" 3 0 "[9]"]
    by simp
qed

text \<open>
  When the first seek of a checked write fails, the write does not return: the failed seek
  gives -1, so the padding loop starts, its writes fail too, and each failure makes
  \<open>remain\<close> larger. (The configuration mutex stays taken.)
\<close>

theorem cfg_write_hangs:
  assumes "d_opens d" "d_fault d = Some 0"
  shows "board_cfg_write d ofs pcfg = None \<and> board_cfg_justwrite d ofs pcfg = None"
proof -
  obtain fd where fd: "fs_open d True = Some fd" "f_fault fd = Some 0"
    using assms by (cases "d_file d") (auto simp: fs_open_def)
  then have "fs_lseek d fd ofs = (-1, fd)" by (simp add: fs_lseek_def fs_call_def)
  then have "cfg_seek d fd ofs = None"
    using cfg_pad_fails [OF fd(2)] by (simp add: cfg_seek_def)
  then show ?thesis by (simp add: board_cfg_write_def board_cfg_justwrite_def fd(1))
qed

theorem cfg_write_hangs_witness:
  "board_cfg_write \<lparr>d_file = None, d_opens = True, d_room = 65536, d_stale = (\<lambda>_. 0), d_fault = Some 0\<rparr>
     REG_CFG_OFS [1, 2, 3] = None"
  using cfg_write_hangs [of "\<lparr>d_file = None, d_opens = True, d_room = 65536, d_stale = (\<lambda>_. 0), d_fault = Some 0\<rparr>"
    REG_CFG_OFS "[1, 2, 3]"] by simp

end
