(* ===== verification/Sha.thy ===== *)
theory Sha
  imports BlockHash
begin

text \<open>
  The digest of the registration code, \<open>reg/rtu_sha.c\<close>: the SHA-1 construction with its own
  initial value and round constants. A context holds the chaining value, the number of
  blocks, the 64 bytes of the open block and how many of them are used; the final call leaves
  the digest in the first 20 bytes of the block buffer.

  Shown: the unrolled transform with its circular schedule of 16 words is the loop of 80 steps
  over the expanded message; any sequence of writes followed by the final call gives the
  digest of the concatenated text; a length that the caller does not back with data is the
  only way to read outside a buffer.
\<close>

section \<open>The transform\<close>

record RTU_SHA1_CONTEXT =
  sh_h0 :: u32
  sh_h1 :: u32
  sh_h2 :: u32
  sh_h3 :: u32
  sh_h4 :: u32
  sh_nblocks :: u32
  sh_buf :: "byte list"
  sh_count :: nat

definition rtu_sha1_init :: "RTU_SHA1_CONTEXT \<Rightarrow> RTU_SHA1_CONTEXT" where
  "rtu_sha1_init ctx = ctx\<lparr>sh_h0 := 0x124a5cbf, sh_h1 := 0x36edb5fc, sh_h2 := 0xf5d7810a,
     sh_h3 := 0x25864753, sh_h4 := 0xadcfedbe, sh_nblocks := 0, sh_count := 0\<rparr>"

definition sha1_K1 :: u32 where "sha1_K1 = 0x15fc7893"
definition sha1_K2 :: u32 where "sha1_K2 = 0x7182fcae"
definition sha1_K3 :: u32 where "sha1_K3 = 0x97fceda0"
definition sha1_K4 :: u32 where "sha1_K4 = 0xfb7450ca"

definition sha1_F1 :: "u32 \<Rightarrow> u32 \<Rightarrow> u32 \<Rightarrow> u32" where
  "sha1_F1 x y z = (z XOR (x AND (y XOR z)))"

definition sha1_F2 :: "u32 \<Rightarrow> u32 \<Rightarrow> u32 \<Rightarrow> u32" where
  "sha1_F2 x y z = (x XOR y XOR z)"

definition sha1_F3 :: "u32 \<Rightarrow> u32 \<Rightarrow> u32 \<Rightarrow> u32" where
  "sha1_F3 x y z = ((x AND y) OR (z AND (x OR y)))"

definition sha1_F4 :: "u32 \<Rightarrow> u32 \<Rightarrow> u32 \<Rightarrow> u32" where
  "sha1_F4 x y z = (x XOR y XOR z)"

text \<open>The macro \<open>M(i)\<close>: the next word of the schedule, kept in the array it is computed from.\<close>

definition sha1_M :: "u32 list \<Rightarrow> nat \<Rightarrow> u32 list \<times> u32" where
  "sha1_M x i = (let
     tm = x ! (i mod 16) XOR x ! ((i - 14) mod 16) XOR x ! ((i - 8) mod 16) XOR x ! ((i - 3) mod 16)
     in (x[i mod 16 := rol32 tm 1], rol32 tm 1))"

text \<open>The macro \<open>R\<close> changes its arguments \<open>e\<close> and \<open>b\<close>.\<close>

definition sha1_R :: "u32 \<Rightarrow> u32 \<Rightarrow> u32 \<Rightarrow> u32 \<Rightarrow> u32 \<Rightarrow> (u32 \<Rightarrow> u32 \<Rightarrow> u32 \<Rightarrow> u32) \<Rightarrow> u32 \<Rightarrow> u32
    \<Rightarrow> u32 \<times> u32" where
  "sha1_R a b c d e f k m = (e + (rol32 a 5 + f b c d + k + m), rol32 b 30)"

text \<open>The 80 steps, 20 to each group; the state is the array \<open>x\<close> and the five variables.\<close>

type_synonym sha1_vars = "u32 list \<times> u32 \<times> u32 \<times> u32 \<times> u32 \<times> u32"

definition sha1_rounds1 :: "sha1_vars \<Rightarrow> sha1_vars" where
  "sha1_rounds1 v = (let
     (x, a, b, c, d, e) = v;
     (e, b) = sha1_R a b c d e sha1_F1 sha1_K1 (x ! 0);
     (d, a) = sha1_R e a b c d sha1_F1 sha1_K1 (x ! 1);
     (c, e) = sha1_R d e a b c sha1_F1 sha1_K1 (x ! 2);
     (b, d) = sha1_R c d e a b sha1_F1 sha1_K1 (x ! 3);
     (a, c) = sha1_R b c d e a sha1_F1 sha1_K1 (x ! 4);
     (e, b) = sha1_R a b c d e sha1_F1 sha1_K1 (x ! 5);
     (d, a) = sha1_R e a b c d sha1_F1 sha1_K1 (x ! 6);
     (c, e) = sha1_R d e a b c sha1_F1 sha1_K1 (x ! 7);
     (b, d) = sha1_R c d e a b sha1_F1 sha1_K1 (x ! 8);
     (a, c) = sha1_R b c d e a sha1_F1 sha1_K1 (x ! 9);
     (e, b) = sha1_R a b c d e sha1_F1 sha1_K1 (x ! 10);
     (d, a) = sha1_R e a b c d sha1_F1 sha1_K1 (x ! 11);
     (c, e) = sha1_R d e a b c sha1_F1 sha1_K1 (x ! 12);
     (b, d) = sha1_R c d e a b sha1_F1 sha1_K1 (x ! 13);
     (a, c) = sha1_R b c d e a sha1_F1 sha1_K1 (x ! 14);
     (e, b) = sha1_R a b c d e sha1_F1 sha1_K1 (x ! 15);
     (x, m) = sha1_M x 16; (d, a) = sha1_R e a b c d sha1_F1 sha1_K1 m;
     (x, m) = sha1_M x 17; (c, e) = sha1_R d e a b c sha1_F1 sha1_K1 m;
     (x, m) = sha1_M x 18; (b, d) = sha1_R c d e a b sha1_F1 sha1_K1 m;
     (x, m) = sha1_M x 19; (a, c) = sha1_R b c d e a sha1_F1 sha1_K1 m
     in (x, a, b, c, d, e))"

definition sha1_rounds2 :: "sha1_vars \<Rightarrow> sha1_vars" where
  "sha1_rounds2 v = (let
     (x, a, b, c, d, e) = v;
     (x, m) = sha1_M x 20; (e, b) = sha1_R a b c d e sha1_F2 sha1_K2 m;
     (x, m) = sha1_M x 21; (d, a) = sha1_R e a b c d sha1_F2 sha1_K2 m;
     (x, m) = sha1_M x 22; (c, e) = sha1_R d e a b c sha1_F2 sha1_K2 m;
     (x, m) = sha1_M x 23; (b, d) = sha1_R c d e a b sha1_F2 sha1_K2 m;
     (x, m) = sha1_M x 24; (a, c) = sha1_R b c d e a sha1_F2 sha1_K2 m;
     (x, m) = sha1_M x 25; (e, b) = sha1_R a b c d e sha1_F2 sha1_K2 m;
     (x, m) = sha1_M x 26; (d, a) = sha1_R e a b c d sha1_F2 sha1_K2 m;
     (x, m) = sha1_M x 27; (c, e) = sha1_R d e a b c sha1_F2 sha1_K2 m;
     (x, m) = sha1_M x 28; (b, d) = sha1_R c d e a b sha1_F2 sha1_K2 m;
     (x, m) = sha1_M x 29; (a, c) = sha1_R b c d e a sha1_F2 sha1_K2 m;
     (x, m) = sha1_M x 30; (e, b) = sha1_R a b c d e sha1_F2 sha1_K2 m;
     (x, m) = sha1_M x 31; (d, a) = sha1_R e a b c d sha1_F2 sha1_K2 m;
     (x, m) = sha1_M x 32; (c, e) = sha1_R d e a b c sha1_F2 sha1_K2 m;
     (x, m) = sha1_M x 33; (b, d) = sha1_R c d e a b sha1_F2 sha1_K2 m;
     (x, m) = sha1_M x 34; (a, c) = sha1_R b c d e a sha1_F2 sha1_K2 m;
     (x, m) = sha1_M x 35; (e, b) = sha1_R a b c d e sha1_F2 sha1_K2 m;
     (x, m) = sha1_M x 36; (d, a) = sha1_R e a b c d sha1_F2 sha1_K2 m;
     (x, m) = sha1_M x 37; (c, e) = sha1_R d e a b c sha1_F2 sha1_K2 m;
     (x, m) = sha1_M x 38; (b, d) = sha1_R c d e a b sha1_F2 sha1_K2 m;
     (x, m) = sha1_M x 39; (a, c) = sha1_R b c d e a sha1_F2 sha1_K2 m
     in (x, a, b, c, d, e))"

definition sha1_rounds3 :: "sha1_vars \<Rightarrow> sha1_vars" where
  "sha1_rounds3 v = (let
     (x, a, b, c, d, e) = v;
     (x, m) = sha1_M x 40; (e, b) = sha1_R a b c d e sha1_F3 sha1_K3 m;
     (x, m) = sha1_M x 41; (d, a) = sha1_R e a b c d sha1_F3 sha1_K3 m;
     (x, m) = sha1_M x 42; (c, e) = sha1_R d e a b c sha1_F3 sha1_K3 m;
     (x, m) = sha1_M x 43; (b, d) = sha1_R c d e a b sha1_F3 sha1_K3 m;
     (x, m) = sha1_M x 44; (a, c) = sha1_R b c d e a sha1_F3 sha1_K3 m;
     (x, m) = sha1_M x 45; (e, b) = sha1_R a b c d e sha1_F3 sha1_K3 m;
     (x, m) = sha1_M x 46; (d, a) = sha1_R e a b c d sha1_F3 sha1_K3 m;
     (x, m) = sha1_M x 47; (c, e) = sha1_R d e a b c sha1_F3 sha1_K3 m;
     (x, m) = sha1_M x 48; (b, d) = sha1_R c d e a b sha1_F3 sha1_K3 m;
     (x, m) = sha1_M x 49; (a, c) = sha1_R b c d e a sha1_F3 sha1_K3 m;
     (x, m) = sha1_M x 50; (e, b) = sha1_R a b c d e sha1_F3 sha1_K3 m;
     (x, m) = sha1_M x 51; (d, a) = sha1_R e a b c d sha1_F3 sha1_K3 m;
     (x, m) = sha1_M x 52; (c, e) = sha1_R d e a b c sha1_F3 sha1_K3 m;
     (x, m) = sha1_M x 53; (b, d) = sha1_R c d e a b sha1_F3 sha1_K3 m;
     (x, m) = sha1_M x 54; (a, c) = sha1_R b c d e a sha1_F3 sha1_K3 m;
     (x, m) = sha1_M x 55; (e, b) = sha1_R a b c d e sha1_F3 sha1_K3 m;
     (x, m) = sha1_M x 56; (d, a) = sha1_R e a b c d sha1_F3 sha1_K3 m;
     (x, m) = sha1_M x 57; (c, e) = sha1_R d e a b c sha1_F3 sha1_K3 m;
     (x, m) = sha1_M x 58; (b, d) = sha1_R c d e a b sha1_F3 sha1_K3 m;
     (x, m) = sha1_M x 59; (a, c) = sha1_R b c d e a sha1_F3 sha1_K3 m
     in (x, a, b, c, d, e))"

definition sha1_rounds4 :: "sha1_vars \<Rightarrow> sha1_vars" where
  "sha1_rounds4 v = (let
     (x, a, b, c, d, e) = v;
     (x, m) = sha1_M x 60; (e, b) = sha1_R a b c d e sha1_F4 sha1_K4 m;
     (x, m) = sha1_M x 61; (d, a) = sha1_R e a b c d sha1_F4 sha1_K4 m;
     (x, m) = sha1_M x 62; (c, e) = sha1_R d e a b c sha1_F4 sha1_K4 m;
     (x, m) = sha1_M x 63; (b, d) = sha1_R c d e a b sha1_F4 sha1_K4 m;
     (x, m) = sha1_M x 64; (a, c) = sha1_R b c d e a sha1_F4 sha1_K4 m;
     (x, m) = sha1_M x 65; (e, b) = sha1_R a b c d e sha1_F4 sha1_K4 m;
     (x, m) = sha1_M x 66; (d, a) = sha1_R e a b c d sha1_F4 sha1_K4 m;
     (x, m) = sha1_M x 67; (c, e) = sha1_R d e a b c sha1_F4 sha1_K4 m;
     (x, m) = sha1_M x 68; (b, d) = sha1_R c d e a b sha1_F4 sha1_K4 m;
     (x, m) = sha1_M x 69; (a, c) = sha1_R b c d e a sha1_F4 sha1_K4 m;
     (x, m) = sha1_M x 70; (e, b) = sha1_R a b c d e sha1_F4 sha1_K4 m;
     (x, m) = sha1_M x 71; (d, a) = sha1_R e a b c d sha1_F4 sha1_K4 m;
     (x, m) = sha1_M x 72; (c, e) = sha1_R d e a b c sha1_F4 sha1_K4 m;
     (x, m) = sha1_M x 73; (b, d) = sha1_R c d e a b sha1_F4 sha1_K4 m;
     (x, m) = sha1_M x 74; (a, c) = sha1_R b c d e a sha1_F4 sha1_K4 m;
     (x, m) = sha1_M x 75; (e, b) = sha1_R a b c d e sha1_F4 sha1_K4 m;
     (x, m) = sha1_M x 76; (d, a) = sha1_R e a b c d sha1_F4 sha1_K4 m;
     (x, m) = sha1_M x 77; (c, e) = sha1_R d e a b c sha1_F4 sha1_K4 m;
     (x, m) = sha1_M x 78; (b, d) = sha1_R c d e a b sha1_F4 sha1_K4 m;
     (x, m) = sha1_M x 79; (a, c) = sha1_R b c d e a sha1_F4 sha1_K4 m
     in (x, a, b, c, d, e))"

text \<open>The loop that fills \<open>x\<close>, the high byte of a word first.\<close>

definition sha1_load :: "byte list \<Rightarrow> u32 list" where
  "sha1_load data = map (\<lambda>i. le32 (data ! (4 * i + 3)) (data ! (4 * i + 2)) (data ! (4 * i + 1))
     (data ! (4 * i))) [0..<16]"

definition sha1_transform :: "RTU_SHA1_CONTEXT \<Rightarrow> byte list \<Rightarrow> RTU_SHA1_CONTEXT" where
  "sha1_transform ctx data = (let
     v = (sha1_load data, sh_h0 ctx, sh_h1 ctx, sh_h2 ctx, sh_h3 ctx, sh_h4 ctx);
     v = sha1_rounds1 v;
     v = sha1_rounds2 v;
     v = sha1_rounds3 v;
     (x, a, b, c, d, e) = sha1_rounds4 v
     in ctx\<lparr>sh_h0 := sh_h0 ctx + a, sh_h1 := sh_h1 ctx + b, sh_h2 := sh_h2 ctx + c,
           sh_h3 := sh_h3 ctx + d, sh_h4 := sh_h4 ctx + e\<rparr>)"

section \<open>Writing and finishing\<close>

text \<open>The first statement of a write, which is all that a write of \<open>NULL\<close> does.\<close>

definition sha1_flush :: "RTU_SHA1_CONTEXT \<Rightarrow> RTU_SHA1_CONTEXT" where
  "sha1_flush ctx = (if sh_count ctx = 64
     then (let ctx = sha1_transform ctx (sh_buf ctx)
           in ctx\<lparr>sh_count := 0, sh_nblocks := sh_nblocks ctx + 1\<rparr>)
     else ctx)"

text \<open>
  The loop \<open>for( ; inlen && hd->count < 64; inlen-- ) hd->buf[hd->count++] = *inbuf++\<close>, with
  what is left of the input and of \<open>inlen\<close>. A read past the input gives \<open>None\<close>.
\<close>

fun sha1_fill :: "RTU_SHA1_CONTEXT \<Rightarrow> byte list \<Rightarrow> int \<Rightarrow> (RTU_SHA1_CONTEXT \<times> byte list \<times> int) option"
where
  "sha1_fill ctx [] inlen = (if inlen \<noteq> 0 \<and> sh_count ctx < 64 then None else Some (ctx, [], inlen))"
| "sha1_fill ctx (b # bs) inlen =
     (if inlen \<noteq> 0 \<and> sh_count ctx < 64
      then sha1_fill (ctx\<lparr>sh_buf := (sh_buf ctx)[sh_count ctx := b], sh_count := sh_count ctx + 1\<rparr>)
             bs (inlen - 1)
      else Some (ctx, b # bs, inlen))"

function sha1_bulk :: "RTU_SHA1_CONTEXT \<Rightarrow> byte list \<Rightarrow> int \<Rightarrow> (RTU_SHA1_CONTEXT \<times> byte list \<times> int) option"
where
  "sha1_bulk ctx inbuf inlen =
     (if inlen \<ge> 64 then
        if length inbuf < 64 then None
        else (let ctx = sha1_transform ctx (take 64 inbuf);
                  ctx = ctx\<lparr>sh_count := 0, sh_nblocks := sh_nblocks ctx + 1\<rparr>
              in sha1_bulk ctx (drop 64 inbuf) (inlen - 64))
      else Some (ctx, inbuf, inlen))"
  by pat_completeness auto
termination by (relation "measure (\<lambda>(ctx, inbuf, inlen). nat inlen)") auto

declare sha1_bulk.simps [simp del]

definition rtu_sha1_write :: "RTU_SHA1_CONTEXT \<Rightarrow> byte list option \<Rightarrow> int \<Rightarrow> RTU_SHA1_CONTEXT option" where
  "rtu_sha1_write ctx inbuf inlen = (let
     ctx = sha1_flush ctx;
     rest = (\<lambda>ctx p inlen. do {
       (ctx, p, inlen) \<leftarrow> sha1_bulk ctx p inlen;
       (ctx, p, inlen) \<leftarrow> sha1_fill ctx p inlen;
       Some ctx })
     in case inbuf of
       None \<Rightarrow> Some ctx
     | Some p \<Rightarrow>
         if sh_count ctx \<noteq> 0 then do {
           (ctx, p, inlen) \<leftarrow> sha1_fill ctx p inlen;
           let ctx = sha1_flush ctx;
           if inlen = 0 then Some ctx else rest ctx p inlen }
         else rest ctx p inlen)"

text \<open>The loops \<open>while( hd->count < limit ) hd->buf[hd->count++] = 0\<close>.\<close>

function sha1_zeros :: "nat \<Rightarrow> RTU_SHA1_CONTEXT \<Rightarrow> RTU_SHA1_CONTEXT" where
  "sha1_zeros limit ctx = (if sh_count ctx < limit
     then sha1_zeros limit (ctx\<lparr>sh_buf := (sh_buf ctx)[sh_count ctx := 0], sh_count := sh_count ctx + 1\<rparr>)
     else ctx)"
  by pat_completeness auto
termination by (relation "measure (\<lambda>(limit, ctx). limit - sh_count ctx)") auto

declare sha1_zeros.simps [simp del]

text \<open>The bit count, high and low word.\<close>

definition sha1_bits :: "RTU_SHA1_CONTEXT \<Rightarrow> u32 \<times> u32" where
  "sha1_bits ctx = (let
     t = sh_nblocks ctx;
     lsb = push_bit 6 t;
     msb = drop_bit 26 t;
     t = lsb;
     lsb = lsb + word_of_nat (sh_count ctx);
     msb = (if lsb < t then msb + 1 else msb);
     t = lsb;
     lsb = push_bit 3 lsb;
     msb = push_bit 3 msb;
     msb = msb OR drop_bit 29 t
     in (msb, lsb))"

definition sha1_pad :: "RTU_SHA1_CONTEXT \<Rightarrow> RTU_SHA1_CONTEXT" where
  "sha1_pad ctx =
     (if sh_count ctx < 56 then
        (let ctx = ctx\<lparr>sh_buf := (sh_buf ctx)[sh_count ctx := 0x80], sh_count := sh_count ctx + 1\<rparr>
         in sha1_zeros 56 ctx)
      else
        (let ctx = ctx\<lparr>sh_buf := (sh_buf ctx)[sh_count ctx := 0x80], sh_count := sh_count ctx + 1\<rparr>;
             ctx = sha1_zeros 64 ctx;
             ctx = sha1_flush ctx
         in ctx\<lparr>sh_buf := replicate 56 0 @ drop 56 (sh_buf ctx)\<rparr>))"

definition rtu_sha1_final :: "RTU_SHA1_CONTEXT \<Rightarrow> RTU_SHA1_CONTEXT" where
  "rtu_sha1_final ctx = (let
     ctx = sha1_flush ctx;
     (msb, lsb) = sha1_bits ctx;
     ctx = sha1_pad ctx;
     ctx = ctx\<lparr>sh_buf := (sh_buf ctx)
       [56 := ucast (drop_bit 24 msb), 57 := ucast (drop_bit 16 msb),
        58 := ucast (drop_bit 8 msb), 59 := ucast msb,
        60 := ucast (drop_bit 24 lsb), 61 := ucast (drop_bit 16 lsb),
        62 := ucast (drop_bit 8 lsb), 63 := ucast lsb]\<rparr>;
     ctx = sha1_transform ctx (sh_buf ctx)
     in ctx\<lparr>sh_buf := bytes_be32 (sh_h0 ctx) @ bytes_be32 (sh_h1 ctx) @ bytes_be32 (sh_h2 ctx) @
          bytes_be32 (sh_h3 ctx) @ bytes_be32 (sh_h4 ctx) @ drop 20 (sh_buf ctx)\<rparr>)"

section \<open>The reference loop\<close>

text \<open>The expanded message and the 80 steps, each of which rotates the five variables.\<close>

fun sha1_W :: "u32 list \<Rightarrow> nat \<Rightarrow> u32" where
  "sha1_W x t = (if t < 16 then x ! t
     else rol32 (sha1_W x (t - 16) XOR sha1_W x (t - 14) XOR sha1_W x (t - 8) XOR sha1_W x (t - 3)) 1)"

declare sha1_W.simps [simp del]

definition sha1_f :: "nat \<Rightarrow> u32 \<Rightarrow> u32 \<Rightarrow> u32 \<Rightarrow> u32" where
  "sha1_f t = (if t < 20 then sha1_F1 else if t < 40 then sha1_F2 else if t < 60 then sha1_F3 else sha1_F4)"

definition sha1_k :: "nat \<Rightarrow> u32" where
  "sha1_k t = (if t < 20 then sha1_K1 else if t < 40 then sha1_K2 else if t < 60 then sha1_K3 else sha1_K4)"

type_synonym sha1_hash = "u32 \<times> u32 \<times> u32 \<times> u32 \<times> u32"

definition sha1_ref_step :: "u32 list \<Rightarrow> sha1_hash \<Rightarrow> nat \<Rightarrow> sha1_hash" where
  "sha1_ref_step x h t = (case h of (a, b, c, d, e) \<Rightarrow>
     (e + (rol32 a 5 + sha1_f t b c d + sha1_k t + sha1_W x t), a, rol32 b 30, c, d))"

definition sha1_compress :: "sha1_hash \<Rightarrow> byte list \<Rightarrow> sha1_hash" where
  "sha1_compress h block = (case h of (h0, h1, h2, h3, h4) \<Rightarrow>
     case foldl (sha1_ref_step (sha1_load block)) h [0..<80] of (a, b, c, d, e) \<Rightarrow>
       (h0 + a, h1 + b, h2 + c, h3 + d, h4 + e))"

section \<open>The unrolled transform is the loop\<close>

text \<open>One step of the code with the roles of the variables rotated.\<close>

definition sha1_step :: "sha1_vars \<Rightarrow> nat \<Rightarrow> sha1_vars" where
  "sha1_step v t = (case v of (x, a, b, c, d, e) \<Rightarrow>
     let (x, m) = (if t < 16 then (x, x ! t) else sha1_M x t);
         (e, b) = sha1_R a b c d e (sha1_f t) (sha1_k t) m
     in (x, e, a, b, c, d))"

lemma sha1_loop_word:
  "t < 16 \<Longrightarrow> foldl sha1_step (x, a, b, c, d, e) (t # ts) =
     (let (e, b) = sha1_R a b c d e (sha1_f t) (sha1_k t) (x ! t)
      in foldl sha1_step (x, e, a, b, c, d) ts)"
  by (simp add: sha1_step_def Let_def split: prod.splits)

lemma sha1_loop_M:
  "\<not> t < 16 \<Longrightarrow> foldl sha1_step (x, a, b, c, d, e) (t # ts) =
     (let (x, m) = sha1_M x t; (e, b) = sha1_R a b c d e (sha1_f t) (sha1_k t) m
      in foldl sha1_step (x, e, a, b, c, d) ts)"
  by (simp add: sha1_step_def Let_def split: prod.splits)

lemmas sha1_unroll = sha1_loop_word sha1_loop_M foldl_Nil sha1_f_def sha1_k_def

lemma sha1_rounds1_loop:
  "sha1_rounds1 v = foldl sha1_step v [0, 1, 2, 3, 4, 5, 6, 7, 8, 9, 10, 11, 12, 13, 14, 15, 16, 17, 18, 19]"
  by (cases v, simp only: sha1_rounds1_def Let_def [of "(_, _, _, _, _, _)"] prod.case)
    (simp add: sha1_unroll del: foldl_Cons)

lemma sha1_rounds2_loop:
  "sha1_rounds2 v = foldl sha1_step v [20, 21, 22, 23, 24, 25, 26, 27, 28, 29, 30, 31, 32, 33, 34, 35, 36, 37, 38, 39]"
  by (cases v, simp only: sha1_rounds2_def Let_def [of "(_, _, _, _, _, _)"] prod.case)
    (simp add: sha1_unroll del: foldl_Cons)

lemma sha1_rounds3_loop:
  "sha1_rounds3 v = foldl sha1_step v [40, 41, 42, 43, 44, 45, 46, 47, 48, 49, 50, 51, 52, 53, 54, 55, 56, 57, 58, 59]"
  by (cases v, simp only: sha1_rounds3_def Let_def [of "(_, _, _, _, _, _)"] prod.case)
    (simp add: sha1_unroll del: foldl_Cons)

lemma sha1_rounds4_loop:
  "sha1_rounds4 v = foldl sha1_step v [60, 61, 62, 63, 64, 65, 66, 67, 68, 69, 70, 71, 72, 73, 74, 75, 76, 77, 78, 79]"
  by (cases v, simp only: sha1_rounds4_def Let_def [of "(_, _, _, _, _, _)"] prod.case)
    (simp add: sha1_unroll del: foldl_Cons)

lemma sha1_rounds_loop:
  "sha1_rounds4 (sha1_rounds3 (sha1_rounds2 (sha1_rounds1 v))) = foldl sha1_step v [0..<80]"
proof -
  have "[0..<80] = [0..<20] @ [20..<40] @ [40..<60] @ [60..<80]"
    using upt_add_eq_append [of 0 20 60] upt_add_eq_append [of 20 40 40]
      upt_add_eq_append [of 40 60 20] by (simp del: upt_rec_numeral)
  moreover have "[0..<20] = [0, 1, 2, 3, 4, 5, 6, 7, 8, 9, 10, 11, 12, 13, 14, 15, 16, 17, 18, 19]"
    by (simp add: upt_rec)
  moreover have "[20..<40] = [20, 21, 22, 23, 24, 25, 26, 27, 28, 29, 30, 31, 32, 33, 34, 35, 36, 37, 38, 39]"
    "[40..<60] = [40, 41, 42, 43, 44, 45, 46, 47, 48, 49, 50, 51, 52, 53, 54, 55, 56, 57, 58, 59]"
    "[60..<80] = [60, 61, 62, 63, 64, 65, 66, 67, 68, 69, 70, 71, 72, 73, 74, 75, 76, 77, 78, 79]"
    by simp_all
  ultimately show ?thesis
    by (simp only: sha1_rounds1_loop sha1_rounds2_loop sha1_rounds3_loop sha1_rounds4_loop
        foldl_append)
qed

text \<open>After \<open>t\<close> steps the array holds the last 16 words of the expanded message.\<close>

definition sha1_window :: "u32 list \<Rightarrow> nat \<Rightarrow> u32 list \<Rightarrow> bool" where
  "sha1_window x0 t x = (length x = 16 \<and>
     (\<forall>s. s < max t 16 \<and> t \<le> s + 16 \<longrightarrow> x ! (s mod 16) = sha1_W x0 s))"

lemma sha1_window_start: "length x = 16 \<Longrightarrow> sha1_window x 0 x"
  by (auto simp: sha1_window_def sha1_W.simps)

lemma sha1_window_nth:
  "sha1_window x0 t x \<Longrightarrow> s < t \<Longrightarrow> t \<le> s + 16 \<Longrightarrow> x ! (s mod 16) = sha1_W x0 s"
  by (auto simp: sha1_window_def)

lemma sha1_window_M:
  assumes w: "sha1_window x0 t x" and t: "\<not> t < 16"
  shows "sha1_M x t = (x[t mod 16 := sha1_W x0 t], sha1_W x0 t)"
proof -
  have "t mod 16 = (t - 16) mod 16" using t by (simp add: le_mod_geq)
  moreover have "x ! ((t - 16) mod 16) = sha1_W x0 (t - 16)"
    "x ! ((t - 14) mod 16) = sha1_W x0 (t - 14)" "x ! ((t - 8) mod 16) = sha1_W x0 (t - 8)"
    "x ! ((t - 3) mod 16) = sha1_W x0 (t - 3)"
    using t by (auto intro!: sha1_window_nth [OF w])
  moreover have "sha1_W x0 t = rol32 (sha1_W x0 (t - 16) XOR sha1_W x0 (t - 14) XOR
      sha1_W x0 (t - 8) XOR sha1_W x0 (t - 3)) 1"
    using t by (subst sha1_W.simps) simp
  ultimately show ?thesis by (simp only: sha1_M_def Let_def)
qed

lemma sha1_window_next:
  assumes w: "sha1_window x0 t x"
  shows "t < 16 \<Longrightarrow> sha1_window x0 (Suc t) x \<and> x ! t = sha1_W x0 t"
    and "\<not> t < 16 \<Longrightarrow> sha1_window x0 (Suc t) (x[t mod 16 := sha1_W x0 t])"
proof -
  show "sha1_window x0 (Suc t) x \<and> x ! t = sha1_W x0 t" if "t < 16"
    using w that by (auto simp: sha1_window_def max_def)
  show "sha1_window x0 (Suc t) (x[t mod 16 := sha1_W x0 t])" if t: "\<not> t < 16"
  proof -
    have "x[t mod 16 := sha1_W x0 t] ! (s mod 16) = sha1_W x0 s" if "s < Suc t" "Suc t \<le> s + 16" for s
    proof (cases "s = t")
      case True
      then show ?thesis using w by (simp add: sha1_window_def)
    next
      case False
      have "s mod 16 \<noteq> t mod 16"
      proof
        assume "s mod 16 = t mod 16"
        then have "16 dvd t - s" using that mod_eq_dvd_iff_nat [of s t 16] by simp
        then show False using that False by (auto dest: dvd_imp_le)
      qed
      then show ?thesis using that False by (simp add: sha1_window_nth [OF w])
    qed
    then show ?thesis using w t by (auto simp: sha1_window_def max_def)
  qed
qed

text \<open>So one step of the code is one step of the reference.\<close>

lemma sha1_steps_reference:
  assumes "sha1_window x0 t x"
  shows "snd (foldl sha1_step (x, h) [t..<t + n]) = foldl (sha1_ref_step x0) h [t..<t + n]"
  using assms
proof (induction n arbitrary: t x h)
  case (Suc n)
  obtain a b c d e where h: "h = (a, b, c, d, e)" by (cases h)
  define x' where "x' = (if t < 16 then x else x[t mod 16 := sha1_W x0 t])"
  have step: "sha1_step (x, h) t = (x', sha1_ref_step x0 h t)"
    using sha1_window_M [OF Suc.prems] sha1_window_next [OF Suc.prems]
    by (auto simp: sha1_step_def h sha1_R_def sha1_ref_step_def x'_def)
  have "sha1_window x0 (Suc t) x'"
    using sha1_window_next [OF Suc.prems] by (auto simp: x'_def)
  note Suc.IH [OF this, of "sha1_ref_step x0 h t"]
  moreover have "[t..<t + Suc n] = t # [Suc t..<Suc t + n]"
    by (simp add: upt_conv_Cons del: upt_Suc)
  ultimately show ?case by (simp only: foldl_Cons step)
qed simp

definition sha1_chain :: "RTU_SHA1_CONTEXT \<Rightarrow> sha1_hash" where
  "sha1_chain ctx = (sh_h0 ctx, sh_h1 ctx, sh_h2 ctx, sh_h3 ctx, sh_h4 ctx)"

lemma sha1_transform_reference:
  "sha1_chain (sha1_transform ctx data) = sha1_compress (sha1_chain ctx) data"
proof -
  define x where "x = sha1_load data"
  have "sha1_window x 0 x" by (simp add: sha1_window_start x_def sha1_load_def)
  from sha1_steps_reference [OF this, of "sha1_chain ctx" 80]
  have "snd (sha1_rounds4 (sha1_rounds3 (sha1_rounds2 (sha1_rounds1 (x, sha1_chain ctx))))) =
      foldl (sha1_ref_step x) (sha1_chain ctx) [0..<80]"
    by (simp only: sha1_rounds_loop add_0)
  then show ?thesis
    by (auto simp: sha1_transform_def sha1_compress_def sha1_chain_def Let_def x_def [symmetric]
        split: prod.splits)
qed

lemma sha1_transform_keeps [simp]:
  "sh_buf (sha1_transform ctx data) = sh_buf ctx"
  "sh_count (sha1_transform ctx data) = sh_count ctx"
  "sh_nblocks (sha1_transform ctx data) = sh_nblocks ctx"
  by (simp_all add: sha1_transform_def Let_def split: prod.splits)

section \<open>Writing refines the reference\<close>

text \<open>One byte goes into the open block, which is compressed when it is full.\<close>

definition sha1_store :: "byte \<Rightarrow> RTU_SHA1_CONTEXT \<Rightarrow> RTU_SHA1_CONTEXT" where
  "sha1_store b ctx = ctx\<lparr>sh_buf := (sh_buf ctx)[sh_count ctx := b], sh_count := sh_count ctx + 1\<rparr>"

definition sha1_push :: "byte \<Rightarrow> RTU_SHA1_CONTEXT \<Rightarrow> RTU_SHA1_CONTEXT" where
  "sha1_push b ctx = sha1_flush (sha1_store b ctx)"

definition sha1_ok :: "RTU_SHA1_CONTEXT \<Rightarrow> bool" where
  "sha1_ok ctx = (sh_count ctx < 64 \<and> length (sh_buf ctx) = 64)"

definition sha1_pending :: "RTU_SHA1_CONTEXT \<Rightarrow> byte list" where
  "sha1_pending ctx = take (sh_count ctx) (sh_buf ctx)"

lemma sha1_chain_simps [simp]:
  "sha1_chain (ctx\<lparr>sh_buf := b\<rparr>) = sha1_chain ctx"
  "sha1_chain (ctx\<lparr>sh_count := n\<rparr>) = sha1_chain ctx"
  "sha1_chain (ctx\<lparr>sh_nblocks := k\<rparr>) = sha1_chain ctx"
  by (simp_all add: sha1_chain_def)

lemma take_store: "i < length xs \<Longrightarrow> take (Suc i) (xs[i := b]) = take i xs @ [b]"
  by (simp add: take_Suc_conv_app_nth)

lemma take_store_all: "length xs = Suc i \<Longrightarrow> xs[i := b] = take i xs @ [b]"
  using take_store [of i xs b] by simp

interpretation sha: block_buffer sha1_compress sha1_ok sha1_chain sha1_pending sha1_push
proof unfold_locales
  fix c :: RTU_SHA1_CONTEXT and b
  assume ok: "sha1_ok c"
  show "sha1_ok (sha1_push b c)"
    using ok by (auto simp: sha1_ok_def sha1_push_def sha1_store_def sha1_flush_def Let_def)
  show "length (sha1_pending c) < 64"
    using ok by (simp add: sha1_ok_def sha1_pending_def)
  show "sha1_chain (sha1_push b c) = sha1_chain c \<and> sha1_pending (sha1_push b c) = sha1_pending c @ [b]"
    if "length (sha1_pending c) < 63"
    using ok that by (simp add: sha1_ok_def sha1_push_def sha1_store_def sha1_flush_def
        sha1_pending_def take_store)
  show "sha1_chain (sha1_push b c) = sha1_compress (sha1_chain c) (sha1_pending c @ [b]) \<and>
      sha1_pending (sha1_push b c) = []"
    if "length (sha1_pending c) = 63"
    using ok that by (simp add: sha1_ok_def sha1_push_def sha1_store_def sha1_flush_def Let_def
        sha1_pending_def sha1_transform_reference take_store_all)
qed

definition sha1_iv :: sha1_hash where
  "sha1_iv = (0x124a5cbf, 0x36edb5fc, 0xf5d7810a, 0x25864753, 0xadcfedbe)"

text \<open>A context that has taken the text \<open>m\<close>.\<close>

definition sha1_holds :: "byte list \<Rightarrow> RTU_SHA1_CONTEXT \<Rightarrow> bool" where
  "sha1_holds m ctx = (sha.holds sha1_iv m ctx \<and> sh_nblocks ctx = word_of_nat (length m div 64))"

lemma sha1_holds_iff: "sha1_holds m ctx = (sha1_ok ctx \<and> sha1_chain ctx = hash_blocks sha1_compress sha1_iv m
    \<and> sha1_pending ctx = hash_rest m \<and> sh_nblocks ctx = word_of_nat (length m div 64))"
  by (simp add: sha1_holds_def sha.holds_def)

lemma sha1_holds_count:
  assumes "sha1_holds m ctx"
  shows "sh_count ctx = length m mod 64"
proof -
  have "length (sha1_pending ctx) = length m mod 64"
    using assms by (simp add: sha1_holds_iff length_hash_rest)
  then show ?thesis using assms by (simp add: sha1_holds_iff sha1_ok_def sha1_pending_def)
qed

lemma sha1_start: "length (sh_buf ctx) = 64 \<Longrightarrow> sha1_holds [] (rtu_sha1_init ctx)"
  by (simp add: sha1_holds_iff rtu_sha1_init_def sha1_ok_def sha1_chain_def sha1_iv_def sha1_pending_def)

lemma sha1_flush_id [simp]: "sh_count ctx < 64 \<Longrightarrow> sha1_flush ctx = ctx"
  by (simp add: sha1_flush_def)

lemma sha1_holds_push:
  assumes "sha1_holds m ctx"
  shows "sha1_holds (m @ [b]) (sha1_push b ctx)"
proof -
  have "sh_nblocks (sha1_push b ctx) = sh_nblocks ctx + (if sh_count ctx = 63 then 1 else 0)"
    by (simp add: sha1_push_def sha1_store_def sha1_flush_def Let_def)
  moreover have "Suc (length m) div 64 = length m div 64 + (if length m mod 64 = 63 then 1 else 0)"
    using mod_Suc [of "length m" 64] by (simp add: div_Suc)
  ultimately show ?thesis
    using assms sha.holds_push [of sha1_iv m ctx b] sha1_holds_count [OF assms]
    by (simp add: sha1_holds_def)
qed

text \<open>
  The loop that fills the block stores \<open>k\<close> bytes, and stops because the input is used up or
  because the block is full.
\<close>

lemma sha1_fill_holds:
  assumes "sha1_holds m (sha1_flush ctx)" "sh_count ctx \<le> 64" "0 \<le> inlen" "nat inlen \<le> length p"
  shows "\<exists>c k. sha1_fill ctx p inlen = Some (c, drop k p, inlen - int k) \<and> k \<le> nat inlen
    \<and> (k = nat inlen \<or> sh_count c = 64) \<and> sha1_holds (m @ take k p) (sha1_flush c)
    \<and> sh_count c = sh_count ctx + k \<and> sh_count c \<le> 64"
  using assms
proof (induction ctx p inlen arbitrary: m rule: sha1_fill.induct)
  case (1 ctx inlen)
  then show ?case by auto
next
  case (2 ctx b bs inlen)
  show ?case
  proof (cases "inlen \<noteq> 0 \<and> sh_count ctx < 64")
    case False
    then show ?thesis using 2 by (intro exI [of _ ctx] exI [of _ 0]) auto
  next
    case True
    have ctx: "sha1_holds m ctx" using 2 True by simp
    define c' where "c' = sha1_store b ctx"
    have holds: "sha1_holds (m @ [b]) (sha1_flush c')"
      using sha1_holds_push [OF ctx, of b] by (simp add: sha1_push_def c'_def)
    have count: "sh_count c' = Suc (sh_count ctx)" by (simp add: c'_def sha1_store_def)
    have fill: "sha1_fill ctx (b # bs) inlen = sha1_fill c' bs (inlen - 1)"
      using True by (simp add: c'_def sha1_store_def)
    have bounds: "sh_count c' \<le> 64" "0 \<le> inlen - 1" "nat (inlen - 1) \<le> length bs"
      using True "2.prems" count by auto
    obtain c k where k: "sha1_fill c' bs (inlen - 1) = Some (c, drop k bs, inlen - 1 - int k)"
        "k \<le> nat (inlen - 1)" "k = nat (inlen - 1) \<or> sh_count c = 64"
        "sha1_holds ((m @ [b]) @ take k bs) (sha1_flush c)" "sh_count c = sh_count c' + k"
        "sh_count c \<le> 64"
      using "2.IH" [OF True, folded sha1_store_def, folded c'_def, OF holds bounds] by blast
    then show ?thesis
      using True "2.prems" count fill by (intro exI [of _ c] exI [of _ "Suc k"]) auto
  qed
qed

lemma sha1_bulk_holds:
  assumes "sha1_holds m ctx" "sh_count ctx = 0" "0 \<le> inlen" "nat inlen \<le> length p"
  shows "\<exists>c k. sha1_bulk ctx p inlen = Some (c, drop k p, inlen - int k) \<and> k \<le> nat inlen
    \<and> inlen - int k < 64 \<and> sha1_holds (m @ take k p) c \<and> sh_count c = 0"
  using assms
proof (induction "nat inlen" arbitrary: ctx p inlen m rule: less_induct)
  case less
  show ?case
  proof (cases "inlen \<ge> 64")
    case False
    then show ?thesis
      using less.prems by (intro exI [of _ ctx] exI [of _ 0]) (simp add: sha1_bulk.simps)
  next
    case True
    define b where "b = take 64 p"
    define c' where "c' = (sha1_transform ctx b)\<lparr>sh_count := 0, sh_nblocks := sh_nblocks ctx + 1\<rparr>"
    have b: "length b = 64" using True less.prems by (simp add: b_def)
    have m: "length m mod 64 = 0" "hash_rest m = []"
      using sha1_holds_count [OF less.prems(1)] less.prems(2) length_hash_rest [of m] by auto
    have "(length m + 64) div 64 = Suc (length m div 64)" by simp
    then have "sha1_holds (m @ b) c'"
      using less.prems(1,2) b m
      by (simp add: sha1_holds_iff c'_def sha1_ok_def sha1_pending_def sha1_transform_reference
          hash_blocks_fill hash_rest_fill add.commute)
    moreover have "sh_count c' = 0" by (simp add: c'_def)
    moreover have "nat (inlen - 64) < nat inlen" "0 \<le> inlen - 64" "nat (inlen - 64) \<le> length (drop 64 p)"
      using True less.prems by auto
    ultimately obtain c k where k: "sha1_bulk c' (drop 64 p) (inlen - 64) =
          Some (c, drop k (drop 64 p), inlen - 64 - int k)" "k \<le> nat (inlen - 64)"
        "inlen - 64 - int k < 64" "sha1_holds ((m @ b) @ take k (drop 64 p)) c" "sh_count c = 0"
      using less.hyps by blast
    have "sha1_bulk ctx p inlen = sha1_bulk c' (drop 64 p) (inlen - 64)"
      using True b by (subst sha1_bulk.simps) (auto simp: b_def c'_def Let_def)
    moreover have "take (64 + k) p = b @ take k (drop 64 p)" by (simp add: b_def take_add)
    ultimately show ?thesis
      using k True by (intro exI [of _ c] exI [of _ "64 + k"]) (auto simp: add.commute)
  qed
qed

lemma sha1_write_holds:
  assumes m: "sha1_holds m ctx" and n: "0 \<le> inlen" "nat inlen \<le> length p"
  shows "\<exists>c. rtu_sha1_write ctx (Some p) inlen = Some c \<and> sha1_holds (m @ take (nat inlen) p) c"
proof -
  have fl: "sha1_flush ctx = ctx" using m by (simp add: sha1_holds_iff sha1_ok_def)
  have rest: "\<exists>c. do { (c, p, n) \<leftarrow> sha1_bulk ctx p n; (c, p, n) \<leftarrow> sha1_fill c p n; Some c } = Some c
      \<and> sha1_holds (m @ take (nat n) p) c"
    if holds: "sha1_holds m ctx" "sh_count ctx = 0" and n: "0 \<le> n" "nat n \<le> length p" for m ctx p n
  proof -
    obtain c k where c: "sha1_bulk ctx p n = Some (c, drop k p, n - int k)" "k \<le> nat n"
        "n - int k < 64" "sha1_holds (m @ take k p) c" "sh_count c = 0"
      using sha1_bulk_holds [OF holds n] by blast
    have "sha1_holds (m @ take k p) (sha1_flush c)" "sh_count c \<le> 64" "0 \<le> n - int k"
        "nat (n - int k) \<le> length (drop k p)"
      using c n by (auto simp: nat_diff_distrib)
    then obtain d j where d: "sha1_fill c (drop k p) (n - int k) = Some (d, drop j (drop k p), n - int k - int j)"
        "j \<le> nat (n - int k)" "j = nat (n - int k) \<or> sh_count d = 64"
        "sha1_holds ((m @ take k p) @ take j (drop k p)) (sha1_flush d)" "sh_count d = sh_count c + j"
      using sha1_fill_holds by blast
    have j: "j = nat (n - int k)" "sh_count d < 64" using d c by auto
    moreover have "take (nat n) p = take k p @ take j (drop k p)"
    proof -
      have "nat n = k + j" using c(2) j(1) by linarith
      then show ?thesis by (simp add: take_add)
    qed
    ultimately show ?thesis using c d by simp
  qed
  show ?thesis
  proof (cases "sh_count ctx = 0")
    case True
    then show ?thesis using rest [OF m True n] by (simp add: rtu_sha1_write_def fl)
  next
    case False
    have "sha1_holds m (sha1_flush ctx)" "sh_count ctx \<le> 64"
      using m fl by (simp_all add: sha1_holds_iff sha1_ok_def)
    then obtain c k where c: "sha1_fill ctx p inlen = Some (c, drop k p, inlen - int k)" "k \<le> nat inlen"
        "k = nat inlen \<or> sh_count c = 64" "sha1_holds (m @ take k p) (sha1_flush c)"
      using sha1_fill_holds n by blast
    show ?thesis
    proof (cases "k = nat inlen")
      case True
      then show ?thesis using c False n by (simp add: rtu_sha1_write_def fl)
    next
      case rem: False
      have z: "sh_count (sha1_flush c) = 0" using c rem by (simp add: sha1_flush_def Let_def)
      have n': "0 \<le> inlen - int k" "nat (inlen - int k) \<le> length (drop k p)" "inlen - int k \<noteq> 0"
        using c(2) n rem by (auto simp: nat_diff_distrib)
      from rest [OF c(4) z n'(1,2)] obtain d where
        "do { (c, p, n) \<leftarrow> sha1_bulk (sha1_flush c) (drop k p) (inlen - int k);
              (c, p, n) \<leftarrow> sha1_fill c p n; Some c } = Some d"
        "sha1_holds ((m @ take k p) @ take (nat (inlen - int k)) (drop k p)) d" by blast
      moreover have "take (nat inlen) p = take k p @ take (nat (inlen - int k)) (drop k p)"
      proof -
        have "nat inlen = k + nat (inlen - int k)" using c(2) n by linarith
        then show ?thesis by (metis take_add)
      qed
      ultimately show ?thesis
        using c(1) False n'(3) by (simp add: rtu_sha1_write_def fl)
    qed
  qed
qed

section \<open>The final call\<close>

text \<open>
  The text, a byte 0x80, zeros up to eight bytes before the end of a block, and the number of
  bits, high word first.
\<close>

definition sha1_padded :: "byte list \<Rightarrow> byte list" where
  "sha1_padded m = m @ [0x80] @ replicate ((119 - length m mod 64) mod 64) 0
     @ bytes_be32 (word_of_nat (8 * length m div 2 ^ 32)) @ bytes_be32 (word_of_nat (8 * length m))"

definition sha1 :: "byte list \<Rightarrow> byte list" where
  "sha1 m = (case hash_blocks sha1_compress sha1_iv (sha1_padded m) of (a, b, c, d, e) \<Rightarrow>
     bytes_be32 a @ bytes_be32 b @ bytes_be32 c @ bytes_be32 d @ bytes_be32 e)"

lemma sha1_bits_length:
  assumes "sha1_holds m ctx" and len: "length m < 2 ^ 38"
  shows "sha1_bits ctx = (word_of_nat (8 * length m div 2 ^ 32), word_of_nat (8 * length m))"
proof -
  define q where "q = length m div 64"
  define r where "r = length m mod 64"
  have m: "length m = 64 * q + r" "r < 64" "q < 2 ^ 32"
    using len by (simp_all add: q_def r_def)
  have t: "sh_nblocks ctx = word_of_nat q" "sh_count ctx = r"
    using assms by (simp_all add: sha1_holds_iff q_def r_def sha1_holds_count)
  have t6: "push_bit 6 (word_of_nat q :: u32) = word_of_nat (64 * q)"
    by (simp add: push_bit_eq_mult)
  have "64 * q mod 2 ^ 32 + r < 2 ^ 32"
  proof -
    have "64 * q mod (64 * 2 ^ 26) = 64 * (q mod 2 ^ 26)" by (rule mult_mod_right [symmetric])
    moreover have "q mod 2 ^ 26 \<le> 2 ^ 26 - 1" by (simp add: Suc_leI flip: less_Suc_eq_le)
    ultimately show ?thesis using m(2) by simp
  qed
  then have nocarry: "\<not> (word_of_nat (64 * q) + word_of_nat r :: u32) < word_of_nat (64 * q)"
    using m(2) by (simp add: word_add_carry unat_of_nat del: of_nat_mult)
  have hi: "drop_bit 26 (word_of_nat q :: u32) = word_of_nat (length m div 2 ^ 32)"
  proof -
    have "unat (drop_bit 26 (word_of_nat q :: u32)) = q div 2 ^ 26"
      using m(3) by (subst unat_drop_bit_eq) (simp add: drop_bit_eq_div unat_of_nat)
    also have "\<dots> = length m div 2 ^ 32"
      unfolding q_def using div_mult2_eq [of "length m" 64 "2 ^ 26"] by simp
    finally show ?thesis by (metis of_nat_unat ucast_id)
  qed
  have lo: "drop_bit 29 (word_of_nat (length m) :: u32) = word_of_nat (length m mod 2 ^ 32 div 2 ^ 29)"
  proof -
    have "unat (drop_bit 29 (word_of_nat (length m) :: u32)) = length m mod 2 ^ 32 div 2 ^ 29"
      by (subst unat_drop_bit_eq) (simp add: drop_bit_eq_div unat_of_nat)
    then show ?thesis by (metis of_nat_unat ucast_id)
  qed
  have "push_bit 3 x OR drop_bit 29 y = push_bit 3 x + drop_bit 29 y" for x y :: u32
    by (rule disjunctive_add [symmetric]) (auto simp: bit_simps dest: bit_imp_le_length)
  moreover have "8 * (length m div 2 ^ 32) + length m mod 2 ^ 32 div 2 ^ 29 = 8 * length m div 2 ^ 32"
  proof -
    have "8 * length m div 2 ^ 32 = length m div 2 ^ 29"
      using div_mult2_eq [of "8 * length m" 8 "2 ^ 29"] by simp
    also have "\<dots> = (length m mod 2 ^ 32 + 2 ^ 29 * (8 * (length m div 2 ^ 32))) div 2 ^ 29"
      using mod_mult_div_eq [of "length m" "2 ^ 32"] by (simp add: mult.assoc)
    also have "\<dots> = 8 * (length m div 2 ^ 32) + length m mod 2 ^ 32 div 2 ^ 29"
      by (subst div_mult_self2) simp_all
    finally show ?thesis by simp
  qed
  moreover have "push_bit 3 (word_of_nat (length m div 2 ^ 32) :: u32) =
      word_of_nat (8 * (length m div 2 ^ 32))"
    by (simp add: push_bit_eq_mult)
  ultimately have msb: "push_bit 3 (word_of_nat (length m div 2 ^ 32)) OR
      drop_bit 29 (word_of_nat (length m) :: u32) = word_of_nat (8 * length m div 2 ^ 32)"
    unfolding lo by (metis lo of_nat_add)
  have sum: "word_of_nat (64 * q) + word_of_nat r = (word_of_nat (length m) :: u32)"
    by (simp add: m(1))
  have lsb: "push_bit 3 (word_of_nat (length m) :: u32) = word_of_nat (8 * length m)"
    by (simp add: push_bit_eq_mult)
  show ?thesis
    unfolding sha1_bits_def Let_def t t6 sum if_not_P [OF nocarry [unfolded sum]] hi msb lsb
    by (rule refl)
qed

lemma sha1_zeros_result:
  "sh_count ctx \<le> limit \<Longrightarrow> limit \<le> length (sh_buf ctx) \<Longrightarrow>
   sha1_zeros limit ctx = ctx\<lparr>sh_buf := take (sh_count ctx) (sh_buf ctx) @
       replicate (limit - sh_count ctx) 0 @ drop limit (sh_buf ctx), sh_count := limit\<rparr>"
proof (induction "limit - sh_count ctx" arbitrary: ctx)
  case 0
  then show ?case by (simp add: sha1_zeros.simps)
next
  case (Suc n)
  define c' where "c' = sha1_store 0 ctx"
  have "sha1_zeros limit ctx = sha1_zeros limit c'"
    using Suc.hyps by (subst sha1_zeros.simps) (simp add: c'_def sha1_store_def)
  moreover have "sh_count c' = Suc (sh_count ctx)" "length (sh_buf c') = length (sh_buf ctx)"
    by (simp_all add: c'_def sha1_store_def)
  moreover have "take (Suc (sh_count ctx)) (sh_buf c') = take (sh_count ctx) (sh_buf ctx) @ [0]"
    using Suc by (simp add: c'_def sha1_store_def take_store)
  moreover have "drop limit (sh_buf c') = drop limit (sh_buf ctx)"
    using Suc.hyps by (simp add: c'_def sha1_store_def)
  moreover have "limit - sh_count ctx = Suc (limit - Suc (sh_count ctx))" using Suc.hyps by simp
  ultimately show ?case
    using Suc.hyps(1) [of c'] Suc.hyps(2) Suc.prems by (simp add: c'_def sha1_store_def)
qed

text \<open>After the padding the open block starts with 56 bytes of the padded text.\<close>

lemma sha1_pad_holds:
  assumes m: "sha1_holds m ctx"
  defines "x \<equiv> [0x80] @ replicate ((119 - length m mod 64) mod 64) 0"
  shows "sha1_chain (sha1_pad ctx) = hash_blocks sha1_compress sha1_iv (m @ x)
    \<and> take 56 (sh_buf (sha1_pad ctx)) = hash_rest (m @ x)
    \<and> length (sh_buf (sha1_pad ctx)) = 64 \<and> length (hash_rest (m @ x)) = 56"
proof -
  define r where "r = length m mod 64"
  have r: "sh_count ctx = r" "r < 64" "length (sh_buf ctx) = 64" "length (hash_rest m) = r"
    using m by (simp_all add: r_def sha1_holds_count sha1_holds_iff sha1_ok_def length_hash_rest)
  define c' where "c' = sha1_store 0x80 ctx"
  have c': "sh_count c' = Suc r" "take (Suc r) (sh_buf c') = hash_rest m @ [0x80]"
    "length (sh_buf c') = 64" "sha1_chain c' = hash_blocks sha1_compress sha1_iv m"
    using m r by (simp_all add: c'_def sha1_store_def take_store sha1_holds_iff sha1_pending_def)
  show ?thesis
  proof (cases "r < 56")
    case True
    have "sha1_pad ctx = sha1_zeros 56 c'"
      using True r by (simp add: sha1_pad_def c'_def sha1_store_def)
    then have pad: "sha1_pad ctx = c'\<lparr>sh_buf := hash_rest m @ [0x80] @ replicate (55 - r) 0 @
        drop 56 (sh_buf c'), sh_count := 56\<rparr>"
      using True c' by (simp add: sha1_zeros_result)
    have x: "x = [0x80] @ replicate (55 - r) 0"
      using True by (simp add: x_def r_def [symmetric] le_mod_geq)
    have "56 - r = Suc (55 - r)" using True by simp
    then show ?thesis
      using True c' r unfolding pad
      by (simp add: x hash_blocks_more hash_rest_more)
  next
    case False
    define y where "y = [0x80] @ replicate (63 - r) (0 :: byte)"
    have "sha1_zeros 64 c' = c'\<lparr>sh_buf := hash_rest m @ y, sh_count := 64\<rparr>"
      using False r c' by (simp add: sha1_zeros_result y_def)
    moreover have "sha1_pad ctx = (let c = sha1_flush (sha1_zeros 64 c')
        in c\<lparr>sh_buf := replicate 56 0 @ drop 56 (sh_buf c)\<rparr>)"
      using False r by (simp add: sha1_pad_def c'_def sha1_store_def Let_def)
    ultimately have pad: "sha1_chain (sha1_pad ctx) =
          sha1_compress (hash_blocks sha1_compress sha1_iv m) (hash_rest m @ y)"
        "sh_buf (sha1_pad ctx) = replicate 56 0 @ drop 56 (hash_rest m @ y)"
      using c' by (simp_all add: sha1_flush_def Let_def sha1_transform_reference)
    have len: "length (hash_rest m) + length y = 64" using r False by (simp add: y_def)
    have x: "x = y @ replicate 56 0"
      using False r(2) by (simp add: x_def y_def r_def [symmetric] replicate_add [symmetric])
    have "hash_rest ((m @ y) @ replicate 56 0) = replicate 56 0"
      using hash_rest_fill [OF len] by (subst hash_rest_more) simp_all
    moreover have "hash_blocks sha1_compress sha1_iv ((m @ y) @ replicate 56 0) =
        sha1_compress (hash_blocks sha1_compress sha1_iv m) (hash_rest m @ y)"
      using hash_rest_fill [OF len] hash_blocks_fill [OF len]
      by (subst hash_blocks_more) simp_all
    ultimately show ?thesis using pad len by (simp add: x)
  qed
qed

lemma list_update_eight:
  "length ys = 56 \<Longrightarrow> (ys @ [b0, b1, b2, b3, b4, b5, b6, b7])
     [56 := a, 57 := b, 58 := c, 59 := d, 60 := e, 61 := f, 62 := g, 63 := h] =
   ys @ [a, b, c, d, e, f, g, h]"
  by (simp add: list_update_append)

lemma eight_updates:
  assumes "length xs = 64"
  shows "xs[56 := a, 57 := b, 58 := c, 59 := d, 60 := e, 61 := f, 62 := g, 63 := h] =
    take 56 xs @ [a, b, c, d, e, f, g, h]"
proof -
  define zs where "zs = drop 56 xs"
  have "length zs = 8" using assms by (simp add: zs_def)
  then obtain b0 b1 b2 b3 b4 b5 b6 b7 where "zs = [b0, b1, b2, b3, b4, b5, b6, b7]"
    by (auto simp: length_Suc_conv numeral_eq_Suc)
  then have "xs = take 56 xs @ [b0, b1, b2, b3, b4, b5, b6, b7]"
    using append_take_drop_id [of 56 xs] by (simp add: zs_def)
  moreover have "length (take 56 xs) = 56" using assms by simp
  ultimately show ?thesis by (metis (no_types) list_update_eight)
qed

lemma sha1_final_holds:
  assumes m: "sha1_holds m ctx" and len: "length m < 2 ^ 38"
  shows "take 20 (sh_buf (rtu_sha1_final ctx)) = sha1 m"
proof -
  define x where "x = [0x80] @ replicate ((119 - length m mod 64) mod 64) (0 :: byte)"
  define hi where "hi = (word_of_nat (8 * length m div 2 ^ 32) :: u32)"
  define lo where "lo = (word_of_nat (8 * length m) :: u32)"
  define c where "c = sha1_pad ctx"
  define d where "d = sha1_transform (c\<lparr>sh_buf := take 56 (sh_buf c) @ bytes_be32 hi @ bytes_be32 lo\<rparr>)
      (take 56 (sh_buf c) @ bytes_be32 hi @ bytes_be32 lo)"
  have fl: "sha1_flush ctx = ctx" using m by (simp add: sha1_holds_iff sha1_ok_def)
  have pad: "sha1_chain c = hash_blocks sha1_compress sha1_iv (m @ x)"
    "take 56 (sh_buf c) = hash_rest (m @ x)" "length (sh_buf c) = 64" "length (hash_rest (m @ x)) = 56"
    using sha1_pad_holds [OF m] by (simp_all add: c_def x_def)
  have "sh_buf (rtu_sha1_final ctx) = bytes_be32 (sh_h0 d) @ bytes_be32 (sh_h1 d) @
      bytes_be32 (sh_h2 d) @ bytes_be32 (sh_h3 d) @ bytes_be32 (sh_h4 d) @ drop 20 (sh_buf d)"
    unfolding rtu_sha1_final_def Let_def fl sha1_bits_length [OF m len, folded hi_def lo_def]
      prod.case c_def [symmetric]
    by (simp add: eight_updates pad(3) d_def bytes_be32_def)
  then have "take 20 (sh_buf (rtu_sha1_final ctx)) =
      (case sha1_chain d of (a, b, c, d, e) \<Rightarrow>
        bytes_be32 a @ bytes_be32 b @ bytes_be32 c @ bytes_be32 d @ bytes_be32 e)"
    by (simp add: sha1_chain_def bytes_be32_def)
  moreover have "sha1_chain d = hash_blocks sha1_compress sha1_iv ((m @ x) @ bytes_be32 hi @ bytes_be32 lo)"
    using pad by (subst hash_blocks_fill)
      (simp_all add: d_def sha1_transform_reference bytes_be32_def)
  moreover have "sha1_padded m = (m @ x) @ bytes_be32 hi @ bytes_be32 lo"
    by (simp add: sha1_padded_def x_def hi_def lo_def)
  ultimately show ?thesis by (simp add: sha1_def)
qed

text \<open>A sequence of writes.\<close>

fun rtu_sha1_writes :: "RTU_SHA1_CONTEXT \<Rightarrow> byte list list \<Rightarrow> RTU_SHA1_CONTEXT option" where
  "rtu_sha1_writes ctx [] = Some ctx"
| "rtu_sha1_writes ctx (x # xs) = do {
     ctx \<leftarrow> rtu_sha1_write ctx (Some x) (int (length x));
     rtu_sha1_writes ctx xs }"

lemma sha1_writes_hold:
  "sha1_holds m ctx \<Longrightarrow> \<exists>c. rtu_sha1_writes ctx xss = Some c \<and> sha1_holds (m @ concat xss) c"
proof (induction xss arbitrary: m ctx)
  case (Cons x xss)
  obtain d where "rtu_sha1_write ctx (Some x) (int (length x)) = Some d" "sha1_holds (m @ x) d"
    using sha1_write_holds [OF Cons.prems, of "int (length x)" x] by auto
  with Cons.IH [of "m @ x" d] show ?case by simp
qed simp

section \<open>Properties\<close>

text \<open>
  C29. However a text of less than \<open>2 ^ 38\<close> bytes is cut into writes, from any context the
  first 20 bytes of the block buffer after the final call are the digest of the whole text:
  the five chaining words of the compression over the text padded with its bit count.
\<close>

theorem sha1_of_segments:
  assumes "length (sh_buf c0) = 64" "length (concat xss) < 2 ^ 38"
  shows "\<exists>c. rtu_sha1_writes (rtu_sha1_init c0) xss = Some c
    \<and> take 20 (sh_buf (rtu_sha1_final c)) = sha1 (concat xss)"
  using sha1_writes_hold [OF sha1_start [OF assms(1)], of xss] sha1_final_holds assms(2) by auto

theorem sha1_of_segments_witness:
  "\<exists>c. rtu_sha1_writes (rtu_sha1_init \<lparr>sh_h0 = 1, sh_h1 = 2, sh_h2 = 3, sh_h3 = 4, sh_h4 = 5,
      sh_nblocks = 6, sh_buf = replicate 64 7, sh_count = 8\<rparr>) [replicate 100 1, [2, 3]] = Some c
    \<and> take 20 (sh_buf (rtu_sha1_final c)) = sha1 (replicate 100 1 @ [2, 3])"
  using sha1_of_segments [of "\<lparr>sh_h0 = 1, sh_h1 = 2, sh_h2 = 3, sh_h3 = 4, sh_h4 = 5,
      sh_nblocks = 6, sh_buf = replicate 64 7, sh_count = 8\<rparr>" "[replicate 100 1, [2, 3]]"]
  by simp

text \<open>
  C35. The transform with its 80 unrolled steps, its rotating variable names and its schedule
  kept in a ring of 16 words computes the textbook loop: the expanded message of 80 words and
  one step function with the function and constant of each group of 20 steps.
\<close>

theorem sha1_transform_is_loop:
  "sha1_transform ctx data =
    (case foldl (sha1_ref_step (sha1_load data)) (sh_h0 ctx, sh_h1 ctx, sh_h2 ctx, sh_h3 ctx, sh_h4 ctx)
        [0..<80] of (a, b, c, d, e) \<Rightarrow>
      ctx\<lparr>sh_h0 := sh_h0 ctx + a, sh_h1 := sh_h1 ctx + b, sh_h2 := sh_h2 ctx + c,
          sh_h3 := sh_h3 ctx + d, sh_h4 := sh_h4 ctx + e\<rparr>)"
  using sha1_transform_reference [of ctx data] sha1_transform_keeps [of ctx data]
  by (cases "sha1_transform ctx data") (auto simp: sha1_chain_def sha1_compress_def split: prod.splits)

end
