(* ===== verification/Reg.thy ===== *)
theory Reg
  imports BoardCfg CText Des Md5 Sha
begin

text \<open>
  The registration of a gateway (\<open>reg/rtu_reg.c\<close>): its identifier, made of the chip's serial
  number and a random code with three DES keys; the key that unlocks it, made of that
  identifier by 40 rounds of DES, MD5 or SHA-1; the registration in the configuration file;
  the random code and the time of the trial in a sector of the flash; and the idle task that
  counts the trial (\<open>RTU1/applications/application.c\<close>). The reference \<open>reg_key\<close> is the one key
  a gateway accepts.
\<close>

unbundle bit_operations_syntax

section \<open>Text\<close>

text \<open>\<open>%X\<close> of a byte.\<close>

definition hexX :: "byte \<Rightarrow> byte list" where
  "hexX b = (if b < 16 then [hexU b] else hex02X b)"

text \<open>\<open>0 == strcmp (a, b)\<close>: None when no difference is found before one of the arrays ends.\<close>

fun strcmp0 :: "byte list \<Rightarrow> byte list \<Rightarrow> bool option" where
  "strcmp0 (x # a) (y # b) = (if x \<noteq> y then Some False else if x = 0 then Some True else strcmp0 a b)"
| "strcmp0 _ _ = None"

text \<open>What \<open>strncpy (dst, src, n)\<close> leaves in the \<open>n\<close> bytes at \<open>dst\<close>.\<close>

definition strncpy_image :: "nat \<Rightarrow> byte list \<Rightarrow> byte list" where
  "strncpy_image n src = (let s = takeWhile (\<lambda>b. b \<noteq> 0) (take n src) in s @ replicate (n - length s) 0)"

section \<open>State\<close>

text \<open>
  The structures; \<open>reg_t\<close> has three bytes of padding, which belong to the image in the file. What
  the functions use besides their variables: the configuration file, the flash sector, the
  serial number of the chip, whether an allocation succeeds, whether an erase succeeds and how
  many bytes a write programs before it fails or the power goes, and what the stack holds where
  the contexts of the digests will be.
\<close>

record reg_info_t =
  test_time :: u32
  code :: u32

record reg_t =
  reg_key_field :: "byte list"
  reg_pad :: "byte list"
  reg_time :: u32

record reg_state =
  g_reg :: reg_t
  g_reg_info :: reg_info_t
  g_regid :: "byte list"
  g_isreg :: bool
  g_istestover_poweron :: bool
  hw_disk :: cfg_disk
  hw_rom :: "byte list"
  hw_uid :: "u32 \<times> u32 \<times> u32 \<times> u32"
  hw_alloc :: bool
  hw_erase :: bool
  hw_program :: nat
  hw_md5 :: MD5_CTX
  hw_sha :: RTU_SHA1_CONTEXT

definition REG_INFO_SIZE :: nat where "REG_INFO_SIZE = 4096"
definition REG_ID_LEN :: nat where "REG_ID_LEN = 40"
definition REG_DEF_RANDOMCODE :: u32 where "REG_DEF_RANDOMCODE = 0x54DCF6A0"
definition REG_TEST_OVER_TIME :: u32 where "REG_TEST_OVER_TIME = 90 * 24 * 60 * 60"

definition c_reg_default :: reg_t where
  "c_reg_default = \<lparr>reg_key_field = replicate 129 0, reg_pad = replicate 3 0, reg_time = 0\<rparr>"

definition reg_image :: "reg_t \<Rightarrow> byte list" where
  "reg_image r = reg_key_field r @ reg_pad r @ bytes_le32 (reg_time r)"

definition reg_of_image :: "byte list \<Rightarrow> reg_t" where
  "reg_of_image bs = \<lparr>reg_key_field = take 129 bs, reg_pad = slice bs 129 3,
     reg_time = le32 (bs ! 132) (bs ! 133) (bs ! 134) (bs ! 135)\<rparr>"

definition reg_info_image :: "reg_info_t \<Rightarrow> byte list" where
  "reg_info_image i = bytes_le32 (test_time i) @ bytes_le32 (code i)"

definition reg_info_of_image :: "byte list \<Rightarrow> reg_info_t" where
  "reg_info_of_image bs = \<lparr>test_time = le32 (bs ! 0) (bs ! 1) (bs ! 2) (bs ! 3),
     code = le32 (bs ! 4) (bs ! 5) (bs ! 6) (bs ! 7)\<rparr>"

section \<open>The registration in the configuration file\<close>

definition prvSetRegDefault :: "reg_state \<Rightarrow> reg_state" where
  "prvSetRegDefault s = s\<lparr>g_reg := c_reg_default\<rparr>"

definition prvReadRegFromFs :: "reg_state \<Rightarrow> reg_state" where
  "prvReadRegFromFs s = (let
     (ok, img, d) = board_cfg_read (hw_disk s) REG_CFG_OFS (reg_image (g_reg s));
     s = s\<lparr>g_reg := reg_of_image img, hw_disk := d\<rparr>
     in if \<not> ok then prvSetRegDefault s else s)"

definition prvSaveRegCfgToFs :: "reg_state \<Rightarrow> reg_state option" where
  "prvSaveRegCfgToFs s = do {
     (ok, d) \<leftarrow> board_cfg_write (hw_disk s) REG_CFG_OFS (reg_image (g_reg s));
     let s = s\<lparr>hw_disk := d\<rparr>;
     Some (if \<not> ok then prvSetRegDefault s else s) }"

section \<open>The trial time and random code in the flash\<close>

definition prvSetRegInfoDefault :: "reg_state \<Rightarrow> reg_state" where
  "prvSetRegInfoDefault s = s\<lparr>g_reg_info := \<lparr>test_time = 0, code = REG_DEF_RANDOMCODE\<rparr>\<rparr>"

definition prvReadRegInfoFromRom :: "reg_state \<Rightarrow> reg_state" where
  "prvReadRegInfoFromRom s = (let rom = hw_rom s in
     if slice rom 0 4 = bytes_le32 CFG_MAGIC then (let
       s = s\<lparr>g_reg_info := reg_info_of_image (slice rom 4 8)\<rparr>
       in if bytes_le16 (usMBCRC16 (reg_info_image (g_reg_info s)) 8) \<noteq> slice rom 12 2
          then prvSetRegInfoDefault s else s)
     else prvSetRegInfoDefault s)"

text \<open>
  The flash: an erase makes every bit 1, and programming can only make bits 0. \<open>n\<close> bytes are
  programmed.
\<close>

definition flash_erase :: "bool \<Rightarrow> byte list \<Rightarrow> byte list" where
  "flash_erase ok rom = (if ok then replicate (length rom) 0xFF else rom)"

definition flash_program :: "nat \<Rightarrow> byte list \<Rightarrow> byte list \<Rightarrow> byte list" where
  "flash_program n buf rom = map2 (AND) (take n buf) rom @ drop (min n (length buf)) rom"

text \<open>The sector that is written for an image of \<open>g_reg_info\<close>.\<close>

definition reg_rom_buffer :: "byte list \<Rightarrow> byte list" where
  "reg_rom_buffer img = (let
     buffer = replicate 4096 0;
     buffer = blit buffer 0 (bytes_le32 CFG_MAGIC);
     buffer = blit buffer 4 img;
     usCheck = usMBCRC16 img (word_of_nat (length img))
     in blit buffer (4 + length img) (bytes_le16 usCheck))"

definition prvSaveRegInfoToRom :: "reg_state \<Rightarrow> reg_state" where
  "prvSaveRegInfoToRom s = (if hw_alloc s then (let
     buffer = reg_rom_buffer (reg_info_image (g_reg_info s));
     rom = flash_erase (hw_erase s) (hw_rom s);
     rom = flash_program (hw_program s) buffer rom
     in s\<lparr>hw_rom := rom\<rparr>) else s)"

section \<open>The identifier\<close>

text \<open>
  The local array \<open>des\<close> is not initialised; each of its bytes is written before it is read. A
  difference to that is None, as is any access outside of an array.
\<close>

definition reg_key1 :: "byte list" where
  "reg_key1 = [0x5F, 0x2D, 0x25, 0x34, 0xAD, 0x58, 0xEB, 0xA0]"

definition reg_key2 :: "byte list" where
  "reg_key2 = [0x3F, 0x57, 0x35, 0xCC, 0x08, 0x58, 0x1B, 0x99]"

definition reg_key3 :: "byte list" where
  "reg_key3 = lit ''_k)-%l&h'' @ [0]"

definition reg_id_text :: "u32 \<times> u32 \<times> u32 \<times> u32 \<Rightarrow> u32 \<Rightarrow> byte list" where
  "reg_id_text uid c = (case uid of (in0, in1, in2, in3) \<Rightarrow>
     concat (map hex02X
      ([ucast c] @ bytes_be32 (NOT in0) @ [ucast (drop_bit 8 c)] @ bytes_be32 (NOT in1) @
       [ucast (drop_bit 16 c)] @ bytes_be32 (NOT in2) @ [ucast (drop_bit 24 c)] @ bytes_be32 (NOT in3))))"

definition reg_regetid :: "u32 \<times> u32 \<times> u32 \<times> u32 \<Rightarrow> u32 \<Rightarrow> byte list \<Rightarrow> (byte list \<times> nat) option" where
  "reg_regetid uid c regid = (let t = reg_id_text uid c; n = length t in do {
     buf \<leftarrow> put_str (replicate 41 0) t;
     let des = replicate 40 0;
     (des, _) \<leftarrow> rtu_des_encrypt des buf (int n) reg_key1;
     (des, _) \<leftarrow> rtu_des_decrypt_same des (int n) reg_key2;
     (regid, _) \<leftarrow> rtu_des_encrypt regid des (int n) reg_key3;
     Some (regid, n) })"

section \<open>The key\<close>

text \<open>The bytes of \<open>deskey\<close>: \<open>int\<close> expressions cut to 8 bits.\<close>

definition reg_deskey :: "byte \<Rightarrow> byte \<Rightarrow> byte \<Rightarrow> byte \<Rightarrow> byte \<Rightarrow> byte \<Rightarrow> byte \<Rightarrow> byte \<Rightarrow> byte list" where
  "reg_deskey a b c d e f g h =
     [a + NOT 0x5F, NOT b + 0x2D, NOT c + 0x25, d + NOT 0x34,
      e - NOT 0xAD, f - 0x58, NOT g + NOT 0xEB, NOT h - NOT 0xA0]"

text \<open>The 20 bytes that are printed of a digest, some of them complemented.\<close>

definition reg_md5_bytes :: "byte list \<Rightarrow> byte list" where
  "reg_md5_bytes d =
     [d ! 0, NOT (d ! 1), NOT (d ! 8), d ! 9,
      d ! 2, NOT (d ! 3), d ! 10, d ! 11,
      d ! 4, NOT (d ! 5), d ! 12, d ! 13,
      d ! 6, d ! 7, d ! 14, d ! 15,
      d ! 8, d ! 3, d ! 5, d ! 1]"

definition reg_sha_bytes :: "byte list \<Rightarrow> byte list" where
  "reg_sha_bytes d =
     [d ! 0, NOT (d ! 10), d ! 4, d ! 15,
      d ! 3, d ! 7, NOT (d ! 8), d ! 16,
      NOT (d ! 6), d ! 5, d ! 11, NOT (d ! 17),
      d ! 9, d ! 2, NOT (d ! 13), d ! 18,
      d ! 19, NOT (d ! 1), d ! 14, d ! 12]"

text \<open>One round \<open>i\<close> on \<open>mykey[41]\<close> and the two contexts.\<close>

type_synonym reg_work = "byte list \<times> MD5_CTX \<times> RTU_SHA1_CONTEXT"

definition reg_round :: "byte list \<Rightarrow> nat \<Rightarrow> reg_work \<Rightarrow> reg_work option" where
  "reg_round regid i w = (let (mykey, mctx, sctx) = w; g = regid ! i in
     if i < 39 \<and> g < 0x3F then do {
       (mykey, _) \<leftarrow> rtu_des_encrypt_same mykey (int REG_ID_LEN) (reg_deskey g g g g g g g g);
       Some (mykey, mctx, sctx) }
     else if i < 39 \<and> g < 0x7F then do {
       let mctx = rtu_MD5Init mctx;
       mctx \<leftarrow> rtu_MD5Update mctx mykey (word_of_nat REG_ID_LEN);
       mctx \<leftarrow> rtu_MD5Final mctx;
       let mykey = mykey[0 := 0];
       mykey \<leftarrow> put_str mykey (concat (map hex02X (reg_md5_bytes (md_digest mctx))));
       Some (mykey, mctx, sctx) }
     else do {
       let sctx = rtu_sha1_init sctx;
       sctx \<leftarrow> rtu_sha1_write sctx (Some mykey) (int REG_ID_LEN);
       let sctx = rtu_sha1_final sctx;
       let mykey = mykey[0 := 0];
       mykey \<leftarrow> put_str mykey (concat (map hex02X (reg_sha_bytes (sh_buf sctx))));
       Some (mykey, mctx, sctx) })"

fun reg_rounds :: "byte list \<Rightarrow> nat list \<Rightarrow> reg_work \<Rightarrow> reg_work option" where
  "reg_rounds regid [] w = Some w"
| "reg_rounds regid (i # is) w = do { w \<leftarrow> reg_round regid i w; reg_rounds regid is w }"

text \<open>The last loop: \<open>sprintf(tmp, "%X", mykey[i]); strcat(mykey1, tmp)\<close> into \<open>mykey1[81]\<close>.\<close>

fun reg_print :: "byte list \<Rightarrow> byte list \<Rightarrow> byte list option" where
  "reg_print [] t = Some t"
| "reg_print (b # bs) t = do {
     tmp \<leftarrow> put_str (replicate 3 0) (hexX b);
     mykey1 \<leftarrow> put_str (replicate 81 0) (t @ hexX b);
     reg_print bs (t @ hexX b) }"

definition reg_check :: "byte list \<Rightarrow> MD5_CTX \<Rightarrow> RTU_SHA1_CONTEXT \<Rightarrow> byte list \<Rightarrow> bool option" where
  "reg_check regid mctx sctx key = (case key of
     [] \<Rightarrow> None
   | k0 # _ \<Rightarrow>
       if k0 \<noteq> 0 then do {
         let mykey = replicate 41 0;
         mykey \<leftarrow> blit_chk mykey 0 (take REG_ID_LEN regid);
         (mykey, mctx, sctx) \<leftarrow> reg_rounds regid [0..<40] (mykey, mctx, sctx);
         (mykey, _) \<leftarrow> rtu_des_encrypt_same mykey (int REG_ID_LEN)
           (reg_deskey (regid ! 1) (regid ! 9) (regid ! 10) (regid ! 16)
              (regid ! 5) (regid ! 2) (regid ! 22) (regid ! 7));
         mykey1 \<leftarrow> reg_print (take 40 mykey) [];
         strcmp0 (mykey1 @ [0]) key }
       else Some False)"

section \<open>Start, registration and trial\<close>

definition reg_testover :: "reg_state \<Rightarrow> bool" where
  "reg_testover s = (test_time (g_reg_info s) \<ge> REG_TEST_OVER_TIME)"

definition reg_init :: "reg_state \<Rightarrow> reg_state option" where
  "reg_init s = (let s = prvReadRegInfoFromRom s; s = prvReadRegFromFs s in do {
     (regid, _) \<leftarrow> reg_regetid (hw_uid s) (code (g_reg_info s)) (g_regid s);
     let s = s\<lparr>g_regid := regid\<rparr>;
     isreg \<leftarrow> reg_check (g_regid s) (hw_md5 s) (hw_sha s) (reg_key_field (g_reg s));
     let s = s\<lparr>g_isreg := isreg\<rparr>;
     Some (s\<lparr>g_istestover_poweron := (\<not> isreg \<and> reg_testover s)\<rparr>) })"

definition reg_reg :: "u32 \<Rightarrow> byte list \<Rightarrow> reg_state \<Rightarrow> (bool \<times> reg_state) option" where
  "reg_reg now key s = do {
     isreg \<leftarrow> reg_check (g_regid s) (hw_md5 s) (hw_sha s) key;
     let s = s\<lparr>g_isreg := isreg\<rparr>;
     let s = (if isreg
       then s\<lparr>g_reg := (g_reg s)\<lparr>reg_key_field := strncpy_image 129 key, reg_time := now\<rparr>\<rparr>
       else prvSetRegDefault s);
     s \<leftarrow> prvSaveRegCfgToFs s;
     Some (g_isreg s, s) }"

definition reg_testdo :: "u32 \<Rightarrow> reg_state \<Rightarrow> reg_state" where
  "reg_testdo sec s = (if \<not> reg_testover s
     then prvSaveRegInfoToRom (s\<lparr>g_reg_info := (g_reg_info s)\<lparr>test_time := test_time (g_reg_info s) + sec\<rparr>\<rparr>)
     else s)"

text \<open>
  The answer of the registration server after the JSON parser: None when it is no JSON text,
  otherwise the member \<open>status\<close> and, if there is a member \<open>data\<close>, its three strings. \<open>atol\<close> of a number
  beyond the range of \<open>long\<close> is undefined in C; the model takes its low 32 bits there, and no
  property depends on it.
\<close>

record reg_answer =
  ans_status :: int
  ans_data :: "(byte list option \<times> byte list option \<times> byte list option) option"

definition check_reg :: "u32 \<Rightarrow> reg_answer option \<Rightarrow> reg_state \<Rightarrow> (bool \<times> reg_state) option" where
  "check_reg now answer s = (case answer of
     None \<Rightarrow> Some (False, s)
   | Some a \<Rightarrow>
       if ans_status a = 1 then
         (case ans_data a of
            Some (Some sn, Some key, Some randomcode) \<Rightarrow>
              if length randomcode > 0 then (let
                c = (word_of_int (atoi randomcode) :: u32);
                s = (if c \<noteq> 0 \<and> c \<noteq> code (g_reg_info s)
                     then prvSaveRegInfoToRom (s\<lparr>g_reg_info := (g_reg_info s)\<lparr>code := c\<rparr>\<rparr>) else s)
                in reg_reg now (key @ [0]) s)
              else Some (False, s)
          | _ \<Rightarrow> Some (False, s))
       else if ans_status a = 0 then
         reg_reg now [0] (prvSaveRegInfoToRom (s\<lparr>g_reg_info := (g_reg_info s)\<lparr>code := REG_DEF_RANDOMCODE\<rparr>\<rparr>))
       else Some (False, s))"

text \<open>
  The query: \<open>reply\<close> is what the session delivers, None when a step before that fails. The
  result says whether there was a reply that is not empty.
\<close>

definition reg_hclient_query :: "u32 \<Rightarrow> (bool \<times> reg_answer option) option \<Rightarrow> reg_state \<Rightarrow> (bool \<times> reg_state) option" where
  "reg_hclient_query now reply s = (case reply of
     Some (True, answer) \<Rightarrow> do {
       (isreg, s) \<leftarrow> check_reg now answer s;
       Some (True, s\<lparr>g_isreg := isreg\<rparr>) }
   | _ \<Rightarrow> Some (False, s))"

text \<open>The web handler: the error code, 0 for \<open>RT_EOK\<close> and 1 for \<open>RT_ERROR\<close>.\<close>

definition doreg :: "u32 \<Rightarrow> byte list option \<Rightarrow> reg_state \<Rightarrow> (nat \<times> reg_state) option" where
  "doreg now szKey s = (case szKey of
     None \<Rightarrow> Some (0, s)
   | Some key \<Rightarrow> do { (ok, s) \<leftarrow> reg_reg now (key @ [0]) s; Some (if ok then 0 else 1, s) })"

text \<open>
  The part of the idle task that counts the trial, with ticks of a millisecond. The last
  component says that the system is reset.
\<close>

definition reg_idle :: "u32 \<Rightarrow> u32 \<Rightarrow> reg_state \<Rightarrow> u32 \<times> reg_state \<times> bool" where
  "reg_idle tickNow regtick s =
     (if tickNow - regtick \<ge> 30000 then
        (if \<not> g_isreg s then (let
           s = reg_testdo ((tickNow - regtick) div 1000) s
           in (tickNow, s, reg_testover s \<and> \<not> g_istestover_poweron s))
         else (tickNow, s, False))
      else (regtick, s, False))"

section \<open>The identifier is unique\<close>

lemma word16_cases: "d < 16 \<Longrightarrow> unat (d :: byte) \<in> set [0..<16]"
  by (simp add: word_less_nat_alt)

lemma hexU_inj: 
  assumes "d < 16" "e < 16" "hexU d = hexU e" 
  shows "d = e"
proof -
  have all: "\<forall>i \<in> set [0..<16]. \<forall>j \<in> set [0..<16]. hexU (word_of_nat i) = hexU (word_of_nat j) \<longrightarrow> i = j"
    by (simp add: upt_rec hexU_def)
  have "hexU (word_of_nat (unat d)) = hexU (word_of_nat (unat e))" using assms(3) by simp
  then have "unat d = unat e"
    using all word16_cases [OF assms(1)] word16_cases [OF assms(2)] by blast
  then show "d = e" by (rule unsigned_word_eqI)
qed

lemma nibble_bounds: "drop_bit 4 b < (16 :: byte)" "b AND 0x0F < (16 :: byte)"
proof -
  show "drop_bit 4 b < (16 :: byte)"
  proof -
    have "unat b < 256" using unsigned_less [of b] by (simp add: word_less_nat_alt)
    then show ?thesis by (simp add: word_less_nat_alt drop_bit_eq_div unat_div less_mult_imp_div_less)
  qed
  have "b AND 0x0F = take_bit 4 b" by (simp add: take_bit_eq_mask mask_numeral)
  then show "b AND 0x0F < (16 :: byte)"
    by (simp add: word_less_nat_alt unat_mod take_bit_eq_mod)
qed

lemma hex02X_inj: "hex02X a = hex02X b \<Longrightarrow> a = b"
proof -
  assume "hex02X a = hex02X b"
  then have eq: "drop_bit 4 a = drop_bit 4 b" "a AND 0x0F = b AND 0x0F"
    unfolding hex02X_def using hexU_inj nibble_bounds by blast+
  have low: "b AND 0x0F = take_bit 4 b" for b :: byte by (simp add: take_bit_eq_mask mask_numeral)
  show "a = b"
  proof (rule bit_word_eqI)
    fix n assume "n < LENGTH(8)"
    show "bit a n = bit b n"
    proof (cases "n < 4")
      case True
      then show ?thesis using arg_cong [OF eq(2) [unfolded low], of "\<lambda>w. bit w n"] by (simp add: bit_simps)
    next
      case False
      then show ?thesis using arg_cong [OF eq(1), of "\<lambda>w. bit w (n - 4)"] by (simp add: bit_simps)
    qed
  qed
qed

lemma length_hex02X [simp]: "length (hex02X b) = 2"
  by (simp add: hex02X_def)

lemma length_concat_hex02X [simp]: "length (concat (map hex02X bs)) = 2 * length bs"
  by (induction bs) simp_all

lemma concat_hex02X_inj: "length a = length b \<Longrightarrow> concat (map hex02X a) = concat (map hex02X b) \<Longrightarrow> a = b"
  by (induction a b rule: list_induct2) (auto dest: hex02X_inj)

lemma bytes_be32_inj: "bytes_be32 v = bytes_be32 w \<Longrightarrow> v = w"
proof -
  assume "bytes_be32 v = bytes_be32 w"
  then have "bytes_le32 v = bytes_le32 w" by (simp add: bytes_be32_def bytes_le32_def)
  then show "v = w" by (rule bytes_le32_inj)
qed

lemma word_NOT_inj: "NOT x = NOT y \<Longrightarrow> x = y" for x y :: "'w::len word"
  by (metis bit.double_compl)

lemma length_reg_id_text [simp]: "length (reg_id_text uid c) = 40"
  by (simp add: reg_id_text_def split: prod.splits)

lemma reg_id_text_inj: "reg_id_text uid c = reg_id_text uid' c' \<Longrightarrow> uid = uid' \<and> c = c'"
proof -
  assume eq: "reg_id_text uid c = reg_id_text uid' c'"
  obtain a0 a1 a2 a3 where a: "uid = (a0, a1, a2, a3)" using prod_cases4 by blast
  obtain b0 b1 b2 b3 where b: "uid' = (b0, b1, b2, b3)" using prod_cases4 by blast
  have "[ucast c] @ bytes_be32 (NOT a0) @ [ucast (drop_bit 8 c)] @ bytes_be32 (NOT a1) @
       [ucast (drop_bit 16 c)] @ bytes_be32 (NOT a2) @ [ucast (drop_bit 24 c)] @ bytes_be32 (NOT a3)
     = [ucast c'] @ bytes_be32 (NOT b0) @ [ucast (drop_bit 8 c')] @ bytes_be32 (NOT b1) @
       [ucast (drop_bit 16 c')] @ bytes_be32 (NOT b2) @ [ucast (drop_bit 24 c')] @ bytes_be32 (NOT b3)"
    using eq unfolding a b reg_id_text_def prod.case by (rule concat_hex02X_inj [rotated]) simp
  then have "bytes_le32 c = bytes_le32 c'" "bytes_be32 (NOT a0) = bytes_be32 (NOT b0)"
    "bytes_be32 (NOT a1) = bytes_be32 (NOT b1)" "bytes_be32 (NOT a2) = bytes_be32 (NOT b2)"
    "bytes_be32 (NOT a3) = bytes_be32 (NOT b3)"
    by (auto simp: bytes_le32_def append_eq_append_conv)
  then show ?thesis
    by (auto simp: a b dest!: bytes_le32_inj bytes_be32_inj word_NOT_inj)
qed

text \<open>Whole blocks in a longer buffer, and in place.\<close>

lemma des_blocks_prefix: "8 * m \<le> length xs \<Longrightarrow> des_blocks f m (xs @ ys) = des_blocks f m xs"
  by (induction m arbitrary: xs) simp_all

lemma rtu_des_encrypt_40:
  assumes "length out = 40" "length t = 40"
  shows "rtu_des_encrypt out (t @ r) 40 key = Some (des_blocks (des_encrypt (des_set_key key)) 5 t, 0)"
  using assms des_turns_whole [of 5]
  by (simp add: rtu_des_encrypt_result des_blocks_prefix)

lemma rtu_des_encrypt_same_40:
  assumes "length t = 40"
  shows "rtu_des_encrypt_same (t @ r) 40 key = Some (des_blocks (des_encrypt (des_set_key key)) 5 t @ r, 0)"
proof -
  have "rtu_des_encrypt_same (t @ r) 40 key = rtu_des_encrypt (t @ r) (t @ r) 40 key"
    by (simp add: rtu_des_encrypt_same_def rtu_des_encrypt_def des.loop_same_eq [of 0 "t @ r" "t @ r"])
  then show ?thesis
    using assms des_turns_whole [of 5] by (simp add: rtu_des_encrypt_result des_blocks_prefix)
qed

lemma rtu_des_decrypt_same_40:
  assumes "length t = 40"
  shows "rtu_des_decrypt_same t 40 key = Some (des_blocks (des_decrypt (des_set_key key)) 5 t, 0)"
proof -
  have "rtu_des_decrypt_same t 40 key = rtu_des_decrypt t t 40 key"
    by (simp add: rtu_des_decrypt_same_def rtu_des_decrypt_def des_inv.loop_same_eq [of 0 t t])
  then show ?thesis
    using assms des_turns_whole [of 5] by (simp add: rtu_des_decrypt_result)
qed

lemmas length_des_blocks [simp] = des.length_blocks des_inv.length_blocks

definition reg_id :: "u32 \<times> u32 \<times> u32 \<times> u32 \<Rightarrow> u32 \<Rightarrow> byte list" where
  "reg_id uid c = des_blocks (des_encrypt (des_set_key reg_key3)) 5
     (des_blocks (des_decrypt (des_set_key reg_key2)) 5
       (des_blocks (des_encrypt (des_set_key reg_key1)) 5 (reg_id_text uid c)))"

lemma length_reg_id [simp]: "length (reg_id uid c) = 40"
  by (simp add: reg_id_def)

lemma reg_regetid_result: "length out = 40 \<Longrightarrow> reg_regetid uid c out = Some (reg_id uid c, 40)"
  using rtu_des_encrypt_40 [of _ _ "[]"]
  by (simp add: reg_regetid_def reg_id_def put_str_def blit_chk_def blit_def rtu_des_encrypt_40
      rtu_des_decrypt_same_40)

lemma des_blocks_inj:
  assumes "length x = 40" "length y = 40"
  shows "des_blocks (des_encrypt (des_set_key k)) 5 x = des_blocks (des_encrypt (des_set_key k)) 5 y \<Longrightarrow> x = y"
    and "des_blocks (des_decrypt (des_set_key k)) 5 x = des_blocks (des_decrypt (des_set_key k)) 5 y \<Longrightarrow> x = y"
  using des.blocks_inverse [of 5 x k "[]"] des.blocks_inverse [of 5 y k "[]"]
    des_inv.blocks_inverse [of 5 x k "[]"] des_inv.blocks_inverse [of 5 y k "[]"] assms
  by auto

lemma reg_id_inj: "reg_id uid c = reg_id uid' c' \<Longrightarrow> uid = uid' \<and> c = c'"
  by (rule reg_id_text_inj) (auto simp: reg_id_def dest!: des_blocks_inj [rotated 2])

section \<open>The one key\<close>

text \<open>One round on the 40 bytes of \<open>mykey\<close>, with the digests as functions of the text.\<close>

definition reg_mix :: "byte \<Rightarrow> nat \<Rightarrow> byte list \<Rightarrow> byte list" where
  "reg_mix g i k =
     (if i < 39 \<and> g < 0x3F then des_blocks (des_encrypt (des_set_key (reg_deskey g g g g g g g g))) 5 k
      else if i < 39 \<and> g < 0x7F then concat (map hex02X (reg_md5_bytes (md5 k)))
      else concat (map hex02X (reg_sha_bytes (sha1 k))))"

definition reg_key :: "byte list \<Rightarrow> byte list" where
  "reg_key regid = (let
     k = foldl (\<lambda>k i. reg_mix (regid ! i) i k) regid [0..<40];
     k = des_blocks (des_encrypt (des_set_key
       (reg_deskey (regid ! 1) (regid ! 9) (regid ! 10) (regid ! 16)
          (regid ! 5) (regid ! 2) (regid ! 22) (regid ! 7)))) 5 k
     in concat (map hexX k))"

lemma length_reg_mix [simp]: "length (reg_mix g i k) = 40"
  by (simp add: reg_mix_def reg_md5_bytes_def reg_sha_bytes_def)

text \<open>The final calls leave a context that can be used again.\<close>

lemma CC_MD5_fold_keeps: "length (md_in (fst (fold CC_MD5_byte xs s))) = length (md_in (fst s))"
proof (induction xs arbitrary: s)
  case (Cons x xs)
  show ?case using Cons.IH [of "CC_MD5_byte x s"]
    by (cases s) (simp add: CC_MD5_byte_def Let_def)
qed simp

lemma CC_MD5Update_keeps: "CC_MD5Update c b n = Some c' \<Longrightarrow> length (md_in c') = length (md_in c)"
  by (auto simp: CC_MD5Update_def Let_def CC_MD5_fold_keeps md5_count_def split: if_splits)

lemma CC_MD5Final_keeps: "CC_MD5Final c = Some c' \<Longrightarrow> length (md_in c') = length (md_in c)"
  by (auto simp: CC_MD5Final_def Let_def split: bind_splits dest: CC_MD5Update_keeps)

lemma md5_run:
  assumes "length (md_in c) = 64" "length k = 40"
  shows "\<exists>c1 c2. rtu_MD5Update (rtu_MD5Init c) (k @ r) 40 = Some c1 \<and> rtu_MD5Final c1 = Some c2
    \<and> md_digest c2 = md5 k \<and> length (md_in c2) = 64"
proof -
  have len: "length k = unat (40 :: u32)" using assms(2) by simp
  obtain c1 where 1: "CC_MD5Update (CC_MD5Init c) (k @ r) 40 = Some c1" "md5_holds k c1"
    using md5_update [OF md5_start [OF assms(1)] len, of r] by auto
  obtain c2 where 2: "CC_MD5Final c1 = Some c2" "md_digest c2 = md5 k"
    using md5_final [OF 1(2)] by auto
  have "length (md_in c2) = 64"
    using CC_MD5Final_keeps [OF 2(1)] CC_MD5Update_keeps [OF 1(1)] assms(1)
    by (simp add: CC_MD5Init_def)
  with 1 2 show ?thesis by (auto simp: rtu_MD5_eq)
qed

lemma length_sha1_zeros: "length (sh_buf (sha1_zeros n c)) = length (sh_buf c)"
  by (induction n c rule: sha1_zeros.induct) (subst sha1_zeros.simps, simp)

lemma sha1_final_keeps: "length (sh_buf c) = 64 \<Longrightarrow> length (sh_buf (rtu_sha1_final c)) = 64"
  by (simp add: rtu_sha1_final_def sha1_flush_def sha1_pad_def length_sha1_zeros Let_def split: prod.splits)

lemma sha1_run:
  assumes "length (sh_buf c) = 64" "length k = 40"
  shows "\<exists>c1. rtu_sha1_write (rtu_sha1_init c) (Some (k @ r)) 40 = Some c1
    \<and> take 20 (sh_buf (rtu_sha1_final c1)) = sha1 k \<and> length (sh_buf (rtu_sha1_final c1)) = 64"
proof -
  obtain c1 where 1: "rtu_sha1_write (rtu_sha1_init c) (Some (k @ r)) 40 = Some c1" "sha1_holds k c1"
    using sha1_write_holds [OF sha1_start [OF assms(1)], of 40 "k @ r"] assms(2) by auto
  moreover have "length (sh_buf c1) = 64"
    using 1(2) by (simp add: sha1_holds_iff sha1_ok_def)
  ultimately show ?thesis
    using sha1_final_holds [of k c1] sha1_final_keeps [of c1] assms(2) by auto
qed

lemma reg_sha_bytes_take: "reg_sha_bytes (take 20 d) = reg_sha_bytes d"
  by (simp add: reg_sha_bytes_def)

lemma length_reg_sha_bytes [simp]: "length (reg_sha_bytes d) = 20"
  by (simp add: reg_sha_bytes_def)

lemma put_str_40: "length t = 40 \<Longrightarrow> length m = 41 \<Longrightarrow> put_str m t = Some (t @ [0])"
  by (simp add: put_str_def blit_chk_def blit_def)

definition reg_work_ok :: "MD5_CTX \<Rightarrow> RTU_SHA1_CONTEXT \<Rightarrow> bool" where
  "reg_work_ok m s = (length (md_in m) = 64 \<and> length (sh_buf s) = 64)"

lemma reg_round_mix:
  assumes w: "reg_work_ok m s" and k: "length k = 40"
  shows "\<exists>m' s'. reg_round regid i (k @ [0], m, s) = Some (reg_mix (regid ! i) i k @ [0], m', s')
    \<and> reg_work_ok m' s'"
proof -
  consider "i < 39 \<and> regid ! i < 0x3F" | "\<not> (i < 39 \<and> regid ! i < 0x3F)" "i < 39 \<and> regid ! i < 0x7F"
    | "\<not> (i < 39 \<and> regid ! i < 0x3F)" "\<not> (i < 39 \<and> regid ! i < 0x7F)" by blast
  then show ?thesis
  proof cases
    case 1
    then show ?thesis
      using w k by (simp add: reg_round_def reg_mix_def REG_ID_LEN_def rtu_des_encrypt_same_40 Let_def)
  next
    case 2
    obtain c1 c2 where c: "rtu_MD5Update (rtu_MD5Init m) (k @ [0]) 40 = Some c1"
      "rtu_MD5Final c1 = Some c2" "md_digest c2 = md5 k" "length (md_in c2) = 64"
      using md5_run [of m k "[0]"] w k by (auto simp: reg_work_ok_def)
    have "reg_round regid i (k @ [0], m, s) = Some (reg_mix (regid ! i) i k @ [0], c2, s)"
      unfolding reg_round_def REG_ID_LEN_def Let_def prod.case if_not_P [OF 2(1)] if_P [OF 2(2)]
      using k 2 by (simp add: c put_str_40 reg_mix_def reg_md5_bytes_def)
    then show ?thesis using w c(4) by (auto simp: reg_work_ok_def)
  next
    case 3
    obtain c1 where c: "rtu_sha1_write (rtu_sha1_init s) (Some (k @ [0])) 40 = Some c1"
      "take 20 (sh_buf (rtu_sha1_final c1)) = sha1 k" "length (sh_buf (rtu_sha1_final c1)) = 64"
      using sha1_run [of s k "[0]"] w k by (auto simp: reg_work_ok_def)
    have d: "reg_sha_bytes (sh_buf (rtu_sha1_final c1)) = reg_sha_bytes (sha1 k)"
      unfolding c(2) [symmetric] by (simp only: reg_sha_bytes_take)
    have "reg_round regid i (k @ [0], m, s) = Some (reg_mix (regid ! i) i k @ [0], m, rtu_sha1_final c1)"
      unfolding reg_round_def REG_ID_LEN_def Let_def prod.case if_not_P [OF 3(1)] if_not_P [OF 3(2)]
        reg_mix_def
      using k by (simp add: c(1) d put_str_40)
    then show ?thesis using w c(3) by (auto simp: reg_work_ok_def)
  qed
qed

lemma reg_rounds_mix:
  "reg_work_ok m s \<Longrightarrow> length k = 40 \<Longrightarrow>
   \<exists>m' s'. reg_rounds regid is (k @ [0], m, s) =
       Some (foldl (\<lambda>k i. reg_mix (regid ! i) i k) k is @ [0], m', s')"
proof (induction "is" arbitrary: k m s)
  case (Cons i "is")
  obtain m' s' where r: "reg_round regid i (k @ [0], m, s) = Some (reg_mix (regid ! i) i k @ [0], m', s')"
    "reg_work_ok m' s'" using reg_round_mix [OF Cons.prems] by blast
  show ?case using Cons.IH [OF r(2), of "reg_mix (regid ! i) i k"] r(1) by simp
qed simp

lemma length_mixes: "length k = 40 \<Longrightarrow> length (foldl (\<lambda>k i. reg_mix (regid ! i) i k) k is) = 40"
  by (induction "is" arbitrary: k) simp_all

lemma length_hexX: "length (hexX b) \<le> 2"
  by (simp add: hexX_def)

lemma reg_print_result:
  "length t + 2 * length bs \<le> 80 \<Longrightarrow> reg_print bs t = Some (t @ concat (map hexX bs))"
proof (induction bs arbitrary: t)
  case (Cons b bs)
  then show ?case
    using length_hexX [of b] by (simp add: put_str_def blit_chk_def)
qed simp

lemma hexU_nonzero: "hexU d \<noteq> 0" if "d < 16"
proof -
  have "\<forall>i \<in> set [0..<16]. hexU (word_of_nat i) \<noteq> 0"
    by (simp add: upt_rec hexU_def)
  then show ?thesis using word16_cases [OF that] by fastforce
qed

lemma hexX_nonzero: "0 \<notin> set (hexX b)"
  using hexU_nonzero nibble_bounds [of b] by (auto simp: hexX_def hex02X_def)

lemma hexX_nonempty: "hexX b \<noteq> []"
  by (simp add: hexX_def hex02X_def)

lemma reg_key_text: 
  assumes "length regid = 40"
  shows "0 \<notin> set (reg_key regid)" "reg_key regid \<noteq> []" "length (reg_key regid) \<le> 80"
proof -
  obtain k where k: "reg_key regid = concat (map hexX k)" "length k = 40"
    using assms by (simp add: reg_key_def Let_def)
  have "length (concat (map hexX bs)) \<le> 2 * length bs" for bs
    using length_hexX by (induction bs) (auto intro: add_mono order_trans)
  then show "length (reg_key regid) \<le> 80" using k by (metis mult_numeral_1_right numeral_times_numeral semiring_norm(12,13))
  show "0 \<notin> set (reg_key regid)" using k hexX_nonzero by auto
  show "reg_key regid \<noteq> []" using k hexX_nonempty by (cases k) auto
qed

lemma strcmp0_cstr:
  "0 \<notin> set a \<Longrightarrow> cstr b = Some t \<Longrightarrow> strcmp0 (a @ [0]) b = Some (a = t)"
proof (induction a arbitrary: b t)
  case Nil
  then show ?case by (cases b) (auto simp: cstr_def split: if_splits)
next
  case (Cons x a)
  then show ?case by (cases b) (auto simp: cstr_def split: if_splits)
qed

lemma strcmp0_long:
  "0 \<notin> set a \<Longrightarrow> 0 \<notin> set b \<Longrightarrow> length a < length b \<Longrightarrow> strcmp0 (a @ [0]) b = Some False"
  by (induction a b rule: list_induct2') auto

text \<open>
  The check accepts the C string \<open>reg_key regid\<close> and no other one, and does not read behind a
  key that is terminated or longer than 80 bytes.
\<close>

lemma reg_check_result:
  assumes w: "reg_work_ok m s" and id: "length regid = 40" and key: "cstr key \<noteq> None \<or> 80 < length key"
  shows "reg_check regid m s key = Some (cstr key = Some (reg_key regid))"
proof (cases "key = [] \<or> hd key = 0")
  case True
  then obtain ks where "key = 0 # ks" using key by (cases key) (auto simp: cstr_def)
  then show ?thesis using reg_key_text(2) [OF id] by (simp add: reg_check_def cstr_def)
next
  case False
  then obtain k0 ks where ks: "key = k0 # ks" "k0 \<noteq> 0" by (cases key) auto
  define k where "k = foldl (\<lambda>k i. reg_mix (regid ! i) i k) regid [0..<40]"
  define dk where "dk = reg_deskey (regid ! 1) (regid ! 9) (regid ! 10) (regid ! 16)
        (regid ! 5) (regid ! 2) (regid ! 22) (regid ! 7)"
  obtain m' s' where r: "reg_rounds regid [0..<40] (regid @ [0], m, s) = Some (k @ [0], m', s')"
    using reg_rounds_mix [OF w id, of regid "[0..<40]"] unfolding k_def by blast
  have lk: "length k = 40" using id by (simp add: k_def length_mixes)
  have start: "blit_chk (replicate 41 0) 0 (take 40 regid) = Some (regid @ [0])"
    using id by (simp add: blit_chk_def blit_def)
  have "reg_check regid m s key = strcmp0 (reg_key regid @ [0]) key"
    unfolding reg_check_def ks(1) list.case REG_ID_LEN_def Let_def dk_def [symmetric] start
    using ks(2) lk
    by (simp add: r rtu_des_encrypt_same_40 reg_print_result reg_key_def dk_def k_def del: upt.simps)
  also have "\<dots> = Some (cstr key = Some (reg_key regid))"
  proof (cases "cstr key")
    case None
    then have "0 \<notin> set key" by (auto simp: cstr_def split: if_splits)
    then show ?thesis
      using strcmp0_long [of "reg_key regid" key] reg_key_text [OF id] key None by simp
  next
    case (Some t)
    then show ?thesis using strcmp0_cstr [OF reg_key_text(1) [OF id] Some] by auto
  qed
  finally show ?thesis .
qed

section \<open>Properties\<close>

text \<open>
  C25. The identifier of a gateway has 40 bytes and determines the chip and the random code it
  was made of: two chips, or one chip with two codes, never have the same identifier. No array
  is exceeded on the way.
\<close>

theorem reg_id_unique:
  assumes "length out = 40" "length out' = 40"
  shows "\<exists>i i'. reg_regetid uid c out = Some (i, 40) \<and> reg_regetid uid' c' out' = Some (i', 40)
    \<and> length i = 40 \<and> (i = i' \<longleftrightarrow> uid = uid' \<and> c = c')"
proof -
  have "reg_id uid c = reg_id uid' c' \<longleftrightarrow> uid = uid' \<and> c = c'" using reg_id_inj by metis
  then show ?thesis
    using reg_regetid_result [OF assms(1), of uid c] reg_regetid_result [OF assms(2), of uid' c'] by simp
qed

theorem reg_id_unique_witness:
  "\<exists>i i'. reg_regetid (1, 2, 3, 4) REG_DEF_RANDOMCODE (replicate 40 0) = Some (i, 40)
    \<and> reg_regetid (1, 2, 3, 5) REG_DEF_RANDOMCODE (replicate 40 7) = Some (i', 40) \<and> i \<noteq> i'"
  using reg_id_unique [of "replicate 40 0" "replicate 40 7" "(1, 2, 3, 4)" REG_DEF_RANDOMCODE
    "(1, 2, 3, 5)" REG_DEF_RANDOMCODE] by auto

text \<open>
  C24. For each identifier there is one key, a text of at most 80 characters, and the check of a
  terminated key, or of one longer than 80 bytes, accepts exactly that: the 40 rounds compute
  the same as the digests and the block cipher as functions of the text, whatever the stack
  held before, and no array is exceeded.
\<close>

theorem reg_check_one_key:
  assumes "length regid = 40" "length (md_in m) = 64" "length (sh_buf s) = 64"
    and "cstr key \<noteq> None \<or> 80 < length key"
  shows "reg_check regid m s key = Some (cstr key = Some (reg_key regid))
    \<and> 0 < length (reg_key regid) \<and> length (reg_key regid) \<le> 80"
  using reg_check_result [of m s regid key] reg_key_text [of regid] assms
  by (simp add: reg_work_ok_def)

theorem reg_check_one_key_witness:
  "reg_check (replicate 40 0) \<lparr>md_i0 = 1, md_i1 = 2, md_buf = [], md_in = replicate 64 9, md_digest = []\<rparr>
     \<lparr>sh_h0 = 1, sh_h1 = 2, sh_h2 = 3, sh_h3 = 4, sh_h4 = 5, sh_nblocks = 6, sh_buf = replicate 64 7, sh_count = 8\<rparr>
     (replicate 129 1) = Some False"
  using reg_check_one_key [of "replicate 40 0" "\<lparr>md_i0 = 1, md_i1 = 2, md_buf = [], md_in = replicate 64 9, md_digest = []\<rparr>"
     "\<lparr>sh_h0 = 1, sh_h1 = 2, sh_h2 = 3, sh_h3 = 4, sh_h4 = 5, sh_nblocks = 6, sh_buf = replicate 64 7, sh_count = 8\<rparr>"
     "replicate 129 1"]
  by (simp add: cstr_def)

end
