(* ===== verification/RegBoot.thy ===== *)
theory RegBoot
  imports Reg
begin

text \<open>
  What a gateway keeps of its registration over a restart: the sector of the flash as a store
  of one area (the locale \<open>checked_areas\<close> of \<open>BoardCfg\<close>), the record in the configuration file,
  the start, and the runs of the idle task that count the trial.
\<close>

unbundle bit_operations_syntax

section \<open>The sector of the flash\<close>

text \<open>Writing and the checked read of the sector, as a store with one area.\<close>

definition reg_rom_put :: "byte list \<Rightarrow> byte list \<Rightarrow> byte list" where
  "reg_rom_put rom img = flash_program 4096 (reg_rom_buffer img) (flash_erase True rom)"

definition reg_rom_get :: "byte list \<Rightarrow> nat \<Rightarrow> byte list option" where
  "reg_rom_get rom n = (if n = 8 \<and> slice rom 0 4 = bytes_le32 CFG_MAGIC
      \<and> bytes_le16 (usMBCRC16 (slice rom 4 8) 8) = slice rom 12 2
    then Some (slice rom 4 8) else None)"

lemma length_reg_rom_buffer [simp]: "length img = 8 \<Longrightarrow> length (reg_rom_buffer img) = 4096"
  by (simp add: reg_rom_buffer_def Let_def)

lemma reg_rom_buffer_head:
  assumes "length img = 8"
  shows "reg_rom_buffer img = bytes_le32 CFG_MAGIC @ img @ bytes_le16 (usMBCRC16 img 8) @ replicate 4082 0"
  using assms by (simp add: reg_rom_buffer_def blit_def Let_def)

lemma and_FF_byte: "b AND 0xFF = b" for b :: byte
proof -
  have "(0xFF :: byte) = -1" by simp
  then show ?thesis by (simp only: and.right_neutral)
qed

lemma flash_program_erased:
  "n \<le> length buf \<Longrightarrow> flash_program n buf (replicate (length buf) 0xFF) = take n buf @ replicate (length buf - n) 0xFF"
proof -
  assume n: "n \<le> length buf"
  have "map2 (AND) xs (replicate m 0xFF) = xs" if "length xs \<le> m" for xs :: "byte list" and m
    using that by (intro nth_equalityI) (simp_all add: and_FF_byte)
  then show ?thesis using n by (simp add: flash_program_def)
qed

lemma reg_rom_put_result:
  "length rom = 4096 \<Longrightarrow> length img = 8 \<Longrightarrow> reg_rom_put rom img = reg_rom_buffer img"
  using flash_program_erased [of 4096 "reg_rom_buffer img"]
  by (simp add: reg_rom_put_def flash_erase_def)

lemma reg_rom_get_buffer: "length img = 8 \<Longrightarrow> reg_rom_get (reg_rom_buffer img) 8 = Some img"
  by (simp add: reg_rom_get_def reg_rom_buffer_head slice_def bytes_le16_def)

lemma length_reg_rom_put [simp]:
  "length rom = 4096 \<Longrightarrow> length img = 8 \<Longrightarrow> length (reg_rom_put rom img) = 4096"
  by (simp add: reg_rom_put_result)

interpretation rom: checked_areas "\<lambda>rom. length rom = 4096" "\<lambda>(k :: unit) n. n = 8"
  "\<lambda>rom k n. reg_rom_get rom n" "\<lambda>rom k img. reg_rom_put rom img"
  by unfold_locales (simp_all add: reg_rom_put_result reg_rom_get_buffer)

text \<open>What a start reads from the sector.\<close>

definition reg_rom_info :: "byte list \<Rightarrow> reg_info_t" where
  "reg_rom_info rom = (case reg_rom_get rom 8 of
     None \<Rightarrow> \<lparr>test_time = 0, code = REG_DEF_RANDOMCODE\<rparr> | Some img \<Rightarrow> reg_info_of_image img)"

lemma reg_info_image_roundtrip [simp]: "reg_info_of_image (reg_info_image i) = i"
  by (simp add: reg_info_of_image_def reg_info_image_def bytes_le32_def le32_bytes_le32)

lemma length_reg_info_image [simp]: "length (reg_info_image i) = 8"
  by (simp add: reg_info_image_def)

lemma reg_info_of_image_roundtrip: "length bs = 8 \<Longrightarrow> reg_info_image (reg_info_of_image bs) = bs"
proof -
  assume "length bs = 8"
  then obtain a b c d e f g h where "bs = [a, b, c, d, e, f, g, h]"
    by (auto simp: length_Suc_conv eval_nat_numeral)
  then show ?thesis by (simp add: reg_info_of_image_def reg_info_image_def bytes_le32_le32)
qed

lemma prvReadRegInfoFromRom_result:
  assumes "length (hw_rom s) = 4096"
  shows "prvReadRegInfoFromRom s = s\<lparr>g_reg_info := reg_rom_info (hw_rom s)\<rparr>"
  using assms
  by (auto simp: prvReadRegInfoFromRom_def reg_rom_info_def reg_rom_get_def Let_def
      prvSetRegInfoDefault_def reg_info_of_image_roundtrip)

definition flash_works :: "reg_state \<Rightarrow> bool" where
  "flash_works s = (hw_alloc s \<and> hw_erase s \<and> hw_program s = 4096)"

lemma prvSaveRegInfoToRom_works:
  "flash_works s \<Longrightarrow> prvSaveRegInfoToRom s = s\<lparr>hw_rom := reg_rom_put (hw_rom s) (reg_info_image (g_reg_info s))\<rparr>"
  by (simp add: flash_works_def prvSaveRegInfoToRom_def reg_rom_put_def)

lemma reg_rom_info_put [simp]:
  "length rom = 4096 \<Longrightarrow> reg_rom_info (reg_rom_put rom (reg_info_image i)) = i"
  using rom.rd_wr [of rom "reg_info_image i"] by (simp add: reg_rom_info_def)

section \<open>The registration in the file\<close>

lemma length_reg_image:
  "length (reg_key_field r) = 129 \<Longrightarrow> length (reg_pad r) = 3 \<Longrightarrow> length (reg_image r) = 136"
  by (simp add: reg_image_def)

lemma reg_image_roundtrip:
  "length (reg_key_field r) = 129 \<Longrightarrow> length (reg_pad r) = 3 \<Longrightarrow> reg_of_image (reg_image r) = r"
  by (simp add: reg_of_image_def reg_image_def slice_def nth_append bytes_le32_def le32_bytes_le32)

definition reg_fields_ok :: "reg_t \<Rightarrow> bool" where
  "reg_fields_ok r = (length (reg_key_field r) = 129 \<and> length (reg_pad r) = 3)"

lemma reg_of_image_ok: "length bs = 136 \<Longrightarrow> reg_fields_ok (reg_of_image bs)"
  by (simp add: reg_fields_ok_def reg_of_image_def slice_def)

lemma c_reg_default_ok [simp]: "reg_fields_ok c_reg_default"
  by (simp add: reg_fields_ok_def c_reg_default_def)

text \<open>The hardware works and the arrays have their lengths.\<close>

definition reg_wf :: "reg_state \<Rightarrow> bool" where
  "reg_wf s = (length (g_regid s) = 40 \<and> reg_work_ok (hw_md5 s) (hw_sha s) \<and> reg_fields_ok (g_reg s)
     \<and> length (hw_rom s) = 4096 \<and> cfg_works (hw_disk s))"

text \<open>What a start reads from the file.\<close>

definition reg_file_reg :: "cfg_disk \<Rightarrow> reg_t" where
  "reg_file_reg d = (case cfg_get d Cfg_Reg 136 of None \<Rightarrow> c_reg_default | Some img \<Rightarrow> reg_of_image img)"

lemma reg_file_reg_ok: "reg_fields_ok (reg_file_reg d)"
  by (auto simp: reg_file_reg_def split: option.splits dest!: cfg_get_holds intro: reg_of_image_ok)

text \<open>A read leaves the disk.\<close>

definition fs_reading :: "cfg_fd \<Rightarrow> bool" where
  "fs_reading fd = (f_fault fd = None \<and> \<not> f_write fd)"

lemma fs_lseek_reading: "fs_reading fd \<Longrightarrow> fs_lseek d fd ofs = (r, fd') \<Longrightarrow> fs_reading fd'"
  by (auto simp: fs_reading_def fs_lseek_def Let_def)

lemma fs_read_reading: "fs_reading fd \<Longrightarrow> fs_read fd n = (r, g, fd') \<Longrightarrow> fs_reading fd'"
  by (auto simp: fs_reading_def fs_read_def Let_def)

lemma fs_close_reading: "d_fault d = None \<Longrightarrow> fs_reading fd \<Longrightarrow> fs_close d fd = d"
  by (simp add: fs_close_def fs_reading_def)

lemma board_cfg_read_disk:
  assumes d: "d_fault d = None"
  shows "snd (snd (board_cfg_read d ofs p)) = d"
proof (cases "fs_open d False")
  case None
  then show ?thesis by (simp add: board_cfg_read_def)
next
  case (Some fd)
  then have 0: "fs_reading fd"
    using d by (auto simp: fs_open_def fs_reading_def split: if_splits option.splits)
  obtain pos fd1 where s: "fs_lseek d fd ofs = (pos, fd1)" by fastforce
  obtain r m fd2 where m: "fs_read fd1 4 = (r, m, fd2)" using prod_cases3 by blast
  obtain n got fd3 where g: "fs_read fd2 (length p) = (n, got, fd3)" using prod_cases3 by blast
  obtain n' chk fd4 where c: "fs_read fd3 2 = (n', chk, fd4)" using prod_cases3 by blast
  have 1: "fs_reading fd1" using fs_lseek_reading [OF 0 s] .
  have 2: "fs_reading fd2" using fs_read_reading [OF 1 m] .
  have 3: "fs_reading fd3" using fs_read_reading [OF 2 g] .
  have 4: "fs_reading fd4" using fs_read_reading [OF 3 c] .
  note closes = 1 [THEN fs_close_reading [OF d]] 2 [THEN fs_close_reading [OF d]]
    3 [THEN fs_close_reading [OF d]] 4 [THEN fs_close_reading [OF d]]
  show ?thesis
    unfolding board_cfg_read_def Some option.case s m g c Let_def prod.case
    by (simp add: closes m g c)
qed

lemma board_cfg_read_get:
  assumes "cfg_works d" "length p = n"
  shows "board_cfg_read d (cfg_ofs k) p = (case cfg_get d k n of
      None \<Rightarrow> (False, fst (snd (board_cfg_read d (cfg_ofs k) p)), d) | Some v \<Rightarrow> (True, v, d))"
proof (cases "cfg_get d k n")
  case (Some v)
  then have "length v = n" "cfg_holds d (cfg_ofs k) v" using cfg_get_holds by auto
  then show ?thesis
    using assms Some cfg_read_complete [of d "cfg_ofs k" v p] by (simp add: cfg_works_def)
next
  case None
  have "fst (board_cfg_read d (cfg_ofs k) p) = False"
  proof (rule ccontr)
    assume "\<not> ?thesis"
    then obtain v d' where "board_cfg_read d (cfg_ofs k) p = (True, v, d')"
      by (cases "board_cfg_read d (cfg_ofs k) p") auto
    from cfg_read_sound [OF this] show False
      using None assms cfg_get_complete [of d k v] by simp
  qed
  then show ?thesis
    using None board_cfg_read_disk [of d "cfg_ofs k" p] assms(1)
    by (cases "board_cfg_read d (cfg_ofs k) p") (auto simp: cfg_works_def)
qed

lemma prvReadRegFromFs_result:
  assumes "reg_wf s"
  shows "prvReadRegFromFs s = s\<lparr>g_reg := reg_file_reg (hw_disk s)\<rparr>"
proof -
  have len: "length (reg_image (g_reg s)) = 136" and d: "cfg_works (hw_disk s)"
    using assms by (simp_all add: reg_wf_def reg_fields_ok_def length_reg_image)
  show ?thesis
    unfolding prvReadRegFromFs_def cfg_ofs.simps(3) [symmetric]
    by (subst board_cfg_read_get [OF d len])
      (simp add: reg_file_reg_def prvSetRegDefault_def split: option.splits)
qed

lemma prvSaveRegCfgToFs_result:
  assumes "reg_wf s"
  shows "prvSaveRegCfgToFs s = Some (s\<lparr>hw_disk := cfg_put (hw_disk s) Cfg_Reg (reg_image (g_reg s))\<rparr>)"
proof -
  have fit: "cfg_fits Cfg_Reg (length (reg_image (g_reg s)))" and d: "cfg_works (hw_disk s)"
    using assms by (simp_all add: reg_wf_def reg_fields_ok_def length_reg_image cfg_fits_def cfg_layout)
  show ?thesis
    using cfg_write_fits [OF d fit] cfg_put_fits [OF d fit] by (simp add: prvSaveRegCfgToFs_def)
qed

lemma reg_file_reg_put:
  assumes "cfg_works d" "reg_fields_ok r"
  shows "reg_file_reg (cfg_put d Cfg_Reg (reg_image r)) = r"
  using cfg.rd_wr [of d Cfg_Reg "reg_image r"] assms
  by (simp add: reg_file_reg_def reg_fields_ok_def length_reg_image reg_image_roundtrip
      cfg_fits_def cfg_layout)

section \<open>Start and registration\<close>

lemma reg_init_result:
  assumes "reg_wf s"
  shows "\<exists>s'. reg_init s = Some s' \<and> reg_wf s' \<and> g_reg_info s' = reg_rom_info (hw_rom s)
    \<and> g_reg s' = reg_file_reg (hw_disk s) \<and> g_regid s' = reg_id (hw_uid s) (code (g_reg_info s'))
    \<and> g_isreg s' = (cstr (reg_key_field (g_reg s')) = Some (reg_key (g_regid s')))
    \<and> hw_rom s' = hw_rom s \<and> hw_disk s' = hw_disk s \<and> hw_uid s' = hw_uid s
    \<and> g_istestover_poweron s' = (\<not> g_isreg s' \<and> reg_testover s')
    \<and> hw_alloc s' = hw_alloc s \<and> hw_erase s' = hw_erase s \<and> hw_program s' = hw_program s"
proof -
  define i where "i = reg_rom_info (hw_rom s)"
  define r where "r = reg_file_reg (hw_disk s)"
  have r: "reg_fields_ok r" by (simp add: r_def reg_file_reg_ok)
  have 1: "prvReadRegInfoFromRom s = s\<lparr>g_reg_info := i\<rparr>"
    using assms by (simp add: prvReadRegInfoFromRom_result reg_wf_def i_def)
  have "reg_wf (s\<lparr>g_reg_info := i\<rparr>)" using assms by (simp add: reg_wf_def)
  then have 2: "prvReadRegFromFs (s\<lparr>g_reg_info := i\<rparr>) = s\<lparr>g_reg_info := i, g_reg := r\<rparr>"
    using prvReadRegFromFs_result by (simp add: r_def)
  have 3: "reg_regetid (hw_uid s) (code i) (g_regid s) = Some (reg_id (hw_uid s) (code i), 40)"
    using assms by (simp add: reg_regetid_result reg_wf_def)
  have 4: "reg_check (reg_id (hw_uid s) (code i)) (hw_md5 s) (hw_sha s) (reg_key_field r) =
      Some (cstr (reg_key_field r) = Some (reg_key (reg_id (hw_uid s) (code i))))"
    using assms r by (intro reg_check_result) (simp_all add: reg_wf_def reg_fields_ok_def)
  show ?thesis
    using assms r
    by (simp add: reg_init_def 1 2 3 4 Let_def reg_wf_def reg_testover_def i_def [symmetric] r_def [symmetric])
qed

lemma cstr_terminated: "0 \<notin> set key \<Longrightarrow> cstr (key @ [0]) = Some key"
  using cstr_append0 [of key "[]"] by simp

lemma strncpy_image_key:
  assumes "0 \<notin> set key" "length key < n"
  shows "length (strncpy_image n (key @ [0])) = n \<and> cstr (strncpy_image n (key @ [0])) = Some key"
proof -
  have "takeWhile (\<lambda>b. b \<noteq> 0) (key @ [0]) = key"
    using assms(1) by (induction key) auto
  moreover have "take n (key @ [0]) = key @ [0]" using assms(2) by simp
  ultimately have "takeWhile (\<lambda>b. b \<noteq> 0) (take n (key @ [0])) = key" by simp
  then have "strncpy_image n (key @ [0]) = key @ 0 # replicate (n - Suc (length key)) 0"
    using assms(2) by (simp add: strncpy_image_def Let_def Suc_diff_Suc replicate_Suc [symmetric] del: replicate_Suc)
  then show ?thesis using assms by (simp add: cstr_append0)
qed

text \<open>The record that a registration leaves.\<close>

definition reg_entry :: "u32 \<Rightarrow> byte list \<Rightarrow> reg_state \<Rightarrow> reg_t" where
  "reg_entry now key s = (if key = reg_key (g_regid s)
     then (g_reg s)\<lparr>reg_key_field := strncpy_image 129 (key @ [0]), reg_time := now\<rparr> else c_reg_default)"

lemma reg_entry_ok:
  assumes "reg_wf s" "0 \<notin> set key"
  shows "reg_fields_ok (reg_entry now key s)"
  using assms reg_key_text(3) [of "g_regid s"] strncpy_image_key [of key 129]
  by (auto simp: reg_entry_def reg_fields_ok_def reg_wf_def c_reg_default_def)

lemma reg_entry_key:
  assumes "reg_wf s" "0 \<notin> set key" "length id' = 40"
  shows "cstr (reg_key_field (reg_entry now key s)) = Some (reg_key id')
    \<longleftrightarrow> key = reg_key (g_regid s) \<and> key = reg_key id'"
proof (cases "key = reg_key (g_regid s)")
  case True
  then show ?thesis
    using assms reg_key_text(3) [of "g_regid s"] strncpy_image_key [of key 129]
    by (auto simp: reg_entry_def reg_wf_def)
next
  case False
  then show ?thesis
    using reg_key_text(2) [OF assms(3)] by (auto simp: reg_entry_def c_reg_default_def cstr_def)
qed

lemma reg_reg_result:
  fixes now :: u32
  assumes wf: "reg_wf s" and key: "0 \<notin> set key"
  defines "r \<equiv> reg_entry now key s"
  shows "\<exists>s'. reg_reg now (key @ [0]) s = Some (key = reg_key (g_regid s), s') \<and> reg_wf s'
    \<and> hw_disk s' = cfg_put (hw_disk s) Cfg_Reg (reg_image r) \<and> g_reg s' = r \<and> g_regid s' = g_regid s
    \<and> hw_rom s' = hw_rom s \<and> hw_uid s' = hw_uid s \<and> g_reg_info s' = g_reg_info s"
proof -
  have c: "reg_check (g_regid s) (hw_md5 s) (hw_sha s) (key @ [0]) = Some (key = reg_key (g_regid s))"
    using wf reg_check_result [of "hw_md5 s" "hw_sha s" "g_regid s" "key @ [0]"]
    by (simp add: reg_wf_def cstr_terminated [OF key])
  define s1 where "s1 = s\<lparr>g_isreg := (key = reg_key (g_regid s)), g_reg := r\<rparr>"
  have r: "reg_fields_ok r" unfolding r_def by (rule reg_entry_ok [OF wf key])
  then have wf1: "reg_wf s1" using wf by (simp add: reg_wf_def s1_def)
  have "reg_reg now (key @ [0]) s = do { s \<leftarrow> prvSaveRegCfgToFs s1; Some (g_isreg s, s) }"
    by (simp add: reg_reg_def c s1_def r_def reg_entry_def prvSetRegDefault_def Let_def)
  also have "\<dots> = Some (key = reg_key (g_regid s),
      s1\<lparr>hw_disk := cfg_put (hw_disk s1) Cfg_Reg (reg_image (g_reg s1))\<rparr>)"
    by (simp add: prvSaveRegCfgToFs_result [OF wf1]) (simp add: s1_def)
  finally show ?thesis
    using wf1 r cfg.ok_wr [of "hw_disk s" Cfg_Reg "reg_image r"]
    by (auto simp: s1_def reg_wf_def reg_fields_ok_def length_reg_image cfg_fits_def cfg_layout)
qed

text \<open>A restart: the variables hold anything, the memories what they held.\<close>

definition power_cycle :: "reg_state \<Rightarrow> reg_state \<Rightarrow> reg_state" where
  "power_cycle s ram = ram\<lparr>hw_disk := hw_disk s, hw_rom := hw_rom s, hw_uid := hw_uid s\<rparr>"

lemma power_cycle_wf: "reg_wf s \<Longrightarrow> reg_wf ram \<Longrightarrow> reg_wf (power_cycle s ram)"
  by (simp add: reg_wf_def power_cycle_def)

lemma power_cycle_reads:
  assumes "reg_wf s" "reg_wf ram"
  shows "\<exists>s'. reg_init (power_cycle s ram) = Some s' \<and> g_reg_info s' = reg_rom_info (hw_rom s)
    \<and> g_reg s' = reg_file_reg (hw_disk s) \<and> g_regid s' = reg_id (hw_uid s) (code (g_reg_info s'))
    \<and> g_isreg s' = (cstr (reg_key_field (g_reg s')) = Some (reg_key (g_regid s')))
    \<and> g_istestover_poweron s' = (\<not> g_isreg s' \<and> reg_testover s')"
  using reg_init_result [OF power_cycle_wf [OF assms]] by (auto simp: power_cycle_def)

section \<open>The trial\<close>

text \<open>The sector holds what a start would read as \<open>g_reg_info\<close>.\<close>

definition reg_synced :: "reg_state \<Rightarrow> bool" where
  "reg_synced s = (reg_wf s \<and> flash_works s \<and> g_reg_info s = reg_rom_info (hw_rom s))"

lemma trial_no_wrap:
  fixes t d :: u32
  assumes "t < REG_TEST_OVER_TIME"
  shows "t \<le> t + d div 1000"
proof -
  have "unat t < 7776000"
    using assms by (simp add: REG_TEST_OVER_TIME_def word_less_nat_alt)
  moreover have "unat (d div 1000) \<le> 4294967"
  proof -
    have "unat d < 2 ^ LENGTH(32)" by (rule unsigned_less)
    then have "unat d \<le> 4294967295" by simp
    then have "unat d div 1000 \<le> 4294967295 div 1000" by (rule div_le_mono)
    then show ?thesis by (simp add: unat_div)
  qed
  ultimately show ?thesis
    by (simp add: word_le_nat_alt unat_word_ariths)
qed

lemma reg_testdo_synced:
  assumes "reg_synced s"
  shows "reg_synced (reg_testdo (d div 1000) s)
    \<and> test_time (g_reg_info s) \<le> test_time (g_reg_info (reg_testdo (d div 1000) s))
    \<and> g_isreg (reg_testdo (d div 1000) s) = g_isreg s
    \<and> g_istestover_poweron (reg_testdo (d div 1000) s) = g_istestover_poweron s"
proof (cases "reg_testover s")
  case True
  then show ?thesis using assms by (simp add: reg_testdo_def)
next
  case False
  then have "test_time (g_reg_info s) < REG_TEST_OVER_TIME"
    by (simp add: reg_testover_def)
  then have le: "test_time (g_reg_info s) \<le> test_time (g_reg_info s) + d div 1000"
    by (rule trial_no_wrap)
  define s1 where "s1 = s\<lparr>g_reg_info := (g_reg_info s)\<lparr>test_time := test_time (g_reg_info s) + d div 1000\<rparr>\<rparr>"
  have s1: "flash_works s1" "reg_wf s1" using assms by (simp_all add: reg_synced_def flash_works_def reg_wf_def s1_def)
  have "reg_testdo (d div 1000) s = prvSaveRegInfoToRom s1"
    using False by (simp add: reg_testdo_def s1_def)
  then have eq: "reg_testdo (d div 1000) s =
      s1\<lparr>hw_rom := reg_rom_put (hw_rom s1) (reg_info_image (g_reg_info s1))\<rparr>"
    using prvSaveRegInfoToRom_works [OF s1(1)] by simp
  have "length (hw_rom s1) = 4096" using s1(2) by (simp add: reg_wf_def)
  then show ?thesis
    using s1 le unfolding eq
    by (simp add: reg_synced_def flash_works_def reg_wf_def) (simp add: s1_def)
qed

text \<open>Turns of the idle task at the given ticks, up to a reset.\<close>

fun reg_idles :: "u32 list \<Rightarrow> u32 \<Rightarrow> reg_state \<Rightarrow> u32 \<times> reg_state \<times> bool" where
  "reg_idles [] regtick s = (regtick, s, False)"
| "reg_idles (t # ts) regtick s = (case reg_idle t regtick s of
     (regtick, s, reset) \<Rightarrow> if reset then (regtick, s, True) else reg_idles ts regtick s)"

lemma reg_idle_synced:
  assumes "reg_synced s" "reg_idle t r s = (r', s', reset)"
  shows "reg_synced s' \<and> test_time (g_reg_info s) \<le> test_time (g_reg_info s')
    \<and> g_istestover_poweron s' = g_istestover_poweron s
    \<and> (reset \<longrightarrow> reg_testover s' \<and> \<not> g_istestover_poweron s')"
  using assms reg_testdo_synced [OF assms(1), of "t - r"]
  by (auto simp: reg_idle_def Let_def split: if_splits)

lemma reg_idles_synced:
  "reg_synced s \<Longrightarrow> reg_idles ts r s = (r', s', reset) \<Longrightarrow>
    reg_synced s' \<and> test_time (g_reg_info s) \<le> test_time (g_reg_info s')
    \<and> g_istestover_poweron s' = g_istestover_poweron s
    \<and> (reset \<longrightarrow> reg_testover s' \<and> \<not> g_istestover_poweron s')"
proof (induction ts r s rule: reg_idles.induct)
  case (2 t ts r s)
  obtain r1 s1 b where i: "reg_idle t r s = (r1, s1, b)" using prod_cases3 by blast
  note one = reg_idle_synced [OF "2.prems"(1) i]
  show ?case
  proof (cases b)
    case True
    then have "r1 = r' \<and> s1 = s' \<and> reset" using "2.prems"(2) i by simp
    then show ?thesis using True one by auto
  next
    case False
    then have "reg_idles ts r1 s1 = (r', s', reset)" using "2.prems"(2) i by simp
    then show ?thesis using "2.IH" [OF i [symmetric] refl False] one by (auto simp: i)
  qed
qed simp

section \<open>Properties\<close>

text \<open>
  C8. A registration survives a restart, and nothing else does: after a start, entering a text
  succeeds just if it is the key of the gateway; and after a restart with any content of the
  variables the gateway has the same identifier and is registered just if it succeeded.
\<close>

theorem reg_survives_restart:
  assumes "reg_wf s0" "reg_init s0 = Some s" "0 \<notin> set key" "reg_wf ram"
  shows "\<exists>s' s''. reg_reg now (key @ [0]) s = Some (key = reg_key (g_regid s), s')
    \<and> reg_init (power_cycle s' ram) = Some s'' \<and> g_regid s'' = g_regid s
    \<and> g_isreg s'' = (key = reg_key (g_regid s))"
proof -
  have s: "reg_wf s" "g_reg_info s = reg_rom_info (hw_rom s)" "g_regid s = reg_id (hw_uid s) (code (g_reg_info s))"
    using reg_init_result [OF assms(1)] assms(2) by auto
  obtain s' where s': "reg_reg now (key @ [0]) s = Some (key = reg_key (g_regid s), s')" "reg_wf s'"
    "hw_disk s' = cfg_put (hw_disk s) Cfg_Reg (reg_image (reg_entry now key s))"
    "hw_rom s' = hw_rom s" "hw_uid s' = hw_uid s"
    using reg_reg_result [OF s(1) assms(3), of now] by blast
  obtain s'' where s'': "reg_init (power_cycle s' ram) = Some s''" "g_reg_info s'' = reg_rom_info (hw_rom s')"
    "g_reg s'' = reg_file_reg (hw_disk s')" "g_regid s'' = reg_id (hw_uid s') (code (g_reg_info s''))"
    "g_isreg s'' = (cstr (reg_key_field (g_reg s'')) = Some (reg_key (g_regid s'')))"
    using power_cycle_reads [OF s'(2) assms(4)] by blast
  have id: "g_regid s'' = g_regid s" using s s' s'' by simp
  have "g_reg s'' = reg_entry now key s"
    using s'' s' s(1) reg_entry_ok [OF s(1) assms(3)] by (simp add: reg_file_reg_put reg_wf_def)
  then show ?thesis
    using s' s'' id s(1) reg_entry_key [OF s(1) assms(3), of "g_regid s" now] by (auto simp: reg_wf_def)
qed

definition reg_example :: reg_state where
  "reg_example = \<lparr>g_reg = c_reg_default, g_reg_info = \<lparr>test_time = 5, code = 6\<rparr>, g_regid = replicate 40 1,
     g_isreg = True, g_istestover_poweron = True,
     hw_disk = \<lparr>d_file = None, d_opens = True, d_room = 65536, d_stale = (\<lambda>_. 7), d_fault = None\<rparr>,
     hw_rom = replicate 4096 0xFF, hw_uid = (1, 2, 3, 4), hw_alloc = True, hw_erase = True,
     hw_program = 4096,
     hw_md5 = \<lparr>md_i0 = 1, md_i1 = 2, md_buf = [], md_in = replicate 64 9, md_digest = []\<rparr>,
     hw_sha = \<lparr>sh_h0 = 1, sh_h1 = 2, sh_h2 = 3, sh_h3 = 4, sh_h4 = 5, sh_nblocks = 6,
       sh_buf = replicate 64 7, sh_count = 8\<rparr>\<rparr>"

lemma reg_example_wf: "reg_wf reg_example"
  by (simp add: reg_example_def reg_wf_def reg_work_ok_def cfg_works_def cfg_layout)

theorem reg_survives_restart_witness:
  "\<exists>s s' s''. reg_init reg_example = Some s \<and> reg_reg 1000 (reg_key (g_regid s) @ [0]) s = Some (True, s')
    \<and> reg_init (power_cycle s' reg_example) = Some s'' \<and> g_isreg s''"
proof -
  obtain s where s: "reg_init reg_example = Some s" "reg_wf s"
    using reg_init_result [OF reg_example_wf] by blast
  then have "0 \<notin> set (reg_key (g_regid s))" by (simp add: reg_key_text reg_wf_def)
  from reg_survives_restart [OF reg_example_wf s(1) this reg_example_wf, of 1000] s(1)
  show ?thesis by auto
qed

text \<open>
  A new random code from the server splits the identifier: the key that comes with it is
  checked against the identifier of the old code, which stays in memory, but the next start
  makes a different identifier from the new code. So the gateway stays registered only if the
  same text is the key of both.
\<close>

theorem reg_stale_id:
  fixes c :: u32
  assumes "reg_wf s0" "flash_works s0" "reg_init s0 = Some s" "0 \<notin> set key" "reg_wf ram"
    and "c = word_of_int (atoi randomcode)" "randomcode \<noteq> []" "c \<noteq> 0" "c \<noteq> code (g_reg_info s)"
  shows "\<exists>s' s''. check_reg now (Some \<lparr>ans_status = 1, ans_data = Some (Some sn, Some key, Some randomcode)\<rparr>) s
        = Some (key = reg_key (g_regid s), s')
    \<and> reg_init (power_cycle s' ram) = Some s'' \<and> g_regid s' = g_regid s \<and> g_regid s'' \<noteq> g_regid s
    \<and> g_isreg s'' = (key = reg_key (g_regid s) \<and> key = reg_key (g_regid s''))"
proof -
  have s: "reg_wf s" "g_regid s = reg_id (hw_uid s) (code (g_reg_info s))" "flash_works s"
    using reg_init_result [OF assms(1)] assms(2,3) by (auto simp: flash_works_def)
  define s1 where "s1 = s\<lparr>g_reg_info := (g_reg_info s)\<lparr>code := c\<rparr>\<rparr>"
  define s2 where "s2 = s1\<lparr>hw_rom := reg_rom_put (hw_rom s1) (reg_info_image (g_reg_info s1))\<rparr>"
  have "prvSaveRegInfoToRom s1 = s2"
    using s(3) by (simp add: s2_def prvSaveRegInfoToRom_works flash_works_def s1_def)
  then have check: "check_reg now (Some \<lparr>ans_status = 1, ans_data = Some (Some sn, Some key, Some randomcode)\<rparr>) s
      = reg_reg now (key @ [0]) s2"
    using assms(6-9) by (simp add: check_reg_def s1_def)
  have len: "length (hw_rom s) = 4096" using s(1) by (simp add: reg_wf_def)
  then have wf2: "reg_wf s2" using s(1) by (simp add: s2_def s1_def reg_wf_def reg_rom_put_result)
  have id2: "g_regid s2 = g_regid s" by (simp add: s2_def s1_def)
  obtain s' where s': "reg_reg now (key @ [0]) s2 = Some (key = reg_key (g_regid s2), s')" "reg_wf s'"
    "hw_disk s' = cfg_put (hw_disk s2) Cfg_Reg (reg_image (reg_entry now key s2))"
    "hw_rom s' = hw_rom s2" "hw_uid s' = hw_uid s2" "g_regid s' = g_regid s2"
    using reg_reg_result [OF wf2 assms(4), of now] by blast
  obtain s'' where s'': "reg_init (power_cycle s' ram) = Some s''" "g_reg_info s'' = reg_rom_info (hw_rom s')"
    "g_reg s'' = reg_file_reg (hw_disk s')" "g_regid s'' = reg_id (hw_uid s') (code (g_reg_info s''))"
    "g_isreg s'' = (cstr (reg_key_field (g_reg s'')) = Some (reg_key (g_regid s'')))"
    using power_cycle_reads [OF s'(2) assms(5)] by blast
  have "code (g_reg_info s'') = c"
    using s''(2) s'(4) len by (simp add: s2_def s1_def)
  then have ne: "g_regid s'' \<noteq> g_regid s"
    using s''(4) s'(5) s(2) assms(9) reg_id_inj [of "hw_uid s" c "hw_uid s" "code (g_reg_info s)"]
    by (auto simp: s2_def s1_def)
  have "g_reg s'' = reg_entry now key s2"
    using s'' s' wf2 reg_entry_ok [OF wf2 assms(4)] by (simp add: reg_file_reg_put reg_wf_def)
  then have "g_isreg s'' = (key = reg_key (g_regid s) \<and> key = reg_key (g_regid s''))"
    using s''(4,5) reg_entry_key [OF wf2 assms(4), of "g_regid s''" now] id2 by simp
  then show ?thesis using check s' s''(1) id2 ne by auto
qed

theorem reg_stale_id_witness:
  "\<exists>s s' s''. reg_init reg_example = Some s
    \<and> check_reg 1000 (Some \<lparr>ans_status = 1, ans_data = Some (Some [], Some (reg_key (g_regid s)), Some [0x37])\<rparr>) s
        = Some (True, s')
    \<and> reg_init (power_cycle s' reg_example) = Some s'' \<and> g_regid s'' \<noteq> g_regid s'"
proof -
  obtain s where s: "reg_init reg_example = Some s" "reg_wf s" "g_reg_info s = reg_rom_info (hw_rom reg_example)"
    using reg_init_result [OF reg_example_wf] by blast
  then have key: "0 \<notin> set (reg_key (g_regid s))" by (simp add: reg_key_text reg_wf_def)
  have seven: "(7 :: u32) = word_of_int (atoi [0x37])"
    by (simp add: atoi_def atoi_digits_def is_digit_def is_space_def)
  have "slice (replicate 4096 0xFF) 0 4 ! 0 \<noteq> bytes_le32 CFG_MAGIC ! 0"
    by (simp add: slice_def CFG_MAGIC_bytes)
  then have "reg_rom_get (hw_rom reg_example) 8 = None"
    by (auto simp: reg_rom_get_def reg_example_def)
  then have "code (g_reg_info s) = REG_DEF_RANDOMCODE"
    by (simp add: s(3) reg_rom_info_def)
  then have code: "(7 :: u32) \<noteq> code (g_reg_info s)" by (simp add: REG_DEF_RANDOMCODE_def)
  have fl: "flash_works reg_example" by (simp add: flash_works_def reg_example_def)
  from reg_stale_id [OF reg_example_wf fl s(1) key reg_example_wf seven _ _ code, of 1000 "[]"] s(1)
  show ?thesis by auto
qed

text \<open>
  C20. The trial. Whatever the ticks at which the idle task runs, the time of the trial never
  goes down, a restart reads back what was counted, and the gateway is reset at most once: the
  reset comes only when the trial is over, and the start after it either finds a registration
  or notes that the trial was over, after which no idle turn resets.
\<close>

theorem reg_trial:
  assumes "reg_wf s0" "flash_works s0" "reg_init s0 = Some s" "reg_wf ram"
    and "reg_idles ts regtick s = (r, s', reset)"
  shows "test_time (g_reg_info s) \<le> test_time (g_reg_info s')
    \<and> (\<exists>s''. reg_init (power_cycle s' ram) = Some s'' \<and> g_reg_info s'' = g_reg_info s'
        \<and> (reset \<longrightarrow> g_isreg s'' \<or> g_istestover_poweron s''))
    \<and> (g_istestover_poweron s \<longrightarrow> \<not> reset)"
proof -
  have s: "reg_synced s"
    using reg_init_result [OF assms(1)] assms(2,3) by (auto simp: reg_synced_def flash_works_def)
  note run = reg_idles_synced [OF s assms(5)]
  obtain s'' where s'': "reg_init (power_cycle s' ram) = Some s''" "g_reg_info s'' = reg_rom_info (hw_rom s')"
    "g_istestover_poweron s'' = (\<not> g_isreg s'' \<and> reg_testover s'')"
    using power_cycle_reads [of s' ram] run assms(4) by (auto simp: reg_synced_def)
  have "g_reg_info s'' = g_reg_info s'" using s''(2) run by (simp add: reg_synced_def)
  then show ?thesis using s'' run by (auto simp: reg_testover_def)
qed

theorem reg_trial_witness:
  "\<exists>s r s' reset s''. reg_init reg_example = Some s \<and> reg_idles [30000, 60500] 0 s = (r, s', reset)
    \<and> reg_init (power_cycle s' reg_example) = Some s'' \<and> g_reg_info s'' = g_reg_info s'"
proof -
  obtain s where s: "reg_init reg_example = Some s"
    using reg_init_result [OF reg_example_wf] by blast
  obtain r s' reset where i: "reg_idles [30000, 60500] 0 s = (r, s', reset)" using prod_cases3 by blast
  have fl: "flash_works reg_example" by (simp add: flash_works_def reg_example_def)
  from reg_trial [OF reg_example_wf fl s reg_example_wf i] s i show ?thesis by blast
qed

text \<open>
  Power lost between the erase of the sector and the first word of the new image gives the
  whole trial back: the next start reads no valid sector, sets the time to 0 and the random
  code to the default.
\<close>

theorem reg_power_cut:
  assumes "reg_wf s" "hw_alloc s" "hw_erase s" "hw_program s < 4" "\<not> reg_testover s" "reg_wf ram"
  shows "\<exists>s'. reg_init (power_cycle (reg_testdo sec s) ram) = Some s'
    \<and> test_time (g_reg_info s') = 0 \<and> code (g_reg_info s') = REG_DEF_RANDOMCODE"
proof -
  define s1 where "s1 = s\<lparr>g_reg_info := (g_reg_info s)\<lparr>test_time := test_time (g_reg_info s) + sec\<rparr>\<rparr>"
  define buf where "buf = reg_rom_buffer (reg_info_image (g_reg_info s1))"
  define rom' where "rom' = take (hw_program s) buf @ replicate (4096 - hw_program s) 0xFF"
  have len: "length (hw_rom s) = 4096" "length buf = 4096"
    using assms(1) by (simp_all add: reg_wf_def buf_def)
  have "reg_testdo sec s = prvSaveRegInfoToRom s1"
    using assms(5) by (simp add: reg_testdo_def s1_def)
  also have "\<dots> = s1\<lparr>hw_rom := rom'\<rparr>"
    using assms(2-4) len flash_program_erased [of "hw_program s" buf]
    by (simp add: prvSaveRegInfoToRom_def s1_def buf_def rom'_def flash_erase_def)
  finally have s2: "reg_testdo sec s = s1\<lparr>hw_rom := rom'\<rparr>" .
  have "length rom' = 4096" using assms(4) len by (simp add: rom'_def)
  then have wf: "reg_wf (reg_testdo sec s)" using assms(1) unfolding s2 by (simp add: s1_def reg_wf_def)
  have "rom' ! 3 = 0xFF" using assms(4) len by (simp add: rom'_def nth_append)
  then have "slice rom' 0 4 ! 3 \<noteq> bytes_le32 CFG_MAGIC ! 3"
    by (simp add: slice_def CFG_MAGIC_bytes)
  then have "reg_rom_get rom' 8 = None" by (auto simp: reg_rom_get_def)
  then show ?thesis
    using power_cycle_reads [OF wf assms(6)] by (auto simp: s2 reg_rom_info_def)
qed

theorem reg_power_cut_witness:
  "\<exists>s'. reg_init (power_cycle (reg_testdo 30 (reg_example\<lparr>hw_program := 0\<rparr>)) reg_example) = Some s'
    \<and> test_time (g_reg_info s') = 0"
proof -
  have "reg_wf (reg_example\<lparr>hw_program := 0\<rparr>)" "\<not> reg_testover (reg_example\<lparr>hw_program := 0\<rparr>)"
    "hw_alloc (reg_example\<lparr>hw_program := 0\<rparr>)" "hw_erase (reg_example\<lparr>hw_program := 0\<rparr>)"
    using reg_example_wf by (simp_all add: reg_wf_def reg_testover_def reg_example_def REG_TEST_OVER_TIME_def)
  from reg_power_cut [OF this(1) this(3) this(4) _ this(2) reg_example_wf, of 30] show ?thesis by auto
qed

end
