(* ===== verification/LuaMem.thy ===== *)
theory LuaMem
  imports Prelude
begin

text \<open>
  The allocator of the Lua scripts (\<open>board/lua/lua_mem.c\<close>): one area of memory, cut into blocks
  with headers of eight bytes that are linked by their offsets in both directions.

  The area is a list of bytes; the headers are read from it and written to it, and \<open>None\<close> is an
  access outside of it or a loop that does not end. \<open>RT_DEBUG\<close> is off, so \<open>RT_ASSERT\<close> is empty;
  \<open>RT_LUA_RTU_MEM_DEBUG\<close> is defined (as 0), so the statistics are kept. The semaphore makes the
  operations atomic.

  Shown: the area stays a sequence of blocks without two free neighbours; allocation, release and
  reallocation refine a map from addresses to contents; where an allocation fails although a block
  is free, and what a reallocation hides from it.
\<close>

section \<open>Headers\<close>

text \<open>The bit fields of \<open>struct heap_mem\<close> in two little-endian words.\<close>

record heap_mem =
  hm_magic :: byte
  hm_next :: nat
  hm_used :: byte
  hm_prev :: nat

definition HEAP_MAGIC :: byte where "HEAP_MAGIC = 0xde"

definition bytes24 :: "nat \<Rightarrow> byte list" where
  "bytes24 n = [word_of_nat n, word_of_nat (n div 256), word_of_nat (n div 65536)]"

definition nat24 :: "byte list \<Rightarrow> nat" where
  "nat24 b = unat (b ! 0) + 256 * unat (b ! 1) + 65536 * unat (b ! 2)"

definition hm_enc :: "heap_mem \<Rightarrow> byte list" where
  "hm_enc h = [hm_magic h] @ bytes24 (hm_next h) @ [hm_used h] @ bytes24 (hm_prev h)"

definition hm_dec :: "byte list \<Rightarrow> heap_mem" where
  "hm_dec b = \<lparr>hm_magic = b ! 0, hm_next = nat24 (slice b 1 3), hm_used = b ! 4, hm_prev = nat24 (slice b 5 3)\<rparr>"

definition hm_get :: "byte list \<Rightarrow> nat \<Rightarrow> heap_mem option" where
  "hm_get m p = (if p + 8 \<le> length m then Some (hm_dec (slice m p 8)) else None)"

definition hm_upd :: "nat \<Rightarrow> (heap_mem \<Rightarrow> heap_mem) \<Rightarrow> byte list \<Rightarrow> byte list option" where
  "hm_upd p f m = do { h \<leftarrow> hm_get m p; Some (blit m p (hm_enc (f h))) }"

section \<open>Operations\<close>

text \<open>
  \<open>heap_ptr\<close> is \<open>lm_base\<close>; the other pointers into the area are offsets from it. \<open>lm_size\<close> is
  \<open>mem_size_aligned\<close>, and \<open>heap_end\<close> stands behind it.
\<close>

record lua_heap =
  lm_mem :: "byte list"
  lm_base :: nat
  lm_size :: u32
  lm_free :: nat
  lm_used :: u32
  lm_max :: u32

definition heap_end :: "lua_heap \<Rightarrow> nat" where
  "heap_end s = unat (lm_size s + 8)"

definition RT_ALIGN4 :: "u32 \<Rightarrow> u32" where "RT_ALIGN4 n = (n + 3) AND NOT 3"
definition RT_ALIGN_DOWN4 :: "u32 \<Rightarrow> u32" where "RT_ALIGN_DOWN4 n = n AND NOT 3"

text \<open>\<open>area\<close> is what the memory holds before; nothing is done when there is no room.\<close>

definition lua_system_heap_init :: "u32 \<Rightarrow> u32 \<Rightarrow> (u32 \<Rightarrow> u32 \<Rightarrow> byte list) \<Rightarrow> lua_heap \<Rightarrow> lua_heap option" where
  "lua_system_heap_init begin_addr end_addr area s =
     (let begin_align = RT_ALIGN4 begin_addr;
          end_align = RT_ALIGN_DOWN4 end_addr
      in if 16 < end_align \<and> begin_align \<le> end_align - 16
         then let M = end_align - begin_align - 16; e = unat (M + 8); m = area begin_align (M + 16) in do {
           m \<leftarrow> hm_upd 0 (\<lambda>h. \<lparr>hm_magic = HEAP_MAGIC, hm_next = e, hm_used = 0, hm_prev = 0\<rparr>) m;
           m \<leftarrow> hm_upd e (\<lambda>h. \<lparr>hm_magic = HEAP_MAGIC, hm_next = e, hm_used = 1, hm_prev = e\<rparr>) m;
           Some (s\<lparr>lm_mem := m, lm_base := unat begin_align, lm_size := M, lm_free := 0\<rparr>) }
         else Some s)"

definition plug_next :: "nat \<Rightarrow> nat \<Rightarrow> byte list \<times> nat \<Rightarrow> (byte list \<times> nat) option" where
  "plug_next e p = (\<lambda>(m, lfree). do {
     mem \<leftarrow> hm_get m p;
     nmem \<leftarrow> hm_get m (hm_next mem);
     if p \<noteq> hm_next mem \<and> hm_used nmem = 0 \<and> hm_next mem \<noteq> e then do {
         m \<leftarrow> hm_upd p (\<lambda>h. h\<lparr>hm_next := hm_next nmem\<rparr>) m;
         m \<leftarrow> hm_upd (hm_next nmem) (\<lambda>h. h\<lparr>hm_prev := p\<rparr>) m;
         Some (m, if lfree = hm_next mem then p else lfree) }
     else Some (m, lfree) })"

definition plug_prev :: "nat \<Rightarrow> byte list \<times> nat \<Rightarrow> (byte list \<times> nat) option" where
  "plug_prev p = (\<lambda>(m, lfree). do {
     mem \<leftarrow> hm_get m p;
     pmem \<leftarrow> hm_get m (hm_prev mem);
     if hm_prev mem \<noteq> p \<and> hm_used pmem = 0 then do {
         m \<leftarrow> hm_upd (hm_prev mem) (\<lambda>h. h\<lparr>hm_next := hm_next mem\<rparr>) m;
         m \<leftarrow> hm_upd (hm_next mem) (\<lambda>h. h\<lparr>hm_prev := hm_prev mem\<rparr>) m;
         Some (m, if lfree = p then hm_prev mem else lfree) }
     else Some (m, lfree) })"

definition plug_holes :: "nat \<Rightarrow> nat \<Rightarrow> byte list \<times> nat \<Rightarrow> (byte list \<times> nat) option" where
  "plug_holes e p s = do { s \<leftarrow> plug_next e p s; plug_prev p s }"

text \<open>The room behind the header at \<open>p\<close>, and the loops of \<open>lua_malloc\<close>.\<close>

definition hm_room :: "nat \<Rightarrow> heap_mem \<Rightarrow> nat" where
  "hm_room p h = unat (word_of_nat (hm_next h) - word_of_nat (p + 8) :: u32)"

partial_function (option) mal_find :: "byte list \<Rightarrow> nat \<Rightarrow> nat \<Rightarrow> nat \<Rightarrow> nat option option" where
  "mal_find m bound sz p = (if p < bound then do {
       h \<leftarrow> hm_get m p;
       if hm_used h = 0 \<and> sz \<le> hm_room p h then Some (Some p) else mal_find m bound sz (hm_next h) }
     else Some None)"

partial_function (option) next_free :: "byte list \<Rightarrow> nat \<Rightarrow> nat \<Rightarrow> nat option" where
  "next_free m e p = do {
     h \<leftarrow> hm_get m p;
     if hm_used h \<noteq> 0 \<and> p \<noteq> e then next_free m e (hm_next h) else Some p }"

text \<open>The block at \<open>p\<close> is taken, what is behind \<open>sz\<close> is split off if it is large enough.\<close>

definition mal_take :: "nat \<Rightarrow> nat \<Rightarrow> nat \<Rightarrow> byte list \<Rightarrow> (byte list \<times> nat) option" where
  "mal_take e sz p m = do {
     h \<leftarrow> hm_get m p;
     if sz + 8 + 8 \<le> hm_room p h then do {
       let p2 = p + 8 + sz;
       m \<leftarrow> hm_upd p2 (\<lambda>h2. h2\<lparr>hm_used := 0, hm_next := hm_next h, hm_prev := p\<rparr>) m;
       m \<leftarrow> hm_upd p (\<lambda>h. h\<lparr>hm_next := p2, hm_used := 1\<rparr>) m;
       m \<leftarrow> (if hm_next h \<noteq> e then hm_upd (hm_next h) (\<lambda>x. x\<lparr>hm_prev := p2\<rparr>) m else Some m);
       Some (m, sz + 8) }
     else do {
       m \<leftarrow> hm_upd p (\<lambda>h. h\<lparr>hm_used := 1\<rparr>) m;
       Some (m, hm_next h - p) } }"

definition lua_malloc :: "u32 \<Rightarrow> lua_heap \<Rightarrow> (nat \<times> lua_heap) option" where
  "lua_malloc sz s =
     (if sz = 0 then Some (0, s)
      else if lm_size s < RT_ALIGN4 sz then Some (0, s)
      else let size = max 8 (RT_ALIGN4 sz) in do {
        r \<leftarrow> mal_find (lm_mem s) (unat (lm_size s - size)) (unat size) (lm_free s);
        (case r of None \<Rightarrow> Some (0, s)
        | Some p \<Rightarrow> do {
            (m, n) \<leftarrow> mal_take (heap_end s) (unat size) p (lm_mem s);
            let used = lm_used s + word_of_nat n;
            m \<leftarrow> hm_upd p (\<lambda>h. h\<lparr>hm_magic := HEAP_MAGIC\<rparr>) m;
            lfree \<leftarrow> (if p = lm_free s then next_free m (heap_end s) p else Some (lm_free s));
            Some (lm_base s + p + 8,
              s\<lparr>lm_mem := m, lm_free := lfree, lm_used := used, lm_max := max (lm_max s) used\<rparr>) }) })"

text \<open>The offset of the header in front of \<open>rmem\<close>; \<open>None\<close> in front of the area.\<close>

definition hm_of :: "lua_heap \<Rightarrow> nat \<Rightarrow> nat option" where
  "hm_of s rmem = (if lm_base s + 8 \<le> rmem then Some (rmem - lm_base s - 8) else None)"

definition lua_illegal :: "lua_heap \<Rightarrow> nat \<Rightarrow> bool" where
  "lua_illegal s rmem = (rmem < lm_base s \<or> lm_base s + heap_end s \<le> rmem)"

definition lua_free :: "nat \<Rightarrow> lua_heap \<Rightarrow> lua_heap option" where
  "lua_free rmem s =
     (if rmem = 0 then Some s
      else if lua_illegal s rmem then Some s
      else do {
        p \<leftarrow> hm_of s rmem;
        m \<leftarrow> hm_upd p (\<lambda>h. h\<lparr>hm_used := 0, hm_magic := 0\<rparr>) (lm_mem s);
        h \<leftarrow> hm_get m p;
        (m, lfree) \<leftarrow> plug_holes (heap_end s) p (m, min p (lm_free s));
        Some (s\<lparr>lm_mem := m, lm_free := lfree, lm_used := lm_used s - word_of_nat (hm_next h - p)\<rparr>) })"

definition lua_realloc :: "nat \<Rightarrow> u32 \<Rightarrow> lua_heap \<Rightarrow> (nat \<times> lua_heap) option" where
  "lua_realloc rmem sz s =
     (let newsize = RT_ALIGN4 sz in
      if lm_size s < newsize then Some (0, s)
      else if rmem = 0 then lua_malloc newsize s
      else if lua_illegal s rmem then Some (rmem, s)
      else do {
        p \<leftarrow> hm_of s rmem;
        h \<leftarrow> hm_get (lm_mem s) p;
        let size = word_of_nat (hm_room p h);
        if size = newsize then Some (rmem, s)
        else if newsize + 8 + 8 < size then do {
          let p2 = p + 8 + unat newsize;
          m \<leftarrow> hm_upd p2 (\<lambda>_. \<lparr>hm_magic = HEAP_MAGIC, hm_next = hm_next h, hm_used = 0, hm_prev = p\<rparr>) (lm_mem s);
          m \<leftarrow> hm_upd p (\<lambda>h. h\<lparr>hm_next := p2\<rparr>) m;
          m \<leftarrow> (if hm_next h \<noteq> heap_end s then hm_upd (hm_next h) (\<lambda>x. x\<lparr>hm_prev := p2\<rparr>) m else Some m);
          (m, lfree) \<leftarrow> plug_holes (heap_end s) p2 (m, lm_free s);
          Some (rmem, s\<lparr>lm_mem := m, lm_free := lfree, lm_used := lm_used s - (size - newsize)\<rparr>) }
        else do {
          (nmem, s) \<leftarrow> lua_malloc newsize s;
          if nmem = 0 then Some (0, s)
          else do {
            m \<leftarrow> blit_chk (lm_mem s) (nmem - lm_base s) (slice (lm_mem s) (rmem - lm_base s) (unat (min size newsize)));
            s \<leftarrow> lua_free rmem (s\<lparr>lm_mem := m\<rparr>);
            Some (nmem, s) } } })"

definition lua_calloc :: "u32 \<Rightarrow> u32 \<Rightarrow> lua_heap \<Rightarrow> (nat \<times> lua_heap) option" where
  "lua_calloc count sz s = do {
     (p, s) \<leftarrow> lua_malloc (count * sz) s;
     if p = 0 then Some (p, s)
     else do {
       m \<leftarrow> blit_chk (lm_mem s) (p - lm_base s) (replicate (unat (count * sz)) 0);
       Some (p, s\<lparr>lm_mem := m\<rparr>) } }"

definition lua_memory_info :: "lua_heap \<Rightarrow> u32 \<times> u32 \<times> u32" where
  "lua_memory_info s = (lm_size s, lm_used s, lm_max s)"

text \<open>The allocator as the interpreter calls it (\<open>lauxlib.c\<close>).\<close>

definition l_alloc :: "nat \<Rightarrow> u32 \<Rightarrow> lua_heap \<Rightarrow> (nat \<times> lua_heap) option" where
  "l_alloc ptr nsize s = (if nsize = 0 then do { s \<leftarrow> lua_free ptr s; Some (0, s) } else lua_realloc ptr nsize s)"

section \<open>Reading and writing headers\<close>

lemma length_hm_enc [simp]: "length (hm_enc h) = 8"
  by (simp add: hm_enc_def bytes24_def)

lemma nat24_bytes24: "n < 2 ^ 24 \<Longrightarrow> nat24 (bytes24 n) = n"
proof -
  assume n: "n < 2 ^ 24"
  have "n mod 256 + 256 * (n div 256 mod 256) + 65536 * (n div 65536) = n"
  proof -
    have d: "n div 65536 = n div 256 div 256" using div_mult2_eq [of n 256 256] by simp
    show ?thesis unfolding d using mult_div_mod_eq [of 256 n] mult_div_mod_eq [of 256 "n div 256"] by linarith
  qed
  moreover have "n div 65536 mod 256 = n div 65536" using n by (simp add: div_less_iff_less_mult)
  ultimately show ?thesis by (simp add: nat24_def bytes24_def unat_of_nat)
qed

lemma hm_dec_enc: "hm_next h < 2 ^ 24 \<Longrightarrow> hm_prev h < 2 ^ 24 \<Longrightarrow> hm_dec (hm_enc h) = h"
proof -
  assume a: "hm_next h < 2 ^ 24" "hm_prev h < 2 ^ 24"
  have "slice (hm_enc h) 1 3 = bytes24 (hm_next h)" "slice (hm_enc h) 5 3 = bytes24 (hm_prev h)"
    "hm_enc h ! 0 = hm_magic h" "hm_enc h ! 4 = hm_used h"
    by (simp_all add: slice_def hm_enc_def bytes24_def)
  with a show ?thesis by (simp add: hm_dec_def nat24_bytes24)
qed

lemma nat24_bound: "nat24 b < 2 ^ 24"
proof -
  have "unat (b ! 0) < 256" "unat (b ! 1) < 256" "unat (b ! 2) < 256"
    using unsigned_less [of "b ! 0"] unsigned_less [of "b ! 1"] unsigned_less [of "b ! 2"] by simp_all
  then show ?thesis by (simp add: nat24_def)
qed

lemma hm_get_bound: "hm_get m p = Some h \<Longrightarrow> p + 8 \<le> length m \<and> hm_next h < 2 ^ 24 \<and> hm_prev h < 2 ^ 24"
  using nat24_bound by (auto simp: hm_get_def hm_dec_def simp del: power_numeral split: if_splits)

lemma slice_blit_same: "i + length src \<le> length buf \<Longrightarrow> slice (blit buf i src) i (length src) = src"
  by (simp add: slice_def blit_def)

lemma slice_blit_out:
  assumes "i + length src \<le> length buf" "p + n \<le> i \<or> i + length src \<le> p" "p + n \<le> length buf"
  shows "slice (blit buf i src) p n = slice buf p n"
  using assms by (intro nth_equalityI) (auto simp: slice_def blit_nth_before blit_nth_after)

lemma slice_slice: "i + k \<le> n \<Longrightarrow> slice (slice m p n) i k = slice m (p + i) k"
  by (simp add: slice_def drop_take min.absorb1 add.commute)

lemma slice_within:
  assumes "slice m' p n = slice m p n" "p \<le> j" "j + k \<le> p + n"
  shows "slice m' j k = slice m j k"
  using slice_slice [of "j - p" k n m p] slice_slice [of "j - p" k n m' p] assms by simp

text \<open>A header that is written can be read, and every other run of bytes is as before.\<close>

lemma hm_upd_get:
  assumes "hm_get m p = Some h" "hm_next (f h) < 2 ^ 24" "hm_prev (f h) < 2 ^ 24"
  obtains m' where "hm_upd p f m = Some m'" "hm_get m' p = Some (f h)" "length m' = length m"
    "\<And>i n. i + n \<le> length m \<Longrightarrow> i + n \<le> p \<or> p + 8 \<le> i \<Longrightarrow> slice m' i n = slice m i n"
proof
  let ?m = "blit m p (hm_enc (f h))"
  have p: "p + 8 \<le> length m" using hm_get_bound [OF assms(1)] by simp
  show "hm_upd p f m = Some ?m" by (simp add: hm_upd_def assms(1))
  have "slice ?m p 8 = hm_enc (f h)" using slice_blit_same [of p "hm_enc (f h)" m] p by simp
  then show "hm_get ?m p = Some (f h)" using p assms(2,3) by (simp add: hm_get_def hm_dec_enc)
  show "length ?m = length m" using p by simp
  show "slice ?m i n = slice m i n" if "i + n \<le> length m" "i + n \<le> p \<or> p + 8 \<le> i" for i n
    using slice_blit_out [of p "hm_enc (f h)" m i n] p that by simp
qed

lemma hm_get_slice: "slice m' p 8 = slice m p 8 \<Longrightarrow> length m' = length m \<Longrightarrow> hm_get m' p = hm_get m p"
  by (simp add: hm_get_def)

section \<open>Blocks\<close>

text \<open>
  What an area holds, seen as a list: free blocks by their size, used blocks with their content.
  \<open>blocks m p q bs\<close>: the blocks from \<open>p\<close> on, the first of which points back to \<open>q\<close>, up to the
  end mark; \<open>seg\<close>: a part of them.
\<close>

datatype blk = Free nat | Used "byte list"

fun blen :: "blk \<Rightarrow> nat" where
  "blen (Free n) = n"
| "blen (Used d) = length d"

fun is_free :: "blk \<Rightarrow> bool" where
  "is_free (Free n) = True"
| "is_free (Used d) = False"

fun span :: "blk list \<Rightarrow> nat" where
  "span [] = 0"
| "span (b # bs) = 8 + blen b + span bs"

definition blk_at :: "byte list \<Rightarrow> nat \<Rightarrow> nat \<Rightarrow> blk \<Rightarrow> bool" where
  "blk_at m p q b = (\<exists>h. hm_get m p = Some h \<and> hm_next h = p + 8 + blen b \<and> hm_prev h = q
     \<and> (case b of Free n \<Rightarrow> hm_used h = 0 | Used d \<Rightarrow> hm_used h = 1 \<and> slice m (p + 8) (length d) = d))"

definition end_at :: "byte list \<Rightarrow> nat \<Rightarrow> bool" where
  "end_at m p = (\<exists>h. hm_get m p = Some h \<and> hm_used h = 1 \<and> hm_next h = p)"

fun seg :: "byte list \<Rightarrow> nat \<Rightarrow> nat \<Rightarrow> blk list \<Rightarrow> bool" where
  "seg m p q [] = True"
| "seg m p q (b # bs) = (blk_at m p q b \<and> seg m (p + 8 + blen b) p bs)"

fun blocks :: "byte list \<Rightarrow> nat \<Rightarrow> nat \<Rightarrow> blk list \<Rightarrow> bool" where
  "blocks m p q [] = end_at m p"
| "blocks m p q (b # bs) = (blk_at m p q b \<and> blocks m (p + 8 + blen b) p bs)"

text \<open>The last header of a part, or the one before it.\<close>

definition last_at :: "nat \<Rightarrow> nat \<Rightarrow> blk list \<Rightarrow> nat" where
  "last_at p q bs = (if bs = [] then q else p + span (butlast bs))"

lemma span_append [simp]: "span (as @ bs) = span as + span bs"
  by (induction as) simp_all

lemma last_at_simps [simp]: "last_at p q [] = q" "last_at p q (as @ [b]) = p + span as"
  by (simp_all add: last_at_def)

lemma last_at_Cons: "last_at p q (b # bs) = last_at (p + 8 + blen b) p bs"
  by (cases bs rule: rev_cases) (simp_all add: last_at_def)

lemma seg_parts: "seg m p q (as @ bs) = (seg m p q as \<and> seg m (p + span as) (last_at p q as) bs)"
  by (induction as arbitrary: p q) (simp_all add: last_at_Cons ac_simps)

lemma blocks_append: "blocks m p q (as @ bs) = (seg m p q as \<and> blocks m (p + span as) (last_at p q as) bs)"
  by (induction as arbitrary: p q) (simp_all add: last_at_Cons ac_simps)

lemma blocks_len: "blocks m p q bs \<Longrightarrow> p + span bs + 8 \<le> length m"
proof (induction bs arbitrary: p q)
  case (Cons b bs)
  then have "p + 8 + blen b + span bs + 8 \<le> length m" by (metis blocks.simps(2))
  then show ?case by simp
qed (auto simp: end_at_def dest!: hm_get_bound)

text \<open>Blocks depend only on the bytes they occupy.\<close>

lemma blk_at_slice:
  assumes "slice m' p (8 + blen b) = slice m p (8 + blen b)" "length m' = length m" "blk_at m p q b"
  shows "blk_at m' p q b"
proof -
  have "slice m' p 8 = slice m p 8" "slice m' (p + 8) (blen b) = slice m (p + 8) (blen b)"
    by (rule slice_within [OF assms(1)]; simp)+
  moreover from this(1) have "hm_get m' p = hm_get m p" using assms(2) by (rule hm_get_slice)
  ultimately show ?thesis using assms(3) by (cases b) (auto simp: blk_at_def)
qed

lemma seg_slice:
  assumes "slice m' p (span bs) = slice m p (span bs)" "length m' = length m" "seg m p q bs"
  shows "seg m' p q bs"
  using assms
proof (induction bs arbitrary: p q)
  case (Cons b bs)
  have "slice m' p (8 + blen b) = slice m p (8 + blen b)" "slice m' (p + 8 + blen b) (span bs) = slice m (p + 8 + blen b) (span bs)"
    by (rule slice_within [OF Cons.prems(1)]; simp)+
  with Cons.IH [OF this(2) Cons.prems(2)] Cons.prems(3) blk_at_slice [OF this(1) Cons.prems(2)] show ?case by simp
qed simp

lemma blocks_slice:
  assumes "slice m' p (span bs + 8) = slice m p (span bs + 8)" "length m' = length m" "blocks m p q bs"
  shows "blocks m' p q bs"
  using assms
proof (induction bs arbitrary: p q)
  case Nil
  have "hm_get m' p = hm_get m p" by (rule hm_get_slice) (use Nil in simp_all)
  with Nil show ?case by (simp add: end_at_def)
next
  case (Cons b bs)
  have "slice m' p (8 + blen b) = slice m p (8 + blen b)"
    "slice m' (p + 8 + blen b) (span bs + 8) = slice m (p + 8 + blen b) (span bs + 8)"
    by (rule slice_within [OF Cons.prems(1)]; simp)+
  with Cons.IH [OF this(2) Cons.prems(2)] Cons.prems(3) blk_at_slice [OF this(1) Cons.prems(2)] show ?case by simp
qed

text \<open>The link back of the first block can be set.\<close>

lemma set_prev:
  assumes "blocks m p q bs" "r < 2 ^ 24"
  obtains m' where "hm_upd p (\<lambda>h. h\<lparr>hm_prev := r\<rparr>) m = Some m'" "blocks m' p r bs" "length m' = length m"
    "\<And>i n. i + n \<le> p \<Longrightarrow> slice m' i n = slice m i n"
proof -
  obtain h where h: "hm_get m p = Some h" using assms(1) by (cases bs) (auto simp: end_at_def blk_at_def)
  note b = hm_get_bound [OF h]
  obtain m' where m': "hm_upd p (\<lambda>h. h\<lparr>hm_prev := r\<rparr>) m = Some m'" "hm_get m' p = Some (h\<lparr>hm_prev := r\<rparr>)"
    "length m' = length m" "\<And>i n. i + n \<le> length m \<Longrightarrow> i + n \<le> p \<or> p + 8 \<le> i \<Longrightarrow> slice m' i n = slice m i n"
    using hm_upd_get [OF h, of "\<lambda>h. h\<lparr>hm_prev := r\<rparr>"] b assms(2) by auto
  have "blocks m' p r bs"
  proof (cases bs)
    case Nil
    then show ?thesis using assms(1) m'(2) h by (simp add: end_at_def)
  next
    case (Cons c cs)
    have len: "p + 8 + blen c + (span cs + 8) \<le> length m" using blocks_len [OF assms(1)] Cons by simp
    have "blocks m' (p + 8 + blen c) p cs"
      using blocks_slice [of m' "p + 8 + blen c" cs m p] assms(1) Cons m'(3,4) len by simp
    moreover have "slice m' (p + 8) (blen c) = slice m (p + 8) (blen c)" using m'(4) len by simp
    ultimately show ?thesis using assms(1) Cons m'(2) h by (cases c) (auto simp: blk_at_def)
  qed
  with that m' b show ?thesis by simp
qed

section \<open>The loops\<close>

fun first_fit :: "nat \<Rightarrow> nat \<Rightarrow> nat \<Rightarrow> blk list \<Rightarrow> (blk list \<times> nat \<times> blk list) option" where
  "first_fit bound sz p [] = None"
| "first_fit bound sz p (b # bs) = (if p < bound
     then if is_free b \<and> sz \<le> blen b then Some ([], blen b, bs)
       else map_option (\<lambda>r. (b # fst r, snd r)) (first_fit bound sz (p + 8 + blen b) bs)
     else None)"

lemma room_at: "blk_at m p q b \<Longrightarrow> hm_get m p = Some h \<Longrightarrow> hm_room p h = blen b"
proof -
  assume b: "blk_at m p q b" "hm_get m p = Some h"
  then have n: "hm_next h = p + 8 + blen b" "hm_next h < 2 ^ 24" using hm_get_bound [OF b(2)] by (auto simp: blk_at_def)
  then have "word_of_nat (hm_next h) - word_of_nat (p + 8) = (word_of_nat (blen b) :: u32)" by simp
  then show ?thesis using n by (simp add: hm_room_def unat_of_nat)
qed

lemma free_at: "blk_at m p q b \<Longrightarrow> hm_get m p = Some h \<Longrightarrow> (hm_used h = 0) = is_free b"
  by (cases b) (auto simp: blk_at_def)

lemma blk_at_get: "blk_at m p q b \<Longrightarrow> \<exists>h. hm_get m p = Some h \<and> hm_next h = p + 8 + blen b \<and> hm_prev h = q"
  by (auto simp: blk_at_def)

lemma mal_find_first:
  assumes "blocks m p q rs" "bound \<le> p + span rs"
  shows "mal_find m bound sz p = Some (map_option (\<lambda>r. p + span (fst r)) (first_fit bound sz p rs))"
  using assms
proof (induction rs arbitrary: p q)
  case Nil
  then show ?case by (subst mal_find.simps) simp
next
  case (Cons b bs)
  then have b: "blk_at m p q b" by simp
  then obtain h where h: "hm_get m p = Some h" "hm_next h = p + 8 + blen b" using blk_at_get by blast
  have "mal_find m bound sz (p + 8 + blen b) = Some (map_option (\<lambda>r. p + 8 + blen b + span (fst r))
      (first_fit bound sz (p + 8 + blen b) bs))"
    using Cons.IH [of "p + 8 + blen b" p] Cons.prems by simp
  then show ?case
    by (subst mal_find.simps, cases "first_fit bound sz (p + 8 + blen b) bs")
      (auto simp: h free_at [OF b h(1)] room_at [OF b h(1)])
qed

lemma next_free_prefix:
  assumes "blocks m p q bs" "e = p + span bs"
  shows "next_free m e p = Some (p + span (takeWhile (\<lambda>b. \<not> is_free b) bs))"
  using assms
proof (induction bs arbitrary: p q)
  case Nil
  then show ?case by (subst next_free.simps) (auto simp: end_at_def)
next
  case (Cons b bs)
  then have b: "blk_at m p q b" by simp
  then obtain h where h: "hm_get m p = Some h" "hm_next h = p + 8 + blen b" using blk_at_get by blast
  have "next_free m e (p + 8 + blen b) = Some (p + 8 + blen b + span (takeWhile (\<lambda>b. \<not> is_free b) bs))"
    using Cons.IH [of "p + 8 + blen b" p] Cons.prems by simp
  with Cons.prems(2) show ?case
    by (subst next_free.simps) (simp add: h free_at [OF b h(1)] add.assoc)
qed

section \<open>Taking a block\<close>

lemma blk_at_Free: "blk_at m p q (Free n) = (\<exists>h. hm_get m p = Some h \<and> hm_next h = p + 8 + n \<and> hm_prev h = q \<and> hm_used h = 0)"
  by (simp add: blk_at_def)

lemma blk_at_Used: "blk_at m p q (Used d) = (\<exists>h. hm_get m p = Some h \<and> hm_next h = p + 8 + length d \<and> hm_prev h = q
    \<and> hm_used h = 1 \<and> slice m (p + 8) (length d) = d)"
  by (simp add: blk_at_def)

text \<open>A write to the header of one block, in the middle of the others.\<close>

lemma set_blk:
  assumes "blocks m p q (b # bs)" "seg m 0 0 as" "p = span as" "hm_get m p = Some h"
    "hm_next (f h) < 2 ^ 24" "hm_prev (f h) < 2 ^ 24"
  obtains m' where "hm_upd p f m = Some m'" "hm_get m' p = Some (f h)" "length m' = length m"
    "seg m' 0 0 as" "\<And>i n. i + n \<le> length m \<Longrightarrow> p + 8 \<le> i \<Longrightarrow> slice m' i n = slice m i n"
    "blocks m' (p + 8 + blen b) p bs" "slice m' (p + 8) (blen b) = slice m (p + 8) (blen b)"
proof -
  obtain m' where m': "hm_upd p f m = Some m'" "hm_get m' p = Some (f h)" "length m' = length m"
    "\<And>i n. i + n \<le> length m \<Longrightarrow> i + n \<le> p \<or> p + 8 \<le> i \<Longrightarrow> slice m' i n = slice m i n"
    using hm_upd_get [of m p h f] assms(4-6) by metis
  have len: "p + 8 + blen b + (span bs + 8) \<le> length m" using blocks_len [OF assms(1)] by simp
  have "seg m' 0 0 as" using seg_slice [of m' 0 as m 0] assms(2,3) m'(3,4) len by simp
  moreover have "blocks m' (p + 8 + blen b) p bs"
    using blocks_slice [of m' "p + 8 + blen b" bs m p] assms(1) m'(3,4) len by simp
  ultimately show ?thesis using that [of m'] m' len by simp
qed

lemma blocks_mid: "blocks m 0 0 (as @ b # cs) = (seg m 0 0 as \<and> blk_at m (span as) (last_at 0 0 as) b
    \<and> blocks m (span as + 8 + blen b) (span as) cs)"
  by (simp add: blocks_append)

text \<open>A header in the middle gets a new state, and the size of its block stays.\<close>

lemma set_mid:
  assumes "blocks m 0 0 (as @ b # cs)" "hm_get m (span as) = Some h"
    "hm_next (f h) = hm_next h" "hm_prev (f h) = hm_prev h"
    "blen b' = blen b" "case b' of Free n \<Rightarrow> hm_used (f h) = 0 | Used d \<Rightarrow> hm_used (f h) = 1 \<and> slice m (span as + 8) (blen b) = d"
  obtains m' where "hm_upd (span as) f m = Some m'" "blocks m' 0 0 (as @ b' # cs)" "length m' = length m"
    "hm_get m' (span as) = Some (f h)" "\<And>i n. i + n \<le> length m \<Longrightarrow> span as + 8 \<le> i \<Longrightarrow> slice m' i n = slice m i n"
proof -
  have b: "blocks m (span as) (last_at 0 0 as) (b # cs)" "seg m 0 0 as" using assms(1) by (simp_all add: blocks_mid)
  obtain m' where m': "hm_upd (span as) f m = Some m'" "hm_get m' (span as) = Some (f h)" "length m' = length m"
    "seg m' 0 0 as" "\<And>i n. i + n \<le> length m \<Longrightarrow> span as + 8 \<le> i \<Longrightarrow> slice m' i n = slice m i n"
    "blocks m' (span as + 8 + blen b) (span as) cs" "slice m' (span as + 8) (blen b) = slice m (span as + 8) (blen b)"
    using set_blk [OF b refl assms(2), of f] hm_get_bound [OF assms(2)] assms(3,4) by metis
  have "hm_next h = span as + 8 + blen b" "hm_prev h = last_at 0 0 as"
    using b(1) assms(2) by (auto simp: blk_at_def)
  then have "blk_at m' (span as) (last_at 0 0 as) b'"
    using m'(2,7) assms(3-6) by (cases b') (simp_all add: blk_at_def)
  with m' assms(5) have "blocks m' 0 0 (as @ b' # cs)" by (simp add: blocks_mid)
  with that m' show ?thesis by blast
qed

text \<open>A block is split: a new header at \<open>p2\<close>, the old one points to it, the one behind back to it.\<close>

lemma split_block:
  assumes "blocks m 0 0 (as @ b # cs)" "hm_get m (span as) = Some h" "k + 8 \<le> blen b" "p2 = span as + 8 + k"
    "\<And>x. hm_next (f x) = hm_next h \<and> hm_used (f x) = 0 \<and> hm_prev (f x) = span as"
    "\<And>x. hm_next (g x) = p2 \<and> hm_prev (g x) = hm_prev x" "hm_used (g h) = 1" "e = span (as @ b # cs)"
  obtains m1 m2 m3 where "hm_upd p2 f m = Some m1" "hm_upd (span as) g m1 = Some m2"
    "(if hm_next h \<noteq> e then hm_upd (hm_next h) (\<lambda>x. x\<lparr>hm_prev := p2\<rparr>) m2 else Some m2) = Some m3" "length m3 = length m"
    "blocks m3 0 0 (as @ Used (slice m (span as + 8) k) # Free (blen b - k - 8) # cs)"
proof -
  let ?p = "span as" and ?hn = "span as + 8 + blen b"
  have b: "seg m 0 0 as" "blk_at m ?p (last_at 0 0 as) b" "blocks m ?hn ?p cs" using assms(1) by (simp_all add: blocks_mid)
  have len: "?hn + span cs + 8 \<le> length m" using blocks_len [OF b(3)] .
  have h: "hm_next h = ?hn" "hm_prev h = last_at 0 0 as" using b(2) assms(2) by (auto simp: blk_at_def)
  have lim: "?hn < 2 ^ 24" using hm_get_bound [OF assms(2)] h by simp
  obtain h2 where h2: "hm_get m p2 = Some h2" using assms(3,4) len by (auto simp: hm_get_def)
  have "hm_next (f h2) < 2 ^ 24" "hm_prev (f h2) < 2 ^ 24" using assms(5) h lim by simp_all
  then obtain m1 where m1: "hm_upd p2 f m = Some m1" "hm_get m1 p2 = Some (f h2)" "length m1 = length m"
    "\<And>i n. i + n \<le> length m \<Longrightarrow> i + n \<le> p2 \<or> p2 + 8 \<le> i \<Longrightarrow> slice m1 i n = slice m i n"
    using hm_upd_get [of m p2 h2 f] h2 by metis
  have "hm_get m1 ?p = hm_get m ?p" by (rule hm_get_slice) (use m1(3,4) assms(3,4) len in simp_all)
  then have "hm_get m1 ?p = Some h" using assms(2) by simp
  moreover have "hm_next (g h) < 2 ^ 24" "hm_prev (g h) < 2 ^ 24"
    using assms(3,4,6) hm_get_bound [OF assms(2)] lim by simp_all
  ultimately obtain m2 where m2: "hm_upd ?p g m1 = Some m2" "hm_get m2 ?p = Some (g h)" "length m2 = length m1"
    "\<And>i n. i + n \<le> length m1 \<Longrightarrow> i + n \<le> ?p \<or> ?p + 8 \<le> i \<Longrightarrow> slice m2 i n = slice m1 i n"
    using hm_upd_get [of m1 ?p h g] by metis
  have "blocks m2 ?hn ?p cs"
    by (rule blocks_slice [OF _ _ b(3)]) (use m1(3,4) m2(3,4) assms(3,4) len in simp_all)
  moreover have "p2 < 2 ^ 24" using lim assms(3,4) by simp
  ultimately obtain m3 where m3: "hm_upd ?hn (\<lambda>x. x\<lparr>hm_prev := p2\<rparr>) m2 = Some m3" "blocks m3 ?hn p2 cs" "length m3 = length m2"
    "\<And>i n. i + n \<le> ?hn \<Longrightarrow> slice m3 i n = slice m2 i n"
    using set_prev by metis
  define m4 where "m4 = (if cs = [] then m2 else m3)"
  have e: "(?hn \<noteq> e) = (cs \<noteq> [])" using assms(8) by (cases cs) simp_all
  have m4: "length m4 = length m" "\<And>i n. i + n \<le> ?hn \<Longrightarrow> slice m4 i n = slice m2 i n" "blocks m4 ?hn p2 cs"
    using m3 m2(3) m1(3) \<open>blocks m2 ?hn ?p cs\<close> by (auto simp: m4_def)
  have same: "slice m4 i n = slice m i n" if "i + n \<le> ?p \<or> ?p + 8 \<le> i \<and> i + n \<le> p2" for i n
    using that m4(2) [of i n] m2(3) m2(4) [of i n] m1(3) m1(4) [of i n] assms(3,4) len by auto
  have "seg m4 0 0 as" by (rule seg_slice [OF _ _ b(1)]) (use same m4(1) in simp_all)
  moreover have "blk_at m4 ?p (last_at 0 0 as) (Used (slice m (?p + 8) k))"
  proof -
    have "hm_get m4 ?p = hm_get m2 ?p" by (rule hm_get_slice) (use m4(1,2) m2(3) m1(3) in simp_all)
    moreover have "length (slice m (?p + 8) k) = k" using assms(3) len by simp
    moreover have "slice m4 (?p + 8) k = slice m (?p + 8) k" using same assms(4) by simp
    ultimately show ?thesis using m2(2) assms(4,6,7) h by (simp add: blk_at_Used)
  qed
  moreover have "blk_at m4 p2 ?p (Free (blen b - k - 8))"
  proof -
    have "hm_get m4 p2 = hm_get m2 p2" by (rule hm_get_slice) (use m4(1,2) m2(3) m1(3) assms(3,4) in simp_all)
    also have "\<dots> = hm_get m1 p2" by (rule hm_get_slice) (use m2(3,4) m1(3) assms(3,4) len in simp_all)
    finally show ?thesis using m1(2) assms(3-5) h by (simp add: blk_at_Free)
  qed
  moreover have a: "p2 + 8 + (blen b - k - 8) = ?hn" "length (slice m (?p + 8) k) = k" using assms(3,4) len by simp_all
  ultimately have "blocks m4 0 0 (as @ Used (slice m (?p + 8) k) # Free (blen b - k - 8) # cs)"
    unfolding blocks_mid blocks.simps blen.simps a assms(4) [symmetric] using m4(3) by blast
  moreover have "(if hm_next h \<noteq> e then hm_upd (hm_next h) (\<lambda>x. x\<lparr>hm_prev := p2\<rparr>) m2 else Some m2) = Some m4"
    using h(1) e m3(1) by (simp add: m4_def)
  ultimately show ?thesis using that [OF m1(1) m2(1)] m4(1) by blast
qed

text \<open>What \<open>lua_malloc\<close> makes of a free block.\<close>

definition cut :: "nat \<Rightarrow> nat \<Rightarrow> nat" where
  "cut sz n = (if sz + 16 \<le> n then sz else n)"

definition rest_of :: "nat \<Rightarrow> nat \<Rightarrow> blk list" where
  "rest_of sz n = (if sz + 16 \<le> n then [Free (n - sz - 8)] else [])"

lemma mal_take_block:
  assumes "blocks m 0 0 (as @ Free n # cs)" "sz \<le> n" "e = span (as @ Free n # cs)"
  obtains m' d where "mal_take e sz (span as) m = Some (m', length d + 8)" "length d = cut sz n" "length m' = length m"
    "blocks m' 0 0 (as @ Used d # rest_of sz n @ cs)"
proof -
  have b: "blk_at m (span as) (last_at 0 0 as) (Free n)" using assms(1) by (simp add: blocks_mid)
  then obtain h where h: "hm_get m (span as) = Some h" "hm_next h = span as + 8 + n" by (auto simp: blk_at_Free)
  have len: "span as + 8 + n \<le> length m" using blocks_len [OF assms(1)] by simp
  show thesis
  proof (cases "sz + 16 \<le> n")
    case True
    let ?f = "\<lambda>h2. h2\<lparr>hm_used := 0, hm_next := hm_next h, hm_prev := span as\<rparr>"
    let ?g = "\<lambda>x. x\<lparr>hm_next := span as + 8 + sz, hm_used := 1\<rparr>"
    from True have k: "sz + 8 \<le> blen (Free n)" by simp
    obtain m1 m2 m3 where m: "hm_upd (span as + 8 + sz) ?f m = Some m1" "hm_upd (span as) ?g m1 = Some m2"
      "(if hm_next h \<noteq> e then hm_upd (hm_next h) (\<lambda>x. x\<lparr>hm_prev := span as + 8 + sz\<rparr>) m2 else Some m2) = Some m3"
      "length m3 = length m" "blocks m3 0 0 (as @ Used (slice m (span as + 8) sz) # Free (n - sz - 8) # cs)"
      using split_block [OF assms(1) h(1) k refl, of ?f ?g e] assms(3) by (auto simp del: span_append span.simps)
    have "mal_take e sz (span as) m = Some (m3, sz + 8)"
      using True m(1-3) by (simp add: mal_take_def h(1) room_at [OF b h(1)] Let_def)
    with that [of m3 "slice m (span as + 8) sz"] True m(4,5) len show thesis by (simp add: cut_def rest_of_def)
  next
    case False
    let ?f = "\<lambda>h. h\<lparr>hm_used := 1\<rparr>" and ?b = "Used (slice m (span as + 8) n)"
    have f: "hm_next (?f h) = hm_next h" "hm_prev (?f h) = hm_prev h" "blen ?b = blen (Free n)"
      "case ?b of Free n \<Rightarrow> hm_used (?f h) = 0 | Used d \<Rightarrow> hm_used (?f h) = 1 \<and> slice m (span as + 8) (blen (Free n)) = d"
      using len by simp_all
    obtain m' where m': "hm_upd (span as) ?f m = Some m'" "blocks m' 0 0 (as @ ?b # cs)" "length m' = length m"
      using set_mid [OF assms(1) h(1), of ?f, OF f] by metis
    have "mal_take e sz (span as) m = Some (m', n + 8)"
      using False m'(1) h by (simp add: mal_take_def room_at [OF b h(1)] Let_def)
    with that [of m' "slice m (span as + 8) n"] False m'(2,3) len show thesis by (simp add: cut_def rest_of_def)
  qed
qed

section \<open>Closing holes\<close>

text \<open>Neighbours of a free block are joined with it, first the one behind.\<close>

fun join_next :: "nat \<Rightarrow> blk list \<Rightarrow> nat \<times> blk list" where
  "join_next n (Free k # cs) = (n + 8 + k, cs)"
| "join_next n cs = (n, cs)"

definition join_prev :: "blk list \<Rightarrow> nat \<Rightarrow> blk list \<times> nat" where
  "join_prev as n = (if as \<noteq> [] \<and> is_free (last as) then (butlast as, blen (last as) + 8 + n) else (as, n))"

lemma span_join_next: "join_next n cs = (n', cs') \<Longrightarrow> n' + span cs' = n + span cs"
  by (cases "(n, cs)" rule: join_next.cases) auto

lemma span_snoc: "as \<noteq> [] \<Longrightarrow> span as = span (butlast as) + 8 + blen (last as)"
  by (cases as rule: rev_cases) simp_all

lemma plug_next_join:
  assumes "blocks m 0 0 (as @ Free n # cs)" "e = span (as @ Free n # cs)" "join_next n cs = (n', cs')"
  obtains m' where "plug_next e (span as) (m, lf)
      = Some (m', if n' \<noteq> n \<and> lf = span as + 8 + n then span as else lf)"
    "blocks m' 0 0 (as @ Free n' # cs')" "length m' = length m"
proof -
  let ?p = "span as" and ?hn = "span as + 8 + n"
  have b: "seg m 0 0 as" "blk_at m ?p (last_at 0 0 as) (Free n)" "blocks m ?hn ?p cs" using assms(1) by (simp_all add: blocks_mid)
  obtain h where h: "hm_get m ?p = Some h" "hm_next h = ?hn" "hm_prev h = last_at 0 0 as" "hm_used h = 0" using b(2) by (auto simp: blk_at_Free)
  consider (stay) "n' = n" "cs' = cs" "cs = [] \<or> (\<exists>d ds. cs = Used d # ds)" | (join) k where "cs = Free k # cs'" "n' = n + 8 + k"
    using assms(3) by (cases "(n, cs)" rule: join_next.cases) auto
  then show thesis
  proof cases
    case stay
    then have "plug_next e ?p (m, lf) = Some (m, lf)"
      using h b(3) assms(2) by (auto simp: plug_next_def end_at_def blk_at_def)
    with that [of m] stay(1,2) assms(1) show thesis by simp
  next
    case join
    have c: "blk_at m ?hn ?p (Free k)" "blocks m (?hn + 8 + k) ?hn cs'" using b(3) join(1) by simp_all
    obtain x where x: "hm_get m ?hn = Some x" "hm_next x = ?hn + 8 + k" "hm_used x = 0" using c(1) by (auto simp: blk_at_Free)
    have len: "?hn + 8 + k + span cs' + 8 \<le> length m" using blocks_len [OF c(2)] .
    have lim: "hm_next x < 2 ^ 24" "?p < 2 ^ 24" using hm_get_bound [OF x(1)] hm_get_bound [OF h(1)] h(2) by simp_all
    let ?f = "\<lambda>h. h\<lparr>hm_next := hm_next x\<rparr>"
    obtain m1 where m1: "hm_upd ?p ?f m = Some m1" "hm_get m1 ?p = Some (?f h)" "length m1 = length m"
      "\<And>i n. i + n \<le> length m \<Longrightarrow> i + n \<le> ?p \<or> ?p + 8 \<le> i \<Longrightarrow> slice m1 i n = slice m i n"
      using hm_upd_get [of m ?p h ?f] h(1) lim hm_get_bound [OF h(1)] by auto
    have "blocks m1 (?hn + 8 + k) ?hn cs'" by (rule blocks_slice [OF _ _ c(2)]) (use m1(3,4) len in simp_all)
    then obtain m2 where m2: "hm_upd (?hn + 8 + k) (\<lambda>h. h\<lparr>hm_prev := ?p\<rparr>) m1 = Some m2" "blocks m2 (?hn + 8 + k) ?p cs'"
      "length m2 = length m1" "\<And>i n. i + n \<le> ?hn + 8 + k \<Longrightarrow> slice m2 i n = slice m1 i n"
      using set_prev lim(2) by metis
    have "seg m2 0 0 as" by (rule seg_slice [OF _ _ b(1)]) (use m1(3,4) m2(3,4) len in simp_all)
    moreover have "hm_get m2 ?p = hm_get m1 ?p" by (rule hm_get_slice) (use m2(3,4) m1(3) in simp_all)
    then have "blk_at m2 ?p (last_at 0 0 as) (Free n')" using m1(2) h(3,4) x(2) join(2) by (simp add: blk_at_Free)
    moreover have "?p + 8 + n' = ?hn + 8 + k" using join(2) by simp
    ultimately have "blocks m2 0 0 (as @ Free n' # cs')" using m2(2) by (simp only: blocks_mid blen.simps simp_thms)
    moreover have "?hn \<noteq> e" using assms(2) join(1) by simp
    then have "plug_next e ?p (m, lf) = Some (m2, if n' \<noteq> n \<and> lf = ?hn then ?p else lf)"
      using h(1,2) x m1(1) m2(1) join(2) by (simp add: plug_next_def)
    ultimately show thesis using that m1(3) m2(3) by simp
  qed
qed

lemma plug_prev_join:
  assumes "blocks m 0 0 (as @ Free n # cs)" "join_prev as n = (as', n')"
  obtains m' where "plug_prev (span as) (m, lf) = Some (m', if lf = span as then span as' else lf)"
    "blocks m' 0 0 (as' @ Free n' # cs)" "length m' = length m"
proof -
  let ?p = "span as" and ?hn = "span as + 8 + n"
  have b: "seg m 0 0 as" "blk_at m ?p (last_at 0 0 as) (Free n)" "blocks m ?hn ?p cs" using assms(1) by (simp_all add: blocks_mid)
  obtain h where h: "hm_get m ?p = Some h" "hm_next h = ?hn" "hm_prev h = last_at 0 0 as" "hm_used h = 0" using b(2) by (auto simp: blk_at_Free)
  show thesis
  proof (cases as rule: rev_cases)
    case Nil
    with assms(2) have "as' = as" "n' = n" by (simp_all add: join_prev_def)
    moreover have "plug_prev ?p (m, lf) = Some (m, lf)" using h Nil by (simp add: plug_prev_def)
    ultimately show thesis using that assms(1) by simp
  next
    case (snoc xs x)
    have q: "blk_at m (span xs) (last_at 0 0 xs) x" "seg m 0 0 xs" using b(1) by (simp_all add: snoc seg_parts)
    obtain g where g: "hm_get m (span xs) = Some g" "hm_next g = ?p" "hm_prev g = last_at 0 0 xs"
      using blk_at_get [OF q(1)] by (auto simp: snoc ac_simps)
    note u = free_at [OF q(1) g(1)]
    have p: "hm_prev h = span xs" "span xs \<noteq> ?p" using h(3) by (simp_all add: snoc)
    show thesis
    proof (cases x)
      case (Used d)
      with assms(2) have "as' = as" "n' = n" by (simp_all add: join_prev_def snoc)
      moreover have "plug_prev ?p (m, lf) = Some (m, lf)" using h(1) p g(1) u Used by (simp add: plug_prev_def)
      ultimately show thesis using that assms(1) by simp
    next
      case (Free k)
      with assms(2) have j: "as' = xs" "n' = k + 8 + n" by (simp_all add: join_prev_def snoc)
      have len: "?hn + span cs + 8 \<le> length m" using blocks_len [OF b(3)] .
      let ?f = "\<lambda>x. x\<lparr>hm_next := ?hn\<rparr>"
      have lim: "?hn < 2 ^ 24" "span xs < 2 ^ 24" using hm_get_bound [OF h(1)] h(2) p(1) by simp_all
      obtain m1 where m1: "hm_upd (span xs) ?f m = Some m1" "hm_get m1 (span xs) = Some (?f g)" "length m1 = length m"
        "\<And>i n. i + n \<le> length m \<Longrightarrow> i + n \<le> span xs \<or> span xs + 8 \<le> i \<Longrightarrow> slice m1 i n = slice m i n"
        using hm_upd_get [of m "span xs" g ?f] g(1) lim hm_get_bound [OF g(1)] by auto
      have "blocks m1 ?hn ?p cs" by (rule blocks_slice [OF _ _ b(3)]) (use m1(3,4) len snoc in simp_all)
      then obtain m2 where m2: "hm_upd ?hn (\<lambda>h. h\<lparr>hm_prev := span xs\<rparr>) m1 = Some m2" "blocks m2 ?hn (span xs) cs"
        "length m2 = length m1" "\<And>i n. i + n \<le> ?hn \<Longrightarrow> slice m2 i n = slice m1 i n"
        using set_prev lim(2) by metis
      have "seg m2 0 0 xs" by (rule seg_slice [OF _ _ q(2)]) (use m1(3,4) m2(3,4) len snoc in simp_all)
      moreover have "hm_get m2 (span xs) = hm_get m1 (span xs)" by (rule hm_get_slice) (use m2(3,4) m1(3) snoc in simp_all)
      then have "blk_at m2 (span xs) (last_at 0 0 xs) (Free n')"
        using m1(2) g(1,3) u Free j(2) by (simp add: blk_at_Free snoc)
      moreover have "span xs + 8 + n' = ?hn" using j(2) by (simp add: snoc Free)
      ultimately have "blocks m2 0 0 (as' @ Free n' # cs)" using m2(2) by (simp only: blocks_mid blen.simps simp_thms j(1))
      moreover have "plug_prev ?p (m, lf) = Some (m2, if lf = ?p then span as' else lf)"
        using h(1,2) p g(1) u Free m1(1) m2(1) j(1) by (simp add: plug_prev_def)
      ultimately show thesis using that m1(3) m2(3) by simp
    qed
  qed
qed

lemma plug_holes_join:
  assumes "blocks m 0 0 (as @ Free n # cs)" "e = span (as @ Free n # cs)" "join_next n cs = (n1, cs')" "join_prev as n1 = (as', n')"
  obtains m' where "plug_holes e (span as) (m, lf) = Some (m', if lf = span as \<or> n1 \<noteq> n \<and> lf = span as + 8 + n then span as' else lf)"
    "blocks m' 0 0 (as' @ Free n' # cs')" "length m' = length m"
proof -
  let ?lf = "if n1 \<noteq> n \<and> lf = span as + 8 + n then span as else lf"
  obtain m1 where m1: "plug_next e (span as) (m, lf) = Some (m1, ?lf)" "blocks m1 0 0 (as @ Free n1 # cs')" "length m1 = length m"
    by (rule plug_next_join [OF assms(1-3), of lf])
  obtain m2 where m2: "plug_prev (span as) (m1, ?lf) = Some (m2, if ?lf = span as then span as' else ?lf)"
    "blocks m2 0 0 (as' @ Free n' # cs')" "length m2 = length m1"
    by (rule plug_prev_join [OF m1(2) assms(4), of ?lf])
  show thesis by (rule that [OF _ m2(2)]) (auto simp: plug_holes_def m1(1,3) m2(1,3))
qed

section \<open>The heap\<close>

text \<open>
  The area is a list of blocks with no two free neighbours, the sizes of which are positive multiples
  of four; \<open>lfree\<close> is the header of a free block or the end mark.
\<close>

definition tidy :: "blk list \<Rightarrow> bool" where
  "tidy bs = (successively (\<lambda>a b. \<not> (is_free a \<and> is_free b)) bs \<and> (\<forall>b \<in> set bs. 4 dvd blen b \<and> 0 < blen b))"

fun taken :: "blk list \<Rightarrow> nat" where
  "taken [] = 0"
| "taken (b # bs) = (if is_free b then 0 else 8 + blen b) + taken bs"

definition mark :: "nat \<Rightarrow> blk list \<Rightarrow> bool" where
  "mark p bs = (p = span bs \<or> (\<exists>xs n ys. bs = xs @ Free n # ys \<and> p = span xs))"

definition area_of :: "lua_heap \<Rightarrow> blk list \<Rightarrow> bool" where
  "area_of s bs = (blocks (lm_mem s) 0 0 bs \<and> length (lm_mem s) = span bs + 8
     \<and> span bs = unat (lm_size s) + 8 \<and> 8 \<le> unat (lm_size s) \<and> unat (lm_size s) + 8 < 2 ^ 24
     \<and> 4 dvd unat (lm_size s) \<and> 0 < lm_base s \<and> 4 dvd lm_base s
     \<and> mark (lm_free s) bs \<and> tidy bs \<and> lm_used s = word_of_nat (taken bs))"

lemma taken_append [simp]: "taken (as @ bs) = taken as + taken bs"
  by (induction as) simp_all

lemma heap_end_of: "area_of s bs \<Longrightarrow> heap_end s = span bs"
  by (simp add: area_of_def heap_end_def unat_word_ariths)

text \<open>One block is replaced by some of the same extent.\<close>

lemma tidy_parts:
  "tidy (as @ bs) = (tidy as \<and> tidy bs \<and> (as = [] \<or> bs = [] \<or> \<not> (is_free (last as) \<and> is_free (hd bs))))"
  by (auto simp: tidy_def successively_append_iff)

lemma tidy_Cons: "tidy (b # bs) = (4 dvd blen b \<and> 0 < blen b \<and> tidy bs \<and> (bs = [] \<or> \<not> (is_free b \<and> is_free (hd bs))))"
  using tidy_parts [of "[b]" bs] by (simp add: tidy_def)

lemma tidy_Nil [simp]: "tidy []"
  by (simp add: tidy_def)

lemma mark_split:
  assumes "mark p bs"
  obtains xs ys where "bs = xs @ ys" "p = span xs" "ys = [] \<or> is_free (hd ys)"
  using assms that unfolding mark_def by (metis append_Nil2 is_free.simps(1) list.sel(1))

lemma mark_of: "ys = [] \<or> is_free (hd ys) \<Longrightarrow> mark (span xs) (xs @ ys)"
  by (cases ys; cases "hd ys") (auto simp: mark_def)

lemma tidy_join_next:
  assumes "join_next n cs = (n', cs')" "4 dvd n" "0 < n" "tidy cs"
  shows "4 dvd n' \<and> 0 < n' \<and> tidy cs' \<and> (cs' = [] \<or> \<not> is_free (hd cs')) \<and> taken cs' = taken cs"
  using assms by (cases "(n, cs)" rule: join_next.cases) (auto simp: tidy_Cons)

lemma tidy_join_prev:
  assumes "join_prev as n = (as', n')" "4 dvd n" "0 < n" "tidy as"
  shows "4 dvd n' \<and> 0 < n' \<and> tidy as' \<and> (as' = [] \<or> \<not> is_free (last as')) \<and> taken as' = taken as \<and> span as' + 8 + n' = span as + 8 + n"
proof (cases as rule: rev_cases)
  case Nil
  with assms show ?thesis by (simp add: join_prev_def)
next
  case (snoc xs x)
  with assms show ?thesis by (auto simp: join_prev_def tidy_parts tidy_Cons split: if_splits)
qed

text \<open>Sizes are rounded up to multiples of four, and the last three are rounded to 0.\<close>

lemma align4: "unat (n AND NOT 3 :: u32) = 4 * (unat n div 4)"
proof -
  have m: "NOT 3 = (NOT (mask 2) :: u32)" by (simp add: mask_eq_exp_minus_1)
  have "n AND NOT 3 = push_bit 2 (drop_bit 2 n)"
    unfolding m
  proof (rule bit_word_eqI)
    fix i assume i: "i < LENGTH(32)"
    show "bit (n AND NOT (mask 2)) i = bit (push_bit 2 (drop_bit 2 n)) i"
    proof (cases "2 \<le> i")
      case True
      then obtain k where "i = 2 + k" using le_Suc_ex by blast
      with i show ?thesis by (auto simp: bit_simps)
    qed (simp add: bit_simps)
  qed
  moreover have "unat (drop_bit 2 n) = unat n div 4" by (subst unat_drop_bit_eq) (simp add: drop_bit_eq_div)
  moreover have "unat n < 2 ^ LENGTH(32)" by (rule unsigned_less)
  then have "4 * (unat n div 4) < 2 ^ 32" by simp
  ultimately show ?thesis by (simp add: push_bit_eq_mult unat_word_ariths mult.commute)
qed

lemma RT_ALIGN4_dvd: "4 dvd unat (RT_ALIGN4 n)"
  unfolding RT_ALIGN4_def align4 by simp

lemma RT_ALIGN4_le: "unat n \<le> 2 ^ 32 - 4 \<Longrightarrow> unat n \<le> unat (RT_ALIGN4 n) \<and> unat (RT_ALIGN4 n) < unat n + 4"
proof -
  assume n: "unat n \<le> 2 ^ 32 - 4"
  have "unat (n + 3) = unat n + 3" using n by (simp add: unat_word_ariths)
  then have "unat (RT_ALIGN4 n) = 4 * ((unat n + 3) div 4)" unfolding RT_ALIGN4_def align4 by simp
  then show ?thesis by linarith
qed

lemma RT_ALIGN4_id: "4 dvd unat n \<Longrightarrow> RT_ALIGN4 n = n"
proof -
  assume d: "4 dvd unat n"
  then obtain k where k: "unat n = 4 * k" by blast
  have "unat n < 2 ^ 32" using unsigned_less [of n] by simp
  then have "unat n \<le> 2 ^ 32 - 4" using k by simp
  from RT_ALIGN4_le [OF this] RT_ALIGN4_dvd [of n] have "unat (RT_ALIGN4 n) = unat n" using d k by presburger
  then show ?thesis by (rule unsigned_word_eqI)
qed

section \<open>Allocation\<close>

lemma first_fit_Some:
  "first_fit bound sz p bs = Some (as, n, cs) \<Longrightarrow> bs = as @ Free n # cs \<and> sz \<le> n \<and> p + span as < bound
    \<and> (\<forall>b \<in> set as. is_free b \<longrightarrow> blen b < sz)"
proof (induction bs arbitrary: p as)
  case (Cons b bs)
  show ?case
  proof (cases "is_free b \<and> sz \<le> blen b")
    case True
    with Cons.prems show ?thesis by (cases b) (auto split: if_splits)
  next
    case False
    with Cons.prems obtain xs where "first_fit bound sz (p + 8 + blen b) bs = Some (xs, n, cs)" "as = b # xs"
      by (auto split: if_splits)
    with Cons.IH [of "p + 8 + blen b" xs] False show ?thesis by auto
  qed
qed simp

lemma first_fit_None:
  assumes "first_fit bound sz p bs = None" "bs = as @ Free n # cs" "sz \<le> n"
  shows "bound \<le> p + span as"
  using assms
proof (induction bs arbitrary: p as)
  case (Cons b bs)
  show ?case
  proof (cases as)
    case Nil
    with Cons.prems show ?thesis by (auto split: if_splits)
  next
    case (Cons x xs)
    show ?thesis
    proof (cases "p < bound")
      case True
      have "first_fit bound sz (p + 8 + blen b) bs = None" using Cons.prems(1) True by (auto split: if_splits)
      then have "bound \<le> p + 8 + blen b + span xs" using Cons.IH Cons.prems(2,3) Cons by simp
      then show ?thesis using Cons.prems(2) Cons by simp
    qed simp
  qed
qed simp

definition lua_size :: "u32 \<Rightarrow> nat" where
  "lua_size sz = max 8 (unat (RT_ALIGN4 sz))"

lemma lua_size_unat: "unat (max 8 (RT_ALIGN4 sz)) = lua_size sz"
  by (simp add: lua_size_def max_def word_le_nat_alt)

lemma lua_size_dvd: "4 dvd lua_size sz" "8 \<le> lua_size sz"
  using RT_ALIGN4_dvd [of sz] by (simp_all add: lua_size_def max_def)

definition lua_fit :: "u32 \<Rightarrow> lua_heap \<Rightarrow> blk list \<Rightarrow> (blk list \<times> nat \<times> blk list) option" where
  "lua_fit sz s bs = (if sz = 0 \<or> lm_size s < RT_ALIGN4 sz then None
     else first_fit (unat (lm_size s) - lua_size sz) (lua_size sz) (lm_free s) bs)"

lemma malloc_none:
  assumes "area_of s (as @ bs)" "lm_free s = span as" "lua_fit sz s bs = None"
  shows "lua_malloc sz s = Some (0, s)"
proof (cases "sz = 0 \<or> lm_size s < RT_ALIGN4 sz")
  case False
  have M: "8 \<le> unat (lm_size s)" "blocks (lm_mem s) (span as) (last_at 0 0 as) bs" "span as + span bs = unat (lm_size s) + 8"
    using assms(1) by (auto simp: area_of_def blocks_append)
  have le: "max 8 (RT_ALIGN4 sz) \<le> lm_size s" using False M(1) by (simp add: word_le_nat_alt not_less max_def)
  have "mal_find (lm_mem s) (unat (lm_size s - max 8 (RT_ALIGN4 sz))) (unat (max 8 (RT_ALIGN4 sz))) (lm_free s) = Some None"
    using mal_find_first [OF M(2), of "unat (lm_size s) - lua_size sz" "lua_size sz"] assms(2,3) False M(3)
    by (simp add: lua_fit_def unat_sub [OF le] lua_size_unat)
  with False show ?thesis by (simp add: lua_malloc_def Let_def)
qed (auto simp: lua_malloc_def)

lemma tidy_taken:
  assumes "tidy (as @ Free n # cs)" "4 dvd sz" "0 < sz" "length d = cut sz n"
  shows "tidy (as @ Used d # rest_of sz n @ cs)
    \<and> taken (as @ Used d # rest_of sz n @ cs) = taken (as @ Free n # cs) + 8 + length d
    \<and> span (as @ Used d # rest_of sz n @ cs) = span (as @ Free n # cs)"
  using assms by (auto simp: tidy_parts tidy_Cons cut_def rest_of_def dvd_diff_nat)

lemma mark_next: "mark (span as + span (takeWhile (\<lambda>b. \<not> is_free b) bs)) (as @ bs)"
proof -
  let ?t = "takeWhile (\<lambda>b. \<not> is_free b) bs" and ?d = "dropWhile (\<lambda>b. \<not> is_free b) bs"
  have "?d = [] \<or> is_free (hd ?d)" using hd_dropWhile [of "\<lambda>b. \<not> is_free b" bs] by blast
  then have "mark (span (as @ ?t)) ((as @ ?t) @ ?d)" by (rule mark_of)
  moreover have "(as @ ?t) @ ?d = as @ bs" by (simp only: append_assoc takeWhile_dropWhile_id)
  ultimately show ?thesis by simp
qed

lemma malloc_some:
  assumes "area_of s (as @ bs)" "lm_free s = span as" "bs = [] \<or> is_free (hd bs)" "lua_fit sz s bs = Some (xs, n, cs)"
  obtains s' d where "lua_malloc sz s = Some (lm_base s + span (as @ xs) + 8, s')" "length d = cut (lua_size sz) n"
    "area_of s' (as @ xs @ Used d # rest_of (lua_size sz) n @ cs)" "lm_base s' = lm_base s" "lm_size s' = lm_size s"
    "lm_free s' = span as + (if xs = [] then span (takeWhile (\<lambda>b. \<not> is_free b) (Used d # rest_of (lua_size sz) n @ cs)) else 0)"
proof -
  let ?N = "lua_size sz" and ?e = "heap_end s" and ?p = "span (as @ xs)" and ?n = "lua_size sz"
  have f: "\<not> (sz = 0 \<or> lm_size s < RT_ALIGN4 sz)" "first_fit (unat (lm_size s) - ?N) ?N (span as) bs = Some (xs, n, cs)"
    using assms(2,4) by (auto simp: lua_fit_def split: if_splits)
  note ff = first_fit_Some [OF f(2)]
  have h: "blocks (lm_mem s) (span as) (last_at 0 0 as) bs" "span as + span bs = unat (lm_size s) + 8"
    "blocks (lm_mem s) 0 0 ((as @ xs) @ Free n # cs)" "8 \<le> unat (lm_size s)" "tidy ((as @ xs) @ Free n # cs)"
    "?e = span ((as @ xs) @ Free n # cs)"
    using assms(1) ff heap_end_of [OF assms(1)] by (auto simp: area_of_def blocks_append)
  have le: "max 8 (RT_ALIGN4 sz) \<le> lm_size s" using f(1) h(4) by (simp add: word_le_nat_alt not_less max_def)
  have find: "mal_find (lm_mem s) (unat (lm_size s - max 8 (RT_ALIGN4 sz))) (unat (max 8 (RT_ALIGN4 sz))) (lm_free s) = Some (Some ?p)"
    using mal_find_first [OF h(1), of "unat (lm_size s) - ?N" ?N] assms(2) f(2) h(2)
    by (simp add: unat_sub [OF le] lua_size_unat)
  obtain m d where m: "mal_take ?e ?N ?p (lm_mem s) = Some (m, length d + 8)" "length d = cut ?N n"
    "length m = length (lm_mem s)" "blocks m 0 0 ((as @ xs) @ Used d # rest_of ?N n @ cs)"
    by (rule mal_take_block [OF h(3) _ h(6), of ?N]) (use ff in auto)
  let ?L = "Used d # rest_of ?N n @ cs"
  have "blk_at m ?p (last_at 0 0 (as @ xs)) (Used d)" using m(4) by (simp only: blocks_mid)
  then obtain x where x: "hm_get m ?p = Some x" "hm_used x = 1" "slice m (?p + 8) (length d) = d" by (auto simp: blk_at_Used)
  let ?f = "\<lambda>h. h\<lparr>hm_magic := HEAP_MAGIC\<rparr>"
  have fx: "hm_next (?f x) = hm_next x" "hm_prev (?f x) = hm_prev x" "blen (Used d) = blen (Used d)"
    "case Used d of Free n \<Rightarrow> hm_used (?f x) = 0 | Used d' \<Rightarrow> hm_used (?f x) = 1 \<and> slice m (?p + 8) (blen (Used d)) = d'"
    using x by simp_all
  obtain m2 where m2: "hm_upd ?p ?f m = Some m2" "blocks m2 0 0 ((as @ xs) @ ?L)" "length m2 = length m"
    using set_mid [OF m(4) x(1), of ?f, OF fx] by metis
  have "0 < ?N" using lua_size_dvd(2) [of sz] by simp
  note t = tidy_taken [OF h(5) lua_size_dvd(1) this m(2)]
  let ?lf = "span as + (if xs = [] then span (takeWhile (\<lambda>b. \<not> is_free b) ?L) else 0)"
  have lf: "(if ?p = lm_free s then next_free m2 ?e ?p else Some (lm_free s)) = Some ?lf"
  proof (cases "xs = []")
    case True
    have b: "blocks m2 (span as) (last_at 0 0 as) ?L" using m2(2) True by (simp add: blocks_append)
    have "?e = span as + span ?L" using h(6) t True by simp
    from next_free_prefix [OF b this] True assms(2) show ?thesis by simp
  next
    case False
    then have "?p \<noteq> lm_free s" using assms(2) by (cases xs) simp_all
    with False assms(2) show ?thesis by simp
  qed
  have mk: "mark ?lf (as @ xs @ ?L)"
  proof (cases "xs = []")
    case True
    then show ?thesis using mark_next [of as ?L] by simp
  next
    case False
    then have "is_free (hd (xs @ ?L))" using assms(3) ff by (cases xs) auto
    then show ?thesis using mark_of [of "xs @ ?L" as] False by simp
  qed
  let ?used = "lm_used s + word_of_nat (length d + 8)"
  let ?s = "s\<lparr>lm_mem := m2, lm_free := ?lf, lm_used := ?used, lm_max := max (lm_max s) ?used\<rparr>"
  have run: "lua_malloc sz s = Some (lm_base s + p + 8,
      s\<lparr>lm_mem := m2, lm_free := l, lm_used := lm_used s + word_of_nat k, lm_max := max (lm_max s) (lm_used s + word_of_nat k)\<rparr>)"
    if "mal_find (lm_mem s) (unat (lm_size s - max 8 (RT_ALIGN4 sz))) (unat (max 8 (RT_ALIGN4 sz))) (lm_free s) = Some (Some p)"
      "mal_take ?e ?N p (lm_mem s) = Some (m, k)" "hm_upd p ?f m = Some m2"
      "(if p = lm_free s then next_free m2 ?e p else Some (lm_free s)) = Some l" for p k l
    using f(1) that by (auto simp: lua_malloc_def Let_def lua_size_unat)
  from run [OF find m(1) m2(1) lf] have "lua_malloc sz s = Some (lm_base s + ?p + 8, ?s)" .
  moreover have "area_of ?s (as @ xs @ ?L)"
    using assms(1) ff t mk m2(2,3) m(3) by (simp add: area_of_def ac_simps)
  ultimately show thesis using that m(2) by simp
qed

section \<open>Release\<close>

lemma prefix_of_span:
  assumes "us @ vs = xs @ ws" "span us < span xs"
  obtains zs where "xs = us @ zs" "zs \<noteq> []" "vs = zs @ ws"
proof -
  consider zs where "us = xs @ zs" | zs where "xs = us @ zs" "vs = zs @ ws" using assms(1) by (auto simp: append_eq_append_conv2)
  then show thesis
  proof cases
    case 2
    with assms(2) have "zs \<noteq> []" by auto
    with 2 that show thesis by blast
  qed (use assms(2) in simp)
qed

lemma mark_free:
  assumes "mark lf (xs @ b # ys)" "join_prev xs n = (xs', n')"
  shows "mark (if span xs \<le> lf then span xs' else lf) (xs' @ Free n' # ys')"
proof (cases "span xs \<le> lf")
  case False
  obtain us vs where u: "xs @ b # ys = us @ vs" "lf = span us" "vs = [] \<or> is_free (hd vs)" by (rule mark_split [OF assms(1)])
  then obtain zs where z: "xs = us @ zs" "zs \<noteq> []" "vs = zs @ b # ys"
    using prefix_of_span [of us vs xs "b # ys"] False by auto
  have "\<exists>ws. xs' = us @ ws \<and> (ws = [] \<or> is_free (hd ws))"
    using assms(2) z u(3) by (cases zs rule: rev_cases)
      (auto simp: join_prev_def butlast_append hd_append split: if_splits)
  then obtain ws where "xs' = us @ ws" "ws = [] \<or> is_free (hd ws)" by blast
  then have "mark lf (us @ (ws @ Free n' # ys'))" unfolding u(2) by (intro mark_of) (cases ws; simp)
  with \<open>xs' = us @ ws\<close> False show ?thesis by simp
qed (auto simp: mark_def)

lemma free_heap:
  assumes "area_of s (xs @ Used d # ys)" "join_next (length d) ys = (n1, ys')" "join_prev xs n1 = (xs', n')"
  obtains s' where "lua_free (lm_base s + span xs + 8) s = Some s'" "area_of s' (xs' @ Free n' # ys')"
    "lm_base s' = lm_base s" "lm_size s' = lm_size s" "lm_free s' = (if span xs \<le> lm_free s then span xs' else lm_free s)"
proof -
  let ?p = "span xs" and ?e = "heap_end s" and ?f = "\<lambda>h. h\<lparr>hm_used := 0, hm_magic := 0\<rparr>"
  have h: "blocks (lm_mem s) 0 0 (xs @ Used d # ys)" "?e = span (xs @ Used d # ys)" "mark (lm_free s) (xs @ Used d # ys)"
    "tidy (xs @ Used d # ys)" "0 < lm_base s" "0 < length d"
    using assms(1) heap_end_of [OF assms(1)] by (auto simp: area_of_def tidy_parts tidy_Cons)
  have "blk_at (lm_mem s) ?p (last_at 0 0 xs) (Used d)" using h(1) by (simp only: blocks_mid)
  then obtain x where x: "hm_get (lm_mem s) ?p = Some x" "hm_next x = ?p + 8 + length d" by (auto simp: blk_at_Used)
  have fx: "hm_next (?f x) = hm_next x" "hm_prev (?f x) = hm_prev x" "blen (Free (length d)) = blen (Used d)"
    "case Free (length d) of Free n \<Rightarrow> hm_used (?f x) = 0 | Used d' \<Rightarrow> hm_used (?f x) = 1 \<and> slice (lm_mem s) (?p + 8) (blen (Used d)) = d'"
    by simp_all
  obtain m where m: "hm_upd ?p ?f (lm_mem s) = Some m" "blocks m 0 0 (xs @ Free (length d) # ys)"
    "length m = length (lm_mem s)" "hm_get m ?p = Some (?f x)"
    using set_mid [OF h(1) x(1), of ?f, OF fx] by metis
  have e: "?e = span (xs @ Free (length d) # ys)" using h(2) by simp
  let ?lf = "min ?p (lm_free s)"
  obtain m' where m': "plug_holes ?e ?p (m, ?lf)
      = Some (m', if ?lf = ?p \<or> n1 \<noteq> length d \<and> ?lf = ?p + 8 + length d then span xs' else ?lf)"
    "blocks m' 0 0 (xs' @ Free n' # ys')" "length m' = length m"
    by (rule plug_holes_join [OF m(2) e assms(2,3)])
  have lf: "(if ?lf = ?p \<or> n1 \<noteq> length d \<and> ?lf = ?p + 8 + length d then span xs' else ?lf)
      = (if ?p \<le> lm_free s then span xs' else lm_free s)"
    by auto
  have tn: "4 dvd n1 \<and> 0 < n1 \<and> tidy ys' \<and> (ys' = [] \<or> \<not> is_free (hd ys')) \<and> taken ys' = taken ys"
    by (rule tidy_join_next [OF assms(2)]) (use h(4,6) in \<open>auto simp: tidy_parts tidy_Cons\<close>)
  have tp: "4 dvd n' \<and> 0 < n' \<and> tidy xs' \<and> (xs' = [] \<or> \<not> is_free (last xs')) \<and> taken xs' = taken xs
      \<and> span xs' + 8 + n' = span xs + 8 + n1"
    by (rule tidy_join_prev [OF assms(3)]) (use h(4) tn in \<open>auto simp: tidy_parts\<close>)
  have t: "tidy (xs' @ Free n' # ys')" "taken (xs' @ Free n' # ys') + (8 + length d) = taken (xs @ Used d # ys)"
    "span (xs' @ Free n' # ys') = span (xs @ Used d # ys)"
    using tn tp span_join_next [OF assms(2)] by (auto simp: tidy_parts tidy_Cons)
  let ?s = "s\<lparr>lm_mem := m', lm_free := if ?p \<le> lm_free s then span xs' else lm_free s,
      lm_used := lm_used s - word_of_nat (8 + length d)\<rparr>"
  have "\<not> lua_illegal s (lm_base s + ?p + 8)" using h(2,6) by (simp add: lua_illegal_def)
  then have "lua_free (lm_base s + ?p + 8) s = Some ?s"
    using h(5) m(1,4) m'(1) x(2) unfolding lf by (simp add: lua_free_def hm_of_def)
  moreover have "lm_used s - word_of_nat (8 + length d) = word_of_nat (taken (xs' @ Free n' # ys'))"
    using assms(1) t(2) unfolding area_of_def by (metis add_diff_cancel_right' of_nat_add)
  then have "area_of ?s (xs' @ Free n' # ys')"
    using assms(1) t(1,3) m'(2,3) m(3) mark_free [OF h(3) assms(3), of ys'] by (simp add: area_of_def)
  ultimately show thesis using that by simp
qed

section \<open>Shrinking a block\<close>

lemma mark_shrink:
  assumes "mark lf (xs @ Used d # ys)" "join_next k ys = (n1, ys')" "span (Used d' # Free k # ys) = span (Used d # ys)"
  shows "mark (if lf = span xs + 8 + length d' \<or> n1 \<noteq> k \<and> lf = span xs + 8 + length d' + 8 + k
    then span xs + 8 + length d' else lf) (xs @ Used d' # Free n1 # ys')"
proof (cases "lf = span xs + 8 + length d' \<or> n1 \<noteq> k \<and> lf = span xs + 8 + length d' + 8 + k")
  case True
  have "mark (span (xs @ [Used d'])) ((xs @ [Used d']) @ Free n1 # ys')" by (rule mark_of) simp
  with True show ?thesis by (simp add: add.assoc)
next
  case False
  obtain us vs where u: "xs @ Used d # ys = us @ vs" "lf = span us" "vs = [] \<or> is_free (hd vs)" by (rule mark_split [OF assms(1)])
  consider (before) zs where "xs = us @ zs" "vs = zs @ Used d # ys" | (behind) zs where "us = xs @ Used d # zs" "ys = zs @ vs"
    using u(1) by (auto simp: append_eq_append_conv2 append_eq_Cons_conv Cons_eq_append_conv)
  then have "mark lf (xs @ Used d' # Free n1 # ys')"
  proof cases
    case before
    then have "zs \<noteq> []" using u(3) by auto
    with before u(3) have "mark (span us) (us @ (zs @ Used d' # Free n1 # ys'))" by (intro mark_of) (cases zs; simp)
    with before u(2) show ?thesis by simp
  next
    case behind
    show ?thesis
    proof (cases zs)
      case Nil
      then have vs: "vs = ys" "lf = span xs + 8 + length d' + 8 + k" using behind u(2) assms(3) by simp_all
      with False have "n1 = k" by auto
      with assms(2) vs(1) u(3) have "vs = []" "ys' = []" by (cases "(k, ys)" rule: join_next.cases; auto)+
      with vs(2) \<open>n1 = k\<close> show ?thesis using mark_of [of "[]" "xs @ Used d' # [Free k]"] by (simp add: add.assoc)
    next
      case (Cons z zs')
      have "span (z # zs') + n1 + span ys' = span (z # zs') + k + span ys" using span_join_next [OF assms(2)] by simp
      obtain ws where w: "ys' = ws @ vs" "8 + n1 + span ws = 8 + k + span zs"
        using assms(2) behind(2) Cons by (cases "(k, ys)" rule: join_next.cases) auto
      have "mark (span (xs @ Used d' # Free n1 # ws)) ((xs @ Used d' # Free n1 # ws) @ vs)" by (rule mark_of [OF u(3)])
      moreover have "span (xs @ Used d' # Free n1 # ws) = lf" using w(2) behind(1) u(2) assms(3) behind(2) by simp
      ultimately show ?thesis using w(1) by simp
    qed
  qed
  with False show ?thesis by (simp only: if_False)
qed

lemma shrink_heap:
  assumes "area_of s (xs @ Used d # ys)" "unat newsize + 16 < length d" "4 dvd unat newsize" "0 < unat newsize"
    "join_next (length d - unat newsize - 8) ys = (n1, ys')" "RT_ALIGN4 sz = newsize"
  obtains s' where "lua_realloc (lm_base s + span xs + 8) sz s = Some (lm_base s + span xs + 8, s')"
    "area_of s' (xs @ Used (take (unat newsize) d) # Free n1 # ys')" "lm_base s' = lm_base s" "lm_size s' = lm_size s"
    "lm_free s' = (if n1 \<noteq> length d - unat newsize - 8 \<and> lm_free s = span xs + 8 + length d then span xs + 8 + unat newsize else lm_free s)"
proof -
  let ?p = "span xs" and ?e = "heap_end s" and ?k = "unat newsize" and ?r = "length d - unat newsize - 8"
  let ?d = "take ?k d" and ?p2 = "span xs + 8 + unat newsize"
  have h: "blocks (lm_mem s) 0 0 (xs @ Used d # ys)" "?e = span (xs @ Used d # ys)" "mark (lm_free s) (xs @ Used d # ys)"
    "tidy (xs @ Used d # ys)" "0 < lm_base s" "unat (lm_size s) + 8 < 2 ^ 24" "span (xs @ Used d # ys) = unat (lm_size s) + 8"
    using assms(1) heap_end_of [OF assms(1)] by (auto simp: area_of_def)
  have b: "blk_at (lm_mem s) ?p (last_at 0 0 xs) (Used d)" using h(1) by (simp only: blocks_mid)
  then obtain x where x: "hm_get (lm_mem s) ?p = Some x" "hm_next x = ?p + 8 + length d" "hm_used x = 1"
    "slice (lm_mem s) (?p + 8) (length d) = d" by (auto simp: blk_at_Used)
  let ?f = "\<lambda>_. \<lparr>hm_magic = HEAP_MAGIC, hm_next = hm_next x, hm_used = 0, hm_prev = ?p\<rparr>" and ?g = "\<lambda>h. h\<lparr>hm_next := ?p2\<rparr>"
  have k: "?k + 8 \<le> blen (Used d)" using assms(2) by simp
  obtain m1 m2 m3 where m: "hm_upd ?p2 ?f (lm_mem s) = Some m1" "hm_upd ?p ?g m1 = Some m2"
    "(if hm_next x \<noteq> ?e then hm_upd (hm_next x) (\<lambda>x. x\<lparr>hm_prev := ?p2\<rparr>) m2 else Some m2) = Some m3"
    "length m3 = length (lm_mem s)" "blocks m3 0 0 (xs @ Used (slice (lm_mem s) (?p + 8) ?k) # Free ?r # ys)"
    using split_block [OF h(1) x(1) k refl, of ?f ?g ?e] h(2) x(3) by (auto simp del: span_append span.simps)
  have "slice (lm_mem s) (?p + 8) ?k = take ?k (slice (lm_mem s) (?p + 8) (length d))"
    using assms(2) by (simp add: slice_def)
  then have d: "slice (lm_mem s) (?p + 8) ?k = ?d" by (simp add: x(4))
  have B: "blocks m3 0 0 ((xs @ [Used ?d]) @ Free ?r # ys)" using m(5) by (simp add: d)
  have ld: "length ?d = ?k" using assms(2) by simp
  have e: "?e = span ((xs @ [Used ?d]) @ Free ?r # ys)" using h(2) ld assms(2) by simp
  have jp: "join_prev (xs @ [Used ?d]) n1 = (xs @ [Used ?d], n1)" by (simp add: join_prev_def)
  have p2: "span (xs @ [Used ?d]) = ?p2" using ld by simp
  let ?lf = "if lm_free s = ?p2 \<or> n1 \<noteq> ?r \<and> lm_free s = ?p2 + 8 + ?r then ?p2 else lm_free s"
  obtain m4 where m4: "plug_holes ?e ?p2 (m3, lm_free s) = Some (m4, ?lf)" "blocks m4 0 0 ((xs @ [Used ?d]) @ Free n1 # ys')"
    "length m4 = length m3"
    by (rule plug_holes_join [OF B e assms(5) jp, of "lm_free s"]) (simp only: p2)
  have room: "hm_room ?p x = length d" using room_at [OF b x(1)] by simp
  have ln: "length d < 2 ^ 24" using h(6,7) by simp
  let ?size = "word_of_nat (length d) :: u32"
  have us: "unat ?size = length d" using ln by (simp add: unat_of_nat)
  have c: "?size \<noteq> newsize" "newsize + 8 + 8 < ?size" "\<not> lm_size s < newsize"
    using assms(2) us ln h(7) by (auto simp: word_less_nat_alt unat_word_ariths)
  have ill: "\<not> lua_illegal s (lm_base s + ?p + 8)" using h(2) assms(2) by (cases d) (auto simp: lua_illegal_def)
  let ?s = "s\<lparr>lm_mem := m4, lm_free := ?lf, lm_used := lm_used s - (?size - newsize)\<rparr>"
  have "lua_realloc (lm_base s + ?p + 8) sz s = Some (lm_base s + ?p + 8, ?s)"
    unfolding lua_realloc_def Let_def assms(6)
    using c ill h(5) x(1) m(1-3) m4(1) by (simp add: hm_of_def room)
  moreover have t: "tidy (xs @ Used ?d # Free n1 # ys')"
    "taken (xs @ Used ?d # Free n1 # ys') + (length d - ?k) = taken (xs @ Used d # ys)"
    "span (xs @ Used ?d # Free n1 # ys') = span (xs @ Used d # ys)"
  proof -
    have r: "4 dvd ?r" using h(4) assms(3) by (simp add: tidy_parts tidy_Cons dvd_diff_nat)
    have tn: "4 dvd n1 \<and> 0 < n1 \<and> tidy ys' \<and> (ys' = [] \<or> \<not> is_free (hd ys')) \<and> taken ys' = taken ys"
      by (rule tidy_join_next [OF assms(5) r]) (use assms(2) h(4) in \<open>auto simp: tidy_parts tidy_Cons\<close>)
    then show "tidy (xs @ Used ?d # Free n1 # ys')" "taken (xs @ Used ?d # Free n1 # ys') + (length d - ?k) = taken (xs @ Used d # ys)"
      "span (xs @ Used ?d # Free n1 # ys') = span (xs @ Used d # ys)"
      using h(4) ld assms(2-4) span_join_next [OF assms(5)] by (auto simp: tidy_parts tidy_Cons)
  qed
  moreover have "lm_used s - (?size - newsize) = word_of_nat (taken (xs @ Used ?d # Free n1 # ys'))"
  proof -
    have "?size - newsize = word_of_nat (length d - ?k)" using assms(2) by simp
    with t(2) assms(1) show ?thesis unfolding area_of_def by (metis add_diff_cancel_right' of_nat_add)
  qed
  moreover have "mark ?lf (xs @ Used ?d # Free n1 # ys')"
  proof -
    have "span (Used ?d # Free ?r # ys) = span (Used d # ys)" using ld assms(2) by simp
    from mark_shrink [OF h(3) assms(5) this] show ?thesis unfolding ld .
  qed
  ultimately have "area_of ?s (xs @ Used ?d # Free n1 # ys')"
    using assms(1) m4(2,3) m(4) by (simp add: area_of_def)
  moreover have "lm_free s \<noteq> ?p2"
  proof
    assume "lm_free s = ?p2"
    with h(3) obtain us vs where u: "xs @ Used d # ys = us @ vs" "?p2 = span us" by (metis mark_split)
    show False
      using u assms(2) by (auto simp: append_eq_append_conv2 append_eq_Cons_conv Cons_eq_append_conv)
  qed
  then have "?lf = (if n1 \<noteq> ?r \<and> lm_free s = ?p + 8 + length d then ?p2 else lm_free s)" using assms(2) by auto
  ultimately show thesis using that [of ?s] \<open>lua_realloc _ _ _ = _\<close> by simp
qed

section \<open>The contents as a map\<close>

text \<open>The used blocks, by the addresses that the client has.\<close>

fun live :: "nat \<Rightarrow> blk list \<Rightarrow> nat \<Rightarrow> byte list option" where
  "live p [] = Map.empty"
| "live p (Free n # bs) = live (p + 8 + n) bs"
| "live p (Used d # bs) = (live (p + 8 + length d) bs)(p + 8 \<mapsto> d)"

definition holds :: "lua_heap \<Rightarrow> (nat \<Rightarrow> byte list option) \<Rightarrow> bool" where
  "holds s L = (\<exists>bs. area_of s bs \<and> L = live (lm_base s) bs)"

lemma live_dom: "live p bs a = Some d \<Longrightarrow> p + 8 \<le> a \<and> a + length d \<le> p + span bs"
  by (induction p bs rule: live.induct) (fastforce split: if_splits)+

lemma live_split: "live p bs a = Some d \<Longrightarrow> \<exists>xs ys. bs = xs @ Used d # ys \<and> a = p + span xs + 8"
proof (induction p bs rule: live.induct)
  case (2 p n bs)
  then obtain xs ys where "bs = xs @ Used d # ys" "a = p + 8 + n + span xs + 8" by auto
  then show ?case by (intro exI [of _ "Free n # xs"] exI [of _ ys]) simp
next
  case (3 p d' bs)
  show ?case
  proof (cases "a = p + 8")
    case True
    with 3 show ?thesis by (intro exI [of _ "[]"] exI [of _ bs]) simp
  next
    case False
    with 3 obtain xs ys where "bs = xs @ Used d # ys" "a = p + 8 + length d' + span xs + 8" by auto
    then show ?thesis by (intro exI [of _ "Used d' # xs"] exI [of _ ys]) simp
  qed
qed simp

lemma live_append: "live p (as @ bs) = live p as ++ live (p + span as) bs"
proof (induction p as rule: live.induct)
  case (3 p d as)
  have "live (p + span (Used d # as)) bs (p + 8) = None"
    using live_dom [of "p + span (Used d # as)" bs "p + 8"] by (cases "live (p + span (Used d # as)) bs (p + 8)") auto
  with 3 show ?case by (auto simp: fun_eq_iff map_add_def add.assoc split: option.split)
qed (simp_all add: add.assoc)

lemma live_mid:
  "live p (xs @ Used d # ys) = (live p (xs @ Free (length d) # ys))(p + span xs + 8 \<mapsto> d)"
  "live p (xs @ Free n # ys) (p + span xs + 8) = None"
proof -
  show "live p (xs @ Used d # ys) = (live p (xs @ Free (length d) # ys))(p + span xs + 8 \<mapsto> d)"
    by (simp add: live_append map_add_upd)
  have "live p xs (p + span xs + 8) = None"
    using live_dom [of p xs "p + span xs + 8"] by (cases "live p xs (p + span xs + 8)") auto
  moreover have "live (p + span xs + 8 + n) ys (p + span xs + 8) = None"
    using live_dom [of "p + span xs + 8 + n" ys "p + span xs + 8"]
    by (cases "live (p + span xs + 8 + n) ys (p + span xs + 8)") auto
  ultimately show "live p (xs @ Free n # ys) (p + span xs + 8) = None" by (simp add: live_append map_add_def)
qed

lemma live_cut:
  assumes "length d = cut sz n" "0 < sz"
  shows "live p (xs @ Used d # rest_of sz n @ ys) = (live p (xs @ Free n # ys))(p + span xs + 8 \<mapsto> d)"
proof -
  have "live q (rest_of sz n @ ys) = live (q + n - length d) ys" for q
    using assms by (auto simp: cut_def rest_of_def intro!: arg_cong2 [where f = live])
  then have "live (p + span xs + 8 + length d) (rest_of sz n @ ys) = live (p + span xs + 8 + n) ys"
    by (simp add: add.assoc)
  then show ?thesis by (simp only: live_append [of p xs] live.simps map_add_upd)
qed

lemma live_join_next: "join_next n ys = (n1, ys') \<Longrightarrow> live p (Free n1 # ys') = live p (Free n # ys)"
  by (cases "(n, ys)" rule: join_next.cases) (auto simp: add.assoc)

lemma live_join_prev: "join_prev xs n = (xs', n') \<Longrightarrow> live p (xs' @ Free n' # ys) = live p (xs @ Free n # ys)"
proof (cases xs rule: rev_cases)
  case (snoc zs z)
  assume "join_prev xs n = (xs', n')"
  with snoc show ?thesis by (cases z) (auto simp: join_prev_def live_append add.assoc)
qed (simp add: join_prev_def)

lemma live_join:
  assumes "join_next (length d) ys = (n1, ys')" "join_prev xs n1 = (xs', n')"
  shows "live p (xs' @ Free n' # ys') = (live p (xs @ Used d # ys))(p + span xs + 8 := None)"
proof -
  have "live p (xs' @ Free n' # ys') = live p (xs @ Free (length d) # ys)"
    unfolding live_join_prev [OF assms(2)] using live_join_next [OF assms(1)] by (simp only: live_append)
  then show ?thesis using live_mid(2) [of p xs "length d" ys] by (auto simp: live_mid(1) fun_eq_iff)
qed

section \<open>The operations on the map\<close>

lemma holds_malloc:
  assumes "holds s L"
  obtains q s' where "lua_malloc sz s = Some (q, s')" "lm_base s' = lm_base s" "lm_size s' = lm_size s"
    "q = 0 \<and> s' = s \<or> (\<exists>d. q \<noteq> 0 \<and> L q = None \<and> lua_size sz \<le> length d \<and> holds s' (L(q \<mapsto> d)))"
proof -
  obtain bs where h: "area_of s bs" "L = live (lm_base s) bs" using assms by (auto simp: holds_def)
  then have "mark (lm_free s) bs" by (simp add: area_of_def)
  then obtain as cs where c: "bs = as @ cs" "lm_free s = span as" "cs = [] \<or> is_free (hd cs)" by (rule mark_split)
  show thesis
  proof (cases "lua_fit sz s cs")
    case None
    with malloc_none [OF h(1) [unfolded c(1)] c(2)] that show thesis by blast
  next
    case (Some r)
    then obtain xs n ds where f: "lua_fit sz s cs = Some (xs, n, ds)" by (cases r) auto
    obtain s' d where s': "lua_malloc sz s = Some (lm_base s + span (as @ xs) + 8, s')" "length d = cut (lua_size sz) n"
      "area_of s' (as @ xs @ Used d # rest_of (lua_size sz) n @ ds)" "lm_base s' = lm_base s" "lm_size s' = lm_size s"
      by (rule malloc_some [OF h(1) [unfolded c(1)] c(2,3) f])
    have ff: "cs = xs @ Free n # ds" "lua_size sz \<le> n"
      using f by (auto simp: lua_fit_def dest!: first_fit_Some split: if_splits)
    have "0 < lua_size sz" using lua_size_dvd(2) [of sz] by simp
    from live_cut [OF s'(2) this, of "lm_base s" "as @ xs" ds]
    have "holds s' (L(lm_base s + span (as @ xs) + 8 \<mapsto> d))"
      using s'(3,4) h(2) c(1) ff(1) unfolding holds_def by auto
    moreover have "L (lm_base s + span (as @ xs) + 8) = None"
      using live_mid(2) [of "lm_base s" "as @ xs" n ds] h(2) c(1) ff(1) by simp
    moreover have "lua_size sz \<le> length d" using s'(2) ff(2) by (simp add: cut_def)
    ultimately show thesis using that [OF s'(1,4,5)] by (metis add_is_0 zero_neq_numeral)
  qed
qed

lemma holds_free:
  assumes "holds s L" "L a = Some d"
  obtains s' where "lua_free a s = Some s'" "holds s' (L(a := None))" "lm_base s' = lm_base s" "lm_size s' = lm_size s"
proof -
  obtain bs where h: "area_of s bs" "L = live (lm_base s) bs" using assms(1) by (auto simp: holds_def)
  then obtain xs ys where b: "bs = xs @ Used d # ys" "a = lm_base s + span xs + 8" using live_split assms(2) by blast
  obtain n1 ys' where j: "join_next (length d) ys = (n1, ys')" by fastforce
  obtain xs' n' where j': "join_prev xs n1 = (xs', n')" by fastforce
  obtain s' where s': "lua_free a s = Some s'" "area_of s' (xs' @ Free n' # ys')" "lm_base s' = lm_base s" "lm_size s' = lm_size s"
    unfolding b(2) by (rule free_heap [OF h(1) [unfolded b(1)] j j'])
  have "holds s' (L(a := None))"
    unfolding holds_def using s'(2,3) live_join [OF j j', of "lm_base s"] h(2) b by auto
  with that s' show thesis by blast
qed

text \<open>Reading and writing inside a block.\<close>

lemma slice_blit_in:
  assumes "i + length x \<le> n" "q + n \<le> length m"
  shows "slice (blit m (q + i) x) q n = blit (slice m q n) i x"
proof (rule nth_equalityI)
  fix k assume "k < length (slice (blit m (q + i) x) q n)"
  then have k: "k < n" using assms by simp
  consider "k < i" | "i \<le> k" "k < i + length x" | "i + length x \<le> k" by linarith
  then show "slice (blit m (q + i) x) q n ! k = blit (slice m q n) i x ! k"
  proof cases
    case 2
    then have "blit m (q + i) x ! (q + i + (k - i)) = x ! (k - i)" "blit (slice m q n) i x ! (i + (k - i)) = x ! (k - i)"
      using assms by (intro blit_nth_same; simp)+
    with 2 k assms show ?thesis by (simp add: slice_def)
  qed (use k assms in \<open>simp_all add: blit_nth_before blit_nth_after slice_def\<close>)
qed (use assms in simp)

lemma holds_read:
  assumes "holds s L" "L a = Some d"
  shows "4 dvd a \<and> lm_base s \<le> a \<and> a + length d \<le> lm_base s + length (lm_mem s) \<and> slice (lm_mem s) (a - lm_base s) (length d) = d"
proof -
  obtain bs where h: "area_of s bs" "L = live (lm_base s) bs" using assms(1) by (auto simp: holds_def)
  then obtain xs ys where b: "bs = xs @ Used d # ys" "a = lm_base s + span xs + 8" using live_split assms(2) by blast
  have "4 dvd span zs" if "tidy zs" for zs using that by (induction zs) (simp_all add: tidy_Cons)
  then have "4 dvd span xs" "4 dvd lm_base s" using h(1) b(1) by (simp_all add: area_of_def tidy_parts)
  then have "4 dvd a" unfolding b(2) by presburger
  moreover have "slice (lm_mem s) (span xs + 8) (length d) = d"
    using h(1) unfolding area_of_def b(1) blocks_mid blk_at_Used by blast
  moreover have "a + length d \<le> lm_base s + length (lm_mem s)" using h(1) by (simp add: area_of_def b)
  ultimately show ?thesis by (simp add: b(2))
qed

lemma holds_disjoint:
  assumes "holds s L" "L a = Some d" "L b = Some c" "a < b"
  shows "a + length d \<le> b"
proof -
  obtain bs where h: "area_of s bs" "L = live (lm_base s) bs" using assms(1) by (auto simp: holds_def)
  obtain xs ys where x: "bs = xs @ Used d # ys" "a = lm_base s + span xs + 8" using live_split assms(2) h(2) by blast
  have "live (lm_base s) (xs @ Used d # ys) b = Some c" using assms(3) h(2) x(1) by simp
  then have "live (lm_base s) xs b = Some c \<or> live (lm_base s + span xs + 8 + length d) ys b = Some c"
    using assms(4) x(2) by (auto simp: live_append map_add_def split: option.splits if_splits)
  with assms(4) x(2) live_dom show ?thesis by fastforce
qed

lemma holds_write:
  assumes "holds s L" "L a = Some d" "i + length x \<le> length d"
  shows "a - lm_base s + i + length x \<le> length (lm_mem s)
    \<and> holds (s\<lparr>lm_mem := blit (lm_mem s) (a - lm_base s + i) x\<rparr>) (L(a \<mapsto> blit d i x))"
proof -
  obtain bs where h: "area_of s bs" "L = live (lm_base s) bs" using assms(1) by (auto simp: holds_def)
  then obtain xs ys where b: "bs = xs @ Used d # ys" "a = lm_base s + span xs + 8" using live_split assms(2) by blast
  let ?q = "span xs + 8" and ?m = "lm_mem s"
  let ?m' = "blit ?m (?q + i) x" and ?d = "blit d i x"
  have B: "seg ?m 0 0 xs" "blk_at ?m (span xs) (last_at 0 0 xs) (Used d)" "blocks ?m (?q + length d) (span xs) ys"
    "length ?m = span bs + 8"
    using h(1) b(1) by (auto simp: area_of_def blocks_mid)
  have len: "?q + length d + span ys + 8 = length ?m" using B(4) b(1) by simp
  have same: "slice ?m' j n = slice ?m j n" if "j + n \<le> ?q \<or> ?q + length d \<le> j" "j + n \<le> length ?m" for j n
    using that assms(3) len by (intro slice_blit_out) auto
  have lm: "length ?m' = length ?m" using assms(3) len by simp
  have "seg ?m' 0 0 xs" by (rule seg_slice [OF _ lm B(1)]) (rule same; use len in simp)
  moreover have "blocks ?m' (?q + length d) (span xs) ys" by (rule blocks_slice [OF _ lm B(3)]) (rule same; use len in simp)
  moreover have "blk_at ?m' (span xs) (last_at 0 0 xs) (Used ?d)"
  proof -
    have g: "hm_get ?m' (span xs) = hm_get ?m (span xs)" by (rule hm_get_slice [OF _ lm]) (rule same; use len in simp)
    have "slice ?m ?q (length d) = d" using B(2) unfolding blk_at_Used by blast
    then have "slice ?m' ?q (length d) = ?d" using slice_blit_in [OF assms(3), of ?q ?m] len by simp
    with B(2) g assms(3) show ?thesis by (auto simp: blk_at_Used)
  qed
  ultimately have "blocks ?m' 0 0 (xs @ Used ?d # ys)" using assms(3) by (simp add: blocks_mid)
  moreover have l: "length ?d = length d" using assms(3) by simp
  moreover have "tidy (xs @ Used ?d # ys)" "taken (xs @ Used ?d # ys) = taken bs" "span (xs @ Used ?d # ys) = span bs"
    using h(1) b(1) l by (auto simp: area_of_def tidy_parts tidy_Cons)
  moreover have "mark (lm_free s) (xs @ Used ?d # ys)"
  proof -
    have "mark (lm_free s) (xs @ Used d # ys)" using h(1) b(1) by (simp add: area_of_def)
    then obtain us vs where u: "xs @ Used d # ys = us @ vs" "lm_free s = span us" "vs = [] \<or> is_free (hd vs)" by (rule mark_split)
    consider (before) zs where "xs = us @ zs" "vs = zs @ Used d # ys" | (behind) zs where "us = xs @ Used d # zs" "ys = zs @ vs"
      using u(1) by (auto simp: append_eq_append_conv2 append_eq_Cons_conv Cons_eq_append_conv)
    then show ?thesis
    proof cases
      case before
      then have "zs \<noteq> []" using u(3) by auto
      with before u(2,3) mark_of [of "zs @ Used ?d # ys" us] show ?thesis by (cases zs) auto
    next
      case behind
      with u(2,3) l mark_of [of vs "xs @ Used ?d # zs"] show ?thesis by simp
    qed
  qed
  ultimately have "area_of (s\<lparr>lm_mem := ?m'\<rparr>) (xs @ Used ?d # ys)" using h(1) b(1) lm by (simp add: area_of_def)
  moreover have "live (lm_base s) (xs @ Used ?d # ys) = L(a \<mapsto> ?d)"
    using h(2) b l live_mid(1) [of "lm_base s" xs d ys] live_mid(1) [of "lm_base s" xs ?d ys] by simp
  ultimately have "holds (s\<lparr>lm_mem := ?m'\<rparr>) (L(a \<mapsto> ?d))" unfolding holds_def by (intro exI) auto
  then show ?thesis using b(2) assms(3) len by (simp add: add.assoc)
qed

lemma malloc_zero: "lua_malloc 0 s = Some (0, s)"
  by (simp add: lua_malloc_def)

lemma RT_ALIGN4_small: "0 < unat n \<Longrightarrow> unat n \<le> 2 ^ 32 - 4 \<Longrightarrow> 0 < unat (RT_ALIGN4 n)"
  using RT_ALIGN4_le [of n] by simp

text \<open>A reallocation keeps what fits, at the same place or at a new one.\<close>

lemma holds_realloc:
  assumes "holds s L" "L a = Some d" "0 < unat sz" "unat sz \<le> 2 ^ 32 - 4"
  obtains q s' where "lua_realloc a sz s = Some (q, s')" "lm_base s' = lm_base s" "lm_size s' = lm_size s"
    "q = 0 \<and> s' = s \<or> (\<exists>d'. q \<noteq> 0 \<and> unat sz \<le> length d' \<and> take (min (unat sz) (length d)) d' = take (min (unat sz) (length d)) d
      \<and> (q = a \<or> L q = None) \<and> holds s' ((L(a := None))(q \<mapsto> d')))"
proof -
  define new where "new = RT_ALIGN4 sz"
  have new: "unat sz \<le> unat new" "4 dvd unat new" "0 < unat new" "RT_ALIGN4 new = new"
    using RT_ALIGN4_le [OF assms(4)] RT_ALIGN4_dvd [of sz] RT_ALIGN4_small [OF assms(3,4)] RT_ALIGN4_id [of "RT_ALIGN4 sz"]
    by (simp_all add: new_def)
  obtain bs where h: "area_of s bs" "L = live (lm_base s) bs" using assms(1) by (auto simp: holds_def)
  then obtain xs ys where b: "bs = xs @ Used d # ys" "a = lm_base s + span xs + 8" using live_split assms(2) by blast
  have hh: "blk_at (lm_mem s) (span xs) (last_at 0 0 xs) (Used d)" "heap_end s = span bs" "0 < lm_base s" "0 < length d"
    "span bs = unat (lm_size s) + 8" "unat (lm_size s) + 8 < 2 ^ 24"
    using h(1) heap_end_of [OF h(1)] b(1) by (auto simp: area_of_def blocks_mid tidy_parts tidy_Cons)
  then obtain x where x: "hm_get (lm_mem s) (span xs) = Some x" by (auto simp: blk_at_def)
  have room: "hm_room (span xs) x = length d" using room_at [OF hh(1) x] by simp
  have us: "unat (word_of_nat (length d) :: u32) = length d" using hh(5,6) b(1) by (simp add: unat_of_nat)
  have ill: "\<not> lua_illegal s a" "a \<noteq> 0" "hm_of s a = Some (span xs)"
    using hh(2-4) b by (auto simp: lua_illegal_def hm_of_def)
  consider (big) "lm_size s < new" | (same) "\<not> lm_size s < new" "length d = unat new"
    | (shrink) "\<not> lm_size s < new" "unat new + 16 < length d"
    | (move) "\<not> lm_size s < new" "length d \<noteq> unat new" "\<not> unat new + 16 < length d" by linarith
  then show thesis
  proof cases
    case big
    then have "lua_realloc a sz s = Some (0, s)" by (simp add: lua_realloc_def new_def)
    with that show thesis by blast
  next
    case same
    then have "word_of_nat (length d) = new" by simp
    with same x ill have "lua_realloc a sz s = Some (a, s)"
      by (simp add: lua_realloc_def new_def [symmetric] Let_def room)
    moreover have "(L(a := None))(a \<mapsto> d) = L" using assms(2) by auto
    ultimately show thesis
      by (intro that [of a s]) (use assms(1) ill(2) new(1) same(2) in \<open>auto intro!: exI [of _ d]\<close>)
  next
    case shrink
    obtain n1 ys' where j: "join_next (length d - unat new - 8) ys = (n1, ys')" by fastforce
    obtain s' where s': "lua_realloc a sz s = Some (a, s')" "area_of s' (xs @ Used (take (unat new) d) # Free n1 # ys')"
      "lm_base s' = lm_base s" "lm_size s' = lm_size s"
      unfolding b(2) by (rule shrink_heap [OF h(1) [unfolded b(1)] shrink(2) new(2,3) j]) (auto simp: new_def)
    let ?d = "take (unat new) d"
    have l: "length ?d = unat new" using shrink(2) by simp
    have "live (lm_base s) (xs @ Free (length ?d) # Free n1 # ys') = live (lm_base s) (xs @ Free (length d) # ys)"
      using live_join_next [OF j, of "lm_base s + span xs + 8 + unat new"] shrink(2) by (simp add: live_append l ac_simps)
    then have "live (lm_base s) (xs @ Used ?d # Free n1 # ys') = (live (lm_base s) (xs @ Free (length d) # ys))(a \<mapsto> ?d)"
      by (simp only: live_mid(1) [of "lm_base s" xs ?d] b(2))
    then have "holds s' ((L(a := None))(a \<mapsto> ?d))"
      using s'(2,3) h(2) b live_mid(1) [of "lm_base s" xs d ys] unfolding holds_def by auto
    then show thesis
      by (intro that [OF s'(1,3,4)] disjI2 exI [of _ ?d]) (use ill(2) l new(1) shrink(2) in \<open>auto simp: min_def\<close>)
  next
    case move
    then have c: "word_of_nat (length d) \<noteq> new" "\<not> new + 8 + 8 < word_of_nat (length d)"
      using us hh(5,6) by (auto simp: word_less_nat_alt unat_word_ariths)
    obtain q s1 where m: "lua_malloc new s = Some (q, s1)" "lm_base s1 = lm_base s" "lm_size s1 = lm_size s"
      "q = 0 \<and> s1 = s \<or> (\<exists>d. q \<noteq> 0 \<and> L q = None \<and> lua_size new \<le> length d \<and> holds s1 (L(q \<mapsto> d)))"
      by (rule holds_malloc [OF assms(1)])
    have start: "lua_realloc a sz s = (if q = 0 then Some (0, s1) else do {
        m \<leftarrow> blit_chk (lm_mem s1) (q - lm_base s1) (slice (lm_mem s1) (a - lm_base s1) (unat (min (word_of_nat (length d)) new)));
        s \<leftarrow> lua_free a (s1\<lparr>lm_mem := m\<rparr>); Some (q, s) })"
      using move(1) c x ill m(1) by (simp add: lua_realloc_def new_def [symmetric] Let_def room)
    show thesis
    proof (cases "q = 0")
      case True
      with m(4) start that show thesis by auto
    next
      case False
      with m(4) obtain d0 where d0: "L q = None" "lua_size new \<le> length d0" "holds s1 (L(q \<mapsto> d0))" by blast
      have qa: "q \<noteq> a" using d0(1) assms(2) by auto
      let ?k = "min (length d) (unat new)"
      have k: "unat (min (word_of_nat (length d)) new) = ?k" using us by (simp add: min_def word_le_nat_alt)
      have L1: "(L(q \<mapsto> d0)) a = Some d" using qa assms(2) by simp
      have "slice (lm_mem s1) (a - lm_base s1) ?k = take ?k d"
        using holds_read [OF d0(3) L1] by (metis min.cobounded1 slice_def take_take min.absorb1)
      moreover have le: "0 + length (take ?k d) \<le> length d0" using d0(2) new(4) by (simp add: lua_size_def min.coboundedI2)
      note w = holds_write [OF d0(3) _ le, of q, simplified]
      let ?d = "blit d0 0 (take ?k d)" and ?s = "s1\<lparr>lm_mem := blit (lm_mem s1) (q - lm_base s1) (take ?k d)\<rparr>"
      have w1: "holds ?s (L(q \<mapsto> ?d))" "q - lm_base s1 + length (take ?k d) \<le> length (lm_mem s1)" using w by simp_all
      moreover have "(L(q \<mapsto> ?d)) a = Some d" using qa assms(2) by simp
      then obtain s2 where s2: "lua_free a ?s = Some s2" "holds s2 ((L(q \<mapsto> ?d))(a := None))"
        "lm_base s2 = lm_base ?s" "lm_size s2 = lm_size ?s"
        using holds_free [OF w1(1)] by metis
      ultimately have "lua_realloc a sz s = Some (q, s2)" using start False k by (simp add: blit_chk_def)
      moreover have "holds s2 ((L(a := None))(q \<mapsto> ?d))" using s2(2) qa by (simp add: fun_upd_twist)
      moreover have "length ?d = length d0" using le by simp
      moreover have "take (min (unat sz) (length d)) ?d = take (min (unat sz) (length d)) d"
        using new(1) by (auto simp: blit_def min_def)
      moreover have "unat sz \<le> length d0" using d0(2) new(1,4) by (simp add: lua_size_def)
      ultimately show thesis
        by (intro that [of q s2] disjI2 exI [of _ ?d]) (use s2(3,4) m(2,3) False d0(1) in auto)
    qed
  qed
qed

section \<open>The contract of the interpreter\<close>

lemma holds_null: "holds s L \<Longrightarrow> L 0 = None"
  using holds_read [of s L 0] by (cases "L 0") (auto simp: holds_def area_of_def)

lemma RT_ALIGN_DOWN4_dvd: "4 dvd unat (RT_ALIGN_DOWN4 n)"
  unfolding RT_ALIGN_DOWN4_def align4 by simp

text \<open>
  The memory that \<open>lua_system_heap_init\<close> gets: room for the two headers and a block, less than
  16 megabytes, and not at address 0.
\<close>

definition lua_room :: "u32 \<Rightarrow> u32 \<Rightarrow> bool" where
  "lua_room b e = (0 < unat b \<and> unat b \<le> 2 ^ 32 - 4 \<and> unat (RT_ALIGN4 b) + 24 \<le> unat (RT_ALIGN_DOWN4 e)
     \<and> unat (RT_ALIGN_DOWN4 e) \<le> unat (RT_ALIGN4 b) + 2 ^ 24)"

lemma init_heap:
  assumes "lua_room b e" "\<And>x y. length (area x y) = unat y" "lm_used s0 = 0"
  obtains s n where "lua_system_heap_init b e area s0 = Some s" "area_of s [Free n]" "n + 16 = unat (RT_ALIGN_DOWN4 e) - unat (RT_ALIGN4 b)"
    "lm_base s = unat (RT_ALIGN4 b)"
proof -
  let ?b = "RT_ALIGN4 b" and ?e = "RT_ALIGN_DOWN4 e"
  let ?M = "?e - ?b - 16"
  have r: "0 < unat ?b" "unat ?b + 24 \<le> unat ?e" "unat ?e \<le> unat ?b + 2 ^ 24"
    using assms(1) RT_ALIGN4_le [of b] by (auto simp: lua_room_def)
  obtain N where N: "unat ?e = unat ?b + 16 + N" "8 \<le> N" "N + 8 < 2 ^ 24"
    using r(2,3) that [of "unat ?e - unat ?b - 16"] by simp
  have M: "unat ?M = N" "unat (?M + 8) = N + 8" "unat (?M + 16) = N + 16"
  proof -
    have "unat (?e - ?b) = unat ?e - unat ?b" using r by (intro unat_sub) (simp add: word_le_nat_alt)
    moreover from this have "unat (?e - ?b - 16) = unat (?e - ?b) - 16" using r by (subst unat_sub) (simp_all add: word_le_nat_alt)
    ultimately show "unat ?M = N" using N(1) by simp
    then have "unat ?M + unat (8 :: u32) < 2 ^ 32" "unat ?M + unat (16 :: u32) < 2 ^ 32" "unat ?M = N" using N by simp_all
    moreover have "unat (x + k) = unat x + unat k" if "unat x + unat k < 2 ^ 32" for x k :: u32
      using that by (simp add: unat_word_ariths)
    ultimately have "unat (?M + 8) = N + unat (8 :: u32)" "unat (?M + 16) = N + unat (16 :: u32)" by metis+
    then show "unat (?M + 8) = N + 8" "unat (?M + 16) = N + 16" by simp_all
  qed
  have g: "16 < ?e \<and> ?b \<le> ?e - 16"
  proof -
    have l: "16 \<le> ?e" using r by (simp add: word_le_nat_alt)
    show ?thesis using r unat_sub [OF l] by (simp add: word_le_nat_alt word_less_nat_alt)
  qed
  let ?m = "area ?b (?M + 16)" and ?fin = "N + 8"
  have len: "length ?m = N + 16" using assms(2) M(3) by simp
  let ?h = "\<lparr>hm_magic = HEAP_MAGIC, hm_next = ?fin, hm_used = 0, hm_prev = 0\<rparr>"
    and ?g = "\<lparr>hm_magic = HEAP_MAGIC, hm_next = ?fin, hm_used = 1, hm_prev = ?fin\<rparr>"
  have lim: "?fin < 2 ^ 24" using N by simp
  obtain x where "hm_get ?m 0 = Some x" using len by (auto simp: hm_get_def)
  then obtain m1 where m1: "hm_upd 0 (\<lambda>_. ?h) ?m = Some m1" "hm_get m1 0 = Some ?h" "length m1 = length ?m"
    "\<And>i n. i + n \<le> length ?m \<Longrightarrow> i + n \<le> 0 \<or> 0 + 8 \<le> i \<Longrightarrow> slice m1 i n = slice ?m i n"
    using hm_upd_get [of ?m 0 x "\<lambda>_. ?h"] lim by auto
  obtain y where "hm_get m1 ?fin = Some y" using len m1(3) by (auto simp: hm_get_def)
  then obtain m2 where m2: "hm_upd ?fin (\<lambda>_. ?g) m1 = Some m2" "hm_get m2 ?fin = Some ?g" "length m2 = length m1"
    "\<And>i n. i + n \<le> length m1 \<Longrightarrow> i + n \<le> ?fin \<or> ?fin + 8 \<le> i \<Longrightarrow> slice m2 i n = slice m1 i n"
    using hm_upd_get [of m1 ?fin y "\<lambda>_. ?g"] lim by auto
  have "hm_get m2 0 = hm_get m1 0" by (rule hm_get_slice) (use m2(3,4) len m1(3) in simp_all)
  then have bl: "blocks m2 0 0 [Free N]" using m1(2) m2(2) by (simp add: blk_at_Free end_at_def add.commute)
  let ?s = "s0\<lparr>lm_mem := m2, lm_base := unat ?b, lm_size := ?M, lm_free := 0\<rparr>"
  have "lua_system_heap_init b e area s0 = Some ?s"
    unfolding lua_system_heap_init_def Let_def M(2) if_P [OF g] using m1(1) m2(1) by simp
  moreover have "4 dvd N" using RT_ALIGN4_dvd [of b] RT_ALIGN_DOWN4_dvd [of e] unfolding N(1) by presburger
  then have "area_of ?s [Free N]"
    using bl m2(3) m1(3) len M(1) r(1) N(2,3) RT_ALIGN4_dvd [of b] mark_of [of "[Free N]" "[]"] assms(3)
    by (simp add: area_of_def tidy_Cons)
  ultimately show thesis using that N(1) by simp
qed

text \<open>
  A run: the interpreter calls \<open>l_alloc\<close> with 0 or an address that it has, and writes inside its
  blocks; the map follows. A new block comes with all of its room. Sizes are at most
  \<open>2 ^ 32 - 4\<close>: larger ones are aligned to 0.
\<close>

definition content :: "lua_heap \<Rightarrow> nat \<Rightarrow> byte list" where
  "content s a = (let p = a - lm_base s - 8 in slice (lm_mem s) (p + 8) (hm_room p (the (hm_get (lm_mem s) p))))"

inductive lua_run :: "lua_heap \<Rightarrow> (nat \<Rightarrow> byte list option) \<Rightarrow> bool" where
  start: "lua_room b e \<Longrightarrow> \<forall>x y. length (area x y) = unat y \<Longrightarrow> lm_used s0 = 0
    \<Longrightarrow> lua_system_heap_init b e area s0 = Some s \<Longrightarrow> lua_run s Map.empty"
| call: "lua_run s L \<Longrightarrow> p = 0 \<or> p \<in> dom L \<Longrightarrow> unat n \<le> 2 ^ 32 - 4 \<Longrightarrow> l_alloc p n s = Some (q, s')
    \<Longrightarrow> L' = (if n = 0 then L(p := None) else if q = 0 then L else (L(p := None))(q \<mapsto> content s' q))
    \<Longrightarrow> lua_run s' L'"
| store: "lua_run s L \<Longrightarrow> L a = Some d \<Longrightarrow> i + length x \<le> length d
    \<Longrightarrow> lua_run (s\<lparr>lm_mem := blit (lm_mem s) (a - lm_base s + i) x\<rparr>) (L(a \<mapsto> blit d i x))"

lemma holds_content:
  assumes "holds s L" "L a = Some d"
  shows "content s a = d"
proof -
  obtain bs where h: "area_of s bs" "L = live (lm_base s) bs" using assms(1) by (auto simp: holds_def)
  then obtain xs ys where b: "bs = xs @ Used d # ys" "a = lm_base s + span xs + 8" using live_split assms(2) by blast
  have "blk_at (lm_mem s) (span xs) (last_at 0 0 xs) (Used d)" using h(1) unfolding area_of_def b(1) blocks_mid by blast
  moreover from this obtain x where "hm_get (lm_mem s) (span xs) = Some x" "slice (lm_mem s) (span xs + 8) (length d) = d"
    by (auto simp: blk_at_Used)
  ultimately show ?thesis using room_at by (fastforce simp: content_def b(2))
qed

lemma alloc_contract:
  assumes "holds s L" "p = 0 \<or> p \<in> dom L" "unat n \<le> 2 ^ 32 - 4"
  obtains q s' where "l_alloc p n s = Some (q, s')" "n = 0 \<longrightarrow> q = 0 \<and> holds s' (L(p := None))"
    "n \<noteq> 0 \<longrightarrow> q = 0 \<and> s' = s \<or> (\<exists>d'. q \<noteq> 0 \<and> unat n \<le> length d' \<and> (q = p \<or> L q = None)
      \<and> (\<forall>d. L p = Some d \<longrightarrow> take (min (unat n) (length d)) d' = take (min (unat n) (length d)) d)
      \<and> holds s' ((L(p := None))(q \<mapsto> d')))"
proof (cases "p = 0")
  case True
  note null = holds_null [OF assms(1)]
  have L: "L(p := None) = L" using True null by auto
  show thesis
  proof (cases "n = 0")
    case True
    with \<open>p = 0\<close> have "l_alloc p n s = Some (0, s)" by (simp add: l_alloc_def lua_free_def)
    with that [of 0 s] True L assms(1) show thesis by simp
  next
    case False
    show thesis
    proof (cases "lm_size s < RT_ALIGN4 n")
      case True
      with \<open>p = 0\<close> False have "l_alloc p n s = Some (0, s)" by (simp add: l_alloc_def lua_realloc_def Let_def)
      with that [of 0 s] False show thesis by simp
    next
      case small: False
      obtain q s' where m: "lua_malloc (RT_ALIGN4 n) s = Some (q, s')"
        "q = 0 \<and> s' = s \<or> (\<exists>d. q \<noteq> 0 \<and> L q = None \<and> lua_size (RT_ALIGN4 n) \<le> length d \<and> holds s' (L(q \<mapsto> d)))"
        by (rule holds_malloc [OF assms(1)])
      have "l_alloc p n s = Some (q, s')" using \<open>p = 0\<close> False small m(1) by (simp add: l_alloc_def lua_realloc_def Let_def)
      moreover have "unat n \<le> lua_size (RT_ALIGN4 n)"
        using RT_ALIGN4_le [OF assms(3)] RT_ALIGN4_id [OF RT_ALIGN4_dvd [of n]] by (simp add: lua_size_def le_max_iff_disj)
      ultimately show thesis using that [of q s'] m(2) False L null \<open>p = 0\<close> by (metis le_trans option.distinct(1))
    qed
  qed
next
  case False
  with assms(2) obtain d where d: "L p = Some d" by auto
  show thesis
  proof (cases "n = 0")
    case True
    obtain s' where "lua_free p s = Some s'" "holds s' (L(p := None))" by (rule holds_free [OF assms(1) d])
    with that [of 0 s'] True show thesis by (simp add: l_alloc_def)
  next
    case n: False
    then have "0 < unat n" by (simp add: unat_gt_0)
    from holds_realloc [OF assms(1) d this assms(3)] obtain q s' where r: "lua_realloc p n s = Some (q, s')"
      "q = 0 \<and> s' = s \<or> (\<exists>d'. q \<noteq> 0 \<and> unat n \<le> length d' \<and> take (min (unat n) (length d)) d' = take (min (unat n) (length d)) d
      \<and> (q = p \<or> L q = None) \<and> holds s' ((L(p := None))(q \<mapsto> d')))" by metis
    then show thesis using that [of q s'] n d by (auto simp: l_alloc_def)
  qed
qed

lemma run_holds: "lua_run s L \<Longrightarrow> holds s L"
proof (induction rule: lua_run.induct)
  case (start b e area s0 s)
  obtain s' n where "lua_system_heap_init b e area s0 = Some s'" "area_of s' [Free n]"
    using init_heap [of b e area s0] start(1-3) by metis
  with start(4) show ?case unfolding holds_def by (intro exI [of _ "[Free n]"]) simp
next
  case (call s L p n q s' L')
  from call.IH call.hyps(2,3) obtain q2 s2 where r: "l_alloc p n s = Some (q2, s2)" "n = 0 \<longrightarrow> q2 = 0 \<and> holds s2 (L(p := None))"
    "n \<noteq> 0 \<longrightarrow> q2 = 0 \<and> s2 = s \<or> (\<exists>d'. q2 \<noteq> 0 \<and> unat n \<le> length d' \<and> (q2 = p \<or> L q2 = None)
      \<and> (\<forall>d. L p = Some d \<longrightarrow> take (min (unat n) (length d)) d' = take (min (unat n) (length d)) d)
      \<and> holds s2 ((L(p := None))(q2 \<mapsto> d')))"
    by (rule alloc_contract)
  with call.hyps(4) have e: "q2 = q" "s2 = s'" by simp_all
  show ?case
  proof (cases "n = 0 \<or> q = 0")
    case True
    with r e call show ?thesis by auto
  next
    case False
    with r(3) e obtain d' where h: "holds s' ((L(p := None))(q \<mapsto> d'))" by auto
    have "content s' q = d'" by (rule holds_content [OF h]) simp
    with call.hyps(5) False have "L' = (L(p := None))(q \<mapsto> d')" by (simp only: if_False)  simp
    with h show ?thesis by (simp only:)
  qed
next
  case (store s L a d i x)
  then show ?case using holds_write by blast
qed

section \<open>The interface of the allocator\<close>

text \<open>What the interpreter relies on, and growing a block in several steps, as its tables do.\<close>

fun grow :: "(nat \<Rightarrow> u32 \<Rightarrow> 's \<Rightarrow> (nat \<times> 's) option) \<Rightarrow> nat \<Rightarrow> u32 list \<Rightarrow> 's \<Rightarrow> (nat \<times> 's) option" where
  "grow f p [] s = Some (p, s)"
| "grow f p (n # ns) s = do { (q, s') \<leftarrow> f p n s; if q = 0 then Some (p, s') else grow f q ns s' }"

locale allocator =
  fixes ok :: "'s \<Rightarrow> (nat \<Rightarrow> byte list option) \<Rightarrow> bool"
    and f :: "nat \<Rightarrow> u32 \<Rightarrow> 's \<Rightarrow> (nat \<times> 's) option"
  assumes null: "ok s L \<Longrightarrow> L 0 = None"
    and resize: "ok s L \<Longrightarrow> L p = Some d \<Longrightarrow> n \<noteq> 0 \<Longrightarrow> unat n \<le> 2 ^ 32 - 4 \<Longrightarrow> \<exists>q s'. f p n s = Some (q, s')
      \<and> (q = 0 \<and> s' = s \<or> (\<exists>d'. q \<noteq> 0 \<and> unat n \<le> length d' \<and> (q = p \<or> L q = None)
        \<and> take (min (unat n) (length d)) d' = take (min (unat n) (length d)) d \<and> ok s' ((L(p := None))(q \<mapsto> d'))))"
begin

lemma grow_keeps:
  assumes "ok s L" "L p = Some d" "k \<le> length d" "\<forall>n \<in> set ns. k \<le> unat n \<and> unat n \<le> 2 ^ 32 - 4 \<and> n \<noteq> 0"
  shows "\<exists>q s' d'. grow f p ns s = Some (q, s') \<and> ok s' ((L(p := None))(q \<mapsto> d')) \<and> take k d' = take k d
    \<and> k \<le> length d' \<and> (q = p \<or> L q = None)"
  using assms
proof (induction ns arbitrary: s L p d)
  case Nil
  then have "(L(p := None))(p \<mapsto> d) = L" by auto
  then have "ok s ((L(p := None))(p \<mapsto> d))" using Nil(1) by (simp only:)
  then show ?case using Nil(3) by (metis grow.simps(1))
next
  case (Cons n ns)
  have n: "k \<le> unat n" "unat n \<le> 2 ^ 32 - 4" "n \<noteq> 0" using Cons.prems(4) by simp_all
  obtain q s1 where r: "f p n s = Some (q, s1)" "q = 0 \<and> s1 = s \<or> (\<exists>d'. q \<noteq> 0 \<and> unat n \<le> length d' \<and> (q = p \<or> L q = None)
      \<and> take (min (unat n) (length d)) d' = take (min (unat n) (length d)) d \<and> ok s1 ((L(p := None))(q \<mapsto> d')))"
    using resize [OF Cons.prems(1,2) n(3,2)] by blast
  show ?case
  proof (cases "q = 0")
    case True
    have "(L(p := None))(p \<mapsto> d) = L" using Cons.prems(2) by auto
    then have "ok s ((L(p := None))(p \<mapsto> d))" using Cons.prems(1) by (simp only:)
    moreover have "grow f p (n # ns) s = Some (p, s)" using True r by auto
    ultimately show ?thesis using Cons.prems(3) by blast
  next
    case False
    with r(2) obtain d1 where d1: "unat n \<le> length d1" "q = p \<or> L q = None"
      "take (min (unat n) (length d)) d1 = take (min (unat n) (length d)) d" "ok s1 ((L(p := None))(q \<mapsto> d1))" by blast
    let ?L = "(L(p := None))(q \<mapsto> d1)"
    have "take k (take (min (unat n) (length d)) d1) = take k (take (min (unat n) (length d)) d)" using d1(3) by simp
    then have t: "take k d1 = take k d" using n(1) Cons.prems(3) by (simp add: min_def split: if_splits)
    have "?L q = Some d1" "k \<le> length d1" "\<forall>n \<in> set ns. k \<le> unat n \<and> unat n \<le> 2 ^ 32 - 4 \<and> n \<noteq> 0"
      using d1(1) n(1) Cons.prems(4) by auto
    from Cons.IH [OF d1(4) this] obtain q2 s2 d2 where g: "grow f q ns s1 = Some (q2, s2)" "ok s2 ((?L(q := None))(q2 \<mapsto> d2))"
      "take k d2 = take k d1" "k \<le> length d2" "q2 = q \<or> ?L q2 = None" by blast
    have q: "?L(q := None) = L(p := None)" using d1(2) by auto
    have "q2 = p \<or> L q2 = None" using g(5) d1(2) by (auto split: if_splits)
    moreover have "grow f p (n # ns) s = Some (q2, s2)" using r(1) False g(1) by simp
    moreover have "ok s2 ((L(p := None))(q2 \<mapsto> d2))" using g(2) by (simp only: q)
    moreover have "take k d2 = take k d" using g(3) t by simp
    ultimately show ?thesis using g(4) by blast
  qed
qed

end

lemma holds_resize:
  assumes "holds s L" "L p = Some d" "n \<noteq> 0" "unat n \<le> 2 ^ 32 - 4"
  shows "\<exists>q s'. l_alloc p n s = Some (q, s') \<and> (q = 0 \<and> s' = s \<or> (\<exists>d'. q \<noteq> 0 \<and> unat n \<le> length d' \<and> (q = p \<or> L q = None)
    \<and> take (min (unat n) (length d)) d' = take (min (unat n) (length d)) d \<and> holds s' ((L(p := None))(q \<mapsto> d'))))"
proof -
  have "p = 0 \<or> p \<in> dom L" using assms(2) by auto
  from alloc_contract [OF assms(1) this assms(4)] obtain q s' where "l_alloc p n s = Some (q, s')"
    "n \<noteq> 0 \<longrightarrow> q = 0 \<and> s' = s \<or> (\<exists>d'. q \<noteq> 0 \<and> unat n \<le> length d' \<and> (q = p \<or> L q = None)
      \<and> (\<forall>d. L p = Some d \<longrightarrow> take (min (unat n) (length d)) d' = take (min (unat n) (length d)) d)
      \<and> holds s' ((L(p := None))(q \<mapsto> d')))" by metis
  with assms(2,3) show ?thesis by auto
qed

interpretation lua: allocator holds l_alloc
  by unfold_locales (fact holds_null, fact holds_resize)

lemma holds_pos: "holds s L \<Longrightarrow> L a = Some d \<Longrightarrow> 0 < length d"
proof -
  assume h: "holds s L" "L a = Some d"
  then obtain bs xs ys where "area_of s bs" "bs = xs @ Used d # ys" unfolding holds_def using live_split by blast
  then show ?thesis by (simp add: area_of_def tidy_parts tidy_Cons)
qed

section \<open>Properties\<close>

text \<open>
  C16. Whatever the interpreter does with its memory, its blocks are aligned, lie inside the area,
  do not overlap and keep what was written to them, and every further call of \<open>l_alloc\<close> with 0 or
  one of its addresses returns, for sizes that can be aligned.
\<close>

theorem lua_heap_safe:
  assumes "lua_run s L"
  shows "(\<forall>a d. L a = Some d \<longrightarrow> 4 dvd a \<and> lm_base s \<le> a \<and> a + length d \<le> lm_base s + length (lm_mem s)
      \<and> slice (lm_mem s) (a - lm_base s) (length d) = d)
    \<and> (\<forall>a b d c. L a = Some d \<and> L b = Some c \<and> a < b \<longrightarrow> a + length d \<le> b)
    \<and> (\<forall>p n. (p = 0 \<or> p \<in> dom L) \<and> unat n \<le> 2 ^ 32 - 4 \<longrightarrow> l_alloc p n s \<noteq> None)"
proof (intro conjI allI impI)
  note h = run_holds [OF assms]
  show "a + length d \<le> b" if "L a = Some d \<and> L b = Some c \<and> a < b" for a b d c using holds_disjoint [OF h] that by blast
  show "l_alloc p n s \<noteq> None" if "(p = 0 \<or> p \<in> dom L) \<and> unat n \<le> 2 ^ 32 - 4" for p n
    using alloc_contract [OF h, of p n] that by (metis option.distinct(1))
qed (use holds_read [OF run_holds [OF assms]] in blast)+

text \<open>
  C17. \<open>l_alloc\<close> is what the interpreter asks for: size 0 releases the block and gives 0; another
  size gives 0 and changes nothing, or gives a block with at least that room, which begins with
  what fits of the old content, in the place of the old block or of none; all other blocks keep
  their content.
\<close>

theorem lua_alloc_contract:
  assumes "lua_run s L" "p = 0 \<or> p \<in> dom L" "unat n \<le> 2 ^ 32 - 4" "n \<noteq> 0"
  shows "\<exists>q s'. l_alloc p n s = Some (q, s') \<and> (q = 0 \<and> s' = s \<or> (\<exists>d'. unat n \<le> length d' \<and> (q = p \<or> L q = None)
      \<and> (\<forall>d. L p = Some d \<longrightarrow> take (min (unat n) (length d)) d' = take (min (unat n) (length d)) d)
      \<and> lua_run s' ((L(p := None))(q \<mapsto> d'))))
    \<and> (\<exists>s'. l_alloc p 0 s = Some (0, s') \<and> lua_run s' (L(p := None)))"
proof -
  note h = run_holds [OF assms(1)]
  obtain s0 where f: "l_alloc p 0 s = Some (0, s0)"
    using alloc_contract [OF h assms(2), of 0] by (metis unat_0 zero_le)
  have f0: "lua_run s0 (L(p := None))" by (rule lua_run.call [OF assms(1,2) _ f]) simp_all
  obtain q s' where r: "l_alloc p n s = Some (q, s')" "q = 0 \<and> s' = s \<or> (\<exists>d'. q \<noteq> 0 \<and> unat n \<le> length d' \<and> (q = p \<or> L q = None)
      \<and> (\<forall>d. L p = Some d \<longrightarrow> take (min (unat n) (length d)) d' = take (min (unat n) (length d)) d)
      \<and> holds s' ((L(p := None))(q \<mapsto> d')))"
    using alloc_contract [OF h assms(2,3)] assms(4) by metis
  have "lua_run s' ((L(p := None))(q \<mapsto> d'))" if "q \<noteq> 0" "holds s' ((L(p := None))(q \<mapsto> d'))" for d'
  proof -
    have "content s' q = d'" by (rule holds_content [OF that(2)]) simp
    then show ?thesis by (intro lua_run.call [OF assms(1-3) r(1)]) (use that(1) assms(4) in simp)
  qed
  with r f f0 show ?thesis by blast
qed

text \<open>
  Growing a block in steps, as the tables of the interpreter do, ends with a block that still
  begins with the content it had, also when a step fails.
\<close>

theorem lua_grow_keeps:
  assumes "lua_run s L" "L p = Some d" "\<forall>n \<in> set ns. length d \<le> unat n \<and> unat n \<le> 2 ^ 32 - 4"
  shows "\<exists>q s' d'. grow l_alloc p ns s = Some (q, s') \<and> holds s' ((L(p := None))(q \<mapsto> d')) \<and> take (length d) d' = d"
proof -
  note h = run_holds [OF assms(1)]
  have "\<forall>n \<in> set ns. length d \<le> unat n \<and> unat n \<le> 2 ^ 32 - 4 \<and> n \<noteq> 0" using assms(3) holds_pos [OF h assms(2)] by auto
  from lua.grow_keeps [OF h assms(2) order_refl this] show ?thesis by auto
qed

text \<open>
  C23. An allocation fails exactly when no free block has room, as long as none is below the
  pointer to the lowest free block; but the last block of the area is not taken when it fits
  exactly.
\<close>

theorem lua_malloc_complete:
  assumes "area_of s bs" "\<forall>xs n ys. bs = xs @ Free n # ys \<longrightarrow> lm_free s \<le> span xs" "sz \<noteq> 0"
  shows "\<exists>q s'. lua_malloc sz s = Some (q, s')
    \<and> (q = 0 \<longleftrightarrow> (\<forall>xs n ys. bs = xs @ Free n # ys \<longrightarrow> n < lua_size sz \<or> n = lua_size sz \<and> ys = []))"
proof -
  let ?N = "lua_size sz" and ?M = "unat (lm_size s)"
  have h: "mark (lm_free s) bs" "span bs = ?M + 8" "8 \<le> ?M" using assms(1) by (simp_all add: area_of_def)
  obtain as cs where c: "bs = as @ cs" "lm_free s = span as" "cs = [] \<or> is_free (hd cs)" by (rule mark_split [OF h(1)])
  note H = assms(1) [unfolded c(1)]
  show ?thesis
  proof (cases "lua_fit sz s cs")
    case None
    have "n < ?N \<or> n = ?N \<and> ys = []" if b: "bs = xs @ Free n # ys" for xs n ys
    proof (cases "?N \<le> n")
      case True
      have n: "span xs + 8 + n + span ys = ?M + 8" using h(2) b by simp
      then have "unat (RT_ALIGN4 sz) \<le> ?M" using True by (simp add: lua_size_def)
      then have "first_fit (?M - ?N) ?N (span as) cs = None"
        using None assms(3) c(2) by (simp add: lua_fit_def word_less_nat_alt split: if_splits)
      moreover have "\<exists>zs. xs = as @ zs"
      proof (rule ccontr)
        assume no: "\<nexists>zs. xs = as @ zs"
        have "as @ cs = xs @ Free n # ys" using b c(1) by simp
        with no have "\<exists>zs. as = xs @ zs \<and> zs \<noteq> []" by (auto simp: append_eq_append_conv2)
        then obtain zs where "as = xs @ zs" "zs \<noteq> []" by blast
        moreover have "lm_free s \<le> span xs" using assms(2) b by blast
        ultimately show False using c(2) by (cases zs) simp_all
      qed
      then obtain zs where zs: "xs = as @ zs" by blast
      moreover have "cs = zs @ Free n # ys" using b c(1) zs by simp
      ultimately have "?M - ?N \<le> span xs" using first_fit_None True by fastforce
      with n True have "n = ?N" "span ys = 0" by linarith+
      then show ?thesis by (cases ys) simp_all
    qed simp
    with malloc_none [OF H c(2) None] show ?thesis by (intro exI [of _ 0] exI [of _ s]) blast
  next
    case (Some r)
    then obtain xs n ds where f: "lua_fit sz s cs = Some (xs, n, ds)" by (cases r) auto
    obtain s' d where m: "lua_malloc sz s = Some (lm_base s + span (as @ xs) + 8, s')"
      by (rule malloc_some [OF H c(2,3) f])
    have ff: "cs = xs @ Free n # ds" "?N \<le> n" "span as + span xs < ?M - ?N"
      using f c(2) by (auto simp: lua_fit_def dest!: first_fit_Some split: if_splits)
    then have b: "bs = (as @ xs) @ Free n # ds" using c(1) by simp
    have "\<not> (n < ?N \<or> n = ?N \<and> ds = [])"
      using ff h(2) b by auto
    with b have "\<not> (\<forall>xs n ys. bs = xs @ Free n # ys \<longrightarrow> n < ?N \<or> n = ?N \<and> ys = [])" by blast
    with m show ?thesis by (intro exI [of _ "lm_base s + span (as @ xs) + 8"] exI [of _ s']) simp
  qed
qed

text \<open>
  C37. A reallocation can hide memory: when the first of two used blocks before the only free one
  shrinks, its rest is free but stays below the pointer to the lowest free block, and an
  allocation that would fit there fails.
\<close>

theorem lua_realloc_hides:
  assumes "area_of s [Used a, Used b, Free n]" "lm_free s = span [Used a, Used b]"
    "0 < unat m" "unat (RT_ALIGN4 m) + 16 < length a" "unat m \<le> 2 ^ 32 - 4"
    "sz \<noteq> 0" "n < lua_size sz" "lua_size sz \<le> length a - unat (RT_ALIGN4 m) - 8"
  shows "\<exists>s'. lua_realloc (lm_base s + 8) m s = Some (lm_base s + 8, s')
    \<and> area_of s' [Used (take (unat (RT_ALIGN4 m)) a), Free (length a - unat (RT_ALIGN4 m) - 8), Used b, Free n]
    \<and> lua_malloc sz s' = Some (0, s')"
proof -
  let ?m = "unat (RT_ALIGN4 m)" and ?k = "length a - unat (RT_ALIGN4 m) - 8"
  have j: "join_next ?k [Used b, Free n] = (?k, [Used b, Free n])" by simp
  have m: "0 < ?m" by (rule RT_ALIGN4_small [OF assms(3,5)])
  have H: "area_of s ([] @ Used a # [Used b, Free n])" using assms(1) by simp
  obtain s' where s': "lua_realloc (lm_base s + span [] + 8) m s = Some (lm_base s + span [] + 8, s')"
    "area_of s' ([] @ Used (take ?m a) # Free ?k # [Used b, Free n])" "lm_base s' = lm_base s" "lm_size s' = lm_size s"
    "lm_free s' = (if ?k \<noteq> ?k \<and> lm_free s = span [] + 8 + length a then span [] + 8 + ?m else lm_free s)"
    by (rule shrink_heap [OF H assms(4) RT_ALIGN4_dvd m j refl])
  let ?as = "[Used (take ?m a), Free ?k, Used b]"
  have "lm_free s' = span ?as" using s'(5) assms(2,4) by simp
  moreover from this have "lua_fit sz s' [Free n] = None" using assms(7) by (simp add: lua_fit_def)
  moreover have "area_of s' (?as @ [Free n])" using s'(2) by simp
  ultimately have "lua_malloc sz s' = Some (0, s')" by (intro malloc_none [of s' ?as "[Free n]" sz])
  with s'(1,2) show ?thesis by (intro exI [of _ s']) simp
qed

section \<open>Witnesses\<close>

text \<open>An area of 40 bytes, and a block of 8 bytes in it.\<close>

definition lw_zero :: "u32 \<Rightarrow> u32 \<Rightarrow> byte list" where "lw_zero b n = replicate (unat n) 0"
definition lw_off :: lua_heap where "lw_off = \<lparr>lm_mem = [], lm_base = 0, lm_size = 0, lm_free = 0, lm_used = 0, lm_max = 0\<rparr>"
definition lw_init :: lua_heap where
  "lw_init = \<lparr>lm_mem = [0xde,32,0,0,0,0,0,0] @ replicate 24 0 @ [0xde,32,0,0,1,32,0,0],
     lm_base = 0x1000, lm_size = 24, lm_free = 0, lm_used = 0, lm_max = 0\<rparr>"
definition lw_one :: lua_heap where
  "lw_one = \<lparr>lm_mem = [0xde,16,0,0,1,0,0,0] @ replicate 8 0 @ [0,32,0,0,0,0,0,0] @ replicate 8 0 @ [0xde,32,0,0,1,32,0,0],
     lm_base = 0x1000, lm_size = 24, lm_free = 16, lm_used = 16, lm_max = 16\<rparr>"

lemmas lw_eval = lw_init_def lw_one_def hm_upd_def hm_get_def hm_dec_def hm_enc_def nat24_def bytes24_def
  slice_def blit_def HEAP_MAGIC_def

lemma lw_init: "lua_system_heap_init 0x1000 0x1028 lw_zero lw_off = Some lw_init"
  by (simp add: lua_system_heap_init_def lw_zero_def lw_off_def RT_ALIGN4_def RT_ALIGN_DOWN4_def lw_eval)

lemma lw_find: "mal_find (lm_mem lw_init) 16 8 0 = Some (Some 0)"
  by (subst mal_find.simps) (simp add: lw_eval hm_room_def)

lemma lw_take: "mal_take 32 8 0 (lm_mem lw_init) = Some (lm_mem lw_one, 16)"
  by (simp add: mal_take_def lw_eval hm_room_def)

lemma lw_next: "next_free (lm_mem lw_one) 32 0 = Some 16"
  by (subst next_free.simps, simp add: lw_eval) (subst next_free.simps, simp add: lw_eval)

lemma lw_magic: "hm_upd 0 (\<lambda>h. h\<lparr>hm_magic := HEAP_MAGIC\<rparr>) (lm_mem lw_one) = Some (lm_mem lw_one)"
  by (simp add: lw_eval)

lemma lw_one: "l_alloc 0 7 lw_init = Some (0x1008, lw_one)"
proof -
  have "lua_malloc 8 lw_init = Some (0x1008, lw_one)"
    using lw_find lw_take lw_next lw_magic unfolding lua_malloc_def by (simp add: RT_ALIGN4_def heap_end_def lw_init_def) (simp add: lw_one_def)
  then show ?thesis by (simp add: l_alloc_def lua_realloc_def RT_ALIGN4_def lw_init_def)
qed

lemma lw_run: "lua_run lw_one [0x1008 \<mapsto> replicate 8 0]"
proof -
  have i: "lua_run lw_init Map.empty"
    by (rule lua_run.start [OF _ _ _ lw_init]) (simp_all add: lua_room_def RT_ALIGN4_def RT_ALIGN_DOWN4_def lw_zero_def lw_off_def)
  have c: "content lw_one 0x1008 = replicate 8 0"
    by (simp add: content_def lw_eval hm_room_def)
  show ?thesis by (rule lua_run.call [OF i _ _ lw_one]) (simp_all add: c)
qed

lemma lua_heap_safe_witness:
  "l_alloc 0x1008 20 lw_one \<noteq> None \<and> slice (lm_mem lw_one) 8 8 = replicate 8 0"
proof -
  note h = lua_heap_safe [OF lw_run]
  have "unat (20 :: u32) \<le> 2 ^ 32 - 4" "(0x1008 :: nat) \<in> dom [0x1008 \<mapsto> replicate 8 (0 :: byte)]" by simp_all
  with h have "l_alloc 0x1008 20 lw_one \<noteq> None" by blast
  moreover have "slice (lm_mem lw_one) (0x1008 - lm_base lw_one) (length (replicate 8 (0 :: byte))) = replicate 8 0" using h by (meson fun_upd_same)
  ultimately show ?thesis by (simp add: lw_one_def)
qed

lemma lua_alloc_contract_witness:
  "(\<exists>q s'. l_alloc 0x1008 4 lw_one = Some (q, s') \<and> (q = 0 \<and> s' = lw_one
      \<or> (\<exists>d'. 4 \<le> length d' \<and> take 4 d' = replicate 4 0 \<and> lua_run s' [q \<mapsto> d'])))
    \<and> (\<exists>s'. l_alloc 0x1008 0 lw_one = Some (0, s') \<and> lua_run s' Map.empty)"
proof -
  have m: "[0x1008 \<mapsto> replicate 8 (0 :: byte)](0x1008 := None) = Map.empty" by auto
  have a: "(0x1008 :: nat) = 0 \<or> 0x1008 \<in> dom [0x1008 \<mapsto> replicate 8 (0 :: byte)]" "unat (4 :: u32) \<le> 2 ^ 32 - 4" "(4 :: u32) \<noteq> 0"
    by simp_all
  have u: "unat (4 :: u32) = 4" "min (unat (4 :: u32)) (length (replicate 8 (0 :: byte))) = 4" "take 4 (replicate 8 (0 :: byte)) = replicate 4 0"
    by simp_all
  show ?thesis using lua_alloc_contract [OF lw_run a, unfolded m] u by (metis fun_upd_same)
qed

lemma lua_grow_keeps_witness:
  "\<exists>q s' d'. grow l_alloc 0x1008 [8, 20] lw_one = Some (q, s') \<and> holds s' [q \<mapsto> d'] \<and> take 8 d' = replicate 8 0"
proof -
  have m: "[0x1008 \<mapsto> replicate 8 (0 :: byte)](0x1008 := None) = Map.empty" by auto
  have a: "[0x1008 \<mapsto> replicate 8 (0 :: byte)] 0x1008 = Some (replicate 8 (0 :: byte))"
    "\<forall>n \<in> set [8, 20 :: u32]. length (replicate 8 (0 :: byte)) \<le> unat n \<and> unat n \<le> 2 ^ 32 - 4"
    by simp_all
  show ?thesis using lua_grow_keeps [OF lw_run a, unfolded m length_replicate] .
qed

lemma lw_init_heap: "area_of lw_init [Free 24]"
proof -
  have "mark 0 [Free 24]" unfolding mark_def by (intro disjI2 exI [of _ "[]"] exI [of _ 24]) simp
  then show ?thesis by (simp add: area_of_def blk_at_def end_at_def tidy_def lw_eval)
qed

lemma lua_malloc_complete_witness:
  "\<exists>q s'. lua_malloc 7 lw_init = Some (q, s') \<and> q \<noteq> 0"
proof -
  have a: "\<forall>xs n ys. [Free 24] = xs @ Free n # ys \<longrightarrow> lm_free lw_init \<le> span xs" "(7 :: u32) \<noteq> 0" by (simp_all add: lw_init_def)
  have "\<not> (\<forall>xs n ys. [Free 24] = xs @ Free n # ys \<longrightarrow> n < lua_size 7 \<or> n = lua_size 7 \<and> ys = [])"
    by (simp add: Cons_eq_append_conv lua_size_def RT_ALIGN4_def)
  with lua_malloc_complete [OF lw_init_heap a] show ?thesis by blast
qed

text \<open>Blocks of 24 and 8 bytes, and 8 free ones behind them.\<close>

definition lw_two :: lua_heap where
  "lw_two = \<lparr>lm_mem = [0xde,32,0,0,1,0,0,0] @ replicate 24 7 @ [0xde,48,0,0,1,0,0,0] @ replicate 8 5
       @ [0,64,0,0,0,32,0,0] @ replicate 8 0 @ [0xde,64,0,0,1,64,0,0],
     lm_base = 0x1000, lm_size = 56, lm_free = 48, lm_used = 48, lm_max = 48\<rparr>"

lemma lw_two_heap: "area_of lw_two [Used (replicate 24 7), Used (replicate 8 5), Free 8]"
proof -
  have "mark 48 [Used (replicate 24 7), Used (replicate 8 5), Free 8]"
    unfolding mark_def by (intro disjI2 exI [of _ "[Used (replicate 24 7), Used (replicate 8 5)]"] exI [of _ 8] exI [of _ "[]"]) simp
  then show ?thesis by (simp add: area_of_def blk_at_def end_at_def tidy_def lw_two_def lw_eval)
qed

lemma lua_realloc_hides_witness:
  "\<exists>s'. lua_realloc 0x1008 1 lw_two = Some (0x1008, s') \<and> area_of s' [Used (replicate 4 7), Free 12, Used (replicate 8 5), Free 8]
    \<and> lua_malloc 12 s' = Some (0, s')"
proof -
  have u: "unat (RT_ALIGN4 1) = 4" "lua_size 12 = 12" by (simp_all add: RT_ALIGN4_def lua_size_def)
  have a: "lm_free lw_two = span [Used (replicate 24 7), Used (replicate 8 5)]" "lm_base lw_two + 8 = 0x1008"
    "take 4 (replicate 24 7) = replicate 4 (7 :: byte)"
    by (simp_all add: lw_two_def)
  show ?thesis using lua_realloc_hides [OF lw_two_heap a(1), of 1 12] by (simp add: u a(2,3))
qed

end
