(* ===== verification/Spec2Isabelle.thy ===== *)
theory Spec2Isabelle
  imports Hjt212_Cycle Bjdc_Cycle Dlt645 Threaddog ByteBuffer SyncPolls RegBoot LuaMem
begin

text \<open>
  Verification development for the firmware of the RTU gateway (NXP K64, RT-Thread), whose
  own code is under \<open>src/software/RTU_Terminal\<close>; paths below are relative to that directory.

  \<^bold>\<open>The program.\<close> The gateway polls field devices (Modbus masters on its serial ports and
  sockets, DL/T 645 meters), keeps what it reads in a table of variables, and reports it
  upwards over HJ/T 212, the building-energy protocol and others. A list of variables, loaded from a database
  (\<open>board/storage.c\<close>) and edited over the web interface, says what to poll
  (\<open>drivers/varmanage\<close>). From it the polling list is built, which merges variables of one slave
  into requests; every serial port and socket has a thread that steps through its part of that
  list. DL/T 645 requests go through \<open>sdccp/dlt645.c\<close>, bytes of the serial ports are collected
  by \<open>sdccp/sdccp_serial.c\<close>, and the commands of the HJ/T 212 platform are received, answered
  and queued by \<open>sdccp/hjt212.c\<close>. The threads register with a watchdog (\<open>threaddog\<close>) which the
  main thread turns. A gateway is unlocked by a registration key (\<open>reg\<close>). Settings are kept in
  a file of checked areas (\<open>board/cfg\<close>). Lua scripts run in a memory of their own (\<open>board/lua\<close>).

  \<^bold>\<open>Theories.\<close> Each models the named code, in the order of that code, with its own types,
  operations and lemmas; C integers are words of their width, errors are constructors of a
  result type, and a read or write outside of an array or through a null or freed pointer is
  an error value and never an arbitrary result.

    \<^item> \<open>Prelude\<close>: byte and word types, byte order, list and map lemmas, the collections of hints.
    \<^item> \<open>Crc\<close>: \<open>board/rtcrc32.c\<close>, \<open>reg/rtu_crc32.c\<close>, \<open>applications/test/mdcrc32.c\<close>, \<open>mdcrc8.c\<close>,
      the CRC-16 of \<open>sdccp/cc_bjdc.c\<close> and of \<open>sdccp/hjt212.c\<close>. Tables equal polynomial
      division; a damaged byte is detected. The locale \<open>byte_check\<close> is what the step of a
      checksum has to satisfy for that.
    \<^item> \<open>CText\<close>: the parts of \<open>sscanf\<close>, \<open>sprintf\<close> and \<open>strstr\<close> which the parser needs.
    \<^item> \<open>Hjt212\<close>, \<open>Hjt212_Cmd\<close>: \<open>sdccp/hjt212.c\<close>. The encoder, the receive state machine byte by
      byte with its frame buffer and shared text buffer, the command parser, the password check,
      the message queue and the replies. A link invariant, delivery of a request end to end,
      rejection of damaged frames and of wrong passwords, and the faults of a frame that make the
      receiver leave an array, which are exactly those.
    \<^item> \<open>VarUp\<close>: what \<open>varmanage.c\<close> offers the upward protocols: values, averages, and the walk over
      the variables of one link.
    \<^item> \<open>Hjt212_Report\<close>, \<open>Hjt212_Work\<close>, \<open>Hjt212_Cycle\<close>: the upward side of \<open>sdccp/hjt212.c\<close>. The
      text of a variable, the three cyclic reports on
      the heap list of \<open>VarList\<close> and their reduction to walks over a list, the log-in and one turn
      of the work thread, opening a link. A round over variables of one node is complete; over
      several nodes it can hang or starve.
    \<^item> \<open>Xml\<close>: documents of Mini-XML (\<open>components/external/mxml\<close>) with the operations that the
      building-energy protocol calls: searches, children, attributes, building. Reading a
      text into a document is a parameter: the properties hold for whatever it makes of a text.
    \<^item> \<open>Aes\<close>: \<open>components/external/aes/aes.c\<close>, AES with 128-bit keys in CBC mode. Decryption undoes
      encryption; the steps are those of the standard.
    \<^item> \<open>Bjdc\<close>: the link of the building-energy protocol (\<open>sdccp/cc_bjdc.c\<close>): encrypted packets of
      XML text, the receive state machine, the messages it queues. What was sent is delivered; the
      receiver stays in its buffer.
    \<^item> \<open>Bjdc_Work\<close>, \<open>Bjdc_Cycle\<close>: the upward side of \<open>sdccp/cc_bjdc.c\<close>. The requests and reports
      as documents, with the search for the meter of a value; the log-in with its digest
      (\<open>Md5\<close>), and one turn of the work thread on the list of \<open>VarList\<close>. A turn on an Ethernet
      link always runs to its end, a report is complete; long intervals wrap, and a GPRS link
      reads its interval behind the array.
    \<^item> \<open>CFloat\<close>: \<open>float\<close> and \<open>double\<close> of the C code, rounding to the nearest number of the format;
      that the rounding is right, and the error of a decimal reading.
    \<^item> \<open>Dlt645\<close>: \<open>sdccp/dlt645.c\<close> with the receive buffer of \<open>sdccp/sdccp_serial.c\<close>. Packets,
      value decoding with its roundings, the frame parser as explicit reads of a buffer, the waiting loop.
    \<^item> \<open>BlockHash\<close>, \<open>Des\<close>, \<open>Md5\<close>, \<open>Sha\<close>: \<open>reg/rtu_des.c\<close>, \<open>sdccp/cc_md5.c\<close>, \<open>reg/rtu_md5.c\<close>,
      \<open>reg/rtu_sha.c\<close>. The locale \<open>block_buffer\<close> is the contract of a digest that takes single
      bytes, \<open>block_cipher\<close> that of a pair of inverse block functions.
    \<^item> \<open>BoardCfg\<close>: \<open>board/cfg/board_cfg.c\<close> and the Modbus checksum: a file of areas with checked
      reads and writes, on a file system whose calls can fail. The locale \<open>checked_areas\<close> is what
      the users of such a store rely on.
    \<^item> \<open>Reg\<close>, \<open>RegBoot\<close>: \<open>reg/rtu_reg.c\<close> and the counting of the trial in the idle task: the
      identifier, the key check (which composes \<open>Des\<close>, \<open>Md5\<close> and \<open>Sha\<close>), the registration in the
      file, the trial in the flash (\<open>checked_areas\<close> again), restarts and power cuts.
    \<^item> \<open>Threaddog\<close>: \<open>threaddog/threaddog.c\<close> and the loop of the main thread.
    \<^item> \<open>ByteBuffer\<close>: \<open>applications/test/bytebuffer.h\<close>, the byte streams of the cloud protocol.
    \<^item> \<open>LuaMem\<close>: \<open>board/lua/lua_mem.c\<close>, the allocator of the Lua scripts on the bytes of its area,
      and \<open>l_alloc\<close> (\<open>lauxlib.c\<close>), by which the interpreter calls it. It refines a map from addresses
      to contents, the locale \<open>allocator\<close>; what it does not find though it is free.
    \<^item> \<open>HeapList\<close>: linked lists on a heap with a finite supply of allocations; the locale
      \<open>linked\<close> (segments under an update of one node) and the locale \<open>refines\<close> (a heap program
      and the list function it implements).
    \<^item> \<open>VarData\<close>, \<open>VarList\<close>: \<open>drivers/varmanage/varmanage.c\<close>, the doubly linked list of variables,
      their strings, the sorting, the register flags, look-ups and error clearing.
    \<^item> \<open>SyncList\<close>, \<open>SyncPolls\<close>: the polling list of \<open>varmanage.c\<close>, as a program on the heap, and its
      refinement of list functions; what a round of polling covers.

  \<^bold>\<open>Loops, bounds and fuel.\<close> A loop over an array or a buffer is structural or has a measure.
  A walk over a linked list is \<open>partial_function (option)\<close>, so a cyclic list is the value
  None; the lemmas on lists that are well formed prove the walk returns. Waiting loops
  of the program take what their queue delivers as a list, one element for each turn; the end
  of that list is the time-out. The heap programs take the results of the
  allocations as a list; the polling list needs at most two for each variable. No theorem has
  a bound on the fuel in place of a proof that the loop ends.

  \<^bold>\<open>Not modelled.\<close> Floating-point arithmetic outside of \<open>dlt645.c\<close> (the operations that averages and
  their texts use are parameters; expressions over variables are missing), the preemption of threads by one another inside an operation (operations are
  atomic; their order is a sequence of steps), JSON and the web handlers, the text form of XML, SQL, device drivers
  and network sockets, start-up code, the sample programs, the Lua interpreter and its bindings, and the code of
  third parties (RT-Thread, lwIP, FreeModbus, SQLite, cJSON, CMSIS and the vendor's libraries)
  apart from the few functions named in the theories. Of \<open>hjt212.c\<close> and \<open>cc_bjdc.c\<close> the
  start and end of the thread and the waits for the network are missing; of \<open>varmanage.c\<close> the
  checks of a value against its limits, expressions and the JSON handlers.
\<close>

end
